(* ===== verification/Prelude.thy ===== *)
theory Prelude
  imports Main "HOL-Library.Word" "HOL-Library.Signed_Division"
begin

text \<open>
  Shared vocabulary of the development: the outcome type of a kernel operation, C integer
  conversions at 32 bits, byte strings and their little-endian encoding, and the generic
  facts on lists the component theories rest on.

  A kernel operation that can fail returns a value of type \<open>'a res\<close>. The left summand
  names how control is lost: a failed \<open>ASSERT\<close>, a \<open>PANIC\<close>, an access through a null,
  freed or out-of-range pointer, a thread that would sleep, or a model that ran out of the
  recursion depth it was given.
\<close>

unbundle bit_operations_syntax

section \<open>Outcomes\<close>

datatype kerror = AssertFail | Panic | PageFault | Blocked | OutOfFuel

type_synonym 'a res = "kerror + 'a"

type_synonym byte = "8 word"
type_synonym u32 = "32 word"
type_synonym u64 = "64 word"

definition rbind :: "'a res \<Rightarrow> ('a \<Rightarrow> 'b res) \<Rightarrow> 'b res" where
  "rbind m f = (case m of Inl e \<Rightarrow> Inl e | Inr x \<Rightarrow> f x)"

definition kassert :: "bool \<Rightarrow> 'a res \<Rightarrow> 'a res" where
  "kassert b k = (if b then k else Inl AssertFail)"

definition rguard :: "kerror \<Rightarrow> bool \<Rightarrow> 'a res \<Rightarrow> 'a res" where
  "rguard e b k = (if b then k else Inl e)"

named_theorems res_simps \<open>evaluation of the outcome combinators\<close>

named_theorems inv_intros \<open>preservation of the component invariants\<close>

lemma rbind_Inr [simp, res_simps]: "rbind (Inr x) f = f x"
  by (simp add: rbind_def)

lemma rbind_Inl [simp, res_simps]: "rbind (Inl e) f = Inl e"
  by (simp add: rbind_def)

lemma rbind_eq_Inr [simp, res_simps]:
  "rbind m f = Inr y \<longleftrightarrow> (\<exists>x. m = Inr x \<and> f x = Inr y)"
  by (cases m) auto

lemma rbind_eq_Inl:
  "rbind m f = Inl e \<longleftrightarrow> m = Inl e \<or> (\<exists>x. m = Inr x \<and> f x = Inl e)"
  by (cases m) auto

lemma kassert_True [simp, res_simps]: "kassert True k = k"
  by (simp add: kassert_def)

lemma kassert_False [simp, res_simps]: "kassert False k = Inl AssertFail"
  by (simp add: kassert_def)

lemma kassert_eq_Inr [simp, res_simps]: "kassert b k = Inr y \<longleftrightarrow> b \<and> k = Inr y"
  by (simp add: kassert_def)

lemma rguard_True [simp, res_simps]: "rguard e True k = k"
  by (simp add: rguard_def)

lemma rguard_False [simp, res_simps]: "rguard e False k = Inl e"
  by (simp add: rguard_def)

lemma rguard_eq_Inr [simp, res_simps]: "rguard e b k = Inr y \<longleftrightarrow> b \<and> k = Inr y"
  by (simp add: rguard_def)

section \<open>C integers\<close>

text \<open>
  \<open>u32_of\<close> and \<open>s32_of\<close> are the conversions to \<open>uint32_t\<close> and \<open>int32_t\<close> of an
  integer result; C's \<open>/\<close> and \<open>%\<close> on signed operands are \<open>sdiv\<close> and \<open>smod\<close>.
\<close>

definition u32_of :: "int \<Rightarrow> int" where
  "u32_of x = x mod 2 ^ 32"

definition s32_of :: "int \<Rightarrow> int" where
  "s32_of x = (x + 2 ^ 31) mod 2 ^ 32 - 2 ^ 31"

definition size_wrap :: "nat \<Rightarrow> nat" where
  "size_wrap n = n mod 2 ^ 32"

lemma u32_of_id [simp]: "0 \<le> x \<Longrightarrow> x < 2 ^ 32 \<Longrightarrow> u32_of x = x"
  by (simp add: u32_of_def)

lemma s32_of_id [simp]: "- (2 ^ 31) \<le> x \<Longrightarrow> x < 2 ^ 31 \<Longrightarrow> s32_of x = x"
  by (simp add: s32_of_def)

lemma s32_of_lit: "- 2147483648 \<le> x \<Longrightarrow> x < 2147483648 \<Longrightarrow> s32_of x = x"
  by (rule s32_of_id) simp_all

lemma size_wrap_id [simp]: "n < 2 ^ 32 \<Longrightarrow> size_wrap n = n"
  by (simp add: size_wrap_def)

lemma smod_nonneg: "0 \<le> a \<Longrightarrow> 0 < b \<Longrightarrow> a smod b = (a mod b :: int)"
  by (auto simp: signed_modulo_int_def signed_divide_int_def minus_div_mult_eq_mod sgn_if)

lemma sdiv_nonneg: "0 \<le> a \<Longrightarrow> 0 < b \<Longrightarrow> a sdiv b = (a div b :: int)"
  by (auto simp: signed_divide_int_def sgn_if)

section \<open>Overwriting part of a list\<close>

text \<open>
  The effect of \<open>memcpy (dst + off, src, n)\<close> on the bytes at \<open>dst\<close>.
\<close>

definition overwrite :: "'a list \<Rightarrow> nat \<Rightarrow> 'a list \<Rightarrow> 'a list" where
  "overwrite xs off ys = take off xs @ ys @ drop (off + length ys) xs"

lemma length_overwrite [simp]:
  "off + length ys \<le> length xs \<Longrightarrow> length (overwrite xs off ys) = length xs"
  by (simp add: overwrite_def)

lemma nth_overwrite:
  "off + length ys \<le> length xs \<Longrightarrow> i < length xs \<Longrightarrow>
   overwrite xs off ys ! i = (if off \<le> i \<and> i < off + length ys then ys ! (i - off) else xs ! i)"
  by (auto simp: overwrite_def nth_append)

lemma overwrite_Nil [simp]: "overwrite xs off [] = xs"
  by (simp add: overwrite_def)

lemma overwrite_full: "length ys = length xs \<Longrightarrow> overwrite xs 0 ys = ys"
  by (simp add: overwrite_def)

lemma take_drop_overwrite:
  "off + length ys \<le> length xs \<Longrightarrow> take (length ys) (drop off (overwrite xs off ys)) = ys"
  by (simp add: overwrite_def)

lemma overwrite_append:
  assumes "off + length ys + length zs \<le> length xs"
  shows "overwrite (overwrite xs off ys) (off + length ys) zs = overwrite xs off (ys @ zs)"
proof (rule nth_equalityI)
  show "length (overwrite (overwrite xs off ys) (off + length ys) zs)
      = length (overwrite xs off (ys @ zs))"
    using assms by simp
next
  fix i
  assume "i < length (overwrite (overwrite xs off ys) (off + length ys) zs)"
  then have "i < length xs" using assms by simp
  then show "overwrite (overwrite xs off ys) (off + length ys) zs ! i
      = overwrite xs off (ys @ zs) ! i"
    using assms by (auto simp: nth_overwrite nth_append)
qed

lemma overwrite_take_add:
  assumes "m \<le> length xs" and "b + m + k \<le> length buf"
  shows "overwrite (overwrite buf b (take m xs)) (b + m) (take k (drop m xs)) = overwrite buf b (take (m + k) xs)"
proof -
  have m: "length (take m xs) = m" using assms(1) by simp
  have "length (take k (drop m xs)) \<le> k" by simp
  with assms(2) m have fit: "b + length (take m xs) + length (take k (drop m xs)) \<le> length buf" by linarith
  show ?thesis using overwrite_append [OF fit] by (simp only: m take_add)
qed

lemma overwrite_Cons:
  "a < length xs \<Longrightarrow> overwrite (xs[a := x]) (Suc a) ys = overwrite xs a (x # ys)"
  by (simp add: overwrite_def take_Suc_conv_app_nth)

lemma overwrite_append1: "a + length ys \<le> length xs \<Longrightarrow> overwrite (xs @ zs) a ys = overwrite xs a ys @ zs"
  by (simp add: overwrite_def)

lemma take_overwrite:
  "a + length ys \<le> n \<Longrightarrow> a + length ys \<le> length xs \<Longrightarrow> take n (overwrite xs a ys) = overwrite (take n xs) a ys"
  by (rule nth_equalityI) (auto simp: nth_overwrite)

lemma take_overwrite_end:
  "length ys = b - a \<Longrightarrow> a \<le> b \<Longrightarrow> b \<le> length xs \<Longrightarrow> take b (overwrite xs a ys) = take a xs @ ys"
  by (simp add: overwrite_def)

section \<open>Blocks of equal size\<close>

lemma length_concat_blocks:
  "\<forall>x\<in>set xss. length x = B \<Longrightarrow> length (concat xss) = B * length xss"
  by (induction xss) auto

lemma take_drop_block:
  "\<forall>x\<in>set xss. length x = B \<Longrightarrow> k < length xss \<Longrightarrow> ofs + c \<le> B \<Longrightarrow>
   take c (drop (B * k + ofs) (concat xss)) = take c (drop ofs (xss ! k))"
proof (induction xss arbitrary: k)
  case (Cons x xss)
  then show ?case
    by (cases k) (auto simp: algebra_simps drop_append take_append)
qed simp

lemma concat_update_block:
  "\<forall>x\<in>set xss. length x = B \<Longrightarrow> k < length xss \<Longrightarrow> ofs + length ys \<le> B \<Longrightarrow>
   concat (xss[k := overwrite (xss ! k) ofs ys]) = overwrite (concat xss) (B * k + ofs) ys"
proof (induction xss arbitrary: k)
  case (Cons x xss)
  show ?case
  proof (cases k)
    case 0
    with Cons.prems show ?thesis by (simp add: overwrite_append1)
  next
    case (Suc j)
    with Cons have "concat (xss[j := overwrite (xss ! j) ofs ys]) = overwrite (concat xss) (B * j + ofs) ys"
      by simp
    with Suc Cons.prems show ?thesis by (simp add: overwrite_def algebra_simps)
  qed
qed simp

lemma div_same_block:
  assumes "0 < c" and "ofs mod B + c \<le> B"
  shows "(ofs + c - 1) div B = ofs div (B::nat)"
proof (rule div_nat_eqI)
  have *: "B * (ofs div B) + ofs mod B = ofs" by simp
  show "B * (ofs div B) \<le> ofs + c - 1" using assms * by linarith
  have "ofs + c - 1 < B + B * (ofs div B)" using assms * by linarith
  then show "ofs + c - 1 < B * Suc (ofs div B)" by (simp only: mult_Suc_right)
qed

section \<open>Searching by a key\<close>

lemma in_set_tlD: "x \<in> set (tl xs) \<Longrightarrow> x \<in> set xs"
  by (cases xs) auto

lemma find_key_iff:
  "distinct (map f l) \<Longrightarrow> find (\<lambda>x. f x = k) l = Some b \<longleftrightarrow> b \<in> set l \<and> f b = k"
  by (induction l) (auto simp: image_iff)

lemma find_key_None: "find (\<lambda>x. f x = k) l = None \<longleftrightarrow> k \<notin> f ` set l"
  by (auto simp: find_None_iff)

section \<open>Little-endian words\<close>

definition le_bytes :: "u32 \<Rightarrow> byte list" where
  "le_bytes w = [ucast w, ucast (drop_bit 8 w), ucast (drop_bit 16 w), ucast (drop_bit 24 w)]"

definition le_word :: "byte list \<Rightarrow> u32" where
  "le_word bs = ucast (bs ! 0) OR push_bit 8 (ucast (bs ! 1))
      OR push_bit 16 (ucast (bs ! 2)) OR push_bit 24 (ucast (bs ! 3))"

lemma length_le_bytes [simp]: "length (le_bytes w) = 4"
  by (simp add: le_bytes_def)

lemma le_word_le_bytes [simp]: "le_word (le_bytes w) = w"
proof (rule bit_word_eqI)
  fix n
  assume "n < LENGTH(32)"
  then have "n < 8 \<or> 8 \<le> n \<and> n < 16 \<or> 16 \<le> n \<and> n < 24 \<or> 24 \<le> n \<and> n < 32"
    by auto
  then show "bit (le_word (le_bytes w)) n = bit w n"
    by (elim disjE) (auto simp: le_word_def le_bytes_def bit_simps)
qed

fun le_words :: "u32 list \<Rightarrow> byte list" where
  "le_words [] = []"
| "le_words (w # ws) = le_bytes w @ le_words ws"

fun words_le :: "nat \<Rightarrow> byte list \<Rightarrow> u32 list" where
  "words_le 0 bs = []"
| "words_le (Suc n) bs = le_word bs # words_le n (drop 4 bs)"

lemma length_le_words [simp]: "length (le_words ws) = 4 * length ws"
  by (induction ws) auto

lemma length_words_le [simp]: "length (words_le n bs) = n"
  by (induction n arbitrary: bs) auto

lemma le_word_append: "length bs = 4 \<Longrightarrow> le_word (bs @ cs) = le_word bs"
  by (simp add: le_word_def nth_append)

lemma words_le_le_words: "words_le (length ws) (le_words ws @ bs) = ws"
  by (induction ws) (auto simp: le_word_append)

end
