(* ===== verification/Bitmap.thy ===== *)
theory Bitmap
  imports Prelude
begin

text \<open>
  The kernel's bitmaps (\<open>src/lib/kernel/bitmap.c\<close>): an array of 32-bit elements
  (\<open>unsigned long\<close> on the i386 target) that simulates an array of bits. The free map of
  the file system, the page pools and the swap table are bitmaps.

  Every operation is a definition over the record \<open>bitmap\<close>; an \<open>ASSERT\<close> that fails is
  \<open>AssertFail\<close>, an element index outside the array is \<open>PageFault\<close>. Sizes are \<open>nat\<close>
  with the \<open>size_t\<close> wrap-around of the bound checks written out (\<open>size_wrap\<close>).

  The abstraction \<open>bitmap_bits\<close> reads the represented bits as a \<open>bool list\<close>; the lemmas
  show every operation against that list, up to \<open>bitmap_scan\<close>, which returns the least
  index of a run.
\<close>

section \<open>Definitions\<close>

record bitmap =
  bit_cnt :: nat
  bits :: "u32 list"

definition BITMAP_ERROR :: nat where
  "BITMAP_ERROR = 2 ^ 32 - 1"

definition elem_idx :: "nat \<Rightarrow> nat" where
  "elem_idx bit_idx = bit_idx div 32"

definition bit_mask :: "nat \<Rightarrow> u32" where
  "bit_mask bit_idx = push_bit (bit_idx mod 32) 1"

definition elem_cnt :: "nat \<Rightarrow> nat" where
  "elem_cnt n = size_wrap (n + 32 - 1) div 32"

definition byte_cnt :: "nat \<Rightarrow> nat" where
  "byte_cnt n = size_wrap (4 * elem_cnt n)"

definition last_mask :: "bitmap \<Rightarrow> u32" where
  "last_mask b =
     (let last_bits = bit_cnt b mod 32
      in if last_bits \<noteq> 0 then push_bit last_bits 1 - 1 else - 1)"

definition bitmap_size :: "bitmap \<Rightarrow> nat" where
  "bitmap_size b = bit_cnt b"

text \<open>The read-modify-write of one element, shared by the three atomic updates.\<close>

definition elem_update :: "bitmap \<Rightarrow> nat \<Rightarrow> (u32 \<Rightarrow> u32) \<Rightarrow> bitmap res" where
  "elem_update b idx f = rguard PageFault (idx < length (bits b))
     (Inr (b\<lparr>bits := (bits b)[idx := f (bits b ! idx)]\<rparr>))"

definition bitmap_mark :: "bitmap \<Rightarrow> nat \<Rightarrow> bitmap res" where
  "bitmap_mark b bit_idx = elem_update b (elem_idx bit_idx) (\<lambda>e. e OR bit_mask bit_idx)"

definition bitmap_reset :: "bitmap \<Rightarrow> nat \<Rightarrow> bitmap res" where
  "bitmap_reset b bit_idx = elem_update b (elem_idx bit_idx) (\<lambda>e. e AND NOT (bit_mask bit_idx))"

definition bitmap_flip :: "bitmap \<Rightarrow> nat \<Rightarrow> bitmap res" where
  "bitmap_flip b bit_idx = elem_update b (elem_idx bit_idx) (\<lambda>e. e XOR bit_mask bit_idx)"

definition bitmap_set :: "bitmap \<Rightarrow> nat \<Rightarrow> bool \<Rightarrow> bitmap res" where
  "bitmap_set b idx v = kassert (idx < bit_cnt b)
     (if v then bitmap_mark b idx else bitmap_reset b idx)"

definition bitmap_test :: "bitmap \<Rightarrow> nat \<Rightarrow> bool res" where
  "bitmap_test b idx = kassert (idx < bit_cnt b)
     (rguard PageFault (elem_idx idx < length (bits b))
       (Inr (bits b ! elem_idx idx AND bit_mask idx \<noteq> 0)))"

text \<open>The loop of \<open>bitmap_set_multiple\<close>: \<open>n\<close> bits left, starting at \<open>idx\<close>.\<close>

fun bitmap_set_loop :: "bitmap \<Rightarrow> nat \<Rightarrow> nat \<Rightarrow> bool \<Rightarrow> bitmap res" where
  "bitmap_set_loop b idx 0 v = Inr b"
| "bitmap_set_loop b idx (Suc n) v =
     rbind (bitmap_set b idx v) (\<lambda>b'. bitmap_set_loop b' (Suc idx) n v)"

definition bitmap_set_multiple :: "bitmap \<Rightarrow> nat \<Rightarrow> nat \<Rightarrow> bool \<Rightarrow> bitmap res" where
  "bitmap_set_multiple b start cnt v =
     kassert (start \<le> bit_cnt b) (kassert (size_wrap (start + cnt) \<le> bit_cnt b)
       (bitmap_set_loop b start cnt v))"

definition bitmap_set_all :: "bitmap \<Rightarrow> bool \<Rightarrow> bitmap res" where
  "bitmap_set_all b v = bitmap_set_multiple b 0 (bitmap_size b) v"

fun bitmap_count_loop :: "bitmap \<Rightarrow> nat \<Rightarrow> nat \<Rightarrow> bool \<Rightarrow> nat \<Rightarrow> nat res" where
  "bitmap_count_loop b idx 0 v value_cnt = Inr value_cnt"
| "bitmap_count_loop b idx (Suc n) v value_cnt =
     rbind (bitmap_test b idx) (\<lambda>t.
       bitmap_count_loop b (Suc idx) n v (if t = v then value_cnt + 1 else value_cnt))"

definition bitmap_count :: "bitmap \<Rightarrow> nat \<Rightarrow> nat \<Rightarrow> bool \<Rightarrow> nat res" where
  "bitmap_count b start cnt v =
     kassert (start \<le> bit_cnt b) (kassert (size_wrap (start + cnt) \<le> bit_cnt b)
       (bitmap_count_loop b start cnt v 0))"

fun bitmap_contains_loop :: "bitmap \<Rightarrow> nat \<Rightarrow> nat \<Rightarrow> bool \<Rightarrow> bool res" where
  "bitmap_contains_loop b idx 0 v = Inr False"
| "bitmap_contains_loop b idx (Suc n) v =
     rbind (bitmap_test b idx) (\<lambda>t.
       if t = v then Inr True else bitmap_contains_loop b (Suc idx) n v)"

definition bitmap_contains :: "bitmap \<Rightarrow> nat \<Rightarrow> nat \<Rightarrow> bool \<Rightarrow> bool res" where
  "bitmap_contains b start cnt v =
     kassert (start \<le> bit_cnt b) (kassert (size_wrap (start + cnt) \<le> bit_cnt b)
       (bitmap_contains_loop b start cnt v))"

definition bitmap_any :: "bitmap \<Rightarrow> nat \<Rightarrow> nat \<Rightarrow> bool res" where
  "bitmap_any b start cnt = bitmap_contains b start cnt True"

definition bitmap_none :: "bitmap \<Rightarrow> nat \<Rightarrow> nat \<Rightarrow> bool res" where
  "bitmap_none b start cnt = rbind (bitmap_contains b start cnt True) (\<lambda>r. Inr (\<not> r))"

definition bitmap_all :: "bitmap \<Rightarrow> nat \<Rightarrow> nat \<Rightarrow> bool res" where
  "bitmap_all b start cnt = rbind (bitmap_contains b start cnt False) (\<lambda>r. Inr (\<not> r))"

text \<open>The loop of \<open>bitmap_scan\<close>: \<open>n\<close> candidate indices left, the next one \<open>i\<close>.\<close>

fun bitmap_scan_loop :: "bitmap \<Rightarrow> nat \<Rightarrow> nat \<Rightarrow> nat \<Rightarrow> bool \<Rightarrow> nat res" where
  "bitmap_scan_loop b i 0 cnt v = Inr BITMAP_ERROR"
| "bitmap_scan_loop b i (Suc n) cnt v =
     rbind (bitmap_contains b i cnt (\<not> v)) (\<lambda>found.
       if \<not> found then Inr i else bitmap_scan_loop b (Suc i) n cnt v)"

definition bitmap_scan :: "bitmap \<Rightarrow> nat \<Rightarrow> nat \<Rightarrow> bool \<Rightarrow> nat res" where
  "bitmap_scan b start cnt v = kassert (start \<le> bit_cnt b)
     (if cnt \<le> bit_cnt b
      then bitmap_scan_loop b start (bit_cnt b - cnt + 1 - start) cnt v
      else Inr BITMAP_ERROR)"

definition bitmap_scan_and_flip :: "bitmap \<Rightarrow> nat \<Rightarrow> nat \<Rightarrow> bool \<Rightarrow> (bitmap \<times> nat) res" where
  "bitmap_scan_and_flip b start cnt v =
     rbind (bitmap_scan b start cnt v) (\<lambda>idx.
       if idx \<noteq> BITMAP_ERROR
       then rbind (bitmap_set_multiple b idx cnt (\<not> v)) (\<lambda>b'. Inr (b', idx))
       else Inr (b, idx))"

text \<open>
  Creation. The memory \<open>malloc\<close> returns is an argument: \<open>ok\<close> says whether the header was
  allocated, \<open>mem\<close> is the (uninitialised) element array or \<open>None\<close>.
\<close>

definition bitmap_create :: "bool \<Rightarrow> u32 list option \<Rightarrow> nat \<Rightarrow> bitmap option res" where
  "bitmap_create ok mem n =
     (if \<not> ok then Inr None
      else if mem \<noteq> None \<or> n = 0
      then rbind (bitmap_set_all
             \<lparr>bit_cnt = n, bits = (case mem of Some es \<Rightarrow> es | None \<Rightarrow> [])\<rparr> False)
             (\<lambda>b. Inr (Some b))
      else Inr None)"

definition bitmap_buf_size :: "nat \<Rightarrow> nat" where
  "bitmap_buf_size n = size_wrap (8 + byte_cnt n)"

text \<open>\<open>elems\<close> is the storage that follows the header in the preallocated block.\<close>

definition bitmap_create_in_buf :: "nat \<Rightarrow> u32 list \<Rightarrow> nat \<Rightarrow> bitmap res" where
  "bitmap_create_in_buf n elems block_size = kassert (bitmap_buf_size n \<le> block_size)
     (bitmap_set_all \<lparr>bit_cnt = n, bits = elems\<rparr> False)"

definition bitmap_file_size :: "bitmap \<Rightarrow> nat" where
  "bitmap_file_size b = byte_cnt (bit_cnt b)"

section \<open>Invariant and abstraction\<close>

definition bitmap_inv :: "bitmap \<Rightarrow> bool" where
  "bitmap_inv b \<longleftrightarrow> bit_cnt b + 31 < 2 ^ 32 \<and> length (bits b) = elem_cnt (bit_cnt b)"

definition bitmap_bit :: "bitmap \<Rightarrow> nat \<Rightarrow> bool" where
  "bitmap_bit b i = bit (bits b ! (i div 32)) (i mod 32)"

definition bitmap_bits :: "bitmap \<Rightarrow> bool list" where
  "bitmap_bits b = map (bitmap_bit b) [0..<bit_cnt b]"

section \<open>Single bits\<close>

lemma length_bitmap_bits [simp]: "length (bitmap_bits b) = bit_cnt b"
  by (simp add: bitmap_bits_def)

lemma nth_bitmap_bits [simp]: "i < bit_cnt b \<Longrightarrow> bitmap_bits b ! i = bitmap_bit b i"
  by (simp add: bitmap_bits_def)

lemma elem_cnt_small: "n + 31 < 2 ^ 32 \<Longrightarrow> elem_cnt n = (n + 31) div 32"
  by (simp add: elem_cnt_def)

lemma byte_cnt_small: "n + 31 < 2 ^ 32 \<Longrightarrow> byte_cnt n = 4 * ((n + 31) div 32)"
  by (simp add: byte_cnt_def elem_cnt_small)

lemma bitmap_inv_elem: "bitmap_inv b \<Longrightarrow> i < bit_cnt b \<Longrightarrow> i div 32 < length (bits b)"
  by (auto simp: bitmap_inv_def elem_cnt_small)

lemma bit_bit_mask: "bit (bit_mask i) k \<longleftrightarrow> k = i mod 32"
  by (auto simp: bit_mask_def bit_simps)

lemma and_bit_mask_nonzero: "(e AND bit_mask i \<noteq> 0) = bit e (i mod 32)"
proof
  assume "e AND bit_mask i \<noteq> 0"
  then obtain k where "bit (e AND bit_mask i) k"
    using bit_eq_iff [of "e AND bit_mask i" 0] by auto
  then show "bit e (i mod 32)" by (auto simp: bit_and_iff bit_bit_mask)
next
  assume "bit e (i mod 32)"
  then have "bit (e AND bit_mask i) (i mod 32)" by (simp add: bit_and_iff bit_bit_mask)
  then show "e AND bit_mask i \<noteq> 0" by auto
qed

lemma bitmap_test_spec:
  "bitmap_inv b \<Longrightarrow>
   bitmap_test b i = (if i < bit_cnt b then Inr (bitmap_bit b i) else Inl AssertFail)"
  by (simp add: bitmap_test_def kassert_def elem_idx_def bitmap_inv_elem and_bit_mask_nonzero
      bitmap_bit_def)

lemma elem_update_spec:
  assumes "bitmap_inv b" and "i < bit_cnt b"
    and "\<And>k. k < 32 \<Longrightarrow> bit (f (bits b ! (i div 32))) k
           = (if k = i mod 32 then v else bit (bits b ! (i div 32)) k)"
  obtains b' where "elem_update b (elem_idx i) f = Inr b'" and "bitmap_inv b'"
    and "bit_cnt b' = bit_cnt b" and "bitmap_bits b' = (bitmap_bits b)[i := v]"
proof -
  define b' where "b' = b\<lparr>bits := (bits b)[i div 32 := f (bits b ! (i div 32))]\<rparr>"
  have upd: "elem_update b (elem_idx i) f = Inr b'"
    using assms(1,2) by (simp add: elem_update_def elem_idx_def bitmap_inv_elem b'_def)
  have inv: "bitmap_inv b'"
    using assms(1) by (simp add: bitmap_inv_def b'_def)
  have bit: "bitmap_bit b' j = (if j = i then v else bitmap_bit b j)" for j
  proof (cases "j div 32 = i div 32")
    case True
    then have "(j mod 32 = i mod 32) = (j = i)"
      by (metis div_mod_decomp)
    with True show ?thesis
      using assms by (auto simp: bitmap_bit_def b'_def bitmap_inv_elem)
  next
    case False
    then show ?thesis by (auto simp: bitmap_bit_def b'_def)
  qed
  have len: "bit_cnt b' = bit_cnt b" by (simp add: b'_def)
  have "bitmap_bits b' = (bitmap_bits b)[i := v]"
    by (rule nth_equalityI)
      (simp_all add: nth_list_update len, simp_all add: bit)
  then show ?thesis
    by (intro that [of b'] upd inv len)
qed

lemma bit_or_mask: "k < 32 \<Longrightarrow> bit ((e::u32) OR bit_mask i) k = (if k = i mod 32 then True else bit e k)"
  by (auto simp: bit_simps bit_bit_mask)

lemma bit_and_not_mask:
  "k < 32 \<Longrightarrow> bit ((e::u32) AND NOT (bit_mask i)) k = (if k = i mod 32 then False else bit e k)"
  by (auto simp: bit_simps bit_bit_mask)

lemma bit_xor_mask:
  "k < 32 \<Longrightarrow> bit ((e::u32) XOR bit_mask i) k
     = (if k = i mod 32 then \<not> bit e (i mod 32) else bit e k)"
  by (auto simp: bit_simps bit_bit_mask)

lemma bitmap_set_spec:
  assumes "bitmap_inv b" and "i < bit_cnt b"
  obtains b' where "bitmap_set b i v = Inr b'" and "bitmap_inv b'" and "bit_cnt b' = bit_cnt b"
    and "bitmap_bits b' = (bitmap_bits b)[i := v]"
proof (cases v)
  case True
  show ?thesis
    by (rule elem_update_spec [OF assms, of "\<lambda>e. e OR bit_mask i" True])
      (auto intro!: that simp: bit_or_mask bitmap_set_def bitmap_mark_def True assms)
next
  case False
  show ?thesis
    by (rule elem_update_spec [OF assms, of "\<lambda>e. e AND NOT (bit_mask i)" False])
      (auto intro!: that simp: bit_and_not_mask bitmap_set_def bitmap_reset_def False assms)
qed

lemma bitmap_flip_spec:
  assumes "bitmap_inv b" and "i < bit_cnt b"
  obtains b' where "bitmap_flip b i = Inr b'" and "bitmap_inv b'" and "bit_cnt b' = bit_cnt b"
    and "bitmap_bits b' = (bitmap_bits b)[i := \<not> bitmap_bits b ! i]"
proof -
  have flip: "bit (bits b ! (i div 32) XOR bit_mask i) k
      = (if k = i mod 32 then \<not> bitmap_bits b ! i else bit (bits b ! (i div 32)) k)"
    if "k < 32" for k
    using assms(2) that by (simp add: bit_xor_mask bitmap_bit_def)
  show ?thesis
    by (rule elem_update_spec [OF assms, of "\<lambda>e. e XOR bit_mask i"])
      (erule flip, auto intro!: that simp: bitmap_flip_def)
qed

section \<open>Runs of bits\<close>

lemma bitmap_set_loop_spec:
  assumes "bitmap_inv b" and "idx + n \<le> bit_cnt b"
  shows "\<exists>b'. bitmap_set_loop b idx n v = Inr b' \<and> bitmap_inv b' \<and> bit_cnt b' = bit_cnt b
      \<and> bitmap_bits b' = overwrite (bitmap_bits b) idx (replicate n v)"
  using assms
proof (induction n arbitrary: b idx)
  case 0
  then show ?case by simp
next
  case (Suc n)
  then have "idx < bit_cnt b" by simp
  with Suc.prems(1) obtain b1 where b1: "bitmap_set b idx v = Inr b1" "bitmap_inv b1"
      "bit_cnt b1 = bit_cnt b" "bitmap_bits b1 = (bitmap_bits b)[idx := v]"
    by (rule bitmap_set_spec)
  with Suc.IH [of b1 "Suc idx"] Suc.prems(2) obtain b2 where b2:
    "bitmap_set_loop b1 (Suc idx) n v = Inr b2" "bitmap_inv b2" "bit_cnt b2 = bit_cnt b"
    "bitmap_bits b2 = overwrite (bitmap_bits b1) (Suc idx) (replicate n v)"
    by auto
  have "(bitmap_bits b)[idx := v] = overwrite (bitmap_bits b) idx [v]"
    using \<open>idx < bit_cnt b\<close> by (simp add: overwrite_def upd_conv_take_nth_drop)
  then have "bitmap_bits b2 = overwrite (bitmap_bits b) idx (replicate (Suc n) v)"
    using overwrite_append [of idx "[v]" "replicate n v" "bitmap_bits b"] Suc.prems(2) b1 b2
    by simp
  with b1 b2 show ?case by simp
qed

lemma bitmap_set_multiple_spec:
  assumes "bitmap_inv b" and "start + cnt \<le> bit_cnt b"
  shows "\<exists>b'. bitmap_set_multiple b start cnt v = Inr b' \<and> bitmap_inv b' \<and> bit_cnt b' = bit_cnt b
      \<and> bitmap_bits b' = overwrite (bitmap_bits b) start (replicate cnt v)"
proof -
  have "start + cnt < 2 ^ 32"
    using assms by (simp add: bitmap_inv_def)
  then show ?thesis
    using bitmap_set_loop_spec [OF assms, of v] assms(2) by (simp add: bitmap_set_multiple_def)
qed

lemma bitmap_set_all_spec:
  assumes "bitmap_inv b"
  shows "\<exists>b'. bitmap_set_all b v = Inr b' \<and> bitmap_inv b' \<and> bit_cnt b' = bit_cnt b
      \<and> bitmap_bits b' = replicate (bit_cnt b) v"
  using bitmap_set_multiple_spec [OF assms, of 0 "bit_cnt b" v]
  by (auto simp: bitmap_set_all_def bitmap_size_def overwrite_full)

lemma bitmap_contains_loop_spec:
  assumes "bitmap_inv b" and "idx + n \<le> bit_cnt b"
  shows "bitmap_contains_loop b idx n v
    = Inr (\<exists>i. idx \<le> i \<and> i < idx + n \<and> bitmap_bit b i = v)"
  using assms(2)
proof (induction n arbitrary: idx)
  case 0
  then show ?case by simp
next
  case (Suc n)
  have split: "(\<exists>i. idx \<le> i \<and> i < idx + Suc n \<and> bitmap_bit b i = v)
      \<longleftrightarrow> bitmap_bit b idx = v \<or> (\<exists>i. Suc idx \<le> i \<and> i < Suc idx + n \<and> bitmap_bit b i = v)"
    by (metis Suc_leD Suc_leI add_Suc add_Suc_right le_add1 le_imp_less_Suc le_neq_implies_less
        order_refl)
  show ?case
    using Suc.prems Suc.IH [of "Suc idx"] assms(1)
    by (simp only: split) (simp add: bitmap_test_spec)
qed

lemma bitmap_contains_spec:
  assumes "bitmap_inv b" and "start + cnt \<le> bit_cnt b"
  shows "bitmap_contains b start cnt v
    = Inr (\<exists>i. start \<le> i \<and> i < start + cnt \<and> bitmap_bit b i = v)"
proof -
  have "start + cnt < 2 ^ 32"
    using assms by (simp add: bitmap_inv_def)
  then show ?thesis
    using bitmap_contains_loop_spec [OF assms, of v] assms(2) by (simp add: bitmap_contains_def)
qed

lemma bitmap_all_spec:
  "bitmap_inv b \<Longrightarrow> start + cnt \<le> bit_cnt b \<Longrightarrow>
   bitmap_all b start cnt = Inr (\<forall>i. start \<le> i \<and> i < start + cnt \<longrightarrow> bitmap_bit b i)"
  by (auto simp: bitmap_all_def bitmap_contains_spec)

lemma bitmap_count_loop_spec:
  assumes "bitmap_inv b" and "idx + n \<le> bit_cnt b"
  shows "bitmap_count_loop b idx n v acc
    = Inr (acc + length (filter (\<lambda>x. x = v) (take n (drop idx (bitmap_bits b)))))"
  using assms(2)
proof (induction n arbitrary: idx acc)
  case 0
  then show ?case by simp
next
  case (Suc n)
  then have "idx < bit_cnt b" by simp
  then have "drop idx (bitmap_bits b) = bitmap_bit b idx # drop (Suc idx) (bitmap_bits b)"
    using Cons_nth_drop_Suc [of idx "bitmap_bits b"] by simp
  with Suc.prems Suc.IH [of "Suc idx"] assms(1) show ?case
    by (simp add: bitmap_test_spec)
qed

section \<open>Scanning\<close>

definition run_at :: "bitmap \<Rightarrow> nat \<Rightarrow> nat \<Rightarrow> bool \<Rightarrow> bool" where
  "run_at b i cnt v \<longleftrightarrow> i + cnt \<le> bit_cnt b \<and> (\<forall>j. i \<le> j \<and> j < i + cnt \<longrightarrow> bitmap_bit b j = v)"

lemma bitmap_scan_loop_spec:
  assumes "bitmap_inv b" and "n = 0 \<or> i + n + cnt \<le> bit_cnt b + 1"
  shows "bitmap_scan_loop b i n cnt v =
    Inr (if \<exists>k. i \<le> k \<and> k < i + n \<and> run_at b k cnt v
         then LEAST k. i \<le> k \<and> run_at b k cnt v else BITMAP_ERROR)"
  using assms(2)
proof (induction n arbitrary: i)
  case 0
  have "\<not> (\<exists>k. i \<le> k \<and> k < i + 0 \<and> run_at b k cnt v)" by auto
  then show ?case by (simp only: bitmap_scan_loop.simps if_False)
next
  case (Suc n)
  have le: "i + cnt \<le> bit_cnt b" using Suc.prems by simp
  have contains: "bitmap_contains b i cnt (\<not> v) = Inr (\<not> run_at b i cnt v)"
    using bitmap_contains_spec [OF assms(1) le] le by (auto simp: run_at_def)
  show ?case
  proof (cases "run_at b i cnt v")
    case True
    then have "(LEAST k. i \<le> k \<and> run_at b k cnt v) = i"
      by (intro Least_equality) auto
    moreover have "\<exists>k. i \<le> k \<and> k < i + Suc n \<and> run_at b k cnt v"
      using True by (intro exI [of _ i]) simp
    ultimately show ?thesis using True contains by simp
  next
    case False
    have "(i \<le> k \<and> run_at b k cnt v) = (Suc i \<le> k \<and> run_at b k cnt v)" for k
      using False by (cases "k = i") auto
    then have eq: "(\<lambda>k. i \<le> k \<and> run_at b k cnt v) = (\<lambda>k. Suc i \<le> k \<and> run_at b k cnt v)"
      by blast
    then have "(i \<le> k \<and> k < i + Suc n \<and> run_at b k cnt v)
        = (Suc i \<le> k \<and> k < Suc i + n \<and> run_at b k cnt v)" for k
      by (metis add_Suc add_Suc_right)
    moreover have "bitmap_scan_loop b i (Suc n) cnt v = bitmap_scan_loop b (Suc i) n cnt v"
      using False contains by simp
    moreover have "n = 0 \<or> Suc i + n + cnt \<le> bit_cnt b + 1" using Suc.prems by simp
    ultimately show ?thesis
      using Suc.IH [of "Suc i"] by (simp only: eq)
  qed
qed

lemma bitmap_scan_spec:
  assumes "bitmap_inv b" and "start \<le> bit_cnt b"
  shows "bitmap_scan b start cnt v =
    Inr (if \<exists>k. start \<le> k \<and> run_at b k cnt v
         then LEAST k. start \<le> k \<and> run_at b k cnt v else BITMAP_ERROR)"
proof (cases "cnt \<le> bit_cnt b")
  case False
  then have "\<not> run_at b k cnt v" for k by (simp add: run_at_def)
  with False assms show ?thesis by (simp add: bitmap_scan_def)
next
  case True
  let ?n = "bit_cnt b - cnt + 1 - start"
  have "run_at b k cnt v \<Longrightarrow> k < start + ?n" for k
    using True by (auto simp: run_at_def)
  then have "(\<exists>k. start \<le> k \<and> k < start + ?n \<and> run_at b k cnt v)
      = (\<exists>k. start \<le> k \<and> run_at b k cnt v)" by blast
  moreover have "?n = 0 \<or> start + ?n + cnt \<le> bit_cnt b + 1" using True by auto
  ultimately show ?thesis
    using True assms bitmap_scan_loop_spec [OF assms(1), of ?n start cnt v]
    by (simp add: bitmap_scan_def)
qed

text \<open>
  \<open>bitmap_scan\<close> finds the first group: on a well-formed bitmap it never faults, an index
  it returns is the start of a run of \<open>cnt\<close> bits equal to the wanted value at or after
  \<open>start\<close> with no such run before it, and \<open>BITMAP_ERROR\<close> is returned exactly when there
  is none.
\<close>

theorem bitmap_scan_first_fit:
  assumes "bitmap_inv b" and "start \<le> bit_cnt b"
  shows "\<exists>r. bitmap_scan b start cnt v = Inr r
    \<and> (r = BITMAP_ERROR \<longleftrightarrow> (\<forall>k\<ge>start. \<not> run_at b k cnt v))
    \<and> (r \<noteq> BITMAP_ERROR \<longrightarrow> start \<le> r \<and> run_at b r cnt v
         \<and> (\<forall>k. start \<le> k \<and> k < r \<longrightarrow> \<not> run_at b k cnt v))"
proof (cases "\<exists>k. start \<le> k \<and> run_at b k cnt v")
  case True
  define r where "r = (LEAST k. start \<le> k \<and> run_at b k cnt v)"
  have r: "start \<le> r \<and> run_at b r cnt v"
    unfolding r_def using True by (rule LeastI_ex)
  have least: "\<not> run_at b k cnt v" if "start \<le> k" "k < r" for k
    using that not_less_Least [of k "\<lambda>k. start \<le> k \<and> run_at b k cnt v"] by (auto simp: r_def)
  have "r \<noteq> BITMAP_ERROR"
    using r assms(1) by (auto simp: run_at_def bitmap_inv_def BITMAP_ERROR_def)
  with r least True bitmap_scan_spec [OF assms, of cnt v] show ?thesis
    by (intro exI [of _ r]) (auto simp: r_def [symmetric])
next
  case False
  with bitmap_scan_spec [OF assms, of cnt v] show ?thesis by auto
qed

theorem bitmap_scan_first_fit_witness:
  "\<exists>r. bitmap_scan \<lparr>bit_cnt = 6, bits = [0b001011]\<rparr> 1 2 False = Inr r
    \<and> r \<noteq> BITMAP_ERROR \<and> run_at \<lparr>bit_cnt = 6, bits = [0b001011]\<rparr> r 2 False"
proof -
  let ?b = "\<lparr>bit_cnt = 6, bits = [0b001011 :: u32]\<rparr>"
  have inv: "bitmap_inv ?b" by (simp add: bitmap_inv_def elem_cnt_def)
  have run: "run_at ?b 4 2 False"
  proof -
    have "\<not> bitmap_bit ?b j" if "4 \<le> j" "j < 6" for j
    proof -
      from that have "j = 4 \<or> j = 5" by auto
      then show ?thesis by (elim disjE) (simp_all add: bitmap_bit_def)
    qed
    then show ?thesis by (simp add: run_at_def)
  qed
  from bitmap_scan_first_fit [OF inv, of 1 2 False] obtain r where
    "bitmap_scan ?b 1 2 False = Inr r"
    and iff: "r = BITMAP_ERROR \<longleftrightarrow> (\<forall>k\<ge>1. \<not> run_at ?b k 2 False)"
    and imp: "r \<noteq> BITMAP_ERROR \<longrightarrow> run_at ?b r 2 False"
    by auto
  moreover have "r \<noteq> BITMAP_ERROR" using iff run by force
  ultimately show ?thesis by blast
qed

lemma bitmap_scan_and_flip_spec:
  assumes "bitmap_inv b" and "start \<le> bit_cnt b"
  shows "(bitmap_scan_and_flip b start cnt v = Inr (b, BITMAP_ERROR)
           \<and> (\<forall>k\<ge>start. \<not> run_at b k cnt v))
       \<or> (\<exists>b' i. bitmap_scan_and_flip b start cnt v = Inr (b', i) \<and> i \<noteq> BITMAP_ERROR
           \<and> start \<le> i \<and> run_at b i cnt v \<and> (\<forall>k. start \<le> k \<and> k < i \<longrightarrow> \<not> run_at b k cnt v)
           \<and> bitmap_inv b' \<and> bit_cnt b' = bit_cnt b
           \<and> bitmap_bits b' = overwrite (bitmap_bits b) i (replicate cnt (\<not> v)))"
proof (cases "\<exists>k. start \<le> k \<and> run_at b k cnt v")
  case True
  define i where "i = (LEAST k. start \<le> k \<and> run_at b k cnt v)"
  have i: "start \<le> i" "run_at b i cnt v"
    using LeastI_ex [OF True] by (auto simp: i_def)
  have least: "\<not> run_at b k cnt v" if "start \<le> k" "k < i" for k
    using that not_less_Least [of k "\<lambda>k. start \<le> k \<and> run_at b k cnt v"] by (auto simp: i_def)
  have ne: "i \<noteq> BITMAP_ERROR"
    using i assms(1) by (auto simp: run_at_def bitmap_inv_def BITMAP_ERROR_def)
  have scan: "bitmap_scan b start cnt v = Inr i"
    using bitmap_scan_spec [OF assms, of cnt v] True by (simp add: i_def)
  from i have "i + cnt \<le> bit_cnt b" by (simp add: run_at_def)
  from bitmap_set_multiple_spec [OF assms(1) this, of "\<not> v"] obtain b' where
    "bitmap_set_multiple b i cnt (\<not> v) = Inr b'" "bitmap_inv b'" "bit_cnt b' = bit_cnt b"
    "bitmap_bits b' = overwrite (bitmap_bits b) i (replicate cnt (\<not> v))" by blast
  with scan ne i least show ?thesis
    by (intro disjI2 exI [of _ b'] exI [of _ i]) (auto simp: bitmap_scan_and_flip_def)
next
  case False
  with bitmap_scan_spec [OF assms, of cnt v] show ?thesis
    by (auto simp: bitmap_scan_and_flip_def)
qed

section \<open>Creation\<close>

lemma bitmap_create_spec:
  assumes "n + 31 < 2 ^ 32" and "length es = elem_cnt n"
  shows "\<exists>b. bitmap_create True (Some es) n = Inr (Some b) \<and> bitmap_inv b \<and> bit_cnt b = n
    \<and> bitmap_bits b = replicate n False"
  using bitmap_set_all_spec [of "\<lparr>bit_cnt = n, bits = es\<rparr>" False] assms
  by (auto simp: bitmap_create_def bitmap_inv_def)

end
