(* ===== verification/Cache.thy ===== *)
theory Cache
  imports Prelude "HOL-Library.Multiset"
begin

text \<open>
  The disk and the buffer cache (\<open>src/devices/disk.c\<close>, \<open>src/filesys/cache.c\<close>).

  A disk is its capacity and its sectors; \<open>disk_read\<close> and \<open>disk_write\<close> keep the range
  checks of \<open>select_sector\<close> and the transfer counters, and leave out the ATA port protocol.
  The buffer cache is the list \<open>buffer_cache_list\<close> of entries in list order, each with the
  address \<open>calloc\<close> gave it, so that a pointer to an entry is its address and following the
  pointer of an evicted entry is a \<open>PageFault\<close>. Whether the \<open>n\<close>-th allocation succeeds is
  the unconstrained field \<open>mallocs\<close>. The locks are not part of the state: an operation is
  what one thread does while it holds \<open>buffersem\<close> and the entry's lock; a wait for readers
  is \<open>Blocked\<close>.

  The records are extensible, so the operations apply unchanged to the file system state,
  which extends \<open>cache\<close>.

  Shown here: the clock algorithm ends and picks the second-chance victim; the entry a call
  returns is still cached, in spite of the read-ahead that may evict; every operation keeps
  \<open>cache_inv\<close>; the cache is transparent (\<open>cache_view\<close>), and after write-back the disk
  holds the view. The interface the layers above use is the locale \<open>block_store\<close>.
\<close>

section \<open>Disk\<close>

record disk =
  capacity :: nat
  sectors :: "nat \<Rightarrow> byte list"
  read_cnt :: int
  write_cnt :: int

definition DISK_SECTOR_SIZE :: nat where
  "DISK_SECTOR_SIZE = 512"

definition disk_size :: "disk \<Rightarrow> nat" where
  "disk_size d = capacity d"

definition select_sector :: "disk \<Rightarrow> nat \<Rightarrow> 'a res \<Rightarrow> 'a res" where
  "select_sector d sec k = kassert (sec < capacity d) (kassert (sec < 2 ^ 28) k)"

definition disk_read :: "disk \<Rightarrow> nat \<Rightarrow> (disk \<times> byte list) res" where
  "disk_read d sec = select_sector d sec
     (Inr (d\<lparr>read_cnt := read_cnt d + 1\<rparr>, sectors d sec))"

definition disk_write :: "disk \<Rightarrow> nat \<Rightarrow> byte list \<Rightarrow> disk res" where
  "disk_write d sec buf = select_sector d sec
     (Inr (d\<lparr>sectors := (sectors d)(sec := buf), write_cnt := write_cnt d + 1\<rparr>))"

section \<open>Buffer cache\<close>

record buffer_cache_entry =
  bce_addr :: nat
  buffer :: "byte list"
  accessed :: bool
  dirty :: bool
  readers :: int
  sec_no :: nat

record cache =
  filesys_disk :: disk
  buffer_cache_list :: "buffer_cache_entry list"
  mallocs :: "nat \<Rightarrow> bool"
  malloc_cnt :: nat

definition BUFFER_CACHE_SIZE :: nat where
  "BUFFER_CACHE_SIZE = 64"

definition zero_sector :: "byte list" where
  "zero_sector = replicate DISK_SECTOR_SIZE 0"

text \<open>\<open>calloc\<close>: the next address, never zero, or a null pointer.\<close>

definition kalloc :: "'a cache_scheme \<Rightarrow> 'a cache_scheme \<times> nat option" where
  "kalloc s = (s\<lparr>malloc_cnt := Suc (malloc_cnt s)\<rparr>,
     if mallocs s (malloc_cnt s) then Some (Suc (malloc_cnt s)) else None)"

definition deref :: "'a cache_scheme \<Rightarrow> nat \<Rightarrow> buffer_cache_entry option" where
  "deref s p = find (\<lambda>b. bce_addr b = p) (buffer_cache_list s)"

definition bce_modify :: "nat \<Rightarrow> (buffer_cache_entry \<Rightarrow> buffer_cache_entry)
    \<Rightarrow> buffer_cache_entry list \<Rightarrow> buffer_cache_entry list" where
  "bce_modify p f = map (\<lambda>b. if bce_addr b = p then f b else b)"

text \<open>
  The loop of \<open>select_bce_for_evict\<close>: while the first entry was accessed, clear its bit and
  move it to the back.
\<close>

function clock_loop :: "buffer_cache_entry list \<Rightarrow> buffer_cache_entry list" where
  "clock_loop [] = []"
| "clock_loop (b # bs) =
     (if accessed b then clock_loop (bs @ [b\<lparr>accessed := False\<rparr>]) else b # bs)"
  by pat_completeness auto
termination
  by (relation "measure (\<lambda>l. length (filter accessed l))") auto

definition select_bce_for_evict ::
    "'a cache_scheme \<Rightarrow> 'a cache_scheme \<times> buffer_cache_entry option" where
  "select_bce_for_evict s =
     (if buffer_cache_list s \<noteq> []
      then (let l = clock_loop (buffer_cache_list s)
            in (s\<lparr>buffer_cache_list := l\<rparr>, Some (hd l)))
      else (s, None))"

text \<open>Making room: the \<open>list_size (&buffer_cache_list) >= 64\<close> branch.\<close>

definition cache_make_room :: "'a cache_scheme \<Rightarrow> 'a cache_scheme res" where
  "cache_make_room s =
     (if BUFFER_CACHE_SIZE \<le> length (buffer_cache_list s)
      then (case select_bce_for_evict s of
              (s1, None) \<Rightarrow> Inl PageFault
            | (s1, Some victim) \<Rightarrow>
                rbind (if dirty victim
                       then rbind (disk_write (filesys_disk s1) (sec_no victim) (buffer victim))
                              (\<lambda>d. Inr (s1\<lparr>filesys_disk := d\<rparr>))
                       else Inr s1)
                  (\<lambda>s2. Inr (s2\<lparr>buffer_cache_list :=
                     filter (\<lambda>b. bce_addr b \<noteq> bce_addr victim) (buffer_cache_list s2)\<rparr>)))
      else Inr s)"

text \<open>Filling the new entry: append it, read the sector, set the accessed bit.\<close>

definition cache_load :: "'a cache_scheme \<Rightarrow> nat \<Rightarrow> nat \<Rightarrow> 'a cache_scheme res" where
  "cache_load s p sec =
     rbind (disk_read (filesys_disk s) sec) (\<lambda>(d, data).
       Inr (s\<lparr>filesys_disk := d,
              buffer_cache_list := buffer_cache_list s @
                [\<lparr>bce_addr = p, buffer = data, accessed = True, dirty = False,
                  readers = 0, sec_no = sec\<rparr>]\<rparr>))"

function buffer_cache_check ::
    "'a cache_scheme \<Rightarrow> nat \<Rightarrow> bool \<Rightarrow> ('a cache_scheme \<times> nat option) res" where
  "buffer_cache_check s sec write =
     (case find (\<lambda>b. sec_no b = sec) (buffer_cache_list s) of
        Some b \<Rightarrow>
          Inr (s\<lparr>buffer_cache_list :=
                   bce_modify (bce_addr b) (\<lambda>b. b\<lparr>accessed := True\<rparr>) (buffer_cache_list s)\<rparr>,
               Some (bce_addr b))
      | None \<Rightarrow>
          rbind (cache_make_room s) (\<lambda>s1.
            case kalloc s1 of
              (s2, None) \<Rightarrow> Inr (s2, None)
            | (s2, Some newbce) \<Rightarrow>
                rbind (cache_load s2 newbce sec) (\<lambda>s3.
                  if write
                  then rbind (buffer_cache_check s3 (size_wrap (sec + 1)) False)
                         (\<lambda>(s4, _). Inr (s4, Some newbce))
                  else Inr (s3, Some newbce))))"
  by pat_completeness auto
termination
  by (relation "measure (\<lambda>(s, sec, write). if write then 1 else 0)") auto

definition buffer_cache_write ::
    "'a cache_scheme \<Rightarrow> nat \<Rightarrow> byte list \<Rightarrow> nat \<Rightarrow> 'a cache_scheme res" where
  "buffer_cache_write s sec towrite offset =
     rbind (buffer_cache_check s sec True) (\<lambda>(s1, bce).
       case bce of
         None \<Rightarrow> Inl PageFault
       | Some p \<Rightarrow>
           (case deref s1 p of
              None \<Rightarrow> Inl PageFault
            | Some b \<Rightarrow>
                rguard Blocked (\<not> readers b > 0)
                  (rguard PageFault (offset + length towrite \<le> DISK_SECTOR_SIZE)
                    (Inr (s1\<lparr>buffer_cache_list :=
                       bce_modify p (\<lambda>b. b\<lparr>buffer := overwrite (buffer b) offset towrite,
                                          dirty := True\<rparr>) (buffer_cache_list s1)\<rparr>)))))"

text \<open>
  The reading idiom of \<open>inode_open\<close> and \<open>inode_read_at\<close>: look the sector up, take it as a
  reader, copy it, drop it. A null entry leaves the destination as it was.
\<close>

definition buffer_cache_read ::
    "'a cache_scheme \<Rightarrow> nat \<Rightarrow> bool \<Rightarrow> ('a cache_scheme \<times> byte list option) res" where
  "buffer_cache_read s sec write =
     rbind (buffer_cache_check s sec write) (\<lambda>(s1, bce).
       case bce of
         None \<Rightarrow> Inr (s1, None)
       | Some p \<Rightarrow> (case deref s1 p of None \<Rightarrow> Inl PageFault | Some b \<Rightarrow> Inr (s1, Some (buffer b))))"

fun write_dirties_loop ::
    "disk \<Rightarrow> buffer_cache_entry list \<Rightarrow> (disk \<times> buffer_cache_entry list) res" where
  "write_dirties_loop d [] = Inr (d, [])"
| "write_dirties_loop d (b # bs) =
     (if dirty b
      then rbind (disk_write d (sec_no b) (buffer b)) (\<lambda>d1.
             rbind (write_dirties_loop d1 bs) (\<lambda>(d2, bs'). Inr (d2, b\<lparr>dirty := False\<rparr> # bs')))
      else rbind (write_dirties_loop d bs) (\<lambda>(d2, bs'). Inr (d2, b # bs')))"

definition buffer_cache_write_dirties_once :: "'a cache_scheme \<Rightarrow> 'a cache_scheme res" where
  "buffer_cache_write_dirties_once s =
     rbind (write_dirties_loop (filesys_disk s) (buffer_cache_list s)) (\<lambda>(d, l).
       Inr (s\<lparr>filesys_disk := d, buffer_cache_list := l\<rparr>))"

definition buffer_cache_init :: "'a cache_scheme \<Rightarrow> 'a cache_scheme" where
  "buffer_cache_init s = s\<lparr>buffer_cache_list := []\<rparr>"

section \<open>Invariant and abstraction\<close>

definition bce_ok :: "disk \<Rightarrow> nat \<Rightarrow> buffer_cache_entry \<Rightarrow> bool" where
  "bce_ok d n b \<longleftrightarrow> length (buffer b) = DISK_SECTOR_SIZE \<and> sec_no b < capacity d \<and> sec_no b < 2 ^ 28
     \<and> readers b = 0 \<and> bce_addr b \<le> n \<and> (\<not> dirty b \<longrightarrow> buffer b = sectors d (sec_no b))"

definition cache_inv :: "'a cache_scheme \<Rightarrow> bool" where
  "cache_inv s \<longleftrightarrow>
     distinct (map bce_addr (buffer_cache_list s)) \<and> distinct (map sec_no (buffer_cache_list s))
     \<and> length (buffer_cache_list s) \<le> BUFFER_CACHE_SIZE
     \<and> (\<forall>b\<in>set (buffer_cache_list s). bce_ok (filesys_disk s) (malloc_cnt s) b)
     \<and> (\<forall>k. length (sectors (filesys_disk s) k) = DISK_SECTOR_SIZE)"

definition cache_view :: "'a cache_scheme \<Rightarrow> nat \<Rightarrow> byte list" where
  "cache_view s k =
     (case find (\<lambda>b. sec_no b = k) (buffer_cache_list s) of
        Some b \<Rightarrow> buffer b | None \<Rightarrow> sectors (filesys_disk s) k)"

text \<open>What no cache operation touches.\<close>

definition cache_frame :: "'a cache_scheme \<Rightarrow> 'a cache_scheme \<Rightarrow> bool" where
  "cache_frame s s' \<longleftrightarrow> capacity (filesys_disk s') = capacity (filesys_disk s)
     \<and> mallocs s' = mallocs s \<and> malloc_cnt s \<le> malloc_cnt s' \<and> cache.more s' = cache.more s"

section \<open>The clock algorithm\<close>

lemma clock_loop_rotate:
  "\<forall>b\<in>set xs. accessed b \<Longrightarrow>
   clock_loop (xs @ ys) = clock_loop (ys @ map (\<lambda>b. b\<lparr>accessed := False\<rparr>) xs)"
proof (induction xs arbitrary: ys)
  case Nil
  then show ?case by simp
next
  case (Cons x xs)
  then have "clock_loop ((x # xs) @ ys) = clock_loop (xs @ (ys @ [x\<lparr>accessed := False\<rparr>]))" by simp
  also have "\<dots> = clock_loop ((ys @ [x\<lparr>accessed := False\<rparr>]) @ map (\<lambda>b. b\<lparr>accessed := False\<rparr>) xs)"
    by (rule Cons.IH) (use Cons.prems in simp)
  finally show ?case by simp
qed

lemma clock_loop_stop: "l = [] \<or> \<not> accessed (hd l) \<Longrightarrow> clock_loop l = l"
  by (cases l) auto

lemma clock_loop_eq:
  "clock_loop l =
     (if \<exists>b\<in>set l. \<not> accessed b
      then dropWhile accessed l @ map (\<lambda>b. b\<lparr>accessed := False\<rparr>) (takeWhile accessed l)
      else map (\<lambda>b. b\<lparr>accessed := False\<rparr>) l)"
proof (cases "\<exists>b\<in>set l. \<not> accessed b")
  case True
  then have "dropWhile accessed l \<noteq> []" by (simp add: dropWhile_eq_Nil_conv)
  moreover from this have "\<not> accessed (hd (dropWhile accessed l))"
    by (rule hd_dropWhile)
  moreover have "clock_loop (takeWhile accessed l @ dropWhile accessed l)
      = clock_loop (dropWhile accessed l @ map (\<lambda>b. b\<lparr>accessed := False\<rparr>) (takeWhile accessed l))"
    by (rule clock_loop_rotate) (auto dest: set_takeWhileD)
  ultimately show ?thesis using True
    by (simp only: takeWhile_dropWhile_id) (simp add: clock_loop_stop)
next
  case False
  then have "clock_loop (l @ []) = clock_loop ([] @ map (\<lambda>b. b\<lparr>accessed := False\<rparr>) l)"
    by (intro clock_loop_rotate) auto
  also have "\<dots> = map (\<lambda>b. b\<lparr>accessed := False\<rparr>) l"
    by (subst clock_loop_stop) (cases l, auto)
  finally show ?thesis using False by simp
qed

lemma clock_loop_Nil_iff [simp]: "clock_loop l = [] \<longleftrightarrow> l = []"
  by (auto simp: clock_loop_eq dropWhile_eq_Nil_conv)

text \<open>The entries apart from their accessed bit: what the clock only permutes.\<close>

definition bce_core :: "buffer_cache_entry \<Rightarrow> buffer_cache_entry" where
  "bce_core b = b\<lparr>accessed := False\<rparr>"

lemma bce_core_sel [simp]:
  "bce_addr (bce_core b) = bce_addr b" "buffer (bce_core b) = buffer b"
  "dirty (bce_core b) = dirty b" "readers (bce_core b) = readers b" "sec_no (bce_core b) = sec_no b"
  "bce_core (b\<lparr>accessed := v\<rparr>) = bce_core b"
  by (simp_all add: bce_core_def)

lemma clock_loop_core: "mset (map bce_core (clock_loop l)) = mset (map bce_core l)"
  by (induction l rule: clock_loop.induct) (auto simp: bce_core_def)

lemma bce_modify_accessed_core:
  "map bce_core (bce_modify p (\<lambda>b. b\<lparr>accessed := v\<rparr>) l) = map bce_core l"
  by (simp add: bce_modify_def)

section \<open>The view\<close>

lemma cache_view_in:
  "cache_inv s \<Longrightarrow> b \<in> set (buffer_cache_list s) \<Longrightarrow> cache_view s (sec_no b) = buffer b"
  using find_key_iff [of sec_no "buffer_cache_list s" "sec_no b" b]
  by (simp add: cache_view_def cache_inv_def)

lemma cache_view_out:
  "k \<notin> sec_no ` set (buffer_cache_list s) \<Longrightarrow> cache_view s k = sectors (filesys_disk s) k"
  using find_key_None [of sec_no k "buffer_cache_list s"] by (simp add: cache_view_def)

lemma length_cache_view [simp]: "cache_inv s \<Longrightarrow> length (cache_view s k) = DISK_SECTOR_SIZE"
  by (cases "k \<in> sec_no ` set (buffer_cache_list s)")
    (auto simp: cache_view_in cache_view_out cache_inv_def bce_ok_def)

lemma cache_view_eqI:
  assumes "cache_inv s'"
    and "\<And>b. b \<in> set (buffer_cache_list s') \<Longrightarrow> buffer b = v (sec_no b)"
    and "\<And>k. k \<notin> sec_no ` set (buffer_cache_list s') \<Longrightarrow> sectors (filesys_disk s') k = v k"
  shows "cache_view s' = v"
proof
  fix k
  show "cache_view s' k = v k"
  proof (cases "k \<in> sec_no ` set (buffer_cache_list s')")
    case True
    then obtain b where "b \<in> set (buffer_cache_list s')" "k = sec_no b" by auto
    with assms(1,2) show ?thesis by (simp add: cache_view_in)
  next
    case False
    with assms(3) show ?thesis by (simp add: cache_view_out)
  qed
qed

lemma deref_iff:
  "cache_inv s \<Longrightarrow> deref s p = Some b \<longleftrightarrow> b \<in> set (buffer_cache_list s) \<and> bce_addr b = p"
  by (simp add: deref_def find_key_iff cache_inv_def)

text \<open>A list with the same entries up to order and accessed bits is the same cache.\<close>

lemma cache_core_same:
  assumes "mset (map bce_core l') = mset (map bce_core l)"
    and "\<And>b. f (bce_core b) = f b"
  shows "f ` set l' = f ` set l"
proof -
  have "set (map bce_core l') = set (map bce_core l)"
    using assms(1) by (rule mset_eq_setD)
  then have "f ` (bce_core ` set l') = f ` (bce_core ` set l)" by simp
  then show ?thesis by (simp add: image_image assms(2))
qed

lemma cache_core_distinct:
  assumes "mset (map bce_core l') = mset (map bce_core l)"
    and "\<And>b. f (bce_core b) = f b"
  shows "distinct (map f l') = distinct (map f l)"
proof -
  have "mset (map f (map bce_core l')) = mset (map f (map bce_core l))"
    using assms(1) by (metis mset_map)
  then have "mset (map f l') = mset (map f l)"
    by (simp add: comp_def assms(2))
  then show ?thesis by (rule mset_eq_imp_distinct_iff)
qed

lemma cache_reorder:
  assumes inv: "cache_inv s" and eq: "mset (map bce_core l') = mset (map bce_core (buffer_cache_list s))"
  shows "cache_inv (s\<lparr>buffer_cache_list := l'\<rparr>)"
    and "cache_view (s\<lparr>buffer_cache_list := l'\<rparr>) = cache_view s"
proof -
  let ?l = "buffer_cache_list s"
  have len: "length l' = length ?l"
    using eq by (metis length_map size_mset)
  have ok: "bce_ok d n (bce_core b) = bce_ok d n b" for d n b
    by (simp add: bce_ok_def)
  have all: "(\<forall>b\<in>set l'. P b) = (\<forall>b\<in>set ?l. P b)" if "\<And>b. P (bce_core b) = P b" for P
    using cache_core_same [where f = P, OF eq] that by (metis (no_types, lifting) imageE imageI)
  show inv': "cache_inv (s\<lparr>buffer_cache_list := l'\<rparr>)"
    using inv len all [of "bce_ok (filesys_disk s) (malloc_cnt s)"]
      cache_core_distinct [OF eq, of bce_addr] cache_core_distinct [OF eq, of sec_no]
    by (simp add: cache_inv_def ok)
  show "cache_view (s\<lparr>buffer_cache_list := l'\<rparr>) = cache_view s"
  proof (rule cache_view_eqI [OF inv'])
    fix b
    assume b: "b \<in> set (buffer_cache_list (s\<lparr>buffer_cache_list := l'\<rparr>))"
    have "\<forall>b\<in>set l'. buffer b = cache_view s (sec_no b)"
      by (subst all) (auto simp: cache_view_in [OF inv])
    with b show "buffer b = cache_view s (sec_no b)" by simp
  next
    fix k
    assume "k \<notin> sec_no ` set (buffer_cache_list (s\<lparr>buffer_cache_list := l'\<rparr>))"
    then have "k \<notin> sec_no ` set ?l"
      using cache_core_same [OF eq, of sec_no] by simp
    then show "sectors (filesys_disk (s\<lparr>buffer_cache_list := l'\<rparr>)) k = cache_view s k"
      by (simp add: cache_view_out)
  qed
qed

section \<open>Making room, loading\<close>

lemma cache_frame_refl [simp]: "cache_frame s s"
  by (simp add: cache_frame_def)

lemma cache_frame_trans: "cache_frame s s' \<Longrightarrow> cache_frame s' s'' \<Longrightarrow> cache_frame s s''"
  by (auto simp: cache_frame_def)

lemma disk_write_spec:
  "sec < capacity d \<Longrightarrow> sec < 2 ^ 28 \<Longrightarrow>
   disk_write d sec buf = Inr (d\<lparr>sectors := (sectors d)(sec := buf), write_cnt := write_cnt d + 1\<rparr>)"
  by (simp add: disk_write_def select_sector_def)

lemma bce_ok_mono:
  "bce_ok d n b \<Longrightarrow> n \<le> n' \<Longrightarrow> capacity d' = capacity d \<Longrightarrow>
   (\<not> dirty b \<Longrightarrow> sectors d' (sec_no b) = sectors d (sec_no b)) \<Longrightarrow> bce_ok d' n' b"
  by (auto simp: bce_ok_def)

text \<open>Dropping an entry whose contents the disk holds is invisible.\<close>

lemma cache_drop:
  assumes inv: "cache_inv s" and v: "v \<in> set (buffer_cache_list s)"
    and d: "d = filesys_disk s \<or> d = (filesys_disk s)\<lparr>sectors := (sectors (filesys_disk s))(sec_no v := buffer v),
              write_cnt := w\<rparr>"
    and wb: "sectors d (sec_no v) = buffer v"
    and s': "s' = s\<lparr>filesys_disk := d, buffer_cache_list :=
              filter (\<lambda>b. bce_addr b \<noteq> bce_addr v) (buffer_cache_list s)\<rparr>"
  shows "cache_inv s' \<and> cache_view s' = cache_view s"
proof -
  let ?l = "buffer_cache_list s"
  have sub: "set (buffer_cache_list s') \<subseteq> set ?l" by (auto simp: s')
  have same: "b = v" if "b \<in> set ?l" "sec_no b = sec_no v" for b
    using inv v that by (auto simp: cache_inv_def distinct_map dest: inj_onD)
  have other: "sectors d (sec_no b) = sectors (filesys_disk s) (sec_no b)"
    if "b \<in> set (buffer_cache_list s')" for b
  proof -
    have "sec_no b \<noteq> sec_no v" using same [of b] that by (auto simp: s')
    with d show ?thesis by auto
  qed
  have len: "length (buffer v) = DISK_SECTOR_SIZE"
    using inv v by (auto simp: cache_inv_def bce_ok_def)
  have ok: "bce_ok d (malloc_cnt s) b" if "b \<in> set (buffer_cache_list s')" for b
    by (rule bce_ok_mono [of "filesys_disk s" "malloc_cnt s"])
      (use that sub inv d other in \<open>auto simp: cache_inv_def\<close>)
  have inv': "cache_inv s'"
    using inv ok d len length_filter_le [of "\<lambda>b. bce_addr b \<noteq> bce_addr v" ?l]
    by (auto simp: cache_inv_def s' distinct_map_filter elim: order_trans [rotated])
  moreover have "cache_view s' = cache_view s"
  proof (rule cache_view_eqI [OF inv'])
    fix b
    assume "b \<in> set (buffer_cache_list s')"
    with sub show "buffer b = cache_view s (sec_no b)" by (auto simp: cache_view_in [OF inv])
  next
    fix k
    assume k: "k \<notin> sec_no ` set (buffer_cache_list s')"
    show "sectors (filesys_disk s') k = cache_view s k"
    proof (cases "k = sec_no v")
      case True
      with wb v show ?thesis by (simp add: s' cache_view_in [OF inv])
    next
      case False
      have "k \<notin> sec_no ` set ?l"
      proof
        assume "k \<in> sec_no ` set ?l"
        then obtain b where b: "b \<in> set ?l" "k = sec_no b" by auto
        with False k have "bce_addr b = bce_addr v" by (auto simp: s')
        with inv b v have "b = v" by (auto simp: cache_inv_def distinct_map dest: inj_onD)
        with b False show False by simp
      qed
      with False d show ?thesis by (auto simp: s' cache_view_out)
    qed
  qed
  ultimately show ?thesis ..
qed

lemma cache_make_room_spec:
  assumes inv: "cache_inv s"
  shows "\<exists>s'. cache_make_room s = Inr s' \<and> cache_inv s' \<and> cache_view s' = cache_view s
    \<and> cache_frame s s' \<and> malloc_cnt s' = malloc_cnt s
    \<and> length (buffer_cache_list s') < BUFFER_CACHE_SIZE
    \<and> sec_no ` set (buffer_cache_list s') \<subseteq> sec_no ` set (buffer_cache_list s)
    \<and> bce_core ` set (buffer_cache_list s) - bce_core ` {hd (clock_loop (buffer_cache_list s))}
        \<subseteq> bce_core ` set (buffer_cache_list s')"
proof (cases "BUFFER_CACHE_SIZE \<le> length (buffer_cache_list s)")
  case False
  with inv show ?thesis by (auto simp: cache_make_room_def)
next
  case True
  let ?l = "clock_loop (buffer_cache_list s)"
  define s1 where "s1 = s\<lparr>buffer_cache_list := ?l\<rparr>"
  define v where "v = hd ?l"
  have ne: "buffer_cache_list s \<noteq> []" using True by (auto simp: BUFFER_CACHE_SIZE_def)
  then have sel: "select_bce_for_evict s = (s1, Some v)"
    by (simp add: select_bce_for_evict_def s1_def v_def Let_def)
  from cache_reorder [OF inv clock_loop_core] have inv1: "cache_inv s1" and view1: "cache_view s1 = cache_view s"
    by (simp_all add: s1_def)
  have v: "v \<in> set (buffer_cache_list s1)" using ne by (simp add: s1_def v_def)
  with inv1 have vok: "bce_ok (filesys_disk s) (malloc_cnt s) v" by (simp add: cache_inv_def s1_def)
  define d where "d = (if dirty v
     then (filesys_disk s)\<lparr>sectors := (sectors (filesys_disk s))(sec_no v := buffer v),
            write_cnt := write_cnt (filesys_disk s) + 1\<rparr>
     else filesys_disk s)"
  define s2 where "s2 = s1\<lparr>filesys_disk := d,
     buffer_cache_list := filter (\<lambda>b. bce_addr b \<noteq> bce_addr v) (buffer_cache_list s1)\<rparr>"
  have room: "cache_make_room s = Inr s2"
    using True sel vok
    by (simp add: cache_make_room_def s2_def d_def s1_def disk_write_spec bce_ok_def)
  have "cache_inv s2 \<and> cache_view s2 = cache_view s1"
    by (rule cache_drop [OF inv1 v _ _ s2_def])
      (use vok in \<open>auto simp: d_def s1_def bce_ok_def\<close>)
  moreover have "length (buffer_cache_list s2) < BUFFER_CACHE_SIZE"
    using length_filter_less [OF v, of "\<lambda>b. bce_addr b \<noteq> bce_addr v"] inv1
    by (simp add: s2_def cache_inv_def)
  moreover have "sec_no ` set ?l = sec_no ` set (buffer_cache_list s)"
    by (rule cache_core_same [OF clock_loop_core]) simp
  moreover have "bce_core ` set ?l = bce_core ` set (buffer_cache_list s)"
    by (rule cache_core_same [OF clock_loop_core]) (simp add: bce_core_def)
  moreover have "bce_core ` set ?l - bce_core ` {v} \<subseteq> bce_core ` set (buffer_cache_list s2)"
  proof
    fix c
    assume "c \<in> bce_core ` set ?l - bce_core ` {v}"
    then obtain b where b: "b \<in> set ?l" "c = bce_core b" "b \<noteq> v" by auto
    with inv1 v have "bce_addr b \<noteq> bce_addr v"
      by (auto simp: cache_inv_def s1_def distinct_map dest: inj_onD)
    with b show "c \<in> bce_core ` set (buffer_cache_list s2)" by (auto simp: s2_def s1_def)
  qed
  ultimately show ?thesis
    using room view1
    by (intro exI [of _ s2]) (auto simp: cache_frame_def s2_def s1_def d_def v_def)
qed

lemma cache_load_spec:
  assumes inv: "cache_inv s" and room: "length (buffer_cache_list s) < BUFFER_CACHE_SIZE"
    and new: "sec \<notin> sec_no ` set (buffer_cache_list s)" "\<forall>b\<in>set (buffer_cache_list s). bce_addr b < p"
    and p: "p \<le> malloc_cnt s"
    and load: "cache_load s p sec = Inr s'"
  shows "cache_inv s' \<and> cache_view s' = cache_view s \<and> cache_frame s s' \<and> malloc_cnt s' = malloc_cnt s
    \<and> (\<exists>b. buffer_cache_list s' = buffer_cache_list s @ [b] \<and> bce_addr b = p \<and> sec_no b = sec
          \<and> accessed b)"
proof -
  from load have rng: "sec < capacity (filesys_disk s)" "sec < 2 ^ 28"
    by (auto simp: cache_load_def disk_read_def select_sector_def split: prod.splits)
  define b where "b = \<lparr>bce_addr = p, buffer = sectors (filesys_disk s) sec, accessed = True,
     dirty = False, readers = 0, sec_no = sec\<rparr>"
  have s': "s' = s\<lparr>filesys_disk := (filesys_disk s)\<lparr>read_cnt := read_cnt (filesys_disk s) + 1\<rparr>,
      buffer_cache_list := buffer_cache_list s @ [b]\<rparr>"
    using load rng by (simp add: cache_load_def disk_read_def select_sector_def b_def)
  have inv': "cache_inv s'"
    using inv room new p rng by (auto simp: cache_inv_def s' b_def bce_ok_def)
  moreover have "cache_view s' = cache_view s"
  proof (rule cache_view_eqI [OF inv'])
    fix e
    assume "e \<in> set (buffer_cache_list s')"
    then show "buffer e = cache_view s (sec_no e)"
      using new by (auto simp: s' b_def cache_view_in [OF inv] cache_view_out)
  qed (simp add: s' cache_view_out)
  ultimately show ?thesis by (simp add: s' b_def cache_frame_def)
qed

section \<open>Looking a sector up\<close>

declare buffer_cache_check.simps [simp del]

lemma cache_hit:
  assumes inv: "cache_inv s" and b: "find (\<lambda>b. sec_no b = sec) (buffer_cache_list s) = Some b"
    and s': "s' = s\<lparr>buffer_cache_list :=
        bce_modify (bce_addr b) (\<lambda>b. b\<lparr>accessed := True\<rparr>) (buffer_cache_list s)\<rparr>"
  shows "cache_inv s' \<and> cache_view s' = cache_view s \<and> cache_frame s s'
    \<and> bce_core ` set (buffer_cache_list s') = bce_core ` set (buffer_cache_list s)
    \<and> (\<exists>c\<in>set (buffer_cache_list s'). bce_addr c = bce_addr b \<and> sec_no c = sec)"
proof -
  have eq: "mset (map bce_core (buffer_cache_list s')) = mset (map bce_core (buffer_cache_list s))"
    by (simp add: s' bce_modify_accessed_core)
  have "b \<in> set (buffer_cache_list s)" "sec_no b = sec"
    using b find_key_iff [of sec_no "buffer_cache_list s" sec b] inv by (auto simp: cache_inv_def)
  moreover from this have "b\<lparr>accessed := True\<rparr> \<in> set (buffer_cache_list s')"
    by (force simp: s' bce_modify_def)
  moreover have "bce_core ` set (buffer_cache_list s') = bce_core ` set (buffer_cache_list s)"
    by (rule cache_core_same [OF eq]) (simp add: bce_core_def)
  ultimately show ?thesis
    using cache_reorder [OF inv, of "buffer_cache_list s'"] eq
    by (auto simp: s' cache_frame_def intro!: bexI [of _ "b\<lparr>accessed := True\<rparr>"])
qed

text \<open>A miss after room was made: the new entry is last in the list and accessed.\<close>

lemma cache_miss:
  assumes inv: "cache_inv s" and miss: "sec \<notin> sec_no ` set (buffer_cache_list s)"
    and room: "cache_make_room s = Inr s1" and a: "kalloc s1 = (s2, r)"
    and load: "r = Some p \<Longrightarrow> cache_load s2 p sec = Inr s3"
  shows "cache_inv s2 \<and> cache_view s2 = cache_view s \<and> cache_frame s s2"
    and "r = Some p \<Longrightarrow> cache_inv s3 \<and> cache_view s3 = cache_view s \<and> cache_frame s s3
      \<and> (\<exists>b. buffer_cache_list s3 = buffer_cache_list s1 @ [b] \<and> bce_addr b = p \<and> sec_no b = sec
          \<and> accessed b)"
proof -
  from cache_make_room_spec [OF inv] room have 1: "cache_inv s1" "cache_view s1 = cache_view s"
      "cache_frame s s1" "length (buffer_cache_list s1) < BUFFER_CACHE_SIZE"
      "sec_no ` set (buffer_cache_list s1) \<subseteq> sec_no ` set (buffer_cache_list s)"
    by auto
  from a have s2: "s2 = s1\<lparr>malloc_cnt := Suc (malloc_cnt s1)\<rparr>"
    and p: "r = Some p \<Longrightarrow> p = Suc (malloc_cnt s1)"
    by (auto simp: kalloc_def split: if_splits)
  have 2: "cache_inv s2" using 1 by (auto simp: s2 cache_inv_def bce_ok_def)
  have v2: "cache_view s2 = cache_view s1" by (auto simp: s2 cache_view_def fun_eq_iff split: option.splits)
  show "cache_inv s2 \<and> cache_view s2 = cache_view s \<and> cache_frame s s2"
    using 1 2 v2 by (auto simp: s2 cache_frame_def)
  assume r: "r = Some p"
  have "\<forall>b\<in>set (buffer_cache_list s2). bce_addr b < p"
    using 1(1) p [OF r] by (auto simp: s2 cache_inv_def bce_ok_def less_Suc_eq_le)
  then have "cache_inv s3 \<and> cache_view s3 = cache_view s2 \<and> cache_frame s2 s3 \<and> malloc_cnt s3 = malloc_cnt s2
    \<and> (\<exists>b. buffer_cache_list s3 = buffer_cache_list s2 @ [b] \<and> bce_addr b = p \<and> sec_no b = sec
          \<and> accessed b)"
    using 1 miss p [OF r] by (intro cache_load_spec [OF 2 _ _ _ _ load [OF r]]) (auto simp: s2)
  then show "cache_inv s3 \<and> cache_view s3 = cache_view s \<and> cache_frame s s3
      \<and> (\<exists>b. buffer_cache_list s3 = buffer_cache_list s1 @ [b] \<and> bce_addr b = p \<and> sec_no b = sec
          \<and> accessed b)"
    using 1 v2 by (auto simp: s2 cache_frame_def)
qed

text \<open>The clock never evicts the last entry of a full cache when it is accessed.\<close>

lemma clock_spares_last:
  assumes "distinct (map bce_addr (l @ [b]))" and "accessed b" and "l \<noteq> []"
  shows "bce_addr (hd (clock_loop (l @ [b]))) \<noteq> bce_addr b"
proof (cases "\<exists>c\<in>set (l @ [b]). \<not> accessed c")
  case True
  then have ne: "dropWhile accessed (l @ [b]) \<noteq> []" by (simp add: dropWhile_eq_Nil_conv)
  let ?h = "hd (dropWhile accessed (l @ [b]))"
  have "?h \<in> set (l @ [b])" using ne by (metis hd_in_set set_dropWhileD)
  moreover have "\<not> accessed ?h" using ne by (rule hd_dropWhile)
  ultimately have "?h \<in> set l" using assms(2) by auto
  then have "bce_addr ?h \<noteq> bce_addr b" using assms(1) by (auto simp: image_iff)
  then show ?thesis using True ne by (subst clock_loop_eq) (simp only: if_True if_P hd_append2 [OF ne] simp_thms)
next
  case False
  then show ?thesis using assms(1,3) by (cases l) (auto simp: clock_loop_eq)
qed

lemma buffer_cache_check_readahead:
  assumes inv: "cache_inv s" and chk: "buffer_cache_check s sec False = Inr (s', r)"
  shows "cache_inv s'" "cache_view s' = cache_view s" "cache_frame s s'"
    "r = Some p \<Longrightarrow> \<exists>b\<in>set (buffer_cache_list s'). bce_addr b = p \<and> sec_no b = sec"
    "bce_core ` set (buffer_cache_list s) - bce_core ` {hd (clock_loop (buffer_cache_list s))}
       \<subseteq> bce_core ` set (buffer_cache_list s')"
proof -
  have "cache_inv s' \<and> cache_view s' = cache_view s \<and> cache_frame s s'
    \<and> (r = Some p \<longrightarrow> (\<exists>b\<in>set (buffer_cache_list s'). bce_addr b = p \<and> sec_no b = sec))
    \<and> bce_core ` set (buffer_cache_list s) - bce_core ` {hd (clock_loop (buffer_cache_list s))}
       \<subseteq> bce_core ` set (buffer_cache_list s')"
  proof (cases "find (\<lambda>b. sec_no b = sec) (buffer_cache_list s)")
    case (Some b)
    with chk have "r = Some (bce_addr b)" and "s' = s\<lparr>buffer_cache_list :=
        bce_modify (bce_addr b) (\<lambda>b. b\<lparr>accessed := True\<rparr>) (buffer_cache_list s)\<rparr>"
      by (auto simp: buffer_cache_check.simps [of s])
    with cache_hit [OF inv Some] show ?thesis by auto
  next
    case None
    then have miss: "sec \<notin> sec_no ` set (buffer_cache_list s)" by (simp add: find_key_None)
    from cache_make_room_spec [OF inv] obtain s1 where s1: "cache_make_room s = Inr s1"
      and keep: "bce_core ` set (buffer_cache_list s) - bce_core ` {hd (clock_loop (buffer_cache_list s))}
       \<subseteq> bce_core ` set (buffer_cache_list s1)" by auto
    obtain s2 q where a: "kalloc s1 = (s2, q)" by (cases "kalloc s1")
    then have l2: "buffer_cache_list s2 = buffer_cache_list s1" by (auto simp: kalloc_def)
    show ?thesis
    proof (cases q)
      case None
      with chk s1 a \<open>find _ _ = None\<close> have "s' = s2" "r = None"
        by (auto simp: buffer_cache_check.simps [of s])
      with cache_miss(1) [OF inv miss s1 a, of undefined undefined] keep l2 None show ?thesis by simp
    next
      case (Some n)
      with chk s1 a \<open>find _ _ = None\<close> have ld: "cache_load s2 n sec = Inr s'" and "r = Some n"
        by (auto simp: buffer_cache_check.simps [of s])
      with cache_miss(2) [OF inv miss s1 a, of n s'] keep Some show ?thesis by auto
    qed
  qed
  then show "cache_inv s'" "cache_view s' = cache_view s" "cache_frame s s'"
    "r = Some p \<Longrightarrow> \<exists>b\<in>set (buffer_cache_list s'). bce_addr b = p \<and> sec_no b = sec"
    "bce_core ` set (buffer_cache_list s) - bce_core ` {hd (clock_loop (buffer_cache_list s))}
       \<subseteq> bce_core ` set (buffer_cache_list s')"
    by auto
qed

lemma buffer_cache_check_spec:
  assumes inv: "cache_inv s" and chk: "buffer_cache_check s sec write = Inr (s', r)"
  shows "cache_inv s' \<and> cache_view s' = cache_view s \<and> cache_frame s s'
    \<and> (\<forall>p. r = Some p \<longrightarrow> (\<exists>b\<in>set (buffer_cache_list s'). bce_addr b = p \<and> sec_no b = sec))"
proof (cases "write")
  case False
  with buffer_cache_check_readahead [OF inv] chk show ?thesis by simp
next
  case True
  show ?thesis
  proof (cases "find (\<lambda>b. sec_no b = sec) (buffer_cache_list s)")
    case (Some b)
    with chk have "buffer_cache_check s sec False = Inr (s', r)"
      by (auto simp: buffer_cache_check.simps [of s])
    with buffer_cache_check_readahead [OF inv] show ?thesis by simp
  next
    case None
    then have miss: "sec \<notin> sec_no ` set (buffer_cache_list s)" by (simp add: find_key_None)
    from cache_make_room_spec [OF inv] obtain s1 where s1: "cache_make_room s = Inr s1" by auto
    obtain s2 q where a: "kalloc s1 = (s2, q)" by (cases "kalloc s1")
    show ?thesis
    proof (cases q)
      case None
      with chk s1 a \<open>find _ _ = None\<close> have "s' = s2" "r = None"
        by (auto simp: buffer_cache_check.simps [of s])
      with cache_miss(1) [OF inv miss s1 a, of undefined undefined] None show ?thesis by simp
    next
      case (Some n)
      with chk s1 a \<open>find _ _ = None\<close> True obtain s3 q' where ld: "cache_load s2 n sec = Inr s3"
        and ra: "buffer_cache_check s3 (size_wrap (sec + 1)) False = Inr (s', q')" and r: "r = Some n"
        by (auto simp: buffer_cache_check.simps [of s])
      from cache_miss(2) [OF inv miss s1 a, of n s3] ld Some obtain b where
        3: "cache_inv s3" "cache_view s3 = cache_view s" "cache_frame s s3" and
        b: "buffer_cache_list s3 = buffer_cache_list s1 @ [b]" "bce_addr b = n" "sec_no b = sec" "accessed b"
        by auto
      note ra' = buffer_cache_check_readahead [OF 3(1) ra]
      have "\<exists>c\<in>set (buffer_cache_list s'). bce_core c = bce_core b"
      proof (cases "buffer_cache_list s1 = []")
        case True
        then have "length (buffer_cache_list s3) = 1" using b by simp
        then have "cache_make_room s3 = Inr s3" by (simp add: cache_make_room_def BUFFER_CACHE_SIZE_def)
        with ra b True show ?thesis
          by (auto simp: buffer_cache_check.simps [of s3] kalloc_def cache_load_def bce_modify_def
              split: if_splits option.splits)
      next
        case False
        then have "bce_addr (hd (clock_loop (buffer_cache_list s3))) \<noteq> bce_addr b"
          using clock_spares_last [of "buffer_cache_list s1" b] b 3(1) by (simp add: cache_inv_def)
        then have "bce_core b \<noteq> bce_core (hd (clock_loop (buffer_cache_list s3)))"
          by (metis bce_core_sel(1))
        then have "bce_core b \<in> bce_core ` set (buffer_cache_list s')"
          using ra'(5) b(1) by auto
        then show ?thesis by (auto simp: image_iff)
      qed
      then have "\<exists>c\<in>set (buffer_cache_list s'). bce_addr c = n \<and> sec_no c = sec"
        using b by (metis bce_core_sel(1,5))
      with 3 ra' r show ?thesis by (auto intro: cache_frame_trans)
    qed
  qed
qed

text \<open>With memory and one sector of read-ahead room left on the disk, the look-up succeeds.\<close>

lemma cache_load_ok:
  "sec < capacity (filesys_disk s) \<Longrightarrow> sec < 2 ^ 28 \<Longrightarrow> \<exists>s'. cache_load s p sec = Inr s'"
  by (simp add: cache_load_def disk_read_def select_sector_def)

lemma buffer_cache_check_total:
  assumes inv: "cache_inv s" and mem: "\<forall>n. mallocs s n"
    and rng: "sec + (if write then 1 else 0) < capacity (filesys_disk s)" "capacity (filesys_disk s) \<le> 2 ^ 28"
  shows "\<exists>s' p. buffer_cache_check s sec write = Inr (s', Some p)"
proof -
  have readahead: "\<exists>s' p. buffer_cache_check s sec False = Inr (s', Some p)"
    if inv: "cache_inv s" and mem: "\<forall>n. mallocs s n"
      and "sec < capacity (filesys_disk s)" "capacity (filesys_disk s) \<le> 2 ^ 28"
    for s :: "'a cache_scheme" and sec
  proof (cases "find (\<lambda>b. sec_no b = sec) (buffer_cache_list s)")
    case None
    from cache_make_room_spec [OF inv] obtain s1 where "cache_make_room s = Inr s1" "cache_frame s s1" by auto
    with None that show ?thesis
      using cache_load_ok [of sec "s1\<lparr>malloc_cnt := Suc (malloc_cnt s1)\<rparr>" "Suc (malloc_cnt s1)"]
      by (auto simp: buffer_cache_check.simps [of s] kalloc_def cache_frame_def)
  qed (simp add: buffer_cache_check.simps [of s])
  show ?thesis
  proof (cases "find (\<lambda>b. sec_no b = sec) (buffer_cache_list s)")
    case None
    then have miss: "sec \<notin> sec_no ` set (buffer_cache_list s)" by (simp add: find_key_None)
    from cache_make_room_spec [OF inv] obtain s1 where s1: "cache_make_room s = Inr s1" "cache_frame s s1" by auto
    define s2 where "s2 = s1\<lparr>malloc_cnt := Suc (malloc_cnt s1)\<rparr>"
    have a: "kalloc s1 = (s2, Some (Suc (malloc_cnt s1)))" using s1 mem by (simp add: kalloc_def s2_def cache_frame_def)
    obtain s3 where s3: "cache_load s2 (Suc (malloc_cnt s1)) sec = Inr s3"
      using cache_load_ok [of sec s2] s1 rng by (auto simp: s2_def cache_frame_def split: if_splits)
    from cache_miss(2) [OF inv miss s1(1) a, of "Suc (malloc_cnt s1)" s3] s3 have "cache_inv s3" "cache_frame s s3" by auto
    with readahead [of s3 "sec + 1"] mem rng have
      "write \<Longrightarrow> \<exists>s' p. buffer_cache_check s3 (sec + 1) False = Inr (s', Some p)"
      by (auto simp: cache_frame_def)
    then show ?thesis using None s1 a s3 rng by (auto simp: buffer_cache_check.simps [of s])
  qed (simp add: buffer_cache_check.simps [of s])
qed

text \<open>
  C30: looking up the last sector of the disk for reading or writing, when it is not cached,
  reads ahead past the end of the disk and fails the range check of \<open>select_sector\<close>.
\<close>

theorem buffer_cache_check_last_sector:
  assumes inv: "cache_inv s" and mem: "\<forall>n. mallocs s n"
    and last: "Suc sec = capacity (filesys_disk s)" "sec < 2 ^ 28"
    and miss: "sec \<notin> sec_no ` set (buffer_cache_list s)"
  shows "buffer_cache_check s sec True = Inl AssertFail"
proof -
  from cache_make_room_spec [OF inv] obtain s1 where s1: "cache_make_room s = Inr s1" "cache_frame s s1" by auto
  define s2 where "s2 = s1\<lparr>malloc_cnt := Suc (malloc_cnt s1)\<rparr>"
  have a: "kalloc s1 = (s2, Some (Suc (malloc_cnt s1)))" using s1 mem by (simp add: kalloc_def s2_def cache_frame_def)
  obtain s3 where s3: "cache_load s2 (Suc (malloc_cnt s1)) sec = Inr s3"
    using cache_load_ok [of sec s2] s1 last by (auto simp: s2_def cache_frame_def)
  from cache_miss(2) [OF inv miss s1(1) a, of "Suc (malloc_cnt s1)" s3] s3
  have 3: "cache_inv s3" "cache_frame s s3" by auto
  from 3(1) last 3(2) have "find (\<lambda>b. sec_no b = Suc sec) (buffer_cache_list s3) = None"
    by (auto simp: find_key_None cache_inv_def bce_ok_def cache_frame_def)
  moreover from cache_make_room_spec [OF 3(1)] obtain s4 where
    s4: "cache_make_room s3 = Inr s4" "cache_frame s3 s4" by auto
  ultimately have "buffer_cache_check s3 (Suc sec) False = Inl AssertFail"
    using 3 last mem by (auto simp: buffer_cache_check.simps [of s3] kalloc_def cache_load_def disk_read_def
        select_sector_def cache_frame_def rbind_eq_Inl)
  moreover have "find (\<lambda>b. sec_no b = sec) (buffer_cache_list s) = None" using miss by (simp add: find_key_None)
  ultimately show ?thesis using s1 a s3 last by (simp add: buffer_cache_check.simps [of s])
qed

theorem buffer_cache_check_last_sector_witness:
  "buffer_cache_check
     \<lparr>filesys_disk = \<lparr>capacity = 4, sectors = (\<lambda>_. zero_sector), read_cnt = 0, write_cnt = 0\<rparr>,
      buffer_cache_list = [], mallocs = (\<lambda>_. True), malloc_cnt = 0\<rparr> 3 True = Inl AssertFail"
  by (rule buffer_cache_check_last_sector)
    (simp_all add: cache_inv_def zero_sector_def DISK_SECTOR_SIZE_def)

section \<open>Reading and writing through the cache\<close>

lemma cache_write_entry:
  assumes inv: "cache_inv s" and b: "b \<in> set (buffer_cache_list s)"
    and fit: "offset + length bs \<le> DISK_SECTOR_SIZE"
    and s': "s' = s\<lparr>buffer_cache_list := bce_modify (bce_addr b)
        (\<lambda>b. b\<lparr>buffer := overwrite (buffer b) offset bs, dirty := True\<rparr>) (buffer_cache_list s)\<rparr>"
  shows "cache_inv s' \<and> cache_frame s s'
    \<and> cache_view s' = (cache_view s)(sec_no b := overwrite (cache_view s (sec_no b)) offset bs)"
proof -
  have keys: "map bce_addr (buffer_cache_list s') = map bce_addr (buffer_cache_list s)"
      "map sec_no (buffer_cache_list s') = map sec_no (buffer_cache_list s)"
      "length (buffer_cache_list s') = length (buffer_cache_list s)"
    by (simp_all add: s' bce_modify_def)
  have uniq: "c = b" if "c \<in> set (buffer_cache_list s)" "bce_addr c = bce_addr b" for c
    using inv b that by (auto simp: cache_inv_def distinct_map dest: inj_onD)
  have uniq2: "c = b" if "c \<in> set (buffer_cache_list s)" "sec_no c = sec_no b" for c
    using inv b that by (auto simp: cache_inv_def distinct_map dest: inj_onD)
  have ok: "\<forall>c\<in>set (buffer_cache_list s). bce_ok (filesys_disk s) (malloc_cnt s) c"
    using inv by (simp add: cache_inv_def)
  then have "\<forall>c\<in>set (buffer_cache_list s'). bce_ok (filesys_disk s) (malloc_cnt s) c"
    using fit by (auto simp: s' bce_modify_def bce_ok_def)
  then have inv': "cache_inv s'"
    using inv keys by (simp add: cache_inv_def) (simp add: s')
  moreover have "cache_view s' = (cache_view s)(sec_no b := overwrite (cache_view s (sec_no b)) offset bs)"
  proof (rule cache_view_eqI [OF inv'])
    fix c
    assume "c \<in> set (buffer_cache_list s')"
    then show "buffer c = ((cache_view s)(sec_no b := overwrite (cache_view s (sec_no b)) offset bs)) (sec_no c)"
      using uniq uniq2 b by (auto simp: s' bce_modify_def cache_view_in [OF inv] dest: uniq uniq2)
  next
    fix k
    assume "k \<notin> sec_no ` set (buffer_cache_list s')"
    then have "k \<notin> sec_no ` set (buffer_cache_list s)"
      using arg_cong [OF keys(2), of set] by simp
    then show "sectors (filesys_disk s') k
        = ((cache_view s)(sec_no b := overwrite (cache_view s (sec_no b)) offset bs)) k"
      using b by (auto simp: s' cache_view_out)
  qed
  ultimately show ?thesis by (simp add: s' cache_frame_def)
qed

lemma buffer_cache_write_spec:
  assumes inv: "cache_inv s" and wr: "buffer_cache_write s sec bs offset = Inr s'"
  shows "cache_inv s' \<and> cache_frame s s' \<and> offset + length bs \<le> DISK_SECTOR_SIZE
    \<and> cache_view s' = (cache_view s)(sec := overwrite (cache_view s sec) offset bs)"
proof -
  from wr obtain s1 p b where chk: "buffer_cache_check s sec True = Inr (s1, Some p)"
    and d: "deref s1 p = Some b" and fit: "offset + length bs \<le> DISK_SECTOR_SIZE"
    and s': "s' = s1\<lparr>buffer_cache_list := bce_modify p
        (\<lambda>b. b\<lparr>buffer := overwrite (buffer b) offset bs, dirty := True\<rparr>) (buffer_cache_list s1)\<rparr>"
    by (auto simp: buffer_cache_write_def split: option.splits)
  note 1 = buffer_cache_check_spec [OF inv chk]
  then have b: "b \<in> set (buffer_cache_list s1)" "bce_addr b = p"
    using d deref_iff [of s1 p b] by auto
  with 1 have "sec_no b = sec"
    by (auto simp: cache_inv_def distinct_map dest: inj_onD)
  with cache_write_entry [of s1 b offset bs s'] 1 b fit s' show ?thesis
    by (auto intro: cache_frame_trans)
qed

lemma buffer_cache_write_total:
  assumes inv: "cache_inv s" and mem: "\<forall>n. mallocs s n"
    and rng: "Suc sec < capacity (filesys_disk s)" "capacity (filesys_disk s) \<le> 2 ^ 28"
    and fit: "offset + length bs \<le> DISK_SECTOR_SIZE"
  shows "\<exists>s'. buffer_cache_write s sec bs offset = Inr s'"
proof -
  obtain s1 p where chk: "buffer_cache_check s sec True = Inr (s1, Some p)"
    using buffer_cache_check_total [OF inv mem, of sec True] rng by auto
  with buffer_cache_check_spec [OF inv chk] obtain b where
    b: "cache_inv s1" "b \<in> set (buffer_cache_list s1)" "bce_addr b = p" by auto
  then have "deref s1 p = Some b" "readers b = 0" by (auto simp: deref_iff cache_inv_def bce_ok_def)
  with chk fit show ?thesis by (simp add: buffer_cache_write_def)
qed

lemma buffer_cache_read_spec:
  assumes inv: "cache_inv s" and rd: "buffer_cache_read s sec w = Inr (s', r)"
  shows "cache_inv s' \<and> cache_frame s s' \<and> cache_view s' = cache_view s
    \<and> (\<forall>d. r = Some d \<longrightarrow> d = cache_view s sec)"
proof -
  from rd obtain s1 p where chk: "buffer_cache_check s sec w = Inr (s1, p)"
    and k: "(case p of None \<Rightarrow> Inr (s1, None) | Some p \<Rightarrow>
        (case deref s1 p of None \<Rightarrow> Inl PageFault | Some b \<Rightarrow> Inr (s1, Some (buffer b)))) = Inr (s', r)"
    by (auto simp: buffer_cache_read_def)
  from k have s': "s' = s1"
    and r: "r = None \<and> p = None \<or> (\<exists>q b. p = Some q \<and> deref s1 q = Some b \<and> r = Some (buffer b))"
    by (auto split: option.splits)
  note 1 = buffer_cache_check_spec [OF inv chk]
  have "d = cache_view s sec" if "r = Some d" for d
  proof -
    from that r obtain q b where q: "p = Some q" "deref s1 q = Some b" "d = buffer b" by auto
    then have b: "b \<in> set (buffer_cache_list s1)" "bce_addr b = q"
      using 1 deref_iff [of s1 q b] by auto
    with 1 q have "sec_no b = sec" by (auto simp: cache_inv_def distinct_map dest: inj_onD)
    with 1 b q show ?thesis using cache_view_in [of s1 b] by simp
  qed
  with 1 s' show ?thesis by blast
qed

lemma buffer_cache_read_total:
  assumes inv: "cache_inv s" and mem: "\<forall>n. mallocs s n"
    and rng: "sec + (if w then 1 else 0) < capacity (filesys_disk s)" "capacity (filesys_disk s) \<le> 2 ^ 28"
  shows "\<exists>s'. buffer_cache_read s sec w = Inr (s', Some (cache_view s sec))"
proof -
  obtain s1 p where chk: "buffer_cache_check s sec w = Inr (s1, Some p)"
    using buffer_cache_check_total [OF inv mem, of sec w] rng by auto
  with buffer_cache_check_spec [OF inv chk] obtain b where
    b: "cache_inv s1" "b \<in> set (buffer_cache_list s1)" "bce_addr b = p" by auto
  then have "buffer_cache_read s sec w = Inr (s1, Some (buffer b))"
    using chk deref_iff [of s1 p b] by (simp add: buffer_cache_read_def)
  with buffer_cache_read_spec [OF inv this] show ?thesis by auto
qed

section \<open>Write-back\<close>

lemma write_dirties_loop_spec:
  assumes "distinct (map sec_no l)" and "\<forall>b\<in>set l. bce_ok d n b"
  shows "\<exists>d'. write_dirties_loop d l = Inr (d', map (\<lambda>b. b\<lparr>dirty := False\<rparr>) l)
    \<and> capacity d' = capacity d
    \<and> (\<forall>b\<in>set l. sectors d' (sec_no b) = buffer b)
    \<and> (\<forall>k. k \<notin> sec_no ` set l \<longrightarrow> sectors d' k = sectors d k)"
  using assms
proof (induction l arbitrary: d)
  case Nil
  then show ?case by simp
next
  case (Cons b bs)
  define d1 where "d1 = (if dirty b then d\<lparr>sectors := (sectors d)(sec_no b := buffer b),
      write_cnt := write_cnt d + 1\<rparr> else d)"
  have d1: "capacity d1 = capacity d" "sectors d1 = (sectors d)(sec_no b := buffer b)"
    using Cons.prems(2) by (auto simp: d1_def bce_ok_def)
  have "bce_ok d1 n c" if "c \<in> set bs" for c
  proof -
    have "sec_no c \<noteq> sec_no b" using that Cons.prems(1) by (auto simp: image_iff)
    with that Cons.prems(2) show ?thesis by (intro bce_ok_mono [of d n c n d1]) (auto simp: d1)
  qed
  with Cons.IH [of d1] Cons.prems obtain d' where
    IH: "write_dirties_loop d1 bs = Inr (d', map (\<lambda>b. b\<lparr>dirty := False\<rparr>) bs)"
      "capacity d' = capacity d1" "\<forall>b\<in>set bs. sectors d' (sec_no b) = buffer b"
      "\<forall>k. k \<notin> sec_no ` set bs \<longrightarrow> sectors d' k = sectors d1 k" by auto
  have "\<not> dirty b \<Longrightarrow> b\<lparr>dirty := False\<rparr> = b" by simp
  then have "write_dirties_loop d (b # bs) = Inr (d', map (\<lambda>b. b\<lparr>dirty := False\<rparr>) (b # bs))"
    using Cons.prems(2) IH(1) by (auto simp: d1_def bce_ok_def disk_write_spec)
  moreover have "sec_no b \<notin> sec_no ` set bs" using Cons.prems(1) by simp
  ultimately show ?case using IH d1 by (intro exI [of _ d']) auto
qed

text \<open>
  Flushing: write-back succeeds from every reachable cache, changes nothing a reader can see, and
  leaves every entry clean and the disk itself equal to the view, for every sector.
\<close>

theorem buffer_cache_write_dirties_once_flushes:
  assumes "cache_inv s"
  shows "\<exists>s'. buffer_cache_write_dirties_once s = Inr s' \<and> cache_inv s' \<and> cache_frame s s'
    \<and> cache_view s' = cache_view s \<and> sectors (filesys_disk s') = cache_view s
    \<and> (\<forall>b\<in>set (buffer_cache_list s'). \<not> dirty b)"
proof -
  let ?l = "buffer_cache_list s" and ?c = "\<lambda>b. b\<lparr>dirty := False\<rparr>"
  from write_dirties_loop_spec [of ?l "filesys_disk s" "malloc_cnt s"] assms obtain d' where
    d': "write_dirties_loop (filesys_disk s) ?l = Inr (d', map ?c ?l)"
      "capacity d' = capacity (filesys_disk s)"
      "\<forall>b\<in>set ?l. sectors d' (sec_no b) = buffer b"
      "\<forall>k. k \<notin> sec_no ` set ?l \<longrightarrow> sectors d' k = sectors (filesys_disk s) k"
    by (auto simp: cache_inv_def)
  define s' where "s' = s\<lparr>filesys_disk := d', buffer_cache_list := map ?c ?l\<rparr>"
  have disk: "sectors d' k = cache_view s k" for k
    using d'(3,4) by (cases "k \<in> sec_no ` set ?l") (auto simp: cache_view_in [OF assms] cache_view_out)
  have inv': "cache_inv s'"
    using assms d' length_cache_view [OF assms] disk
    by (auto simp: cache_inv_def s'_def bce_ok_def comp_def)
  moreover have "cache_view s' = cache_view s"
    by (rule cache_view_eqI [OF inv']) (auto simp: s'_def disk cache_view_in [OF assms])
  ultimately show ?thesis
    using d' disk
    by (intro exI [of _ s']) (auto simp: buffer_cache_write_dirties_once_def s'_def cache_frame_def)
qed

theorem buffer_cache_write_dirties_once_flushes_witness:
  "\<exists>s'. buffer_cache_write_dirties_once
       \<lparr>filesys_disk = \<lparr>capacity = 4, sectors = (\<lambda>_. zero_sector), read_cnt = 0, write_cnt = 0\<rparr>,
        buffer_cache_list = [\<lparr>bce_addr = 1, buffer = replicate 512 7, accessed = True, dirty = True,
          readers = 0, sec_no = 3\<rparr>], mallocs = (\<lambda>_. True), malloc_cnt = 1\<rparr> = Inr s'
     \<and> sectors (filesys_disk s') 3 = replicate 512 7 \<and> sectors (filesys_disk s') 2 = zero_sector"
  (is "\<exists>s'. buffer_cache_write_dirties_once ?s = _ \<and> _ \<and> _")
proof -
  have "cache_inv ?s"
    by (simp add: cache_inv_def bce_ok_def zero_sector_def DISK_SECTOR_SIZE_def BUFFER_CACHE_SIZE_def)
  from buffer_cache_write_dirties_once_flushes [OF this] show ?thesis
    by (auto simp: cache_view_def)
qed

section \<open>The block store interface\<close>

text \<open>
  What the layers above rely on: reads return the view, writes overwrite part of one sector
  of it, and nothing else changes. A run of operations then behaves as on a plain array of
  sectors, which is proved once for every block store.
\<close>

datatype block_op = BRead nat | BWrite nat "byte list" nat

fun block_run :: "('s \<Rightarrow> nat \<Rightarrow> ('s \<times> byte list option) res) \<Rightarrow> ('s \<Rightarrow> nat \<Rightarrow> byte list \<Rightarrow> nat \<Rightarrow> 's res)
    \<Rightarrow> 's \<Rightarrow> block_op list \<Rightarrow> ('s \<times> byte list option list) res" where
  "block_run rd wr s [] = Inr (s, [])"
| "block_run rd wr s (BRead sec # ops) =
     rbind (rd s sec) (\<lambda>(s1, d). rbind (block_run rd wr s1 ops) (\<lambda>(s2, ds). Inr (s2, d # ds)))"
| "block_run rd wr s (BWrite sec bs off # ops) =
     rbind (wr s sec bs off) (\<lambda>s1. block_run rd wr s1 ops)"

text \<open>The same operations on an array of sectors.\<close>

fun flat_run :: "(nat \<Rightarrow> byte list) \<Rightarrow> block_op list \<Rightarrow> (nat \<Rightarrow> byte list) \<times> byte list list" where
  "flat_run v [] = (v, [])"
| "flat_run v (BRead sec # ops) = (let (v', ds) = flat_run v ops in (v', v sec # ds))"
| "flat_run v (BWrite sec bs off # ops) = flat_run (v(sec := overwrite (v sec) off bs)) ops"

fun block_op_ok :: "(nat \<Rightarrow> bool) \<Rightarrow> block_op \<Rightarrow> bool" where
  "block_op_ok r (BRead sec) = r sec"
| "block_op_ok r (BWrite sec bs off) = (r sec \<and> off + length bs \<le> DISK_SECTOR_SIZE)"

locale block_store =
  fixes inv :: "'s \<Rightarrow> bool" and view :: "'s \<Rightarrow> nat \<Rightarrow> byte list" and ready :: "'s \<Rightarrow> nat \<Rightarrow> bool"
    and rd :: "'s \<Rightarrow> nat \<Rightarrow> ('s \<times> byte list option) res"
    and wr :: "'s \<Rightarrow> nat \<Rightarrow> byte list \<Rightarrow> nat \<Rightarrow> 's res"
  assumes rd_ok: "inv s \<Longrightarrow> ready s sec \<Longrightarrow> \<exists>s'. rd s sec = Inr (s', Some (view s sec))"
    and rd_keeps: "inv s \<Longrightarrow> rd s sec = Inr (s', d) \<Longrightarrow> inv s' \<and> view s' = view s \<and> ready s' = ready s"
    and wr_ok: "inv s \<Longrightarrow> ready s sec \<Longrightarrow> off + length bs \<le> DISK_SECTOR_SIZE \<Longrightarrow>
        \<exists>s'. wr s sec bs off = Inr s'"
    and wr_effect: "inv s \<Longrightarrow> wr s sec bs off = Inr s' \<Longrightarrow>
        inv s' \<and> view s' = (view s)(sec := overwrite (view s sec) off bs) \<and> ready s' = ready s"
begin

lemma rd_after_wr:
  assumes "inv s" "ready s sec" "ready s sec'" "off + length bs \<le> DISK_SECTOR_SIZE"
  shows "\<exists>s1 s2. wr s sec bs off = Inr s1
    \<and> rd s1 sec' = Inr (s2, Some (if sec' = sec then overwrite (view s sec) off bs else view s sec'))"
proof -
  from wr_ok [OF assms(1,2,4)] obtain s1 where s1: "wr s sec bs off = Inr s1" ..
  from wr_effect [OF assms(1) this] rd_ok [of s1 sec'] assms(3) s1 show ?thesis by auto
qed

lemma run_refines:
  "inv s \<Longrightarrow> \<forall>op\<in>set ops. block_op_ok (ready s) op \<Longrightarrow>
   \<exists>s'. block_run rd wr s ops = Inr (s', map Some (snd (flat_run (view s) ops)))
      \<and> inv s' \<and> view s' = fst (flat_run (view s) ops) \<and> ready s' = ready s"
proof (induction ops arbitrary: s)
  case Nil
  then show ?case by simp
next
  case (Cons op ops)
  show ?case
  proof (cases op)
    case (BRead sec)
    note 2 = Cons BRead
    from rd_ok [of s sec] 2 obtain s1 where s1: "rd s sec = Inr (s1, Some (view s sec))" by auto
    with rd_keeps [of s sec] 2 have k: "inv s1" "view s1 = view s" "ready s1 = ready s" by auto
    with 2 s1 obtain s2 where "block_run rd wr s1 ops = Inr (s2, map Some (snd (flat_run (view s) ops)))"
        "inv s2" "view s2 = fst (flat_run (view s) ops)" "ready s2 = ready s"
      by fastforce
    with s1 BRead show ?thesis by (auto simp: split_beta)
  next
    case (BWrite sec bs off)
    note 3 = Cons BWrite
    from wr_ok [of s sec off bs] 3 obtain s1 where s1: "wr s sec bs off = Inr s1" by auto
    with wr_effect [of s sec bs off s1] 3 have k: "inv s1" "ready s1 = ready s"
      "view s1 = (view s)(sec := overwrite (view s sec) off bs)" by auto
    with 3 s1 show ?thesis by fastforce
  qed
qed

end

definition cache_ready :: "'a cache_scheme \<Rightarrow> nat \<Rightarrow> bool" where
  "cache_ready s sec \<longleftrightarrow> (\<forall>n. mallocs s n) \<and> Suc sec < capacity (filesys_disk s)
     \<and> capacity (filesys_disk s) \<le> 2 ^ 28"

interpretation bc: block_store cache_inv cache_view cache_ready
    "\<lambda>s sec. buffer_cache_read s sec True" buffer_cache_write
proof
  fix s :: "'a cache_scheme" and s' sec d bs off
  show "\<exists>s'. buffer_cache_read s sec True = Inr (s', Some (cache_view s sec))"
    if "cache_inv s" "cache_ready s sec"
    using buffer_cache_read_total [of s sec True] that by (auto simp: cache_ready_def)
  show "cache_inv s' \<and> cache_view s' = cache_view s \<and> cache_ready s' = cache_ready s"
    if "cache_inv s" "buffer_cache_read s sec True = Inr (s', d)"
    using buffer_cache_read_spec [OF that] by (auto simp: cache_ready_def cache_frame_def fun_eq_iff)
  show "\<exists>s'. buffer_cache_write s sec bs off = Inr s'"
    if "cache_inv s" "cache_ready s sec" "off + length bs \<le> DISK_SECTOR_SIZE"
    using buffer_cache_write_total [of s sec off bs] that by (auto simp: cache_ready_def)
  show "cache_inv s' \<and> cache_view s' = (cache_view s)(sec := overwrite (cache_view s sec) off bs)
      \<and> cache_ready s' = cache_ready s"
    if "cache_inv s" "buffer_cache_write s sec bs off = Inr s'"
    using buffer_cache_write_spec [OF that] by (auto simp: cache_ready_def cache_frame_def fun_eq_iff)
qed

text \<open>
  C26: the buffer cache is transparent. Every sequence of reads and partial-sector writes
  of sectors before the last one of the disk, with memory for new entries, succeeds through the cache and returns what the
  same sequence returns on a plain array of sectors, whatever is evicted, read ahead and
  written back on the way, and the cache represents the resulting array. A miss on the last sector is not covered: its
  read-ahead fails an assertion.
\<close>

theorem buffer_cache_refines_flat:
  assumes "cache_inv s" and "\<forall>op\<in>set ops. block_op_ok (cache_ready s) op"
  shows "\<exists>s'. block_run (\<lambda>s sec. buffer_cache_read s sec True) buffer_cache_write s ops
        = Inr (s', map Some (snd (flat_run (cache_view s) ops)))
      \<and> cache_inv s' \<and> cache_view s' = fst (flat_run (cache_view s) ops)"
  using bc.run_refines [OF assms] by blast

theorem buffer_cache_refines_flat_witness:
  "\<exists>s'. block_run (\<lambda>s sec. buffer_cache_read s sec True) buffer_cache_write
       \<lparr>filesys_disk = \<lparr>capacity = 100, sectors = (\<lambda>_. zero_sector), read_cnt = 0, write_cnt = 0\<rparr>,
        buffer_cache_list = [], mallocs = (\<lambda>_. True), malloc_cnt = 0\<rparr>
       [BWrite 5 [1, 2] 510, BRead 5] = Inr (s', [Some (replicate 510 0 @ [1, 2])])"
  (is "\<exists>s'. block_run _ _ ?s ?ops = _")
proof -
  have "cache_inv ?s" "\<forall>op\<in>set ?ops. block_op_ok (cache_ready ?s) op"
    by (simp_all add: cache_inv_def zero_sector_def DISK_SECTOR_SIZE_def cache_ready_def)
  from buffer_cache_refines_flat [OF this] show ?thesis
    by (simp add: cache_view_def zero_sector_def DISK_SECTOR_SIZE_def overwrite_def) blast
qed

end
