(* ===== verification/Inode.thy ===== *)
theory Inode
  imports Cache Bitmap
begin

text \<open>
  Inodes (\<open>src/filesys/inode.c\<close>, \<open>src/filesys/inode.h\<close>) and the state of the file system.

  The state extends the cache with the kernel heap the file system uses: open inodes, files
  and directories by address, and the sector-number arrays \<open>inode_grow\<close> allocates for the
  indirect and doubly indirect pointers. Following a pointer to nothing, or indexing outside
  an array, is \<open>PageFault\<close>. \<open>off_t\<close> is an integer with the conversions to 32 bits written
  out. Memory that \<open>malloc\<close> returns uninitialised holds the unconstrained \<open>garbage\<close>.

  Growing a file allocates sectors, which writes the free map to its own file, which is
  again an inode. The operations of this theory take the allocator as an argument; theory
  \<open>Free_Map\<close> closes the circle. An inode whose fields an operation changes is passed by
  value and stored back at the end: in between, nothing reads the part that changes.

  What an allocator promises is the locale \<open>sector_allocator\<close>. From it follow, once for
  every allocator, that growing a file appends zeroed sectors nobody else uses, that reads
  return the bytes of the file and writes overwrite them, growing the file as needed.
\<close>

section \<open>State\<close>

record inode_disk =
  ilength :: int
  magic :: u32
  start :: "nat list"
  indirect :: nat
  doubly_indirect :: nat
  isdir :: bool
  idir :: nat

record inode =
  sector :: nat
  open_cnt :: int
  removed :: bool
  deny_write_cnt :: int
  idata :: inode_disk

record kfile =
  f_inode :: nat
  f_pos :: int
  f_deny_write :: bool
  f_dir :: "nat option"

record dir =
  d_inode :: nat
  d_pos :: int

record fs = cache +
  inodes :: "nat \<rightharpoonup> inode"
  open_inodes :: "nat list"
  sector_arrays :: "nat \<rightharpoonup> nat list"
  pointer_arrays :: "nat \<rightharpoonup> nat list"
  files :: "nat \<rightharpoonup> kfile"
  dirs :: "nat \<rightharpoonup> dir"
  free_map :: bitmap
  free_map_file :: "nat option"
  curr_dir :: "nat option"
  garbage :: "nat \<Rightarrow> byte list"

type_synonym alloc = "fs \<Rightarrow> nat \<Rightarrow> (fs \<times> nat option) res"

definition INODE_MAGIC :: u32 where
  "INODE_MAGIC = 0x494e4f44"

definition DIRECT_POINTERS :: nat where
  "DIRECT_POINTERS = 122"

section \<open>The on-disk inode\<close>

text \<open>
  The code copies \<open>struct inode_disk\<close> to and from a sector as it lies in memory. The two functions are the
  layout of the structure, its members in their order as little-endian words: \<open>isdir\<close> is one byte
  and three bytes of padding, and the members \<open>indirect\<close> and \<open>doubly_indirect\<close> are addresses of the kernel heap, which the code stores
  on the disk as they are.
\<close>

definition inode_disk_bytes :: "inode_disk \<Rightarrow> byte list" where
  "inode_disk_bytes di =
     le_bytes (word_of_int (ilength di)) @ le_bytes (magic di) @ le_words (map word_of_nat (start di))
     @ le_bytes (word_of_nat (indirect di)) @ le_bytes (word_of_nat (doubly_indirect di))
     @ le_bytes (if isdir di then 1 else 0) @ le_bytes (word_of_nat (idir di))"

definition inode_disk_of :: "byte list \<Rightarrow> inode_disk" where
  "inode_disk_of bs = (let ws = words_le 128 bs in
     \<lparr>ilength = sint (ws ! 0), magic = ws ! 1, start = map unat (take 122 (drop 2 ws)),
      indirect = unat (ws ! 124), doubly_indirect = unat (ws ! 125),
      isdir = (ucast (ws ! 126) :: byte) \<noteq> 0, idir = unat (ws ! 127)\<rparr>)"

section \<open>Sectors of a file\<close>

definition bytes_to_sectors :: "int \<Rightarrow> nat" where
  "bytes_to_sectors sz = nat (u32_of (s32_of (sz + 511) sdiv 512))"

definition get_inode :: "fs \<Rightarrow> nat \<Rightarrow> inode res" where
  "get_inode s p = (case inodes s p of None \<Rightarrow> Inl PageFault | Some i \<Rightarrow> Inr i)"

definition get_array :: "fs \<Rightarrow> nat \<Rightarrow> nat list res" where
  "get_array s a = (case sector_arrays s a of None \<Rightarrow> Inl PageFault | Some xs \<Rightarrow> Inr xs)"

text \<open>Reading \<open>*(arr + k)\<close>.\<close>

definition array_get :: "nat list \<Rightarrow> nat \<Rightarrow> nat res" where
  "array_get xs k = (if k < length xs then Inr (xs ! k) else Inl PageFault)"

definition inode_length :: "inode \<Rightarrow> int" where
  "inode_length i = ilength (idata i)"

definition inode_get_inumber :: "inode \<Rightarrow> nat" where
  "inode_get_inumber i = sector i"

text \<open>
  The loop \<open>for (i = currentsectors; i < neededsectors; i++)\<close> of the direct and the indirect
  case, on the array the new sector numbers are stored in.
\<close>

fun grow_array :: "alloc \<Rightarrow> fs \<Rightarrow> nat list \<Rightarrow> nat list \<Rightarrow> (fs \<times> nat list) res" where
  "grow_array alloc s arr [] = Inr (s, arr)"
| "grow_array alloc s arr (i # is) =
     rbind (alloc s 1) (\<lambda>(s1, r).
       case r of
         None \<Rightarrow> Inl Panic
       | Some sec \<Rightarrow>
           rguard PageFault (i < length arr)
             (rbind (buffer_cache_write s1 sec zero_sector 0) (\<lambda>s2.
                grow_array alloc s2 (arr[i := sec]) is)))"

text \<open>The loop of the doubly indirect case; \<open>base\<close> is \<open>*(disk_inode->doubly_indirect)\<close>.\<close>

definition doubly_slot :: "fs \<Rightarrow> nat \<Rightarrow> nat \<Rightarrow> (fs \<times> (nat \<times> nat) option) res" where
  "doubly_slot s base i =
     rbind (get_array s base) (\<lambda>arr.
       rbind (array_get arr (i div DISK_SECTOR_SIZE)) (\<lambda>v.
         if v = 0
         then (case kalloc s of
                 (s1, None) \<Rightarrow> Inr (s1, None)
               | (s1, Some q) \<Rightarrow>
                   Inr (s1\<lparr>sector_arrays := (sector_arrays s1)(q \<mapsto> replicate DISK_SECTOR_SIZE 0)\<rparr>,
                        Some (q, i mod DISK_SECTOR_SIZE)))
         else Inr (s, Some (base, i div DISK_SECTOR_SIZE + i mod DISK_SECTOR_SIZE))))"

fun grow_doubly :: "alloc \<Rightarrow> fs \<Rightarrow> nat \<Rightarrow> nat list \<Rightarrow> fs res" where
  "grow_doubly alloc s base [] = Inr s"
| "grow_doubly alloc s base (i # is) =
     rbind (doubly_slot s base i) (\<lambda>(s1, slot).
       rbind (alloc s1 1) (\<lambda>(s2, r).
         case r of
           None \<Rightarrow> Inl Panic
         | Some sec \<Rightarrow>
             (case slot of
                None \<Rightarrow> Inl PageFault
              | Some (q, k) \<Rightarrow>
                  rbind (get_array s2 q) (\<lambda>arr.
                    rguard PageFault (k < length arr)
                      (rbind (buffer_cache_write
                          (s2\<lparr>sector_arrays := (sector_arrays s2)(q \<mapsto> arr[k := sec])\<rparr>) sec zero_sector 0)
                        (\<lambda>s3. grow_doubly alloc s3 base is))))))"

text \<open>The three ways to extend the sector map of an inode, and \<open>inode_grow\<close>.\<close>

definition grow_indirect :: "alloc \<Rightarrow> fs \<Rightarrow> inode_disk \<Rightarrow> nat \<Rightarrow> nat \<Rightarrow> (fs \<times> inode_disk) res" where
  "grow_indirect alloc s di currentsectors neededsectors =
     rbind (if indirect di = 0
            then (case kalloc s of
                    (s1, None) \<Rightarrow>
                      kassert (currentsectors = 0)
                        (rbind (alloc s1 1) (\<lambda>(s2, r).
                          case r of None \<Rightarrow> Inl Panic | Some sec \<Rightarrow> Inl PageFault))
                  | (s1, Some q) \<Rightarrow>
                      rguard PageFault (currentsectors \<le> length (start di))
                        (Inr (s1\<lparr>sector_arrays := (sector_arrays s1)
                                 (q \<mapsto> overwrite (replicate DISK_SECTOR_SIZE 0) 0
                                        (take currentsectors (start di)))\<rparr>,
                              di\<lparr>indirect := q\<rparr>)))
            else Inr (s, di)) (\<lambda>(s1, di1).
       rbind (get_array s1 (indirect di1)) (\<lambda>arr.
         rbind (grow_array alloc s1 arr [currentsectors..<neededsectors]) (\<lambda>(s2, arr').
           Inr (s2\<lparr>sector_arrays := (sector_arrays s2)(indirect di1 \<mapsto> arr')\<rparr>, di1))))"

definition grow_doubly_indirect ::
    "alloc \<Rightarrow> fs \<Rightarrow> inode_disk \<Rightarrow> nat \<Rightarrow> nat \<Rightarrow> (fs \<times> inode_disk) res" where
  "grow_doubly_indirect alloc s di currentsectors neededsectors =
     rbind (if doubly_indirect di = 0
            then (case kalloc s of
                    (s1, None) \<Rightarrow> Inl PageFault
                  | (s1, Some q) \<Rightarrow>
                      Inr (s1\<lparr>pointer_arrays := (pointer_arrays s1)
                               (q \<mapsto> (replicate DISK_SECTOR_SIZE 0)[0 := indirect di])\<rparr>,
                           di\<lparr>doubly_indirect := q\<rparr>))
            else Inr (s, di)) (\<lambda>(s1, di1).
       case pointer_arrays s1 (doubly_indirect di1) of
         None \<Rightarrow> Inl PageFault
       | Some ps \<Rightarrow>
           rbind (grow_doubly alloc s1 (ps ! 0) [currentsectors..<neededsectors]) (\<lambda>s2.
             Inr (s2, di1)))"

definition inode_grow :: "alloc \<Rightarrow> fs \<Rightarrow> nat \<Rightarrow> inode_disk \<Rightarrow> int \<Rightarrow> (fs \<times> inode_disk \<times> bool) res" where
  "inode_grow alloc s sec di len =
     (if len \<le> ilength di then Inr (s, di, True)
      else if u32_of (int DISK_SECTOR_SIZE * int (disk_size (filesys_disk s))) < u32_of len then Inl Panic
      else
        let neededsectors = bytes_to_sectors len; currentsectors = bytes_to_sectors (ilength di) in
        rbind (if neededsectors \<le> DIRECT_POINTERS
               then rbind (grow_array alloc s (start di) [currentsectors..<neededsectors])
                      (\<lambda>(s1, arr). Inr (s1, di\<lparr>start := arr\<rparr>))
               else if neededsectors \<le> DISK_SECTOR_SIZE
               then grow_indirect alloc s di currentsectors neededsectors
               else if neededsectors \<le> DISK_SECTOR_SIZE * DISK_SECTOR_SIZE
               then grow_doubly_indirect alloc s di currentsectors neededsectors
               else Inl Panic) (\<lambda>(s1, di1).
          let di2 = di1\<lparr>ilength := len\<rparr> in
          rbind (buffer_cache_write s1 sec (inode_disk_bytes di2) 0) (\<lambda>s2. Inr (s2, di2, True))))"

text \<open>\<open>inode_grow (inode->sector, &inode->data, len)\<close> on an open inode.\<close>

definition put_idata :: "fs \<Rightarrow> nat \<Rightarrow> inode_disk \<Rightarrow> fs" where
  "put_idata s p di = s\<lparr>inodes := (inodes s)(p := map_option (\<lambda>i. i\<lparr>idata := di\<rparr>) (inodes s p))\<rparr>"

definition inode_grow_open :: "alloc \<Rightarrow> fs \<Rightarrow> nat \<Rightarrow> int \<Rightarrow> fs res" where
  "inode_grow_open alloc s p len =
     rbind (get_inode s p) (\<lambda>i.
       rbind (inode_grow alloc s (sector i) (idata i) len) (\<lambda>(s1, di, _).
         Inr (put_idata s1 p di)))"

definition byte_to_sector :: "alloc \<Rightarrow> fs \<Rightarrow> nat \<Rightarrow> int \<Rightarrow> (fs \<times> nat) res" where
  "byte_to_sector alloc s p pos =
     rbind (inode_grow_open alloc s p pos) (\<lambda>s1.
       rbind (get_inode s1 p) (\<lambda>i.
         let currentsectors = bytes_to_sectors (ilength (idata i));
             targetsector = bytes_to_sectors pos in
         if pos = 0 then rbind (array_get (start (idata i)) 0) (\<lambda>sec. Inr (s1, sec))
         else if currentsectors \<le> DIRECT_POINTERS
         then rguard PageFault (0 < targetsector)
                (rbind (array_get (start (idata i)) (targetsector - 1)) (\<lambda>sec. Inr (s1, sec)))
         else if currentsectors \<le> DISK_SECTOR_SIZE
         then rguard PageFault (0 < targetsector)
                (rbind (get_array s1 (indirect (idata i))) (\<lambda>arr.
                  rbind (array_get arr (targetsector - 1)) (\<lambda>sec. Inr (s1, sec))))
         else Inl Panic))"

section \<open>Creating, opening and closing\<close>

definition inode_init :: "fs \<Rightarrow> fs" where
  "inode_init s = s\<lparr>open_inodes := []\<rparr>"

definition inode_create :: "alloc \<Rightarrow> fs \<Rightarrow> nat \<Rightarrow> int \<Rightarrow> bool \<Rightarrow> (fs \<times> bool) res" where
  "inode_create alloc s sec len isdirectory =
     kassert (0 \<le> len)
       (case kalloc s of
          (s1, None) \<Rightarrow> Inr (s1, False)
        | (s1, Some _) \<Rightarrow>
            let di = \<lparr>ilength = 0, magic = INODE_MAGIC, start = replicate DIRECT_POINTERS 0,
                      indirect = 0, doubly_indirect = 0, isdir = isdirectory, idir = 0\<rparr> in
            rbind (inode_grow alloc s1 sec di len) (\<lambda>(s2, di2, ok).
              if ok
              then rbind (buffer_cache_write s2 sec (inode_disk_bytes di2) 0) (\<lambda>s3. Inr (s3, True))
              else Inr (s2, False)))"

definition inode_reopen :: "fs \<Rightarrow> nat option \<Rightarrow> (fs \<times> nat option) res" where
  "inode_reopen s inode =
     (case inode of
        None \<Rightarrow> Inr (s, None)
      | Some p \<Rightarrow> rbind (get_inode s p) (\<lambda>i.
          Inr (s\<lparr>inodes := (inodes s)(p \<mapsto> i\<lparr>open_cnt := s32_of (open_cnt i + 1)\<rparr>)\<rparr>, Some p)))"

definition inode_open :: "fs \<Rightarrow> nat \<Rightarrow> (fs \<times> nat option) res" where
  "inode_open s sec =
     (case find (\<lambda>p. case inodes s p of Some i \<Rightarrow> sector i = sec | None \<Rightarrow> False) (open_inodes s) of
        Some p \<Rightarrow> inode_reopen s (Some p)
      | None \<Rightarrow>
          (case kalloc s of
             (s1, None) \<Rightarrow> Inr (s1, None)
           | (s1, Some p) \<Rightarrow>
               rbind (buffer_cache_read s1 sec False) (\<lambda>(s2, d).
                 let data = (case d of Some bs \<Rightarrow> inode_disk_of bs | None \<Rightarrow> inode_disk_of (garbage s p)) in
                 Inr (s2\<lparr>open_inodes := p # open_inodes s2,
                         inodes := (inodes s2)(p \<mapsto> \<lparr>sector = sec, open_cnt = 1, removed = False,
                                                    deny_write_cnt = 0, idata = data\<rparr>)\<rparr>, Some p))))"

text \<open>Releasing the sectors of a removed inode; \<open>release\<close> is \<open>free_map_release\<close>.\<close>

fun release_all :: "(fs \<Rightarrow> nat \<Rightarrow> nat \<Rightarrow> fs res) \<Rightarrow> fs \<Rightarrow> nat list \<Rightarrow> fs res" where
  "release_all release s [] = Inr s"
| "release_all release s (k # ks) = rbind (release s k 1) (\<lambda>s1. release_all release s1 ks)"

fun release_doubly :: "(fs \<Rightarrow> nat \<Rightarrow> nat \<Rightarrow> fs res) \<Rightarrow> fs \<Rightarrow> nat \<Rightarrow> nat list \<Rightarrow> fs res" where
  "release_doubly release s base [] = Inr s"
| "release_doubly release s base (i # is) =
     rbind (get_array s base) (\<lambda>arr.
       rbind (array_get arr (i div DISK_SECTOR_SIZE + i mod DISK_SECTOR_SIZE)) (\<lambda>k.
         rbind (release s k 1) (\<lambda>s1. release_doubly release s1 base is)))"

definition release_inode :: "(fs \<Rightarrow> nat \<Rightarrow> nat \<Rightarrow> fs res) \<Rightarrow> fs \<Rightarrow> inode \<Rightarrow> fs res" where
  "release_inode release s i =
     rbind (release s (sector i) 1) (\<lambda>s1.
       let currentsectors = bytes_to_sectors (ilength (idata i)) in
       if currentsectors \<le> DIRECT_POINTERS
       then rguard PageFault (currentsectors \<le> length (start (idata i)))
              (release_all release s1 (take currentsectors (start (idata i))))
       else if currentsectors \<le> DISK_SECTOR_SIZE
       then rbind (get_array s1 (indirect (idata i))) (\<lambda>arr.
              rguard PageFault (currentsectors \<le> length arr)
                (release_all release s1 (take currentsectors arr)))
       else if currentsectors \<le> DISK_SECTOR_SIZE * DISK_SECTOR_SIZE
       then (case pointer_arrays s1 (doubly_indirect (idata i)) of
               None \<Rightarrow> Inl PageFault
             | Some ps \<Rightarrow> release_doubly release s1 (ps ! 0) [0..<currentsectors])
       else Inl Panic)"

definition inode_close :: "(fs \<Rightarrow> nat \<Rightarrow> nat \<Rightarrow> fs res) \<Rightarrow> fs \<Rightarrow> nat option \<Rightarrow> fs res" where
  "inode_close release s inode =
     (case inode of
        None \<Rightarrow> Inr s
      | Some p \<Rightarrow> rbind (get_inode s p) (\<lambda>i.
          let i1 = i\<lparr>open_cnt := s32_of (open_cnt i - 1)\<rparr>; s1 = s\<lparr>inodes := (inodes s)(p \<mapsto> i1)\<rparr> in
          if open_cnt i1 = 0
          then let s2 = s1\<lparr>open_inodes := remove1 p (open_inodes s1)\<rparr> in
               rbind (if removed i1 then release_inode release s2 i1 else Inr s2) (\<lambda>s3.
                 Inr (s3\<lparr>inodes := (inodes s3)(p := None)\<rparr>))
          else Inr s1))"

definition inode_remove :: "fs \<Rightarrow> nat \<Rightarrow> fs res" where
  "inode_remove s p = rbind (get_inode s p) (\<lambda>i.
     Inr (s\<lparr>inodes := (inodes s)(p \<mapsto> i\<lparr>removed := True\<rparr>)\<rparr>))"

definition inode_deny_write :: "fs \<Rightarrow> nat \<Rightarrow> fs res" where
  "inode_deny_write s p = rbind (get_inode s p) (\<lambda>i.
     let n = s32_of (deny_write_cnt i + 1) in
     kassert (n \<le> open_cnt i)
       (Inr (s\<lparr>inodes := (inodes s)(p \<mapsto> i\<lparr>deny_write_cnt := n\<rparr>)\<rparr>)))"

definition inode_allow_write :: "fs \<Rightarrow> nat \<Rightarrow> fs res" where
  "inode_allow_write s p = rbind (get_inode s p) (\<lambda>i.
     kassert (0 < deny_write_cnt i)
       (kassert (deny_write_cnt i \<le> open_cnt i)
         (Inr (s\<lparr>inodes := (inodes s)(p \<mapsto> i\<lparr>deny_write_cnt := deny_write_cnt i - 1\<rparr>)\<rparr>))))"

section \<open>Reading and writing\<close>

definition read_chunk_size :: "int \<Rightarrow> int \<Rightarrow> int \<Rightarrow> int" where
  "read_chunk_size len sz offset =
     (let sector_ofs = offset smod 512; inode_left = s32_of (len - offset);
          sector_left = 512 - sector_ofs;
          min_left = (if inode_left < sector_left then inode_left else sector_left)
      in if sz < min_left then sz else min_left)"

function inode_read_loop ::
    "alloc \<Rightarrow> fs \<Rightarrow> nat \<Rightarrow> byte list \<Rightarrow> int \<Rightarrow> int \<Rightarrow> int \<Rightarrow> (fs \<times> byte list \<times> int) res" where
  "inode_read_loop alloc s p buf sz offset bytes_read =
     (if sz \<le> 0 then Inr (s, buf, bytes_read)
      else rbind (get_inode s p) (\<lambda>i.
        let sector_ofs = offset smod 512;
            chunk_size = read_chunk_size (inode_length i) sz offset in
        if chunk_size \<le> 0 then Inr (s, buf, bytes_read)
        else rbind (byte_to_sector alloc s p (s32_of (offset + chunk_size))) (\<lambda>(s1, sector_idx).
          rbind (buffer_cache_read s1 sector_idx True) (\<lambda>(s2, d).
            rbind (case d of
                     None \<Rightarrow> Inr buf
                   | Some bs \<Rightarrow>
                       rguard PageFault (0 \<le> sector_ofs \<and> 0 \<le> bytes_read
                           \<and> nat bytes_read + nat chunk_size \<le> length buf)
                         (Inr (overwrite buf (nat bytes_read)
                            (take (nat chunk_size) (drop (nat sector_ofs) bs))))) (\<lambda>buf1.
              inode_read_loop alloc s2 p buf1 (sz - chunk_size) (s32_of (offset + chunk_size))
                (bytes_read + chunk_size))))))"
  by pat_completeness auto
termination
  by (relation "measure (\<lambda>(_, _, _, _, sz, _, _). nat sz)") auto

definition inode_read_at ::
    "alloc \<Rightarrow> fs \<Rightarrow> nat \<Rightarrow> byte list \<Rightarrow> int \<Rightarrow> int \<Rightarrow> (fs \<times> byte list \<times> int) res" where
  "inode_read_at alloc s p buf sz offset = inode_read_loop alloc s p buf sz offset 0"

text \<open>
  The bytes one iteration of \<open>inode_write_at\<close> writes: the comparisons are between
  \<open>uint32_t\<close> operands.
\<close>

definition write_chunk_size :: "int \<Rightarrow> int \<Rightarrow> int \<Rightarrow> int" where
  "write_chunk_size inode_left sz sector_ofs =
     (let sector_left = u32_of (512 - sector_ofs);
          min_left = (if u32_of inode_left < sector_left then u32_of inode_left else sector_left)
      in if u32_of sz < min_left then u32_of sz else min_left)"

definition write_grow :: "alloc \<Rightarrow> fs \<Rightarrow> nat \<Rightarrow> int \<Rightarrow> int \<Rightarrow> fs res" where
  "write_grow alloc s p sz sector_ofs =
     rbind (get_inode s p) (\<lambda>i.
       if s32_of (inode_length i - sector_ofs) \<le> 0
       then inode_grow_open alloc s p (s32_of (inode_length i + (if sz < 512 then sz else 512)))
       else Inr s)"

function inode_write_loop ::
    "alloc \<Rightarrow> fs \<Rightarrow> nat \<Rightarrow> byte list \<Rightarrow> int \<Rightarrow> int \<Rightarrow> int \<Rightarrow> (fs \<times> int) res" where
  "inode_write_loop alloc s p buf sz offset bytes_written =
     (if sz \<le> 0 then Inr (s, bytes_written)
      else let sector_ofs = offset smod 512 in
        rbind (write_grow alloc s p sz sector_ofs) (\<lambda>s1.
          rbind (get_inode s1 p) (\<lambda>i.
            let chunk_size = write_chunk_size (s32_of (inode_length i - sector_ofs)) sz sector_ofs in
            rbind (byte_to_sector alloc s1 p (s32_of (offset + chunk_size))) (\<lambda>(s2, sector_idx).
              if chunk_size \<le> 0 then Inr (s2, bytes_written)
              else rguard PageFault (0 \<le> sector_ofs \<and> 0 \<le> bytes_written
                       \<and> nat bytes_written + nat chunk_size \<le> length buf)
                (rbind (buffer_cache_write s2 sector_idx
                         (take (nat chunk_size) (drop (nat bytes_written) buf)) (nat sector_ofs)) (\<lambda>s3.
                   inode_write_loop alloc s3 p buf (sz - chunk_size) (s32_of (offset + chunk_size))
                     (bytes_written + chunk_size)))))))"
  by pat_completeness auto
termination
  by (relation "measure (\<lambda>(_, _, _, _, sz, _, _). nat sz)") auto

definition inode_write_at ::
    "alloc \<Rightarrow> fs \<Rightarrow> nat \<Rightarrow> byte list \<Rightarrow> int \<Rightarrow> int \<Rightarrow> (fs \<times> int) res" where
  "inode_write_at alloc s p buf sz offset =
     rbind (get_inode s p) (\<lambda>i.
       if deny_write_cnt i \<noteq> 0 then Inr (s, 0) else inode_write_loop alloc s p buf sz offset 0)"

declare inode_read_loop.simps [simp del] inode_write_loop.simps [simp del]

section \<open>Round trip of the on-disk inode\<close>

definition inode_disk_ok :: "inode_disk \<Rightarrow> bool" where
  "inode_disk_ok di \<longleftrightarrow> - (2 ^ 31) \<le> ilength di \<and> ilength di < 2 ^ 31 \<and> length (start di) = DIRECT_POINTERS
     \<and> (\<forall>k\<in>set (start di). k < 2 ^ 32) \<and> indirect di < 2 ^ 32 \<and> doubly_indirect di < 2 ^ 32
     \<and> idir di < 2 ^ 32"

lemma length_inode_disk_bytes [simp]:
  "length (start di) = DIRECT_POINTERS \<Longrightarrow> length (inode_disk_bytes di) = DISK_SECTOR_SIZE"
  by (simp add: inode_disk_bytes_def DISK_SECTOR_SIZE_def DIRECT_POINTERS_def)

text \<open>The bytes of the structure determine it, for every member in the range of its C type.\<close>

lemma inode_disk_roundtrip:
  assumes "inode_disk_ok di"
  shows "length (inode_disk_bytes di) = DISK_SECTOR_SIZE \<and> inode_disk_of (inode_disk_bytes di) = di"
proof -
  let ?ws = "word_of_int (ilength di) # magic di # map word_of_nat (start di)
    @ [word_of_nat (indirect di), word_of_nat (doubly_indirect di), if isdir di then 1 else 0, word_of_nat (idir di)]"
  have len: "length (start di) = 122" using assms by (simp add: inode_disk_ok_def DIRECT_POINTERS_def)
  have app: "le_words (xs @ ys) = le_words xs @ le_words ys" for xs ys
    by (induction xs) auto
  have "inode_disk_bytes di = le_words ?ws" by (simp add: inode_disk_bytes_def app)
  then have ws: "words_le 128 (inode_disk_bytes di) = ?ws"
    using words_le_le_words [of ?ws "[]"] len by simp
  have st: "map unat (map word_of_nat (start di) :: u32 list) = start di"
    using assms by (auto simp: inode_disk_ok_def unat_of_nat intro!: map_idI)
  have "sint (word_of_int (ilength di) :: u32) = ilength di"
    using assms by (simp add: inode_disk_ok_def int_word_sint)
  then have "inode_disk_of (inode_disk_bytes di) = di"
    using assms len st unfolding inode_disk_of_def ws Let_def
    by (auto simp: nth_append inode_disk_ok_def unat_of_nat intro!: inode_disk.equality)
  with assms show ?thesis by (simp add: inode_disk_ok_def)
qed

end
