(* ===== verification/Inode_Spec.thy ===== *)
theory Inode_Spec
  imports Inode
begin

text \<open>
  Correctness of the inode layer. A well-formed inode has a list of data sectors
  (\<open>data_sectors\<close>) and represents the byte string \<open>file_bytes\<close>: the first
  \<open>ilength\<close> bytes of these sectors as the cache shows them, the rest of the last sector
  being zero.

  The first part needs no allocator: a read returns the bytes of the file, and a write
  inside the file overwrites them. The second part is the locale \<open>sector_allocator\<close>, the
  contract between inodes and the free map, and what follows from it about growth.
\<close>

section \<open>Data sectors\<close>

definition data_sectors :: "fs \<Rightarrow> inode_disk \<Rightarrow> nat list" where
  "data_sectors s di = (let n = bytes_to_sectors (ilength di) in
     if n \<le> DIRECT_POINTERS then take n (start di)
     else take n (case sector_arrays s (indirect di) of Some arr \<Rightarrow> arr | None \<Rightarrow> []))"

definition inode_wf :: "fs \<Rightarrow> inode_disk \<Rightarrow> bool" where
  "inode_wf s di \<longleftrightarrow> 0 \<le> ilength di \<and> ilength di \<le> 512 * 512 \<and> length (start di) = DIRECT_POINTERS
     \<and> (if bytes_to_sectors (ilength di) \<le> DIRECT_POINTERS then indirect di = 0
        else \<exists>arr. sector_arrays s (indirect di) = Some arr \<and> length arr = DISK_SECTOR_SIZE)"

definition file_raw :: "fs \<Rightarrow> inode_disk \<Rightarrow> byte list" where
  "file_raw s di = concat (map (cache_view s) (data_sectors s di))"

definition file_bytes :: "fs \<Rightarrow> inode_disk \<Rightarrow> byte list" where
  "file_bytes s di = take (nat (ilength di)) (file_raw s di)"

lemma bytes_to_sectors_eq:
  "0 \<le> x \<Longrightarrow> x \<le> 512 * 512 \<Longrightarrow> bytes_to_sectors x = (nat x + 511) div 512"
  by (simp add: bytes_to_sectors_def sdiv_nonneg u32_of_id [unfolded u32_of_def] u32_of_def nat_div_distrib)

lemma length_data_sectors:
  assumes "inode_wf s di"
  shows "length (data_sectors s di) = bytes_to_sectors (ilength di)"
  using assms
  by (auto simp: data_sectors_def inode_wf_def Let_def DIRECT_POINTERS_def DISK_SECTOR_SIZE_def
      bytes_to_sectors_eq split: if_splits)

text \<open>Fields of the file system state the cache operations cannot see.\<close>

lemma cache_view_fs [simp]:
  "cache_view (s\<lparr>inodes := a\<rparr>) = cache_view s" "cache_view (s\<lparr>sector_arrays := b\<rparr>) = cache_view s"
  "cache_view (s\<lparr>free_map := c\<rparr>) = cache_view s" "cache_view (s\<lparr>open_inodes := d\<rparr>) = cache_view s"
  "cache_view (s\<lparr>files := e\<rparr>) = cache_view s" "cache_view (s\<lparr>malloc_cnt := n\<rparr>) = cache_view s"
  by (auto simp: cache_view_def fun_eq_iff split: option.splits)

lemma cache_inv_fs [simp]:
  "cache_inv (s\<lparr>inodes := a\<rparr>) = cache_inv s" "cache_inv (s\<lparr>sector_arrays := b\<rparr>) = cache_inv s"
  "cache_inv (s\<lparr>free_map := c\<rparr>) = cache_inv s" "cache_inv (s\<lparr>open_inodes := d\<rparr>) = cache_inv s"
  "cache_inv (s\<lparr>files := e\<rparr>) = cache_inv s"
  by (auto simp: cache_inv_def)

lemma cache_inv_malloc: "cache_inv s \<Longrightarrow> cache_inv (s\<lparr>malloc_cnt := Suc (malloc_cnt s)\<rparr>)"
  by (auto simp: cache_inv_def bce_ok_def)

lemma cache_frame_fs:
  assumes "cache_frame s s'"
  shows "inodes s' = inodes s" "open_inodes s' = open_inodes s" "sector_arrays s' = sector_arrays s"
    "pointer_arrays s' = pointer_arrays s" "files s' = files s" "dirs s' = dirs s"
    "free_map s' = free_map s" "free_map_file s' = free_map_file s" "curr_dir s' = curr_dir s"
    "garbage s' = garbage s"
proof -
  have more: "cache.more s' = cache.more s" using assms by (simp add: cache_frame_def)
  show "inodes s' = inodes s" "open_inodes s' = open_inodes s" "sector_arrays s' = sector_arrays s"
    "pointer_arrays s' = pointer_arrays s" "files s' = files s" "dirs s' = dirs s"
    "free_map s' = free_map s" "free_map_file s' = free_map_file s" "curr_dir s' = curr_dir s"
    "garbage s' = garbage s"
    using more by (cases s; cases s'; simp)+
qed

lemma data_sectors_cong: "sector_arrays s' = sector_arrays s \<Longrightarrow> data_sectors s' di = data_sectors s di"
  by (simp add: data_sectors_def Let_def)

lemma inode_wf_cong: "sector_arrays s' = sector_arrays s \<Longrightarrow> inode_wf s' di = inode_wf s di"
  by (simp add: inode_wf_def)

lemma put_idata_self [simp]: "inodes s p = Some i \<Longrightarrow> put_idata s p (idata i) = s"
  by (simp add: put_idata_def fun_upd_idem)

text \<open>Inside the file \<open>byte_to_sector\<close> only looks the sector up.\<close>

lemma byte_to_sector_inside:
  assumes i: "inodes s p = Some i" and wf: "inode_wf s (idata i)" and pos: "0 < pos" "pos \<le> ilength (idata i)"
  shows "byte_to_sector alloc s p pos = Inr (s, data_sectors s (idata i) ! ((nat pos - 1) div 512))"
    and "(nat pos - 1) div 512 < length (data_sectors s (idata i))"
proof -
  let ?di = "idata i"
  have len: "ilength ?di \<le> 512 * 512" "0 \<le> ilength ?di" using wf by (auto simp: inode_wf_def)
  have tgt: "bytes_to_sectors pos = (nat pos + 511) div 512"
    by (rule bytes_to_sectors_eq) (use pos len in auto)
  obtain m where m: "nat pos = Suc m" using pos by (cases "nat pos") auto
  have "(Suc m + 511) div 512 = (m + 512) div 512" by simp
  then have "(Suc m + 511) div 512 = m div 512 + 1" by (simp only: div_add_self2)
  with tgt m have idx: "bytes_to_sectors pos - 1 = (nat pos - 1) div 512" "0 < bytes_to_sectors pos"
    by simp_all
  have cur: "bytes_to_sectors (ilength ?di) = (nat (ilength ?di) + 511) div 512"
    by (rule bytes_to_sectors_eq) (use len in auto)
  have "bytes_to_sectors pos \<le> bytes_to_sectors (ilength ?di)"
    unfolding tgt cur by (rule div_le_mono) (use pos in simp)
  then have lt: "(nat pos - 1) div 512 < bytes_to_sectors (ilength ?di)" using idx by linarith
  then show "(nat pos - 1) div 512 < length (data_sectors s ?di)" by (simp add: length_data_sectors [OF wf])
  have grow: "inode_grow_open alloc s p pos = Inr s"
    using i pos by (simp add: inode_grow_open_def get_inode_def inode_grow_def)
  show "byte_to_sector alloc s p pos = Inr (s, data_sectors s ?di ! ((nat pos - 1) div 512))"
  proof (cases "bytes_to_sectors (ilength ?di) \<le> DIRECT_POINTERS")
    case True
    then have "length (start ?di) = DIRECT_POINTERS" using wf by (simp add: inode_wf_def)
    with True lt i pos idx show ?thesis
      by (simp add: byte_to_sector_def grow get_inode_def data_sectors_def array_get_def)
  next
    case False
    then obtain arr where arr: "sector_arrays s (indirect ?di) = Some arr" "length arr = DISK_SECTOR_SIZE"
      using wf by (auto simp: inode_wf_def)
    have "bytes_to_sectors (ilength ?di) \<le> DISK_SECTOR_SIZE"
      using len by (simp add: cur DISK_SECTOR_SIZE_def)
    with False lt i pos idx arr show ?thesis
      by (simp add: byte_to_sector_def grow get_inode_def data_sectors_def array_get_def get_array_def)
  qed
qed

section \<open>Reading\<close>

lemma sectors_of_view: "cache_inv s \<Longrightarrow> \<forall>x\<in>set (map (cache_view s) ks). length x = 512"
  using length_cache_view [of s] by (auto simp: DISK_SECTOR_SIZE_def)

lemma length_file_raw:
  "cache_inv s \<Longrightarrow> inode_wf s di \<Longrightarrow> length (file_raw s di) = 512 * bytes_to_sectors (ilength di)"
  using length_concat_blocks [OF sectors_of_view, of s "data_sectors s di"]
  by (simp add: file_raw_def length_data_sectors)

lemma length_file_bytes:
  assumes "cache_inv s" "inode_wf s di"
  shows "length (file_bytes s di) = nat (ilength di)"
proof -
  have "nat (ilength di) \<le> 512 * ((nat (ilength di) + 511) div 512)" by linarith
  then show ?thesis
    using assms by (simp add: file_bytes_def length_file_raw inode_wf_def bytes_to_sectors_eq)
qed

lemma read_chunk_size_eq:
  assumes "0 \<le> offset" "offset < len" "len \<le> 512 * 512" "0 < sz"
  shows "read_chunk_size len sz offset = min sz (min (len - offset) (512 - offset mod 512))"
    and "0 < read_chunk_size len sz offset"
    and "nat offset mod 512 + nat (read_chunk_size len sz offset) \<le> 512"
    and "nat offset + nat (read_chunk_size len sz offset) \<le> nat len"
proof -
  show eq: "read_chunk_size len sz offset = min sz (min (len - offset) (512 - offset mod 512))"
    using assms by (simp add: read_chunk_size_def smod_nonneg min_def Let_def)
  have m: "offset mod 512 < 512" "0 \<le> offset mod 512" by simp_all
  then show "0 < read_chunk_size len sz offset" using assms eq by simp
  have "nat offset mod 512 = nat (offset mod 512)" using assms by (simp add: nat_mod_distrib)
  then show "nat offset mod 512 + nat (read_chunk_size len sz offset) \<le> 512" using eq m by linarith
  show "nat offset + nat (read_chunk_size len sz offset) \<le> nat len" using eq assms by linarith
qed

text \<open>The bytes of one chunk are the bytes of the file at its offset.\<close>

lemma file_chunk:
  assumes inv: "cache_inv s" and wf: "inode_wf s di" and c: "0 < c" "ofs mod 512 + c \<le> 512"
    and fit: "ofs + c \<le> nat (ilength di)"
  shows "take c (drop (ofs mod 512) (cache_view s (data_sectors s di ! ((ofs + c - 1) div 512))))
    = take c (drop ofs (file_bytes s di))"
    and "ofs div 512 < length (data_sectors s di)" and "(ofs + c - 1) div 512 = ofs div 512"
proof -
  show k: "(ofs + c - 1) div 512 = ofs div 512" by (rule div_same_block [OF c])
  have n: "length (data_sectors s di) = (nat (ilength di) + 511) div 512"
    using wf by (simp add: length_data_sectors inode_wf_def bytes_to_sectors_eq)
  have "(ofs + c - 1 + 512) div 512 \<le> (nat (ilength di) + 511) div 512"
    by (rule div_le_mono) (use fit c in linarith)
  moreover have "(ofs + c - 1 + 512) div 512 = (ofs + c - 1) div 512 + 1" by (rule div_add_self2) simp
  ultimately show lt: "ofs div 512 < length (data_sectors s di)" unfolding n k by linarith
  have "take c (drop (512 * (ofs div 512) + ofs mod 512) (file_raw s di))
      = take c (drop (ofs mod 512) (map (cache_view s) (data_sectors s di) ! (ofs div 512)))"
    unfolding file_raw_def by (rule take_drop_block [OF sectors_of_view [OF inv]]) (use lt c in auto)
  with lt fit show "take c (drop (ofs mod 512) (cache_view s (data_sectors s di ! ((ofs + c - 1) div 512))))
    = take c (drop ofs (file_bytes s di))"
    unfolding k file_bytes_def drop_take take_take by (simp add: min_absorb1)
qed

lemma inode_read_loop_spec:
  assumes "cache_inv s" "inodes s p = Some i" "inode_wf s (idata i)"
    and "\<forall>k\<in>set (data_sectors s (idata i)). cache_ready s k"
    and "0 \<le> offset" "offset < 2 ^ 31" "0 \<le> br"
    and "nat br + nat (min sz (ilength (idata i) - offset)) \<le> length buf"
  shows "\<exists>s'. inode_read_loop alloc s p buf sz offset br
      = Inr (s', overwrite buf (nat br) (take (nat (min sz (ilength (idata i) - offset)))
               (drop (nat offset) (file_bytes s (idata i)))),
             br + int (nat (min sz (ilength (idata i) - offset))))
    \<and> cache_inv s' \<and> cache_view s' = cache_view s \<and> cache_frame s s'"
  using assms
proof (induction "nat sz" arbitrary: s buf sz offset br rule: less_induct)
  case less
  let ?di = "idata i" and ?len = "ilength (idata i)"
  have len: "0 \<le> ?len" "?len \<le> 512 * 512" using less.prems(3) by (auto simp: inode_wf_def)
  show ?case
  proof (cases "sz \<le> 0 \<or> ?len \<le> offset")
    case True
    have "sz > 0 \<Longrightarrow> read_chunk_size ?len sz offset \<le> 0"
    proof -
      assume "sz > 0"
      with True have le: "?len \<le> offset" by simp
      have "s32_of (?len - offset) = ?len - offset" by (rule s32_of_id) (use le less.prems len in auto)
      with le show ?thesis by (auto simp: read_chunk_size_def Let_def)
    qed
    then have "inode_read_loop alloc s p buf sz offset br = Inr (s, buf, br)"
      using less.prems(2) by (subst inode_read_loop.simps) (simp add: get_inode_def inode_length_def)
    moreover have "nat (min sz (?len - offset)) = 0" using True by auto
    ultimately show ?thesis using less.prems(1) by simp
  next
    case False
    define c where "c = read_chunk_size ?len sz offset"
    from False have lt: "offset < ?len" "0 < sz" by auto
    note c1 = read_chunk_size_eq(1) [OF less.prems(5) lt(1) len(2) lt(2), folded c_def]
    note c = read_chunk_size_eq(2-4) [OF less.prems(5) lt(1) len(2) lt(2), folded c_def]
    have s32: "s32_of (offset + c) = offset + c"
      by (rule s32_of_lit) (use c(1,3) len less.prems(5) in linarith)+
    let ?k = "data_sectors s ?di ! (nat offset div 512)"
    note chunk = file_chunk [OF less.prems(1,3) _ c(2,3)]
    have le: "offset + c \<le> ?len" using c len less.prems(5) by linarith
    have nat_c: "nat (offset + c) = nat offset + nat c" using c less.prems(5) by simp
    have bts: "byte_to_sector alloc s p (offset + c) = Inr (s, ?k)"
      using byte_to_sector_inside(1) [OF less.prems(2,3), of "offset + c" alloc] chunk(3) c le less.prems(5)
      by (simp add: nat_c)
    have "cache_ready s ?k" using less.prems(4) chunk(2) c by auto
    from bc.rd_ok [OF less.prems(1) this] obtain s1 where
      rd: "buffer_cache_read s ?k True = Inr (s1, Some (cache_view s ?k))" by auto
    note s1 = buffer_cache_read_spec [OF less.prems(1) rd]
    then have fr: "cache_frame s s1" by simp
    note same = cache_frame_fs [OF fr]
    note ds = data_sectors_cong [OF same(3)] and wf1 = inode_wf_cong [OF same(3)]
    have rdy: "cache_ready s1 = cache_ready s" using bc.rd_keeps [OF less.prems(1) rd] by simp
    let ?d = "take (nat c) (drop (nat offset) (file_bytes s ?di))"
    let ?n = "nat (min sz (?len - offset))" and ?n1 = "nat (min (sz - c) (?len - (offset + c)))"
    have nn: "nat c + ?n1 = ?n" using c1 c(1) by linarith
    have fb: "file_bytes s1 ?di = file_bytes s ?di"
      using s1 by (simp add: file_bytes_def file_raw_def ds)
    have d: "take (nat c) (drop (nat (offset mod 512)) (cache_view s ?k)) = ?d"
      using chunk(1,3) c less.prems(5) by (simp add: nat_mod_distrib)
    have len_d: "length ?d = nat c"
      using c(3) by (simp add: length_file_bytes [OF less.prems(1,3)] min_absorb2)
    have br: "nat (br + c) = nat br + nat c" using less.prems(7) c by simp
    have fit: "nat br + nat c + ?n1 \<le> length buf" using less.prems(8) nn by simp
    define buf1 where "buf1 = overwrite buf (nat br) ?d"
    have buf1: "length buf1 = length buf" using fit len_d by (simp add: buf1_def)
    have loop: "inode_read_loop alloc s p buf sz offset br
        = inode_read_loop alloc s1 p buf1 (sz - c) (offset + c) (br + c)"
      using False less.prems fit c bts rd s32 d
      by (subst inode_read_loop.simps)
        (simp add: get_inode_def inode_length_def Let_def smod_nonneg c_def [symmetric] buf1_def)
    have "\<exists>s'. inode_read_loop alloc s1 p buf1 (sz - c) (offset + c) (br + c)
      = Inr (s', overwrite buf1 (nat (br + c)) (take ?n1 (drop (nat (offset + c)) (file_bytes s1 ?di))),
             br + c + int ?n1)
      \<and> cache_inv s' \<and> cache_view s' = cache_view s1 \<and> cache_frame s1 s'"
    proof (rule less.hyps)
      show "nat (sz - c) < nat sz" using c(1) lt by simp
      show "cache_inv s1" "inodes s1 p = Some i" "inode_wf s1 ?di"
        using s1 same(1) less.prems(2,3) by (simp_all add: wf1)
      show "\<forall>k\<in>set (data_sectors s1 ?di). cache_ready s1 k"
        using less.prems(4) by (simp add: rdy ds)
      show "0 \<le> offset + c" "offset + c < 2 ^ 31" "0 \<le> br + c"
        using c(1) le len less.prems(5,7) by simp_all
      show "nat (br + c) + ?n1 \<le> length buf1" using fit br buf1 by simp
    qed
    moreover have "nat c \<le> length (drop (nat offset) (file_bytes s ?di))"
      unfolding length_drop length_file_bytes [OF less.prems(1,3)] using c(3) by linarith
    note app = overwrite_take_add [OF this fit]
    have "overwrite buf1 (nat br + nat c) (take ?n1 (drop (nat offset + nat c) (file_bytes s ?di)))
        = overwrite buf (nat br) (take ?n (drop (nat offset) (file_bytes s ?di)))"
      using app unfolding buf1_def nn by (simp add: add.commute)
    moreover have "br + c + int ?n1 = br + int ?n" using nn c(1) by linarith
    ultimately obtain s' where
      "inode_read_loop alloc s p buf sz offset br = Inr (s', overwrite buf (nat br)
           (take ?n (drop (nat offset) (file_bytes s ?di))), br + int ?n)"
      "cache_inv s'" "cache_view s' = cache_view s1" "cache_frame s1 s'"
      unfolding loop fb br nat_c by metis
    with s1 cache_frame_trans [OF fr] show ?thesis by auto
  qed
qed

lemma inode_read_at_spec:
  assumes "cache_inv s" "inodes s p = Some i" "inode_wf s (idata i)"
    and "\<forall>k\<in>set (data_sectors s (idata i)). cache_ready s k"
    and "0 \<le> offset" "offset < 2 ^ 31"
    and "nat (min sz (ilength (idata i) - offset)) \<le> length buf"
  shows "\<exists>s'. inode_read_at alloc s p buf sz offset
      = Inr (s', overwrite buf 0 (take (nat (min sz (ilength (idata i) - offset)))
               (drop (nat offset) (file_bytes s (idata i)))),
             int (nat (min sz (ilength (idata i) - offset))))
    \<and> cache_inv s' \<and> cache_view s' = cache_view s \<and> cache_frame s s'"
  using inode_read_loop_spec [of s p i offset 0 sz buf alloc] assms
  by (simp add: inode_read_at_def)

text \<open>
  C28: reading. A read at any offset of a well-formed inode returns the number of bytes
  between the offset and the end of the file, at most \<open>sz\<close>, and puts exactly these bytes of
  the file into the buffer; the file system does not change. The loop ends and never faults,
  for whatever allocator: a read never grows the file.
\<close>

theorem inode_read_at_returns_bytes:
  assumes "cache_inv s" "inodes s p = Some i" "inode_wf s (idata i)"
    and "\<forall>k\<in>set (data_sectors s (idata i)). cache_ready s k"
    and "0 \<le> offset" "offset < 2 ^ 31"
    and "nat (min sz (ilength (idata i) - offset)) \<le> length buf"
  shows "\<exists>s'. inode_read_at alloc s p buf sz offset
      = Inr (s', overwrite buf 0 (take (nat (min sz (ilength (idata i) - offset)))
               (drop (nat offset) (file_bytes s (idata i)))),
             int (nat (min sz (ilength (idata i) - offset))))
    \<and> cache_inv s' \<and> cache_view s' = cache_view s \<and> cache_frame s s'"
  by (rule inode_read_at_spec [OF assms])

section \<open>Writing inside the file\<close>

lemma write_chunk_size_eq:
  assumes "0 < left" "left < 2147483648" "0 < sz" "sz < 2147483648" "0 \<le> ofs" "ofs < 512"
  shows "write_chunk_size left sz ofs = min sz (min left (512 - ofs))"
proof -
  have "u32_of left = left" "u32_of sz = sz" "u32_of (512 - ofs) = 512 - ofs"
    using assms by (auto intro!: u32_of_id)
  then show ?thesis by (auto simp: write_chunk_size_def Let_def min_def)
qed

lemma map_view_update:
  assumes "distinct ks" "j < length ks" "v' = v(ks ! j := y)"
  shows "map v' ks = (map v ks)[j := y]"
  using assms by (intro nth_equalityI) (auto simp: nth_list_update nth_eq_iff_index_eq)

text \<open>Writing one chunk overwrites the bytes of the file at its offset.\<close>

lemma file_write_chunk:
  assumes inv: "cache_inv s" and wf: "inode_wf s di" and dist: "distinct (data_sectors s di)"
    and c: "0 < length bs" "ofs mod 512 + length bs \<le> 512" and fit: "ofs + length bs \<le> nat (ilength di)"
    and wr: "buffer_cache_write s (data_sectors s di ! (ofs div 512)) bs (ofs mod 512) = Inr s'"
  shows "cache_inv s'" "cache_frame s s'" "file_raw s' di = overwrite (file_raw s di) ofs bs"
    "file_bytes s' di = overwrite (file_bytes s di) ofs bs"
    "\<forall>k. k \<notin> set (data_sectors s di) \<longrightarrow> cache_view s' k = cache_view s k"
proof -
  let ?j = "ofs div 512" and ?ks = "data_sectors s di"
  note wr' = buffer_cache_write_spec [OF inv wr]
  show "cache_inv s'" and fr: "cache_frame s s'" using wr' by auto
  have j: "?j < length ?ks" using file_chunk(2) [OF inv wf c fit] .
  have ds: "data_sectors s' di = ?ks" using cache_frame_fs(3) [OF fr] by (rule data_sectors_cong)
  have "map (cache_view s') ?ks
      = (map (cache_view s) ?ks)[?j := overwrite (map (cache_view s) ?ks ! ?j) (ofs mod 512) bs]"
    by (rule map_view_update [OF dist j]) (use wr' j in simp)
  then have "file_raw s' di = overwrite (concat (map (cache_view s) ?ks)) (512 * ?j + ofs mod 512) bs"
    unfolding file_raw_def ds
    by (simp only: concat_update_block [OF sectors_of_view [OF inv], of ?j ?ks] j c(2) length_map)
  then show raw: "file_raw s' di = overwrite (file_raw s di) ofs bs" by (simp add: file_raw_def)
  have "nat (ilength di) \<le> length (file_raw s di)"
    using length_file_bytes [OF inv wf] by (simp add: file_bytes_def)
  with raw fit show "file_bytes s' di = overwrite (file_bytes s di) ofs bs"
    by (simp add: file_bytes_def take_overwrite)
  show "\<forall>k. k \<notin> set ?ks \<longrightarrow> cache_view s' k = cache_view s k"
    using wr' j by auto
qed

lemma inode_write_loop_inside:
  assumes "cache_inv s" "inodes s p = Some i" "inode_wf s (idata i)" "distinct (data_sectors s (idata i))"
    and "0 \<le> offset" "0 \<le> sz" "offset + sz \<le> ilength (idata i)"
    and "0 \<le> bw" "nat bw + nat sz \<le> length buf"
  shows "case inode_write_loop alloc s p buf sz offset bw of
      Inl e \<Rightarrow> \<not> (\<forall>k\<in>set (data_sectors s (idata i)). cache_ready s k)
    | Inr (s', n) \<Rightarrow> n = bw + sz \<and> cache_inv s' \<and> cache_frame s s'
        \<and> file_raw s' (idata i) = overwrite (file_raw s (idata i)) (nat offset) (take (nat sz) (drop (nat bw) buf))
        \<and> (\<forall>k. k \<notin> set (data_sectors s (idata i)) \<longrightarrow> cache_view s' k = cache_view s k)"
  using assms
proof (induction "nat sz" arbitrary: s sz offset bw rule: less_induct)
  case less
  let ?di = "idata i" and ?len = "ilength (idata i)"
  note inv = less.prems(1) and wf = less.prems(3) and off = less.prems(5)
  have len: "0 \<le> ?len" "?len \<le> 512 * 512" using wf by (auto simp: inode_wf_def)
  show ?case
  proof (cases "sz = 0")
    case True
    with inv show ?thesis by (subst inode_write_loop.simps) simp
  next
    case False
    then have sz: "0 < sz" using less.prems(6) by simp
    define ofs where "ofs = offset mod 512"
    have ofs: "0 \<le> ofs" "ofs < 512" "ofs \<le> offset" "nat ofs = nat offset mod 512"
      using off by (simp_all add: ofs_def zmod_le_nonneg_dividend nat_mod_distrib)
    define c where "c = write_chunk_size (?len - ofs) sz ofs"
    have c1: "c = min sz (min (?len - ofs) (512 - ofs))"
      unfolding c_def by (rule write_chunk_size_eq) (use sz ofs len less.prems(7) in linarith)+
    then have c: "0 < c" "c \<le> sz" "ofs + c \<le> 512" "offset + c \<le> ?len"
      using sz ofs len less.prems(7) by linarith+
    have s32: "s32_of (offset + c) = offset + c" "s32_of (?len - ofs) = ?len - ofs"
      by (rule s32_of_lit; use c ofs len off in linarith)+
    define bs where "bs = take (nat c) (drop (nat bw) buf)"
    have lbs: "length bs = nat c" using less.prems(9) c by (simp add: bs_def)
    let ?k = "data_sectors s ?di ! (nat offset div 512)"
    have nat_c: "nat (offset + c) = nat offset + nat c" using c off by simp
    have fit: "0 < length bs" "nat offset mod 512 + length bs \<le> 512" "nat offset + length bs \<le> nat ?len"
      using c ofs off by (simp_all add: lbs flip: ofs(4))
    note chunk = file_chunk(2,3) [OF inv wf fit]
    have bts: "byte_to_sector alloc s p (offset + c) = Inr (s, ?k)"
      using byte_to_sector_inside(1) [OF less.prems(2) wf, of "offset + c" alloc] chunk(2) c(1,4) off
      by (simp add: nat_c lbs)
    have rest: "nat (sz - c) = nat sz - nat c" using c by (simp add: nat_diff_distrib)
    have bwc: "nat bw + nat c \<le> length buf" using less.prems(9) c by linarith
    have unfold: "inode_write_loop alloc s p buf sz offset bw
        = rbind (buffer_cache_write s ?k bs (nat ofs)) (\<lambda>s1.
            inode_write_loop alloc s1 p buf (sz - c) (offset + c) (bw + c))"
      using bwc sz less.prems(2,8) c bts s32 ofs off
      by (subst inode_write_loop.simps)
        (simp add: write_grow_def get_inode_def inode_length_def Let_def smod_nonneg bs_def
          flip: ofs_def c_def)
    show ?thesis
    proof (cases "buffer_cache_write s ?k bs (nat ofs)")
      case (Inl e)
      have "nat ofs + length bs \<le> DISK_SECTOR_SIZE" using fit(2) ofs(4) by (simp add: DISK_SECTOR_SIZE_def)
      with Inl bc.wr_ok [OF inv, of ?k "nat ofs" bs] have "\<not> cache_ready s ?k" by auto
      with chunk(1) nth_mem have "\<not> (\<forall>k\<in>set (data_sectors s ?di). cache_ready s k)" by blast
      then show ?thesis by (simp add: unfold Inl)
    next
    case wr: (Inr s1)
    note ch = file_write_chunk [OF inv wf less.prems(4) fit wr [unfolded ofs(4)]]
    have rdy: "cache_ready s1 = cache_ready s" using bc.wr_effect [OF inv wr] by simp
    note same = cache_frame_fs [OF ch(2)]
    note ds = data_sectors_cong [OF same(3)] and wf1 = inode_wf_cong [OF same(3)]
    have bw: "nat (bw + c) = nat bw + nat c" using less.prems(8) c by simp
    have IH: "case inode_write_loop alloc s1 p buf (sz - c) (offset + c) (bw + c) of
        Inl e \<Rightarrow> \<not> (\<forall>k\<in>set (data_sectors s1 ?di). cache_ready s1 k)
      | Inr (s', n) \<Rightarrow> n = bw + c + (sz - c) \<and> cache_inv s' \<and> cache_frame s1 s'
          \<and> file_raw s' ?di = overwrite (file_raw s1 ?di) (nat (offset + c)) (take (nat (sz - c)) (drop (nat (bw + c)) buf))
          \<and> (\<forall>k. k \<notin> set (data_sectors s1 ?di) \<longrightarrow> cache_view s' k = cache_view s1 k)"
    proof (rule less.hyps)
      show "nat (sz - c) < nat sz" using c by simp
      show "cache_inv s1" "inodes s1 p = Some i" "inode_wf s1 ?di" "distinct (data_sectors s1 ?di)"
        using ch(1) same(1) less.prems(2,3,4) by (simp_all add: wf1 ds)
      show "0 \<le> offset + c" "0 \<le> sz - c" "offset + c + (sz - c) \<le> ?len" "0 \<le> bw + c"
        using c off less.prems(7,8) by simp_all
      show "nat (bw + c) + nat (sz - c) \<le> length buf" using less.prems(9) bw c by simp
    qed
    have raw: "nat ?len \<le> length (file_raw s ?di)"
      using length_file_bytes [OF inv wf] by (simp add: file_bytes_def)
    have m: "nat c \<le> length (drop (nat bw) buf)" using less.prems(9) c by simp
    have f: "nat offset + nat c + (nat sz - nat c) \<le> length (file_raw s ?di)"
      using raw less.prems(7) c off by linarith
    have join: "overwrite (overwrite (file_raw s ?di) (nat offset) bs) (nat offset + nat c)
          (take (nat sz - nat c) (drop (nat bw + nat c) buf))
        = overwrite (file_raw s ?di) (nat offset) (take (nat c + (nat sz - nat c)) (drop (nat bw) buf))"
      using overwrite_take_add [OF m f] by (simp add: bs_def add.commute)
    have szc: "nat c + (nat sz - nat c) = nat sz" using c by simp
    show ?thesis
    proof (cases "inode_write_loop alloc s1 p buf (sz - c) (offset + c) (bw + c)")
      case (Inl e)
      with IH show ?thesis by (simp add: unfold wr rdy ds)
    next
      case (Inr r)
      with IH join szc ch cache_frame_trans [OF ch(2)] show ?thesis
        unfolding unfold by (auto simp: wr ds nat_c bw rest)
    qed
    qed
  qed
qed

text \<open>
  Writing inside the file. A write that ends before the end of the file writes all its
  bytes at its offset, leaves every other byte of the file and every sector outside it
  unchanged, and does not call the allocator.
\<close>

theorem inode_write_at_inside:
  assumes "cache_inv s" "inodes s p = Some i" "inode_wf s (idata i)" "distinct (data_sectors s (idata i))"
    and "\<forall>k\<in>set (data_sectors s (idata i)). cache_ready s k" and "deny_write_cnt i = 0"
    and "0 \<le> offset" "0 \<le> sz" "offset + sz \<le> ilength (idata i)" "nat sz \<le> length buf"
  shows "\<exists>s'. inode_write_at alloc s p buf sz offset = Inr (s', sz)
    \<and> cache_inv s' \<and> cache_frame s s'
    \<and> file_bytes s' (idata i) = overwrite (file_bytes s (idata i)) (nat offset) (take (nat sz) buf)
    \<and> (\<forall>k. k \<notin> set (data_sectors s (idata i)) \<longrightarrow> cache_view s' k = cache_view s k)"
proof -
  let ?di = "idata i"
  from inode_write_loop_inside [of s p i offset sz 0 buf alloc] assms obtain s' where
    s': "inode_write_loop alloc s p buf sz offset 0 = Inr (s', sz)" "cache_inv s'" "cache_frame s s'"
      "file_raw s' ?di = overwrite (file_raw s ?di) (nat offset) (take (nat sz) buf)"
      "\<forall>k. k \<notin> set (data_sectors s ?di) \<longrightarrow> cache_view s' k = cache_view s k"
    by (auto split: sum.splits)
  have "nat (ilength ?di) \<le> length (file_raw s ?di)"
    using length_file_bytes [OF assms(1,3)] by (simp add: file_bytes_def)
  moreover have "nat offset + length (take (nat sz) buf) \<le> nat (ilength ?di)"
    using assms(7-10) by (simp add: min_absorb2)
  ultimately have "file_bytes s' ?di = overwrite (file_bytes s ?di) (nat offset) (take (nat sz) buf)"
    using s'(4) by (simp add: file_bytes_def take_overwrite)
  with s' assms(2,6) show ?thesis
    by (intro exI [of _ s']) (simp add: inode_write_at_def get_inode_def)
qed

end
