(* ===== verification/Inode_Growth.thy ===== *)
theory Inode_Growth
  imports Inode_Spec
begin

text \<open>
  File growth. The locale \<open>sector_allocator\<close> is what \<open>inode_grow\<close> needs from the free map:
  an allocation returns a sector nobody uses, marks it and only it, and writes no sector
  outside its own bookkeeping (\<open>meta\<close>, the data sectors of the free map file). The lemmas
  inside the locale show that a file that satisfies \<open>file_ok\<close> keeps it when it grows, that
  growth appends zeros and touches nobody else's sectors, and that a write beyond the end of
  the file has the effect of a write on the byte string extended with zeros.
\<close>

section \<open>Allocated sectors\<close>

definition used :: "fs \<Rightarrow> nat set" where
  "used s = {k. k < bit_cnt (free_map s) \<and> bitmap_bit (free_map s) k}"

definition base_inv :: "fs \<Rightarrow> bool" where
  "base_inv s \<longleftrightarrow> cache_inv s \<and> bitmap_inv (free_map s)
     \<and> bit_cnt (free_map s) = capacity (filesys_disk s) \<and> capacity (filesys_disk s) \<le> 122 * 4096
     \<and> (\<forall>a\<in>dom (sector_arrays s). a \<noteq> 0 \<and> a \<le> malloc_cnt s)"

text \<open>Everything but disk contents, cache and free map.\<close>

definition fs_same :: "fs \<Rightarrow> fs \<Rightarrow> bool" where
  "fs_same s s' \<longleftrightarrow> capacity (filesys_disk s') = capacity (filesys_disk s) \<and> mallocs s' = mallocs s
     \<and> malloc_cnt s \<le> malloc_cnt s' \<and> inodes s' = inodes s \<and> open_inodes s' = open_inodes s
     \<and> sector_arrays s' = sector_arrays s \<and> pointer_arrays s' = pointer_arrays s \<and> files s' = files s
     \<and> dirs s' = dirs s \<and> free_map_file s' = free_map_file s \<and> curr_dir s' = curr_dir s
     \<and> garbage s' = garbage s"

lemma fs_same_refl [simp]: "fs_same s s"
  by (simp add: fs_same_def)

lemma fs_same_trans: "fs_same s s' \<Longrightarrow> fs_same s' s'' \<Longrightarrow> fs_same s s''"
  by (auto simp: fs_same_def)

lemma cache_frame_same: "cache_frame s s' \<Longrightarrow> fs_same s s'"
  using cache_frame_fs [of s s'] by (simp add: fs_same_def cache_frame_def)

lemma cache_frame_used: "cache_frame s s' \<Longrightarrow> used s' = used s"
  using cache_frame_fs [of s s'] by (simp add: used_def)

lemma used_fs [simp]: "used (s\<lparr>sector_arrays := a\<rparr>) = used s" "used (s\<lparr>inodes := b\<rparr>) = used s"
  by (simp_all add: used_def)

section \<open>Files\<close>

text \<open>
  A file whose inode is in sector \<open>sec\<close>: its sectors are pairwise different, allocated and
  not in the reserved set \<open>R\<close>, and the unused end of its last sector is zero.
\<close>

definition file_ok :: "fs \<Rightarrow> nat set \<Rightarrow> nat \<Rightarrow> inode_disk \<Rightarrow> bool" where
  "file_ok s R sec di \<longleftrightarrow> inode_wf s di \<and> distinct (sec # data_sectors s di)
     \<and> set (sec # data_sectors s di) \<subseteq> used s - R
     \<and> file_raw s di = file_bytes s di
          @ replicate (512 * bytes_to_sectors (ilength di) - nat (ilength di)) 0"

lemma file_okD:
  assumes "file_ok s R sec di"
  shows "inode_wf s di" "distinct (data_sectors s di)" "sec \<notin> set (data_sectors s di)"
    "sec \<in> used s" "sec \<notin> R" "set (data_sectors s di) \<subseteq> used s" "set (data_sectors s di) \<inter> R = {}"
    "0 \<le> ilength di" "ilength di \<le> 512 * 512"
  using assms by (auto simp: file_ok_def inode_wf_def)

text \<open>Appending zeroed sectors to a file.\<close>

lemma file_raw_zeros:
  assumes "\<forall>k\<in>set ks. cache_view s k = zero_sector"
  shows "concat (map (cache_view s) ks) = replicate (512 * length ks) 0"
  using assms by (induction ks) (auto simp: zero_sector_def DISK_SECTOR_SIZE_def replicate_add)

text \<open>
  The outcome of extending the sector map of \<open>di\<close> by the sectors \<open>new\<close> to length \<open>len\<close>;
  the arrays of other inodes stay as they are.
\<close>

definition extended :: "fs \<Rightarrow> fs \<Rightarrow> nat set \<Rightarrow> int \<Rightarrow> inode_disk \<Rightarrow> inode_disk \<Rightarrow> nat list \<Rightarrow> bool" where
  "extended s s' R len di di' new \<longleftrightarrow> data_sectors s' di' = data_sectors s di @ new \<and> inode_wf s' di'
     \<and> ilength di' = len \<and> magic di' = magic di \<and> isdir di' = isdir di \<and> idir di' = idir di
     \<and> distinct new \<and> set new \<inter> used s = {} \<and> used s' = used s \<union> set new
     \<and> (\<forall>k\<in>set new. cache_view s' k = zero_sector)
     \<and> (\<forall>k. k \<notin> R \<and> k \<notin> set new \<longrightarrow> cache_view s' k = cache_view s k)
     \<and> fs_same s (s'\<lparr>sector_arrays := sector_arrays s\<rparr>)
     \<and> (\<forall>a. a \<le> malloc_cnt s \<and> a \<noteq> indirect di \<longrightarrow> sector_arrays s' a = sector_arrays s a)
     \<and> (indirect di' = indirect di \<or> malloc_cnt s < indirect di')"

lemma data_sectors_direct:
  "bytes_to_sectors (ilength di) \<le> DIRECT_POINTERS \<Longrightarrow>
   data_sectors s di = take (bytes_to_sectors (ilength di)) (start di)"
  by (simp add: data_sectors_def)

lemma data_sectors_indirect:
  "\<not> bytes_to_sectors (ilength di) \<le> DIRECT_POINTERS \<Longrightarrow> sector_arrays s (indirect di) = Some arr \<Longrightarrow>
   data_sectors s di = take (bytes_to_sectors (ilength di)) arr"
  by (simp add: data_sectors_def)

lemma bytes_to_sectors_mono:
  "0 \<le> x \<Longrightarrow> x \<le> y \<Longrightarrow> y \<le> 512 * 512 \<Longrightarrow> bytes_to_sectors x \<le> bytes_to_sectors y"
  by (simp add: bytes_to_sectors_eq div_le_mono)

text \<open>
  What an operation on one file may change: its own sectors, its inode sector, the reserved
  sectors and sectors nobody used; its own sector array; its own in-memory inode.
\<close>

definition file_step :: "fs \<Rightarrow> fs \<Rightarrow> nat set \<Rightarrow> nat \<Rightarrow> inode_disk \<Rightarrow> inode_disk \<Rightarrow> bool" where
  "file_step s s' R sec di di' \<longleftrightarrow> used s \<subseteq> used s'
     \<and> set (data_sectors s' di') \<subseteq> set (data_sectors s di) \<union> (used s' - used s)
     \<and> set (data_sectors s di) \<subseteq> set (data_sectors s' di') \<and> used s' \<subseteq> used s \<union> set (data_sectors s' di')
     \<and> (\<forall>k. k \<in> used s \<and> k \<notin> R \<and> k \<noteq> sec \<and> k \<notin> set (data_sectors s di) \<longrightarrow> cache_view s' k = cache_view s k)
     \<and> fs_same s (s'\<lparr>sector_arrays := sector_arrays s, inodes := inodes s\<rparr>)
     \<and> (\<forall>a. a \<le> malloc_cnt s \<and> a \<noteq> indirect di \<longrightarrow> sector_arrays s' a = sector_arrays s a)
     \<and> (indirect di' = indirect di \<or> malloc_cnt s < indirect di')
     \<and> magic di' = magic di \<and> isdir di' = isdir di \<and> idir di' = idir di"

lemma file_step_refl [simp]: "file_step s s R sec di di"
  by (simp add: file_step_def)

lemma file_step_trans:
  assumes 1: "file_step s s1 R sec di di1" and 2: "file_step s1 s2 R sec di1 di2"
  shows "file_step s s2 R sec di di2"
  unfolding file_step_def
proof (intro conjI allI impI)
  have m: "malloc_cnt s \<le> malloc_cnt s1" using 1 by (simp add: file_step_def fs_same_def)
  have s1: "used s \<subseteq> used s1" "set (data_sectors s1 di1) \<subseteq> set (data_sectors s di) \<union> (used s1 - used s)"
    "set (data_sectors s di) \<subseteq> set (data_sectors s1 di1)" "used s1 \<subseteq> used s \<union> set (data_sectors s1 di1)"
    using 1 by (simp_all add: file_step_def)
  have s2: "used s1 \<subseteq> used s2" "set (data_sectors s2 di2) \<subseteq> set (data_sectors s1 di1) \<union> (used s2 - used s1)"
    "set (data_sectors s1 di1) \<subseteq> set (data_sectors s2 di2)" "used s2 \<subseteq> used s1 \<union> set (data_sectors s2 di2)"
    using 2 by (simp_all add: file_step_def)
  show "used s \<subseteq> used s2" using s1 s2 by blast
  show "set (data_sectors s2 di2) \<subseteq> set (data_sectors s di) \<union> (used s2 - used s)" using s1 s2 by blast
  show "set (data_sectors s di) \<subseteq> set (data_sectors s2 di2)" using s1 s2 by blast
  show "used s2 \<subseteq> used s \<union> set (data_sectors s2 di2)" using s1 s2 by blast
  show "fs_same s (s2\<lparr>sector_arrays := sector_arrays s, inodes := inodes s\<rparr>)"
    using 1 2 by (auto simp: file_step_def fs_same_def)
  show "magic di2 = magic di" "isdir di2 = isdir di" "idir di2 = idir di"
    using 1 2 by (auto simp: file_step_def)
  show "indirect di2 = indirect di \<or> malloc_cnt s < indirect di2"
    using 1 2 m by (auto simp: file_step_def)
  fix a
  assume "a \<le> malloc_cnt s \<and> a \<noteq> indirect di"
  with 1 2 m show "sector_arrays s2 a = sector_arrays s a" by (auto simp: file_step_def)
next
  fix k
  assume k: "k \<in> used s \<and> k \<notin> R \<and> k \<noteq> sec \<and> k \<notin> set (data_sectors s di)"
  with 1 have "k \<in> used s1" "k \<notin> set (data_sectors s1 di1)" "cache_view s1 k = cache_view s k"
    by (auto simp: file_step_def)
  with k 2 show "cache_view s2 k = cache_view s k" by (simp add: file_step_def)
qed

text \<open>
  The number of sectors that can be allocated without reaching the last one, whose
  read-ahead fails; growth uses up one per new data sector.
\<close>

definition room :: "fs \<Rightarrow> nat" where
  "room s = card {k. Suc k < capacity (filesys_disk s) \<and> k \<notin> used s}"

definition fs_ready :: "fs \<Rightarrow> bool" where
  "fs_ready s \<longleftrightarrow> (\<forall>n. mallocs s n) \<and> (\<forall>k\<in>used s. Suc k < capacity (filesys_disk s))"

lemma finite_room: "finite {k. Suc k < n \<and> k \<notin> U}"
  by (rule finite_subset [of _ "{..<n}"]) auto

lemma room_grow:
  assumes st: "file_step s s' R sec di di'" and ok: "file_ok s R sec di" "file_ok s' R sec di'"
  shows "room s + bytes_to_sectors (ilength di) \<le> room s' + bytes_to_sectors (ilength di')"
proof -
  let ?A = "\<lambda>s. {k. Suc k < capacity (filesys_disk s) \<and> k \<notin> used s}"
  let ?new = "set (data_sectors s' di') - set (data_sectors s di)"
  have cap: "capacity (filesys_disk s') = capacity (filesys_disk s)"
    and sub: "set (data_sectors s di) \<subseteq> set (data_sectors s' di')"
    and u: "used s' \<subseteq> used s \<union> set (data_sectors s' di')"
    using st by (auto simp: file_step_def fs_same_def)
  have "?A s \<subseteq> ?A s' \<union> ?new" using u cap file_okD(6) [OF ok(1)] by auto
  then have "card (?A s) \<le> card (?A s' \<union> ?new)" by (rule card_mono [rotated]) (simp add: finite_room)
  also have "\<dots> \<le> card (?A s') + card ?new" by (rule card_Un_le)
  finally have "room s \<le> room s' + card ?new" by (simp add: room_def)
  moreover have "card ?new + card (set (data_sectors s di)) = card (set (data_sectors s' di'))"
    using sub by (simp add: card_Diff_subset card_mono)
  moreover have "card (set (data_sectors s di)) = bytes_to_sectors (ilength di)"
    using file_okD(1,2) [OF ok(1)] by (simp add: distinct_card length_data_sectors)
  moreover have "card (set (data_sectors s' di')) = bytes_to_sectors (ilength di')"
    using file_okD(1,2) [OF ok(2)] by (simp add: distinct_card length_data_sectors)
  ultimately show ?thesis by simp
qed

lemma fs_ready_frame: "cache_frame s s' \<Longrightarrow> fs_ready s' = fs_ready s"
  by (simp add: fs_ready_def cache_frame_used) (simp add: cache_frame_def)

lemma room_frame: "cache_frame s s' \<Longrightarrow> room s' = room s"
  by (simp add: room_def cache_frame_used) (simp add: cache_frame_def)

lemma fs_ready_fs [simp]: "fs_ready (s\<lparr>sector_arrays := a\<rparr>) = fs_ready s" "fs_ready (s\<lparr>inodes := b\<rparr>) = fs_ready s"
  by (simp_all add: fs_ready_def)

lemma room_fs [simp]: "room (s\<lparr>sector_arrays := a\<rparr>) = room s" "room (s\<lparr>inodes := b\<rparr>) = room s"
  by (simp_all add: room_def)

lemma fs_ready_cache:
  "base_inv s \<Longrightarrow> fs_ready s \<Longrightarrow> k \<in> used s \<Longrightarrow> cache_ready s k"
  by (auto simp: fs_ready_def cache_ready_def base_inv_def)

lemma file_ok_inodes [simp]: "file_ok (s\<lparr>inodes := f\<rparr>) R sec di = file_ok s R sec di"
  by (simp add: file_ok_def inode_wf_def data_sectors_def file_raw_def file_bytes_def Let_def)

lemma file_bytes_inodes [simp]: "file_bytes (s\<lparr>inodes := f\<rparr>) di = file_bytes s di"
  by (simp add: file_bytes_def file_raw_def data_sectors_def Let_def)

lemma file_step_inodes [simp]: "file_step s (s'\<lparr>inodes := f\<rparr>) R sec di di' = file_step s s' R sec di di'"
  by (simp add: file_step_def data_sectors_def fs_same_def Let_def)

lemma length_file_bytes_ok: "cache_inv s \<Longrightarrow> file_ok s R sec di \<Longrightarrow> length (file_bytes s di) = nat (ilength di)"
  by (rule length_file_bytes) (auto dest: file_okD)

text \<open>A file whose sector map was extended, once its inode sector is rewritten.\<close>

lemma extended_file:
  assumes inv: "cache_inv s" "cache_inv s1" and ok: "file_ok s R sec di"
    and ext: "extended s s1 R len di di' new" and len: "ilength di \<le> len"
    and R: "R \<subseteq> used s" and s2: "cache_frame s1 s2" "cache_view s2 = (cache_view s1)(sec := y)"
  shows "file_ok s2 R sec di'" and "file_step s s2 R sec di di'"
    and "file_bytes s2 di' = file_bytes s di @ replicate (nat (len - ilength di)) 0"
proof -
  note okD = file_okD [OF ok]
  note same = cache_frame_fs [OF s2(1)]
  note ds = data_sectors_cong [OF same(3)]
  have e: "data_sectors s1 di' = data_sectors s di @ new" "inode_wf s1 di'" "ilength di' = len"
    "distinct new" "set new \<inter> used s = {}" "used s1 = used s \<union> set new"
    "\<forall>k\<in>set new. cache_view s1 k = zero_sector"
    "\<forall>k. k \<notin> R \<and> k \<notin> set new \<longrightarrow> cache_view s1 k = cache_view s k"
    using ext by (auto simp: extended_def)
  have u2: "used s2 = used s1" using s2(1) by (rule cache_frame_used)
  have sec: "sec \<notin> set new" "sec \<notin> set (data_sectors s di)" using okD e(5) by auto
  have old: "map (cache_view s2) (data_sectors s di) = map (cache_view s) (data_sectors s di)"
  proof (rule map_cong [OF refl])
    fix k
    assume "k \<in> set (data_sectors s di)"
    then show "cache_view s2 k = cache_view s k" using okD e(5,8) sec s2(2) by auto
  qed
  have "concat (map (cache_view s2) new) = replicate (512 * length new) 0"
    by (rule file_raw_zeros) (use e(7) sec s2(2) in auto)
  then have raw: "file_raw s2 di' = file_raw s di @ replicate (512 * length new) 0"
    unfolding file_raw_def ds e(1) map_append concat_append old by simp
  have lb: "length (file_bytes s di) = nat (ilength di)" by (rule length_file_bytes_ok [OF inv(1) ok])
  have cur: "length (data_sectors s di) = bytes_to_sectors (ilength di)" by (rule length_data_sectors [OF okD(1)])
  have tot: "length (data_sectors s di) + length new = bytes_to_sectors len"
    using length_data_sectors [OF e(2)] e(1,3) by simp
  have wf2: "inode_wf s2 di'" using inode_wf_cong [OF same(3)] e(2) by simp
  have up: "nat x \<le> 512 * bytes_to_sectors x" if "0 \<le> x" "x \<le> 512 * 512" for x
    using that by (simp add: bytes_to_sectors_eq)
  have l2: "0 \<le> len" "len \<le> 512 * 512" using e(2,3) by (auto simp: inode_wf_def)
  let ?z = "512 * bytes_to_sectors (ilength di) - nat (ilength di) + 512 * length new"
  have rawz: "file_raw s2 di' = file_bytes s di @ replicate ?z 0"
    using raw ok by (simp add: file_ok_def replicate_add)
  have z: "?z = nat (len - ilength di) + (512 * bytes_to_sectors len - nat len)"
    using tot cur up [of "ilength di"] up [OF l2] okD(8,9) len by simp
  show fb: "file_bytes s2 di' = file_bytes s di @ replicate (nat (len - ilength di)) 0"
    using len okD(8) by (simp add: file_bytes_def [of s2] rawz e(3) lb z replicate_add take_append) 
  show "file_ok s2 R sec di'"
    unfolding file_ok_def u2 ds
    using wf2 fb rawz z okD e sec R by (auto simp: replicate_add)
  show "file_step s s2 R sec di di'"
    using ext same s2 sec unfolding file_step_def u2 ds
    by (auto simp: extended_def fs_same_def cache_frame_def)
qed

text \<open>Writing a chunk inside a file keeps the file well-formed.\<close>

lemma write_chunk_file:
  assumes inv: "cache_inv s" and ok: "file_ok s R sec di"
    and c: "0 < length bs" "ofs mod 512 + length bs \<le> 512" and fit: "ofs + length bs \<le> nat (ilength di)"
    and wr: "buffer_cache_write s (data_sectors s di ! (ofs div 512)) bs (ofs mod 512) = Inr s'"
  shows "file_ok s' R sec di" "file_step s s' R sec di di"
    "file_bytes s' di = overwrite (file_bytes s di) ofs bs"
proof -
  note okD = file_okD [OF ok]
  note w = file_write_chunk [OF inv okD(1,2) c fit wr]
  note same = cache_frame_fs [OF w(2)]
  note ds = data_sectors_cong [OF same(3)] and wf = inode_wf_cong [OF same(3)]
  show fb: "file_bytes s' di = overwrite (file_bytes s di) ofs bs" by (rule w(4))
  have "ofs + length bs \<le> length (file_bytes s di)"
    using fit length_file_bytes [OF inv okD(1)] by simp
  then have "file_raw s' di = file_bytes s' di
      @ replicate (512 * bytes_to_sectors (ilength di) - nat (ilength di)) 0"
    using w(3) fb ok by (simp add: file_ok_def overwrite_append1)
  then show "file_ok s' R sec di"
    using ok by (simp add: file_ok_def ds wf cache_frame_used [OF w(2)])
  show "file_step s s' R sec di di"
    using w(5) same cache_frame_same [OF w(2)]
    by (auto simp: file_step_def ds cache_frame_used [OF w(2)] fs_same_def)
qed

text \<open>The first iteration writes nothing exactly in the excluded case.\<close>

definition write_stuck :: "int \<Rightarrow> int \<Rightarrow> int \<Rightarrow> bool" where
  "write_stuck len sz offset \<longleftrightarrow> len < offset mod 512 \<and> len + min sz 512 = offset mod 512"

lemma write_chunk_progress:
  assumes len: "0 \<le> len" "len \<le> 512 * 512" and sz: "0 < sz" "sz \<le> 512 * 512" and off: "0 \<le> offset"
    and ok: "\<not> write_stuck len sz offset"
    and len1: "len1 = (if len - offset mod 512 \<le> 0 then len + min sz 512 else len)"
    and c: "c = write_chunk_size (len1 - offset mod 512) sz (offset mod 512)"
  shows "0 < c" "c \<le> sz" "offset mod 512 + c \<le> 512"
proof -
  let ?o = "offset mod 512"
  have o: "0 \<le> ?o" "?o < 512" by simp_all
  have "0 < c \<and> c \<le> sz \<and> ?o + c \<le> 512"
  proof (cases "0 < len1 - ?o")
    case True
    have "c = min sz (min (len1 - ?o) (512 - ?o))"
      unfolding c by (rule write_chunk_size_eq) (use True sz o len len1 in \<open>auto split: if_splits\<close>)
    with True sz o show ?thesis by linarith
  next
    case False
    have neg: "len1 - ?o < 0" "- 512 < len1 - ?o"
      using False ok len sz o len1 by (auto simp: write_stuck_def min_def split: if_splits)
    have "u32_of (len1 - ?o) = len1 - ?o + 2 ^ 32"
    proof -
      have "(len1 - ?o) mod 2 ^ 32 = (len1 - ?o + 2 ^ 32) mod 2 ^ 32" by simp
      also have "\<dots> = len1 - ?o + 2 ^ 32" using neg by (intro mod_pos_pos_trivial) auto
      finally show ?thesis by (simp add: u32_of_def)
    qed
    moreover have "u32_of sz = sz" "u32_of (512 - ?o) = 512 - ?o" using sz o by (auto intro!: u32_of_id)
    ultimately have "c = min sz (512 - ?o)"
      using neg o unfolding c write_chunk_size_def Let_def by auto
    with sz o show ?thesis by linarith
  qed
  then show "0 < c" "c \<le> sz" "?o + c \<le> 512" by blast+
qed

section \<open>The contract\<close>

locale sector_allocator =
  fixes alloc :: alloc and inv :: "fs \<Rightarrow> bool" and meta :: "fs \<Rightarrow> nat set" and prot :: "fs \<Rightarrow> nat \<Rightarrow> bool"
  assumes inv_base: "inv s \<Longrightarrow> base_inv s"
    and alloc_fresh: "inv s \<Longrightarrow> alloc s 1 = Inr (s', Some k) \<Longrightarrow>
      inv s' \<and> fs_same s s' \<and> k \<notin> used s \<and> used s' = insert k (used s) \<and> meta s' = meta s
      \<and> prot s' = prot s \<and> (\<forall>j. j \<notin> meta s \<longrightarrow> cache_view s' j = cache_view s j)"
    and meta_used: "inv s \<Longrightarrow> meta s \<subseteq> used s"
    and inv_cache: "inv s \<Longrightarrow> cache_inv s' \<Longrightarrow> cache_frame s s' \<Longrightarrow>
      (\<forall>k\<in>meta s. cache_view s' k = cache_view s k) \<Longrightarrow> inv s' \<and> meta s' = meta s \<and> prot s' = prot s"
    and inv_arrays: "inv s \<Longrightarrow> a \<noteq> 0 \<Longrightarrow> a \<le> malloc_cnt s \<Longrightarrow>
      inv (s\<lparr>sector_arrays := (sector_arrays s)(a \<mapsto> xs)\<rparr>)
      \<and> meta (s\<lparr>sector_arrays := (sector_arrays s)(a \<mapsto> xs)\<rparr>) = meta s
      \<and> prot (s\<lparr>sector_arrays := (sector_arrays s)(a \<mapsto> xs)\<rparr>) = prot s"
    and inv_inode: "inv s \<Longrightarrow> \<not> prot s p \<Longrightarrow> inv (put_idata s p di)
      \<and> meta (put_idata s p di) = meta s \<and> prot (put_idata s p di) = prot s"
begin

lemma inv_cache_inv: "inv s \<Longrightarrow> cache_inv s"
  using inv_base by (simp add: base_inv_def)

lemma write_keeps:
  assumes "inv s" "k \<notin> meta s" "buffer_cache_write s k bs ofs = Inr s'"
  shows "inv s'" "meta s' = meta s" "prot s' = prot s" "fs_same s s'" "used s' = used s"
    "cache_view s' = (cache_view s)(k := overwrite (cache_view s k) ofs bs)"
proof -
  note w = buffer_cache_write_spec [OF inv_cache_inv [OF assms(1)] assms(3)]
  then show "cache_view s' = (cache_view s)(k := overwrite (cache_view s k) ofs bs)" by simp
  from w show "fs_same s s'" "used s' = used s" using cache_frame_same cache_frame_used by blast+
  show "inv s'" "meta s' = meta s" "prot s' = prot s"
    using inv_cache [OF assms(1), of s'] w assms(2) by auto
qed

lemma grow_array_spec:
  assumes "inv s" "grow_array alloc s arr [a..<b] = Inr (s', arr')"
  shows "\<exists>new. length new = b - a \<and> (a < b \<longrightarrow> b \<le> length arr) \<and> arr' = overwrite arr a new
    \<and> distinct new \<and> set new \<inter> used s = {} \<and> used s' = used s \<union> set new
    \<and> inv s' \<and> fs_same s s' \<and> meta s' = meta s \<and> prot s' = prot s
    \<and> (\<forall>k\<in>set new. cache_view s' k = zero_sector)
    \<and> (\<forall>k. k \<notin> meta s \<and> k \<notin> set new \<longrightarrow> cache_view s' k = cache_view s k)"
  using assms
proof (induction "b - a" arbitrary: s arr a)
  case 0
  then show ?case by (intro exI [of _ "[]"]) auto
next
  case (Suc n)
  then have ab: "a < b" "[a..<b] = a # [Suc a..<b]" by (simp_all add: upt_conv_Cons)
  with Suc.prems obtain s1 k s2 where al: "alloc s 1 = Inr (s1, Some k)" and la: "a < length arr"
    and wr: "buffer_cache_write s1 k zero_sector 0 = Inr s2"
    and rec: "grow_array alloc s2 (arr[a := k]) [Suc a..<b] = Inr (s', arr')"
    by (auto split: option.splits)
  note 1 = alloc_fresh [OF Suc.prems(1) al]
  have k: "k \<notin> meta s" using 1 meta_used [OF Suc.prems(1)] by auto
  note 2 = write_keeps [OF _ _ wr] 
  have 2: "inv s2" "meta s2 = meta s" "prot s2 = prot s" "fs_same s s2" "used s2 = insert k (used s)"
    "cache_view s2 = (cache_view s1)(k := zero_sector)"
    using 2 1 k length_cache_view [OF inv_cache_inv, of s1 k]
    by (auto simp: overwrite_full zero_sector_def intro: fs_same_trans)
  have "n = b - Suc a" using Suc.hyps(2) by simp
  from Suc.hyps(1) [OF this 2(1) rec] obtain new where new: "length new = b - Suc a"
    "Suc a < b \<longrightarrow> b \<le> length (arr[a := k])" "arr' = overwrite (arr[a := k]) (Suc a) new"
    "distinct new" "set new \<inter> used s2 = {}" "used s' = used s2 \<union> set new"
    "inv s'" "fs_same s2 s'" "meta s' = meta s2" "prot s' = prot s2"
    "\<forall>k\<in>set new. cache_view s' k = zero_sector"
    "\<forall>k. k \<notin> meta s2 \<and> k \<notin> set new \<longrightarrow> cache_view s' k = cache_view s2 k"
    by auto
  have "k \<notin> set new" using new(5) 2(5) by auto
  then show ?case
    using new 2 1 la ab k
    by (intro exI [of _ "k # new"]) (auto simp: overwrite_Cons intro: fs_same_trans)
qed

lemma grow_direct_extends:
  assumes inv: "inv s" and wf: "inode_wf s di" and len: "ilength di \<le> len" "len \<le> 512 * 512"
    and n: "bytes_to_sectors len \<le> DIRECT_POINTERS"
    and g: "grow_array alloc s (start di) [bytes_to_sectors (ilength di)..<bytes_to_sectors len] = Inr (s', arr)"
  shows "\<exists>new. extended s s' (meta s) len di (di\<lparr>start := arr, ilength := len\<rparr>) new
    \<and> inv s' \<and> meta s' = meta s \<and> prot s' = prot s"
proof -
  let ?c = "bytes_to_sectors (ilength di)" and ?n = "bytes_to_sectors len"
  have cn: "?c \<le> ?n" using wf len by (intro bytes_to_sectors_mono) (auto simp: inode_wf_def)
  from grow_array_spec [OF inv g] obtain new where new: "length new = ?n - ?c"
    "?c < ?n \<longrightarrow> ?n \<le> length (start di)" "arr = overwrite (start di) ?c new"
    "distinct new" "set new \<inter> used s = {}" "used s' = used s \<union> set new"
    "inv s'" "fs_same s s'" "meta s' = meta s" "prot s' = prot s"
    "\<forall>k\<in>set new. cache_view s' k = zero_sector"
    "\<forall>k. k \<notin> meta s \<and> k \<notin> set new \<longrightarrow> cache_view s' k = cache_view s k" by auto
  have st: "length (start di) = DIRECT_POINTERS" "0 \<le> ilength di" using wf by (auto simp: inode_wf_def)
  have "take ?n arr = take ?c (start di) @ new"
    unfolding new(3) by (rule take_overwrite_end) (use new(1) cn n st in auto)
  then have "data_sectors s' (di\<lparr>start := arr, ilength := len\<rparr>) = data_sectors s di @ new"
    using n cn by (simp add: data_sectors_direct)
  moreover have "indirect di = 0" using wf n cn by (auto simp: inode_wf_def split: if_splits)
  then have "inode_wf s' (di\<lparr>start := arr, ilength := len\<rparr>)"
    using st n cn len new(1,3) by (simp add: inode_wf_def)
  ultimately show ?thesis
    using new by (intro exI [of _ new]) (simp add: extended_def fs_same_def)
qed

lemma kalloc_keeps:
  assumes "inv s" "kalloc s = (s1, r)"
  shows "inv s1" "meta s1 = meta s" "prot s1 = prot s" "used s1 = used s" "cache_view s1 = cache_view s"
    "sector_arrays s1 = sector_arrays s" "fs_same s s1" "malloc_cnt s1 = Suc (malloc_cnt s)"
    "r = Some q \<Longrightarrow> q = Suc (malloc_cnt s)"
proof -
  have s1: "s1 = s\<lparr>malloc_cnt := Suc (malloc_cnt s)\<rparr>" using assms(2) by (simp add: kalloc_def)
  have "cache_inv s1" using inv_cache_inv [OF assms(1)] by (simp add: s1 cache_inv_malloc)
  moreover have "cache_frame s s1" by (simp add: s1 cache_frame_def)
  ultimately show "inv s1" "meta s1 = meta s" "prot s1 = prot s"
    using inv_cache [OF assms(1), of s1] by (auto simp: s1)
  show "used s1 = used s" "cache_view s1 = cache_view s" "sector_arrays s1 = sector_arrays s"
    "fs_same s s1" "malloc_cnt s1 = Suc (malloc_cnt s)"
    by (simp_all add: s1 used_def fs_same_def)
  show "r = Some q \<Longrightarrow> q = Suc (malloc_cnt s)" using assms(2) by (auto simp: kalloc_def split: if_splits)
qed

text \<open>The indirect array \<open>arr\<close> at \<open>q\<close> already holds the current sectors.\<close>

lemma grow_indirect_array:
  assumes inv: "inv s" and arr: "sector_arrays s q = Some arr" "length arr = DISK_SECTOR_SIZE"
    and cur: "take c arr = data_sectors s0 di" "c \<le> bytes_to_sectors len" "length (start di) = DIRECT_POINTERS"
    and len: "0 \<le> len" "len \<le> 512 * 512" and n: "DIRECT_POINTERS < bytes_to_sectors len"
    and g: "grow_array alloc s arr [c..<bytes_to_sectors len] = Inr (s2, arr')"
    and s': "s' = s2\<lparr>sector_arrays := (sector_arrays s2)(q \<mapsto> arr')\<rparr>"
    and s0: "used s = used s0" "cache_view s = cache_view s0" "malloc_cnt s0 \<le> malloc_cnt s"
      "fs_same s0 (s\<lparr>sector_arrays := sector_arrays s0\<rparr>)"
      "\<forall>a. a \<le> malloc_cnt s0 \<and> a \<noteq> q \<longrightarrow> sector_arrays s a = sector_arrays s0 a"
      "q = indirect di \<or> malloc_cnt s0 < q"
    and di': "di' = di\<lparr>indirect := q, ilength := len\<rparr>"
  shows "\<exists>new. extended s0 s' (meta s) len di di' new \<and> inv s' \<and> meta s' = meta s \<and> prot s' = prot s"
proof -
  let ?n = "bytes_to_sectors len"
  from grow_array_spec [OF inv g] obtain new where new: "length new = ?n - c"
    "arr' = overwrite arr c new" "distinct new" "set new \<inter> used s = {}" "used s2 = used s \<union> set new"
    "inv s2" "fs_same s s2" "meta s2 = meta s" "prot s2 = prot s"
    "\<forall>k\<in>set new. cache_view s2 k = zero_sector"
    "\<forall>k. k \<notin> meta s \<and> k \<notin> set new \<longrightarrow> cache_view s2 k = cache_view s k" by auto
  have n512: "?n \<le> DISK_SECTOR_SIZE" using len by (simp add: bytes_to_sectors_eq DISK_SECTOR_SIZE_def)
  have q: "q \<noteq> 0" "q \<le> malloc_cnt s2"
    using inv_base [OF inv] arr(1) new(7) by (auto simp: base_inv_def fs_same_def dom_def)
  have "take ?n arr' = data_sectors s0 di @ new"
    unfolding new(2) cur(1) [symmetric] by (rule take_overwrite_end) (use new(1) cur n512 arr in auto)
  then have ds: "data_sectors s' di' = data_sectors s0 di @ new"
    using n by (simp add: di' s' data_sectors_indirect [of _ _ arr'])
  have "length arr' = DISK_SECTOR_SIZE" using new(1,2) cur(2) n512 arr(2) by simp
  then have wf: "inode_wf s' di'"
    using len n cur(3) by (simp add: inode_wf_def di' s')
  have "extended s0 s' (meta s) len di di' new"
    unfolding extended_def
  proof (intro conjI)
    show "fs_same s0 (s'\<lparr>sector_arrays := sector_arrays s0\<rparr>)"
      using s0(4) new(7) by (auto simp: fs_same_def s')
    show "\<forall>a. a \<le> malloc_cnt s0 \<and> a \<noteq> indirect di \<longrightarrow> sector_arrays s' a = sector_arrays s0 a"
      using s0(5,6) new(7) by (auto simp: fs_same_def s')
  qed (use ds wf new s0(1,2,6) in \<open>simp_all add: s' di'\<close>)
  moreover have "inv s' \<and> meta s' = meta s \<and> prot s' = prot s"
    using inv_arrays [OF new(6) q, of arr'] new(8,9) by (simp add: s')
  ultimately show ?thesis by blast
qed

lemma grow_indirect_extends:
  assumes inv: "inv s" and wf: "inode_wf s di" and len: "ilength di \<le> len" "len \<le> 512 * 512"
    and n: "DIRECT_POINTERS < bytes_to_sectors len"
    and g: "grow_indirect alloc s di (bytes_to_sectors (ilength di)) (bytes_to_sectors len) = Inr (s', di1)"
  shows "\<exists>new. extended s s' (meta s) len di (di1\<lparr>ilength := len\<rparr>) new
    \<and> inv s' \<and> meta s' = meta s \<and> prot s' = prot s"
proof -
  let ?c = "bytes_to_sectors (ilength di)" and ?n = "bytes_to_sectors len"
  have st: "length (start di) = DIRECT_POINTERS" "0 \<le> ilength di" using wf by (auto simp: inode_wf_def)
  then have cn: "?c \<le> ?n" using len by (intro bytes_to_sectors_mono) auto
  show ?thesis
  proof (cases "indirect di = 0")
    case True
    have c: "?c \<le> DIRECT_POINTERS"
    proof (rule ccontr)
      assume "\<not> ?thesis"
      then obtain arr where "sector_arrays s 0 = Some arr" using wf True by (auto simp: inode_wf_def)
      then show False using inv_base [OF inv] by (auto simp: base_inv_def dom_def)
    qed
    obtain s1 r where k: "kalloc s = (s1, r)" by (cases "kalloc s")
    define arr where "arr = overwrite (replicate DISK_SECTOR_SIZE 0) 0 (take ?c (start di))"
    from g True k obtain q s2 arr' where r: "r = Some q" and
      ga: "grow_array alloc (s1\<lparr>sector_arrays := (sector_arrays s1)(q \<mapsto> arr)\<rparr>) arr [?c..<?n] = Inr (s2, arr')"
      and s': "s' = s2\<lparr>sector_arrays := (sector_arrays s2)(q \<mapsto> arr')\<rparr>" and di1: "di1 = di\<lparr>indirect := q\<rparr>"
      by (cases r) (auto simp: grow_indirect_def get_array_def arr_def rguard_def split: option.splits if_splits)
    note 1 = kalloc_keeps [OF inv k]
    have q: "q = Suc (malloc_cnt s)" using 1(9) r by simp
    define s1a where "s1a = s1\<lparr>sector_arrays := (sector_arrays s1)(q \<mapsto> arr)\<rparr>"
    have a: "inv s1a \<and> meta s1a = meta s1 \<and> prot s1a = prot s1"
      unfolding s1a_def by (rule inv_arrays) (use 1 q in auto)
    have larr: "length arr = DISK_SECTOR_SIZE" "take ?c arr = take ?c (start di)"
      using c st by (simp_all add: arr_def overwrite_def DIRECT_POINTERS_def DISK_SECTOR_SIZE_def)
    have "\<exists>new. extended s s' (meta s1a) len di (di1\<lparr>ilength := len\<rparr>) new
        \<and> inv s' \<and> meta s' = meta s1a \<and> prot s' = prot s1a"
    proof (rule grow_indirect_array [where q = q and arr = arr and c = ?c])
      show "take ?c arr = data_sectors s di" using larr c by (simp add: data_sectors_direct)
      show "grow_array alloc s1a arr [?c..<?n] = Inr (s2, arr')" using ga by (simp add: s1a_def)
    qed (use a larr cn st len n s' di1 1 q in \<open>auto simp: s1a_def fs_same_def\<close>)
    with a 1 show ?thesis by simp
  next
    case False
    with wf obtain arr where arr: "sector_arrays s (indirect di) = Some arr" "length arr = DISK_SECTOR_SIZE"
      and c: "\<not> ?c \<le> DIRECT_POINTERS" by (auto simp: inode_wf_def split: if_splits)
    from g False arr obtain s2 arr' where ga: "grow_array alloc s arr [?c..<?n] = Inr (s2, arr')"
      and s': "s' = s2\<lparr>sector_arrays := (sector_arrays s2)(indirect di \<mapsto> arr')\<rparr>" and di1: "di1 = di"
      by (auto simp: grow_indirect_def get_array_def)
    show ?thesis
      by (rule grow_indirect_array [OF inv arr _ cn st(1) _ len(2) n ga s'])
        (use arr c st len di1 in \<open>auto simp: data_sectors_indirect\<close>)
  qed
qed

lemma inode_grow_spec:
  assumes inv: "inv s" and ok: "file_ok s (meta s) sec di" and len: "len \<le> 512 * 512"
    and g: "inode_grow alloc s sec di len = Inr (s', di', b)"
  shows "b" "inv s'" "meta s' = meta s" "prot s' = prot s" "inodes s' = inodes s"
    "file_ok s' (meta s) sec di'" "file_step s s' (meta s) sec di di'"
    "ilength di' = max (ilength di) len"
    "file_bytes s' di' = file_bytes s di @ replicate (nat (len - ilength di)) 0"
    "ilength di < len \<Longrightarrow> cache_view s' sec = inode_disk_bytes di'"
proof -
  have "b \<and> inv s' \<and> meta s' = meta s \<and> prot s' = prot s \<and> inodes s' = inodes s
    \<and> file_ok s' (meta s) sec di' \<and> file_step s s' (meta s) sec di di' \<and> ilength di' = max (ilength di) len
    \<and> file_bytes s' di' = file_bytes s di @ replicate (nat (len - ilength di)) 0
    \<and> (ilength di < len \<longrightarrow> cache_view s' sec = inode_disk_bytes di')"
  proof (cases "len \<le> ilength di")
    case True
    with g have "s' = s" "di' = di" "b" by (auto simp: inode_grow_def)
    with True inv ok show ?thesis by simp
  next
    case False
    then have lt: "ilength di < len" by simp
    note okD = file_okD [OF ok]
    have n512: "bytes_to_sectors len \<le> DISK_SECTOR_SIZE"
      using len lt okD(8) by (simp add: bytes_to_sectors_eq DISK_SECTOR_SIZE_def)
    from g False n512 obtain s1 di1 where
      s1: "if bytes_to_sectors len \<le> DIRECT_POINTERS
           then \<exists>arr. grow_array alloc s (start di) [bytes_to_sectors (ilength di)..<bytes_to_sectors len]
                  = Inr (s1, arr) \<and> di1 = di\<lparr>start := arr\<rparr>
           else grow_indirect alloc s di (bytes_to_sectors (ilength di)) (bytes_to_sectors len) = Inr (s1, di1)"
      and wr: "buffer_cache_write s1 sec (inode_disk_bytes (di1\<lparr>ilength := len\<rparr>)) 0 = Inr s'"
      and di': "di' = di1\<lparr>ilength := len\<rparr>" and b: "b"
      by (auto simp: inode_grow_def Let_def split: if_splits)
    have "\<exists>new. extended s s1 (meta s) len di di' new \<and> inv s1 \<and> meta s1 = meta s \<and> prot s1 = prot s"
    proof (cases "bytes_to_sectors len \<le> DIRECT_POINTERS")
      case True
      with s1 di' lt len grow_direct_extends [OF inv okD(1), of len s1] show ?thesis by auto
    next
      case False
      with s1 di' lt len grow_indirect_extends [OF inv okD(1), of len s1 di1] show ?thesis by auto
    qed
    then obtain new where ext: "extended s s1 (meta s) len di di' new"
      and 1: "inv s1" "meta s1 = meta s" "prot s1 = prot s" by blast
    have sec: "sec \<notin> meta s1" using okD(5) 1 by simp
    note w = write_keeps [OF 1(1) sec wr]
    note fr = buffer_cache_write_spec [OF inv_cache_inv [OF 1(1)] wr]
    have "length (inode_disk_bytes di') = DISK_SECTOR_SIZE"
      using ext by (simp add: extended_def inode_wf_def)
    then have full: "cache_view s' sec = inode_disk_bytes di'"
      using w(6) length_cache_view [OF inv_cache_inv [OF 1(1)], of sec] by (simp add: di' overwrite_full)
    from fr have frame: "cache_frame s1 s'"
      and view: "cache_view s' = (cache_view s1)(sec := overwrite (cache_view s1 sec) 0 (inode_disk_bytes di'))"
      by (simp_all add: di')
    note ef = extended_file [OF inv_cache_inv [OF inv] inv_cache_inv [OF 1(1)] ok ext less_imp_le [OF lt]
        meta_used [OF inv] frame view]
    have "inodes s' = inodes s" "ilength di' = len"
      using ext cache_frame_fs(1) [OF frame] by (auto simp: extended_def fs_same_def)
    with ef w 1 b full lt show ?thesis by simp
  qed
  then show "b" "inv s'" "meta s' = meta s" "prot s' = prot s" "inodes s' = inodes s"
    "file_ok s' (meta s) sec di'" "file_step s s' (meta s) sec di di'"
    "ilength di' = max (ilength di) len"
    "file_bytes s' di' = file_bytes s di @ replicate (nat (len - ilength di)) 0"
    "ilength di < len \<Longrightarrow> cache_view s' sec = inode_disk_bytes di'" by blast+
qed

text \<open>The state of one open file, as the operations on it see it.\<close>

definition file_open_ok :: "fs \<Rightarrow> nat set \<Rightarrow> (nat \<Rightarrow> bool) \<Rightarrow> nat \<Rightarrow> inode \<Rightarrow> bool" where
  "file_open_ok s R P p i \<longleftrightarrow> inv s \<and> meta s = R \<and> prot s = P \<and> \<not> P p \<and> inodes s p = Some i
     \<and> file_ok s R (sector i) (idata i)"

lemma inode_grow_open_spec:
  assumes ok: "file_open_ok s R P p i" and len: "len \<le> 512 * 512"
    and g: "inode_grow_open alloc s p len = Inr s'"
  shows "\<exists>di. file_open_ok s' R P p (i\<lparr>idata := di\<rparr>) \<and> inodes s' = (inodes s)(p \<mapsto> i\<lparr>idata := di\<rparr>)
    \<and> file_step s s' R (sector i) (idata i) di \<and> ilength di = max (ilength (idata i)) len
    \<and> file_bytes s' di = file_bytes s (idata i) @ replicate (nat (len - ilength (idata i))) 0"
proof -
  from ok g obtain s1 di b where g1: "inode_grow alloc s (sector i) (idata i) len = Inr (s1, di, b)"
    and s': "s' = put_idata s1 p di"
    by (auto simp: inode_grow_open_def file_open_ok_def get_inode_def)
  from ok have inv: "inv s" and m: "meta s = R" "prot s = P" and fok: "file_ok s (meta s) (sector i) (idata i)"
    and i: "inodes s p = Some i" "\<not> P p"
    by (auto simp: file_open_ok_def)
  note gr = inode_grow_spec [OF inv fok len g1]
  have "inv s' \<and> meta s' = R \<and> prot s' = P"
    unfolding s' using inv_inode [of s1 p di] gr(2-4) m i by simp
  moreover have ino: "inodes s' = (inodes s)(p \<mapsto> i\<lparr>idata := di\<rparr>)"
    using gr(5) i by (simp add: s' put_idata_def)
  ultimately show ?thesis
    using gr m i by (intro exI [of _ di]) (simp add: file_open_ok_def s' put_idata_def)
qed

lemma byte_to_sector_grown:
  assumes ok: "file_open_ok s R P p i" and pos: "0 < pos" "pos \<le> 512 * 512"
    and g: "inode_grow_open alloc s p pos = Inr s'"
  shows "\<exists>di. file_open_ok s' R P p (i\<lparr>idata := di\<rparr>) \<and> inodes s' = (inodes s)(p \<mapsto> i\<lparr>idata := di\<rparr>)
    \<and> file_step s s' R (sector i) (idata i) di \<and> ilength di = max (ilength (idata i)) pos
    \<and> file_bytes s' di = file_bytes s (idata i) @ replicate (nat (pos - ilength (idata i))) 0
    \<and> byte_to_sector alloc s p pos = Inr (s', data_sectors s' di ! ((nat pos - 1) div 512))"
proof -
  from inode_grow_open_spec [OF ok pos(2) g] obtain di where
    di: "file_open_ok s' R P p (i\<lparr>idata := di\<rparr>)" "inodes s' = (inodes s)(p \<mapsto> i\<lparr>idata := di\<rparr>)"
      "file_step s s' R (sector i) (idata i) di" "ilength di = max (ilength (idata i)) pos"
      "file_bytes s' di = file_bytes s (idata i) @ replicate (nat (pos - ilength (idata i))) 0" by blast
  have i: "inodes s' p = Some (i\<lparr>idata := di\<rparr>)" using di(2) by simp
  have "inode_grow_open alloc s' p pos = Inr s'"
    using i di(4) put_idata_self [OF i] by (simp add: inode_grow_open_def get_inode_def inode_grow_def)
  then have "byte_to_sector alloc s p pos = byte_to_sector alloc s' p pos"
    using g by (simp add: byte_to_sector_def)
  moreover have "byte_to_sector alloc s' p pos = Inr (s', data_sectors s' di ! ((nat pos - 1) div 512))"
    using byte_to_sector_inside(1) [OF i, of pos alloc] di(1,4) pos(1)
    by (auto simp: file_open_ok_def dest: file_okD)
  ultimately show ?thesis using di by auto
qed

lemma byte_to_sector_spec:
  assumes ok: "file_open_ok s R P p i" and pos: "0 < pos" "pos \<le> 512 * 512"
    and b: "byte_to_sector alloc s p pos = Inr (s', k)"
  shows "\<exists>di. file_open_ok s' R P p (i\<lparr>idata := di\<rparr>) \<and> inodes s' = (inodes s)(p \<mapsto> i\<lparr>idata := di\<rparr>)
    \<and> file_step s s' R (sector i) (idata i) di \<and> ilength di = max (ilength (idata i)) pos
    \<and> file_bytes s' di = file_bytes s (idata i) @ replicate (nat (pos - ilength (idata i))) 0
    \<and> k = data_sectors s' di ! ((nat pos - 1) div 512)"
proof -
  from b obtain s1 where g: "inode_grow_open alloc s p pos = Inr s1"
    by (auto simp: byte_to_sector_def)
  from byte_to_sector_grown [OF ok pos g] b show ?thesis by auto
qed

lemma write_grow_spec:
  assumes ok: "file_open_ok s R P p i" and sz: "0 < sz" "offset + sz \<le> 512 * 512" and off: "0 \<le> offset"
    and g: "write_grow alloc s p sz (offset mod 512) = Inr s'"
  shows "\<exists>di. file_open_ok s' R P p (i\<lparr>idata := di\<rparr>) \<and> inodes s' = (inodes s)(p \<mapsto> i\<lparr>idata := di\<rparr>)
    \<and> file_step s s' R (sector i) (idata i) di
    \<and> ilength di = (if ilength (idata i) - offset mod 512 \<le> 0 then ilength (idata i) + min sz 512
                    else ilength (idata i))
    \<and> file_bytes s' di = file_bytes s (idata i) @ replicate (nat (ilength di - ilength (idata i))) 0"
proof -
  let ?len = "ilength (idata i)" and ?o = "offset mod 512"
  have i: "inodes s p = Some i" and len: "0 \<le> ?len" "?len \<le> 512 * 512"
    using ok by (auto simp: file_open_ok_def dest: file_okD)
  have o: "0 \<le> ?o" "?o < 512" "?o \<le> offset" using off by (simp_all add: zmod_le_nonneg_dividend)
  have s32: "s32_of (?len - ?o) = ?len - ?o" by (rule s32_of_lit) (use len o in linarith)+
  show ?thesis
  proof (cases "?len - ?o \<le> 0")
    case True
    have m: "(if sz < 512 then sz else 512) = min sz 512" by simp
    have s32': "s32_of (?len + min sz 512) = ?len + min sz 512"
      by (rule s32_of_lit) (use len sz in linarith)+
    from g True i s32 have gr: "inode_grow_open alloc s p (?len + min sz 512) = Inr s'"
      by (simp add: write_grow_def get_inode_def inode_length_def m s32')
    have "?len + min sz 512 \<le> 512 * 512" using True o sz by linarith
    from inode_grow_open_spec [OF ok this gr] sz True show ?thesis by force
  next
    case False
    with g i s32 have "s' = s" by (simp add: write_grow_def get_inode_def inode_length_def)
    with ok False i show ?thesis by (intro exI [of _ "idata i"]) (simp add: fun_upd_idem)
  qed
qed

lemma inode_write_iter:
  assumes ok: "file_open_ok s R P p i" and sz: "0 < sz" "offset + sz \<le> 512 * 512" and off: "0 \<le> offset"
    and prog: "\<not> write_stuck (ilength (idata i)) sz offset"
    and bw: "0 \<le> bw" "nat bw + nat sz \<le> length buf"
    and g: "write_grow alloc s p sz (offset mod 512) = Inr sg" and gi: "get_inode sg p = Inr ig"
    and c_def: "c = write_chunk_size (s32_of (inode_length ig - offset mod 512)) sz (offset mod 512)"
    and bts: "byte_to_sector alloc sg p (s32_of (offset + c)) = Inr (s2, k)"
    and wr: "buffer_cache_write s2 k (take (nat c) (drop (nat bw) buf)) (nat (offset mod 512)) = Inr s1"
  shows "\<exists>di. inode_write_loop alloc s p buf sz offset bw
        = inode_write_loop alloc s1 p buf (sz - c) (offset + c) (bw + c)
    \<and> 0 < c \<and> c \<le> sz \<and> file_open_ok s1 R P p (i\<lparr>idata := di\<rparr>)
    \<and> inodes s1 = (inodes s)(p \<mapsto> i\<lparr>idata := di\<rparr>) \<and> file_step s s1 R (sector i) (idata i) di
    \<and> ilength (idata i) \<le> ilength di \<and> offset + c \<le> ilength di
    \<and> ilength di \<le> max (ilength (idata i)) (offset + sz)
    \<and> file_bytes s1 di = overwrite (file_bytes s (idata i) @ replicate (nat (ilength di - ilength (idata i))) 0)
        (nat offset) (take (nat c) (drop (nat bw) buf))"
proof -
  let ?len = "ilength (idata i)" and ?o = "offset mod 512"
  have len: "0 \<le> ?len" "?len \<le> 512 * 512" using ok by (auto simp: file_open_ok_def dest: file_okD)
  have o: "0 \<le> ?o" "?o < 512" "?o \<le> offset" "nat ?o = nat offset mod 512"
    using off by (simp_all add: zmod_le_nonneg_dividend nat_mod_distrib)
  from write_grow_spec [OF ok sz off g] obtain d1 where
    d1: "file_open_ok sg R P p (i\<lparr>idata := d1\<rparr>)" "inodes sg = (inodes s)(p \<mapsto> i\<lparr>idata := d1\<rparr>)"
      "file_step s sg R (sector i) (idata i) d1"
      "ilength d1 = (if ?len - ?o \<le> 0 then ?len + min sz 512 else ?len)"
      "file_bytes sg d1 = file_bytes s (idata i) @ replicate (nat (ilength d1 - ?len)) 0" by blast
  have i1: "inodes sg p = Some (i\<lparr>idata := d1\<rparr>)" using d1(2) by simp
  then have ig: "ig = i\<lparr>idata := d1\<rparr>" using gi by (simp add: get_inode_def)
  have l1: "?len \<le> ilength d1" "ilength d1 \<le> max ?len (offset + sz)" "0 \<le> ilength d1" "ilength d1 \<le> 512 * 512"
    using d1(4) len sz o by (auto split: if_splits)
  have s32d: "s32_of (ilength d1 - ?o) = ilength d1 - ?o"
    by (rule s32_of_lit; use o l1 off sz in linarith)
  have c_eq: "c = write_chunk_size (ilength d1 - ?o) sz ?o" by (simp add: c_def ig inode_length_def s32d)
  have sz2: "sz \<le> 512 * 512" using sz off by linarith
  note c = write_chunk_progress [OF len sz(1) sz2 off prog d1(4) c_eq]
  have s32: "s32_of (offset + c) = offset + c"
    by (rule s32_of_lit; use c o off sz in linarith)
  have bwc: "nat bw + nat c \<le> length buf" using bw c by linarith
  have rec: "inode_write_loop alloc s p buf sz offset bw
      = inode_write_loop alloc s1 p buf (sz - c) (offset + c) (bw + c)"
    using sz off g gi s32 c bw bwc bts wr
    by (subst inode_write_loop.simps) (simp add: smod_nonneg Let_def flip: c_def)
  have pos: "0 < offset + c" "offset + c \<le> 512 * 512" using c off sz by linarith+
  from byte_to_sector_spec [OF d1(1) pos bts [unfolded s32]] obtain d2 where
    d2: "file_open_ok s2 R P p (i\<lparr>idata := d2\<rparr>)" "inodes s2 = (inodes sg)(p \<mapsto> i\<lparr>idata := d2\<rparr>)"
      "file_step sg s2 R (sector i) d1 d2" "ilength d2 = max (ilength d1) (offset + c)"
      "file_bytes s2 d2 = file_bytes sg d1 @ replicate (nat (offset + c - ilength d1)) 0"
      "k = data_sectors s2 d2 ! ((nat (offset + c) - 1) div 512)" by auto
  have ok2: "inv s2" "meta s2 = R" "prot s2 = P" "file_ok s2 R (sector i) d2"
    using d2(1) by (auto simp: file_open_ok_def)
  define bs where "bs = take (nat c) (drop (nat bw) buf)"
  have lbs: "length bs = nat c" using bwc by (simp add: bs_def)
  have nat_c: "nat (offset + c) = nat offset + nat c" using c off by simp
  have fit: "0 < length bs" "nat offset mod 512 + length bs \<le> 512" "nat offset + length bs \<le> nat (ilength d2)"
    using c o d2(4) off by (simp_all add: lbs flip: o(4) nat_c)
  note chunk = file_chunk(2,3) [OF inv_cache_inv [OF ok2(1)] file_okD(1) [OF ok2(4)] fit]
  have k: "k = data_sectors s2 d2 ! (nat offset div 512)" using d2(6) chunk(2) by (simp add: nat_c lbs)
  note wf = write_chunk_file [OF inv_cache_inv [OF ok2(1)] ok2(4) fit wr [unfolded k o(4) bs_def [symmetric]]]
  have "k \<notin> meta s2" using k chunk(1) file_okD(7) [OF ok2(4)] ok2(2) by (auto dest: nth_mem)
  note wk = write_keeps [OF ok2(1) this wr]
  have ino: "inodes s1 = (inodes s)(p \<mapsto> i\<lparr>idata := d2\<rparr>)" using wk(4) d2(2) d1(2) by (simp add: fs_same_def)
  have "file_open_ok s1 R P p (i\<lparr>idata := d2\<rparr>)"
    using wk(1-3) ok2 d1(1) ino wf(1) by (simp add: file_open_ok_def)
  moreover have "file_step s s1 R (sector i) (idata i) d2"
    using d1(3) d2(3) wf(2) by (blast intro: file_step_trans)
  moreover have "file_bytes s1 d2 = overwrite (file_bytes s (idata i) @ replicate (nat (ilength d2 - ?len)) 0) (nat offset) bs"
  proof -
    have "nat (ilength d2 - ?len) = nat (ilength d1 - ?len) + nat (offset + c - ilength d1)"
      using d2(4) l1 by linarith
    then show ?thesis using wf(3) d2(5) d1(5) by (simp add: replicate_add)
  qed
  ultimately show ?thesis
    using rec c ino d2(4) l1
    by (intro exI [of _ d2]) (auto simp: bs_def)
qed

lemma inode_write_step:
  assumes ok: "file_open_ok s R P p i" and sz: "0 < sz" "offset + sz \<le> 512 * 512" and off: "0 \<le> offset"
    and prog: "\<not> write_stuck (ilength (idata i)) sz offset"
    and bw: "0 \<le> bw" "nat bw + nat sz \<le> length buf"
    and w: "inode_write_loop alloc s p buf sz offset bw = Inr r"
  shows "\<exists>s1 di c. inode_write_loop alloc s1 p buf (sz - c) (offset + c) (bw + c) = Inr r
    \<and> 0 < c \<and> c \<le> sz \<and> file_open_ok s1 R P p (i\<lparr>idata := di\<rparr>)
    \<and> inodes s1 = (inodes s)(p \<mapsto> i\<lparr>idata := di\<rparr>) \<and> file_step s s1 R (sector i) (idata i) di
    \<and> ilength (idata i) \<le> ilength di \<and> offset + c \<le> ilength di
    \<and> ilength di \<le> max (ilength (idata i)) (offset + sz)
    \<and> file_bytes s1 di = overwrite (file_bytes s (idata i) @ replicate (nat (ilength di - ilength (idata i))) 0)
        (nat offset) (take (nat c) (drop (nat bw) buf))"
proof -
  let ?o = "offset mod 512"
  from w sz off obtain sg ig where g: "write_grow alloc s p sz ?o = Inr sg" and gi: "get_inode sg p = Inr ig"
    by (subst (asm) inode_write_loop.simps) (auto simp: smod_nonneg Let_def)
  define c where "c = write_chunk_size (s32_of (inode_length ig - ?o)) sz ?o"
  from write_grow_spec [OF ok sz off g] obtain d1 where d1: "inodes sg p = Some (i\<lparr>idata := d1\<rparr>)"
      "ilength d1 = (if ilength (idata i) - ?o \<le> 0 then ilength (idata i) + min sz 512 else ilength (idata i))"
    by auto
  have len: "0 \<le> ilength (idata i)" "ilength (idata i) \<le> 512 * 512"
    using ok by (auto simp: file_open_ok_def dest: file_okD)
  have "s32_of (ilength d1 - ?o) = ilength d1 - ?o"
    by (rule s32_of_lit) (use d1(2) len sz in \<open>auto split: if_splits intro: order_trans [of _ 0]\<close>)
  moreover have "idata ig = d1" using d1(1) gi by (auto simp: get_inode_def)
  ultimately have c_eq: "c = write_chunk_size (ilength d1 - ?o) sz ?o"
    by (simp add: c_def inode_length_def)
  have "sz \<le> 512 * 512" using sz off by linarith
  note cp = write_chunk_progress [OF len sz(1) this off prog d1(2) c_eq]
  from w obtain s2 k s1 where bts: "byte_to_sector alloc sg p (s32_of (offset + c)) = Inr (s2, k)"
    and wr: "buffer_cache_write s2 k (take (nat c) (drop (nat bw) buf)) (nat ?o) = Inr s1"
    using sz off g gi cp
    by (subst (asm) inode_write_loop.simps) (auto simp: smod_nonneg Let_def simp flip: c_def)
  from inode_write_iter [OF ok sz off prog bw g gi c_def bts wr] w show ?thesis by metis
qed


lemma inode_write_loop_spec:
  assumes "file_open_ok s R P p i" "0 \<le> sz" "offset + sz \<le> 512 * 512" "0 \<le> offset"
    and "\<not> write_stuck (ilength (idata i)) sz offset"
    and "0 \<le> bw" "nat bw + nat sz \<le> length buf"
    and "inode_write_loop alloc s p buf sz offset bw = Inr r"
    and "L = (if sz = 0 then ilength (idata i) else max (ilength (idata i)) (offset + sz))"
  shows "\<exists>s' di. r = (s', bw + sz) \<and> file_open_ok s' R P p (i\<lparr>idata := di\<rparr>)
    \<and> inodes s' = (inodes s)(p \<mapsto> i\<lparr>idata := di\<rparr>) \<and> file_step s s' R (sector i) (idata i) di
    \<and> ilength di = L
    \<and> file_bytes s' di = overwrite (file_bytes s (idata i) @ replicate (nat (L - ilength (idata i))) 0)
        (nat offset) (take (nat sz) (drop (nat bw) buf))"
  using assms
proof (induction "nat sz" arbitrary: s i sz offset bw L rule: less_induct)
  case less
  let ?len = "ilength (idata i)"
  show ?case
  proof (cases "sz = 0")
    case True
    with less.prems(8) have "r = (s, bw)" by (subst (asm) inode_write_loop.simps) simp
    moreover have "inodes s p = Some i" using less.prems(1) by (simp add: file_open_ok_def)
    ultimately show ?thesis
      using True less.prems(1,9) by (intro exI [of _ s] exI [of _ "idata i"]) (simp add: fun_upd_idem)
  next
    case False
    then have sz: "0 < sz" using less.prems(2) by simp
    from inode_write_step [OF less.prems(1) sz less.prems(3-8)] obtain s1 di c where
      rec: "inode_write_loop alloc s1 p buf (sz - c) (offset + c) (bw + c) = Inr r"
      and c: "0 < c" "c \<le> sz" and ok1: "file_open_ok s1 R P p (i\<lparr>idata := di\<rparr>)"
      and ino: "inodes s1 = (inodes s)(p \<mapsto> i\<lparr>idata := di\<rparr>)"
      and st: "file_step s s1 R (sector i) (idata i) di"
      and l: "?len \<le> ilength di" "offset + c \<le> ilength di" "ilength di \<le> max ?len (offset + sz)"
      and fb: "file_bytes s1 di = overwrite (file_bytes s (idata i) @ replicate (nat (ilength di - ?len)) 0)
        (nat offset) (take (nat c) (drop (nat bw) buf))" by blast
    have n: "nat (sz - c) = nat sz - nat c" "nat (offset + c) = nat offset + nat c" "nat (bw + c) = nat bw + nat c"
      using c less.prems(4,6) by (simp_all add: nat_diff_distrib)
    have L: "L = (if sz - c = 0 then ilength di else max (ilength di) (offset + c + (sz - c)))"
      using less.prems(9) sz l by auto
    have "\<not> write_stuck (ilength di) (sz - c) (offset + c)"
    proof -
      have "(offset + c) mod 512 \<le> offset + c" using less.prems(4) c by (simp add: zmod_le_nonneg_dividend)
      then show ?thesis using l(2) by (simp add: write_stuck_def)
    qed
    moreover have "nat bw + nat c + (nat sz - nat c) \<le> length buf" using less.prems(7) c by linarith
    ultimately have "\<exists>s' d2. r = (s', bw + c + (sz - c)) \<and> file_open_ok s' R P p ((i\<lparr>idata := di\<rparr>)\<lparr>idata := d2\<rparr>)
      \<and> inodes s' = (inodes s1)(p \<mapsto> (i\<lparr>idata := di\<rparr>)\<lparr>idata := d2\<rparr>)
      \<and> file_step s1 s' R (sector (i\<lparr>idata := di\<rparr>)) (idata (i\<lparr>idata := di\<rparr>)) d2 \<and> ilength d2 = L
      \<and> file_bytes s' d2 = overwrite (file_bytes s1 (idata (i\<lparr>idata := di\<rparr>))
            @ replicate (nat (L - ilength (idata (i\<lparr>idata := di\<rparr>)))) 0)
          (nat (offset + c)) (take (nat (sz - c)) (drop (nat (bw + c)) buf))"
      using c less.prems(3,4,6,7) rec ok1 L n by (intro less.hyps) auto
    then obtain s' d2 where r: "r = (s', bw + sz)" "file_open_ok s' R P p (i\<lparr>idata := d2\<rparr>)"
      "inodes s' = (inodes s)(p \<mapsto> i\<lparr>idata := d2\<rparr>)" "file_step s1 s' R (sector i) di d2" "ilength d2 = L"
      and fb2: "file_bytes s' d2 = overwrite (file_bytes s1 di @ replicate (nat (L - ilength di)) 0)
          (nat offset + nat c) (take (nat sz - nat c) (drop (nat bw + nat c) buf))"
      using ino n by auto
    have inv: "cache_inv s" "file_ok s R (sector i) (idata i)"
      using less.prems(1) inv_cache_inv by (auto simp: file_open_ok_def)
    let ?z = "\<lambda>l. file_bytes s (idata i) @ replicate (nat (l - ?len)) (0 :: byte)"
    have m: "nat c \<le> length (drop (nat bw) buf)" using less.prems(7) c by simp
    have lz: "length (?z l) = nat l" if "?len \<le> l" for l
      using that length_file_bytes_ok [OF inv] file_okD(8) [OF inv(2)] by simp
    have ld: "length (take (nat c) (drop (nat bw) buf)) = nat c" using m by simp
    have Lge: "ilength di \<le> L" using L by auto
    have "nat (L - ?len) = nat (ilength di - ?len) + nat (L - ilength di)" using l(1) Lge by linarith
    then have "?z L = ?z (ilength di) @ replicate (nat (L - ilength di)) 0" by (simp add: replicate_add)
    moreover have "nat offset + length (take (nat c) (drop (nat bw) buf)) \<le> length (?z (ilength di))"
      unfolding lz [OF l(1)] ld using l(2) less.prems(4) c by linarith
    ultimately have "file_bytes s1 di @ replicate (nat (L - ilength di)) 0
        = overwrite (?z L) (nat offset) (take (nat c) (drop (nat bw) buf))"
      by (simp only: fb overwrite_append1)
    moreover have "nat offset + nat c + (nat sz - nat c) \<le> length (?z L)"
    proof -
      have "offset + sz \<le> L" using L l(2) by (auto split: if_splits)
      then show ?thesis unfolding lz [OF order_trans [OF l(1) Lge]] using c less.prems(4) by linarith
    qed
    ultimately have "file_bytes s' d2 = overwrite (?z L) (nat offset) (take (nat c + (nat sz - nat c)) (drop (nat bw) buf))"
      using overwrite_take_add [OF m, of "nat offset" "nat sz - nat c" "?z L"] fb2 by (simp add: add.commute)
    moreover have "nat c + (nat sz - nat c) = nat sz" using c by simp
    ultimately show ?thesis using r file_step_trans [OF st r(4)] by auto
  qed
qed

lemma inode_write_at_spec:
  assumes ok: "file_open_ok s R P p i" and sz: "0 < sz" "offset + sz \<le> 512 * 512" "0 \<le> offset"
    and "nat sz \<le> length buf" and dw: "deny_write_cnt i = 0"
    and st: "\<not> write_stuck (ilength (idata i)) sz offset"
    and w: "inode_write_at alloc s p buf sz offset = Inr (s', n)"
  shows "n = sz \<and> (\<exists>di. file_open_ok s' R P p (i\<lparr>idata := di\<rparr>)
    \<and> inodes s' = (inodes s)(p \<mapsto> i\<lparr>idata := di\<rparr>) \<and> file_step s s' R (sector i) (idata i) di
    \<and> ilength di = max (ilength (idata i)) (offset + sz)
    \<and> file_bytes s' di = overwrite (file_bytes s (idata i)
          @ replicate (nat (offset + sz - ilength (idata i))) 0) (nat offset) (take (nat sz) buf))"
proof -
  have "inodes s p = Some i" using ok by (simp add: file_open_ok_def)
  with w dw have "inode_write_loop alloc s p buf sz offset 0 = Inr (s', n)"
    by (simp add: inode_write_at_def get_inode_def)
  from inode_write_loop_spec [OF ok _ sz(2,3) st _ _ this refl] sz(1) assms(5) obtain di where
    "n = sz" "file_open_ok s' R P p (i\<lparr>idata := di\<rparr>)" "inodes s' = (inodes s)(p \<mapsto> i\<lparr>idata := di\<rparr>)"
    "file_step s s' R (sector i) (idata i) di" "ilength di = max (ilength (idata i)) (offset + sz)"
    "file_bytes s' di = overwrite (file_bytes s (idata i) @
       replicate (nat (max (ilength (idata i)) (offset + sz) - ilength (idata i))) 0) (nat offset) (take (nat sz) buf)"
    by auto
  moreover have "nat (max (ilength (idata i)) (offset + sz) - ilength (idata i)) = nat (offset + sz - ilength (idata i))"
    by auto
  ultimately show ?thesis by metis
qed

end

section \<open>Success\<close>

text \<open>
  With memory, with room left and with the last sector not in use, an allocation succeeds;
  then so do growth and writing.
\<close>

locale total_allocator = sector_allocator +
  assumes alloc_total: "inv s \<Longrightarrow> fs_ready s \<Longrightarrow> 0 < room s \<Longrightarrow>
    \<exists>s' k. alloc s 1 = Inr (s', Some k) \<and> fs_ready s'"
begin

lemma write_total:
  assumes "inv s" "fs_ready s" "k \<in> used s" "ofs + length bs \<le> DISK_SECTOR_SIZE"
  shows "\<exists>s'. buffer_cache_write s k bs ofs = Inr s' \<and> fs_ready s' \<and> room s' = room s"
proof -
  have "cache_ready s k" using assms inv_base fs_ready_cache by blast
  with bc.wr_ok [OF inv_cache_inv [OF assms(1)]] assms(4) obtain s' where
    w: "buffer_cache_write s k bs ofs = Inr s'" by blast
  with buffer_cache_write_spec [OF inv_cache_inv [OF assms(1)]] have "cache_frame s s'" by blast
  with w assms(2) show ?thesis by (auto simp: fs_ready_frame room_frame)
qed

lemma room_insert:
  assumes "used s' = insert k (used s)" "capacity (filesys_disk s') = capacity (filesys_disk s)"
  shows "room s \<le> Suc (room s')"
proof -
  let ?A = "\<lambda>s. {k. Suc k < capacity (filesys_disk s) \<and> k \<notin> used s}"
  have "?A s \<subseteq> insert k (?A s')" using assms by auto
  then have "card (?A s) \<le> card (insert k (?A s'))" by (rule card_mono [rotated]) (simp add: finite_room)
  also have "\<dots> \<le> Suc (card (?A s'))" by (simp add: card_insert_if finite_room)
  finally show ?thesis by (simp add: room_def)
qed

lemma grow_array_total:
  assumes "inv s" "fs_ready s" "b - a \<le> room s" "b \<le> length arr"
  shows "\<exists>s' arr'. grow_array alloc s arr [a..<b] = Inr (s', arr') \<and> fs_ready s'"
  using assms
proof (induction "b - a" arbitrary: s arr a)
  case 0
  then show ?case by simp
next
  case (Suc n)
  then have ab: "a < b" "[a..<b] = a # [Suc a..<b]" by (simp_all add: upt_conv_Cons)
  have "0 < room s" using Suc.prems(3) ab by linarith
  from alloc_total [OF Suc.prems(1,2) this] obtain s1 k where
    al: "alloc s 1 = Inr (s1, Some k)" "fs_ready s1" by blast
  note 1 = alloc_fresh [OF Suc.prems(1) al(1)]
  then have "room s \<le> Suc (room s1)" by (intro room_insert [of _ k]) (auto simp: fs_same_def)
  from write_total [of s1 k 0 zero_sector] 1 al obtain s2 where
    wr: "buffer_cache_write s1 k zero_sector 0 = Inr s2" "fs_ready s2" "room s2 = room s1"
    by (auto simp: zero_sector_def)
  have "k \<notin> meta s1" using 1 meta_used [OF Suc.prems(1)] by auto
  with write_keeps [OF _ _ wr(1)] 1 have "inv s2" by blast
  moreover have "n = b - Suc a" using Suc.hyps(2) by simp
  ultimately obtain s' arr' where "grow_array alloc s2 (arr[a := k]) [Suc a..<b] = Inr (s', arr')" "fs_ready s'"
    using Suc.hyps(1) [of "Suc a" s2 "arr[a := k]"] Suc.hyps(2) Suc.prems(3,4) wr \<open>room s \<le> Suc (room s1)\<close>
    by auto
  with al wr ab Suc.prems(4) show ?case by auto
qed

lemma grow_indirect_total:
  assumes inv: "inv s" and wf: "inode_wf s di" and rdy: "fs_ready s" and n: "n \<le> DISK_SECTOR_SIZE"
    and room: "n - bytes_to_sectors (ilength di) \<le> room s"
  shows "\<exists>s' di'. grow_indirect alloc s di (bytes_to_sectors (ilength di)) n = Inr (s', di') \<and> fs_ready s'"
proof (cases "indirect di = 0")
  case True
  let ?c = "bytes_to_sectors (ilength di)"
  have c: "?c \<le> DIRECT_POINTERS" "length (start di) = DIRECT_POINTERS"
    using wf True inv_base [OF inv] by (auto simp: inode_wf_def base_inv_def dom_def split: if_splits)
  define arr where "arr = overwrite (replicate DISK_SECTOR_SIZE 0) 0 (take ?c (start di))"
  define q where "q = Suc (malloc_cnt s)"
  obtain s1 r where k: "kalloc s = (s1, r)" by (cases "kalloc s")
  then have s1: "s1 = s\<lparr>malloc_cnt := Suc (malloc_cnt s)\<rparr>" and r: "r = Some q"
    using rdy by (auto simp: kalloc_def fs_ready_def q_def)
  note 1 = kalloc_keeps [OF inv k]
  define s1a where "s1a = s1\<lparr>sector_arrays := (sector_arrays s1)(q \<mapsto> arr)\<rparr>"
  have "inv s1a" unfolding s1a_def using inv_arrays [OF 1(1), of q arr] 1(8) by (simp add: q_def)
  moreover have "fs_ready s1a" using rdy 1(4) by (simp add: s1a_def) (simp add: fs_ready_def s1)
  moreover have "room s1a = room s" using 1(4) by (simp add: s1a_def) (simp add: room_def s1)
  moreover have "length arr = DISK_SECTOR_SIZE"
    using c by (simp add: arr_def overwrite_def DIRECT_POINTERS_def DISK_SECTOR_SIZE_def)
  ultimately obtain s2 arr' where "grow_array alloc s1a arr [?c..<n] = Inr (s2, arr')" "fs_ready s2"
    using grow_array_total [of s1a n ?c arr] n room by auto
  moreover have "get_array s1a q = Inr arr" by (simp add: s1a_def get_array_def)
  ultimately show ?thesis
    using True k r c by (simp add: grow_indirect_def flip: arr_def s1a_def)
next
  case False
  with wf obtain arr where arr: "sector_arrays s (indirect di) = Some arr" "length arr = DISK_SECTOR_SIZE"
    by (auto simp: inode_wf_def split: if_splits)
  with grow_array_total [OF inv rdy room] n obtain s2 arr' where
    "grow_array alloc s arr [bytes_to_sectors (ilength di)..<n] = Inr (s2, arr')" "fs_ready s2" by force
  with arr False show ?thesis by (simp add: grow_indirect_def get_array_def)
qed

lemma inode_grow_total:
  assumes inv: "inv s" and ok: "file_ok s (meta s) sec di" and rdy: "fs_ready s"
    and len: "len \<le> 512 * 512" "len \<le> 512 * int (capacity (filesys_disk s))"
    and room: "bytes_to_sectors len - bytes_to_sectors (ilength di) \<le> room s"
  shows "\<exists>s' di' b. inode_grow alloc s sec di len = Inr (s', di', b) \<and> fs_ready s'"
proof (cases "len \<le> ilength di")
  case True
  with rdy show ?thesis by (auto simp: inode_grow_def)
next
  case False
  let ?c = "bytes_to_sectors (ilength di)" and ?n = "bytes_to_sectors len"
  note okD = file_okD [OF ok]
  have n512: "?n \<le> DISK_SECTOR_SIZE"
    using len False okD(8) by (simp add: bytes_to_sectors_eq DISK_SECTOR_SIZE_def)
  have cap: "capacity (filesys_disk s) \<le> 122 * 4096" using inv_base [OF inv] by (simp add: base_inv_def)
  have u: "u32_of len = len" "u32_of (512 * int (capacity (filesys_disk s))) = 512 * int (capacity (filesys_disk s))"
    using len cap False okD(8) by (auto intro!: u32_of_id)
  have "\<exists>s1 di1 new. (if ?n \<le> DIRECT_POINTERS
        then rbind (grow_array alloc s (start di) [?c..<?n]) (\<lambda>(s1, arr). Inr (s1, di\<lparr>start := arr\<rparr>))
        else grow_indirect alloc s di ?c ?n) = Inr (s1, di1)
      \<and> fs_ready s1 \<and> inv s1 \<and> extended s s1 (meta s) len di (di1\<lparr>ilength := len\<rparr>) new"
  proof (cases "?n \<le> DIRECT_POINTERS")
    case True
    with grow_array_total [OF inv rdy room, of "start di"] okD(1) obtain s1 arr where
      g: "grow_array alloc s (start di) [?c..<?n] = Inr (s1, arr)" "fs_ready s1"
      by (auto simp: inode_wf_def)
    with grow_direct_extends [OF inv okD(1) _ len(1) True] False True show ?thesis by force
  next
    case nd: False
    from grow_indirect_total [OF inv okD(1) rdy n512 room] obtain s1 di1 where
      g: "grow_indirect alloc s di ?c ?n = Inr (s1, di1)" "fs_ready s1" by blast
    with grow_indirect_extends [OF inv okD(1) _ len(1) _ g(1)] nd False show ?thesis by auto
  qed
  then obtain s1 di1 new where g: "(if ?n \<le> DIRECT_POINTERS
        then rbind (grow_array alloc s (start di) [?c..<?n]) (\<lambda>(s1, arr). Inr (s1, di\<lparr>start := arr\<rparr>))
        else grow_indirect alloc s di ?c ?n) = Inr (s1, di1)"
      and 1: "fs_ready s1" "inv s1" and ext: "extended s s1 (meta s) len di (di1\<lparr>ilength := len\<rparr>) new" by blast
  have "length (inode_disk_bytes (di1\<lparr>ilength := len\<rparr>)) = DISK_SECTOR_SIZE" "sec \<in> used s1"
    using ext okD(4) by (auto simp: extended_def inode_wf_def)
  with write_total [OF 1(2,1), of sec 0 "inode_disk_bytes (di1\<lparr>ilength := len\<rparr>)"] obtain s2 where
    "buffer_cache_write s1 sec (inode_disk_bytes (di1\<lparr>ilength := len\<rparr>)) 0 = Inr s2" "fs_ready s2" by auto
  moreover from this have "inode_grow alloc s sec di len = Inr (s2, di1\<lparr>ilength := len\<rparr>, True)"
    using g u len n512 False
    by (simp add: inode_grow_def disk_size_def Let_def DISK_SECTOR_SIZE_def split: if_splits) blast
  ultimately show ?thesis by blast
qed

lemma inode_grow_open_total:
  assumes ok: "file_open_ok s R P p i" and rdy: "fs_ready s"
    and len: "len \<le> 512 * 512" "len \<le> 512 * int (capacity (filesys_disk s))"
    and room: "bytes_to_sectors len - bytes_to_sectors (ilength (idata i)) \<le> room s"
  shows "\<exists>s'. inode_grow_open alloc s p len = Inr s' \<and> fs_ready s'"
proof -
  from ok have o: "inv s" "file_ok s (meta s) (sector i) (idata i)" "inodes s p = Some i"
    by (auto simp: file_open_ok_def)
  from inode_grow_total [OF o(1,2) rdy len room] obtain s1 di b where
    "inode_grow alloc s (sector i) (idata i) len = Inr (s1, di, b)" "fs_ready s1" by blast
  with o(3) show ?thesis by (simp add: inode_grow_open_def get_inode_def put_idata_def)
qed

text \<open>One iteration of the write loop succeeds when the sectors up to its end fit.\<close>

lemma inode_write_iter_total:
  assumes ok: "file_open_ok s R P p i" and rdy: "fs_ready s"
    and sz: "0 < sz" "offset + sz \<le> 512 * 512" and off: "0 \<le> offset"
    and cap: "offset + sz \<le> 512 * int (capacity (filesys_disk s))"
    and room: "bytes_to_sectors (offset + sz) - bytes_to_sectors (ilength (idata i)) \<le> room s"
    and prog: "\<not> write_stuck (ilength (idata i)) sz offset"
    and bw: "0 \<le> bw" "nat bw + nat sz \<le> length buf"
  shows "\<exists>s1 di c. inode_write_loop alloc s p buf sz offset bw
        = inode_write_loop alloc s1 p buf (sz - c) (offset + c) (bw + c) \<and> fs_ready s1
    \<and> 0 < c \<and> c \<le> sz \<and> file_open_ok s1 R P p (i\<lparr>idata := di\<rparr>)
    \<and> file_step s s1 R (sector i) (idata i) di \<and> offset + c \<le> ilength di"
proof -
  let ?o = "offset mod 512" and ?len = "ilength (idata i)"
  have len: "0 \<le> ?len" "?len \<le> 512 * 512" and i: "inodes s p = Some i"
    using ok by (auto simp: file_open_ok_def dest: file_okD)
  have o: "0 \<le> ?o" "?o < 512" "?o \<le> offset" using off by (simp_all add: zmod_le_nonneg_dividend)
  let ?l1 = "if ?len - ?o \<le> 0 then ?len + min sz 512 else ?len"
  have s32: "s32_of (?len - ?o) = ?len - ?o" by (rule s32_of_lit) (use len o in linarith)+
  have l1: "?len \<le> ?l1" "?l1 \<le> max ?len (offset + sz)" using sz o len by auto
  have "\<exists>sg. write_grow alloc s p sz ?o = Inr sg \<and> fs_ready sg"
  proof (cases "?len - ?o \<le> 0")
    case True
    have m: "(if sz < 512 then sz else 512) = min sz 512" by simp
    have s32': "s32_of (?len + min sz 512) = ?len + min sz 512" by (rule s32_of_lit) (use len sz in linarith)+
    have le: "?len + min sz 512 \<le> offset + sz" using True o sz by linarith
    have "bytes_to_sectors (?len + min sz 512) \<le> bytes_to_sectors (offset + sz)"
      by (rule bytes_to_sectors_mono) (use le len sz in linarith)+
    with inode_grow_open_total [OF ok rdy, of "?len + min sz 512"] le sz cap room
    show ?thesis using True i s32
      by (simp add: write_grow_def get_inode_def inode_length_def m s32')
  next
    case False
    with rdy i s32 show ?thesis by (simp add: write_grow_def get_inode_def inode_length_def)
  qed
  then obtain sg where g: "write_grow alloc s p sz ?o = Inr sg" "fs_ready sg" by blast
  from write_grow_spec [OF ok sz off g(1)] obtain d1 where
    d1: "file_open_ok sg R P p (i\<lparr>idata := d1\<rparr>)" "inodes sg = (inodes s)(p \<mapsto> i\<lparr>idata := d1\<rparr>)"
      "file_step s sg R (sector i) (idata i) d1" "ilength d1 = ?l1" by blast
  have gi: "get_inode sg p = Inr (i\<lparr>idata := d1\<rparr>)" using d1(2) by (simp add: get_inode_def)
  define c where "c = write_chunk_size (s32_of (inode_length (i\<lparr>idata := d1\<rparr>) - ?o)) sz ?o"
  have "s32_of (ilength d1 - ?o) = ilength d1 - ?o"
    by (rule s32_of_lit) (use d1(4) l1 len o sz in linarith)+
  then have c_eq: "c = write_chunk_size (ilength d1 - ?o) sz ?o" by (simp add: c_def inode_length_def)
  have "sz \<le> 512 * 512" using sz off by linarith
  note cp = write_chunk_progress [OF len sz(1) this off prog d1(4) c_eq]
  have s32c: "s32_of (offset + c) = offset + c" by (rule s32_of_lit) (use cp off sz in linarith)+
  have pos: "0 < offset + c" "offset + c \<le> 512 * 512" using cp off sz by linarith+
  have ok0: "file_ok s R (sector i) (idata i)" "file_ok sg R (sector i) d1"
    using ok d1(1) by (auto simp: file_open_ok_def)
  note rg = room_grow [OF d1(3) ok0]
  have "bytes_to_sectors (offset + c) \<le> bytes_to_sectors (offset + sz)"
    by (rule bytes_to_sectors_mono) (use pos cp sz in linarith)+
  then have rm: "bytes_to_sectors (offset + c) - bytes_to_sectors (ilength d1) \<le> room sg" using rg room by linarith
  have capg: "capacity (filesys_disk sg) = capacity (filesys_disk s)" using d1(3) by (simp add: file_step_def fs_same_def)
  from inode_grow_open_total [OF d1(1) g(2) pos(2)] rm capg cap cp obtain s2 where
    g2: "inode_grow_open alloc sg p (offset + c) = Inr s2" "fs_ready s2" by auto
  from byte_to_sector_grown [OF d1(1) pos g2(1)] obtain d2 k where
    d2: "file_open_ok s2 R P p (i\<lparr>idata := d2\<rparr>)" "ilength d2 = max (ilength d1) (offset + c)"
      "byte_to_sector alloc sg p (offset + c) = Inr (s2, k)" "k = data_sectors s2 d2 ! ((nat (offset + c) - 1) div 512)"
    by auto
  have ok2: "inv s2" "file_ok s2 R (sector i) d2" using d2(1) by (auto simp: file_open_ok_def)
  have fit: "(nat (offset + c) - 1) div 512 < length (data_sectors s2 d2)"
  proof -
    have len2: "length (data_sectors s2 d2) = (nat (ilength d2) + 511) div 512"
      using file_okD(1,8,9) [OF ok2(2)] by (simp add: length_data_sectors bytes_to_sectors_eq)
    have "nat (offset + c) - 1 + 512 \<le> nat (ilength d2) + 511" using d2(2) pos by linarith
    then have "(nat (offset + c) - 1 + 512) div 512 \<le> length (data_sectors s2 d2)"
      unfolding len2 by (rule div_le_mono)
    moreover have "(nat (offset + c) - 1 + 512) div 512 = (nat (offset + c) - 1) div 512 + 1"
      by (rule div_add_self2) simp
    ultimately show ?thesis by linarith
  qed
  then have "k \<in> used s2" using d2(4) file_okD(6) [OF ok2(2)] by auto
  moreover have "nat ?o + length (take (nat c) (drop (nat bw) buf)) \<le> DISK_SECTOR_SIZE"
  proof -
    have "nat ?o + nat c \<le> 512" using cp(1,3) o by linarith
    then show ?thesis by (simp add: DISK_SECTOR_SIZE_def)
  qed
  ultimately obtain s1 where
    wr: "buffer_cache_write s2 k (take (nat c) (drop (nat bw) buf)) (nat ?o) = Inr s1" "fs_ready s1"
    using write_total [OF ok2(1) g2(2)] by blast
  from inode_write_iter [OF ok sz off prog bw g(1) gi c_def _ wr(1)] d2(3) s32c wr(2) show ?thesis by auto
qed

lemma inode_write_loop_total:
  assumes "file_open_ok s R P p i" "fs_ready s" "0 \<le> sz" "offset + sz \<le> 512 * 512" "0 \<le> offset"
    and "offset + sz \<le> 512 * int (capacity (filesys_disk s))"
    and "bytes_to_sectors (offset + sz) - bytes_to_sectors (ilength (idata i)) \<le> room s"
    and "\<not> write_stuck (ilength (idata i)) sz offset" and "0 \<le> bw" "nat bw + nat sz \<le> length buf"
  shows "\<exists>s' n. inode_write_loop alloc s p buf sz offset bw = Inr (s', n) \<and> fs_ready s'"
  using assms
proof (induction "nat sz" arbitrary: s i sz offset bw rule: less_induct)
  case less
  show ?case
  proof (cases "sz = 0")
    case True
    with less.prems(2) show ?thesis by (subst inode_write_loop.simps) simp
  next
    case False
    then have sz: "0 < sz" using less.prems(3) by simp
    from inode_write_iter_total [OF less.prems(1,2) sz less.prems(4-10)] obtain s1 di c where
      st: "inode_write_loop alloc s p buf sz offset bw
          = inode_write_loop alloc s1 p buf (sz - c) (offset + c) (bw + c)" "fs_ready s1"
        "0 < c" "c \<le> sz" "file_open_ok s1 R P p (i\<lparr>idata := di\<rparr>)"
        "file_step s s1 R (sector i) (idata i) di" "offset + c \<le> ilength di" by blast
    have ok: "file_ok s R (sector i) (idata i)" "file_ok s1 R (sector i) di"
      using less.prems(1) st(5) by (auto simp: file_open_ok_def)
    note rg = room_grow [OF st(6) ok]
    have "(offset + c) mod 512 \<le> offset + c" using less.prems(5) st(3) by (simp add: zmod_le_nonneg_dividend)
    then have ns: "\<not> write_stuck (ilength di) (sz - c) (offset + c)" using st(7) by (simp add: write_stuck_def)
    have "capacity (filesys_disk s1) = capacity (filesys_disk s)" using st(6) by (simp add: file_step_def fs_same_def)
    then have "\<exists>s' n. inode_write_loop alloc s1 p buf (sz - c) (offset + c) (bw + c) = Inr (s', n) \<and> fs_ready s'"
      using less.prems st rg ns by (intro less.hyps [OF _ st(5,2)]) auto
    with st(1) show ?thesis by simp
  qed
qed

lemma inode_write_at_total:
  assumes ok: "file_open_ok s R P p i" and rdy: "fs_ready s"
    and sz: "0 < sz" "offset + sz \<le> 512 * 512" "0 \<le> offset" "offset + sz \<le> 512 * int (capacity (filesys_disk s))"
    and room: "bytes_to_sectors (offset + sz) - bytes_to_sectors (ilength (idata i)) \<le> room s"
    and st: "\<not> write_stuck (ilength (idata i)) sz offset" and buf: "nat sz \<le> length buf"
  shows "\<exists>s' n. inode_write_at alloc s p buf sz offset = Inr (s', n) \<and> fs_ready s'"
proof -
  have "inodes s p = Some i" using ok by (simp add: file_open_ok_def)
  moreover have "\<exists>s' n. inode_write_loop alloc s p buf sz offset 0 = Inr (s', n) \<and> fs_ready s'"
    by (rule inode_write_loop_total [OF ok rdy _ sz(2-4) room st]) (use sz buf in auto)
  ultimately show ?thesis using rdy by (simp add: inode_write_at_def get_inode_def)
qed

text \<open>In the excluded case the file grows and nothing is written.\<close>

lemma inode_write_at_stuck:
  assumes ok: "file_open_ok s R P p i" and rdy: "fs_ready s" and dw: "deny_write_cnt i = 0"
    and sz: "0 < sz" "offset + sz \<le> 512 * 512" "0 \<le> offset" "offset + sz \<le> 512 * int (capacity (filesys_disk s))"
    and room: "bytes_to_sectors offset - bytes_to_sectors (ilength (idata i)) \<le> room s"
    and st: "write_stuck (ilength (idata i)) sz offset"
  shows "\<exists>s' di. inode_write_at alloc s p buf sz offset = Inr (s', 0) \<and> inodes s' p = Some (i\<lparr>idata := di\<rparr>)
    \<and> file_bytes s' di = file_bytes s (idata i) @ replicate (nat (offset - ilength (idata i))) 0"
proof -
  let ?len = "ilength (idata i)" and ?o = "offset mod 512"
  have len: "0 \<le> ?len" "?len \<le> 512 * 512" and i: "inodes s p = Some i"
    using ok by (auto simp: file_open_ok_def dest: file_okD)
  have o: "0 \<le> ?o" "?o < 512" "?o \<le> offset" "?len < ?o" "?len + min sz 512 = ?o"
    using sz st by (simp_all add: zmod_le_nonneg_dividend write_stuck_def)
  have m: "(if sz < 512 then sz else 512) = min sz 512" by simp
  have s32: "s32_of (?len - ?o) = ?len - ?o" "s32_of ?o = ?o" "s32_of offset = offset"
    by (rule s32_of_lit; use len o sz in linarith)+
  have "bytes_to_sectors ?o \<le> bytes_to_sectors offset"
    by (rule bytes_to_sectors_mono) (use o sz in linarith)+
  then obtain sg where g: "inode_grow_open alloc s p ?o = Inr sg" "fs_ready sg"
    using inode_grow_open_total [OF ok rdy, of ?o] o sz room by force
  then have wg: "write_grow alloc s p sz ?o = Inr sg"
    using i o by (simp add: write_grow_def get_inode_def inode_length_def m s32)
  have o512: "?o \<le> 512 * 512" using o by linarith
  from inode_grow_open_spec [OF ok o512 g(1)] obtain d1 where
    d1: "file_open_ok sg R P p (i\<lparr>idata := d1\<rparr>)" "inodes sg = (inodes s)(p \<mapsto> i\<lparr>idata := d1\<rparr>)"
      "file_step s sg R (sector i) (idata i) d1" "ilength d1 = ?o"
      "file_bytes sg d1 = file_bytes s (idata i) @ replicate (nat (?o - ?len)) 0"
    using o by (auto simp: max_def)
  have ok0: "file_ok s R (sector i) (idata i)" "file_ok sg R (sector i) d1"
    using ok d1(1) by (auto simp: file_open_ok_def)
  note rg = room_grow [OF d1(3) ok0]
  have pos: "0 < offset" "offset \<le> 512 * 512" using o len sz by linarith+
  have capg: "capacity (filesys_disk sg) = capacity (filesys_disk s)" using d1(3) by (simp add: file_step_def fs_same_def)
  from inode_grow_open_total [OF d1(1) g(2) pos(2)] capg sz rg room obtain s2 where
    g2: "inode_grow_open alloc sg p offset = Inr s2" by force
  from byte_to_sector_grown [OF d1(1) pos g2] obtain d2 k where
    d2: "inodes s2 = (inodes sg)(p \<mapsto> i\<lparr>idata := d2\<rparr>)"
      "file_bytes s2 d2 = file_bytes sg d1 @ replicate (nat (offset - ?o)) 0"
      "byte_to_sector alloc sg p offset = Inr (s2, k)" using d1(4) by auto
  have "write_chunk_size (s32_of (ilength d1 - ?o)) sz ?o = 0"
    by (simp add: d1(4) write_chunk_size_def u32_of_def s32_of_def Let_def)
  then have "inode_write_loop alloc s p buf sz offset 0 = Inr (s2, 0)"
    using sz wg d1(2) d2(3) s32(3)
    by (subst inode_write_loop.simps) (simp add: smod_nonneg Let_def get_inode_def inode_length_def)
  moreover have "file_bytes s2 d2 = file_bytes s (idata i) @ replicate (nat (offset - ?len)) 0"
  proof -
    have "nat (offset - ?len) = nat (?o - ?len) + nat (offset - ?o)" using o by linarith
    then show ?thesis using d2(2) d1(5) by (simp add: replicate_add)
  qed
  ultimately show ?thesis
    using i dw d2(1) d1(2) by (intro exI [of _ s2] exI [of _ d2]) (simp add: inode_write_at_def get_inode_def)
qed

end

end
