(* ===== verification/Free_Map.thy ===== *)
theory Free_Map
  imports Inode_Growth
begin

text \<open>
  The free map (\<open>src/filesys/free-map.c\<close>), files (\<open>src/filesys/file.c\<close>) and the file
  input and output of bitmaps (\<open>src/lib/kernel/bitmap.c\<close>).

  The free map is a file of its own, so allocating a sector writes to an inode. That inode
  never grows, so the nested write is given an allocator that reports \<open>OutOfFuel\<close>
  (\<open>no_alloc\<close>) instead of calling back; \<open>free_map_allocate_result\<close> shows that
  \<open>OutOfFuel\<close> is never the outcome.

  The contract \<open>sector_allocator\<close> is interpreted on \<open>free_map_allocate\<close>: from there come
  the facts about growing files of the complete system. The invariant \<open>fm_inv\<close> says among
  others that the free map file on disk always equals the free map in memory.
\<close>

section \<open>Reading and writing files\<close>

definition no_alloc :: alloc where
  "no_alloc s n = Inl OutOfFuel"

definition get_file :: "fs \<Rightarrow> nat \<Rightarrow> kfile res" where
  "get_file s f = (case files s f of None \<Rightarrow> Inl PageFault | Some fl \<Rightarrow> Inr fl)"

definition file_get_inode :: "fs \<Rightarrow> nat \<Rightarrow> nat res" where
  "file_get_inode s f = rbind (get_file s f) (\<lambda>fl. Inr (f_inode fl))"

definition file_read_at ::
    "alloc \<Rightarrow> fs \<Rightarrow> nat \<Rightarrow> byte list \<Rightarrow> int \<Rightarrow> int \<Rightarrow> (fs \<times> byte list \<times> int) res" where
  "file_read_at alloc s f buf sz file_ofs =
     rbind (get_file s f) (\<lambda>fl. inode_read_at alloc s (f_inode fl) buf sz file_ofs)"

definition file_write_at ::
    "alloc \<Rightarrow> fs \<Rightarrow> nat \<Rightarrow> byte list \<Rightarrow> int \<Rightarrow> int \<Rightarrow> (fs \<times> int) res" where
  "file_write_at alloc s f buf sz file_ofs =
     rbind (get_file s f) (\<lambda>fl. inode_write_at alloc s (f_inode fl) buf sz file_ofs)"

definition set_pos :: "fs \<Rightarrow> nat \<Rightarrow> int \<Rightarrow> fs" where
  "set_pos s f pos = s\<lparr>files := (files s)(f := map_option (\<lambda>fl. fl\<lparr>f_pos := pos\<rparr>) (files s f))\<rparr>"

definition file_read :: "alloc \<Rightarrow> fs \<Rightarrow> nat \<Rightarrow> byte list \<Rightarrow> int \<Rightarrow> (fs \<times> byte list \<times> int) res" where
  "file_read alloc s f buf sz =
     rbind (get_file s f) (\<lambda>fl.
       rbind (inode_read_at alloc s (f_inode fl) buf sz (f_pos fl)) (\<lambda>(s1, buf1, bytes_read).
         Inr (set_pos s1 f (s32_of (f_pos fl + bytes_read)), buf1, bytes_read)))"

definition file_write :: "alloc \<Rightarrow> fs \<Rightarrow> nat \<Rightarrow> byte list \<Rightarrow> int \<Rightarrow> (fs \<times> int) res" where
  "file_write alloc s f buf sz =
     rbind (get_file s f) (\<lambda>fl.
       rbind (inode_write_at alloc s (f_inode fl) buf sz (f_pos fl)) (\<lambda>(s1, bytes_written).
         Inr (set_pos s1 f (s32_of (f_pos fl + bytes_written)), bytes_written)))"

definition file_length :: "fs \<Rightarrow> nat \<Rightarrow> int res" where
  "file_length s f = rbind (get_file s f) (\<lambda>fl.
     rbind (get_inode s (f_inode fl)) (\<lambda>i. Inr (inode_length i)))"

definition file_seek :: "fs \<Rightarrow> nat \<Rightarrow> int \<Rightarrow> fs res" where
  "file_seek s f new_pos = kassert (0 \<le> new_pos) (rbind (get_file s f) (\<lambda>_. Inr (set_pos s f new_pos)))"

definition file_tell :: "fs \<Rightarrow> nat \<Rightarrow> int res" where
  "file_tell s f = rbind (get_file s f) (\<lambda>fl. Inr (f_pos fl))"

definition file_deny_write :: "fs \<Rightarrow> nat \<Rightarrow> fs res" where
  "file_deny_write s f = rbind (get_file s f) (\<lambda>fl.
     if \<not> f_deny_write fl
     then inode_deny_write (s\<lparr>files := (files s)(f \<mapsto> fl\<lparr>f_deny_write := True\<rparr>)\<rparr>) (f_inode fl)
     else Inr s)"

definition file_allow_write :: "fs \<Rightarrow> nat \<Rightarrow> fs res" where
  "file_allow_write s f = rbind (get_file s f) (\<lambda>fl.
     if f_deny_write fl
     then inode_allow_write (s\<lparr>files := (files s)(f \<mapsto> fl\<lparr>f_deny_write := False\<rparr>)\<rparr>) (f_inode fl)
     else Inr s)"

section \<open>Bitmaps in files\<close>

definition bitmap_write :: "fs \<Rightarrow> bitmap \<Rightarrow> nat \<Rightarrow> (fs \<times> bool) res" where
  "bitmap_write s b f =
     (let sz = s32_of (int (byte_cnt (bit_cnt b))) in
      rbind (file_write_at no_alloc s f (le_words (bits b)) sz 0) (\<lambda>(s1, n). Inr (s1, n = sz)))"

definition bitmap_read :: "fs \<Rightarrow> bitmap \<Rightarrow> nat \<Rightarrow> (fs \<times> bitmap \<times> bool) res" where
  "bitmap_read s b f =
     (if 0 < bit_cnt b
      then let sz = s32_of (int (byte_cnt (bit_cnt b))) in
        rbind (file_read_at no_alloc s f (le_words (bits b)) sz 0) (\<lambda>(s1, buf, n).
          let es = words_le (length (bits b)) buf; last = elem_cnt (bit_cnt b) - 1 in
          rguard PageFault (last < length es)
            (Inr (s1, b\<lparr>bits := es[last := es ! last AND last_mask b]\<rparr>, n = sz)))
      else Inr (s, b, True))"

section \<open>The free map\<close>

definition FREE_MAP_SECTOR :: nat where
  "FREE_MAP_SECTOR = 0"

definition ROOT_DIR_SECTOR :: nat where
  "ROOT_DIR_SECTOR = 1"

definition free_map_init :: "fs \<Rightarrow> fs res" where
  "free_map_init s =
     (let n = disk_size (filesys_disk s); (s1, h) = kalloc s;
          (s2, es) = (if h = None then (s1, None) else kalloc s1) in
      rbind (bitmap_create (h \<noteq> None) (map_option (\<lambda>q. words_le (elem_cnt n) (garbage s q)) es) n) (\<lambda>r.
        case r of
          None \<Rightarrow> Inl Panic
        | Some b \<Rightarrow>
            rbind (bitmap_mark b FREE_MAP_SECTOR) (\<lambda>b1.
              rbind (bitmap_mark b1 ROOT_DIR_SECTOR) (\<lambda>b2. Inr (s2\<lparr>free_map := b2\<rparr>)))))"

definition free_map_allocate :: alloc where
  "free_map_allocate s cnt =
     rbind (bitmap_scan_and_flip (free_map s) 0 cnt False) (\<lambda>(b, sec).
       let s1 = s\<lparr>free_map := b\<rparr> in
       if sec = BITMAP_ERROR then Inr (s1, None)
       else case free_map_file s1 of
              None \<Rightarrow> Inr (s1, Some sec)
            | Some f \<Rightarrow>
                rbind (bitmap_write s1 b f) (\<lambda>(s2, ok).
                  if ok then Inr (s2, Some sec)
                  else rbind (bitmap_set_multiple (free_map s2) sec cnt False) (\<lambda>b2.
                         Inr (s2\<lparr>free_map := b2\<rparr>, None))))"

definition free_map_release :: "fs \<Rightarrow> nat \<Rightarrow> nat \<Rightarrow> fs res" where
  "free_map_release s sec cnt =
     rbind (bitmap_all (free_map s) sec cnt) (\<lambda>all.
       kassert all
         (rbind (bitmap_set_multiple (free_map s) sec cnt False) (\<lambda>b.
           let s1 = s\<lparr>free_map := b\<rparr> in
           case free_map_file s1 of
             None \<Rightarrow> Inl PageFault
           | Some f \<Rightarrow> rbind (bitmap_write s1 b f) (\<lambda>(s2, _). Inr s2))))"

section \<open>Opening and closing files\<close>

definition file_open :: "fs \<Rightarrow> nat option \<Rightarrow> (fs \<times> nat option) res" where
  "file_open s inode =
     (case kalloc s of
        (s1, file) \<Rightarrow>
          (case (inode, file) of
             (Some p, Some f) \<Rightarrow>
               rbind (get_inode s1 p) (\<lambda>i.
                 Inr (s1\<lparr>files := (files s1)(f \<mapsto> \<lparr>f_inode = p, f_pos = 0, f_deny_write = False, f_dir = None\<rparr>),
                         inodes := (inodes s1)(p \<mapsto> i\<lparr>open_cnt := s32_of (open_cnt i + 1)\<rparr>)\<rparr>, Some f))
           | _ \<Rightarrow> rbind (inode_close free_map_release s1 inode) (\<lambda>s2. Inr (s2, None))))"

definition file_reopen :: "fs \<Rightarrow> nat \<Rightarrow> (fs \<times> nat option) res" where
  "file_reopen s f = rbind (get_file s f) (\<lambda>fl.
     rbind (inode_reopen s (Some (f_inode fl))) (\<lambda>(s1, p). file_open s1 p))"

definition file_close :: "fs \<Rightarrow> nat option \<Rightarrow> fs res" where
  "file_close s file =
     (case file of
        None \<Rightarrow> Inr s
      | Some f \<Rightarrow>
          rbind (file_allow_write s f) (\<lambda>s1.
            rbind (get_file s1 f) (\<lambda>fl.
              rbind (inode_close free_map_release s1 (Some (f_inode fl))) (\<lambda>s2.
                Inr (s2\<lparr>files := (files s2)(f := None)\<rparr>)))))"

definition free_map_open :: "fs \<Rightarrow> fs res" where
  "free_map_open s =
     rbind (inode_open s FREE_MAP_SECTOR) (\<lambda>(s1, p).
       rbind (file_open s1 p) (\<lambda>(s2, file).
         case file of
           None \<Rightarrow> Inl Panic
         | Some f \<Rightarrow>
             rbind (bitmap_read (s2\<lparr>free_map_file := Some f\<rparr>) (free_map s2) f) (\<lambda>(s3, b, ok).
               if ok then Inr (s3\<lparr>free_map := b\<rparr>) else Inl Panic)))"

definition free_map_close :: "fs \<Rightarrow> fs res" where
  "free_map_close s = file_close s (free_map_file s)"

definition free_map_create :: "fs \<Rightarrow> fs res" where
  "free_map_create s =
     rbind (inode_create free_map_allocate s FREE_MAP_SECTOR (s32_of (int (bitmap_file_size (free_map s)))) False)
       (\<lambda>(s1, ok).
         if \<not> ok then Inl Panic
         else rbind (inode_open s1 FREE_MAP_SECTOR) (\<lambda>(s2, p).
           rbind (file_open s2 p) (\<lambda>(s3, file).
             case file of
               None \<Rightarrow> Inl Panic
             | Some f \<Rightarrow>
                 rbind (bitmap_write (s3\<lparr>free_map_file := Some f\<rparr>) (free_map s3) f) (\<lambda>(s4, ok).
                   if ok then Inr s4 else Inl Panic))))"

section \<open>The free map invariant\<close>

definition fm_inode :: "fs \<Rightarrow> (nat \<times> inode) option" where
  "fm_inode s = (case free_map_file s of
      None \<Rightarrow> None
    | Some f \<Rightarrow> (case files s f of
        None \<Rightarrow> None
      | Some fl \<Rightarrow> map_option (\<lambda>i. (f_inode fl, i)) (inodes s (f_inode fl))))"

definition fm_file_wf :: "fs \<Rightarrow> inode \<Rightarrow> bool" where
  "fm_file_wf s i \<longleftrightarrow> deny_write_cnt i = 0 \<and> 0 < capacity (filesys_disk s)
     \<and> ilength (idata i) = int (byte_cnt (capacity (filesys_disk s))) \<and> file_ok s {} (sector i) (idata i)"

definition fm_inv :: "fs \<Rightarrow> bool" where
  "fm_inv s \<longleftrightarrow> base_inv s \<and> (free_map_file s \<noteq> None \<longrightarrow>
     (\<exists>p i. fm_inode s = Some (p, i) \<and> fm_file_wf s i \<and> file_bytes s (idata i) = le_words (bits (free_map s))))"

definition fm_meta :: "fs \<Rightarrow> nat set" where
  "fm_meta s = (case fm_inode s of None \<Rightarrow> {} | Some (p, i) \<Rightarrow> set (data_sectors s (idata i)))"

definition fm_prot :: "fs \<Rightarrow> nat \<Rightarrow> bool" where
  "fm_prot s p \<longleftrightarrow> (\<exists>i. fm_inode s = Some (p, i))"

lemma base_inv_frame:
  assumes "base_inv s" "cache_inv s'" "cache_frame s s'"
  shows "base_inv s'"
proof -
  have eq: "capacity (filesys_disk s') = capacity (filesys_disk s)" "malloc_cnt s \<le> malloc_cnt s'"
    using assms(3) by (auto simp: cache_frame_def)
  have "a \<noteq> 0 \<and> a \<le> malloc_cnt s'" if "a \<in> dom (sector_arrays s')" for a
    using that assms(1) eq(2) cache_frame_fs(3) [OF assms(3)] by (auto simp: base_inv_def intro: order_trans)
  with assms(1,2) eq(1) cache_frame_fs(7) [OF assms(3)] show ?thesis by (simp add: base_inv_def)
qed

lemma fm_inode_cong:
  "free_map_file s' = free_map_file s \<Longrightarrow> files s' = files s \<Longrightarrow> inodes s' = inodes s \<Longrightarrow>
   fm_inode s' = fm_inode s"
  by (simp add: fm_inode_def split: option.split)

lemma fm_meta_cong:
  "fm_inode s' = fm_inode s \<Longrightarrow> sector_arrays s' = sector_arrays s \<Longrightarrow> fm_meta s' = fm_meta s"
  using data_sectors_cong [of s' s] by (auto simp: fm_meta_def split: option.splits)

text \<open>The free map file is direct, so no sector array matters to it.\<close>

lemma fm_direct:
  assumes "base_inv s" "fm_file_wf s i"
  shows "bytes_to_sectors (ilength (idata i)) \<le> DIRECT_POINTERS" "byte_cnt (capacity (filesys_disk s)) \<le> 122 * 512"
proof -
  let ?n = "capacity (filesys_disk s)"
  have n: "?n \<le> 122 * 4096" using assms(1) by (simp add: base_inv_def)
  then have "byte_cnt ?n = 4 * ((?n + 31) div 32)" by (intro byte_cnt_small) simp
  with n show b: "byte_cnt ?n \<le> 122 * 512" by simp
  have "ilength (idata i) = int (byte_cnt ?n)" using assms(2) by (simp add: fm_file_wf_def)
  with b show "bytes_to_sectors (ilength (idata i)) \<le> DIRECT_POINTERS"
    by (simp add: bytes_to_sectors_eq DIRECT_POINTERS_def)
qed

lemma file_ok_arrays:
  assumes "bytes_to_sectors (ilength di) \<le> DIRECT_POINTERS" "cache_view s' = cache_view s" "used s' = used s"
  shows "file_ok s' R sec di = file_ok s R sec di" "file_bytes s' di = file_bytes s di"
    "data_sectors s' di = data_sectors s di"
  using assms by (simp_all add: file_ok_def inode_wf_def file_raw_def file_bytes_def data_sectors_direct)

text \<open>Changing bits of the free map.\<close>

lemma bitmap_bits_overwrite:
  assumes "bit_cnt b' = bit_cnt b" "k + cnt \<le> bit_cnt b"
    and "bitmap_bits b' = overwrite (bitmap_bits b) k (replicate cnt v)" and "j < bit_cnt b"
  shows "bitmap_bit b' j = (if k \<le> j \<and> j < k + cnt then v else bitmap_bit b j)"
proof -
  have "bitmap_bit b' j = bitmap_bits b' ! j" using assms(1,4) by (simp add: bitmap_bits_def)
  also have "\<dots> = (if k \<le> j \<and> j < k + cnt then replicate cnt v ! (j - k) else bitmap_bits b ! j)"
    unfolding assms(3) using assms(2,4) by (simp add: nth_overwrite)
  finally show ?thesis using assms(4) by (auto simp: bitmap_bits_def)
qed

text \<open>
  Storing the free map in its file: it cannot come out short, and afterwards the file holds
  the bits.
\<close>

lemma bitmap_write_spec:
  assumes base: "base_inv s" and fm: "free_map_file s = Some f" "fm_inode s = Some (p, i)" "fm_file_wf s i"
  shows "case bitmap_write s (free_map s) f of
      Inl e \<Rightarrow> \<not> (\<forall>k\<in>fm_meta s. cache_ready s k)
    | Inr (s', ok) \<Rightarrow> ok \<and> cache_inv s' \<and> cache_frame s s' \<and> file_ok s' {} (sector i) (idata i)
        \<and> file_bytes s' (idata i) = le_words (bits (free_map s))
        \<and> (\<forall>k. k \<notin> fm_meta s \<longrightarrow> cache_view s' k = cache_view s k)"
proof -
  let ?n = "capacity (filesys_disk s)" and ?b = "free_map s" and ?di = "idata i"
  let ?buf = "le_words (bits ?b)"
  have cinv: "cache_inv s" and b: "bitmap_inv ?b" "bit_cnt ?b = ?n" using base by (auto simp: base_inv_def)
  have n: "byte_cnt ?n \<le> 122 * 512" using fm_direct [OF base fm(3)] by simp
  have small: "?n + 31 < 2 ^ 32" using base by (simp add: base_inv_def)
  have lbuf: "length ?buf = byte_cnt ?n"
    using b small by (simp add: bitmap_inv_def byte_cnt_small elem_cnt_small)
  have len: "ilength ?di = int (byte_cnt ?n)" and dw: "deny_write_cnt i = 0"
    and ok: "file_ok s {} (sector i) ?di"
    using fm(3) by (auto simp: fm_file_wf_def)
  note okD = file_okD [OF ok]
  from fm(1,2) obtain fl where fl: "files s f = Some fl" "f_inode fl = p" and i: "inodes s p = Some i"
    by (auto simp: fm_inode_def split: option.splits)
  have meta: "fm_meta s = set (data_sectors s ?di)" using fm(2) by (simp add: fm_meta_def)
  have s32: "s32_of (int (byte_cnt ?n)) = int (byte_cnt ?n)" by (rule s32_of_lit) (use n in auto)
  have eq: "bitmap_write s ?b f = rbind (inode_write_loop no_alloc s p ?buf (int (byte_cnt ?n)) 0 0)
      (\<lambda>(s1, n). Inr (s1, n = int (byte_cnt ?n)))"
    using fl i dw by (simp add: bitmap_write_def b(2) s32 file_write_at_def get_file_def inode_write_at_def
        get_inode_def Let_def)
  have L: "case inode_write_loop no_alloc s p ?buf (int (byte_cnt ?n)) 0 0 of
      Inl e \<Rightarrow> \<not> (\<forall>k\<in>set (data_sectors s ?di). cache_ready s k)
    | Inr (s', n) \<Rightarrow> n = 0 + int (byte_cnt ?n) \<and> cache_inv s' \<and> cache_frame s s'
        \<and> file_raw s' ?di = overwrite (file_raw s ?di) (nat 0) (take (nat (int (byte_cnt ?n))) (drop (nat 0) ?buf))
        \<and> (\<forall>k. k \<notin> set (data_sectors s ?di) \<longrightarrow> cache_view s' k = cache_view s k)"
    by (rule inode_write_loop_inside) (use cinv i okD len lbuf in auto)
  show ?thesis
  proof (cases "inode_write_loop no_alloc s p ?buf (int (byte_cnt ?n)) 0 0")
    case (Inl e)
    with L show ?thesis by (simp add: eq meta)
  next
    case (Inr r)
    then obtain s' m where r: "inode_write_loop no_alloc s p ?buf (int (byte_cnt ?n)) 0 0 = Inr (s', m)"
      by (cases r) auto
    have "take (byte_cnt ?n) ?buf = ?buf" using lbuf by (intro take_all) simp
    with r L have s': "m = int (byte_cnt ?n)" "cache_inv s'" "cache_frame s s'"
      "file_raw s' ?di = overwrite (file_raw s ?di) 0 ?buf"
      "\<forall>k. k \<notin> fm_meta s \<longrightarrow> cache_view s' k = cache_view s k"
      by (auto simp: lbuf meta)
    have lfb: "length (file_bytes s ?di) = byte_cnt ?n"
      using length_file_bytes_ok [OF cinv ok] len by simp
    have raw: "file_raw s' ?di = ?buf @ replicate (512 * bytes_to_sectors (ilength ?di) - nat (ilength ?di)) 0"
      using s'(4) ok lfb lbuf by (simp add: file_ok_def overwrite_append1 overwrite_full)
    then have fb: "file_bytes s' ?di = ?buf" using len lbuf by (simp add: file_bytes_def)
    note same = cache_frame_fs [OF s'(3)]
    have "file_ok s' {} (sector i) ?di"
      using ok raw fb data_sectors_cong [OF same(3)] inode_wf_cong [OF same(3)] cache_frame_used [OF s'(3)]
      by (simp add: file_ok_def)
    with r s' fb show ?thesis by (simp add: eq)
  qed
qed

lemma fm_store:
  assumes inv: "fm_inv s" and f: "free_map_file s = Some f" and s1: "s1 = s\<lparr>free_map := b\<rparr>"
    and b: "bitmap_inv b" "bit_cnt b = bit_cnt (free_map s)"
    and keep: "\<And>p i. fm_inode s = Some (p, i) \<Longrightarrow> insert (sector i) (fm_meta s) \<subseteq> used s1"
  shows "case bitmap_write s1 b f of
      Inl e \<Rightarrow> \<not> (\<forall>k\<in>fm_meta s. cache_ready s k)
    | Inr (s2, ok) \<Rightarrow> ok \<and> fm_inv s2 \<and> fs_same s s2 \<and> free_map s2 = b \<and> fm_meta s2 = fm_meta s
        \<and> fm_prot s2 = fm_prot s \<and> (\<forall>k. k \<notin> fm_meta s \<longrightarrow> cache_view s2 k = cache_view s k)"
proof -
  from inv f obtain p i where pi: "fm_inode s = Some (p, i)" and wf: "fm_file_wf s i"
    by (auto simp: fm_inv_def)
  have base1: "base_inv s1" using inv b by (auto simp: fm_inv_def base_inv_def s1)
  have in1: "fm_inode s1 = fm_inode s" by (rule fm_inode_cong) (simp_all add: s1)
  have ds: "data_sectors s1 di = data_sectors s di" for di by (rule data_sectors_cong) (simp add: s1)
  have meta1: "fm_meta s1 = fm_meta s" by (rule fm_meta_cong [OF in1]) (simp add: s1)
  have "fm_meta s = set (data_sectors s (idata i))" using pi by (simp add: fm_meta_def)
  moreover have "file_raw s1 (idata i) = file_raw s (idata i)" "file_bytes s1 (idata i) = file_bytes s (idata i)"
    by (simp_all add: file_raw_def file_bytes_def ds) (simp_all add: s1)
  moreover have "inode_wf s1 (idata i) = inode_wf s (idata i)" by (rule inode_wf_cong) (simp add: s1)
  ultimately have wf1: "fm_file_wf s1 i"
    using wf keep [OF pi] unfolding fm_file_wf_def file_ok_def ds by (auto simp: s1)
  have rdy: "cache_ready s1 = cache_ready s" by (simp add: s1 cache_ready_def fun_eq_iff)
  have fm1: "free_map s1 = b" "free_map_file s1 = Some f" "fm_inode s1 = Some (p, i)"
    using f in1 pi by (simp_all add: s1)
  have w: "case bitmap_write s1 b f of
      Inl e \<Rightarrow> \<not> (\<forall>k\<in>fm_meta s. cache_ready s k)
    | Inr (s', ok) \<Rightarrow> ok \<and> cache_inv s' \<and> cache_frame s1 s' \<and> file_ok s' {} (sector i) (idata i)
        \<and> file_bytes s' (idata i) = le_words (bits b)
        \<and> (\<forall>k. k \<notin> fm_meta s \<longrightarrow> cache_view s' k = cache_view s1 k)"
    using bitmap_write_spec [OF base1 fm1(2,3) wf1] unfolding fm1(1) meta1 rdy .
  show ?thesis
  proof (cases "bitmap_write s1 b f")
    case (Inl e)
    with w show ?thesis by simp
  next
    case (Inr r)
    obtain s2 ok where r: "r = (s2, ok)" by (cases r)
    with Inr w have 2: "ok" "cache_inv s2" "cache_frame s1 s2" "file_ok s2 {} (sector i) (idata i)"
      "file_bytes s2 (idata i) = le_words (bits b)"
      "\<forall>k. k \<notin> fm_meta s \<longrightarrow> cache_view s2 k = cache_view s1 k" by auto
    note same = cache_frame_fs [OF 2(3)]
    have cap: "capacity (filesys_disk s2) = capacity (filesys_disk s1)" "malloc_cnt s1 \<le> malloc_cnt s2"
      using 2(3) by (auto simp: cache_frame_def)
    have in2: "fm_inode s2 = fm_inode s1" by (rule fm_inode_cong) (simp_all add: same)
    have "base_inv s2" by (rule base_inv_frame [OF base1 2(2,3)])
    moreover have "fm_file_wf s2 i" using wf1 2(4) cap by (simp add: fm_file_wf_def)
    ultimately have "fm_inv s2" using in1 in2 pi 2(5) same(7) by (auto simp: fm_inv_def s1)
    moreover have "fs_same s s2" using cache_frame_same [OF 2(3)] by (simp add: fs_same_def s1)
    moreover have "fm_meta s2 = fm_meta s1" by (rule fm_meta_cong [OF in2 same(3)])
    ultimately show ?thesis
      using 2 same(7) Inr r in1 in2 meta1 by (simp add: s1 fm_prot_def fun_eq_iff)
  qed
qed

lemma fm_file_used:
  "fm_inv s \<Longrightarrow> fm_inode s = Some (p, i) \<Longrightarrow> insert (sector i) (fm_meta s) \<subseteq> used s"
  by (cases "free_map_file s") (auto simp: fm_inv_def fm_file_wf_def fm_inode_def fm_meta_def dest: file_okD)

lemma free_map_allocate_result:
  assumes inv: "fm_inv s"
  shows "case free_map_allocate s 1 of
      Inl e \<Rightarrow> free_map_file s \<noteq> None \<and> \<not> (\<forall>k\<in>fm_meta s. cache_ready s k)
    | Inr (s', None) \<Rightarrow> s' = s \<and> used s = {..<capacity (filesys_disk s)}
    | Inr (s', Some k) \<Rightarrow> fm_inv s' \<and> fs_same s s' \<and> k < capacity (filesys_disk s) \<and> k \<notin> used s
        \<and> (\<forall>j<k. j \<in> used s) \<and> used s' = insert k (used s) \<and> fm_meta s' = fm_meta s
        \<and> fm_prot s' = fm_prot s \<and> (\<forall>j. j \<notin> fm_meta s \<longrightarrow> cache_view s' j = cache_view s j)"
proof -
  let ?b = "free_map s" and ?n = "capacity (filesys_disk s)"
  have b: "bitmap_inv ?b" "bit_cnt ?b = ?n" using inv by (auto simp: fm_inv_def base_inv_def)
  have run: "run_at ?b k 1 False \<longleftrightarrow> k < ?n \<and> k \<notin> used s" for k
    using b(2) by (auto simp: run_at_def used_def less_Suc_eq)
  from bitmap_scan_and_flip_spec [OF b(1), of 0 1 False] consider
      (full) "bitmap_scan_and_flip ?b 0 1 False = Inr (?b, BITMAP_ERROR)" "\<forall>k. \<not> run_at ?b k 1 False"
    | (found) b' k where "bitmap_scan_and_flip ?b 0 1 False = Inr (b', k)" "k \<noteq> BITMAP_ERROR"
        "run_at ?b k 1 False" "\<forall>j<k. \<not> run_at ?b j 1 False" "bitmap_inv b'" "bit_cnt b' = bit_cnt ?b"
        "bitmap_bits b' = overwrite (bitmap_bits ?b) k (replicate 1 True)"
    by auto
  then show ?thesis
  proof cases
    case full
    then have "used s = {..<?n}" using run b(2) by (auto simp: used_def)
    with full show ?thesis by (simp add: free_map_allocate_def Let_def)
  next
    case found
    define s1 where "s1 = s\<lparr>free_map := b'\<rparr>"
    have k: "k < ?n" "k \<notin> used s" using found(3) run by auto
    have least: "\<forall>j<k. j \<in> used s" using found(4) k run by auto
    have bit: "bitmap_bit b' j = (j = k \<or> bitmap_bit ?b j)" if "j < ?n" for j
      using bitmap_bits_overwrite [OF found(6) _ found(7), of j] k that b(2) by auto
    have used1: "used s1 = insert k (used s)"
      using bit k found(6) b(2) by (auto simp: used_def s1_def)
    show ?thesis
    proof (cases "free_map_file s")
      case None
      have "fm_inode s = None" "fm_inode s1 = None" using None by (simp_all add: fm_inode_def s1_def)
      moreover have "base_inv s1" using inv found by (simp add: fm_inv_def base_inv_def s1_def)
      ultimately have "fm_inv s1" "fm_meta s1 = fm_meta s" "fm_prot s1 = fm_prot s" "fs_same s s1"
        using None by (simp_all add: fm_inv_def fm_meta_def fm_prot_def fun_eq_iff s1_def fs_same_def)
      moreover have "free_map_allocate s 1 = Inr (s1, Some k)"
        using found(1,2) None by (simp add: free_map_allocate_def Let_def s1_def)
      moreover have "cache_view s1 = cache_view s" by (simp add: s1_def)
      ultimately show ?thesis using k least used1 by simp
    next
      case (Some f)
      have keep: "insert (sector i) (fm_meta s) \<subseteq> used s1" if "fm_inode s = Some (p, i)" for p i
        using fm_file_used [OF inv that] used1 by auto
      have st: "case bitmap_write s1 b' f of
          Inl e \<Rightarrow> \<not> (\<forall>k\<in>fm_meta s. cache_ready s k)
        | Inr (s2, ok) \<Rightarrow> ok \<and> fm_inv s2 \<and> fs_same s s2 \<and> free_map s2 = b' \<and> fm_meta s2 = fm_meta s
            \<and> fm_prot s2 = fm_prot s \<and> (\<forall>k. k \<notin> fm_meta s \<longrightarrow> cache_view s2 k = cache_view s k)"
        by (rule fm_store [OF inv Some s1_def found(5,6) keep])
      have al: "free_map_allocate s 1 = rbind (bitmap_write s1 b' f) (\<lambda>(s2, ok).
          if ok then Inr (s2, Some k)
          else rbind (bitmap_set_multiple (free_map s2) k 1 False) (\<lambda>b2. Inr (s2\<lparr>free_map := b2\<rparr>, None)))"
        using found(1,2) Some by (simp add: free_map_allocate_def Let_def s1_def cong: if_cong)
      show ?thesis
      proof (cases "bitmap_write s1 b' f")
        case (Inl e)
        with st Some show ?thesis unfolding al by simp
      next
        case (Inr r)
        obtain s2 ok where r: "r = (s2, ok)" by (cases r)
        with st Inr have 2: "ok" "fm_inv s2" "fs_same s s2" "free_map s2 = b'" "fm_meta s2 = fm_meta s"
          "fm_prot s2 = fm_prot s" "\<forall>k. k \<notin> fm_meta s \<longrightarrow> cache_view s2 k = cache_view s k" by auto
        have "used s2 = used s1" using 2(4) by (simp add: used_def s1_def)
        with 2 Inr r k least used1 show ?thesis unfolding al by simp
      qed
    qed
  qed
qed

section \<open>The free map is a sector allocator\<close>

lemma fm_inv_cache:
  assumes inv: "fm_inv s" and c: "cache_inv s'" "cache_frame s s'"
    and v: "\<forall>k\<in>fm_meta s. cache_view s' k = cache_view s k"
  shows "fm_inv s'" "fm_meta s' = fm_meta s" "fm_prot s' = fm_prot s"
proof -
  note same = cache_frame_fs [OF c(2)]
  have ino: "fm_inode s' = fm_inode s" by (rule fm_inode_cong) (simp_all add: same)
  then show "fm_prot s' = fm_prot s" by (simp add: fm_prot_def fun_eq_iff)
  show "fm_meta s' = fm_meta s" by (rule fm_meta_cong [OF ino same(3)])
  have "fm_file_wf s' i \<and> file_bytes s' (idata i) = file_bytes s (idata i)"
    if i: "fm_inode s = Some (p, i)" "fm_file_wf s i" for p i
  proof -
    have "fm_meta s = set (data_sectors s (idata i))" using i by (simp add: fm_meta_def)
    with v have "map (cache_view s') (data_sectors s (idata i)) = map (cache_view s) (data_sectors s (idata i))"
      by simp
    then have "file_raw s' (idata i) = file_raw s (idata i)" "file_bytes s' (idata i) = file_bytes s (idata i)"
      by (simp_all only: file_raw_def file_bytes_def data_sectors_cong [OF same(3)])
    with i(2) c(2) show ?thesis
      by (simp add: fm_file_wf_def file_ok_def data_sectors_cong [OF same(3)] inode_wf_cong [OF same(3)]
          cache_frame_used [OF c(2)]) (simp add: cache_frame_def)
  qed
  with inv ino same base_inv_frame [OF _ c] show "fm_inv s'" by (auto simp: fm_inv_def)
qed

lemma fm_inv_arrays:
  assumes inv: "fm_inv s" and a: "a \<noteq> 0" "a \<le> malloc_cnt s"
    and s': "s' = s\<lparr>sector_arrays := (sector_arrays s)(a \<mapsto> xs)\<rparr>"
  shows "fm_inv s'" "fm_meta s' = fm_meta s" "fm_prot s' = fm_prot s"
proof -
  have ino: "fm_inode s' = fm_inode s" by (rule fm_inode_cong) (simp_all add: s')
  then show "fm_prot s' = fm_prot s" by (simp add: fm_prot_def fun_eq_iff)
  have base: "base_inv s" and base': "base_inv s'" using inv a by (auto simp: fm_inv_def base_inv_def s')
  have wf: "fm_file_wf s i" if "fm_inode s = Some (p, i)" for p i
    using that inv by (cases "free_map_file s") (auto simp: fm_inv_def fm_inode_def)
  have view: "cache_view s' = cache_view s" "used s' = used s" by (simp_all add: s')
  note direct = file_ok_arrays [OF fm_direct(1) [OF base wf] view]
  show "fm_meta s' = fm_meta s"
    using direct(3) by (auto simp: fm_meta_def ino split: option.splits)
  have disk: "filesys_disk s' = filesys_disk s" "free_map_file s' = free_map_file s" "free_map s' = free_map s"
    by (simp_all add: s')
  have "fm_file_wf s' i \<and> file_bytes s' (idata i) = file_bytes s (idata i)" if "fm_inode s = Some (p, i)" for p i
    using wf [OF that] direct [OF that] disk by (simp add: fm_file_wf_def)
  with inv base' ino disk show "fm_inv s'" by (auto simp: fm_inv_def)
qed

lemma fm_inv_inode:
  assumes inv: "fm_inv s" and p: "\<not> fm_prot s p" and s': "s' = put_idata s p di"
  shows "fm_inv s'" "fm_meta s' = fm_meta s" "fm_prot s' = fm_prot s"
proof -
  have s'': "s' = s\<lparr>inodes := (inodes s)(p := map_option (\<lambda>i. i\<lparr>idata := di\<rparr>) (inodes s p))\<rparr>"
    by (simp add: s' put_idata_def)
  have ino: "fm_inode s' = fm_inode s"
    using p by (auto simp: fm_prot_def fm_inode_def s'' split: option.splits)
  then show "fm_prot s' = fm_prot s" by (simp add: fm_prot_def fun_eq_iff)
  show "fm_meta s' = fm_meta s" by (rule fm_meta_cong [OF ino]) (simp add: s'')
  have "base_inv s'" using inv by (simp add: fm_inv_def base_inv_def s'')
  with inv ino show "fm_inv s'" by (auto simp: fm_inv_def fm_file_wf_def s'')
qed

lemma fm_meta_used: "fm_inv s \<Longrightarrow> fm_meta s \<subseteq> used s"
  using fm_file_used [of s] by (auto simp: fm_meta_def split: option.splits)

lemma free_map_allocate_ready:
  assumes inv: "fm_inv s" and rdy: "fs_ready s" and room: "0 < room s"
  shows "\<exists>s' k. free_map_allocate s 1 = Inr (s', Some k) \<and> fs_ready s'"
proof -
  have base: "base_inv s" using inv by (simp add: fm_inv_def)
  from room obtain j where j: "Suc j < capacity (filesys_disk s)" "j \<notin> used s"
    by (auto simp: room_def card_gt_0_iff)
  have "\<forall>k\<in>fm_meta s. cache_ready s k"
    using fm_meta_used [OF inv] fs_ready_cache [OF base rdy] by blast
  with free_map_allocate_result [OF inv] j obtain s' k where
    a: "free_map_allocate s 1 = Inr (s', Some k)" "fs_same s s'" "\<forall>j<k. j \<in> used s" "used s' = insert k (used s)"
    by (auto split: sum.splits option.splits prod.splits)
  have "k \<le> j" using a(3) j(2) not_le by blast
  then have "fs_ready s'" using a rdy j(1) by (auto simp: fs_ready_def fs_same_def)
  with a(1) show ?thesis by blast
qed

interpretation fm: total_allocator free_map_allocate fm_inv fm_meta fm_prot
proof
  fix s s' :: fs and k
  show "base_inv s" if "fm_inv s" using that by (simp add: fm_inv_def)
  show "fm_inv s' \<and> fs_same s s' \<and> k \<notin> used s \<and> used s' = insert k (used s) \<and> fm_meta s' = fm_meta s
      \<and> fm_prot s' = fm_prot s \<and> (\<forall>j. j \<notin> fm_meta s \<longrightarrow> cache_view s' j = cache_view s j)"
    if "fm_inv s" "free_map_allocate s 1 = Inr (s', Some k)"
    using free_map_allocate_result [OF that(1)] that(2) by simp
  show "fm_meta s \<subseteq> used s" if "fm_inv s" using fm_meta_used [OF that] .
  show "fm_inv s' \<and> fm_meta s' = fm_meta s \<and> fm_prot s' = fm_prot s"
    if "fm_inv s" "cache_inv s'" "cache_frame s s'" "\<forall>k\<in>fm_meta s. cache_view s' k = cache_view s k"
    using fm_inv_cache [OF that] by simp
next
  fix s a xs p di
  show "fm_inv (s\<lparr>sector_arrays := (sector_arrays s)(a \<mapsto> xs)\<rparr>)
      \<and> fm_meta (s\<lparr>sector_arrays := (sector_arrays s)(a \<mapsto> xs)\<rparr>) = fm_meta s
      \<and> fm_prot (s\<lparr>sector_arrays := (sector_arrays s)(a \<mapsto> xs)\<rparr>) = fm_prot s"
    if "fm_inv s" "a \<noteq> 0" "a \<le> malloc_cnt s"
    using fm_inv_arrays [OF that refl] by blast
  show "fm_inv (put_idata s p di) \<and> fm_meta (put_idata s p di) = fm_meta s
      \<and> fm_prot (put_idata s p di) = fm_prot s" if "fm_inv s" "\<not> fm_prot s p"
    using fm_inv_inode [OF that refl] by blast
  show "\<exists>s' k. free_map_allocate s 1 = Inr (s', Some k) \<and> fs_ready s'" if "fm_inv s" "fs_ready s" "0 < room s"
    by (rule free_map_allocate_ready [OF that])
qed

section \<open>A small file system\<close>

text \<open>
  A disk of 64 sectors with three open files: the free map with its inode in sector 0 and its bits in
  sector 5, an empty file with its inode in sector 2, and one of five bytes with its inode in
  sector 3 and its data in sector 4. Sector 1 is the one of the root directory. The witnesses below run on it.
\<close>

definition sample_inode :: inode where
  "sample_inode = \<lparr>sector = 2, open_cnt = 1, removed = False, deny_write_cnt = 0,
     idata = \<lparr>ilength = 0, magic = INODE_MAGIC, start = replicate 122 0, indirect = 0,
              doubly_indirect = 0, isdir = False, idir = 0\<rparr>\<rparr>"

definition hello_inode :: inode where
  "hello_inode = \<lparr>sector = 3, open_cnt = 1, removed = False, deny_write_cnt = 0,
     idata = \<lparr>ilength = 5, magic = INODE_MAGIC, start = 4 # replicate 121 0, indirect = 0,
              doubly_indirect = 0, isdir = False, idir = 0\<rparr>\<rparr>"

definition map_inode :: inode where
  "map_inode = \<lparr>sector = 0, open_cnt = 1, removed = False, deny_write_cnt = 0,
     idata = \<lparr>ilength = 8, magic = INODE_MAGIC, start = 5 # replicate 121 0, indirect = 0,
              doubly_indirect = 0, isdir = False, idir = 0\<rparr>\<rparr>"

definition hello_sector :: "byte list" where
  "hello_sector = [104, 101, 108, 108, 111] @ replicate 507 0"

definition sample_fs :: fs where
  "sample_fs = \<lparr>filesys_disk = \<lparr>capacity = 64,
       sectors = (\<lambda>k. if k = 4 then hello_sector else if k = 5 then le_words [mask 6, 0] @ replicate 504 0 else zero_sector),
       read_cnt = 0, write_cnt = 0\<rparr>,
     buffer_cache_list = [], mallocs = (\<lambda>_. True), malloc_cnt = 8,
     inodes = [6 \<mapsto> map_inode, 7 \<mapsto> sample_inode, 8 \<mapsto> hello_inode], open_inodes = [8, 7, 6], sector_arrays = Map.empty,
     pointer_arrays = Map.empty, files = [5 \<mapsto> \<lparr>f_inode = 6, f_pos = 0, f_deny_write = False, f_dir = None\<rparr>], dirs = Map.empty,
     free_map = \<lparr>bit_cnt = 64, bits = [mask 6, 0]\<rparr>, free_map_file = Some 5, curr_dir = None,
     garbage = (\<lambda>_. [])\<rparr>"

lemma sample_used: "used sample_fs = {..<6}"
proof -
  have "bitmap_bit \<lparr>bit_cnt = 64, bits = [mask 6, 0]\<rparr> k \<longleftrightarrow> k < 6" if "k < 64" for k
  proof (cases "k < 32")
    case True
    then show ?thesis by (simp add: bitmap_bit_def bit_mask_iff)
  next
    case False
    with that have "k div 32 = 1" by simp
    with False show ?thesis by (simp add: bitmap_bit_def)
  qed
  then show ?thesis by (auto simp: used_def sample_fs_def)
qed

lemma sample_disk: "base_inv sample_fs" "fs_ready sample_fs" "capacity (filesys_disk sample_fs) = 64"
  by (simp_all add: base_inv_def fs_ready_def sample_used)
    (simp_all add: sample_fs_def cache_inv_def zero_sector_def hello_sector_def DISK_SECTOR_SIZE_def
      bitmap_inv_def elem_cnt_def)

text \<open>The free map file holds the bits of the free map.\<close>

lemma sample_map:
  "fm_inode sample_fs = Some (6, map_inode)" "data_sectors sample_fs (idata map_inode) = [5]"
  "fm_file_wf sample_fs map_inode" "file_bytes sample_fs (idata map_inode) = le_words (bits (free_map sample_fs))"
proof -
  show "fm_inode sample_fs = Some (6, map_inode)" by (simp add: fm_inode_def sample_fs_def)
  have n: "bytes_to_sectors 8 = 1" by (simp add: bytes_to_sectors_eq)
  then show d: "data_sectors sample_fs (idata map_inode) = [5]" by (simp add: data_sectors_def map_inode_def DIRECT_POINTERS_def)
  have "cache_view sample_fs 5 = le_words [mask 6, 0] @ replicate 504 0" by (simp add: cache_view_def sample_fs_def)
  then have r: "file_raw sample_fs (idata map_inode) = le_words [mask 6, 0] @ replicate 504 0" by (simp add: file_raw_def d)
  have l: "length (le_words [mask 6, 0 :: u32]) = 8" by simp
  from r l show b: "file_bytes sample_fs (idata map_inode) = le_words (bits (free_map sample_fs))"
    by (simp add: file_bytes_def map_inode_def sample_fs_def)
  have "inode_wf sample_fs (idata map_inode)" by (simp add: inode_wf_def map_inode_def n DIRECT_POINTERS_def)
  moreover have "file_raw sample_fs (idata map_inode) = file_bytes sample_fs (idata map_inode) @ replicate 504 0"
    using r b by (simp add: sample_fs_def)
  ultimately have "file_ok sample_fs {} 0 (idata map_inode)" using n by (simp add: file_ok_def d sample_used) (simp add: map_inode_def)
  then show "fm_file_wf sample_fs map_inode" by (simp add: fm_file_wf_def sample_disk byte_cnt_def elem_cnt_def) (simp add: map_inode_def)
qed

lemma sample_inv: "fm_inv sample_fs" "fs_ready sample_fs" "fm_meta sample_fs = {5}" "fm_prot sample_fs p \<longleftrightarrow> p = 6"
  using sample_disk sample_map by (auto simp: fm_inv_def fm_meta_def fm_prot_def)

lemma sample_file:
  "inodes sample_fs 7 = Some sample_inode" "file_ok sample_fs {5} 2 (idata sample_inode)"
  "ilength (idata sample_inode) = 0" "deny_write_cnt sample_inode = 0" "sector sample_inode = 2"
  "capacity (filesys_disk sample_fs) = 64" "file_bytes sample_fs (idata sample_inode) = []"
  "bytes_to_sectors 0 = 0"
proof -
  have "bytes_to_sectors 0 = 0" by (simp add: bytes_to_sectors_eq)
  then show "file_ok sample_fs {5} 2 (idata sample_inode)" "bytes_to_sectors 0 = 0"
    by (simp_all add: file_ok_def inode_wf_def data_sectors_def file_raw_def file_bytes_def sample_used)
      (simp_all add: sample_inode_def DIRECT_POINTERS_def)
qed (simp_all add: sample_fs_def sample_inode_def file_bytes_def)

lemma hello_file:
  "inodes sample_fs 8 = Some hello_inode" "inode_wf sample_fs (idata hello_inode)"
  "data_sectors sample_fs (idata hello_inode) = [4]" "ilength (idata hello_inode) = 5"
  "file_bytes sample_fs (idata hello_inode) = [104, 101, 108, 108, 111]" "deny_write_cnt hello_inode = 0"
proof -
  have "bytes_to_sectors 5 = 1" by (simp add: bytes_to_sectors_eq)
  moreover have "cache_view sample_fs 4 = hello_sector" by (simp add: cache_view_def sample_fs_def)
  ultimately show "inode_wf sample_fs (idata hello_inode)" "data_sectors sample_fs (idata hello_inode) = [4]"
      "file_bytes sample_fs (idata hello_inode) = [104, 101, 108, 108, 111]"
    by (simp_all add: inode_wf_def hello_inode_def data_sectors_def DIRECT_POINTERS_def file_bytes_def
        file_raw_def hello_sector_def)
qed (simp_all add: sample_fs_def hello_inode_def)

lemma sample_room: "room sample_fs = 57"
proof -
  have "{k. Suc k < 64 \<and> k \<notin> {..<6}} = {6..<63::nat}" by auto
  then show ?thesis by (simp add: room_def sample_used sample_file)
qed

lemma sample_cache: "cache_inv sample_fs" "k < 6 \<Longrightarrow> cache_ready sample_fs k"
  using sample_inv fs_ready_cache [of sample_fs k] by (simp_all add: fm_inv_def base_inv_def sample_used)

theorem inode_read_at_returns_bytes_witness:
  "\<exists>s'. inode_read_at no_alloc sample_fs 8 [0, 0, 0, 0] 100 2 = Inr (s', [108, 108, 111, 0], 3)"
  using inode_read_at_returns_bytes [OF sample_cache(1) hello_file(1,2), of 2 100 "[0, 0, 0, 0]" no_alloc]
  by (auto simp: hello_file sample_cache overwrite_def)

theorem inode_write_at_inside_witness:
  "\<exists>s'. inode_write_at no_alloc sample_fs 8 [97, 98] 2 3 = Inr (s', 2)
    \<and> file_bytes s' (idata hello_inode) = [104, 101, 108, 97, 98]"
  using inode_write_at_inside [OF sample_cache(1) hello_file(1,2), of 3 2 "[97, 98]" no_alloc]
  by (auto simp: hello_file sample_cache overwrite_def)

section \<open>The complete system\<close>

text \<open>
  C27: allocating a sector. When the sectors of the free map file can be cached (memory, and none of
  them the last of the disk), allocation never faults and never recurses; it returns the
  lowest sector that is not in use, marks exactly that one, writes the new free map to its
  file, and changes no sector outside that file. It fails exactly when every sector is in
  use; the comment in the source has that case the other way round.
\<close>

theorem free_map_allocate_first_fit:
  assumes "fm_inv s" and "\<forall>k\<in>fm_meta s. cache_ready s k"
  shows "\<exists>s' r. free_map_allocate s 1 = Inr (s', r)
    \<and> (r = None \<longleftrightarrow> used s = {..<capacity (filesys_disk s)})
    \<and> (\<forall>k. r = Some k \<longrightarrow> k < capacity (filesys_disk s) \<and> k \<notin> used s \<and> (\<forall>j<k. j \<in> used s)
         \<and> used s' = insert k (used s) \<and> fm_inv s'
         \<and> (\<forall>p i. fm_inode s = Some (p, i) \<longrightarrow> fm_inode s' = Some (p, i) \<and> file_bytes s' (idata i) = le_words (bits (free_map s')))
         \<and> (\<forall>j. j \<notin> fm_meta s \<longrightarrow> cache_view s' j = cache_view s j))"
proof (cases "free_map_allocate s 1")
  case (Inl e)
  with free_map_allocate_result [OF assms(1)] assms(2) show ?thesis by simp
next
  case (Inr x)
  obtain s' r where x: "x = (s', r)" by (cases x)
  show ?thesis
  proof (cases r)
    case None
    with free_map_allocate_result [OF assms(1)] Inr x show ?thesis by simp
  next
    case (Some k)
    with free_map_allocate_result [OF assms(1)] Inr x have k: "k < capacity (filesys_disk s)" "k \<notin> used s"
      "\<forall>j<k. j \<in> used s" "used s' = insert k (used s)" "fm_inv s'"
      "\<forall>j. j \<notin> fm_meta s \<longrightarrow> cache_view s' j = cache_view s j" and same: "fs_same s s'" by auto
    have "fm_inode s' = fm_inode s" using same by (intro fm_inode_cong) (simp_all add: fs_same_def)
    then have "\<forall>p i. fm_inode s = Some (p, i) \<longrightarrow> fm_inode s' = Some (p, i) \<and> file_bytes s' (idata i) = le_words (bits (free_map s'))"
      using k(5) by (auto simp: fm_inv_def fm_inode_def split: option.splits)
    with Inr x Some k show ?thesis by auto
  qed
qed

theorem free_map_allocate_first_fit_witness:
  "free_map_file sample_fs = Some 5 \<and> fm_meta sample_fs = {5} \<and> used sample_fs = {..<6}
   \<and> (\<exists>s'. free_map_allocate sample_fs 1 = Inr (s', Some 6) \<and> used s' = insert 6 {..<6}
        \<and> fm_inode s' = Some (6, map_inode) \<and> file_bytes s' (idata map_inode) = le_words (bits (free_map s')))"
proof -
  have rdy: "\<forall>k\<in>fm_meta sample_fs. cache_ready sample_fs k" by (simp add: sample_inv sample_cache)
  obtain s' r where 1: "free_map_allocate sample_fs 1 = Inr (s', r)" and 2: "r = None \<longleftrightarrow> used sample_fs = {..<capacity (filesys_disk sample_fs)}"
    and 3: "\<forall>k. r = Some k \<longrightarrow> k < capacity (filesys_disk sample_fs) \<and> k \<notin> used sample_fs \<and> (\<forall>j<k. j \<in> used sample_fs)
         \<and> used s' = insert k (used sample_fs) \<and> fm_inv s'
         \<and> (\<forall>p i. fm_inode sample_fs = Some (p, i) \<longrightarrow> fm_inode s' = Some (p, i) \<and> file_bytes s' (idata i) = le_words (bits (free_map s')))
         \<and> (\<forall>j. j \<notin> fm_meta sample_fs \<longrightarrow> cache_view s' j = cache_view sample_fs j)"
    using free_map_allocate_first_fit [OF sample_inv(1) rdy] by (elim exE conjE) (rule that)
  from 2 have "r \<noteq> None" by (simp add: sample_used sample_file)
  then obtain k where k: "r = Some k" by blast
  note 5 = 3 [THEN spec, THEN mp, OF k]
  have 4: "k \<notin> used sample_fs" "\<forall>j<k. j \<in> used sample_fs" "used s' = insert k (used sample_fs)"
    by (rule 5 [THEN conjunct2, THEN conjunct1] 5 [THEN conjunct2, THEN conjunct2, THEN conjunct1]
      5 [THEN conjunct2, THEN conjunct2, THEN conjunct2, THEN conjunct1])+
  have 6: "fm_inode s' = Some (6, map_inode) \<and> file_bytes s' (idata map_inode) = le_words (bits (free_map s'))"
    using 5 sample_map(1) by (elim conjE) (simp only:)
  have "6 \<le> k" using 4(1) by (simp add: sample_used)
  moreover have "\<not> 6 < k" using 4(2) sample_used by auto
  ultimately have "k = 6" by simp
  moreover have "free_map_file sample_fs = Some 5" by (simp add: sample_fs_def)
  ultimately show ?thesis using 1 k 4(3) 6 by (intro conjI exI [of _ s']) (simp_all add: sample_used sample_inv)
qed

text \<open>
  C25: growing a file. With memory, free sectors and a new length of at most 256 KiB, the 512
  sectors of one indirect block, \<open>inode_grow\<close> succeeds, the file becomes the old bytes
  followed by zeros, the on-disk inode is rewritten, and the file system stays consistent: the
  sectors of the file are its own, and no sector in use outside the file, its inode and the
  free map changes. The last sector of the disk does not count as free: using it panics
  in the read-ahead. For lengths past 256 KiB nothing is claimed: there the code indexes the
  first indirect block where it means the doubly indirect one.
\<close>

theorem inode_grow_appends_zeros:
  assumes "fm_inv s" "fs_ready s" "file_ok s (fm_meta s) sec di"
    and "ilength di < len" "len \<le> 512 * 512" "len \<le> 512 * int (capacity (filesys_disk s))"
    and "bytes_to_sectors len - bytes_to_sectors (ilength di) \<le> room s"
  shows "\<exists>s' di'. inode_grow free_map_allocate s sec di len = Inr (s', di', True)
    \<and> fm_inv s' \<and> fs_ready s' \<and> fm_meta s' = fm_meta s \<and> file_ok s' (fm_meta s) sec di' \<and> ilength di' = len
    \<and> file_bytes s' di' = file_bytes s di @ replicate (nat (len - ilength di)) 0
    \<and> cache_view s' sec = inode_disk_bytes di' \<and> file_step s s' (fm_meta s) sec di di'"
proof -
  from fm.inode_grow_total [OF assms(1,3,2,5,6,7)] obtain s' di' b where
    g: "inode_grow free_map_allocate s sec di len = Inr (s', di', b)" "fs_ready s'" by blast
  note sp = fm.inode_grow_spec [OF assms(1,3,5) g(1)]
  have "max (ilength di) len = len" using assms(4) by simp
  with g sp assms(4) show ?thesis by (intro exI [of _ s'] exI [of _ di']) simp
qed

theorem inode_grow_appends_zeros_witness:
  "\<exists>s' di'. inode_grow free_map_allocate sample_fs 2 (idata sample_inode) 700 = Inr (s', di', True)
    \<and> file_bytes s' di' = replicate 700 0"
proof -
  have "bytes_to_sectors 700 = 2" by (simp add: bytes_to_sectors_eq)
  then show ?thesis
    using inode_grow_appends_zeros [OF sample_inv(1,2), of 2 "idata sample_inode" 700]
    by (auto simp: sample_inv sample_file sample_room)
qed

lemma inode_write_at_grows:
  assumes "fm_inv s" "fs_ready s" "\<not> fm_prot s p" "inodes s p = Some i"
    and "file_ok s (fm_meta s) (sector i) (idata i)" "deny_write_cnt i = 0"
    and "0 \<le> offset" "0 < sz" "nat sz \<le> length buf"
    and "offset + sz \<le> 512 * 512" "offset + sz \<le> 512 * int (capacity (filesys_disk s))"
    and "bytes_to_sectors (offset + sz) - bytes_to_sectors (ilength (idata i)) \<le> room s"
    and "\<not> write_stuck (ilength (idata i)) sz offset"
  shows "\<exists>s' di. inode_write_at free_map_allocate s p buf sz offset = Inr (s', sz)
    \<and> inodes s' = (inodes s)(p \<mapsto> i\<lparr>idata := di\<rparr>) \<and> fm_inv s' \<and> fs_ready s'
    \<and> file_ok s' (fm_meta s) (sector i) di \<and> ilength di = max (ilength (idata i)) (offset + sz)
    \<and> file_bytes s' di = overwrite (file_bytes s (idata i)
          @ replicate (nat (offset + sz - ilength (idata i))) 0) (nat offset) (take (nat sz) buf)
    \<and> file_step s s' (fm_meta s) (sector i) (idata i) di"
proof -
  have ok: "fm.file_open_ok s (fm_meta s) (fm_prot s) p i"
    using assms(1,3,4,5) by (simp add: fm.file_open_ok_def)
  from fm.inode_write_at_total [OF ok assms(2,8,10,7,11,12,13,9)] obtain s' n where
    w: "inode_write_at free_map_allocate s p buf sz offset = Inr (s', n)" "fs_ready s'" by blast
  from fm.inode_write_at_spec [OF ok assms(8,10,7,9,6,13) w(1)] w(2) w(1) show ?thesis
    by (auto simp: fm.file_open_ok_def)
qed

text \<open>
  C24: writing, with growth. For a write that ends within 256 KiB and is not one of the stuck
  ones (\<open>write_stuck\<close>, the property after this one), with memory and free sectors for the new length,
  \<open>inode_write_at\<close> writes all the bytes: the file afterwards is the old byte string, extended
  with zeros up to the end of the write, overwritten at the offset. Everything else that is in use keeps its contents.
  The comment in the source says that growth is not implemented; the code implements it.
\<close>

theorem inode_write_at_extends:
  assumes "fm_inv s" "fs_ready s" "\<not> fm_prot s p" "inodes s p = Some i"
    and "file_ok s (fm_meta s) (sector i) (idata i)" "deny_write_cnt i = 0"
    and "0 \<le> offset" "0 < sz" "nat sz \<le> length buf"
    and "offset + sz \<le> 512 * 512" "offset + sz \<le> 512 * int (capacity (filesys_disk s))"
    and "bytes_to_sectors (offset + sz) - bytes_to_sectors (ilength (idata i)) \<le> room s"
    and "\<not> write_stuck (ilength (idata i)) sz offset"
  shows "\<exists>s' di. inode_write_at free_map_allocate s p buf sz offset = Inr (s', sz)
    \<and> inodes s' = (inodes s)(p \<mapsto> i\<lparr>idata := di\<rparr>) \<and> fm_inv s' \<and> fs_ready s'
    \<and> file_ok s' (fm_meta s) (sector i) di \<and> ilength di = max (ilength (idata i)) (offset + sz)
    \<and> file_bytes s' di = overwrite (file_bytes s (idata i)
          @ replicate (nat (offset + sz - ilength (idata i))) 0) (nat offset) (take (nat sz) buf)
    \<and> file_step s s' (fm_meta s) (sector i) (idata i) di"
  by (rule inode_write_at_grows [OF assms])

theorem inode_write_at_extends_witness:
  "\<exists>s' di. inode_write_at free_map_allocate sample_fs 7 [7, 8, 9] 3 600 = Inr (s', 3)
    \<and> file_bytes s' di = replicate 600 0 @ [7, 8, 9]"
proof -
  have "bytes_to_sectors 603 = 2" by (simp add: bytes_to_sectors_eq)
  moreover have "\<not> write_stuck 0 3 600" by (simp add: write_stuck_def)
  ultimately show ?thesis
    using inode_write_at_extends [OF sample_inv(1,2), of 7 sample_inode 600 3 "[7, 8, 9]"]
    by (auto simp: sample_inv sample_file sample_room overwrite_def)
qed

text \<open>
  C29: the stuck writes. When the file is shorter than the offset within its sector and
  \<open>min size 512\<close> bytes of growth end exactly there, \<open>inode_write_at\<close> extends the file with
  zeros up to the offset, writes none of the bytes and returns 0, for instance for 100 bytes
  at offset 100 of an empty file.
\<close>

theorem inode_write_at_writes_nothing:
  assumes "fm_inv s" "fs_ready s" "\<not> fm_prot s p" "inodes s p = Some i"
    and "file_ok s (fm_meta s) (sector i) (idata i)" "deny_write_cnt i = 0"
    and "0 \<le> offset" "0 < sz" "offset + sz \<le> 512 * 512" "offset + sz \<le> 512 * int (capacity (filesys_disk s))"
    and "bytes_to_sectors offset - bytes_to_sectors (ilength (idata i)) \<le> room s"
    and "write_stuck (ilength (idata i)) sz offset"
  shows "\<exists>s' di. inode_write_at free_map_allocate s p buf sz offset = Inr (s', 0)
    \<and> inodes s' p = Some (i\<lparr>idata := di\<rparr>)
    \<and> file_bytes s' di = file_bytes s (idata i) @ replicate (nat (offset - ilength (idata i))) 0"
proof -
  have "fm.file_open_ok s (fm_meta s) (fm_prot s) p i"
    using assms(1-5) by (simp add: fm.file_open_ok_def)
  from fm.inode_write_at_stuck [OF this assms(2,6,8,9,7,10,11,12)] show ?thesis .
qed

theorem inode_write_at_writes_nothing_witness:
  "\<exists>s'. inode_write_at free_map_allocate sample_fs 7 (replicate 100 255) 100 100 = Inr (s', 0)"
proof -
  have "bytes_to_sectors 100 = 1" by (simp add: bytes_to_sectors_eq)
  then show ?thesis
    using inode_write_at_writes_nothing [OF sample_inv(1,2), of 7 sample_inode 100 100 "replicate 100 255"]
    by (auto simp: sample_inv sample_file sample_room write_stuck_def)
qed

section \<open>Open files\<close>

text \<open>The table of open files is no part of what the invariants of the file system speak of.\<close>

lemma files_update [simp]:
  "cache_view (s\<lparr>files := e\<rparr>) = cache_view s" "data_sectors (s\<lparr>files := e\<rparr>) = data_sectors s"
  "file_bytes (s\<lparr>files := e\<rparr>) = file_bytes s" "inode_wf (s\<lparr>files := e\<rparr>) = inode_wf s"
  "file_ok (s\<lparr>files := e\<rparr>) = file_ok s" "room (s\<lparr>files := e\<rparr>) = room s" "used (s\<lparr>files := e\<rparr>) = used s"
  "fs_ready (s\<lparr>files := e\<rparr>) = fs_ready s" "cache_ready (s\<lparr>files := e\<rparr>) = cache_ready s"
proof -
  show d [simp]: "data_sectors (s\<lparr>files := e\<rparr>) = data_sectors s" by (intro ext data_sectors_cong) simp
  have r [simp]: "file_raw (s\<lparr>files := e\<rparr>) = file_raw s" by (intro ext) (simp add: file_raw_def)
  show b [simp]: "file_bytes (s\<lparr>files := e\<rparr>) = file_bytes s" by (intro ext) (simp add: file_bytes_def)
  show w [simp]: "inode_wf (s\<lparr>files := e\<rparr>) = inode_wf s" by (intro ext inode_wf_cong) simp
  show u [simp]: "used (s\<lparr>files := e\<rparr>) = used s" by (simp add: used_def)
  show "file_ok (s\<lparr>files := e\<rparr>) = file_ok s" by (intro ext) (simp add: file_ok_def)
  show "room (s\<lparr>files := e\<rparr>) = room s" by (simp add: room_def)
  show "fs_ready (s\<lparr>files := e\<rparr>) = fs_ready s" by (simp add: fs_ready_def)
  show "cache_ready (s\<lparr>files := e\<rparr>) = cache_ready s" by (intro ext) (simp add: cache_ready_def)
qed simp

text \<open>An update of the files that leaves the free map's own file alone.\<close>

lemma fm_files_update:
  assumes "\<And>f. free_map_file s = Some f \<Longrightarrow> map_option f_inode (e f) = map_option f_inode (files s f)"
  shows "fm_inv (s\<lparr>files := e\<rparr>) = fm_inv s" "fm_meta (s\<lparr>files := e\<rparr>) = fm_meta s"
    "fm_prot (s\<lparr>files := e\<rparr>) = fm_prot s"
proof -
  have i: "fm_inode (s\<lparr>files := e\<rparr>) = fm_inode s"
    using assms by (auto simp: fm_inode_def split: option.splits)
  then show "fm_meta (s\<lparr>files := e\<rparr>) = fm_meta s" by (simp add: fm_meta_def split: option.split)
  from i show "fm_prot (s\<lparr>files := e\<rparr>) = fm_prot s" by (intro ext) (simp add: fm_prot_def)
  have "base_inv (s\<lparr>files := e\<rparr>) = base_inv s" by (simp add: base_inv_def)
  with i show "fm_inv (s\<lparr>files := e\<rparr>) = fm_inv s" by (simp add: fm_inv_def fm_file_wf_def)
qed

end
