(* ===== verification/Directory.thy ===== *)
theory Directory
  imports Free_Map
begin

text \<open>
  Directories (\<open>src/filesys/directory.c\<close>) and the file system operations by name
  (\<open>src/filesys/filesys.c\<close>).

  A directory is a file of 24-byte entries. An entry is modelled as its bytes, since the code
  reads an entry, changes some fields and writes the whole structure back: bytes 0 to 3 are
  the inode sector, 4 to 18 the name, 19 \<open>in_use\<close>, 20 \<open>isfile\<close>, and three bytes of padding.
  A name is its characters without the terminating null byte. The structure an operation
  declares on its stack starts out as \<open>garbage s 0\<close>.

  The loops over a directory run until a short read; they are bounded by the number of
  entries plus two (\<open>scan_fuel\<close>), and \<open>dir_scan_spec\<close> of \<open>Directory_Spec\<close> shows the bound is never reached.
\<close>

section \<open>Directory entries\<close>

definition NAME_MAX :: nat where
  "NAME_MAX = 14"

definition dir_entry_size :: nat where
  "dir_entry_size = 24"

definition de_inode_sector :: "byte list \<Rightarrow> nat" where
  "de_inode_sector e = unat (le_word (take 4 e))"

definition de_name :: "byte list \<Rightarrow> byte list" where
  "de_name e = takeWhile (\<lambda>b. b \<noteq> 0) (drop 4 e)"

definition de_in_use :: "byte list \<Rightarrow> bool" where
  "de_in_use e \<longleftrightarrow> e ! 19 \<noteq> 0"

definition set_in_use :: "byte list \<Rightarrow> bool \<Rightarrow> byte list" where
  "set_in_use e b = e[19 := if b then 1 else 0]"

definition set_inode_sector :: "byte list \<Rightarrow> nat \<Rightarrow> byte list" where
  "set_inode_sector e sec = overwrite e 0 (le_bytes (word_of_nat sec))"

text \<open>\<open>strlcpy (e.name, name, sizeof e.name)\<close>.\<close>

definition set_name :: "byte list \<Rightarrow> byte list \<Rightarrow> byte list" where
  "set_name e name = overwrite e 4 (take NAME_MAX name @ [0])"

section \<open>Scanning\<close>

definition scan_fuel :: "fs \<Rightarrow> nat \<Rightarrow> nat" where
  "scan_fuel s p = (case inodes s p of None \<Rightarrow> 1 | Some i \<Rightarrow> nat (inode_length i) div dir_entry_size + 2)"

fun dir_scan :: "nat \<Rightarrow> fs \<Rightarrow> nat \<Rightarrow> (byte list \<Rightarrow> bool) \<Rightarrow> byte list \<Rightarrow> int
    \<Rightarrow> (fs \<times> byte list \<times> int \<times> bool) res" where
  "dir_scan 0 s p P e ofs = Inl OutOfFuel"
| "dir_scan (Suc n) s p P e ofs =
     rbind (inode_read_at free_map_allocate s p e (int dir_entry_size) ofs) (\<lambda>(s1, e1, k).
       if k \<noteq> int dir_entry_size then Inr (s1, e1, ofs, False)
       else if P e1 then Inr (s1, e1, ofs, True)
       else dir_scan n s1 p P e1 (s32_of (ofs + int dir_entry_size)))"

definition get_dir :: "fs \<Rightarrow> nat \<Rightarrow> dir res" where
  "get_dir s d = (case dirs s d of None \<Rightarrow> Inl PageFault | Some x \<Rightarrow> Inr x)"

definition lookup :: "fs \<Rightarrow> nat \<Rightarrow> byte list \<Rightarrow> (fs \<times> (byte list \<times> int) option) res" where
  "lookup s d name =
     rbind (get_dir s d) (\<lambda>x.
       rbind (dir_scan (scan_fuel s (d_inode x)) s (d_inode x)
                (\<lambda>e. de_in_use e \<and> de_name e = name) (garbage s 0) 0) (\<lambda>(s1, e, ofs, found).
         Inr (s1, if found then Some (e, ofs) else None)))"

section \<open>Opening directories\<close>

definition dir_create :: "fs \<Rightarrow> nat \<Rightarrow> nat \<Rightarrow> (fs \<times> bool) res" where
  "dir_create s sec entry_cnt =
     inode_create free_map_allocate s sec (s32_of (int (entry_cnt * dir_entry_size))) True"

definition dir_open :: "fs \<Rightarrow> nat option \<Rightarrow> (fs \<times> nat option) res" where
  "dir_open s inode =
     (case kalloc s of
        (s1, dir) \<Rightarrow>
          (case (inode, dir) of
             (Some p, Some d) \<Rightarrow>
               rbind (get_inode s1 p) (\<lambda>i.
                 Inr (s1\<lparr>dirs := (dirs s1)(d \<mapsto> \<lparr>d_inode = p, d_pos = 0\<rparr>), curr_dir := Some d,
                         inodes := (inodes s1)(p \<mapsto> i\<lparr>idata := (idata i)\<lparr>idir := d\<rparr>,
                                                       open_cnt := s32_of (open_cnt i + 1)\<rparr>)\<rparr>, Some d))
           | _ \<Rightarrow> rbind (inode_close free_map_release s1 inode) (\<lambda>s2. Inr (s2, None))))"

definition dir_open_root :: "fs \<Rightarrow> (fs \<times> nat option) res" where
  "dir_open_root s = rbind (inode_open s ROOT_DIR_SECTOR) (\<lambda>(s1, p). dir_open s1 p)"

definition dir_reopen :: "fs \<Rightarrow> nat \<Rightarrow> (fs \<times> nat option) res" where
  "dir_reopen s d = rbind (get_dir s d) (\<lambda>x.
     rbind (inode_reopen s (Some (d_inode x))) (\<lambda>(s1, p). dir_open s1 p))"

definition dir_close :: "fs \<Rightarrow> nat option \<Rightarrow> fs res" where
  "dir_close s dir =
     rbind (case dir of
              None \<Rightarrow> Inr s
            | Some d \<Rightarrow> rbind (get_dir s d) (\<lambda>x.
                rbind (inode_close free_map_release s (Some (d_inode x))) (\<lambda>s1.
                  Inr (s1\<lparr>dirs := (dirs s1)(d := None)\<rparr>)))) (\<lambda>s1.
       rbind (dir_open_root s1) (\<lambda>(s2, _). Inr s2))"

definition dir_get_inode :: "fs \<Rightarrow> nat \<Rightarrow> nat res" where
  "dir_get_inode s d = rbind (get_dir s d) (\<lambda>x. Inr (d_inode x))"

definition dir_makesure :: "fs \<Rightarrow> (fs \<times> nat option) res" where
  "dir_makesure s =
     rbind (if curr_dir s = None then rbind (dir_open_root s) (\<lambda>(s1, _). Inr s1) else Inr s) (\<lambda>s1.
       Inr (s1, curr_dir s1))"

section \<open>Names\<close>

definition dir_lookup :: "fs \<Rightarrow> nat \<Rightarrow> byte list \<Rightarrow> (fs \<times> nat option) res" where
  "dir_lookup s d name =
     rbind (lookup s d name) (\<lambda>(s1, r).
       case r of
         None \<Rightarrow> Inr (s1, None)
       | Some (e, _) \<Rightarrow> inode_open s1 (de_inode_sector e))"

definition dir_add :: "fs \<Rightarrow> nat \<Rightarrow> byte list \<Rightarrow> nat \<Rightarrow> (fs \<times> bool) res" where
  "dir_add s d name inode_sector =
     (if name = [] \<or> NAME_MAX < length name then Inr (s, False)
      else rbind (lookup s d name) (\<lambda>(s1, r).
        if r \<noteq> None then Inr (s1, False)
        else rbind (get_dir s1 d) (\<lambda>x.
          rbind (dir_scan (scan_fuel s1 (d_inode x)) s1 (d_inode x) (\<lambda>e. \<not> de_in_use e) (garbage s1 0) 0)
            (\<lambda>(s2, e, ofs, _).
            rbind (get_inode s2 (d_inode x)) (\<lambda>i.
              rbind (if inode_length i \<le> ofs
                     then rbind (inode_grow_open free_map_allocate s2 (d_inode x)
                                   (s32_of (inode_length i + int dir_entry_size))) (\<lambda>s3.
                            rbind (inode_read_at free_map_allocate s3 (d_inode x) e (int dir_entry_size) ofs)
                              (\<lambda>(s4, e4, _). Inr (s4, e4, s32_of (ofs + int dir_entry_size))))
                     else Inr (s2, e, ofs)) (\<lambda>(s5, e5, ofs5).
                rbind (inode_write_at free_map_allocate s5 (d_inode x)
                         (set_inode_sector (set_name (set_in_use e5 True) name) inode_sector)
                         (int dir_entry_size) ofs5) (\<lambda>(s6, n).
                  Inr (s6, n = int dir_entry_size))))))))"

definition dir_create_name :: "fs \<Rightarrow> byte list \<Rightarrow> nat \<Rightarrow> (fs \<times> bool) res" where
  "dir_create_name s name d =
     rbind (free_map_allocate s 1) (\<lambda>(s1, r).
       let inode_sector = (case r of Some k \<Rightarrow> k | None \<Rightarrow> 0) in
       rbind (dir_create s1 inode_sector 16) (\<lambda>(s2, ok).
         if ok then dir_add s2 d name inode_sector else Inr (s2, False)))"

text \<open>The entries in use of a directory: the loop of \<open>dir_remove\<close>.\<close>

fun count_in_use :: "nat \<Rightarrow> fs \<Rightarrow> nat \<Rightarrow> byte list \<Rightarrow> int \<Rightarrow> int \<Rightarrow> (fs \<times> int) res" where
  "count_in_use 0 s p ee pos many = Inl OutOfFuel"
| "count_in_use (Suc n) s p ee pos many =
     rbind (inode_read_at free_map_allocate s p ee (int dir_entry_size) pos) (\<lambda>(s1, e1, k).
       if k \<noteq> int dir_entry_size then Inr (s1, many)
       else count_in_use n s1 p e1 (s32_of (pos + int dir_entry_size))
              (if de_in_use e1 then many + 1 else many))"

definition dir_remove :: "fs \<Rightarrow> nat \<Rightarrow> byte list \<Rightarrow> (fs \<times> bool) res" where
  "dir_remove s d name =
     rbind (lookup s d name) (\<lambda>(s1, r).
       case r of
         None \<Rightarrow> Inr (s1, False)
       | Some (e, ofs) \<Rightarrow>
           rbind (inode_open s1 (de_inode_sector e)) (\<lambda>(s2, inode).
             case inode of
               None \<Rightarrow> Inr (s2, False)
             | Some p \<Rightarrow>
                 rbind (get_inode s2 p) (\<lambda>i.
                   rbind (if isdir (idata i)
                          then count_in_use (scan_fuel s2 p) s2 p (garbage s2 0) 0 0 else Inr (s2, 0))
                     (\<lambda>(s3, many).
                     rbind (if 3 \<le> many then Inr (s3, False)
                            else rbind (get_dir s3 d) (\<lambda>x.
                              rbind (inode_write_at free_map_allocate s3 (d_inode x) (set_in_use e False)
                                       (int dir_entry_size) ofs) (\<lambda>(s4, n).
                                if n \<noteq> int dir_entry_size then Inr (s4, False)
                                else rbind (inode_remove s4 p) (\<lambda>s5. Inr (s5, True))))) (\<lambda>(s6, success).
                       rbind (inode_close free_map_release s6 (Some p)) (\<lambda>s7. Inr (s7, success)))))))"

text \<open>
  The loop of \<open>dir_readdir\<close> moves \<open>dir->pos\<close> past every entry it reads; it stops at the
  first one in use that is neither \<open>.\<close> nor \<open>..\<close>.
\<close>

definition dot_names :: "byte list list" where
  "dot_names = [[46], [46, 46]]"

definition set_dpos :: "fs \<Rightarrow> nat \<Rightarrow> int \<Rightarrow> fs" where
  "set_dpos s d pos = s\<lparr>dirs := (dirs s)(d := map_option (\<lambda>x. x\<lparr>d_pos := pos\<rparr>) (dirs s d))\<rparr>"

definition dir_readdir :: "fs \<Rightarrow> nat \<Rightarrow> (fs \<times> byte list option) res" where
  "dir_readdir s d =
     rbind (get_dir s d) (\<lambda>x.
       rbind (dir_scan (scan_fuel s (d_inode x)) s (d_inode x)
                (\<lambda>e. de_in_use e \<and> de_name e \<notin> set dot_names) (garbage s 0) (d_pos x))
         (\<lambda>(s1, e, ofs, found).
         if found then Inr (set_dpos s1 d (s32_of (ofs + int dir_entry_size)), Some (take NAME_MAX (de_name e)))
         else Inr (set_dpos s1 d ofs, None)))"

section \<open>Operations by name\<close>

definition do_format :: "fs \<Rightarrow> fs res" where
  "do_format s =
     rbind (free_map_create s) (\<lambda>s1.
       rbind (dir_create s1 ROOT_DIR_SECTOR 16) (\<lambda>(s2, ok).
         if ok then free_map_close s2 else Inl Panic))"

text \<open>The disk \<open>disk_get (0, 1)\<close> is the one in the state.\<close>

definition filesys_init :: "fs \<Rightarrow> bool \<Rightarrow> fs res" where
  "filesys_init s format =
     rbind (free_map_init (inode_init (buffer_cache_init s))) (\<lambda>s1.
       rbind (if format then do_format s1 else Inr s1) free_map_open)"

definition filesys_done :: "fs \<Rightarrow> fs res" where
  "filesys_done s = rbind (buffer_cache_write_dirties_once s) free_map_close"

definition reopen_current :: "fs \<Rightarrow> (fs \<times> nat option) res" where
  "reopen_current s = rbind (dir_makesure s) (\<lambda>(s1, cur).
     case cur of None \<Rightarrow> Inl PageFault | Some c \<Rightarrow> dir_reopen s1 c)"

definition dir_removed :: "fs \<Rightarrow> nat \<Rightarrow> bool res" where
  "dir_removed s d = rbind (get_dir s d) (\<lambda>x. rbind (get_inode s (d_inode x)) (\<lambda>i. Inr (removed i)))"

definition filesys_create :: "fs \<Rightarrow> byte list \<Rightarrow> int \<Rightarrow> (fs \<times> bool) res" where
  "filesys_create s name initial_size =
     rbind (reopen_current s) (\<lambda>(s1, dir).
       rbind (case dir of
                None \<Rightarrow> Inr (s1, False, 0)
              | Some d \<Rightarrow>
                  rbind (dir_removed s1 d) (\<lambda>rem.
                    if rem then Inr (s1, False, 0)
                    else rbind (free_map_allocate s1 1) (\<lambda>(s2, r).
                      case r of
                        None \<Rightarrow> Inr (s2, False, 0)
                      | Some sec \<Rightarrow>
                          rbind (inode_create free_map_allocate s2 sec initial_size False) (\<lambda>(s3, ok).
                            if \<not> ok then Inr (s3, False, sec)
                            else rbind (dir_add s3 d name sec) (\<lambda>(s4, ok). Inr (s4, ok, sec))))))
         (\<lambda>(s5, success, inode_sector).
         rbind (if \<not> success \<and> inode_sector \<noteq> 0 then free_map_release s5 inode_sector 1 else Inr s5) (\<lambda>s6.
           rbind (dir_close s6 dir) (\<lambda>s7. Inr (s7, success)))))"

definition filesys_open :: "fs \<Rightarrow> byte list \<Rightarrow> (fs \<times> nat option) res" where
  "filesys_open s name =
     rbind (reopen_current s) (\<lambda>(s1, dir).
       case dir of
         None \<Rightarrow> Inl PageFault
       | Some d \<Rightarrow>
           rbind (dir_removed s1 d) (\<lambda>rem.
             if rem then Inr (s1, None)
             else rbind (dir_lookup s1 d name) (\<lambda>(s2, inode).
               rbind (dir_close s2 (Some d)) (\<lambda>s3. file_open s3 inode))))"

definition filesys_remove :: "fs \<Rightarrow> byte list \<Rightarrow> (fs \<times> bool) res" where
  "filesys_remove s name =
     rbind (dir_makesure s) (\<lambda>(s1, dir).
       case dir of None \<Rightarrow> Inr (s1, False) | Some d \<Rightarrow> dir_remove s1 d name)"

end
