(* ===== verification/Directory_Spec.thy ===== *)
theory Directory_Spec
  imports Directory
begin

text \<open>
  What a directory promises. A directory represents the list of its entries (\<open>dir_slots\<close>)
  and, through it, a map from names to inode sectors (\<open>dir_map\<close>). A scan stops at the first
  entry that satisfies its test; \<open>dir_scan_spec\<close> also shows that the bound \<open>scan_fuel\<close> is
  never reached. Looking a name up reads the map, adding a name to a directory with a free
  entry updates it at that name, removing one deletes it.
\<close>

section \<open>Entries of a directory\<close>

definition dir_slots :: "fs \<Rightarrow> inode_disk \<Rightarrow> byte list list" where
  "dir_slots s di = map (\<lambda>k. take 24 (drop (24 * k) (file_bytes s di))) [0..<nat (ilength di) div 24]"

definition slot_from :: "('a \<Rightarrow> bool) \<Rightarrow> 'a list \<Rightarrow> nat \<Rightarrow> nat" where
  "slot_from P xs k = k + length (takeWhile (\<lambda>x. \<not> P x) (drop k xs))"

definition dir_file :: "fs \<Rightarrow> nat \<Rightarrow> inode \<Rightarrow> bool" where
  "dir_file s p i \<longleftrightarrow> cache_inv s \<and> inodes s p = Some i \<and> inode_wf s (idata i)
     \<and> distinct (data_sectors s (idata i)) \<and> (\<forall>k\<in>set (data_sectors s (idata i)). cache_ready s k)
     \<and> 24 dvd ilength (idata i) \<and> length (garbage s 0) = 24"

lemma slot_from_step: "k < length xs \<Longrightarrow> slot_from P xs k = (if P (xs ! k) then k else slot_from P xs (Suc k))"
  by (simp add: slot_from_def flip: Cons_nth_drop_Suc)

lemma slot_from_end: "length xs \<le> k \<Longrightarrow> slot_from P xs k = k"
  by (simp add: slot_from_def)

lemma slot_from_le: "k \<le> length xs \<Longrightarrow> slot_from P xs k \<le> length xs"
  using length_takeWhile_le [of "\<lambda>x. \<not> P x" "drop k xs"] by (simp add: slot_from_def)

lemma slot_from_P: "slot_from P xs k < length xs \<Longrightarrow> P (xs ! slot_from P xs k)"
proof (induction "length xs - k" arbitrary: k)
  case 0
  then show ?case by (simp add: slot_from_end)
next
  case (Suc n)
  then have "k < length xs" by simp
  with Suc.hyps(1) [of "Suc k"] Suc.hyps(2) Suc.prems show ?case
    by (cases "P (xs ! k)") (auto simp: slot_from_step)
qed

lemma slot_from_least: "k \<le> j \<Longrightarrow> j < slot_from P xs k \<Longrightarrow> \<not> P (xs ! j)"
proof -
  assume j: "k \<le> j" "j < slot_from P xs k"
  let ?t = "takeWhile (\<lambda>x. \<not> P x) (drop k xs)"
  have lt: "j - k < length ?t" using j by (simp add: slot_from_def)
  then have "?t ! (j - k) \<in> set ?t" by simp
  then have "\<not> P (?t ! (j - k))" by (rule set_takeWhileD [THEN conjunct2])
  moreover have "?t ! (j - k) = xs ! j"
    using takeWhile_nth [OF lt] lt length_takeWhile_le [of "\<lambda>x. \<not> P x" "drop k xs"] j by simp
  ultimately show ?thesis by simp
qed

lemma slot_from_none: "slot_from P xs 0 = length xs \<longleftrightarrow> (\<forall>x\<in>set xs. \<not> P x)"
  by (induction xs) (auto simp: slot_from_def)

lemma length_dir_slots [simp]: "length (dir_slots s di) = nat (ilength di) div 24"
  by (simp add: dir_slots_def)

lemma nth_dir_slots:
  "k < nat (ilength di) div 24 \<Longrightarrow> dir_slots s di ! k = take 24 (drop (24 * k) (file_bytes s di))"
  by (simp add: dir_slots_def)

lemma dir_slots_view:
  assumes "cache_view s' = cache_view s" "sector_arrays s' = sector_arrays s"
  shows "dir_slots s' di = dir_slots s di"
  by (simp add: dir_slots_def file_bytes_def file_raw_def data_sectors_cong [OF assms(2)] assms(1))

lemma cache_ready_frame: "cache_frame s s' \<Longrightarrow> cache_ready s' k = cache_ready s k"
  by (auto simp: cache_frame_def cache_ready_def)

lemma dir_file_frame:
  assumes "dir_file s p i" "cache_inv s'" "cache_frame s s'"
  shows "dir_file s' p i"
  using assms(1,2) cache_frame_fs [OF assms(3)] data_sectors_cong [OF cache_frame_fs(3) [OF assms(3)]]
    inode_wf_cong [OF cache_frame_fs(3) [OF assms(3)]] cache_ready_frame [OF assms(3)]
  by (simp add: dir_file_def)

section \<open>Reading and scanning\<close>

lemma read_entry:
  assumes "dir_file s p i" "length e = 24" "k \<le> length (dir_slots s (idata i))"
  shows "\<exists>s'. inode_read_at alloc s p e 24 (24 * int k)
      = Inr (s', if k < length (dir_slots s (idata i)) then dir_slots s (idata i) ! k else e,
             if k < length (dir_slots s (idata i)) then 24 else 0)
    \<and> cache_inv s' \<and> cache_view s' = cache_view s \<and> cache_frame s s'"
proof -
  let ?di = "idata i" and ?len = "ilength (idata i)"
  note d = assms(1) [unfolded dir_file_def]
  have len: "0 \<le> ?len" "?len \<le> 512 * 512" using d by (auto simp: inode_wf_def)
  obtain m where m: "?len = 24 * m" using d by (auto elim: dvdE)
  then have m': "0 \<le> m" "nat ?len div 24 = nat m" using len by auto
  have k: "int k \<le> m" using assms(3) m' by simp
  have n: "nat (min 24 (?len - 24 * int k)) = (if k < nat m then 24 else 0)"
    using m k m'(1) by (auto simp: min_def)
  have fb: "length (file_bytes s ?di) = nat ?len" using d by (intro length_file_bytes) auto
  have "take 24 (drop (24 * k) (file_bytes s ?di)) = dir_slots s ?di ! k" "length (dir_slots s ?di ! k) = 24"
    if "k < nat m"
    using that fb m by (auto simp: nth_dir_slots m')
  then have "overwrite e 0 (take (if k < nat m then 24 else 0) (drop (nat (24 * int k)) (file_bytes s ?di)))
      = (if k < nat m then dir_slots s ?di ! k else e)"
    using assms(2) by (simp add: overwrite_full nat_mult_distrib)
  moreover have "\<exists>s'. inode_read_loop alloc s p e 24 (24 * int k) 0
      = Inr (s', overwrite e (nat 0) (take (nat (min 24 (?len - 24 * int k)))
               (drop (nat (24 * int k)) (file_bytes s ?di))), 0 + int (nat (min 24 (?len - 24 * int k))))
    \<and> cache_inv s' \<and> cache_view s' = cache_view s \<and> cache_frame s s'"
    by (rule inode_read_loop_spec) (use d k len m assms(2) in auto)
  ultimately show ?thesis by (cases "k < nat m") (simp_all add: n inode_read_at_def m')
qed

lemma dir_scan_spec:
  assumes "dir_file s p i" "length e = 24" "k \<le> length (dir_slots s (idata i))"
    and "length (dir_slots s (idata i)) - k < fuel"
  shows "\<exists>s' e'. dir_scan fuel s p P e (24 * int k) = Inr (s', e', 24 * int (slot_from P (dir_slots s (idata i)) k),
        slot_from P (dir_slots s (idata i)) k < length (dir_slots s (idata i)))
    \<and> length e' = 24
    \<and> (slot_from P (dir_slots s (idata i)) k < length (dir_slots s (idata i)) \<longrightarrow>
         e' = dir_slots s (idata i) ! slot_from P (dir_slots s (idata i)) k)
    \<and> cache_inv s' \<and> cache_view s' = cache_view s \<and> cache_frame s s'"
  using assms
proof (induction fuel arbitrary: s e k)
  case 0
  then show ?case by simp
next
  case (Suc fuel)
  let ?xs = "dir_slots s (idata i)"
  obtain s1 where s1: "inode_read_at free_map_allocate s p e 24 (24 * int k)
      = Inr (s1, if k < length ?xs then ?xs ! k else e, if k < length ?xs then 24 else 0)"
      "cache_inv s1" "cache_view s1 = cache_view s" "cache_frame s s1"
    using read_entry [OF Suc.prems(1-3), of free_map_allocate] by blast
  show ?case
  proof (cases "k < length ?xs")
    case False
    then have "slot_from P ?xs k = k" by (simp add: slot_from_end)
    with False s1 Suc.prems(2) show ?thesis by (simp add: dir_entry_size_def)
  next
    case True
    have l24: "length (?xs ! k) = 24"
    proof -
      have "length (file_bytes s (idata i)) = nat (ilength (idata i))"
        using Suc.prems(1) by (intro length_file_bytes) (auto simp: dir_file_def)
      then show ?thesis using True by (simp add: nth_dir_slots)
    qed
    show ?thesis
    proof (cases "P (?xs ! k)")
      case True
      with \<open>k < length ?xs\<close> s1 l24 show ?thesis by (simp add: dir_entry_size_def slot_from_step)
    next
      case False
      have same: "dir_slots s1 (idata i) = ?xs"
        using s1(3) cache_frame_fs(3) [OF s1(4)] by (rule dir_slots_view)
      have "int (length ?xs) \<le> 512 * 512" using Suc.prems(1) by (auto simp: dir_file_def inode_wf_def)
      then have "s32_of (24 * int k + 24) = 24 * int (Suc k)"
        using True by (intro s32_of_lit [THEN trans]) auto
      moreover have "slot_from P ?xs k = slot_from P ?xs (Suc k)" using True False by (simp add: slot_from_step)
      moreover have "Suc k \<le> length ?xs" "length ?xs - Suc k < fuel" using True Suc.prems(4) by linarith+
      ultimately show ?thesis
        using Suc.IH [OF dir_file_frame [OF Suc.prems(1) s1(2,4)] l24, of "Suc k"] True False s1
          cache_frame_trans [OF s1(4)]
        by (auto simp: dir_entry_size_def same)
    qed
  qed
qed

section \<open>Looking names up\<close>

text \<open>A directory as a finite map from names to inode sectors.\<close>

definition names_entry :: "byte list \<Rightarrow> byte list \<Rightarrow> bool" where
  "names_entry name e \<longleftrightarrow> de_in_use e \<and> de_name e = name"

definition dir_map :: "fs \<Rightarrow> inode_disk \<Rightarrow> byte list \<Rightarrow> nat option" where
  "dir_map s di name = map_option de_inode_sector (find (names_entry name) (dir_slots s di))"

lemma find_slot_from: "find P xs = (if slot_from P xs 0 < length xs then Some (xs ! slot_from P xs 0) else None)"
  by (induction xs) (auto simp: slot_from_def)

lemma scan_fuel_enough:
  "dir_file s p i \<Longrightarrow> length (dir_slots s (idata i)) < scan_fuel s p"
  by (simp add: scan_fuel_def dir_file_def inode_length_def dir_entry_size_def)

lemma lookup_spec:
  assumes "dir_file s (d_inode x) i" "dirs s d = Some x"
  shows "\<exists>s'. lookup s d name = Inr (s', let j = slot_from (names_entry name) (dir_slots s (idata i)) 0 in
      if j < length (dir_slots s (idata i)) then Some (dir_slots s (idata i) ! j, 24 * int j) else None)
    \<and> cache_inv s' \<and> cache_view s' = cache_view s \<and> cache_frame s s'"
proof -
  have "length (garbage s 0) = 24" using assms(1) by (simp add: dir_file_def)
  from dir_scan_spec [OF assms(1) this, of 0 "scan_fuel s (d_inode x)" "names_entry name"]
    scan_fuel_enough [OF assms(1)]
  obtain s' e where "dir_scan (scan_fuel s (d_inode x)) s (d_inode x) (names_entry name) (garbage s 0) 0
      = Inr (s', e, 24 * int (slot_from (names_entry name) (dir_slots s (idata i)) 0),
          slot_from (names_entry name) (dir_slots s (idata i)) 0 < length (dir_slots s (idata i)))"
      "slot_from (names_entry name) (dir_slots s (idata i)) 0 < length (dir_slots s (idata i)) \<longrightarrow>
         e = dir_slots s (idata i) ! slot_from (names_entry name) (dir_slots s (idata i)) 0"
      "cache_inv s'" "cache_view s' = cache_view s" "cache_frame s s'"
    by auto
  moreover have "(\<lambda>e. de_in_use e \<and> de_name e = name) = names_entry name" by (simp add: fun_eq_iff names_entry_def)
  ultimately show ?thesis
    using assms(2) by (intro exI [of _ s']) (simp add: lookup_def get_dir_def Let_def)
qed

section \<open>Entries\<close>

lemma entry_fields:
  assumes "length e = 24" "length name \<le> 14" "0 \<notin> set name" "sec < 2 ^ 32"
  defines "e' \<equiv> set_inode_sector (set_name (set_in_use e True) name) sec"
  shows "length e' = 24" "de_in_use e'" "de_name e' = name" "de_inode_sector e' = sec"
proof -
  let ?e1 = "e[19 := 1]" and ?n = "name @ [0]"
  have e': "e' = le_bytes (word_of_nat sec) @ ?n @ drop (5 + length name) ?e1"
    using assms(1,2) by (simp add: e'_def set_inode_sector_def set_name_def set_in_use_def NAME_MAX_def overwrite_def)
  show "length e' = 24" using assms(1,2) by (simp add: e')
  have "e' ! 19 = ?e1 ! 19" using assms(1,2) by (simp add: e' nth_append)
  then show "de_in_use e'" using assms(1) by (simp add: de_in_use_def)
  have "takeWhile (\<lambda>b. b \<noteq> 0) name = name" using assms(3) by (auto intro: takeWhile_eq_all_conv [THEN iffD2])
  then show "de_name e' = name" using assms(3) by (simp add: de_name_def e' takeWhile_append)
  have "unat (word_of_nat sec :: u32) = sec" using assms(4) by (simp add: unat_of_nat)
  then show "de_inode_sector e' = sec" by (simp add: de_inode_sector_def e')
qed

lemma erase_fields: "length e = 24 \<Longrightarrow> length (set_in_use e False) = 24 \<and> \<not> de_in_use (set_in_use e False)"
  by (simp add: set_in_use_def de_in_use_def)

lemma dir_slots_overwrite:
  assumes "file_bytes s' di = overwrite (file_bytes s di) (24 * j) e" "length e = 24"
    and "j < nat (ilength di) div 24" "length (file_bytes s di) = nat (ilength di)"
  shows "dir_slots s' di = (dir_slots s di)[j := e]"
proof (rule nth_equalityI)
  fix k
  assume k: "k < length (dir_slots s' di)"
  have fit: "24 * j + 24 \<le> length (file_bytes s di)" "24 * k + 24 \<le> length (file_bytes s di)"
    using assms(3,4) k by auto
  have "take 24 (drop (24 * k) (overwrite (file_bytes s di) (24 * j) e))
      = (if k = j then e else take 24 (drop (24 * k) (file_bytes s di)))"
  proof (rule nth_equalityI)
    fix n
    assume "n < length (take 24 (drop (24 * k) (overwrite (file_bytes s di) (24 * j) e)))"
    then have "n < 24" by simp
    with fit assms(2) show "take 24 (drop (24 * k) (overwrite (file_bytes s di) (24 * j) e)) ! n
        = (if k = j then e else take 24 (drop (24 * k) (file_bytes s di))) ! n"
      by (auto simp: nth_overwrite)
  qed (use fit assms(2) in auto)
  then show "dir_slots s' di ! k = (dir_slots s di)[j := e] ! k"
    using k by (simp add: nth_dir_slots assms(1) nth_list_update)
qed simp

lemma write_entry:
  assumes "dir_file s p i" "deny_write_cnt i = 0" "j < length (dir_slots s (idata i))" "length e = 24"
  shows "\<exists>s'. inode_write_at alloc s p e 24 (24 * int j) = Inr (s', 24) \<and> dir_file s' p i \<and> cache_frame s s'
    \<and> dir_slots s' (idata i) = (dir_slots s (idata i))[j := e]
    \<and> (\<forall>k. k \<notin> set (data_sectors s (idata i)) \<longrightarrow> cache_view s' k = cache_view s k)"
proof -
  let ?di = "idata i"
  note d = assms(1) [unfolded dir_file_def]
  have fit: "24 * int j + 24 \<le> ilength ?di" using assms(3) d by (auto simp: inode_wf_def)
  from inode_write_loop_inside [of s p i "24 * int j" 24 0 e alloc] d fit assms(4) obtain s' where
    s': "inode_write_loop alloc s p e 24 (24 * int j) 0 = Inr (s', 24)" "cache_inv s'" "cache_frame s s'"
      "file_raw s' ?di = overwrite (file_raw s ?di) (24 * j) e"
      "\<forall>k. k \<notin> set (data_sectors s ?di) \<longrightarrow> cache_view s' k = cache_view s k"
    by (auto simp: nat_mult_distrib split: sum.splits)
  have fb: "length (file_bytes s ?di) = nat (ilength ?di)" using d by (intro length_file_bytes) auto
  then have "nat (ilength ?di) \<le> length (file_raw s ?di)" by (simp add: file_bytes_def)
  then have "file_bytes s' ?di = overwrite (file_bytes s ?di) (24 * j) e"
    using s'(4) fit assms(4) by (simp add: file_bytes_def take_overwrite)
  from dir_slots_overwrite [OF this assms(4) _ fb] s' dir_file_frame [OF assms(1) s'(2,3)] assms(2,3) d
  show ?thesis by (intro exI [of _ s']) (simp add: inode_write_at_def get_inode_def)
qed

section \<open>Adding and removing names\<close>

text \<open>Replacing an entry of the list.\<close>

lemma find_update_other:
  assumes "j < length xs" "\<not> P (xs ! j)" "\<not> P e"
  shows "find P (xs[j := e]) = find P xs"
  using assms by (induction xs arbitrary: j) (auto split: nat.splits simp: nth_Cons')

lemma find_update_new:
  assumes "j < length xs" "\<forall>x\<in>set xs. \<not> P x" "P e"
  shows "find P (xs[j := e]) = Some e"
  using assms by (induction xs arbitrary: j) (auto split: nat.splits simp: nth_Cons')

lemma dir_map_add:
  assumes "dir_slots s' di = (dir_slots s di)[j := e]" "j < length (dir_slots s di)"
    and "\<not> de_in_use (dir_slots s di ! j)" "dir_map s di (de_name e) = None" "de_in_use e"
  shows "dir_map s' di = (dir_map s di)(de_name e \<mapsto> de_inode_sector e)"
proof
  fix n
  show "dir_map s' di n = ((dir_map s di)(de_name e \<mapsto> de_inode_sector e)) n"
  proof (cases "n = de_name e")
    case True
    have "\<forall>x\<in>set (dir_slots s di). \<not> names_entry (de_name e) x"
      using assms(4) by (auto simp: dir_map_def find_None_iff)
    moreover have "names_entry (de_name e) e" using assms(5) by (simp add: names_entry_def)
    ultimately have "find (names_entry (de_name e)) ((dir_slots s di)[j := e]) = Some e"
      by (rule find_update_new [OF assms(2)])
    with True assms(1) show ?thesis by (simp add: dir_map_def)
  next
    case False
    with find_update_other [OF assms(2), of "names_entry n" e] assms(1,3) show ?thesis
      by (simp add: dir_map_def names_entry_def)
  qed
qed

lemma dir_map_view:
  assumes "cache_view s' = cache_view s" "cache_frame s s'"
  shows "dir_map s' di = dir_map s di"
  by (simp add: fun_eq_iff dir_map_def dir_slots_view [OF assms(1) cache_frame_fs(3) [OF assms(2)]])

lemma lookup_map:
  assumes "dir_file s (d_inode x) i" "dirs s d = Some x"
  shows "\<exists>s' r. lookup s d name = Inr (s', r) \<and> map_option (de_inode_sector \<circ> fst) r = dir_map s (idata i) name
    \<and> cache_inv s' \<and> cache_view s' = cache_view s \<and> cache_frame s s'"
  using lookup_spec [OF assms, of name] by (fastforce simp: dir_map_def find_slot_from Let_def)

lemma length_slot: "dir_file s p i \<Longrightarrow> k < length (dir_slots s (idata i)) \<Longrightarrow> length (dir_slots s (idata i) ! k) = 24"
  using length_file_bytes [of s "idata i"] by (simp add: dir_file_def nth_dir_slots)

lemma dir_add_spec:
  assumes "dir_file s (d_inode x) i" "dirs s d = Some x" "deny_write_cnt i = 0"
    and "name \<noteq> []" "length name \<le> 14" "0 \<notin> set name" "sec < 2 ^ 32"
    and "dir_map s (idata i) name = None" "\<exists>e\<in>set (dir_slots s (idata i)). \<not> de_in_use e"
  shows "\<exists>s'. dir_add s d name sec = Inr (s', True) \<and> dir_file s' (d_inode x) i \<and> cache_frame s s'
    \<and> dir_map s' (idata i) = (dir_map s (idata i))(name \<mapsto> sec)
    \<and> (\<forall>k. k \<notin> set (data_sectors s (idata i)) \<longrightarrow> cache_view s' k = cache_view s k)"
proof -
  let ?di = "idata i" and ?p = "d_inode x"
  obtain s1 where s1: "lookup s d name = Inr (s1, None)" "cache_inv s1" "cache_view s1 = cache_view s" "cache_frame s s1"
    using lookup_map [OF assms(1,2), of name] assms(8) by auto
  note slots1 = dir_slots_view [OF s1(3) cache_frame_fs(3) [OF s1(4)]]
  note d1 = dir_file_frame [OF assms(1) s1(2,4)]
  let ?j = "slot_from (\<lambda>e. \<not> de_in_use e) (dir_slots s1 ?di) 0"
  have j: "?j < length (dir_slots s1 ?di)"
    using assms(9) slot_from_none [of "\<lambda>e. \<not> de_in_use e" "dir_slots s1 ?di"]
      slot_from_le [of 0 "dir_slots s1 ?di" "\<lambda>e. \<not> de_in_use e"] slots1 by fastforce
  have "length (garbage s1 0) = 24" using d1 by (simp add: dir_file_def)
  from dir_scan_spec [OF d1 this, of 0 "scan_fuel s1 ?p" "\<lambda>e. \<not> de_in_use e"] scan_fuel_enough [OF d1] j
  obtain s2 where s2: "dir_scan (scan_fuel s1 ?p) s1 ?p (\<lambda>e. \<not> de_in_use e) (garbage s1 0) 0
      = Inr (s2, dir_slots s1 ?di ! ?j, 24 * int ?j, True)"
      "cache_inv s2" "cache_view s2 = cache_view s1" "cache_frame s1 s2"
    by auto
  note slots2 = dir_slots_view [OF s2(3) cache_frame_fs(3) [OF s2(4)]]
  note d2 = dir_file_frame [OF d1 s2(2,4)]
  let ?e = "set_inode_sector (set_name (set_in_use (dir_slots s1 ?di ! ?j) True) name) sec"
  note e = entry_fields [OF length_slot [OF d1 j] assms(5-7)]
  have j2: "?j < length (dir_slots s2 ?di)" using j slots2 by simp
  obtain s3 where s3: "inode_write_at free_map_allocate s2 ?p ?e 24 (24 * int ?j) = Inr (s3, 24)"
      "dir_file s3 ?p i" "cache_frame s2 s3" "dir_slots s3 ?di = (dir_slots s2 ?di)[?j := ?e]"
      "\<forall>k. k \<notin> set (data_sectors s2 ?di) \<longrightarrow> cache_view s3 k = cache_view s2 k"
    using write_entry [OF d2 assms(3) j2 e(1), of free_map_allocate] by blast
  have fr: "cache_frame s s2" using s1(4) s2(4) by (rule cache_frame_trans)
  have same: "dir_map s2 ?di = dir_map s ?di" using s1(3) s2(3) by (intro dir_map_view [OF _ fr]) simp
  have "\<not> de_in_use (dir_slots s2 ?di ! ?j)" using slot_from_P [OF j] slots2 by simp
  from dir_map_add [OF s3(4) j2 this] e assms(8) same
  have "dir_map s3 ?di = (dir_map s ?di)(name \<mapsto> sec)" by simp
  moreover have "\<not> inode_length i \<le> 24 * int ?j" using j by (simp add: inode_length_def)
  moreover have "dirs s1 d = Some x" "inodes s2 ?p = Some i"
    using assms(2) cache_frame_fs(6) [OF s1(4)] d2 by (simp_all add: dir_file_def)
  ultimately show ?thesis
    using s1 s2(1,3) s3 assms(4,5) cache_frame_trans [OF fr s3(3)] data_sectors_cong [OF cache_frame_fs(3) [OF fr]]
    by (intro exI [of _ s3]) (simp add: dir_add_def NAME_MAX_def dir_entry_size_def get_dir_def get_inode_def)
qed

text \<open>No two entries in use have the same name.\<close>

definition names_unique :: "byte list list \<Rightarrow> bool" where
  "names_unique xs \<longleftrightarrow> (\<forall>j < length xs. \<forall>k < length xs.
     de_in_use (xs ! j) \<and> de_in_use (xs ! k) \<and> de_name (xs ! j) = de_name (xs ! k) \<longrightarrow> j = k)"

lemma dir_map_remove:
  assumes "dir_slots s' di = (dir_slots s di)[j := e]" "j < length (dir_slots s di)"
    and "names_entry name (dir_slots s di ! j)" "\<not> de_in_use e" "names_unique (dir_slots s di)"
  shows "dir_map s' di = (dir_map s di)(name := None)"
proof
  fix n
  show "dir_map s' di n = ((dir_map s di)(name := None)) n"
  proof (cases "n = name")
    case True
    have "\<not> names_entry name ((dir_slots s di)[j := e] ! k)" if "k < length (dir_slots s di)" for k
      using that assms(2-5) by (cases "k = j") (auto simp: names_entry_def names_unique_def)
    then have "\<forall>y\<in>set ((dir_slots s di)[j := e]). \<not> names_entry name y"
      by (metis in_set_conv_nth length_list_update)
    with True assms(1) show ?thesis by (simp add: dir_map_def find_None_iff)
  next
    case False
    with assms(3,4) have "\<not> names_entry n (dir_slots s di ! j)" "\<not> names_entry n e"
      by (auto simp: names_entry_def)
    from find_update_other [OF assms(2) this] False assms(1) show ?thesis by (simp add: dir_map_def)
  qed
qed

lemma dir_file_inode:
  assumes "dir_file s p i" "q \<noteq> p"
  shows "dir_file (s\<lparr>inodes := (inodes s)(q \<mapsto> iq)\<rparr>) p i"
  using assms data_sectors_cong [of "s\<lparr>inodes := (inodes s)(q \<mapsto> iq)\<rparr>" s "idata i"]
    inode_wf_cong [of "s\<lparr>inodes := (inodes s)(q \<mapsto> iq)\<rparr>" s "idata i"]
  by (simp add: dir_file_def cache_ready_def)

lemma dir_slots_inodes [simp]: "dir_slots (s\<lparr>inodes := f\<rparr>) di = dir_slots s di"
  by (simp add: dir_slots_def)

lemma dir_map_inodes [simp]: "dir_map (s\<lparr>inodes := f\<rparr>) di = dir_map s di"
  by (simp add: dir_map_def fun_eq_iff)

lemma dir_remove_open_spec:
  assumes "dir_file s (d_inode x) i" "dirs s d = Some x" "deny_write_cnt i = 0"
    and "names_unique (dir_slots s (idata i))" "dir_map s (idata i) name = Some sec"
    and "find (\<lambda>p. case inodes s p of Some i \<Rightarrow> sector i = sec | None \<Rightarrow> False) (open_inodes s) = Some q"
    and "inodes s q = Some iq" "q \<noteq> d_inode x" "\<not> isdir (idata iq)" "0 < open_cnt iq" "open_cnt iq < 2 ^ 31 - 1"
  shows "\<exists>s'. dir_remove s d name = Inr (s', True) \<and> dir_map s' (idata i) = (dir_map s (idata i))(name := None)
    \<and> inodes s' = (inodes s)(q \<mapsto> iq\<lparr>removed := True\<rparr>) \<and> open_inodes s' = open_inodes s \<and> free_map s' = free_map s
    \<and> (\<forall>k. k \<notin> set (data_sectors s (idata i)) \<longrightarrow> cache_view s' k = cache_view s k)"
proof -
  let ?di = "idata i" and ?p = "d_inode x" and ?xs = "dir_slots s (idata i)"
  let ?j = "slot_from (names_entry name) ?xs 0"
  have j: "?j < length ?xs" and sec: "de_inode_sector (?xs ! ?j) = sec"
    using assms(5) by (auto simp: dir_map_def find_slot_from split: if_splits)
  obtain s1 where s1: "lookup s d name = Inr (s1, Some (?xs ! ?j, 24 * int ?j))"
      "cache_inv s1" "cache_view s1 = cache_view s" "cache_frame s s1"
    using lookup_spec [OF assms(1,2), of name] j by (auto simp: Let_def)
  let ?i2 = "iq\<lparr>open_cnt := s32_of (open_cnt iq + 1)\<rparr>"
  let ?s2 = "s1\<lparr>inodes := (inodes s1)(q \<mapsto> ?i2)\<rparr>"
  note slots1 = dir_slots_view [OF s1(3) cache_frame_fs(3) [OF s1(4)]]
  have q: "inodes s1 q = Some iq" using assms(7) cache_frame_fs(1) [OF s1(4)] by simp
  have opened: "inode_open s1 sec = Inr (?s2, Some q)"
    using assms(6) cache_frame_fs(1,2) [OF s1(4)] q by (simp add: inode_open_def inode_reopen_def get_inode_def)
  have d2: "dir_file ?s2 ?p i" by (rule dir_file_inode [OF dir_file_frame [OF assms(1) s1(2,4)] assms(8)])
  have l: "length (set_in_use (?xs ! ?j) False) = 24" "\<not> de_in_use (set_in_use (?xs ! ?j) False)"
    using erase_fields [OF length_slot [OF assms(1) j]] by auto
  have j2: "?j < length (dir_slots ?s2 ?di)" using j by simp
  obtain s3 where s3: "inode_write_at free_map_allocate ?s2 ?p (set_in_use (?xs ! ?j) False) 24 (24 * int ?j) = Inr (s3, 24)"
      "cache_frame ?s2 s3" "dir_slots s3 ?di = (dir_slots ?s2 ?di)[?j := set_in_use (?xs ! ?j) False]"
      "\<forall>k. k \<notin> set (data_sectors ?s2 ?di) \<longrightarrow> cache_view s3 k = cache_view ?s2 k"
    using write_entry [OF d2 assms(3) j2 l(1), of free_map_allocate] by blast
  have map3: "dir_map s3 ?di = (dir_map s ?di)(name := None)"
    by (rule dir_map_remove [OF _ j slot_from_P [OF j] l(2) assms(4)]) (use s3(3) slots1 in simp)
  have i3: "inodes s3 = (inodes s)(q \<mapsto> ?i2)" and o3: "open_inodes s3 = open_inodes s" "free_map s3 = free_map s"
      "dirs s1 = dirs s"
    using cache_frame_fs [OF s3(2)] cache_frame_fs [OF s1(4)] by simp_all
  have cnt: "s32_of (s32_of (open_cnt iq + 1) - 1) = open_cnt iq" using assms(10,11) by simp
  let ?s' = "s3\<lparr>inodes := (inodes s)(q \<mapsto> iq\<lparr>removed := True\<rparr>)\<rparr>"
  have "data_sectors ?s2 ?di = data_sectors s ?di"
    using cache_frame_fs(3) [OF s1(4)] by (intro data_sectors_cong) simp
  moreover have "dir_remove s d name = Inr (?s', True)"
    using s1(1) opened sec s3(1) i3 assms(2,9,10) cnt
    by (simp add: dir_remove_def get_inode_def get_dir_def dir_entry_size_def o3 inode_remove_def inode_close_def Let_def)
  ultimately show ?thesis using map3 o3 s3(4) s1(3) by (intro exI [of _ ?s']) simp
qed

section \<open>Properties\<close>

text \<open>
  A directory of two entries on the sample disk: the first one names the open file in
  sector 3, the second is free.
\<close>

definition sample_entry :: "byte list" where
  "sample_entry = set_inode_sector (set_name (set_in_use (replicate 24 0) True) [97]) 3"

definition sample_dir_inode :: inode where
  "sample_dir_inode = \<lparr>sector = 5, open_cnt = 1, removed = False, deny_write_cnt = 0,
     idata = \<lparr>ilength = 48, magic = INODE_MAGIC, start = 6 # replicate 121 0, indirect = 0,
              doubly_indirect = 0, isdir = True, idir = 0\<rparr>\<rparr>"

definition sample_dir_fs :: fs where
  "sample_dir_fs = sample_fs\<lparr>filesys_disk := \<lparr>capacity = 64,
       sectors = (\<lambda>k. if k = 6 then sample_entry @ replicate 488 0 else zero_sector), read_cnt = 0, write_cnt = 0\<rparr>,
     inodes := [7 \<mapsto> sample_dir_inode, 8 \<mapsto> hello_inode], dirs := [9 \<mapsto> \<lparr>d_inode = 7, d_pos = 0\<rparr>],
     garbage := (\<lambda>_. replicate 24 0)\<rparr>"

lemma sample_dir:
  "dir_file sample_dir_fs 7 sample_dir_inode" "dirs sample_dir_fs 9 = Some \<lparr>d_inode = 7, d_pos = 0\<rparr>"
  "deny_write_cnt sample_dir_inode = 0"
  "dir_slots sample_dir_fs (idata sample_dir_inode) = [sample_entry, replicate 24 0]"
proof -
  let ?di = "idata sample_dir_inode"
  have "bytes_to_sectors 48 = 1" by (simp add: bytes_to_sectors_eq)
  then have ds: "data_sectors sample_dir_fs ?di = [6]" and wf: "inode_wf sample_dir_fs ?di"
    by (simp_all add: data_sectors_def inode_wf_def sample_dir_inode_def DIRECT_POINTERS_def)
  have len: "length sample_entry = 24" unfolding sample_entry_def by (rule entry_fields) simp_all
  then have "cache_inv sample_dir_fs"
    by (simp add: cache_inv_def sample_dir_fs_def sample_fs_def zero_sector_def DISK_SECTOR_SIZE_def)
  moreover have "cache_ready sample_dir_fs 6" by (simp add: cache_ready_def sample_dir_fs_def sample_fs_def)
  ultimately show "dir_file sample_dir_fs 7 sample_dir_inode"
    using ds wf by (simp add: dir_file_def) (simp add: sample_dir_fs_def sample_dir_inode_def)
  have "file_bytes sample_dir_fs ?di = sample_entry @ replicate 24 0"
    using len by (simp add: file_bytes_def file_raw_def ds cache_view_def)
      (simp add: sample_dir_fs_def sample_fs_def sample_dir_inode_def)
  then show "dir_slots sample_dir_fs ?di = [sample_entry, replicate 24 0]"
    using len by (simp add: dir_slots_def upt_rec) (simp add: sample_dir_inode_def upt_rec)
qed (simp_all add: sample_dir_fs_def sample_dir_inode_def)

lemma sample_entry_fields: "de_in_use sample_entry" "de_name sample_entry = [97]" "de_inode_sector sample_entry = 3"
  unfolding sample_entry_def by (rule entry_fields; simp)+

lemma zero_entry: "\<not> de_in_use (replicate 24 0)"
  by (simp add: de_in_use_def)

lemma sample_dir_map: "dir_map sample_dir_fs (idata sample_dir_inode) = [[97] \<mapsto> 3]"
  by (auto simp: fun_eq_iff dir_map_def sample_dir names_entry_def sample_entry_fields zero_entry)

text \<open>
  C21: looking a name up. On a well-formed directory \<open>lookup\<close> terminates and returns an entry
  exactly when the directory, seen as a map from names to inode sectors, has the name, and
  the entry is in use and has that name and that sector; it changes no sector.
\<close>

theorem lookup_finds_entry:
  assumes "dir_file s (d_inode x) i" "dirs s d = Some x"
  shows "\<exists>s' r. lookup s d name = Inr (s', r)
    \<and> map_option (de_inode_sector \<circ> fst) r = dir_map s (idata i) name
    \<and> (\<forall>e ofs. r = Some (e, ofs) \<longrightarrow> de_in_use e \<and> de_name e = name
         \<and> (\<exists>j < length (dir_slots s (idata i)). ofs = 24 * int j \<and> dir_slots s (idata i) ! j = e))
    \<and> cache_inv s' \<and> cache_view s' = cache_view s \<and> cache_frame s s'"
proof -
  let ?j = "slot_from (names_entry name) (dir_slots s (idata i)) 0"
  have "?j < length (dir_slots s (idata i)) \<Longrightarrow> names_entry name (dir_slots s (idata i) ! ?j)"
    by (rule slot_from_P)
  with lookup_spec [OF assms, of name] show ?thesis
    by (fastforce simp: dir_map_def find_slot_from Let_def names_entry_def)
qed

theorem lookup_finds_entry_witness:
  "\<exists>s' e ofs. lookup sample_dir_fs 9 [97] = Inr (s', Some (e, ofs)) \<and> de_inode_sector e = 3"
  using lookup_finds_entry [of sample_dir_fs "\<lparr>d_inode = 7, d_pos = 0\<rparr>" sample_dir_inode 9 "[97]"]
  by (auto simp: sample_dir sample_dir_map)

text \<open>
  C20: adding a name. With a free entry in the directory and a valid new name, \<open>dir_add\<close>
  succeeds, and the directory, seen as a map from names to inode sectors, is updated at that
  name alone; no sector outside the directory changes.
\<close>

theorem dir_add_updates_map:
  assumes "dir_file s (d_inode x) i" "dirs s d = Some x" "deny_write_cnt i = 0"
    and "name \<noteq> []" "length name \<le> 14" "0 \<notin> set name" "sec < 2 ^ 32"
    and "dir_map s (idata i) name = None" "\<exists>e\<in>set (dir_slots s (idata i)). \<not> de_in_use e"
  shows "\<exists>s'. dir_add s d name sec = Inr (s', True) \<and> dir_file s' (d_inode x) i
    \<and> dir_map s' (idata i) = (dir_map s (idata i))(name \<mapsto> sec)
    \<and> (\<forall>k. k \<notin> set (data_sectors s (idata i)) \<longrightarrow> cache_view s' k = cache_view s k)"
  using dir_add_spec [OF assms] by blast

theorem dir_add_updates_map_witness:
  "\<exists>s'. dir_add sample_dir_fs 9 [98, 99] 2 = Inr (s', True)
    \<and> dir_map s' (idata sample_dir_inode) = [[97] \<mapsto> 3, [98, 99] \<mapsto> 2]"
  using dir_add_updates_map [of sample_dir_fs "\<lparr>d_inode = 7, d_pos = 0\<rparr>" sample_dir_inode 9 "[98, 99]" 2]
  by (auto simp: sample_dir sample_dir_map zero_entry)

text \<open>
  C22: removing the name of an open file. When the names in the directory are unique,
  \<open>dir_remove\<close> takes the name out of the directory and marks the inode as removed; the
  inode stays open with the count it had, and no sector is released or changed but the
  directory's: the file stays usable by whoever has it open.
\<close>

theorem dir_remove_keeps_open_file:
  assumes "dir_file s (d_inode x) i" "dirs s d = Some x" "deny_write_cnt i = 0"
    and "names_unique (dir_slots s (idata i))" "dir_map s (idata i) name = Some sec"
    and "find (\<lambda>p. case inodes s p of Some i \<Rightarrow> sector i = sec | None \<Rightarrow> False) (open_inodes s) = Some q"
    and "inodes s q = Some iq" "q \<noteq> d_inode x" "\<not> isdir (idata iq)" "0 < open_cnt iq" "open_cnt iq < 2 ^ 31 - 1"
  shows "\<exists>s'. dir_remove s d name = Inr (s', True) \<and> dir_map s' (idata i) = (dir_map s (idata i))(name := None)
    \<and> inodes s' = (inodes s)(q \<mapsto> iq\<lparr>removed := True\<rparr>) \<and> open_inodes s' = open_inodes s \<and> free_map s' = free_map s
    \<and> (\<forall>k. k \<notin> set (data_sectors s (idata i)) \<longrightarrow> cache_view s' k = cache_view s k)"
  by (rule dir_remove_open_spec [OF assms])

theorem dir_remove_keeps_open_file_witness:
  "\<exists>s'. dir_remove sample_dir_fs 9 [97] = Inr (s', True)
    \<and> dir_map s' (idata sample_dir_inode) = Map.empty"
proof -
  have "names_unique [sample_entry, replicate 24 0]"
    by (auto simp: names_unique_def less_Suc_eq zero_entry)
  moreover have "find (\<lambda>p. case inodes sample_dir_fs p of Some i \<Rightarrow> sector i = 3 | None \<Rightarrow> False)
      (open_inodes sample_dir_fs) = Some 8" "inodes sample_dir_fs 8 = Some hello_inode"
    by (simp_all add: sample_dir_fs_def sample_fs_def hello_inode_def)
  ultimately show ?thesis
    using dir_remove_keeps_open_file [of sample_dir_fs "\<lparr>d_inode = 7, d_pos = 0\<rparr>" sample_dir_inode 9 "[97]" 3 8 hello_inode]
    by (auto simp: sample_dir sample_dir_map hello_inode_def)
qed

text \<open>
  The number of openers that the inode of a sector counts; no open inode is no opener.
\<close>

definition opener_cnt :: "fs \<Rightarrow> nat \<Rightarrow> int" where
  "opener_cnt s sec = (case find (\<lambda>p. case inodes s p of Some i \<Rightarrow> sector i = sec | None \<Rightarrow> False) (open_inodes s) of
     None \<Rightarrow> 0 | Some p \<Rightarrow> (case inodes s p of None \<Rightarrow> 0 | Some i \<Rightarrow> open_cnt i))"

lemma opener_cnt_update:
  assumes "inodes s p = Some i" "sector i = sec" "find (\<lambda>p. case inodes s p of Some i \<Rightarrow> sector i = sec | None \<Rightarrow> False) (open_inodes s) = Some p"
    and "inodes s' = (inodes s)(p \<mapsto> i\<lparr>open_cnt := n\<rparr>)" "open_inodes s' = open_inodes s"
  shows "opener_cnt s' sec = n"
proof -
  have "(\<lambda>q. case inodes s' q of Some i \<Rightarrow> sector i = sec | None \<Rightarrow> False) = (\<lambda>q. case inodes s q of Some i \<Rightarrow> sector i = sec | None \<Rightarrow> False)"
    using assms(1,2,4) by (intro ext) (simp split: option.split)
  then show ?thesis using assms by (simp add: opener_cnt_def)
qed

text \<open>\<open>file_open\<close> and \<open>file_close\<close> on an inode that was opened before leave its count as it was.\<close>

lemma file_open_close_same:
  assumes "mallocs s (malloc_cnt s)" "inodes s p = Some i" "0 < open_cnt i" "open_cnt i < 2 ^ 31 - 1"
  shows "\<exists>s1 s2 f. file_open s (Some p) = Inr (s1, Some f) \<and> file_close s1 (Some f) = Inr s2
    \<and> inodes s2 = inodes s \<and> open_inodes s2 = open_inodes s \<and> free_map s2 = free_map s"
proof -
  have "s32_of (s32_of (open_cnt i + 1) - 1) = open_cnt i" using assms(3,4) by simp
  moreover have "i\<lparr>open_cnt := open_cnt i\<rparr> = i" by simp
  ultimately show ?thesis
    using assms by (simp add: file_open_def kalloc_def get_inode_def file_close_def file_allow_write_def get_file_def
        inode_close_def Let_def fun_upd_idem)
qed

lemma inode_open_counts:
  assumes "cache_inv s" "\<forall>n. mallocs s n" "sec < capacity (filesys_disk s)" "capacity (filesys_disk s) \<le> 2 ^ 28"
    and "\<forall>p\<in>set (open_inodes s). \<exists>i. inodes s p = Some i \<and> 0 < open_cnt i \<and> open_cnt i < 2 ^ 31 - 2"
  shows "\<exists>s' p i. inode_open s sec = Inr (s', Some p) \<and> inodes s' p = Some i \<and> open_cnt i = opener_cnt s sec + 1
    \<and> opener_cnt s' sec = opener_cnt s sec + 1 \<and> 0 < open_cnt i \<and> open_cnt i < 2 ^ 31 - 1
    \<and> (\<forall>n. mallocs s' n) \<and> p \<in> set (open_inodes s') \<and> sector i = sec \<and> free_map s' = free_map s"
proof (cases "find (\<lambda>p. case inodes s p of Some i \<Rightarrow> sector i = sec | None \<Rightarrow> False) (open_inodes s)")
  case (Some p)
  then have p: "p \<in> set (open_inodes s)" "case inodes s p of Some i \<Rightarrow> sector i = sec | None \<Rightarrow> False"
    by (auto simp: find_Some_iff)
  then obtain i where i: "inodes s p = Some i" "sector i = sec" by (auto split: option.splits)
  then have c: "0 < open_cnt i" "open_cnt i < 2 ^ 31 - 2" using assms(5) p(1) by fastforce+
  let ?s = "s\<lparr>inodes := (inodes s)(p \<mapsto> i\<lparr>open_cnt := open_cnt i + 1\<rparr>)\<rparr>"
  have "inode_open s sec = Inr (?s, Some p)" using Some i(1) c by (simp add: inode_open_def inode_reopen_def get_inode_def)
  moreover have "opener_cnt ?s sec = open_cnt i + 1" by (rule opener_cnt_update [OF i Some]) simp_all
  moreover have "opener_cnt s sec = open_cnt i" using Some i by (simp add: opener_cnt_def)
  ultimately show ?thesis using c p(1) i(2) assms(2) by (intro exI [of _ ?s] exI [of _ p] exI [of _ "i\<lparr>open_cnt := open_cnt i + 1\<rparr>"]) simp
next
  case None
  let ?s1 = "s\<lparr>malloc_cnt := Suc (malloc_cnt s)\<rparr>" and ?p = "Suc (malloc_cnt s)"
  have ci: "cache_inv ?s1" using assms(1) by (rule cache_inv_malloc)
  obtain s2 where r: "buffer_cache_read ?s1 sec False = Inr (s2, Some (cache_view ?s1 sec))"
    using buffer_cache_read_total [OF ci, of sec False] assms(2,3,4) by auto
  note fr = conjunct1 [OF conjunct2 [OF buffer_cache_read_spec [OF ci r]]]
  let ?i = "\<lparr>sector = sec, open_cnt = 1, removed = False, deny_write_cnt = 0, idata = inode_disk_of (cache_view ?s1 sec)\<rparr>"
  let ?s = "s2\<lparr>open_inodes := ?p # open_inodes s2, inodes := (inodes s2)(?p \<mapsto> ?i)\<rparr>"
  have "inode_open s sec = Inr (?s, Some ?p)" using None r assms(2) by (simp add: inode_open_def kalloc_def)
  moreover have "opener_cnt s sec = 0" "opener_cnt ?s sec = 1" using None by (simp_all add: opener_cnt_def)
  moreover have "mallocs s2 = mallocs s" "free_map s2 = free_map s" using fr cache_frame_fs(7) [OF fr] by (simp_all add: cache_frame_def)
  ultimately show ?thesis using assms(2) by (intro exI [of _ ?s] exI [of _ ?p] exI [of _ ?i]) simp
qed

text \<open>
  C23: opening a file leaks a reference to its inode. Opening the inode of a sector counts one opener,
  \<open>file_open\<close> takes that reference over, as its comment says, and yet counts another one, and
  \<open>file_close\<close> gives one back: afterwards the inode has one opener more than before it was
  opened and is still in the list of open inodes, so that its memory and, if it is removed,
  its sectors are never released.
\<close>

theorem open_close_leaks_reference:
  assumes "cache_inv s" "\<forall>n. mallocs s n" "sec < capacity (filesys_disk s)" "capacity (filesys_disk s) \<le> 2 ^ 28"
    and "\<forall>p\<in>set (open_inodes s). \<exists>i. inodes s p = Some i \<and> 0 < open_cnt i \<and> open_cnt i < 2 ^ 31 - 2"
  shows "\<exists>s1 p s2 f s3. inode_open s sec = Inr (s1, Some p) \<and> file_open s1 (Some p) = Inr (s2, Some f) \<and> file_close s2 (Some f) = Inr s3
    \<and> opener_cnt s3 sec = opener_cnt s sec + 1 \<and> p \<in> set (open_inodes s3) \<and> free_map s3 = free_map s"
proof -
  obtain s1 p i where o: "inode_open s sec = Inr (s1, Some p)" "inodes s1 p = Some i" "0 < open_cnt i" "open_cnt i < 2 ^ 31 - 1"
    "\<forall>n. mallocs s1 n" "opener_cnt s1 sec = opener_cnt s sec + 1" "p \<in> set (open_inodes s1)" "free_map s1 = free_map s"
    using inode_open_counts [OF assms] by blast
  from file_open_close_same [OF o(5) [THEN spec] o(2-4)] obtain s2 f s3 where
    f: "file_open s1 (Some p) = Inr (s2, Some f)" "file_close s2 (Some f) = Inr s3"
      "inodes s3 = inodes s1" "open_inodes s3 = open_inodes s1" "free_map s3 = free_map s1" by blast
  have "opener_cnt s3 sec = opener_cnt s1 sec" unfolding opener_cnt_def f(3,4) ..
  with o f show ?thesis by metis
qed

theorem open_close_leaks_reference_witness:
  "opener_cnt sample_fs 9 = 0 \<and> (\<exists>s1 p s2 f s3. inode_open sample_fs 9 = Inr (s1, Some p) \<and> file_open s1 (Some p) = Inr (s2, Some f)
    \<and> file_close s2 (Some f) = Inr s3 \<and> opener_cnt s3 9 = 1)"
proof -
  have "\<forall>p\<in>set (open_inodes sample_fs). \<exists>i. inodes sample_fs p = Some i \<and> 0 < open_cnt i \<and> open_cnt i < 2 ^ 31 - 2"
    by (simp add: sample_fs_def sample_inode_def hello_inode_def map_inode_def)
  moreover have "mallocs sample_fs n" for n by (simp add: sample_fs_def)
  moreover have "opener_cnt sample_fs 9 = 0" by (simp add: opener_cnt_def sample_fs_def sample_inode_def hello_inode_def map_inode_def)
  ultimately show ?thesis using open_close_leaks_reference [OF sample_cache(1), of 9] by (auto simp: sample_file)
qed

end
