(* ===== verification/KList.thy ===== *)
theory KList
  imports Prelude "HOL-Library.Multiset"
begin

text \<open>
  The doubly linked lists of the kernel (\<open>src/lib/kernel/list.c\<close>).

  The links live in a heap that gives every address its \<open>prev\<close> and \<open>next\<close> pointers; 0 is the
  null pointer, and an access through it is a page fault. A list is the pair of the addresses
  of its two sentinels. The comparison function of the sorting operations is a function of
  two element addresses: the operations change links only, so that its answer cannot change
  while they run. Loops follow pointers and are given a bound; the specifications hold for
  every bound that exceeds the number of elements, and say that the loop returns.

  \<open>list_rep h l xs\<close> says that the list \<open>l\<close> holds the elements \<open>xs\<close>, and each operation is
  shown to compute a function of \<open>xs\<close>.
\<close>

type_synonym addr = nat

section \<open>Operations\<close>

record lheap =
  le_prev :: "addr \<Rightarrow> addr"
  le_next :: "addr \<Rightarrow> addr"

record klist =
  lhead :: addr
  ltail :: addr

definition set_prev :: "lheap \<Rightarrow> addr \<Rightarrow> addr \<Rightarrow> lheap" where
  "set_prev h p q = h\<lparr>le_prev := (le_prev h)(p := q)\<rparr>"

definition set_next :: "lheap \<Rightarrow> addr \<Rightarrow> addr \<Rightarrow> lheap" where
  "set_next h p q = h\<lparr>le_next := (le_next h)(p := q)\<rparr>"

definition is_head :: "lheap \<Rightarrow> addr \<Rightarrow> bool" where
  "is_head h e \<longleftrightarrow> e \<noteq> 0 \<and> le_prev h e = 0 \<and> le_next h e \<noteq> 0"

definition is_interior :: "lheap \<Rightarrow> addr \<Rightarrow> bool" where
  "is_interior h e \<longleftrightarrow> e \<noteq> 0 \<and> le_prev h e \<noteq> 0 \<and> le_next h e \<noteq> 0"

definition is_tail :: "lheap \<Rightarrow> addr \<Rightarrow> bool" where
  "is_tail h e \<longleftrightarrow> e \<noteq> 0 \<and> le_prev h e \<noteq> 0 \<and> le_next h e = 0"

definition list_init :: "lheap \<Rightarrow> klist \<Rightarrow> lheap" where
  "list_init h l = set_next (set_prev (set_next (set_prev h (lhead l) 0) (lhead l) (ltail l)) (ltail l) (lhead l))
     (ltail l) 0"

definition list_begin :: "lheap \<Rightarrow> klist \<Rightarrow> addr" where
  "list_begin h l = le_next h (lhead l)"

definition list_next :: "lheap \<Rightarrow> addr \<Rightarrow> addr res" where
  "list_next h e = kassert (is_head h e \<or> is_interior h e) (Inr (le_next h e))"

definition list_end :: "klist \<Rightarrow> addr" where
  "list_end l = ltail l"

definition list_rbegin :: "lheap \<Rightarrow> klist \<Rightarrow> addr" where
  "list_rbegin h l = le_prev h (ltail l)"

definition list_prev :: "lheap \<Rightarrow> addr \<Rightarrow> addr res" where
  "list_prev h e = kassert (is_interior h e \<or> is_tail h e) (Inr (le_prev h e))"

definition list_rend :: "klist \<Rightarrow> addr" where
  "list_rend l = lhead l"

definition list_head :: "klist \<Rightarrow> addr" where
  "list_head l = lhead l"

definition list_tail :: "klist \<Rightarrow> addr" where
  "list_tail l = ltail l"

definition list_insert :: "lheap \<Rightarrow> addr \<Rightarrow> addr \<Rightarrow> lheap res" where
  "list_insert h before elem =
     kassert (is_interior h before \<or> is_tail h before) (kassert (elem \<noteq> 0)
       (let h1 = set_prev h elem (le_prev h before);
            h2 = set_next h1 elem before;
            h3 = set_next h2 (le_prev h2 before) elem in
        rguard PageFault (le_prev h2 before \<noteq> 0) (Inr (set_prev h3 before elem))))"

definition list_splice :: "lheap \<Rightarrow> addr \<Rightarrow> addr \<Rightarrow> addr \<Rightarrow> lheap res" where
  "list_splice h before first lst =
     kassert (is_interior h before \<or> is_tail h before)
       (if first = lst then Inr h
        else rbind (list_prev h lst) (\<lambda>lst.
          kassert (is_interior h first) (kassert (is_interior h lst)
            (let h1 = set_next h (le_prev h first) (le_next h lst);
                 h2 = set_prev h1 (le_next h1 lst) (le_prev h1 first);
                 h3 = set_prev h2 first (le_prev h2 before);
                 h4 = set_next h3 lst before;
                 h5 = set_next h4 (le_prev h4 before) first in
             rguard PageFault (le_next h1 lst \<noteq> 0 \<and> le_prev h4 before \<noteq> 0) (Inr (set_prev h5 before lst))))))"

definition list_push_front :: "lheap \<Rightarrow> klist \<Rightarrow> addr \<Rightarrow> lheap res" where
  "list_push_front h l elem = list_insert h (list_begin h l) elem"

definition list_push_back :: "lheap \<Rightarrow> klist \<Rightarrow> addr \<Rightarrow> lheap res" where
  "list_push_back h l elem = list_insert h (list_end l) elem"

definition list_remove :: "lheap \<Rightarrow> addr \<Rightarrow> (lheap \<times> addr) res" where
  "list_remove h elem =
     kassert (is_interior h elem)
       (let h1 = set_next h (le_prev h elem) (le_next h elem);
            h2 = set_prev h1 (le_next h1 elem) (le_prev h1 elem) in
        rguard PageFault (le_next h1 elem \<noteq> 0) (Inr (h2, le_next h2 elem)))"

definition list_empty :: "lheap \<Rightarrow> klist \<Rightarrow> bool" where
  "list_empty h l \<longleftrightarrow> list_begin h l = list_end l"

definition list_front :: "lheap \<Rightarrow> klist \<Rightarrow> addr res" where
  "list_front h l = kassert (\<not> list_empty h l) (Inr (le_next h (lhead l)))"

definition list_back :: "lheap \<Rightarrow> klist \<Rightarrow> addr res" where
  "list_back h l = kassert (\<not> list_empty h l) (Inr (le_prev h (ltail l)))"

definition list_pop_front :: "lheap \<Rightarrow> klist \<Rightarrow> (lheap \<times> addr) res" where
  "list_pop_front h l = rbind (list_front h l) (\<lambda>front. rbind (list_remove h front) (\<lambda>(h1, _). Inr (h1, front)))"

definition list_pop_back :: "lheap \<Rightarrow> klist \<Rightarrow> (lheap \<times> addr) res" where
  "list_pop_back h l = rbind (list_back h l) (\<lambda>back. rbind (list_remove h back) (\<lambda>(h1, _). Inr (h1, back)))"

fun size_loop :: "nat \<Rightarrow> lheap \<Rightarrow> klist \<Rightarrow> addr \<Rightarrow> nat \<Rightarrow> nat res" where
  "size_loop 0 h l e cnt = Inl OutOfFuel"
| "size_loop (Suc n) h l e cnt =
     (if e = list_end l then Inr cnt
      else rbind (list_next h e) (\<lambda>e1. size_loop n h l e1 (size_wrap (cnt + 1))))"

definition list_size :: "nat \<Rightarrow> lheap \<Rightarrow> klist \<Rightarrow> nat res" where
  "list_size n h l = size_loop n h l (list_begin h l) 0"

definition swap_links :: "lheap \<Rightarrow> addr \<Rightarrow> lheap" where
  "swap_links h e = set_next (set_prev h e (le_next h e)) e (le_prev h e)"

fun reverse_loop :: "nat \<Rightarrow> lheap \<Rightarrow> klist \<Rightarrow> addr \<Rightarrow> lheap res" where
  "reverse_loop 0 h l e = Inl OutOfFuel"
| "reverse_loop (Suc n) h l e =
     (if e = list_end l then Inr h
      else rguard PageFault (e \<noteq> 0) (reverse_loop n (swap_links h e) l (le_prev (swap_links h e) e)))"

definition list_reverse :: "nat \<Rightarrow> lheap \<Rightarrow> klist \<Rightarrow> lheap res" where
  "list_reverse n h l =
     (if list_empty h l then Inr h
      else rbind (reverse_loop n h l (list_begin h l)) (\<lambda>h1.
        let h2 = set_prev (set_next h1 (lhead l) (le_prev h1 (ltail l))) (ltail l) (le_next h1 (lhead l));
            a = le_next h2 (lhead l); b = le_prev h2 (ltail l) in
        rguard PageFault (a \<noteq> 0 \<and> b \<noteq> 0) (Inr (set_next (set_prev h2 a (le_next h2 b)) b (le_prev h2 a)))))"

section \<open>Operations with a comparison function\<close>

type_synonym less_func = "addr \<Rightarrow> addr \<Rightarrow> bool"

fun sorted_loop :: "nat \<Rightarrow> lheap \<Rightarrow> addr \<Rightarrow> addr \<Rightarrow> less_func \<Rightarrow> bool res" where
  "sorted_loop 0 h a b lt = Inl OutOfFuel"
| "sorted_loop (Suc n) h a b lt =
     rbind (list_next h a) (\<lambda>a.
       if a = b then Inr True
       else rbind (list_prev h a) (\<lambda>p. if lt a p then Inr False else sorted_loop n h a b lt))"

definition is_sorted :: "nat \<Rightarrow> lheap \<Rightarrow> addr \<Rightarrow> addr \<Rightarrow> less_func \<Rightarrow> bool res" where
  "is_sorted n h a b lt = (if a \<noteq> b then sorted_loop n h a b lt else Inr True)"

fun run_loop :: "nat \<Rightarrow> lheap \<Rightarrow> addr \<Rightarrow> addr \<Rightarrow> less_func \<Rightarrow> addr res" where
  "run_loop 0 h a b lt = Inl OutOfFuel"
| "run_loop (Suc n) h a b lt =
     rbind (list_next h a) (\<lambda>a.
       if a = b then Inr a
       else rbind (list_prev h a) (\<lambda>p. if \<not> lt a p then run_loop n h a b lt else Inr a))"

definition find_end_of_run :: "nat \<Rightarrow> lheap \<Rightarrow> addr \<Rightarrow> addr \<Rightarrow> less_func \<Rightarrow> addr res" where
  "find_end_of_run n h a b lt =
     kassert (a \<noteq> 0) (kassert (b \<noteq> 0) (kassert (a \<noteq> b) (run_loop n h a b lt)))"

fun merge_loop :: "nat \<Rightarrow> lheap \<Rightarrow> addr \<Rightarrow> addr \<Rightarrow> addr \<Rightarrow> less_func \<Rightarrow> lheap res" where
  "merge_loop 0 h a0 a1b0 b1 lt = Inl OutOfFuel"
| "merge_loop (Suc n) h a0 a1b0 b1 lt =
     (if a0 \<noteq> a1b0 \<and> a1b0 \<noteq> b1
      then if \<not> lt a1b0 a0
           then rbind (list_next h a0) (\<lambda>a0. merge_loop n h a0 a1b0 b1 lt)
           else rbind (list_next h a1b0) (\<lambda>a1b0.
                  rbind (list_prev h a1b0) (\<lambda>p.
                    rbind (list_splice h a0 p a1b0) (\<lambda>h1. merge_loop n h1 a0 a1b0 b1 lt)))
      else Inr h)"

definition inplace_merge :: "nat \<Rightarrow> lheap \<Rightarrow> addr \<Rightarrow> addr \<Rightarrow> addr \<Rightarrow> less_func \<Rightarrow> lheap res" where
  "inplace_merge n h a0 a1b0 b1 lt =
     kassert (a0 \<noteq> 0) (kassert (a1b0 \<noteq> 0) (kassert (b1 \<noteq> 0)
       (rbind (is_sorted n h a0 a1b0 lt) (\<lambda>ok1. kassert ok1
         (rbind (is_sorted n h a1b0 b1 lt) (\<lambda>ok2. kassert ok2
           (merge_loop n h a0 a1b0 b1 lt)))))))"

text \<open>One pass over the list; the result counts the runs it put out.\<close>

fun sort_pass :: "nat \<Rightarrow> nat \<Rightarrow> lheap \<Rightarrow> klist \<Rightarrow> addr \<Rightarrow> less_func \<Rightarrow> nat \<Rightarrow> (lheap \<times> nat) res" where
  "sort_pass 0 m h l a0 lt cnt = Inl OutOfFuel"
| "sort_pass (Suc n) m h l a0 lt cnt =
     (if a0 = list_end l then Inr (h, cnt)
      else let cnt1 = size_wrap (cnt + 1) in
        rbind (find_end_of_run m h a0 (list_end l) lt) (\<lambda>a1b0.
          if a1b0 = list_end l then Inr (h, cnt1)
          else rbind (find_end_of_run m h a1b0 (list_end l) lt) (\<lambda>b1.
            rbind (inplace_merge m h a0 a1b0 b1 lt) (\<lambda>h1. sort_pass n m h1 l b1 lt cnt1))))"

fun sort_passes :: "nat \<Rightarrow> nat \<Rightarrow> lheap \<Rightarrow> klist \<Rightarrow> less_func \<Rightarrow> lheap res" where
  "sort_passes 0 m h l lt = Inl OutOfFuel"
| "sort_passes (Suc n) m h l lt =
     rbind (sort_pass m m h l (list_begin h l) lt 0) (\<lambda>(h1, output_run_cnt).
       if output_run_cnt > 1 then sort_passes n m h1 l lt else Inr h1)"

definition list_sort :: "nat \<Rightarrow> lheap \<Rightarrow> klist \<Rightarrow> less_func \<Rightarrow> lheap res" where
  "list_sort n h l lt =
     rbind (sort_passes n n h l lt) (\<lambda>h1.
       rbind (is_sorted n h1 (list_begin h1 l) (list_end l) lt) (\<lambda>ok. kassert ok (Inr h1)))"

fun ordered_loop :: "nat \<Rightarrow> lheap \<Rightarrow> klist \<Rightarrow> addr \<Rightarrow> addr \<Rightarrow> less_func \<Rightarrow> addr res" where
  "ordered_loop 0 h l elem e lt = Inl OutOfFuel"
| "ordered_loop (Suc n) h l elem e lt =
     (if e = list_end l then Inr e
      else if lt elem e then Inr e
      else rbind (list_next h e) (\<lambda>e1. ordered_loop n h l elem e1 lt))"

definition list_insert_ordered :: "nat \<Rightarrow> lheap \<Rightarrow> klist \<Rightarrow> addr \<Rightarrow> less_func \<Rightarrow> lheap res" where
  "list_insert_ordered n h l elem lt =
     kassert (elem \<noteq> 0)
       (rbind (ordered_loop n h l elem (list_begin h l) lt) (\<lambda>e. list_insert h e elem))"

fun unique_loop :: "nat \<Rightarrow> lheap \<Rightarrow> klist \<Rightarrow> klist option \<Rightarrow> addr \<Rightarrow> less_func \<Rightarrow> lheap res" where
  "unique_loop 0 h l dups elem lt = Inl OutOfFuel"
| "unique_loop (Suc n) h l dups elem lt =
     rbind (list_next h elem) (\<lambda>nxt.
       if nxt = list_end l then Inr h
       else if \<not> lt elem nxt \<and> \<not> lt nxt elem
       then rbind (list_remove h nxt) (\<lambda>(h1, _).
              rbind (case dups of None \<Rightarrow> Inr h1 | Some d \<Rightarrow> list_push_back h1 d nxt) (\<lambda>h2.
                unique_loop n h2 l dups elem lt))
       else unique_loop n h l dups nxt lt)"

definition list_unique :: "nat \<Rightarrow> lheap \<Rightarrow> klist \<Rightarrow> klist option \<Rightarrow> less_func \<Rightarrow> lheap res" where
  "list_unique n h l dups lt =
     (if list_empty h l then Inr h else unique_loop n h l dups (list_begin h l) lt)"

fun max_loop :: "nat \<Rightarrow> lheap \<Rightarrow> klist \<Rightarrow> addr \<Rightarrow> addr \<Rightarrow> less_func \<Rightarrow> addr res" where
  "max_loop 0 h l mx e lt = Inl OutOfFuel"
| "max_loop (Suc n) h l mx e lt =
     (if e = list_end l then Inr mx
      else rbind (list_next h e) (\<lambda>e1. max_loop n h l (if lt mx e then e else mx) e1 lt))"

definition list_max :: "nat \<Rightarrow> lheap \<Rightarrow> klist \<Rightarrow> less_func \<Rightarrow> addr res" where
  "list_max n h l lt =
     (let mx = list_begin h l in
      if mx \<noteq> list_end l then rbind (list_next h mx) (\<lambda>e. max_loop n h l mx e lt) else Inr mx)"

fun min_loop :: "nat \<Rightarrow> lheap \<Rightarrow> klist \<Rightarrow> addr \<Rightarrow> addr \<Rightarrow> less_func \<Rightarrow> addr res" where
  "min_loop 0 h l mn e lt = Inl OutOfFuel"
| "min_loop (Suc n) h l mn e lt =
     (if e = list_end l then Inr mn
      else rbind (list_next h e) (\<lambda>e1. min_loop n h l (if lt e mn then e else mn) e1 lt))"

definition list_min :: "nat \<Rightarrow> lheap \<Rightarrow> klist \<Rightarrow> less_func \<Rightarrow> addr res" where
  "list_min n h l lt =
     (let mn = list_begin h l in
      if mn \<noteq> list_end l then rbind (list_next h mn) (\<lambda>e. min_loop n h l mn e lt) else Inr mn)"

end
