(* ===== verification/KList_Spec.thy ===== *)
theory KList_Spec
  imports KList
begin

text \<open>
  What the kernel lists promise: every operation computes a function of the list of elements.
\<close>

section \<open>Linked chains\<close>

fun linked :: "lheap \<Rightarrow> addr list \<Rightarrow> bool" where
  "linked h [] = True"
| "linked h [x] = True"
| "linked h (x # y # zs) = (le_next h x = y \<and> le_prev h y = x \<and> linked h (y # zs))"

definition nodes :: "klist \<Rightarrow> addr list \<Rightarrow> addr list" where
  "nodes l xs = lhead l # xs @ [ltail l]"

definition list_rep :: "lheap \<Rightarrow> klist \<Rightarrow> addr list \<Rightarrow> bool" where
  "list_rep h l xs \<longleftrightarrow> linked h (nodes l xs) \<and> distinct (nodes l xs) \<and> 0 \<notin> set (nodes l xs)
     \<and> le_prev h (lhead l) = 0 \<and> le_next h (ltail l) = 0"

lemma links_set [simp]:
  "le_prev (set_prev h p q) = (le_prev h)(p := q)" "le_next (set_prev h p q) = le_next h"
  "le_next (set_next h p q) = (le_next h)(p := q)" "le_prev (set_next h p q) = le_prev h"
  by (simp_all add: set_prev_def set_next_def)

lemma linked_append: "linked h (xs @ y # ys) \<longleftrightarrow> linked h (xs @ [y]) \<and> linked h (y # ys)"
  by (induction xs rule: induct_list012) auto

lemma linked_mid:
  "linked h (A @ p # b # B) \<longleftrightarrow> linked h (A @ [p]) \<and> le_next h p = b \<and> le_prev h b = p \<and> linked h (b # B)"
  using linked_append [of h A p "b # B"] by simp

lemma linked_cong:
  assumes "\<forall>x\<in>set (butlast ps). le_next h' x = le_next h x" "\<forall>x\<in>set (tl ps). le_prev h' x = le_prev h x"
  shows "linked h' ps = linked h ps"
  using assms by (induction ps rule: induct_list012) auto

lemma linked_frame:
  assumes "linked h ps" "\<forall>x\<in>set (butlast ps). le_next h' x = le_next h x" "\<forall>x\<in>set (tl ps). le_prev h' x = le_prev h x"
  shows "linked h' ps"
  using linked_cong [OF assms(2,3)] assms(1) by simp

text \<open>The two neighbours of a place in the list.\<close>

definition at_node :: "klist \<Rightarrow> addr list \<Rightarrow> addr" where
  "at_node l ys = hd (ys @ [ltail l])"

definition before_node :: "klist \<Rightarrow> addr list \<Rightarrow> addr" where
  "before_node l xs = last (lhead l # xs)"

lemma at_node_simps [simp]: "at_node l [] = ltail l" "at_node l (y # ys) = y"
  by (simp_all add: at_node_def)

lemma before_node_simps [simp]: "before_node l [] = lhead l" "before_node l (xs @ [x]) = x"
  by (simp_all add: before_node_def)

lemma nodes_split: "nodes l (xs @ ys) = butlast (lhead l # xs) @ before_node l xs # at_node l ys # tl (ys @ [ltail l])"
proof -
  have "lhead l # xs = butlast (lhead l # xs) @ [before_node l xs]"
    unfolding before_node_def by (rule append_butlast_last_id [symmetric]) simp
  moreover have "ys @ [ltail l] = at_node l ys # tl (ys @ [ltail l])"
    unfolding at_node_def by (rule hd_Cons_tl [symmetric]) simp
  moreover have "nodes l (xs @ ys) = (lhead l # xs) @ (ys @ [ltail l])" by (simp add: nodes_def)
  ultimately show ?thesis by (metis append.assoc append_Cons append_Nil)
qed

lemma before_node_in: "before_node l xs \<in> insert (lhead l) (set xs)"
  by (simp add: before_node_def)

lemma at_node_in: "at_node l ys \<in> insert (ltail l) (set ys)"
  by (cases ys) auto

lemma list_rep_distinct:
  assumes "list_rep h l xs"
  shows "distinct xs" "lhead l \<notin> set xs" "ltail l \<notin> set xs" "lhead l \<noteq> ltail l" "0 \<notin> set xs" "lhead l \<noteq> 0" "ltail l \<noteq> 0"
  using assms by (auto simp: list_rep_def nodes_def)

lemma list_rep_neighbours:
  assumes "list_rep h l (xs @ ys)"
  shows "le_next h (before_node l xs) = at_node l ys" "le_prev h (at_node l ys) = before_node l xs"
    "before_node l xs \<noteq> 0" "at_node l ys \<noteq> 0" "before_node l xs \<noteq> at_node l ys"
  using assms unfolding list_rep_def nodes_split linked_mid by simp_all

lemma list_rep_begin: "list_rep h l xs \<Longrightarrow> list_begin h l = at_node l xs"
  using list_rep_neighbours(1) [of h l "[]" xs] by (simp add: list_begin_def)

lemma list_rep_rbegin: "list_rep h l xs \<Longrightarrow> list_rbegin h l = before_node l xs"
  using list_rep_neighbours(2) [of h l xs "[]"] by (simp add: list_rbegin_def)

lemma is_interior_rep:
  assumes "list_rep h l (xs @ x # ys)"
  shows "is_interior h x" "le_next h x = at_node l ys" "le_prev h x = before_node l xs" "x \<noteq> 0"
  using list_rep_neighbours [of h l xs "x # ys"] list_rep_neighbours [of h l "xs @ [x]" ys] assms
  by (simp_all add: is_interior_def)

lemma is_interior_mem: "list_rep h l xs \<Longrightarrow> x \<in> set xs \<Longrightarrow> is_interior h x"
  by (auto dest!: split_list intro: is_interior_rep(1))

lemma is_tail_rep: "list_rep h l xs \<Longrightarrow> is_tail h (ltail l)"
  using list_rep_neighbours [of h l xs "[]"] by (simp add: is_tail_def list_rep_def)

lemma at_node_place: "list_rep h l (xs @ ys) \<Longrightarrow> is_interior h (at_node l ys) \<or> is_tail h (at_node l ys)"
  by (cases ys) (auto dest: is_interior_rep is_tail_rep)

lemma list_next_rep: "list_rep h l (xs @ x # ys) \<Longrightarrow> list_next h x = Inr (at_node l ys)"
  by (simp add: list_next_def is_interior_rep)

lemma list_prev_rep: "list_rep h l (xs @ ys) \<Longrightarrow> list_prev h (at_node l ys) = Inr (before_node l xs)"
  using at_node_place [of h l xs ys] list_rep_neighbours [of h l xs ys] by (simp add: list_prev_def)

text \<open>Memory outside the list does not matter.\<close>

lemma list_rep_cong:
  assumes "list_rep h l xs" "\<forall>p\<in>set (nodes l xs). le_next h' p = le_next h p \<and> le_prev h' p = le_prev h p"
  shows "list_rep h' l xs"
proof -
  have "linked h' (nodes l xs)"
    by (rule linked_frame [of h]) (use assms in \<open>auto simp: list_rep_def dest: in_set_butlastD in_set_tlD\<close>)
  with assms show ?thesis by (simp add: list_rep_def nodes_def)
qed

definition links_same :: "lheap \<Rightarrow> lheap \<Rightarrow> addr set \<Rightarrow> bool" where
  "links_same h h' A \<longleftrightarrow> (\<forall>p. p \<notin> A \<longrightarrow> le_next h' p = le_next h p \<and> le_prev h' p = le_prev h p)"

lemma links_same_refl [simp]: "links_same h h A"
  by (simp add: links_same_def)

lemma links_same_trans: "links_same h h1 A \<Longrightarrow> links_same h1 h2 A \<Longrightarrow> links_same h h2 A"
  by (simp add: links_same_def)

lemma list_rep_outside: "list_rep h l xs \<Longrightarrow> links_same h h' A \<Longrightarrow> set (nodes l xs) \<inter> A = {} \<Longrightarrow> list_rep h' l xs"
  by (rule list_rep_cong) (auto simp: links_same_def)

section \<open>Insertion and removal\<close>

lemma list_init_rep:
  assumes "lhead l \<noteq> ltail l" "lhead l \<noteq> 0" "ltail l \<noteq> 0"
  shows "list_rep (list_init h l) l []"
  using assms by (simp add: list_rep_def nodes_def list_init_def)

lemma linked_insert:
  assumes "linked h (A @ p # b # B)" "distinct (A @ p # b # B)" "e \<notin> set (A @ p # b # B)"
    and "\<forall>x. x \<noteq> e \<and> x \<noteq> p \<longrightarrow> le_next h' x = le_next h x" "\<forall>x. x \<noteq> e \<and> x \<noteq> b \<longrightarrow> le_prev h' x = le_prev h x"
    and "le_next h' p = e" "le_prev h' e = p" "le_next h' e = b" "le_prev h' b = e"
  shows "linked h' (A @ p # e # b # B)"
proof -
  have l: "linked h (A @ [p])" "linked h (b # B)" using assms(1) unfolding linked_mid by auto
  have out: "p \<notin> set A" "b \<notin> set (A @ [p])" "e \<notin> set (A @ [p])" "p \<notin> set (b # B)" "e \<notin> set (b # B)" "b \<notin> set B"
    using assms(2,3) by auto
  have "linked h' (A @ [p])"
  proof (rule linked_frame [OF l(1)])
    show "\<forall>x\<in>set (butlast (A @ [p])). le_next h' x = le_next h x" using out assms(4) by auto
    show "\<forall>x\<in>set (tl (A @ [p])). le_prev h' x = le_prev h x" using out assms(5) in_set_tlD by metis
  qed
  moreover have "linked h' (b # B)"
  proof (rule linked_frame [OF l(2)])
    show "\<forall>x\<in>set (butlast (b # B)). le_next h' x = le_next h x" using out assms(4) in_set_butlastD by metis
    show "\<forall>x\<in>set (tl (b # B)). le_prev h' x = le_prev h x" using out assms(5) by auto
  qed
  ultimately show ?thesis using assms(6-9) unfolding linked_mid by simp
qed

lemma list_insert_spec:
  assumes "list_rep h l (xs @ ys)" "e \<notin> set (nodes l (xs @ ys))" "e \<noteq> 0"
  shows "\<exists>h'. list_insert h (at_node l ys) e = Inr h' \<and> list_rep h' l (xs @ e # ys)
    \<and> links_same h h' (insert e (set (nodes l (xs @ ys))))"
proof -
  let ?p = "before_node l xs" and ?b = "at_node l ys"
  let ?h = "set_prev (set_next (set_next (set_prev h e ?p) e ?b) ?p e) ?b e"
  note nb = list_rep_neighbours [OF assms(1)]
  have ne: "?p \<noteq> e" "?b \<noteq> e" using assms(2) by (auto simp: nodes_split)
  have place: "list_insert h ?b e = Inr ?h"
    using at_node_place [OF assms(1)] assms(3) nb ne by (simp add: list_insert_def Let_def)
  have "nodes l (xs @ e # ys) = butlast (lhead l # xs) @ ?p # e # ?b # tl (ys @ [ltail l])"
    using nodes_split [of l "xs @ [e]" ys] by (simp add: before_node_def)
  moreover have "linked ?h (butlast (lhead l # xs) @ ?p # e # ?b # tl (ys @ [ltail l]))"
  proof (rule linked_insert [where h = h])
    show "linked h (butlast (lhead l # xs) @ ?p # ?b # tl (ys @ [ltail l]))"
        "distinct (butlast (lhead l # xs) @ ?p # ?b # tl (ys @ [ltail l]))"
      using assms(1) by (simp_all only: list_rep_def nodes_split)
    show "e \<notin> set (butlast (lhead l # xs) @ ?p # ?b # tl (ys @ [ltail l]))"
      using assms(2) unfolding nodes_split .
  qed (use ne nb(5) in simp_all)
  ultimately have "linked ?h (nodes l (xs @ e # ys))" by simp
  moreover have "distinct (nodes l (xs @ e # ys))" "0 \<notin> set (nodes l (xs @ e # ys))"
    using assms by (simp_all add: list_rep_def nodes_def)
  moreover have "lhead l \<noteq> e" "ltail l \<noteq> e" using assms(2) by (auto simp: nodes_def)
  moreover have "lhead l \<noteq> ?b" "ltail l \<noteq> ?p"
    using before_node_in [of l xs] at_node_in [of l ys] list_rep_distinct [OF assms(1)] by auto
  ultimately have "list_rep ?h l (xs @ e # ys)" using assms(1) by (simp add: list_rep_def)
  moreover have "links_same h ?h (insert e (set (nodes l (xs @ ys))))"
    unfolding nodes_split by (simp add: links_same_def)
  ultimately show ?thesis using place by blast
qed

lemma linked_join:
  assumes "xs \<noteq> []" "ys \<noteq> []"
  shows "linked h (xs @ ys) \<longleftrightarrow> linked h xs \<and> linked h ys \<and> le_next h (last xs) = hd ys \<and> le_prev h (hd ys) = last xs"
proof -
  obtain A p where xs: "xs = A @ [p]" using assms(1) by (metis rev_exhaust)
  obtain b B where ys: "ys = b # B" using assms(2) by (metis list.exhaust)
  show ?thesis using linked_mid [of h A p b B] by (auto simp: xs ys)
qed

text \<open>A chain may be relinked at its two ends.\<close>

lemma linked_ends:
  assumes "linked h xs" "distinct xs"
    and "\<forall>x\<in>set xs. x \<noteq> last xs \<longrightarrow> le_next h' x = le_next h x" "\<forall>x\<in>set xs. x \<noteq> hd xs \<longrightarrow> le_prev h' x = le_prev h x"
  shows "linked h' xs"
proof (cases xs)
  case (Cons y ys)
  have "set (butlast xs) \<subseteq> set xs - {last xs}"
    using assms(2) by (cases xs rule: rev_cases) auto
  then show ?thesis using assms Cons by (intro linked_frame [OF assms(1)]) auto
qed simp

lemma nodes_join: "nodes l (xs @ ys) = (lhead l # xs) @ (ys @ [ltail l])"
  by (simp add: nodes_def)

lemma list_remove_spec:
  assumes "list_rep h l (xs @ e # ys)"
  shows "\<exists>h'. list_remove h e = Inr (h', at_node l ys) \<and> list_rep h' l (xs @ ys)
    \<and> links_same h h' (set (nodes l (xs @ ys)))"
proof -
  let ?p = "before_node l xs" and ?b = "at_node l ys"
  let ?h = "set_prev (set_next h ?p ?b) ?b ?p"
  let ?X = "lhead l # xs" and ?Y = "ys @ [ltail l]"
  note e = is_interior_rep [OF assms]
  have d: "distinct (?X @ e # ?Y)" "linked h (?X @ e # ?Y)" "0 \<notin> set (?X @ e # ?Y)"
    using assms unfolding list_rep_def by (simp_all add: nodes_def)
  have pb: "?p = last ?X" "?b = hd ?Y" by (simp_all add: before_node_def at_node_def)
  have mem: "last ?X \<in> set ?X" "hd ?Y \<in> set ?Y" by (rule last_in_set hd_in_set; simp)+
  have "e \<noteq> ?p" "e \<noteq> ?b" "?b \<noteq> 0" using d mem unfolding pb by auto
  then have rem: "list_remove h e = Inr (?h, ?b)" using e by (simp add: list_remove_def Let_def)
  have l: "linked h ?X" "linked h ?Y"
    using d(2) linked_join [of ?X "e # ?Y" h] linked_join [of "[e]" ?Y h] by simp_all
  have dis: "distinct ?X" "distinct ?Y" "set ?X \<inter> set ?Y = {}" using d(1) by auto
  have fr: "\<And>x. x \<noteq> ?p \<Longrightarrow> le_next ?h x = le_next h x" "\<And>x. x \<noteq> ?b \<Longrightarrow> le_prev ?h x = le_prev h x"
    by simp_all
  have "linked ?h ?X"
    by (rule linked_ends [OF l(1) dis(1)]; intro ballI impI fr) (use mem dis(3) in \<open>auto simp only: pb\<close>)
  moreover have "linked ?h ?Y"
    by (rule linked_ends [OF l(2) dis(2)]; intro ballI impI fr) (use mem dis(3) in \<open>auto simp only: pb\<close>)
  ultimately have "linked ?h (nodes l (xs @ ys))"
    unfolding nodes_join by (subst linked_join) (simp_all add: before_node_def at_node_def)
  moreover have "lhead l \<noteq> ?b" "ltail l \<noteq> ?p"
    using before_node_in [of l xs] at_node_in [of l ys] list_rep_distinct [OF assms] by auto
  ultimately have "list_rep ?h l (xs @ ys)" using assms d by (simp add: list_rep_def nodes_def)
  moreover have "links_same h ?h (set (nodes l (xs @ ys)))" unfolding nodes_split by (simp add: links_same_def)
  ultimately show ?thesis using rem by blast
qed

text \<open>Moving a segment of a list towards its front.\<close>

lemma list_splice_spec:
  assumes "list_rep h l (xs @ as @ seg @ ys)" "as \<noteq> []" "seg \<noteq> []"
  shows "\<exists>h'. list_splice h (hd as) (hd seg) (at_node l ys) = Inr h' \<and> list_rep h' l (xs @ seg @ as @ ys)
    \<and> links_same h h' (set (nodes l (xs @ as @ seg @ ys)))"
proof -
  let ?X = "lhead l # xs" and ?Y = "ys @ [ltail l]"
  define p a c d e b where pts: "p = last ?X" "a = hd as" "c = last as" "d = hd seg" "e = last seg" "b = hd ?Y"
  let ?h = "set_prev (set_next (set_next (set_prev (set_prev (set_next h c b) b c) d p) e a) p d) a e"
  have all: "distinct (?X @ as @ seg @ ?Y)" "linked h (?X @ as @ seg @ ?Y)" "0 \<notin> set (?X @ as @ seg @ ?Y)"
    using assms(1) unfolding list_rep_def by (simp_all add: nodes_def)
  have lk: "linked h ?X" "linked h as" "linked h seg" "linked h ?Y"
    "le_prev h a = p" "le_next h c = d" "le_prev h d = c" "le_next h e = b" "le_prev h b = e" "le_next h p = a"
    using all(2) assms(2,3) linked_join [of ?X "as @ seg @ ?Y" h] linked_join [of as "seg @ ?Y" h]
      linked_join [of seg ?Y h] by (simp_all add: pts)
  have mem: "p \<in> set ?X" "a \<in> set as" "c \<in> set as" "d \<in> set seg" "e \<in> set seg" "b \<in> set ?Y"
    using assms(2,3) at_node_in [of l ys] by (simp_all add: pts at_node_def)
  have ne: "p \<noteq> a" "p \<noteq> c" "p \<noteq> d" "p \<noteq> e" "p \<noteq> b" "a \<noteq> d" "a \<noteq> e" "a \<noteq> b" "c \<noteq> d" "c \<noteq> e" "c \<noteq> b"
    "d \<noteq> b" "e \<noteq> b" "p \<noteq> 0" "a \<noteq> 0" "c \<noteq> 0" "d \<noteq> 0" "e \<noteq> 0" "b \<noteq> 0"
    using mem all(1,3) by auto
  have at: "at_node l ys = b" by (simp add: pts at_node_def)
  have int: "is_interior h a" "is_interior h d" "is_interior h e"
    using mem by (auto intro: is_interior_mem [OF assms(1)])
  have "list_prev h b = Inr e"
    using list_prev_rep [of h l "xs @ as @ seg" ys] assms at by (simp add: before_node_def pts)
  then have spl: "list_splice h a d b = Inr ?h"
    using ne lk int by (simp add: list_splice_def Let_def fun_upd_twist)
  have fr: "\<And>x. x \<noteq> c \<Longrightarrow> x \<noteq> e \<Longrightarrow> x \<noteq> p \<Longrightarrow> le_next ?h x = le_next h x"
      "\<And>x. x \<noteq> b \<Longrightarrow> x \<noteq> d \<Longrightarrow> x \<noteq> a \<Longrightarrow> le_prev ?h x = le_prev h x"
    by simp_all
  have dis: "distinct ?X" "distinct as" "distinct seg" "distinct ?Y" "set ?X \<inter> set as = {}" "set ?X \<inter> set seg = {}"
      "set ?X \<inter> set ?Y = {}" "set as \<inter> set seg = {}" "set as \<inter> set ?Y = {}" "set seg \<inter> set ?Y = {}"
    using all(1) by auto
  have "linked ?h ?X"
    by (rule linked_ends [OF lk(1) dis(1)]; intro ballI impI fr) (use mem dis in \<open>auto simp only: pts(1)\<close>)
  moreover have "linked ?h as"
    by (rule linked_ends [OF lk(2) dis(2)]; intro ballI impI fr) (use mem dis in \<open>auto simp only: pts(2,3)\<close>)
  moreover have "linked ?h seg"
    by (rule linked_ends [OF lk(3) dis(3)]; intro ballI impI fr) (use mem dis in \<open>auto simp only: pts(4,5)\<close>)
  moreover have "linked ?h ?Y"
    by (rule linked_ends [OF lk(4) dis(4)]; intro ballI impI fr) (use mem dis in \<open>auto simp only: pts(6)\<close>)
  ultimately have "linked ?h (?X @ seg @ as @ ?Y)"
    using assms(2,3) ne linked_join [of ?X "seg @ as @ ?Y" ?h] linked_join [of seg "as @ ?Y" ?h]
      linked_join [of as ?Y ?h]
    by (simp flip: pts del: last.simps add: fun_upd_twist)
  then have "linked ?h (nodes l (xs @ seg @ as @ ys))" by (simp add: nodes_def)
  moreover have "lhead l \<noteq> a" "lhead l \<noteq> b" "lhead l \<noteq> d" "ltail l \<noteq> p" "ltail l \<noteq> c" "ltail l \<noteq> e"
    using mem all(1) by auto
  ultimately have "list_rep ?h l (xs @ seg @ as @ ys)"
    using assms(1) all by (auto simp: list_rep_def nodes_def)
  moreover have "links_same h ?h (set (nodes l (xs @ as @ seg @ ys)))"
    using mem by (auto simp: links_same_def nodes_def)
  ultimately show ?thesis using spl by (simp add: at pts(2,4))
qed

section \<open>Queues and stacks\<close>

lemma list_push_front_spec:
  assumes "list_rep h l xs" "e \<notin> set (nodes l xs)" "e \<noteq> 0"
  shows "\<exists>h'. list_push_front h l e = Inr h' \<and> list_rep h' l (e # xs) \<and> links_same h h' (insert e (set (nodes l xs)))"
  using list_insert_spec [of h l "[]" xs e] assms list_rep_begin [OF assms(1)] by (simp add: list_push_front_def)

lemma list_push_back_spec:
  assumes "list_rep h l xs" "e \<notin> set (nodes l xs)" "e \<noteq> 0"
  shows "\<exists>h'. list_push_back h l e = Inr h' \<and> list_rep h' l (xs @ [e]) \<and> links_same h h' (insert e (set (nodes l xs)))"
  using list_insert_spec [of h l xs "[]" e] assms by (simp add: list_push_back_def list_end_def)

lemma list_empty_spec: "list_rep h l xs \<Longrightarrow> list_empty h l \<longleftrightarrow> xs = []"
  using list_rep_distinct(3) [of h l xs] list_rep_begin [of h l xs]
  by (cases xs) (auto simp: list_empty_def list_end_def)

lemma list_front_spec: "list_rep h l (x # xs) \<Longrightarrow> list_front h l = Inr x"
  using list_empty_spec [of h l "x # xs"] list_rep_begin [of h l "x # xs"] by (simp add: list_front_def list_begin_def)

lemma list_back_spec: "list_rep h l (xs @ [x]) \<Longrightarrow> list_back h l = Inr x"
  using list_empty_spec [of h l "xs @ [x]"] list_rep_rbegin [of h l "xs @ [x]"]
  by (simp add: list_back_def list_rbegin_def)

lemma list_pop_front_spec:
  assumes "list_rep h l (x # xs)"
  shows "\<exists>h'. list_pop_front h l = Inr (h', x) \<and> list_rep h' l xs \<and> links_same h h' (set (nodes l xs))"
  using list_remove_spec [of h l "[]" x xs] assms list_front_spec [OF assms] by (auto simp: list_pop_front_def)

lemma list_pop_back_spec:
  assumes "list_rep h l (xs @ [x])"
  shows "\<exists>h'. list_pop_back h l = Inr (h', x) \<and> list_rep h' l xs \<and> links_same h h' (set (nodes l xs))"
  using list_remove_spec [of h l xs x "[]"] assms list_back_spec [OF assms] by (auto simp: list_pop_back_def)

lemma list_pop_empty: "list_rep h l [] \<Longrightarrow> list_pop_front h l = Inl AssertFail \<and> list_pop_back h l = Inl AssertFail"
  by (simp add: list_pop_front_def list_pop_back_def list_front_def list_back_def list_empty_spec)

lemma at_node_end: "list_rep h l (xs @ ys) \<Longrightarrow> at_node l ys = list_end l \<longleftrightarrow> ys = []"
  using list_rep_distinct(3) [of h l "xs @ ys"] by (cases ys) (auto simp: list_end_def)

lemma size_loop_spec:
  assumes "list_rep h l (xs @ ys)" "length ys < n" "cnt + length ys < 2 ^ 32"
  shows "size_loop n h l (at_node l ys) cnt = Inr (cnt + length ys)"
  using assms
proof (induction ys arbitrary: xs n cnt)
  case Nil
  then show ?case by (cases n) (auto simp: list_end_def)
next
  case (Cons y ys)
  then obtain m where n: "n = Suc m" by (cases n) auto
  have "size_wrap (cnt + 1) = cnt + 1" using Cons.prems(3) by (intro size_wrap_id) simp
  with Cons.IH [of "xs @ [y]" m "cnt + 1"] Cons.prems n list_next_rep [OF Cons.prems(1)]
    at_node_end [OF Cons.prems(1)]
  show ?case by simp
qed

lemma list_size_spec:
  assumes "list_rep h l xs" "length xs < n" "length xs < 2 ^ 32"
  shows "list_size n h l = Inr (length xs)"
  using size_loop_spec [of h l "[]" xs n 0] assms list_rep_begin [OF assms(1)] by (simp add: list_size_def)

end
