(* ===== verification/KList_Sort.thy ===== *)
theory KList_Sort
  imports KList_Spec
begin

text \<open>
  Reversing, sorting and searching kernel lists.
\<close>

section \<open>Reversal\<close>

lemma linked_rev:
  assumes "\<forall>x\<in>set xs. le_next h' x = le_prev h x \<and> le_prev h' x = le_next h x" "linked h xs"
  shows "linked h' (rev xs)"
  using assms
proof (induction xs)
  case (Cons x xs)
  show ?case
  proof (cases "xs = []")
    case False
    have "linked h xs" using Cons.prems(2) False by (cases xs) auto
    moreover have "le_next h x = hd xs" "le_prev h (hd xs) = x" using Cons.prems(2) False by (cases xs; auto)+
    ultimately show ?thesis
      using Cons False linked_join [of "rev xs" "[x]" h'] by (simp add: last_rev)
  qed simp
qed simp

lemma links_swap [simp]:
  "le_prev (swap_links h e) = (le_prev h)(e := le_next h e)" "le_next (swap_links h e) = (le_next h)(e := le_prev h e)"
  by (simp_all add: swap_links_def)

lemma reverse_loop_spec:
  assumes "linked h (ys @ [ltail l])" "distinct (ys @ [ltail l])" "0 \<notin> set ys" "length ys < n"
  shows "\<exists>h'. reverse_loop n h l (at_node l ys) = Inr h'
    \<and> (\<forall>x\<in>set ys. le_next h' x = le_prev h x \<and> le_prev h' x = le_next h x)
    \<and> links_same h h' (set ys)"
  using assms
proof (induction ys arbitrary: n h)
  case Nil
  then show ?case by (cases n) (auto simp: list_end_def)
next
  case (Cons y ys)
  then obtain m where n: "n = Suc m" by (cases n) auto
  let ?h = "swap_links h y"
  have nx: "le_next h y = at_node l ys" using Cons.prems(1) by (cases ys) auto
  have "linked h (ys @ [ltail l])" using Cons.prems(1) by (cases ys) auto
  then have "linked ?h (ys @ [ltail l])"
    by (rule linked_frame) (use Cons.prems(2) in \<open>auto dest: in_set_tlD in_set_butlastD\<close>)
  with Cons.IH [of ?h m] Cons.prems n obtain h' where h':
    "reverse_loop m ?h l (at_node l ys) = Inr h'"
    "\<forall>x\<in>set ys. le_next h' x = le_prev ?h x \<and> le_prev h' x = le_next ?h x" "links_same ?h h' (set ys)"
    by auto
  have "le_next h' x = le_prev h x \<and> le_prev h' x = le_next h x" if "x \<in> set (y # ys)" for x
  proof (cases "x = y")
    case True
    then have "x \<notin> set ys" using Cons.prems(2) by auto
    with True h'(3) show ?thesis by (simp add: links_same_def)
  next
    case False
    with that h'(2) show ?thesis by simp
  qed
  moreover have "links_same h h' (set (y # ys))" using h'(3) by (simp add: links_same_def)
  ultimately show ?case using h'(1) Cons.prems(2,3) n nx by (simp add: list_end_def)
qed

lemma list_reverse_spec:
  assumes "list_rep h l xs" "length xs < n"
  shows "\<exists>h'. list_reverse n h l = Inr h' \<and> list_rep h' l (rev xs) \<and> links_same h h' (set (nodes l xs))"
proof (cases "xs = []")
  case True
  with assms show ?thesis by (auto simp: list_reverse_def list_empty_spec)
next
  case False
  let ?a = "last xs" and ?b = "hd xs" and ?H = "lhead l" and ?T = "ltail l"
  have all: "linked h (?H # xs @ [?T])" "distinct (?H # xs @ [?T])" "0 \<notin> set (?H # xs @ [?T])"
    "le_prev h ?H = 0" "le_next h ?T = 0"
    using assms(1) by (simp_all add: list_rep_def nodes_def)
  have lk: "linked h xs" "linked h (xs @ [?T])" "le_next h ?H = ?b" "le_prev h ?b = ?H" "le_next h ?a = ?T" "le_prev h ?T = ?a"
    using all(1) False linked_join [of "[?H]" "xs @ [?T]" h] linked_join [of xs "[?T]" h] by auto
  obtain h1 where h1: "reverse_loop n h l (at_node l xs) = Inr h1"
      "\<forall>x\<in>set xs. le_next h1 x = le_prev h x \<and> le_prev h1 x = le_next h x" "links_same h h1 (set xs)"
    using reverse_loop_spec [OF lk(2), of n] all assms(2) by auto
  have mem: "?a \<in> set xs" "?b \<in> set xs" using False by auto
  then have ne: "?a \<noteq> ?H" "?a \<noteq> ?T" "?b \<noteq> ?H" "?b \<noteq> ?T" "?H \<noteq> ?T" "?a \<noteq> 0" "?b \<noteq> 0"
    using list_rep_distinct [OF assms(1)] by metis+
  have HT: "le_next h1 ?H = ?b" "le_prev h1 ?H = 0" "le_next h1 ?T = 0" "le_prev h1 ?T = ?a"
    using h1(3) all lk by (auto simp: links_same_def)
  have ab: "le_prev h1 ?a = ?T" "le_next h1 ?b = ?H" using h1(2) mem lk by auto
  let ?h2 = "set_prev (set_next h1 ?H ?a) ?T ?b"
  let ?h = "set_next (set_prev ?h2 ?a ?H) ?b ?T"
  have rev: "list_reverse n h l = Inr ?h"
    using h1(1) list_empty_spec [OF assms(1)] list_rep_begin [OF assms(1)] False ne HT ab
    by (simp add: list_reverse_def Let_def)
  have "linked h1 (rev xs)" by (rule linked_rev [OF h1(2) lk(1)])
  then have "linked ?h (rev xs)"
    by (rule linked_ends) (use all ne False in \<open>auto simp: last_rev hd_rev\<close>)
  moreover have "le_next ?h ?H = ?a" "le_prev ?h ?a = ?H" "le_next ?h ?b = ?T" "le_prev ?h ?T = ?b"
    "le_prev ?h ?H = 0" "le_next ?h ?T = 0"
    using ne HT by simp_all
  ultimately have "linked ?h (?H # rev xs @ [?T])"
    using False linked_join [of "[?H]" "rev xs @ [?T]" ?h] linked_join [of "rev xs" "[?T]" ?h]
    by (simp add: last_rev hd_rev)
  then have "list_rep ?h l (rev xs)"
    using all(2,3) ne HT by (simp add: list_rep_def nodes_def)
  moreover have "links_same h ?h (set (nodes l xs))"
    using h1(3) mem by (auto simp: links_same_def nodes_def)
  ultimately show ?thesis using rev by blast
qed

section \<open>Ascending runs and merging\<close>

abbreviation ascending :: "('a \<Rightarrow> 'a \<Rightarrow> bool) \<Rightarrow> 'a list \<Rightarrow> bool" where
  "ascending lt \<equiv> successively (\<lambda>x y. \<not> lt y x)"

fun run_tl :: "('a \<Rightarrow> 'a \<Rightarrow> bool) \<Rightarrow> 'a \<Rightarrow> 'a list \<Rightarrow> 'a list" where
  "run_tl lt a [] = []"
| "run_tl lt a (y # ys) = (if lt y a then [] else y # run_tl lt y ys)"

fun run_rest :: "('a \<Rightarrow> 'a \<Rightarrow> bool) \<Rightarrow> 'a \<Rightarrow> 'a list \<Rightarrow> 'a list" where
  "run_rest lt a [] = []"
| "run_rest lt a (y # ys) = (if lt y a then y # ys else run_rest lt y ys)"

fun merge_runs :: "('a \<Rightarrow> 'a \<Rightarrow> bool) \<Rightarrow> 'a list \<Rightarrow> 'a list \<Rightarrow> 'a list" where
  "merge_runs lt [] bs = bs"
| "merge_runs lt as [] = as"
| "merge_runs lt (a # as) (b # bs) =
     (if \<not> lt b a then a # merge_runs lt as (b # bs) else b # merge_runs lt (a # as) bs)"

lemma run_split: "run_tl lt a ys @ run_rest lt a ys = ys"
  by (induction ys arbitrary: a) auto

lemma length_run: "length (run_rest lt a ys) + length (run_tl lt a ys) = length ys"
  using arg_cong [OF run_split, of length lt a ys] by simp

lemma run_ascending: "ascending lt (a # run_tl lt a ys)"
  by (induction ys arbitrary: a) auto

function merge_pass :: "('a \<Rightarrow> 'a \<Rightarrow> bool) \<Rightarrow> 'a list \<Rightarrow> 'a list \<times> nat" where
  "merge_pass lt [] = ([], 0)"
| "merge_pass lt (a # ys) =
     (case run_rest lt a ys of
        [] \<Rightarrow> (a # ys, 1)
      | b # zs \<Rightarrow> (case merge_pass lt (run_rest lt b zs) of
          (ws, k) \<Rightarrow> (merge_runs lt (a # run_tl lt a ys) (b # run_tl lt b zs) @ ws, Suc k)))"
  by pat_completeness auto
termination
proof (relation "measure (length \<circ> snd)")
  fix lt :: "'a \<Rightarrow> 'a \<Rightarrow> bool" and a ys b zs
  assume "run_rest lt a ys = b # zs"
  then show "((lt, run_rest lt b zs), (lt, a # ys)) \<in> measure (length \<circ> snd)"
    using length_run [of lt a ys] length_run [of lt b zs] by simp
qed simp

fun run_count :: "('a \<Rightarrow> 'a \<Rightarrow> bool) \<Rightarrow> 'a list \<Rightarrow> nat" where
  "run_count lt [] = 0"
| "run_count lt [x] = 1"
| "run_count lt (x # y # zs) = (if lt y x then 1 else 0) + run_count lt (y # zs)"

lemma run_count_rest: "run_count lt (a # ys) = Suc (run_count lt (run_rest lt a ys))"
  by (induction ys arbitrary: a) auto

lemma run_count_append: "run_count lt (xs @ ys) \<le> run_count lt xs + run_count lt ys"
proof (induction lt xs rule: run_count.induct)
  case (2 lt x)
  then show ?case by (cases ys) auto
qed auto

lemma run_count_ascending: "ascending lt xs \<Longrightarrow> run_count lt xs \<le> 1"
  by (induction lt xs rule: run_count.induct) auto

lemma run_count_le: "run_count lt xs \<le> length xs"
  by (induction lt xs rule: run_count.induct) auto

lemma mset_merge_runs: "mset (merge_runs lt as bs) = mset as + mset bs"
  by (induction lt as bs rule: merge_runs.induct) auto

lemma set_merge_runs: "set (merge_runs lt as bs) = set as \<union> set bs"
  by (metis mset_merge_runs set_mset_mset set_mset_union)

lemma mset_merge_pass: "mset (fst (merge_pass lt xs)) = mset xs"
proof (induction lt xs rule: merge_pass.induct)
  case (2 lt a ys)
  show ?case
  proof (cases "run_rest lt a ys")
    case (Cons b zs)
    have "mset ys = mset (run_tl lt a ys) + (add_mset b (mset (run_tl lt b zs) + mset (run_rest lt b zs)))"
      using arg_cong [OF run_split, of mset lt a ys] arg_cong [OF run_split, of mset lt b zs] Cons by simp
    with 2 [OF Cons] Cons show ?thesis
      by (cases "merge_pass lt (run_rest lt b zs)") (simp add: mset_merge_runs)
  qed simp
qed simp

lemma merge_pass_count: "snd (merge_pass lt xs) = Suc (run_count lt xs) div 2"
proof (induction lt xs rule: merge_pass.induct)
  case (2 lt a ys)
  show ?case
  proof (cases "run_rest lt a ys")
    case (Cons b zs)
    have "run_count lt (a # ys) = Suc (Suc (run_count lt (run_rest lt b zs)))"
      using Cons run_count_rest [of lt a ys] run_count_rest [of lt b zs] by simp
    with 2 [OF Cons] Cons show ?thesis by (cases "merge_pass lt (run_rest lt b zs)") simp
  qed (simp add: run_count_rest)
qed simp

section \<open>Comparison functions\<close>

text \<open>
  What the sorting operations and the hash tables ask of a comparison function: a strict
  order in which being incomparable is transitive.
\<close>

locale weak_order =
  fixes lt :: "'a \<Rightarrow> 'a \<Rightarrow> bool"
  assumes lt_asym: "lt x y \<Longrightarrow> \<not> lt y x"
    and lt_neg_trans: "\<not> lt x y \<Longrightarrow> \<not> lt y z \<Longrightarrow> \<not> lt x z"
begin

definition same_key :: "'a \<Rightarrow> 'a \<Rightarrow> bool" where
  "same_key x y \<longleftrightarrow> \<not> lt x y \<and> \<not> lt y x"

lemma same_key_trans: "same_key x y \<Longrightarrow> same_key y z \<Longrightarrow> same_key x z"
  using lt_neg_trans by (auto simp: same_key_def)

lemma same_key_sym: "same_key x y \<Longrightarrow> same_key y x"
  by (auto simp: same_key_def)

lemma same_key_refl [simp]: "same_key x x"
  using lt_asym by (auto simp: same_key_def)

lemma ascending_sorted: "ascending lt xs \<longleftrightarrow> sorted_wrt (\<lambda>x y. \<not> lt y x) xs"
proof (rule successively_iff_sorted_wrt_strong)
  fix x y z
  assume "\<not> lt y x" "\<not> lt z y"
  then show "\<not> lt z x" by (rule lt_neg_trans [rotated])
qed

lemma merge_runs_ascending:
  assumes "ascending lt as" "ascending lt bs"
  shows "ascending lt (merge_runs lt as bs)"
  using assms unfolding ascending_sorted
proof (induction as arbitrary: bs)
  case (Cons a as)
  note outer = Cons
  from Cons.prems show ?case
  proof (induction bs)
    case (Cons b bs)
    show ?case
    proof (cases "lt b a")
      case True
      note ab = lt_asym [OF True]
      have "\<forall>y\<in>set as. \<not> lt y b" using lt_neg_trans [OF _ ab] Cons.prems(1) by simp
      moreover have "sorted_wrt (\<lambda>x y. \<not> lt y x) (merge_runs lt (a # as) bs)"
        using Cons.IH Cons.prems by simp
      ultimately show ?thesis using True ab Cons.prems(2) by (auto simp: set_merge_runs)
    next
      case False
      have "\<forall>y\<in>set bs. \<not> lt y a" using lt_neg_trans [OF _ False] Cons.prems(2) by simp
      moreover have "sorted_wrt (\<lambda>x y. \<not> lt y x) (merge_runs lt as (b # bs))"
        using outer(1) [OF _ Cons.prems(2)] Cons.prems(1) by simp
      ultimately show ?thesis using False Cons.prems(1) by (auto simp: set_merge_runs)
    qed
  qed simp
qed simp

lemma merge_runs_stable:
  assumes "ascending lt as"
  shows "filter (same_key x) (merge_runs lt as bs) = filter (same_key x) as @ filter (same_key x) bs"
  using assms unfolding ascending_sorted
proof (induction as arbitrary: bs)
  case (Cons a as)
  note outer = Cons
  show ?case
  proof (induction bs)
    case (Cons b bs)
    show ?case
    proof (cases "lt b a")
      case True
      have "filter (same_key x) (a # as) = []" if "same_key x b"
      proof -
        have "\<not> same_key x y" if y: "y \<in> set (a # as)" for y
        proof
          assume "same_key x y"
          with \<open>same_key x b\<close> have "\<not> lt b y" by (meson same_key_def same_key_sym same_key_trans)
          moreover have "\<not> lt y a" using y outer(2) lt_asym by auto
          ultimately show False using True lt_neg_trans by blast
        qed
        then show ?thesis by (simp add: filter_empty_conv)
      qed
      with True Cons show ?thesis by auto
    next
      case False
      with outer show ?thesis by simp
    qed
  qed simp
qed simp

lemma merge_pass_runs: "run_count lt (fst (merge_pass lt xs)) \<le> snd (merge_pass lt xs)"
proof (induction "length xs" arbitrary: xs rule: less_induct)
  case less
  show ?case
  proof (cases xs)
    case (Cons a ys)
    show ?thesis
    proof (cases "run_rest lt a ys")
      case Nil
      have "run_tl lt a ys = ys" using run_split [of lt a ys] Nil by simp
      with Nil Cons run_count_ascending [OF run_ascending, of lt a ys] show ?thesis by simp
    next
      case (Cons b zs)
      obtain ws k where wk: "merge_pass lt (run_rest lt b zs) = (ws, k)" by fastforce
      have "run_count lt ws \<le> k"
        using less [of "run_rest lt b zs"] wk length_run [of lt a ys] length_run [of lt b zs] Cons \<open>xs = a # ys\<close> by simp
      moreover have "run_count lt (merge_runs lt (a # run_tl lt a ys) (b # run_tl lt b zs)) \<le> 1"
        by (intro run_count_ascending merge_runs_ascending run_ascending)
      ultimately show ?thesis
        using \<open>xs = a # ys\<close> Cons wk
          run_count_append [of lt "merge_runs lt (a # run_tl lt a ys) (b # run_tl lt b zs)" ws]
        by simp
    qed
  qed simp
qed

lemma merge_pass_stable: "filter (same_key x) (fst (merge_pass lt xs)) = filter (same_key x) xs"
proof (induction "length xs" arbitrary: xs rule: less_induct)
  case less
  show ?case
  proof (cases xs)
    case (Cons a ys)
    show ?thesis
    proof (cases "run_rest lt a ys")
      case Nil
      with Cons show ?thesis by simp
    next
      case (Cons b zs)
      obtain ws k where wk: "merge_pass lt (run_rest lt b zs) = (ws, k)" by fastforce
      have "filter (same_key x) ws = filter (same_key x) (run_rest lt b zs)"
        using less [of "run_rest lt b zs"] wk length_run [of lt a ys] length_run [of lt b zs] Cons \<open>xs = a # ys\<close> by simp
      moreover have "xs = (a # run_tl lt a ys) @ (b # run_tl lt b zs) @ run_rest lt b zs"
        using run_split [of lt a ys] run_split [of lt b zs] Cons \<open>xs = a # ys\<close> by simp
      moreover have "fst (merge_pass lt xs) = merge_runs lt (a # run_tl lt a ys) (b # run_tl lt b zs) @ ws"
        using \<open>xs = a # ys\<close> Cons wk by simp
      ultimately show ?thesis by (simp only: filter_append merge_runs_stable [OF run_ascending] append_assoc)
    qed
  qed simp
qed

lemma ascending_run_count: "run_count lt xs \<le> 1 \<Longrightarrow> ascending lt xs"
proof (induction xs rule: induct_list012)
  case (3 x y zs)
  then have "0 < run_count lt (y # zs)" by (simp add: run_count_rest)
  with 3 show ?case by (auto split: if_splits)
qed auto

end

section \<open>The loops follow the list\<close>

lemma at_node_neq:
  assumes "list_rep h l (xs @ ys @ zs)" "ys \<noteq> []"
  shows "at_node l (ys @ zs) \<noteq> at_node l zs"
proof -
  obtain y ys' where "ys = y # ys'" using assms(2) by (cases ys) auto
  with list_rep_distinct [OF assms(1)] at_node_in [of l zs] show ?thesis by auto
qed

lemma sorted_loop_spec:
  assumes "list_rep h l (xs @ a # ys @ zs)" "length ys < n"
  shows "sorted_loop n h a (at_node l zs) lt = Inr (ascending lt (a # ys))"
  using assms
proof (induction ys arbitrary: xs a n)
  case Nil
  then obtain m where "n = Suc m" by (cases n) auto
  with list_next_rep [OF Nil(1)] show ?case by simp
next
  case (Cons y ys)
  obtain m where n: "n = Suc m" using Cons.prems(2) by (cases n) auto
  have r: "list_rep h l ((xs @ [a]) @ y # ys @ zs)" using Cons.prems(1) by simp
  have "y \<noteq> at_node l zs" using at_node_neq [of h l "xs @ [a]" "y # ys" zs] r by simp
  moreover have "list_prev h y = Inr a" using list_prev_rep [of h l "xs @ [a]" "y # ys @ zs"] r by simp
  ultimately show ?case
    using Cons.IH [OF r, of m] Cons.prems(2) list_next_rep [OF Cons.prems(1)] n by auto
qed

lemma is_sorted_spec:
  assumes "list_rep h l (xs @ ys @ zs)" "length ys \<le> n"
  shows "is_sorted n h (at_node l (ys @ zs)) (at_node l zs) lt = Inr (ascending lt ys)"
proof (cases ys)
  case (Cons y ys')
  with assms sorted_loop_spec [of h l xs y ys' zs n lt] at_node_neq [OF assms(1)] show ?thesis
    by (simp add: is_sorted_def)
qed (simp add: is_sorted_def)

lemma run_loop_spec:
  assumes "list_rep h l (xs @ a # ys)" "length ys < n"
  shows "run_loop n h a (ltail l) lt = Inr (at_node l (run_rest lt a ys))"
  using assms
proof (induction ys arbitrary: xs a n)
  case Nil
  then obtain m where "n = Suc m" by (cases n) auto
  with list_next_rep [OF Nil(1)] show ?case by simp
next
  case (Cons y ys)
  obtain m where n: "n = Suc m" using Cons.prems(2) by (cases n) auto
  have r: "list_rep h l ((xs @ [a]) @ y # ys)" using Cons.prems(1) by simp
  have "y \<noteq> ltail l" using list_rep_distinct(3) [OF r] by auto
  moreover have "list_prev h y = Inr a" using list_prev_rep [of h l "xs @ [a]" "y # ys"] r by simp
  ultimately show ?case
    using Cons.IH [OF r, of m] Cons.prems(2) list_next_rep [OF Cons.prems(1)] n by auto
qed

lemma find_end_of_run_spec:
  assumes "list_rep h l (xs @ a # ys)" "length ys < n"
  shows "find_end_of_run n h a (list_end l) lt = Inr (at_node l (run_rest lt a ys))"
  using run_loop_spec [OF assms] list_rep_distinct [OF assms(1)] is_interior_rep(4) [OF assms(1)]
  by (auto simp: find_end_of_run_def list_end_def)

lemma merge_loop_spec:
  assumes "list_rep h l (xs @ as @ bs @ ys)" "length as + length bs < n"
  shows "\<exists>h'. merge_loop n h (at_node l (as @ bs @ ys)) (at_node l (bs @ ys)) (at_node l ys) lt = Inr h'
    \<and> list_rep h' l (xs @ merge_runs lt as bs @ ys) \<and> links_same h h' (set (nodes l (xs @ as @ bs @ ys)))"
  using assms
proof (induction lt as bs arbitrary: h xs n rule: merge_runs.induct)
  case (1 lt bs)
  then obtain m where "n = Suc m" by (cases n) auto
  with 1 show ?case by simp
next
  case (2 lt a as)
  then obtain m where "n = Suc m" by (cases n) auto
  with 2 show ?case by simp
next
  case (3 lt a as b bs)
  then obtain m where n: "n = Suc m" by (cases n) auto
  have ab: "a \<noteq> b" "b \<noteq> at_node l ys"
    using list_rep_distinct(1) [OF 3(3)] at_node_neq [of h l "xs @ a # as" "b # bs" ys] 3(3) by auto
  show ?case
  proof (cases "lt b a")
    case False
    have r: "list_rep h l ((xs @ [a]) @ as @ (b # bs) @ ys)" using 3(3) by simp
    have "list_next h a = Inr (at_node l (as @ (b # bs) @ ys))"
      using list_next_rep [of h l xs a "as @ (b # bs) @ ys"] 3(3) by simp
    with 3(1) [OF False r, of m] 3(4) False n ab show ?thesis by simp
  next
    case True
    have nx: "list_next h b = Inr (at_node l (bs @ ys))"
      using list_next_rep [of h l "xs @ a # as" b "bs @ ys"] 3(3) by simp
    have pv: "list_prev h (at_node l (bs @ ys)) = Inr b"
    proof -
      have "list_rep h l ((xs @ (a # as) @ [b]) @ bs @ ys)" using 3(3) by simp
      from list_prev_rep [OF this] show ?thesis by (simp add: before_node_def)
    qed
    have "list_rep h l (xs @ (a # as) @ [b] @ bs @ ys)" using 3(3) by simp
    from list_splice_spec [OF this] obtain h1 where h1:
      "list_splice h a b (at_node l (bs @ ys)) = Inr h1" "list_rep h1 l (xs @ [b] @ (a # as) @ bs @ ys)"
      "links_same h h1 (set (nodes l (xs @ (a # as) @ (b # bs) @ ys)))"
      by (auto simp: nodes_def)
    have r: "list_rep h1 l ((xs @ [b]) @ (a # as) @ bs @ ys)" using h1(2) by simp
    obtain h2 where h2: "merge_loop m h1 (at_node l ((a # as) @ bs @ ys)) (at_node l (bs @ ys)) (at_node l ys) lt = Inr h2"
        "list_rep h2 l ((xs @ [b]) @ merge_runs lt (a # as) bs @ ys)"
        "links_same h1 h2 (set (nodes l ((xs @ [b]) @ (a # as) @ bs @ ys)))"
      using 3(2) [OF _ r, of m] True 3(4) n by auto
    have "set (nodes l ((xs @ [b]) @ (a # as) @ bs @ ys)) = set (nodes l (xs @ (a # as) @ (b # bs) @ ys))"
      by (auto simp: nodes_def)
    with h2 links_same_trans [OF h1(3)] n ab nx pv h1(1) True show ?thesis by simp
  qed
qed

lemma inplace_merge_spec:
  assumes "list_rep h l (xs @ as @ bs @ ys)" "length as + length bs < n" "ascending lt as" "ascending lt bs"
  shows "\<exists>h'. inplace_merge n h (at_node l (as @ bs @ ys)) (at_node l (bs @ ys)) (at_node l ys) lt = Inr h'
    \<and> list_rep h' l (xs @ merge_runs lt as bs @ ys) \<and> links_same h h' (set (nodes l (xs @ as @ bs @ ys)))"
proof -
  have r: "list_rep h l ((xs @ as) @ bs @ ys)" "list_rep h l ((xs @ as @ bs) @ ys)" using assms(1) by simp_all
  have "is_sorted n h (at_node l (as @ bs @ ys)) (at_node l (bs @ ys)) lt = Inr True"
    using is_sorted_spec [OF assms(1), of n lt] assms(2,3) by simp
  moreover have "is_sorted n h (at_node l (bs @ ys)) (at_node l ys) lt = Inr True"
    using is_sorted_spec [OF r(1), of n lt] assms(2,4) by simp
  ultimately show ?thesis
    using merge_loop_spec [OF assms(1,2), of lt] list_rep_neighbours(4) [OF assms(1)]
      list_rep_neighbours(4) [OF r(1)] list_rep_neighbours(4) [OF r(2)]
    by (simp add: inplace_merge_def)
qed

section \<open>Sorting\<close>

lemma sort_pass_spec:
  assumes "list_rep h l (xs @ ys)" "length ys < n" "length ys < m" "cnt + length ys < 2 ^ 32"
  shows "\<exists>h'. sort_pass n m h l (at_node l ys) lt cnt = Inr (h', cnt + snd (merge_pass lt ys))
    \<and> list_rep h' l (xs @ fst (merge_pass lt ys)) \<and> links_same h h' (set (nodes l (xs @ ys)))"
  using assms
proof (induction lt ys arbitrary: h xs n cnt rule: merge_pass.induct)
  case (1 lt)
  then show ?case by (cases n) (auto simp: list_end_def)
next
  case (2 lt a ys)
  then obtain k where n: "n = Suc k" by (cases n) auto
  have cnt: "size_wrap (cnt + 1) = cnt + 1" using 2(5) by (intro size_wrap_id) simp
  have "a \<noteq> list_end l" using list_rep_distinct(3) [OF 2(2)] by (auto simp: list_end_def)
  moreover have e1: "find_end_of_run m h a (list_end l) lt = Inr (at_node l (run_rest lt a ys))"
    by (rule find_end_of_run_spec [OF 2(2)]) (use 2(4) in simp)
  ultimately have unf: "sort_pass n m h l (at_node l (a # ys)) lt cnt =
      (if at_node l (run_rest lt a ys) = list_end l then Inr (h, cnt + 1)
       else rbind (find_end_of_run m h (at_node l (run_rest lt a ys)) (list_end l) lt) (\<lambda>b1.
         rbind (inplace_merge m h a (at_node l (run_rest lt a ys)) b1 lt) (\<lambda>h1.
           sort_pass k m h1 l b1 lt (cnt + 1))))"
    using n cnt by (simp add: Let_def)
  show ?case
  proof (cases "run_rest lt a ys")
    case Nil
    with unf 2(2) show ?thesis by (simp add: list_end_def)
  next
    case (Cons b zs)
    let ?as = "a # run_tl lt a ys" and ?bs = "b # run_tl lt b zs" and ?rest = "run_rest lt b zs"
    have ys: "a # ys = ?as @ ?bs @ ?rest" using run_split [of lt a ys] run_split [of lt b zs] Cons by simp
    have len: "length (a # ys) = length ?as + length ?bs + length ?rest" unfolding ys by simp
    have rb: "list_rep h l ((xs @ ?as) @ b # zs)" using 2(2) ys run_split [of lt b zs] by simp
    have e2: "find_end_of_run m h b (list_end l) lt = Inr (at_node l ?rest)"
      by (rule find_end_of_run_spec [OF rb]) (use 2(4) len length_run [of lt b zs] in simp)
    have "b \<noteq> list_end l" using list_rep_distinct(3) [OF rb] by (auto simp: list_end_def)
    have rep: "list_rep h l (xs @ ?as @ ?bs @ ?rest)" using 2(2) ys by simp
    have fuel: "length ?as + length ?bs < m" using 2(4) len by simp
    obtain h1 where h1: "inplace_merge m h a b (at_node l ?rest) lt = Inr h1"
        "list_rep h1 l (xs @ merge_runs lt ?as ?bs @ ?rest)" "links_same h h1 (set (nodes l (xs @ a # ys)))"
      using inplace_merge_spec [OF rep fuel run_ascending run_ascending] unfolding ys by auto
    have r1: "list_rep h1 l ((xs @ merge_runs lt ?as ?bs) @ ?rest)" using h1(2) by simp
    obtain h2 where h2: "sort_pass k m h1 l (at_node l ?rest) lt (cnt + 1) = Inr (h2, cnt + 1 + snd (merge_pass lt ?rest))"
        "list_rep h2 l ((xs @ merge_runs lt ?as ?bs) @ fst (merge_pass lt ?rest))"
        "links_same h1 h2 (set (nodes l ((xs @ merge_runs lt ?as ?bs) @ ?rest)))"
      using 2(1) [OF Cons r1, of k "cnt + 1"] 2(3-5) len n by auto
    have "set (nodes l ((xs @ merge_runs lt ?as ?bs) @ ?rest)) = set (nodes l (xs @ a # ys))"
      unfolding ys by (auto simp: nodes_def set_merge_runs simp del: merge_runs.simps)
    then have "links_same h h2 (set (nodes l (xs @ a # ys)))" using links_same_trans [OF h1(3)] h2(3) by simp
    moreover have "merge_pass lt (a # ys) = (merge_runs lt ?as ?bs @ fst (merge_pass lt ?rest), Suc (snd (merge_pass lt ?rest)))"
      using Cons by (simp add: case_prod_unfold del: merge_runs.simps)
    ultimately show ?thesis
      unfolding unf using Cons e2 h1(1) h2(1,2) \<open>b \<noteq> list_end l\<close> by (simp del: merge_runs.simps)
  qed
qed

context weak_order
begin

lemma sort_pass_small:
  assumes "snd (merge_pass lt xs) \<le> 1"
  shows "ascending lt (fst (merge_pass lt xs))"
  using merge_pass_runs [of xs] assms by (intro ascending_run_count) simp

end

locale list_order = weak_order lt for lt :: "addr \<Rightarrow> addr \<Rightarrow> bool"
begin

lemma sort_passes_spec:
  assumes "list_rep h l xs" "run_count lt xs \<le> n" "0 < n" "length xs < m" "length xs < 2 ^ 32"
  shows "\<exists>h' ys. sort_passes n m h l lt = Inr h' \<and> list_rep h' l ys \<and> ascending lt ys \<and> mset ys = mset xs
    \<and> (\<forall>x. filter (same_key x) ys = filter (same_key x) xs) \<and> links_same h h' (set (nodes l xs))"
  using assms
proof (induction n arbitrary: h xs)
  case (Suc n)
  let ?ys = "fst (merge_pass lt xs)" and ?k = "snd (merge_pass lt xs)"
  obtain h1 where h1: "sort_pass m m h l (at_node l xs) lt 0 = Inr (h1, ?k)" "list_rep h1 l ?ys"
      "links_same h h1 (set (nodes l xs))"
    using sort_pass_spec [of h l "[]" xs m m 0 lt] Suc.prems by auto
  note beg = list_rep_begin [OF Suc.prems(1)]
  show ?case
  proof (cases "?k > 1")
    case False
    with h1 beg sort_pass_small [of xs] mset_merge_pass [of lt xs] merge_pass_stable [of _ xs]
    show ?thesis by auto
  next
    case True
    have len: "length ?ys = length xs" "set ?ys = set xs"
      using mset_merge_pass [of lt xs] by (metis size_mset, metis set_mset_mset)
    have "run_count lt ?ys \<le> n" "0 < n"
      using merge_pass_runs [of xs] True Suc.prems(2) merge_pass_count [of lt xs] by linarith+
    with Suc.IH [OF h1(2)] Suc.prems(4,5) len obtain h2 zs where h2:
      "sort_passes n m h1 l lt = Inr h2" "list_rep h2 l zs" "ascending lt zs" "mset zs = mset ?ys"
      "\<forall>x. filter (same_key x) zs = filter (same_key x) ?ys" "links_same h1 h2 (set (nodes l ?ys))"
      by auto
    have "set (nodes l ?ys) = set (nodes l xs)" using len(2) by (simp add: nodes_def)
    with h1 h2 beg True mset_merge_pass [of lt xs] merge_pass_stable [of _ xs] links_same_trans [OF h1(3)]
    show ?thesis by auto
  qed
qed simp

lemma list_sort_spec:
  assumes "list_rep h l xs" "length xs < n" "length xs < 2 ^ 32"
  shows "\<exists>h' ys. list_sort n h l lt = Inr h' \<and> list_rep h' l ys \<and> ascending lt ys \<and> mset ys = mset xs
    \<and> (\<forall>x. filter (same_key x) ys = filter (same_key x) xs) \<and> links_same h h' (set (nodes l xs))"
proof -
  have "run_count lt xs \<le> n" "0 < n" using run_count_le [of lt xs] assms(2) by simp_all
  from sort_passes_spec [OF assms(1) this assms(2,3)] obtain h' ys where h':
    "sort_passes n n h l lt = Inr h'" "list_rep h' l ys" "ascending lt ys" "mset ys = mset xs"
    "\<forall>x. filter (same_key x) ys = filter (same_key x) xs" "links_same h h' (set (nodes l xs))"
    by blast
  have "length ys = length xs" using h'(4) by (metis size_mset)
  then have "is_sorted n h' (list_begin h' l) (list_end l) lt = Inr True"
    using is_sorted_spec [of h' l "[]" ys "[]" n lt] list_rep_begin [OF h'(2)] h'(2,3) assms(2) by (simp add: list_end_def)
  with h' show ?thesis by (auto simp: list_sort_def)
qed

end

section \<open>Ordered insertion and extrema\<close>

lemma ordered_loop_spec:
  assumes "list_rep h l (xs @ ys)" "length ys < n"
  shows "ordered_loop n h l e (at_node l ys) lt = Inr (at_node l (dropWhile (\<lambda>y. \<not> lt e y) ys))"
  using assms
proof (induction ys arbitrary: xs n)
  case Nil
  then show ?case by (cases n) (auto simp: list_end_def)
next
  case (Cons y ys)
  obtain m where n: "n = Suc m" using Cons.prems(2) by (cases n) auto
  have "list_rep h l ((xs @ [y]) @ ys)" using Cons.prems(1) by simp
  from Cons.IH [OF this, of m] Cons.prems n list_next_rep [OF Cons.prems(1)] at_node_end [OF Cons.prems(1)]
  show ?case by simp
qed

lemma list_insert_ordered_spec:
  assumes "list_rep h l xs" "e \<notin> set (nodes l xs)" "e \<noteq> 0" "length xs < n"
  shows "\<exists>h'. list_insert_ordered n h l e lt = Inr h'
    \<and> list_rep h' l (takeWhile (\<lambda>y. \<not> lt e y) xs @ e # dropWhile (\<lambda>y. \<not> lt e y) xs)
    \<and> links_same h h' (insert e (set (nodes l xs)))"
  using ordered_loop_spec [of h l "[]" xs n e lt] list_rep_begin [OF assms(1)] assms
    list_insert_spec [of h l "takeWhile (\<lambda>y. \<not> lt e y) xs" "dropWhile (\<lambda>y. \<not> lt e y) xs" e]
  by (simp add: list_insert_ordered_def)

text \<open>The first of the greatest, or with the order turned round the least, elements.\<close>

fun first_max :: "('a \<Rightarrow> 'a \<Rightarrow> bool) \<Rightarrow> 'a \<Rightarrow> 'a list \<Rightarrow> 'a" where
  "first_max lt m [] = m"
| "first_max lt m (y # ys) = first_max lt (if lt m y then y else m) ys"

lemma max_loop_spec:
  assumes "list_rep h l (xs @ ys)" "length ys < n"
  shows "max_loop n h l m (at_node l ys) lt = Inr (first_max lt m ys)"
    "min_loop n h l m (at_node l ys) lt = Inr (first_max (\<lambda>x y. lt y x) m ys)"
  using assms
proof (induction ys arbitrary: xs n m)
  case Nil
  case 1 from Nil 1 show ?case by (cases n) (auto simp: list_end_def)
  case 2 from Nil 2 show ?case by (cases n) (auto simp: list_end_def)
next
  case (Cons y ys)
  {
    case 1
    obtain k where n: "n = Suc k" using 1(2) by (cases n) auto
    from Cons.IH(1) [of "xs @ [y]" k] 1 n list_next_rep [OF 1(1)] at_node_end [OF 1(1)] show ?case by simp
  next
    case 2
    obtain k where n: "n = Suc k" using 2(2) by (cases n) auto
    from Cons.IH(2) [of "xs @ [y]" k] 2 n list_next_rep [OF 2(1)] at_node_end [OF 2(1)] show ?case by simp
  }
qed

lemma list_max_spec:
  assumes "list_rep h l (x # xs)" "length xs < n"
  shows "list_max n h l lt = Inr (first_max lt x xs)" "list_min n h l lt = Inr (first_max (\<lambda>x y. lt y x) x xs)"
proof -
  have b: "list_begin h l = x" "x \<noteq> list_end l"
    using list_rep_begin [OF assms(1)] list_rep_distinct(3) [OF assms(1)] by (auto simp: list_end_def)
  have nx: "list_next h x = Inr (at_node l xs)" using list_next_rep [of h l "[]" x xs] assms(1) by simp
  have r: "list_rep h l ([x] @ xs)" using assms(1) by simp
  show "list_max n h l lt = Inr (first_max lt x xs)" "list_min n h l lt = Inr (first_max (\<lambda>x y. lt y x) x xs)"
    using b nx max_loop_spec [OF r assms(2)] by (simp_all add: list_max_def list_min_def Let_def)
qed

lemma list_max_empty: "list_rep h l [] \<Longrightarrow> list_max n h l lt = Inr (ltail l) \<and> list_min n h l lt = Inr (ltail l)"
  using list_rep_begin [of h l "[]"] by (simp add: list_max_def list_min_def list_end_def)

context weak_order
begin

lemma first_max_greatest: "first_max lt m ys \<in> insert m (set ys) \<and> (\<forall>y\<in>insert m (set ys). \<not> lt (first_max lt m ys) y)"
proof (induction ys arbitrary: m)
  case Nil
  then show ?case using lt_asym by auto
next
  case (Cons y ys)
  let ?r = "first_max lt (if lt m y then y else m) ys"
  have "\<not> lt ?r (if lt m y then y else m)" using Cons [of "if lt m y then y else m"] by blast
  moreover have "\<not> lt (if lt m y then y else m) m" "\<not> lt (if lt m y then y else m) y"
    using lt_asym by auto
  ultimately have "\<not> lt ?r m" "\<not> lt ?r y" using lt_neg_trans by blast+
  with Cons [of "if lt m y then y else m"] show ?case by auto
qed

lemma insert_ordered_ascending:
  assumes "ascending lt xs"
  shows "ascending lt (takeWhile (\<lambda>y. \<not> lt e y) xs @ e # dropWhile (\<lambda>y. \<not> lt e y) xs)"
  using assms
proof (induction xs)
  case (Cons x xs)
  show ?case
  proof (cases "lt e x")
    case True
    with Cons.prems lt_asym [OF True] show ?thesis by simp
  next
    case False
    then have "ascending lt (x # takeWhile (\<lambda>y. \<not> lt e y) xs @ e # dropWhile (\<lambda>y. \<not> lt e y) xs)"
      using Cons by (cases xs) auto
    with False show ?thesis by simp
  qed
qed simp

end

section \<open>Removing duplicates\<close>

fun uniq_kept :: "('a \<Rightarrow> 'a \<Rightarrow> bool) \<Rightarrow> 'a \<Rightarrow> 'a list \<Rightarrow> 'a list" where
  "uniq_kept lt e [] = []"
| "uniq_kept lt e (y # ys) = (if \<not> lt e y \<and> \<not> lt y e then uniq_kept lt e ys else y # uniq_kept lt y ys)"

fun uniq_dups :: "('a \<Rightarrow> 'a \<Rightarrow> bool) \<Rightarrow> 'a \<Rightarrow> 'a list \<Rightarrow> 'a list" where
  "uniq_dups lt e [] = []"
| "uniq_dups lt e (y # ys) = (if \<not> lt e y \<and> \<not> lt y e then y # uniq_dups lt e ys else uniq_dups lt y ys)"

lemma unique_loop_spec:
  assumes "list_rep h l (xs @ e # ys)" "list_rep h d ds" "set (nodes l (xs @ e # ys)) \<inter> set (nodes d ds) = {}" "length ys < n"
  shows "\<exists>h'. unique_loop n h l (Some d) e lt = Inr h' \<and> list_rep h' l (xs @ e # uniq_kept lt e ys)
    \<and> list_rep h' d (ds @ uniq_dups lt e ys)"
  using assms
proof (induction ys arbitrary: h xs e ds n)
  case Nil
  then obtain m where "n = Suc m" by (cases n) auto
  with Nil list_next_rep [of h l xs e "[]"] show ?case by (simp add: list_end_def)
next
  case (Cons y ys)
  obtain m where n: "n = Suc m" using Cons.prems(4) by (cases n) auto
  have r: "list_rep h l ((xs @ [e]) @ y # ys)" using Cons.prems(1) by simp
  have nx: "list_next h e = Inr y" using list_next_rep [of h l xs e "y # ys"] Cons.prems(1) by simp
  have y: "y \<noteq> list_end l" "y \<noteq> 0" "y \<notin> set (nodes l (xs @ e # ys))"
    using list_rep_distinct [OF r] by (auto simp: list_end_def nodes_def)
  show ?case
  proof (cases "\<not> lt e y \<and> \<not> lt y e")
    case False
    have "set (nodes l ((xs @ [e]) @ y # ys)) \<inter> set (nodes d ds) = {}" using Cons.prems(3) by simp
    from Cons.IH [OF r Cons.prems(2) this, of m] Cons.prems(4) n nx y False show ?thesis by auto
  next
    case True
    obtain h1 where h1: "list_remove h y = Inr (h1, at_node l ys)" "list_rep h1 l (xs @ e # ys)"
        "links_same h h1 (set (nodes l (xs @ e # ys)))"
      using list_remove_spec [OF r] by auto
    have d1: "list_rep h1 d ds"
      by (rule list_rep_outside [OF Cons.prems(2) h1(3)]) (use Cons.prems(3) in \<open>auto simp: nodes_def\<close>)
    have yd: "y \<notin> set (nodes d ds)" using Cons.prems(3) by (auto simp: nodes_def)
    obtain h2 where h2: "list_push_back h1 d y = Inr h2" "list_rep h2 d (ds @ [y])"
        "links_same h1 h2 (insert y (set (nodes d ds)))"
      using list_push_back_spec [OF d1 yd y(2)] by blast
    have l2: "list_rep h2 l (xs @ e # ys)"
      by (rule list_rep_outside [OF h1(2) h2(3)]) (use Cons.prems(3) y(3) in \<open>auto simp: nodes_def\<close>)
    have dj: "set (nodes l (xs @ e # ys)) \<inter> set (nodes d (ds @ [y])) = {}"
      using Cons.prems(3) y(3) by (auto simp: nodes_def)
    from Cons.IH [OF l2 h2(2) dj, of m] Cons.prems(4) n nx y True h1(1) h2(1) show ?thesis by auto
  qed
qed

lemma list_unique_spec:
  assumes "list_rep h l (x # xs)" "list_rep h d ds" "set (nodes l (x # xs)) \<inter> set (nodes d ds) = {}" "length xs < n"
  shows "\<exists>h'. list_unique n h l (Some d) lt = Inr h' \<and> list_rep h' l (x # uniq_kept lt x xs)
    \<and> list_rep h' d (ds @ uniq_dups lt x xs)"
  using unique_loop_spec [of h l "[]" x xs d ds n lt] assms list_rep_begin [OF assms(1)] list_empty_spec [OF assms(1)]
  by (simp add: list_unique_def)

section \<open>Properties\<close>

text \<open>Sequences of operations on one list, and what they compute on the list of its elements.\<close>

datatype list_op = PushFront addr | PushBack addr | PopFront | PopBack | Reverse

fun list_step :: "nat \<Rightarrow> lheap \<Rightarrow> klist \<Rightarrow> list_op \<Rightarrow> (lheap \<times> addr list) res" where
  "list_step n h l (PushFront e) = rbind (list_push_front h l e) (\<lambda>h1. Inr (h1, []))"
| "list_step n h l (PushBack e) = rbind (list_push_back h l e) (\<lambda>h1. Inr (h1, []))"
| "list_step n h l PopFront = rbind (list_pop_front h l) (\<lambda>(h1, e). Inr (h1, [e]))"
| "list_step n h l PopBack = rbind (list_pop_back h l) (\<lambda>(h1, e). Inr (h1, [e]))"
| "list_step n h l Reverse = rbind (list_reverse n h l) (\<lambda>h1. Inr (h1, []))"

fun list_run :: "nat \<Rightarrow> lheap \<Rightarrow> klist \<Rightarrow> list_op list \<Rightarrow> (lheap \<times> addr list) res" where
  "list_run n h l [] = Inr (h, [])"
| "list_run n h l (op # ops) = rbind (list_step n h l op) (\<lambda>(h1, out).
     rbind (list_run n h1 l ops) (\<lambda>(h2, outs). Inr (h2, out @ outs)))"

fun seq_step :: "addr list \<Rightarrow> list_op \<Rightarrow> (addr list \<times> addr list) option" where
  "seq_step xs (PushFront e) = (if e \<in> set xs then None else Some (e # xs, []))"
| "seq_step xs (PushBack e) = (if e \<in> set xs then None else Some (xs @ [e], []))"
| "seq_step xs PopFront = (case xs of [] \<Rightarrow> None | x # ys \<Rightarrow> Some (ys, [x]))"
| "seq_step xs PopBack = (if xs = [] then None else Some (butlast xs, [last xs]))"
| "seq_step xs Reverse = Some (rev xs, [])"

fun seq_run :: "addr list \<Rightarrow> list_op list \<Rightarrow> (addr list \<times> addr list) option" where
  "seq_run xs [] = Some (xs, [])"
| "seq_run xs (op # ops) = (case seq_step xs op of
     None \<Rightarrow> None
   | Some (ys, out) \<Rightarrow> map_option (\<lambda>(zs, outs). (zs, out @ outs)) (seq_run ys ops))"

fun pushed :: "list_op \<Rightarrow> addr set" where
  "pushed (PushFront e) = {e}"
| "pushed (PushBack e) = {e}"
| "pushed _ = {}"

lemma list_step_refines:
  assumes "list_rep h l xs" "seq_step xs op = Some (ys, out)" "pushed op \<inter> {0, lhead l, ltail l} = {}" "length xs < n"
  shows "\<exists>h'. list_step n h l op = Inr (h', out) \<and> list_rep h' l ys"
proof (cases op)
  case (PushFront e)
  with assms list_push_front_spec [of h l xs e] show ?thesis by (auto simp: nodes_def split: if_splits)
next
  case (PushBack e)
  with assms list_push_back_spec [of h l xs e] show ?thesis by (auto simp: nodes_def split: if_splits)
next
  case PopFront
  with assms list_pop_front_spec [of h l "hd xs" "tl xs"] show ?thesis by (auto split: list.splits)
next
  case PopBack
  with assms list_pop_back_spec [of h l "butlast xs" "last xs"] show ?thesis by (auto split: if_splits)
next
  case Reverse
  with assms list_reverse_spec [of h l xs n] show ?thesis by auto
qed

lemma seq_step_length: "seq_step xs op = Some (ys, out) \<Longrightarrow> length ys \<le> Suc (length xs)"
  by (cases op) (auto split: if_splits list.splits)

text \<open>
  C16: kernel lists implement sequences. Any sequence of insertions at either end, removals
  and reversals that is meaningful on the list of elements runs without failing an assertion
  or following a bad pointer, returns the elements the sequence returns and leaves the
  linked list representing its result.
\<close>

theorem list_refines_sequence:
  assumes "list_rep h l xs" "seq_run xs ops = Some (ys, outs)"
    and "\<forall>op\<in>set ops. pushed op \<inter> {0, lhead l, ltail l} = {}" "length xs + length ops < n"
  shows "\<exists>h'. list_run n h l ops = Inr (h', outs) \<and> list_rep h' l ys"
  using assms
proof (induction ops arbitrary: h xs outs)
  case (Cons op ops)
  obtain xs1 out outs1 where s: "seq_step xs op = Some (xs1, out)" "seq_run xs1 ops = Some (ys, outs1)" "outs = out @ outs1"
    using Cons.prems(2) by (auto split: option.splits prod.splits)
  obtain h1 where h1: "list_step n h l op = Inr (h1, out)" "list_rep h1 l xs1"
    using list_step_refines [OF Cons.prems(1) s(1), of n] Cons.prems(3,4) by auto
  from Cons.IH [OF h1(2) s(2)] seq_step_length [OF s(1)] Cons.prems(3,4) h1(1) s(3) show ?case by fastforce
qed simp

definition sample_list :: klist where
  "sample_list = \<lparr>lhead = 10, ltail = 11\<rparr>"

definition sample_links :: lheap where
  "sample_links = \<lparr>le_prev = (\<lambda>_. 0)(20 := 10, 21 := 20, 22 := 21, 11 := 22),
     le_next = (\<lambda>_. 0)(10 := 20, 20 := 21, 21 := 22, 22 := 11)\<rparr>"

lemma sample_list_rep: "list_rep sample_links sample_list [20, 21, 22]"
  by (simp add: list_rep_def nodes_def sample_links_def sample_list_def)

theorem list_refines_sequence_witness:
  "\<exists>h'. list_run 9 sample_links sample_list [PopFront, PushFront 30, Reverse, PopFront] = Inr (h', [20, 22])
    \<and> list_rep h' sample_list [21, 30]"
  using list_refines_sequence [OF sample_list_rep, of "[PopFront, PushFront 30, Reverse, PopFront]" "[21, 30]" "[20, 22]" 9]
  by (simp add: sample_list_def)

text \<open>
  C17: sorting. With any comparison function that is a strict weak order, \<open>list_sort\<close> returns,
  its assertions hold, and the list ends up in ascending order as a permutation of what it
  held in which elements that compare equal keep their order; memory outside the list is not
  changed.
\<close>

theorem list_sort_sorts:
  assumes "list_rep h l xs" "length xs < n" "length xs < 2 ^ 32"
    and "\<And>x y. lt x y \<Longrightarrow> \<not> lt y x" "\<And>x y z. \<not> lt x y \<Longrightarrow> \<not> lt y z \<Longrightarrow> \<not> lt x z"
  shows "\<exists>h' ys. list_sort n h l lt = Inr h' \<and> list_rep h' l ys \<and> sorted_wrt (\<lambda>x y. \<not> lt y x) ys \<and> mset ys = mset xs
    \<and> (\<forall>x. filter (\<lambda>y. \<not> lt x y \<and> \<not> lt y x) ys = filter (\<lambda>y. \<not> lt x y \<and> \<not> lt y x) xs)
    \<and> links_same h h' (set (nodes l xs))"
proof -
  have w: "weak_order lt" using assms(4,5) by unfold_locales
  then have o: "list_order lt" by (rule list_order.intro)
  have "weak_order.same_key lt = (\<lambda>x y. \<not> lt x y \<and> \<not> lt y x)"
    by (simp add: fun_eq_iff weak_order.same_key_def [OF w])
  with list_order.list_sort_spec [OF o assms(1-3)] weak_order.ascending_sorted [OF w] show ?thesis by fastforce
qed

theorem list_sort_sorts_witness:
  "\<exists>h' ys. list_sort 4 sample_links sample_list (\<lambda>x y. y < x) = Inr h' \<and> list_rep h' sample_list ys
    \<and> sorted_wrt (\<lambda>x y. y \<le> x) ys \<and> mset ys = {#20, 21, 22#}"
  using list_sort_sorts [OF sample_list_rep, of 4 "\<lambda>x y. y < x"] by (auto simp: not_less)

text \<open>
  Inserting: ordered insertion. \<open>list_insert_ordered\<close> puts the element after every element it is not
  less than, before the first it is less than, and keeps the list in ascending order.
\<close>

theorem list_insert_ordered_sorted:
  assumes "list_rep h l xs" "e \<notin> set xs" "e \<notin> {0, lhead l, ltail l}" "length xs < n"
    and "\<And>x y. lt x y \<Longrightarrow> \<not> lt y x" "\<And>x y z. \<not> lt x y \<Longrightarrow> \<not> lt y z \<Longrightarrow> \<not> lt x z"
    and "sorted_wrt (\<lambda>x y. \<not> lt y x) xs"
  shows "\<exists>h' ys zs. list_insert_ordered n h l e lt = Inr h' \<and> list_rep h' l (ys @ e # zs) \<and> xs = ys @ zs
    \<and> (\<forall>y\<in>set ys. \<not> lt e y) \<and> (zs \<noteq> [] \<longrightarrow> lt e (hd zs)) \<and> sorted_wrt (\<lambda>x y. \<not> lt y x) (ys @ e # zs)"
proof -
  have w: "weak_order lt" using assms(5,6) by unfold_locales
  let ?ys = "takeWhile (\<lambda>y. \<not> lt e y) xs" and ?zs = "dropWhile (\<lambda>y. \<not> lt e y) xs"
  have "sorted_wrt (\<lambda>x y. \<not> lt y x) (?ys @ e # ?zs)"
    using weak_order.insert_ordered_ascending [OF w, of xs e] assms(7) unfolding weak_order.ascending_sorted [OF w] by simp
  moreover have "?zs \<noteq> [] \<longrightarrow> lt e (hd ?zs)" using hd_dropWhile [of "\<lambda>y. \<not> lt e y" xs] by auto
  moreover have "\<forall>y\<in>set ?ys. \<not> lt e y" by (auto dest: set_takeWhileD)
  moreover obtain h' where "list_insert_ordered n h l e lt = Inr h'" "list_rep h' l (?ys @ e # ?zs)"
    using list_insert_ordered_spec [OF assms(1), of e n lt] assms(2-4) by (auto simp: nodes_def)
  ultimately show ?thesis by (intro exI [of _ h'] exI [of _ ?ys] exI [of _ ?zs]) simp
qed

theorem list_insert_ordered_sorted_witness:
  "\<exists>h' ys zs. list_insert_ordered 4 sample_links sample_list 30 (\<lambda>x y. x < y) = Inr h'
    \<and> list_rep h' sample_list (ys @ 30 # zs) \<and> [20, 21, 22] = ys @ zs \<and> sorted (ys @ 30 # zs)"
proof -
  have "\<exists>h' ys zs. list_insert_ordered 4 sample_links sample_list 30 (\<lambda>x y. x < y) = Inr h'
      \<and> list_rep h' sample_list (ys @ 30 # zs) \<and> [20, 21, 22] = ys @ zs \<and> (\<forall>y\<in>set ys. \<not> 30 < y)
      \<and> (zs \<noteq> [] \<longrightarrow> 30 < hd zs) \<and> sorted_wrt (\<lambda>x y. \<not> y < x) (ys @ 30 # zs)"
    by (rule list_insert_ordered_sorted [OF sample_list_rep]) (auto simp: sample_list_def)
  then show ?thesis unfolding not_less by blast
qed

text \<open>
  Extrema: \<open>list_max\<close> returns an element of the list that is less than none of them.
\<close>

theorem list_max_is_greatest:
  assumes "list_rep h l xs" "xs \<noteq> []" "length xs \<le> n"
    and "\<And>x y. lt x y \<Longrightarrow> \<not> lt y x" "\<And>x y z. \<not> lt x y \<Longrightarrow> \<not> lt y z \<Longrightarrow> \<not> lt x z"
  shows "\<exists>m. list_max n h l lt = Inr m \<and> m \<in> set xs \<and> (\<forall>x\<in>set xs. \<not> lt m x)"
proof -
  have w: "weak_order lt" using assms(4,5) by unfold_locales
  obtain x ys where "xs = x # ys" using assms(2) by (cases xs) auto
  with list_max_spec(1) [of h l x ys n lt] weak_order.first_max_greatest [OF w, of x ys] assms(1,3) show ?thesis by auto
qed

theorem list_max_is_greatest_witness:
  "\<exists>m. list_max 3 sample_links sample_list (\<lambda>x y. x < y) = Inr m \<and> m \<in> set [20, 21, 22]
    \<and> (\<forall>x\<in>set [20, 21, 22]. \<not> m < x)"
  by (rule list_max_is_greatest [OF sample_list_rep]) auto

end
