(* ===== verification/KHash.thy ===== *)
theory KHash
  imports KList_Sort
begin

text \<open>
  The chained hash tables of the kernel (\<open>src/lib/kernel/hash.c\<close>).

  A bucket is the list of its elements: the list operations the table calls are those of
  \<open>KList\<close>, which \<open>KList_Spec\<close> shows to compute these functions of the list. The hash function
  and the comparison function are arguments, and \<open>mem\<close> says whether the allocation of a new
  bucket array succeeds. An iterator is the number of its bucket and the position of its
  element there: \<open>At 0\<close> is the head of the list, \<open>At (Suc k)\<close> its \<open>k\<close>-th element or its tail,
  \<open>NoElem\<close> the null pointer.

  A table represents the set of its elements (\<open>hash_elems\<close>), of which no two have the same
  key (\<open>hash_inv\<close>). The locale \<open>hash_order\<close> states what the table asks of its two functions.
\<close>

section \<open>Operations\<close>

record 'e hash =
  helem_cnt :: nat
  hbucket_cnt :: nat
  hbuckets :: "'e list list"

definition hash_clear :: "'e hash \<Rightarrow> bool \<Rightarrow> 'e hash \<times> 'e list" where
  "hash_clear h destructor =
     (h\<lparr>hbuckets := replicate (hbucket_cnt h) [], helem_cnt := 0\<rparr>, if destructor then concat (hbuckets h) else [])"

definition hash_init :: "bool \<Rightarrow> ('e hash \<times> bool)" where
  "hash_init mem =
     (let h = \<lparr>helem_cnt = 0, hbucket_cnt = 4, hbuckets = if mem then replicate 4 [] else []\<rparr> in
      if mem then (fst (hash_clear h False), True) else (h, False))"

definition hash_destroy :: "'e hash \<Rightarrow> bool \<Rightarrow> 'e list" where
  "hash_destroy h destructor = (if destructor then snd (hash_clear h True) else [])"

definition bucket_idx :: "('e \<Rightarrow> u32) \<Rightarrow> nat \<Rightarrow> 'e \<Rightarrow> nat" where
  "bucket_idx hash cnt e = unat (hash e) AND (cnt - 1)"

definition find_bucket :: "('e \<Rightarrow> u32) \<Rightarrow> 'e hash \<Rightarrow> 'e \<Rightarrow> nat" where
  "find_bucket hash h e = bucket_idx hash (hbucket_cnt h) e"

definition find_elem :: "('e \<Rightarrow> 'e \<Rightarrow> bool) \<Rightarrow> 'e list \<Rightarrow> 'e \<Rightarrow> 'e option" where
  "find_elem lt bucket e = find (\<lambda>hi. \<not> lt hi e \<and> \<not> lt e hi) bucket"

definition insert_elem :: "'e hash \<Rightarrow> nat \<Rightarrow> 'e \<Rightarrow> 'e hash" where
  "insert_elem h bucket e =
     h\<lparr>helem_cnt := size_wrap (helem_cnt h + 1), hbuckets := (hbuckets h)[bucket := e # hbuckets h ! bucket]\<rparr>"

definition remove_elem :: "'e hash \<Rightarrow> nat \<Rightarrow> 'e \<Rightarrow> 'e hash" where
  "remove_elem h bucket e =
     h\<lparr>helem_cnt := size_wrap (helem_cnt h + 2 ^ 32 - 1), hbuckets := (hbuckets h)[bucket := remove1 e (hbuckets h ! bucket)]\<rparr>"

definition turn_off_least_1bit :: "nat \<Rightarrow> nat" where
  "turn_off_least_1bit x = x AND (x - 1)"

definition is_power_of_2 :: "nat \<Rightarrow> bool" where
  "is_power_of_2 x \<longleftrightarrow> x \<noteq> 0 \<and> turn_off_least_1bit x = 0"

lemma and_le2: "(x :: nat) AND y \<le> y"
  by (simp add: and_nat_def nat_le_iff)

lemma turn_off_less: "x \<noteq> 0 \<Longrightarrow> turn_off_least_1bit x < x"
  using and_le2 [of x "x - 1"] by (simp add: turn_off_least_1bit_def)

text \<open>
  The loop of \<open>rehash\<close> that clears low bits until one is left; it is entered with at least 4,
  and 0, on which the code would not stop, is not reached.
\<close>

function round_down_2 :: "nat \<Rightarrow> nat" where
  "round_down_2 x = (if x = 0 \<or> is_power_of_2 x then x else round_down_2 (turn_off_least_1bit x))"
  by pat_completeness auto
termination by (relation "measure id") (auto simp: turn_off_less)

declare round_down_2.simps [simp del]

definition move_elem :: "('e \<Rightarrow> u32) \<Rightarrow> nat \<Rightarrow> 'e \<Rightarrow> 'e list list \<Rightarrow> 'e list list" where
  "move_elem hash cnt e bs = bs[bucket_idx hash cnt e := e # bs ! bucket_idx hash cnt e]"

definition rehash :: "bool \<Rightarrow> ('e \<Rightarrow> u32) \<Rightarrow> 'e hash \<Rightarrow> 'e hash" where
  "rehash mem hash h =
     (let q = helem_cnt h div 2; new_bucket_cnt = round_down_2 (if q < 4 then 4 else q) in
      if new_bucket_cnt = hbucket_cnt h then h
      else if \<not> mem then h
      else h\<lparr>hbuckets := fold (fold (move_elem hash new_bucket_cnt)) (hbuckets h) (replicate new_bucket_cnt []),
             hbucket_cnt := new_bucket_cnt\<rparr>)"

definition hash_insert :: "bool \<Rightarrow> ('e \<Rightarrow> u32) \<Rightarrow> ('e \<Rightarrow> 'e \<Rightarrow> bool) \<Rightarrow> 'e hash \<Rightarrow> 'e \<Rightarrow> 'e hash \<times> 'e option" where
  "hash_insert mem hash lt h e =
     (let bucket = find_bucket hash h e; old = find_elem lt (hbuckets h ! bucket) e in
      (rehash mem hash (if old = None then insert_elem h bucket e else h), old))"

definition hash_replace :: "bool \<Rightarrow> ('e \<Rightarrow> u32) \<Rightarrow> ('e \<Rightarrow> 'e \<Rightarrow> bool) \<Rightarrow> 'e hash \<Rightarrow> 'e \<Rightarrow> 'e hash \<times> 'e option" where
  "hash_replace mem hash lt h e =
     (let bucket = find_bucket hash h e; old = find_elem lt (hbuckets h ! bucket) e;
          h1 = (case old of None \<Rightarrow> h | Some x \<Rightarrow> remove_elem h bucket x) in
      (rehash mem hash (insert_elem h1 bucket e), old))"

definition hash_find :: "('e \<Rightarrow> u32) \<Rightarrow> ('e \<Rightarrow> 'e \<Rightarrow> bool) \<Rightarrow> 'e hash \<Rightarrow> 'e \<Rightarrow> 'e option" where
  "hash_find hash lt h e = find_elem lt (hbuckets h ! find_bucket hash h e) e"

definition hash_delete :: "bool \<Rightarrow> ('e \<Rightarrow> u32) \<Rightarrow> ('e \<Rightarrow> 'e \<Rightarrow> bool) \<Rightarrow> 'e hash \<Rightarrow> 'e \<Rightarrow> 'e hash \<times> 'e option" where
  "hash_delete mem hash lt h e =
     (let bucket = find_bucket hash h e; found = find_elem lt (hbuckets h ! bucket) e in
      (case found of None \<Rightarrow> h | Some x \<Rightarrow> rehash mem hash (remove_elem h bucket x), found))"

text \<open>The action is a function of a state and an element; it is applied to the elements in turn.\<close>

definition hash_apply :: "'e hash \<Rightarrow> ('e \<Rightarrow> 's \<Rightarrow> 's) \<Rightarrow> 's \<Rightarrow> 's" where
  "hash_apply h action = fold (fold action) (hbuckets h)"

definition hash_size :: "'e hash \<Rightarrow> nat" where
  "hash_size h = helem_cnt h"

definition hash_empty :: "'e hash \<Rightarrow> bool" where
  "hash_empty h \<longleftrightarrow> helem_cnt h = 0"

section \<open>Iteration\<close>

datatype iter_elem = NoElem | At nat

record hash_iterator =
  it_bucket :: nat
  it_elem :: iter_elem

definition hash_first :: hash_iterator where
  "hash_first = \<lparr>it_bucket = 0, it_elem = At 0\<rparr>"

text \<open>The loop over empty buckets: from the first element of bucket \<open>b\<close> on.\<close>

function next_bucket :: "'e hash \<Rightarrow> nat \<Rightarrow> nat \<Rightarrow> hash_iterator" where
  "next_bucket h b k =
     (if b < hbucket_cnt h \<and> k = Suc (length (hbuckets h ! b))
      then if Suc b < hbucket_cnt h then next_bucket h (Suc b) 1
           else \<lparr>it_bucket = Suc b, it_elem = NoElem\<rparr>
      else \<lparr>it_bucket = b, it_elem = At k\<rparr>)"
  by pat_completeness auto
termination by (relation "measure (\<lambda>(h, b, k). hbucket_cnt h - b)") auto

declare next_bucket.simps [simp del]

definition hash_next :: "'e hash \<Rightarrow> hash_iterator \<Rightarrow> hash_iterator res" where
  "hash_next h i =
     (case it_elem i of
        NoElem \<Rightarrow> Inl AssertFail
      | At k \<Rightarrow> kassert (k \<le> length (hbuckets h ! it_bucket i)) (Inr (next_bucket h (it_bucket i) (Suc k))))"

definition hash_cur :: "'e hash \<Rightarrow> hash_iterator \<Rightarrow> 'e option" where
  "hash_cur h i = (case it_elem i of
     NoElem \<Rightarrow> None | At k \<Rightarrow> if k = 0 then None else Some (hbuckets h ! it_bucket i ! (k - 1)))"

section \<open>Hash functions\<close>

definition FNV_32_PRIME :: u32 where
  "FNV_32_PRIME = 16777619"

definition FNV_32_BASIS :: u32 where
  "FNV_32_BASIS = 2166136261"

definition hash_bytes :: "byte list \<Rightarrow> u32" where
  "hash_bytes buf = fold (\<lambda>b hash. (hash * FNV_32_PRIME) XOR ucast b) buf FNV_32_BASIS"

definition hash_string :: "byte list \<Rightarrow> u32" where
  "hash_string s = fold (\<lambda>b hash. (hash * FNV_32_PRIME) XOR ucast b) (takeWhile (\<lambda>b. b \<noteq> 0) s) FNV_32_BASIS"

definition hash_int :: "u32 \<Rightarrow> u32" where
  "hash_int i = hash_bytes (le_bytes i)"

end
