(* ===== verification/KHash_Spec.thy ===== *)
theory KHash_Spec
  imports KHash
begin

text \<open>
  What the hash tables promise: a table is the set of its elements, of which no two have the
  same key, whatever the number of buckets and whether or not a new array of buckets could be
  allocated.
\<close>

section \<open>Powers of two\<close>

lemma and_double: "(2 * a :: nat) AND (2 * b) = 2 * (a AND b)" "(2 * a :: nat) AND (2 * b + 1) = 2 * (a AND b)"
  "(2 * a + 1 :: nat) AND (2 * b) = 2 * (a AND b)"
  by (simp_all add: and_nat_rec [of "2 * a"] and_nat_rec [of "Suc (2 * a)"])

lemma power_of_2_form: "x \<noteq> 0 \<Longrightarrow> x AND (x - 1) = 0 \<Longrightarrow> \<exists>k. x = 2 ^ k" for x :: nat
proof (induction x rule: less_induct)
  case (less x)
  show ?case
  proof (cases "even x")
    case True
    then obtain y where y: "x = 2 * y" by blast
    with less.prems(1) have y0: "y \<noteq> 0" by simp
    then have "x - 1 = 2 * (y - 1) + 1" using y by simp
    then have "y AND (y - 1) = 0" using less.prems(2) y and_double(2) [of y "y - 1"] by simp
    with less.IH [of y] y y0 obtain k where "y = 2 ^ k" by auto
    with y have "x = 2 ^ Suc k" by simp
    then show ?thesis ..
  next
    case False
    then obtain y where y: "x = 2 * y + 1" by (blast elim: oddE)
    have "y AND y = y" by simp
    with less.prems(2) y and_double(3) [of y y] have "x = 2 ^ 0" by simp
    then show ?thesis ..
  qed
qed

lemma is_power_of_2_form: "is_power_of_2 x \<Longrightarrow> \<exists>k. x = 2 ^ k"
  using power_of_2_form by (simp add: is_power_of_2_def turn_off_least_1bit_def)

lemma round_down_2_power: "x \<noteq> 0 \<Longrightarrow> \<exists>k. round_down_2 x = 2 ^ k"
proof (induction x rule: round_down_2.induct)
  case (1 x)
  show ?case
  proof (cases "is_power_of_2 x")
    case True
    then show ?thesis using is_power_of_2_form by (simp add: round_down_2.simps)
  next
    case False
    with 1 have "\<exists>k. round_down_2 (turn_off_least_1bit x) = 2 ^ k" by (auto simp: is_power_of_2_def)
    with False 1(2) show ?thesis by (subst round_down_2.simps) simp
  qed
qed

lemma bucket_idx_less: "bucket_idx hash (2 ^ k) e < 2 ^ k"
  unfolding bucket_idx_def by (rule le_less_trans [OF and_le2]) simp

section \<open>Buckets\<close>

definition hash_elems :: "'e hash \<Rightarrow> 'e set" where
  "hash_elems h = set (concat (hbuckets h))"

definition placed :: "('e \<Rightarrow> u32) \<Rightarrow> nat \<Rightarrow> 'e list list \<Rightarrow> bool" where
  "placed hash cnt bs \<longleftrightarrow> length bs = cnt \<and> (\<forall>i<cnt. \<forall>e\<in>set (bs ! i). bucket_idx hash cnt e = i)"

definition hash_inv :: "('e \<Rightarrow> u32) \<Rightarrow> ('e \<Rightarrow> 'e \<Rightarrow> bool) \<Rightarrow> 'e hash \<Rightarrow> bool" where
  "hash_inv hash lt h \<longleftrightarrow> (\<exists>k. hbucket_cnt h = 2 ^ k) \<and> placed hash (hbucket_cnt h) (hbuckets h)
     \<and> distinct (concat (hbuckets h)) \<and> helem_cnt h = length (concat (hbuckets h))
     \<and> (\<forall>x\<in>hash_elems h. \<forall>y\<in>hash_elems h. \<not> lt x y \<and> \<not> lt y x \<longrightarrow> x = y)"

lemma mset_concat_push:
  "i < length bs \<Longrightarrow> mset (concat (bs[i := e # bs ! i])) = add_mset e (mset (concat bs))"
  by (induction bs arbitrary: i) (auto split: nat.splits)

lemma mset_concat_remove:
  "i < length bs \<Longrightarrow> e \<in> set (bs ! i) \<Longrightarrow> mset (concat (bs[i := remove1 e (bs ! i)])) = mset (concat bs) - {#e#}"
proof (induction bs arbitrary: i)
  case (Cons b bs)
  show ?case
  proof (cases i)
    case 0
    with Cons.prems have "e \<in># mset b" by simp
    then have "mset (concat bs) + mset b - {#e#} = mset (concat bs) + (mset b - {#e#})" by (rule diff_union_single_conv)
    with 0 show ?thesis by (simp add: add.commute)
  next
    case (Suc j)
    with Cons.prems have "e \<in># mset (concat bs)" by (auto intro: nth_mem)
    with Cons Suc show ?thesis by simp
  qed
qed simp

lemma placed_push:
  assumes "placed hash cnt bs" "bucket_idx hash cnt e < cnt"
  shows "placed hash cnt (bs[bucket_idx hash cnt e := e # bs ! bucket_idx hash cnt e])"
  using assms by (auto simp: placed_def nth_list_update)

lemma placed_remove: "placed hash cnt bs \<Longrightarrow> placed hash cnt (bs[i := remove1 e (bs ! i)])"
  by (cases "i < length bs") (auto simp: placed_def nth_list_update dest: notin_set_remove1 set_remove1_subset [THEN subsetD])

lemma placed_mem:
  assumes "placed hash cnt bs" "e \<in> set (concat bs)"
  shows "e \<in> set (bs ! bucket_idx hash cnt e)"
proof -
  from assms(2) obtain b where "b \<in> set bs" "e \<in> set b" by auto
  then obtain i where "i < length bs" "e \<in> set (bs ! i)" by (metis in_set_conv_nth)
  with assms(1) show ?thesis by (auto simp: placed_def)
qed

lemma move_bucket:
  assumes "placed hash (2 ^ k) bs"
  shows "placed hash (2 ^ k) (fold (move_elem hash (2 ^ k)) b bs)
    \<and> mset (concat (fold (move_elem hash (2 ^ k)) b bs)) = mset (concat bs) + mset b"
  using assms
proof (induction b arbitrary: bs)
  case (Cons e b)
  have "placed hash (2 ^ k) (move_elem hash (2 ^ k) e bs)"
    unfolding move_elem_def by (rule placed_push [OF Cons.prems bucket_idx_less])
  moreover have "mset (concat (move_elem hash (2 ^ k) e bs)) = add_mset e (mset (concat bs))"
    unfolding move_elem_def
    by (rule mset_concat_push) (use Cons.prems bucket_idx_less [of hash k e] in \<open>simp add: placed_def\<close>)
  ultimately show ?case using Cons.IH by simp
qed simp

lemma move_buckets:
  assumes "placed hash (2 ^ k) bs"
  shows "placed hash (2 ^ k) (fold (fold (move_elem hash (2 ^ k))) cs bs)
    \<and> mset (concat (fold (fold (move_elem hash (2 ^ k))) cs bs)) = mset (concat bs) + mset (concat cs)"
  using assms
proof (induction cs arbitrary: bs)
  case (Cons c cs)
  with move_bucket [OF Cons.prems, of c] show ?case by (simp add: union_assoc)
qed simp

lemma placed_empty: "placed hash cnt (replicate cnt [])"
  by (simp add: placed_def)

lemma concat_empty: "concat (replicate n []) = []"
  by (induction n) auto

lemma rehash_spec:
  fixes mem :: bool and hash :: "'e \<Rightarrow> u32" and h :: "'e hash"
  assumes "placed hash (hbucket_cnt h) (hbuckets h)" "\<exists>k. hbucket_cnt h = 2 ^ k"
  defines "h' \<equiv> rehash mem hash h"
  shows "placed hash (hbucket_cnt h') (hbuckets h')" "\<exists>k. hbucket_cnt h' = 2 ^ k"
    "mset (concat (hbuckets h')) = mset (concat (hbuckets h))" "helem_cnt h' = helem_cnt h"
proof -
  have "(if helem_cnt h div 2 < 4 then 4 else helem_cnt h div 2) \<noteq> 0" by auto
  from round_down_2_power [OF this]
  obtain k where k: "round_down_2 (if helem_cnt h div 2 < 4 then 4 else helem_cnt h div 2) = 2 ^ k" by blast
  note m = move_buckets [OF placed_empty, of hash k "hbuckets h"]
  show "placed hash (hbucket_cnt h') (hbuckets h')" "\<exists>k. hbucket_cnt h' = 2 ^ k"
    "mset (concat (hbuckets h')) = mset (concat (hbuckets h))" "helem_cnt h' = helem_cnt h"
    using m assms(1,2) unfolding h'_def rehash_def Let_def k by (auto simp: concat_empty)
qed

lemma hash_inv_mset:
  assumes "mset (concat (hbuckets h')) = mset (concat (hbuckets h))"
  shows "hash_elems h' = hash_elems h" "distinct (concat (hbuckets h')) = distinct (concat (hbuckets h))"
    "length (concat (hbuckets h')) = length (concat (hbuckets h))"
  using assms unfolding hash_elems_def by (metis set_mset_mset, metis mset_eq_imp_distinct_iff, metis size_mset)

lemma rehash_inv: "hash_inv hash lt h \<Longrightarrow> hash_inv hash lt (rehash mem hash h) \<and> hash_elems (rehash mem hash h) = hash_elems h"
  using rehash_spec [of hash h mem] hash_inv_mset [OF rehash_spec(3), of hash h mem]
  by (simp add: hash_inv_def)

lemma hash_init_inv: "hash_init mem = (h, True) \<Longrightarrow> hash_inv hash lt h \<and> hash_elems h = {}"
proof -
  assume "hash_init mem = (h, True)"
  then have "h = \<lparr>helem_cnt = 0, hbucket_cnt = 4, hbuckets = replicate 4 []\<rparr>"
    by (simp add: hash_init_def hash_clear_def Let_def split: if_splits)
  then have h: "hbucket_cnt h = 4" "hbuckets h = replicate 4 []" "helem_cnt h = 0" by simp_all
  have "hbucket_cnt h = 2 ^ 2" by (simp add: h(1))
  then have "\<exists>k. hbucket_cnt h = 2 ^ k" ..
  moreover have e: "concat (hbuckets h) = []" unfolding h(2) by (rule concat_empty)
  moreover have "placed hash (hbucket_cnt h) (hbuckets h)" unfolding h by (rule placed_empty)
  ultimately show ?thesis using h(3) unfolding hash_inv_def hash_elems_def e by simp
qed

section \<open>Tables as sets\<close>

locale hash_order = weak_order lt for lt :: "'e \<Rightarrow> 'e \<Rightarrow> bool" +
  fixes hash :: "'e \<Rightarrow> u32"
  assumes hash_same: "\<not> lt x y \<Longrightarrow> \<not> lt y x \<Longrightarrow> hash x = hash y"
begin

lemma find_bucket_less: "hash_inv hash lt h \<Longrightarrow> find_bucket hash h e < length (hbuckets h)"
  using bucket_idx_less by (auto simp: hash_inv_def placed_def find_bucket_def)

lemma bucket_idx_same: "same_key x y \<Longrightarrow> bucket_idx hash cnt x = bucket_idx hash cnt y"
  using hash_same [of x y] by (simp add: bucket_idx_def same_key_def)

lemma find_elem_same: "find_elem lt b e = find (same_key e) b"
  unfolding find_elem_def by (rule arg_cong [of _ _ "\<lambda>P. find P b"]) (auto simp: same_key_def fun_eq_iff)

lemma find_elem_Some:
  assumes "hash_inv hash lt h"
  shows "find_elem lt (hbuckets h ! find_bucket hash h e) e = Some x \<longleftrightarrow> x \<in> hash_elems h \<and> same_key e x"
proof
  assume "find_elem lt (hbuckets h ! find_bucket hash h e) e = Some x"
  then have "x \<in> set (hbuckets h ! find_bucket hash h e)" "same_key e x"
    unfolding find_elem_same by (auto simp: find_Some_iff)
  with find_bucket_less [OF assms, of e] show "x \<in> hash_elems h \<and> same_key e x"
    by (auto simp: hash_elems_def)
next
  assume x: "x \<in> hash_elems h \<and> same_key e x"
  then have "x \<in> set (hbuckets h ! bucket_idx hash (hbucket_cnt h) x)"
    using assms by (intro placed_mem) (auto simp: hash_inv_def hash_elems_def)
  then have mem: "x \<in> set (hbuckets h ! find_bucket hash h e)"
    using bucket_idx_same [of e x] x by (simp add: find_bucket_def)
  then have "find_elem lt (hbuckets h ! find_bucket hash h e) e \<noteq> None"
    using x unfolding find_elem_same by (auto simp: find_None_iff)
  then obtain y where y: "find_elem lt (hbuckets h ! find_bucket hash h e) e = Some y" by blast
  then have y': "y \<in> set (hbuckets h ! find_bucket hash h e)" "same_key e y"
    unfolding find_elem_same by (auto simp: find_Some_iff)
  then have "y \<in> hash_elems h" using find_bucket_less [OF assms, of e] by (auto simp: hash_elems_def)
  moreover have "same_key x y" using x y'(2) same_key_sym same_key_trans by blast
  ultimately have "x = y" using assms x by (auto simp: hash_inv_def same_key_def)
  with y show "find_elem lt (hbuckets h ! find_bucket hash h e) e = Some x" by simp
qed

lemma find_elem_None:
  assumes "hash_inv hash lt h"
  shows "find_elem lt (hbuckets h ! find_bucket hash h e) e = None \<longleftrightarrow> (\<forall>x\<in>hash_elems h. \<not> same_key e x)"
  using find_elem_Some [OF assms] by (metis not_None_eq option.distinct(1))

lemma insert_elem_inv:
  assumes "hash_inv hash lt h" "\<forall>x\<in>hash_elems h. \<not> same_key e x" "helem_cnt h < 2 ^ 32 - 1"
  shows "hash_inv hash lt (insert_elem h (find_bucket hash h e) e)"
    "hash_elems (insert_elem h (find_bucket hash h e) e) = insert e (hash_elems h)"
proof -
  let ?h = "insert_elem h (find_bucket hash h e) e"
  have m: "mset (concat (hbuckets ?h)) = mset (e # concat (hbuckets h))"
    using mset_concat_push [OF find_bucket_less [OF assms(1)]] by (simp add: insert_elem_def)
  then show el: "hash_elems ?h = insert e (hash_elems h)"
    unfolding hash_elems_def by (metis list.simps(15) set_mset_mset)
  have "e \<notin> hash_elems h" using assms(2) by auto
  then have "distinct (concat (hbuckets ?h))"
    using assms(1) mset_eq_imp_distinct_iff [OF m] by (simp add: hash_inv_def hash_elems_def)
  moreover have "length (concat (hbuckets ?h)) = Suc (length (concat (hbuckets h)))"
    using arg_cong [OF m, of size] by simp
  moreover have "helem_cnt ?h = Suc (helem_cnt h)"
    using assms(3) size_wrap_id [of "helem_cnt h + 1"] by (simp add: insert_elem_def)
  moreover have "placed hash (hbucket_cnt ?h) (hbuckets ?h)"
  proof -
    have p: "placed hash (hbucket_cnt h) (hbuckets h)" using assms(1) by (simp add: hash_inv_def)
    then have "bucket_idx hash (hbucket_cnt h) e < hbucket_cnt h"
      using find_bucket_less [OF assms(1), of e] by (simp add: find_bucket_def placed_def)
    from placed_push [OF p this] show ?thesis by (simp add: insert_elem_def find_bucket_def)
  qed
  moreover have "\<forall>x\<in>hash_elems ?h. \<forall>y\<in>hash_elems ?h. same_key x y \<longrightarrow> x = y"
  proof (intro ballI impI)
    fix x y
    assume xy: "x \<in> hash_elems ?h" "y \<in> hash_elems ?h" "same_key x y"
    have "\<forall>x\<in>hash_elems h. \<forall>y\<in>hash_elems h. same_key x y \<longrightarrow> x = y"
      using assms(1) by (simp add: hash_inv_def same_key_def)
    with xy assms(2) same_key_sym [OF xy(3)] show "x = y" unfolding el by auto
  qed
  ultimately show "hash_inv hash lt ?h"
    using assms(1) by (simp add: hash_inv_def same_key_def) (simp add: insert_elem_def)
qed

lemma remove_elem_inv:
  assumes "hash_inv hash lt h" "find_elem lt (hbuckets h ! find_bucket hash h e) e = Some x" "helem_cnt h < 2 ^ 32"
  shows "hash_inv hash lt (remove_elem h (find_bucket hash h e) x)"
    "hash_elems (remove_elem h (find_bucket hash h e) x) = hash_elems h - {x}"
proof -
  let ?h = "remove_elem h (find_bucket hash h e) x"
  have x: "x \<in> set (hbuckets h ! find_bucket hash h e)"
    using assms(2) unfolding find_elem_same by (auto simp: find_Some_iff)
  have m: "mset (concat (hbuckets ?h)) = mset (remove1 x (concat (hbuckets h)))"
    using mset_concat_remove [OF find_bucket_less [OF assms(1)] x] by (simp add: remove_elem_def)
  have d: "distinct (concat (hbuckets h))" using assms(1) by (simp add: hash_inv_def)
  then have "set (remove1 x (concat (hbuckets h))) = hash_elems h - {x}" by (simp add: hash_elems_def)
  then show el: "hash_elems ?h = hash_elems h - {x}" unfolding hash_elems_def by (metis m set_mset_mset)
  have "distinct (concat (hbuckets ?h))" using mset_eq_imp_distinct_iff [OF m] d by simp
  moreover have mem: "x \<in> set (concat (hbuckets h))" using x find_bucket_less [OF assms(1), of e] by auto
  then have len: "length (concat (hbuckets ?h)) = length (concat (hbuckets h)) - 1"
    using mset_eq_length [OF m] by (simp add: length_remove1)
  moreover have "helem_cnt ?h = length (concat (hbuckets h)) - 1"
  proof -
    have "0 < length (concat (hbuckets h))" using mem by (rule length_pos_if_in_set)
    moreover have cnt: "helem_cnt h = length (concat (hbuckets h))" using assms(1) by (simp add: hash_inv_def)
    ultimately have "0 < helem_cnt h" by (simp only:)
    then obtain k where k: "helem_cnt h = Suc k" by (auto dest: gr0_implies_Suc)
    then have "helem_cnt h + 2 ^ 32 - 1 = k + 2 ^ 32" by simp
    moreover have "size_wrap (k + 2 ^ 32) = k" using assms(3) k by (simp add: size_wrap_def)
    ultimately have "helem_cnt ?h = k" by (simp add: remove_elem_def add.commute)
    with k cnt show ?thesis by simp
  qed
  moreover have "placed hash (hbucket_cnt ?h) (hbuckets ?h)"
    using placed_remove [of hash "hbucket_cnt h" "hbuckets h" "find_bucket hash h e" x] assms(1)
    by (simp add: remove_elem_def hash_inv_def)
  moreover have "\<forall>x\<in>hash_elems ?h. \<forall>y\<in>hash_elems ?h. same_key x y \<longrightarrow> x = y"
    using assms(1) unfolding el by (auto simp: hash_inv_def same_key_def)
  ultimately show "hash_inv hash lt ?h"
    using assms(1) by (simp add: hash_inv_def same_key_def) (simp add: remove_elem_def)
qed

lemma hash_find_spec:
  "hash_inv hash lt h \<Longrightarrow> hash_find hash lt h e = Some x \<longleftrightarrow> x \<in> hash_elems h \<and> \<not> lt e x \<and> \<not> lt x e"
  using find_elem_Some by (simp add: hash_find_def same_key_def)

lemma hash_insert_spec:
  assumes "hash_inv hash lt h" "helem_cnt h < 2 ^ 32 - 1" "hash_insert mem hash lt h e = (h', old)"
  shows "hash_inv hash lt h' \<and> old = hash_find hash lt h e
    \<and> hash_elems h' = (if old = None then insert e (hash_elems h) else hash_elems h)"
proof -
  let ?old = "find_elem lt (hbuckets h ! find_bucket hash h e) e"
  let ?h = "if ?old = None then insert_elem h (find_bucket hash h e) e else h"
  have "hash_inv hash lt ?h \<and> hash_elems ?h = (if ?old = None then insert e (hash_elems h) else hash_elems h)"
    using insert_elem_inv [OF assms(1) _ assms(2)] find_elem_None [OF assms(1), of e] assms(1) by simp
  with rehash_inv [of hash lt ?h mem] assms(3) show ?thesis
    by (auto simp: hash_insert_def Let_def hash_find_def)
qed

lemma hash_delete_spec:
  assumes "hash_inv hash lt h" "helem_cnt h < 2 ^ 32" "hash_delete mem hash lt h e = (h', old)"
  shows "hash_inv hash lt h' \<and> old = hash_find hash lt h e \<and> hash_elems h' = hash_elems h - set_option old"
proof (cases "find_elem lt (hbuckets h ! find_bucket hash h e) e")
  case None
  with assms show ?thesis by (auto simp: hash_delete_def hash_find_def)
next
  case (Some x)
  with remove_elem_inv [OF assms(1) Some assms(2)] rehash_inv [of hash lt _ mem] assms(3) show ?thesis
    by (auto simp: hash_delete_def hash_find_def)
qed

lemma hash_replace_spec:
  assumes "hash_inv hash lt h" "helem_cnt h < 2 ^ 32 - 1" "hash_replace mem hash lt h e = (h', old)"
  shows "hash_inv hash lt h' \<and> old = hash_find hash lt h e
    \<and> hash_elems h' = insert e (hash_elems h - set_option old)"
proof -
  let ?b = "find_bucket hash h e"
  let ?old = "find_elem lt (hbuckets h ! ?b) e"
  let ?h = "case ?old of None \<Rightarrow> h | Some x \<Rightarrow> remove_elem h ?b x"
  have lt32: "helem_cnt h < 2 ^ 32" using assms(2) by simp
  have 1: "hash_inv hash lt ?h \<and> hash_elems ?h = hash_elems h - set_option ?old"
    using assms(1) remove_elem_inv [OF assms(1) _ lt32] by (auto split: option.splits)
  have bk: "find_bucket hash ?h e = ?b" by (auto simp: find_bucket_def remove_elem_def split: option.splits)
  have "\<forall>x\<in>hash_elems ?h. \<not> same_key e x"
  proof
    fix x
    assume "x \<in> hash_elems ?h"
    with 1 have x: "x \<in> hash_elems h" "?old \<noteq> Some x" by auto
    with find_elem_Some [OF assms(1), of e x] show "\<not> same_key e x" by blast
  qed
  moreover have "helem_cnt ?h < 2 ^ 32 - 1"
  proof -
    have "length (concat (hbuckets ?h)) \<le> length (concat (hbuckets h))"
      using 1 assms(1) by (metis Diff_subset card_mono distinct_card finite_set hash_elems_def hash_inv_def)
    with 1 assms(1,2) show ?thesis by (simp add: hash_inv_def)
  qed
  ultimately have "hash_inv hash lt (insert_elem ?h ?b e)" "hash_elems (insert_elem ?h ?b e) = insert e (hash_elems h - set_option ?old)"
    using insert_elem_inv [of ?h e] 1 bk by simp_all
  with rehash_inv [of hash lt "insert_elem ?h ?b e" mem] assms(3) show ?thesis
    by (auto simp: hash_replace_def Let_def hash_find_def)
qed

end

section \<open>Iteration\<close>

text \<open>The elements that are left when an iterator has returned the one it is at.\<close>

definition iter_left :: "'e hash \<Rightarrow> hash_iterator \<Rightarrow> 'e list" where
  "iter_left h i = (case it_elem i of
     NoElem \<Rightarrow> [] | At k \<Rightarrow> drop k (hbuckets h ! it_bucket i) @ concat (drop (Suc (it_bucket i)) (hbuckets h)))"

fun iterate :: "nat \<Rightarrow> 'e hash \<Rightarrow> hash_iterator \<Rightarrow> 'e list res" where
  "iterate 0 h i = Inl OutOfFuel"
| "iterate (Suc n) h i = rbind (hash_next h i) (\<lambda>i1.
     case hash_cur h i1 of None \<Rightarrow> Inr [] | Some e \<Rightarrow> rbind (iterate n h i1) (\<lambda>es. Inr (e # es)))"

definition iter_ok :: "'e hash \<Rightarrow> hash_iterator \<Rightarrow> bool" where
  "iter_ok h i \<longleftrightarrow> (case it_elem i of NoElem \<Rightarrow> False
     | At k \<Rightarrow> it_bucket i < length (hbuckets h) \<and> k \<le> length (hbuckets h ! it_bucket i))"

lemma next_bucket_spec:
  assumes "length (hbuckets h) = hbucket_cnt h" "b < hbucket_cnt h" "k \<le> length (hbuckets h ! b)"
  shows "case drop k (hbuckets h ! b) @ concat (drop (Suc b) (hbuckets h)) of
      [] \<Rightarrow> it_elem (next_bucket h b (Suc k)) = NoElem
    | e # es \<Rightarrow> iter_ok h (next_bucket h b (Suc k)) \<and> hash_cur h (next_bucket h b (Suc k)) = Some e
        \<and> iter_left h (next_bucket h b (Suc k)) = es"
  using assms(2,3)
proof (induction "hbucket_cnt h - b" arbitrary: b k)
  case (Suc m)
  show ?case
  proof (cases "k = length (hbuckets h ! b)")
    case False
    with Suc.prems have k: "k < length (hbuckets h ! b)" by simp
    then have "drop k (hbuckets h ! b) = hbuckets h ! b ! k # drop (Suc k) (hbuckets h ! b)"
      by (rule Cons_nth_drop_Suc [symmetric])
    moreover have "next_bucket h b (Suc k) = \<lparr>it_bucket = b, it_elem = At (Suc k)\<rparr>"
      using False by (subst next_bucket.simps) simp
    ultimately show ?thesis using k Suc.prems assms(1) by (simp add: iter_ok_def hash_cur_def iter_left_def)
  next
    case True
    show ?thesis
    proof (cases "Suc b < hbucket_cnt h")
      case False
      then have "next_bucket h b (Suc k) = \<lparr>it_bucket = Suc b, it_elem = NoElem\<rparr>"
        using True Suc.prems by (subst next_bucket.simps) simp
      with True False assms(1) show ?thesis by simp
    next
      case more: True
      then have nb: "next_bucket h b (Suc k) = next_bucket h (Suc b) (Suc 0)"
        using True Suc.prems by (subst next_bucket.simps) simp
      have "drop (Suc b) (hbuckets h) = hbuckets h ! Suc b # drop (Suc (Suc b)) (hbuckets h)"
        using more assms(1) by (simp add: Cons_nth_drop_Suc)
      then have dr: "drop k (hbuckets h ! b) @ concat (drop (Suc b) (hbuckets h))
          = drop 0 (hbuckets h ! Suc b) @ concat (drop (Suc (Suc b)) (hbuckets h))"
        using True by simp
      have "m = hbucket_cnt h - Suc b" using Suc.hyps(2) by simp
      from Suc.hyps(1) [OF this more, of 0] show ?thesis unfolding nb dr by simp
    qed
  qed
qed simp

lemma iterate_spec:
  assumes "length (hbuckets h) = hbucket_cnt h" "iter_ok h i" "length (iter_left h i) < n"
  shows "iterate n h i = Inr (iter_left h i)"
  using assms(2,3)
proof (induction n arbitrary: i)
  case (Suc n)
  obtain k where k: "it_elem i = At k" "it_bucket i < hbucket_cnt h" "k \<le> length (hbuckets h ! it_bucket i)"
    using Suc.prems(1) assms(1) by (auto simp: iter_ok_def split: iter_elem.splits)
  let ?i = "next_bucket h (it_bucket i) (Suc k)"
  have nx: "hash_next h i = Inr ?i" using k by (simp add: hash_next_def)
  have left: "iter_left h i = drop k (hbuckets h ! it_bucket i) @ concat (drop (Suc (it_bucket i)) (hbuckets h))"
    using k by (simp add: iter_left_def)
  have sp: "case iter_left h i of [] \<Rightarrow> it_elem ?i = NoElem
      | e # es \<Rightarrow> iter_ok h ?i \<and> hash_cur h ?i = Some e \<and> iter_left h ?i = es"
    unfolding left by (rule next_bucket_spec [OF assms(1) k(2,3)])
  show ?case
  proof (cases "iter_left h i")
    case Nil
    then have "it_elem ?i = NoElem" using sp by simp
    then have "hash_cur h ?i = None" by (simp add: hash_cur_def)
    with nx Nil show ?thesis by simp
  next
    case (Cons e es)
    then have "iter_ok h ?i" "hash_cur h ?i = Some e" "iter_left h ?i = es"
      using sp by simp_all
    with nx Cons Suc show ?thesis by simp
  qed
qed simp

section \<open>Properties\<close>

text \<open>Sequences of operations, and what they compute on the set of elements.\<close>

datatype 'e hash_op = Insert 'e | Replace 'e | Delete 'e | Find 'e

fun hash_step :: "('e \<Rightarrow> u32) \<Rightarrow> ('e \<Rightarrow> 'e \<Rightarrow> bool) \<Rightarrow> bool \<Rightarrow> 'e hash \<Rightarrow> 'e hash_op \<Rightarrow> 'e hash \<times> 'e option" where
  "hash_step hash lt mem h (Insert e) = hash_insert mem hash lt h e"
| "hash_step hash lt mem h (Replace e) = hash_replace mem hash lt h e"
| "hash_step hash lt mem h (Delete e) = hash_delete mem hash lt h e"
| "hash_step hash lt mem h (Find e) = (h, hash_find hash lt h e)"

fun hash_run :: "('e \<Rightarrow> u32) \<Rightarrow> ('e \<Rightarrow> 'e \<Rightarrow> bool) \<Rightarrow> 'e hash \<Rightarrow> ('e hash_op \<times> bool) list \<Rightarrow> 'e hash \<times> 'e option list" where
  "hash_run hash lt h [] = (h, [])"
| "hash_run hash lt h ((op, mem) # ops) =
     (case hash_step hash lt mem h op of (h1, r) \<Rightarrow>
        case hash_run hash lt h1 ops of (h2, rs) \<Rightarrow> (h2, r # rs))"

fun set_step :: "'e set \<Rightarrow> 'e option \<Rightarrow> 'e hash_op \<Rightarrow> 'e set" where
  "set_step S old (Insert e) = (if old = None then insert e S else S)"
| "set_step S old (Replace e) = insert e (S - set_option old)"
| "set_step S old (Delete e) = S - set_option old"
| "set_step S old (Find e) = S"

fun op_elem :: "'e hash_op \<Rightarrow> 'e" where
  "op_elem (Insert e) = e"
| "op_elem (Replace e) = e"
| "op_elem (Delete e) = e"
| "op_elem (Find e) = e"

text \<open>
  The specification: the answer of an operation is the element of the set that has the same
  key as its argument, if there is one.
\<close>

inductive set_runs :: "('e \<Rightarrow> 'e \<Rightarrow> bool) \<Rightarrow> 'e set \<Rightarrow> ('e hash_op \<times> bool) list \<Rightarrow> 'e set \<Rightarrow> 'e option list \<Rightarrow> bool"
  for lt where
  set_runs_Nil: "set_runs lt S [] S []"
| set_runs_Cons: "\<lbrakk>\<And>x. old = Some x \<longleftrightarrow> x \<in> S \<and> \<not> lt (op_elem op) x \<and> \<not> lt x (op_elem op);
     set_runs lt (set_step S old op) ops S' rs\<rbrakk> \<Longrightarrow> set_runs lt S ((op, mem) # ops) S' (old # rs)"

lemma set_step_card:
  assumes "finite S"
  shows "card (set_step S r op) \<le> Suc (card S)"
proof -
  have "card (S - set_option r) \<le> card S" by (rule card_mono [OF assms Diff_subset])
  moreover have "card (insert e T) \<le> Suc (card T)" for e and T :: "'a set"
    by (cases "finite T") (simp_all add: card_insert_if)
  ultimately have "card (insert e (S - set_option r)) \<le> Suc (card S)" "card (insert e S) \<le> Suc (card S)" for e
    by (meson Suc_le_mono le_trans)+
  with \<open>card (S - set_option r) \<le> card S\<close> show ?thesis by (cases op) auto
qed

context hash_order
begin

lemma hash_step_spec:
  assumes "hash_inv hash lt h" "helem_cnt h < 2 ^ 32 - 1" "hash_step hash lt mem h op = (h', r)"
  shows "hash_inv hash lt h' \<and> r = hash_find hash lt h (op_elem op) \<and> hash_elems h' = set_step (hash_elems h) r op"
proof -
  have lt32: "helem_cnt h < 2 ^ 32" using assms(2) by simp
  show ?thesis
  proof (cases op)
    case (Insert e)
    with hash_insert_spec [OF assms(1,2), of mem e] assms(3) show ?thesis by simp
  next
    case (Replace e)
    with hash_replace_spec [OF assms(1,2), of mem e] assms(3) show ?thesis by simp
  next
    case (Delete e)
    with hash_delete_spec [OF assms(1) lt32, of mem e] assms(3) show ?thesis by simp
  next
    case (Find e)
    with assms show ?thesis by auto
  qed
qed

lemma helem_cnt_card: "hash_inv hash lt h \<Longrightarrow> helem_cnt h = card (hash_elems h)"
  by (simp add: hash_inv_def hash_elems_def distinct_card del: set_concat)

lemma hash_run_spec:
  assumes "hash_inv hash lt h" "helem_cnt h + length ops < 2 ^ 32" "hash_run hash lt h ops = (h', rs)"
  shows "hash_inv hash lt h' \<and> set_runs lt (hash_elems h) ops (hash_elems h') rs"
  using assms
proof (induction ops arbitrary: h rs)
  case Nil
  then show ?case by (auto intro: set_runs_Nil)
next
  case (Cons opm ops)
  obtain op mem where opm: "opm = (op, mem)" by fastforce
  obtain h1 r where h1: "hash_step hash lt mem h op = (h1, r)" by fastforce
  obtain rs' where rs: "hash_run hash lt h1 ops = (h', rs')" "rs = r # rs'"
    using Cons.prems(3) h1 opm by (auto split: prod.splits)
  have small: "helem_cnt h < 2 ^ 32 - 1" using Cons.prems(2) by simp
  note s = hash_step_spec [OF Cons.prems(1) small h1]
  have "finite (hash_elems h)" by (simp add: hash_elems_def)
  then have "card (hash_elems h1) \<le> Suc (card (hash_elems h))"
    using s set_step_card [of "hash_elems h" r op] by simp
  with s Cons.prems(2) have "helem_cnt h1 + length ops < 2 ^ 32"
    using helem_cnt_card [OF Cons.prems(1)] helem_cnt_card [of h1] by simp
  from Cons.IH [OF _ this rs(1)] s rs(2) opm hash_find_spec [OF Cons.prems(1), of "op_elem op"] show ?case
    by (auto intro: set_runs_Cons)
qed

end

text \<open>
  C18: hash tables implement sets of keys. For a comparison function that is a strict weak
  order and a hash function that agrees on equal keys, any sequence of insertions,
  replacements, deletions and searches gives the answers the set of elements gives, keeps the
  table well formed, and does so whichever of the allocations of bucket arrays fail.
\<close>

theorem hash_refines_set:
  assumes "\<And>x y. lt x y \<Longrightarrow> \<not> lt y x" "\<And>x y z. \<not> lt x y \<Longrightarrow> \<not> lt y z \<Longrightarrow> \<not> lt x z"
    and "\<And>x y. \<not> lt x y \<Longrightarrow> \<not> lt y x \<Longrightarrow> hash x = hash y"
    and "hash_inv hash lt h" "helem_cnt h + length ops < 2 ^ 32"
  shows "\<exists>h' rs. hash_run hash lt h ops = (h', rs) \<and> hash_inv hash lt h' \<and> set_runs lt (hash_elems h) ops (hash_elems h') rs"
proof -
  have "weak_order lt" using assms(1,2) by unfold_locales
  then have "hash_order lt hash" by (rule hash_order.intro) (unfold_locales, rule assms(3))
  from hash_order.hash_run_spec [OF this assms(4,5)] show ?thesis by (cases "hash_run hash lt h ops") simp
qed

theorem hash_refines_set_witness:
  "\<exists>h' rs. hash_run word_of_nat (<) (fst (hash_init True)) [(Insert 5, True), (Insert 9, True), (Delete 5, False)] = (h', rs)
    \<and> set_runs (<) {} [(Insert 5, True), (Insert 9, True), (Delete 5, False)] (hash_elems h') rs"
proof -
  have e: "hash_init True = (fst (hash_init True) :: nat hash, True)" by (simp add: hash_init_def hash_clear_def)
  have i: "hash_inv word_of_nat (<) (fst (hash_init True))" "hash_elems (fst (hash_init True)) = ({} :: nat set)"
    using hash_init_inv [OF e] by blast+
  have "helem_cnt (fst (hash_init True) :: nat hash) = 0" by (simp add: hash_init_def hash_clear_def)
  then show ?thesis
    using hash_refines_set [OF _ _ _ i(1), of "[(Insert 5, True), (Insert 9, True), (Delete 5, False)]"] i(2)
    by (auto simp del: hash_run.simps)
qed

text \<open>
  C19: iteration. From \<open>hash_first\<close>, calling \<open>hash_next\<close> until it returns a null pointer visits
  every element of the table exactly once; the loop over empty buckets ends.
\<close>

theorem hash_iteration_complete:
  assumes "hash_inv hash lt h" "helem_cnt h < n"
  shows "\<exists>es. iterate n h hash_first = Inr es \<and> distinct es \<and> set es = hash_elems h \<and> length es = hash_size h"
proof -
  have len: "length (hbuckets h) = hbucket_cnt h" "0 < hbucket_cnt h" "distinct (concat (hbuckets h))"
      "helem_cnt h = length (concat (hbuckets h))"
    using assms(1) by (auto simp: hash_inv_def placed_def)
  then have ok: "iter_ok h hash_first" by (simp add: iter_ok_def hash_first_def)
  have "hbuckets h \<noteq> []" using len(1,2) by auto
  then obtain b bs where "hbuckets h = b # bs" by (cases "hbuckets h") auto
  then have "iter_left h hash_first = concat (hbuckets h)" by (simp add: iter_left_def hash_first_def)
  with iterate_spec [OF len(1) ok, of n] len(3,4) assms(2) show ?thesis by (simp add: hash_elems_def hash_size_def)
qed

text \<open>A table of three numbers in the buckets of their last two bits.\<close>

definition sample_table :: "nat hash" where
  "sample_table = \<lparr>helem_cnt = 3, hbucket_cnt = 4, hbuckets = [[], [5, 9], [], [7]]\<rparr>"

lemma sample_table_inv: "hash_inv word_of_nat (<) sample_table"
proof -
  have "\<exists>k. (4 :: nat) = 2 ^ k" by (rule exI [of _ 2]) simp
  moreover have "placed (word_of_nat :: nat \<Rightarrow> u32) 4 [[], [5, 9], [], [7]]"
  proof -
    have "bucket_idx (word_of_nat :: nat \<Rightarrow> u32) 4 5 = 1" "bucket_idx (word_of_nat :: nat \<Rightarrow> u32) 4 9 = 1"
      "bucket_idx (word_of_nat :: nat \<Rightarrow> u32) 4 7 = 3" by (simp_all add: bucket_idx_def)
    then show ?thesis by (auto simp: placed_def numeral_eq_Suc less_Suc_eq)
  qed
  ultimately show ?thesis by (simp add: hash_inv_def sample_table_def hash_elems_def)
qed

theorem hash_iteration_complete_witness:
  "\<exists>es. iterate 4 sample_table hash_first = Inr es \<and> distinct es \<and> set es = {5, 7, 9} \<and> length es = 3"
  using hash_iteration_complete [OF sample_table_inv, of 4] by (auto simp: sample_table_def hash_elems_def hash_size_def)

end
