(* ===== verification/Page.thy ===== *)
theory Page
  imports KHash_Spec
begin

text \<open>
  Supplemental page table entries (\<open>src/vm/page.h\<close>, \<open>src/vm/page.c\<close>).

  Entries live at addresses; \<open>hash_spte\<close> and \<open>compare_spte\<close> hash and compare them by user
  virtual address, through the contents \<open>sp\<close> of the entries. They satisfy the contracts of
  hash tables and of ordered lists, so that the supplemental page table of a thread is a
  finite map from user pages to entries.
\<close>

section \<open>Entries\<close>

record sup_page_table_entry =
  user_vaddr :: u32
  access_time :: u64
  mapid :: int
  mmapfd :: int
  filerelated :: bool
  spte_file :: nat
  spte_ofs :: int
  read_bytes :: nat
  zero_bytes :: nat
  spte_writable :: bool
  spte_dirty :: bool
  spte_accessed :: bool
  inswap :: bool
  swapindex :: int

definition hash_spte :: "(addr \<Rightarrow> sup_page_table_entry) \<Rightarrow> addr \<Rightarrow> u32" where
  "hash_spte sp he = hash_bytes (le_bytes (user_vaddr (sp he)))"

definition compare_spte :: "(addr \<Rightarrow> sup_page_table_entry) \<Rightarrow> addr \<Rightarrow> addr \<Rightarrow> bool" where
  "compare_spte sp a b \<longleftrightarrow> user_vaddr (sp a) < user_vaddr (sp b)"

interpretation spte: hash_order "compare_spte sp" "hash_spte sp"
  by unfold_locales (auto simp: compare_spte_def hash_spte_def)

interpretation spte_list: list_order "compare_spte sp"
  by unfold_locales

section \<open>Looking entries up\<close>

text \<open>
  The entry of a user page: the code searches for an entry on its stack that has the address
  of the page, here at the address \<open>check\<close>.
\<close>

definition find_spte :: "(addr \<Rightarrow> sup_page_table_entry) \<Rightarrow> addr hash \<Rightarrow> addr \<Rightarrow> u32 \<Rightarrow> addr option" where
  "find_spte sp h check va =
     (let sp1 = sp(check := (sp check)\<lparr>user_vaddr := va\<rparr>) in hash_find (hash_spte sp1) (compare_spte sp1) h check)"

lemma hash_inv_cong:
  assumes "\<forall>e\<in>hash_elems h. user_vaddr (sp' e) = user_vaddr (sp e)" "hash_inv (hash_spte sp) (compare_spte sp) h"
  shows "hash_inv (hash_spte sp') (compare_spte sp') h"
proof -
  have "bucket_idx (hash_spte sp') c e = bucket_idx (hash_spte sp) c e" if "e \<in> hash_elems h" for c e
    using assms(1) that by (simp add: bucket_idx_def hash_spte_def)
  moreover have "e \<in> hash_elems h" if "i < length (hbuckets h)" "e \<in> set (hbuckets h ! i)" for i e
    using that by (auto simp: hash_elems_def)
  ultimately have "placed (hash_spte sp') (hbucket_cnt h) (hbuckets h) = placed (hash_spte sp) (hbucket_cnt h) (hbuckets h)"
    by (auto simp: placed_def)
  with assms show ?thesis by (auto simp: hash_inv_def compare_spte_def)
qed

lemma find_spte_spec:
  assumes "hash_inv (hash_spte sp) (compare_spte sp) h" "check \<notin> hash_elems h"
  shows "find_spte sp h check va = Some p \<longleftrightarrow> p \<in> hash_elems h \<and> user_vaddr (sp p) = va"
proof -
  let ?sp = "sp(check := (sp check)\<lparr>user_vaddr := va\<rparr>)"
  have "\<forall>e\<in>hash_elems h. user_vaddr (?sp e) = user_vaddr (sp e)" using assms(2) by auto
  from hash_inv_cong [OF this assms(1)] have inv: "hash_inv (hash_spte ?sp) (compare_spte ?sp) h" .
  have eq: "p \<in> hash_elems h \<Longrightarrow> user_vaddr (?sp p) = user_vaddr (sp p)" for p using assms(2) by auto
  show ?thesis
    unfolding find_spte_def Let_def spte.hash_find_spec [OF inv] compare_spte_def
    using eq assms(2) by (auto simp: not_less)
qed

text \<open>
  The supplemental page table is keyed by page. In a well-formed table, searching for a
  user address returns the entry in the table that has this address, and a null pointer
  exactly when there is none.
\<close>

theorem find_spte_by_address:
  assumes "hash_inv (hash_spte sp) (compare_spte sp) h" "check \<notin> hash_elems h"
  shows "find_spte sp h check va = Some p \<longleftrightarrow> p \<in> hash_elems h \<and> user_vaddr (sp p) = va"
  by (rule find_spte_spec [OF assms])

definition sample_sp :: "addr \<Rightarrow> sup_page_table_entry" where
  "sample_sp a = \<lparr>user_vaddr = word_of_nat (4096 * a), access_time = 0, mapid = 0, mmapfd = 0, filerelated = False,
     spte_file = 0, spte_ofs = 0, read_bytes = 0, zero_bytes = 4096, spte_writable = True, spte_dirty = False,
     spte_accessed = False, inswap = False, swapindex = - 1\<rparr>"

definition sample_spt :: "addr hash" where
  "sample_spt = fst (hash_insert True (hash_spte sample_sp) (compare_spte sample_sp) (fst (hash_init True)) 20)"

lemma sample_spt: "hash_inv (hash_spte sample_sp) (compare_spte sample_sp) sample_spt" "hash_elems sample_spt = {20}"
proof -
  have e: "hash_init True = (fst (hash_init True) :: addr hash, True)" by (simp add: hash_init_def hash_clear_def)
  note i = hash_init_inv [OF e, of "hash_spte sample_sp" "compare_spte sample_sp"]
  have c: "helem_cnt (fst (hash_init True) :: addr hash) < 2 ^ 32 - 1" by (simp add: hash_init_def hash_clear_def)
  have "hash_find (hash_spte sample_sp) (compare_spte sample_sp) (fst (hash_init True)) 20 = None"
    using spte.hash_find_spec [OF i [THEN conjunct1], of 20] i
    by (cases "hash_find (hash_spte sample_sp) (compare_spte sample_sp) (fst (hash_init True)) 20") auto
  with spte.hash_insert_spec [OF i [THEN conjunct1] c surjective_pairing, of True 20] i
  show "hash_inv (hash_spte sample_sp) (compare_spte sample_sp) sample_spt" "hash_elems sample_spt = {20}"
    by (auto simp: sample_spt_def)
qed

theorem find_spte_by_address_witness: "find_spte sample_sp sample_spt 30 81920 = Some 20"
  using find_spte_by_address [OF sample_spt(1), of 30 81920 20] sample_spt(2) by (simp add: sample_sp_def)

end
