(* ===== verification/Sched.thy ===== *)
theory Sched
  imports KList
begin

text \<open>
  Threads, the scheduler and the synchronization primitives (\<open>src/threads/thread.c\<close>,
  \<open>src/threads/synch.c\<close>).

  The state holds the threads by the address of their page, the run queue and the lists of
  waiting threads as the lists of \<open>KList\<close>, the semaphores, locks and condition variables, and
  whether interrupts are on. Switching threads changes \<open>running\<close>: what a thread does when it is
  switched to is the sequence of instructions in its \<open>prog\<close>. An operation that can be preempted
  or can block is such a sequence, cut where the code enables interrupts or switches threads:
  \<open>lock_acquire\<close>, for example, checks that the lock is not held, downs the semaphore, which it
  tries again after every time it was blocked, and then sets the holder.

  A thread that is switched to continues where it was switched away from: in \<open>thread_yield\<close>,
  in \<open>kernel_thread\<close> and in \<open>idle\<close> it enables interrupts (\<open>resume_level\<close>); in \<open>sema_down\<close> the
  code looks at the value again with interrupts still off, and the model lets an interrupt
  in before it does, which only adds interleavings. Callers have interrupts enabled.

  The relation \<open>kstep\<close> interleaves the instructions of the running thread with timer
  interrupts.
\<close>

section \<open>State\<close>

datatype thread_status = THREAD_RUNNING | THREAD_READY | THREAD_BLOCKED | THREAD_DYING

definition PRI_MIN :: int where "PRI_MIN = 0"

definition PRI_DEFAULT :: int where "PRI_DEFAULT = 31"

definition PRI_MAX :: int where "PRI_MAX = 63"

definition TID_ERROR :: int where "TID_ERROR = - 1"

definition THREAD_MAGIC :: u32 where "THREAD_MAGIC = 0xcd6abf4b"

definition TIME_SLICE :: nat where "TIME_SLICE = 4"

record thread =
  tid :: int
  status :: thread_status
  t_name :: "byte list"
  t_stack :: u32
  priority :: int
  t_magic :: u32
  t_pagedir :: nat
  childrenlist :: "addr list"
  t_wait :: bool
  loadsuccess :: bool

text \<open>The semaphores: of a lock, the members of a thread, and others.\<close>

datatype sema_id = LockSema addr | Diesem addr | Loadsem addr | Loadsuccesssem addr | Waitsem addr
  | Exitsem addr | Filesem addr | Jinsem addr | Sema addr

record semaphore =
  sem_value :: nat
  sem_waiters :: "addr list"

datatype instr =
    Down sema_id | TryDown sema_id | Up sema_id
  | LockAcquire addr | AcquireDown addr | AcquireHold addr | LockTryAcquire addr
  | LockRelease addr | ReleaseUp addr
  | CondWait addr addr sema_id | CondSignal addr addr | CondBroadcast addr addr
  | Yield | Exit
  | Create "byte list" int "addr option" | TakeTid addr | StartThread addr
  | IdleStart sema_id | IdleLoop

record sched =
  threads :: "addr \<rightharpoonup> thread"
  ready_list :: "addr list"
  running :: addr
  idle_thread :: "addr option"
  initial_thread :: addr
  tid_lock :: addr
  handlesem :: addr
  next_tid :: int
  semas :: "sema_id \<Rightarrow> semaphore"
  holder :: "addr \<Rightarrow> addr option"
  conds :: "addr \<Rightarrow> sema_id list"
  thread_ticks :: nat
  idle_ticks :: nat
  kernel_ticks :: nat
  user_ticks :: nat
  intr_on :: bool
  prog :: "addr \<Rightarrow> instr list"

definition set_prog :: "sched \<Rightarrow> addr \<Rightarrow> instr list \<Rightarrow> sched" where
  "set_prog s t p = s\<lparr>prog := (prog s)(t := p)\<rparr>"

definition set_status :: "sched \<Rightarrow> addr \<Rightarrow> thread_status \<Rightarrow> sched" where
  "set_status s t st = s\<lparr>threads := (threads s)(t := map_option (\<lambda>x. x\<lparr>status := st\<rparr>) (threads s t))\<rparr>"

definition set_sema :: "sched \<Rightarrow> sema_id \<Rightarrow> semaphore \<Rightarrow> sched" where
  "set_sema s sm x = s\<lparr>semas := (semas s)(sm := x)\<rparr>"

definition has_status :: "sched \<Rightarrow> addr \<Rightarrow> thread_status \<Rightarrow> bool" where
  "has_status s t st \<longleftrightarrow> (case threads s t of None \<Rightarrow> False | Some x \<Rightarrow> status x = st)"

section \<open>Threads\<close>

definition is_thread :: "sched \<Rightarrow> addr option \<Rightarrow> bool" where
  "is_thread s t \<longleftrightarrow> (case t of None \<Rightarrow> False
     | Some a \<Rightarrow> (case threads s a of None \<Rightarrow> False | Some x \<Rightarrow> t_magic x = THREAD_MAGIC))"

definition thread_current :: "sched \<Rightarrow> addr res" where
  "thread_current s =
     kassert (is_thread s (Some (running s))) (kassert (has_status s (running s) THREAD_RUNNING) (Inr (running s)))"

definition next_thread_to_run :: "sched \<Rightarrow> sched \<times> addr option" where
  "next_thread_to_run s =
     (case ready_list s of [] \<Rightarrow> (s, idle_thread s) | t # ts \<Rightarrow> (s\<lparr>ready_list := ts\<rparr>, Some t))"

definition schedule_tail :: "sched \<Rightarrow> addr option \<Rightarrow> sched res" where
  "schedule_tail s prev =
     kassert (\<not> intr_on s)
       (let s1 = (set_status s (running s) THREAD_RUNNING)\<lparr>thread_ticks := 0\<rparr> in
        case prev of
          None \<Rightarrow> Inr s1
        | Some p \<Rightarrow>
            if has_status s1 p THREAD_DYING \<and> p \<noteq> initial_thread s1
            then kassert (p \<noteq> running s1) (Inr (s1\<lparr>threads := (threads s1)(p := None)\<rparr>))
            else Inr s1)"

definition schedule :: "sched \<Rightarrow> sched res" where
  "schedule s =
     (case next_thread_to_run s of (s1, next) \<Rightarrow>
        kassert (\<not> intr_on s1) (kassert (\<not> has_status s1 (running s1) THREAD_RUNNING) (kassert (is_thread s1 next)
          (if running s1 \<noteq> the next then schedule_tail (s1\<lparr>running := the next\<rparr>) (Some (running s1))
           else schedule_tail s1 None))))"

text \<open>The thread that was switched to enables interrupts.\<close>

definition resume_level :: "sched \<Rightarrow> sched" where
  "resume_level s = s\<lparr>intr_on := True\<rparr>"

definition thread_block :: "sched \<Rightarrow> sched res" where
  "thread_block s =
     kassert (\<not> intr_on s) (rbind (thread_current s) (\<lambda>t.
       rbind (schedule (set_status s t THREAD_BLOCKED)) (\<lambda>s1. Inr (resume_level s1))))"

definition thread_unblock :: "sched \<Rightarrow> addr \<Rightarrow> sched res" where
  "thread_unblock s t =
     kassert (is_thread s (Some t)) (kassert (has_status s t THREAD_BLOCKED)
       (Inr (set_status (s\<lparr>ready_list := ready_list s @ [t]\<rparr>) t THREAD_READY)))"

definition thread_yield :: "sched \<Rightarrow> sched res" where
  "thread_yield s =
     rbind (thread_current s) (\<lambda>t.
       let s1 = s\<lparr>intr_on := False\<rparr>;
           s2 = (if Some t \<noteq> idle_thread s1 then s1\<lparr>ready_list := ready_list s1 @ [t]\<rparr> else s1) in
       rbind (schedule (set_status s2 t THREAD_READY)) (\<lambda>s3. Inr (resume_level s3)))"

definition thread_exit :: "sched \<Rightarrow> sched res" where
  "thread_exit s =
     rbind (thread_current s) (\<lambda>t.
       rbind (schedule (set_status (s\<lparr>intr_on := False\<rparr>) t THREAD_DYING)) (\<lambda>s1. Inr (resume_level s1)))"

text \<open>The second component of \<open>thread_tick\<close> says whether the thread yields on return.\<close>

definition thread_tick :: "sched \<Rightarrow> (sched \<times> bool) res" where
  "thread_tick s =
     rbind (thread_current s) (\<lambda>t.
       let s1 = (if Some t = idle_thread s then s\<lparr>idle_ticks := idle_ticks s + 1\<rparr>
                 else if (case threads s t of None \<Rightarrow> False | Some x \<Rightarrow> t_pagedir x \<noteq> 0)
                 then s\<lparr>user_ticks := user_ticks s + 1\<rparr>
                 else s\<lparr>kernel_ticks := kernel_ticks s + 1\<rparr>);
           s2 = s1\<lparr>thread_ticks := size_wrap (thread_ticks s1 + 1)\<rparr> in
       Inr (s2, TIME_SLICE \<le> thread_ticks s2))"

definition thread_name :: "sched \<Rightarrow> byte list res" where
  "thread_name s = rbind (thread_current s) (\<lambda>t. Inr (t_name (the (threads s t))))"

definition thread_tid :: "sched \<Rightarrow> int res" where
  "thread_tid s = rbind (thread_current s) (\<lambda>t. Inr (tid (the (threads s t))))"

definition thread_set_priority :: "sched \<Rightarrow> int \<Rightarrow> sched res" where
  "thread_set_priority s p = rbind (thread_current s) (\<lambda>t.
     Inr (s\<lparr>threads := (threads s)(t := map_option (\<lambda>x. x\<lparr>priority := p\<rparr>) (threads s t))\<rparr>))"

definition thread_get_priority :: "sched \<Rightarrow> int res" where
  "thread_get_priority s = rbind (thread_current s) (\<lambda>t. Inr (priority (the (threads s t))))"

section \<open>Semaphores\<close>

definition sema_init :: "sched \<Rightarrow> sema_id \<Rightarrow> nat \<Rightarrow> sched" where
  "sema_init s sm v = set_sema s sm \<lparr>sem_value = v, sem_waiters = []\<rparr>"

text \<open>One round of the loop of \<open>sema_down\<close>; the second component says whether it went through.\<close>

definition sema_down :: "sched \<Rightarrow> sema_id \<Rightarrow> (sched \<times> bool) res" where
  "sema_down s sm =
     (let s1 = s\<lparr>intr_on := False\<rparr>; x = semas s1 sm in
      if sem_value x = 0
      then rbind (thread_current s1) (\<lambda>t.
             rbind (thread_block (set_sema s1 sm (x\<lparr>sem_waiters := sem_waiters x @ [t]\<rparr>))) (\<lambda>s2. Inr (s2, False)))
      else Inr ((set_sema s1 sm (x\<lparr>sem_value := sem_value x - 1\<rparr>))\<lparr>intr_on := True\<rparr>, True))"

definition sema_try_down :: "sched \<Rightarrow> sema_id \<Rightarrow> sched \<times> bool" where
  "sema_try_down s sm =
     (if sem_value (semas s sm) > 0
      then (set_sema s sm ((semas s sm)\<lparr>sem_value := sem_value (semas s sm) - 1\<rparr>), True)
      else (s, False))"

definition sema_up :: "sched \<Rightarrow> sema_id \<Rightarrow> sched res" where
  "sema_up s sm =
     rbind (case sem_waiters (semas s sm) of
              [] \<Rightarrow> Inr s
            | t # ts \<Rightarrow> thread_unblock (set_sema s sm ((semas s sm)\<lparr>sem_waiters := ts\<rparr>)) t) (\<lambda>s1.
       Inr (set_sema s1 sm ((semas s1 sm)\<lparr>sem_value := size_wrap (sem_value (semas s1 sm) + 1)\<rparr>)))"

section \<open>Locks\<close>

definition lock_init :: "sched \<Rightarrow> addr \<Rightarrow> sched" where
  "lock_init s l = sema_init (s\<lparr>holder := (holder s)(l := None)\<rparr>) (LockSema l) 1"

definition lock_held_by_current_thread :: "sched \<Rightarrow> addr \<Rightarrow> bool res" where
  "lock_held_by_current_thread s l = rbind (thread_current s) (\<lambda>t. Inr (holder s l = Some t))"

definition lock_acquire :: "sched \<Rightarrow> addr \<Rightarrow> instr list \<Rightarrow> sched res" where
  "lock_acquire s l p =
     rbind (lock_held_by_current_thread s l) (\<lambda>held.
       kassert (\<not> held) (Inr (set_prog s (running s) (AcquireDown l # p))))"

definition lock_try_acquire :: "sched \<Rightarrow> addr \<Rightarrow> instr list \<Rightarrow> sched res" where
  "lock_try_acquire s l p =
     rbind (lock_held_by_current_thread s l) (\<lambda>held.
       kassert (\<not> held)
         (case sema_try_down s (LockSema l) of
            (s1, success) \<Rightarrow> Inr (set_prog s1 (running s1) (if success then AcquireHold l # p else p))))"

definition lock_release :: "sched \<Rightarrow> addr \<Rightarrow> instr list \<Rightarrow> sched res" where
  "lock_release s l p =
     rbind (lock_held_by_current_thread s l) (\<lambda>held.
       kassert held (Inr (set_prog (s\<lparr>holder := (holder s)(l := None)\<rparr>) (running s) (ReleaseUp l # p))))"

section \<open>Condition variables\<close>

definition cond_init :: "sched \<Rightarrow> addr \<Rightarrow> sched" where
  "cond_init s c = s\<lparr>conds := (conds s)(c := [])\<rparr>"

definition cond_wait :: "sched \<Rightarrow> addr \<Rightarrow> addr \<Rightarrow> sema_id \<Rightarrow> instr list \<Rightarrow> sched res" where
  "cond_wait s c l waiter p =
     rbind (lock_held_by_current_thread s l) (\<lambda>held.
       kassert held
         (let s1 = sema_init s waiter 0; s2 = s1\<lparr>conds := (conds s1)(c := conds s1 c @ [waiter])\<rparr> in
          Inr (set_prog s2 (running s2) (LockRelease l # Down waiter # LockAcquire l # p))))"

definition cond_signal :: "sched \<Rightarrow> addr \<Rightarrow> addr \<Rightarrow> instr list \<Rightarrow> sched res" where
  "cond_signal s c l p =
     rbind (lock_held_by_current_thread s l) (\<lambda>held.
       kassert held
         (case conds s c of
            [] \<Rightarrow> Inr (set_prog s (running s) p)
          | w # ws \<Rightarrow> rbind (sema_up (s\<lparr>conds := (conds s)(c := ws)\<rparr>) w) (\<lambda>s1. Inr (set_prog s1 (running s1) p))))"

definition cond_broadcast :: "sched \<Rightarrow> addr \<Rightarrow> addr \<Rightarrow> instr list \<Rightarrow> sched res" where
  "cond_broadcast s c l p =
     Inr (set_prog s (running s) (if conds s c = [] then p else CondSignal c l # CondBroadcast c l # p))"

section \<open>Creating threads\<close>

definition init_thread :: "sched \<Rightarrow> addr \<Rightarrow> byte list \<Rightarrow> int \<Rightarrow> sched res" where
  "init_thread s t name prio =
     kassert (PRI_MIN \<le> prio \<and> prio \<le> PRI_MAX)
       (let x = \<lparr>tid = 0, status = THREAD_BLOCKED, t_name = take 15 name, t_stack = word_of_nat t + 4096,
                 priority = prio, t_magic = THREAD_MAGIC, t_pagedir = 0, childrenlist = [], t_wait = False,
                 loadsuccess = True\<rparr>;
            s1 = s\<lparr>threads := (threads s)(t \<mapsto> x), prog := (prog s)(t := [])\<rparr> in
        Inr (fold (\<lambda>(sm, v) s. sema_init s sm v)
          [(Diesem t, 0), (Loadsem t, 0), (Loadsuccesssem t, 0), (Waitsem t, 0), (Exitsem t, 0), (Filesem t, 1),
           (Jinsem t, 0)] s1))"

definition alloc_frame :: "sched \<Rightarrow> addr \<Rightarrow> u32 \<Rightarrow> sched res" where
  "alloc_frame s t sz =
     kassert (is_thread s (Some t)) (kassert (sz mod 4 = 0)
       (Inr (s\<lparr>threads := (threads s)(t := map_option (\<lambda>x. x\<lparr>t_stack := t_stack x - sz\<rparr>) (threads s t))\<rparr>)))"

text \<open>The page is what \<open>palloc_get_page (PAL_ZERO)\<close> returned.\<close>

definition thread_create :: "sched \<Rightarrow> byte list \<Rightarrow> int \<Rightarrow> addr option \<Rightarrow> instr list \<Rightarrow> sched res" where
  "thread_create s name prio page p =
     (case page of
        None \<Rightarrow> Inr (set_prog s (running s) p)
      | Some t \<Rightarrow> rbind (init_thread s t name prio) (\<lambda>s1.
          Inr (set_prog s1 (running s1)
            (LockAcquire (tid_lock s1) # TakeTid t # LockRelease (tid_lock s1) # StartThread t # p))))"

text \<open>The critical section of \<open>allocate_tid\<close>.\<close>

definition allocate_tid :: "sched \<Rightarrow> addr \<Rightarrow> sched" where
  "allocate_tid s t =
     s\<lparr>threads := (threads s)(t := map_option (\<lambda>x. x\<lparr>tid := next_tid s\<rparr>) (threads s t)),
       next_tid := s32_of (next_tid s + 1)\<rparr>"

text \<open>The rest of \<open>thread_create\<close>: the three stack frames, the list of children and the run queue.\<close>

definition start_thread :: "sched \<Rightarrow> addr \<Rightarrow> sched res" where
  "start_thread s t =
     rbind (alloc_frame s t 12) (\<lambda>s1. rbind (alloc_frame s1 t 4) (\<lambda>s2. rbind (alloc_frame s2 t 28) (\<lambda>s3.
       rbind (thread_current s3) (\<lambda>c.
         thread_unblock (s3\<lparr>threads := (threads s3)(c := map_option (\<lambda>x. x\<lparr>childrenlist := childrenlist x @ [t]\<rparr>)
                                                        (threads s3 c))\<rparr>) t))))"

section \<open>Running\<close>

fun exec_instr :: "sched \<Rightarrow> instr \<Rightarrow> instr list \<Rightarrow> sched res" where
  "exec_instr s (Down sm) p = rbind (sema_down s sm) (\<lambda>(s1, through).
     Inr (if through then set_prog s1 (running s1) p else s1))"
| "exec_instr s (TryDown sm) p = (case sema_try_down s sm of (s1, _) \<Rightarrow> Inr (set_prog s1 (running s1) p))"
| "exec_instr s (Up sm) p = rbind (sema_up s sm) (\<lambda>s1. Inr (set_prog s1 (running s1) p))"
| "exec_instr s (LockAcquire l) p = lock_acquire s l p"
| "exec_instr s (AcquireDown l) p = rbind (sema_down s (LockSema l)) (\<lambda>(s1, through).
     Inr (if through then set_prog s1 (running s1) (AcquireHold l # p) else s1))"
| "exec_instr s (AcquireHold l) p = rbind (thread_current s) (\<lambda>t.
     Inr (set_prog (s\<lparr>holder := (holder s)(l := Some t)\<rparr>) t p))"
| "exec_instr s (LockTryAcquire l) p = lock_try_acquire s l p"
| "exec_instr s (LockRelease l) p = lock_release s l p"
| "exec_instr s (ReleaseUp l) p = rbind (sema_up s (LockSema l)) (\<lambda>s1. Inr (set_prog s1 (running s1) p))"
| "exec_instr s (CondWait c l w) p = cond_wait s c l w p"
| "exec_instr s (CondSignal c l) p = cond_signal s c l p"
| "exec_instr s (CondBroadcast c l) p = cond_broadcast s c l p"
| "exec_instr s Yield p = thread_yield (set_prog s (running s) p)"
| "exec_instr s Exit p = thread_exit s"
| "exec_instr s (Create name prio page) p = thread_create s name prio page p"
| "exec_instr s (TakeTid t) p = Inr (set_prog (allocate_tid s t) (running s) p)"
| "exec_instr s (StartThread t) p = rbind (start_thread s t) (\<lambda>s1. Inr (set_prog s1 (running s1) p))"
| "exec_instr s (IdleStart sm) p = rbind (thread_current s) (\<lambda>t.
     Inr (set_prog (s\<lparr>idle_thread := Some t\<rparr>) t [Up sm, IdleLoop]))"
| "exec_instr s IdleLoop p = thread_block (s\<lparr>intr_on := False\<rparr>)"

text \<open>
  What a thread may start: every operation but the phases of one, \<open>idle\<close>'s loop, and the
  semaphore inside a lock, which only the lock operations touch.
\<close>

fun client_instr :: "instr \<Rightarrow> bool" where
  "client_instr (Down (LockSema _)) = False"
| "client_instr (TryDown (LockSema _)) = False"
| "client_instr (Up (LockSema _)) = False"
| "client_instr (CondWait _ _ (LockSema _)) = False"
| "client_instr (IdleStart (LockSema _)) = False"
| "client_instr (AcquireDown _) = False"
| "client_instr (AcquireHold _) = False"
| "client_instr (ReleaseUp _) = False"
| "client_instr (TakeTid _) = False"
| "client_instr (StartThread _) = False"
| "client_instr IdleLoop = False"
| "client_instr _ = True"

text \<open>
  The page allocator returns pages that are not in use, and \<open>idle\<close> is the function of one
  thread only.
\<close>

definition allowed :: "sched \<Rightarrow> instr \<Rightarrow> bool" where
  "allowed s i \<longleftrightarrow> (case i of
     Create _ _ (Some t) \<Rightarrow> threads s t = None
   | IdleStart _ \<Rightarrow> idle_thread s = None
   | _ \<Rightarrow> True)"

inductive kstep :: "sched \<Rightarrow> sched \<Rightarrow> bool" where
  kstep_instr: "\<lbrakk>prog s (running s) = i # p; allowed s i; exec_instr s i p = Inr s'\<rbrakk> \<Longrightarrow> kstep s s'"
| kstep_call: "\<lbrakk>prog s (running s) = []; \<forall>i\<in>set p. client_instr i\<rbrakk> \<Longrightarrow> kstep s (set_prog s (running s) p)"
| kstep_tick: "\<lbrakk>intr_on s; thread_tick s = Inr (s1, False)\<rbrakk> \<Longrightarrow> kstep s s1"
| kstep_preempt: "\<lbrakk>intr_on s; thread_tick s = Inr (s1, True); thread_yield s1 = Inr s'\<rbrakk> \<Longrightarrow> kstep s s'"

section \<open>Starting up\<close>

text \<open>
  \<open>thread_init\<close> makes a thread of the code that is running, whose page is \<open>t\<close>. Everything but
  the locks it initializes and the run queue is as the loader left it.
\<close>

definition thread_init :: "sched \<Rightarrow> addr \<Rightarrow> sched res" where
  "thread_init s t =
     kassert (\<not> intr_on s)
       (let s1 = (lock_init s (tid_lock s))\<lparr>ready_list := [], initial_thread := t, running := t\<rparr> in
        rbind (init_thread s1 t [109, 97, 105, 110] PRI_DEFAULT) (\<lambda>s2.
          let s3 = allocate_tid (set_status s2 t THREAD_RUNNING) t in
          Inr (lock_init s3 (handlesem s3))))"

text \<open>\<open>thread_start\<close> creates the idle thread in the page \<open>page\<close>, enables interrupts and waits for it: the
  \<open>Down\<close> leaves interrupts on.\<close>

definition thread_start :: "addr option \<Rightarrow> sema_id \<Rightarrow> sched \<Rightarrow> sched" where
  "thread_start page idle_started s =
     set_prog (sema_init s idle_started 0) (running s)
       [Create [105, 100, 108, 101] PRI_MIN page, Down idle_started]"

text \<open>The self test: two threads that hand control to each other ten times.\<close>

definition sema_self_test :: "sema_id \<Rightarrow> sema_id \<Rightarrow> addr option \<Rightarrow> instr list" where
  "sema_self_test a b page = Create [115, 101, 109, 97] PRI_DEFAULT page # concat (replicate 10 [Up a, Down b])"

definition sema_test_helper :: "sema_id \<Rightarrow> sema_id \<Rightarrow> instr list" where
  "sema_test_helper a b = concat (replicate 10 [Down a, Up b]) @ [Exit]"

end
