(* ===== verification/Sched_Inv.thy ===== *)
theory Sched_Inv
  imports Sched
begin

text \<open>
  The queues of the scheduler: which threads are in the run queue and in the lists of waiters of
  the semaphores, and that switching threads, blocking, unblocking and the semaphore operations
  keep it so.
\<close>

section \<open>The queues\<close>

definition waits_for :: "instr list \<Rightarrow> sema_id \<Rightarrow> bool" where
  "waits_for p sm \<longleftrightarrow> (case p of Down sm' # _ \<Rightarrow> sm = sm' | AcquireDown l # _ \<Rightarrow> sm = LockSema l | _ \<Rightarrow> False)"

text \<open>
  The run queue holds ready threads, the waiters of a semaphore are blocked in \<open>sema_down\<close> on
  that semaphore, and the idle thread is in no list.
\<close>

definition queues_inv :: "sched \<Rightarrow> bool" where
  "queues_inv s \<longleftrightarrow>
     (\<forall>t x. threads s t = Some x \<longrightarrow> t_magic x = THREAD_MAGIC)
   \<and> distinct (ready_list s) \<and> (\<forall>t\<in>set (ready_list s). has_status s t THREAD_READY)
   \<and> (\<forall>sm. distinct (sem_waiters (semas s sm))
        \<and> (\<forall>t\<in>set (sem_waiters (semas s sm)). has_status s t THREAD_BLOCKED \<and> waits_for (prog s t) sm))
   \<and> (\<forall>i. idle_thread s = Some i \<longrightarrow> threads s i \<noteq> None \<and> \<not> has_status s i THREAD_DYING \<and> i \<notin> set (ready_list s)
        \<and> (prog s i = [IdleLoop] \<or> (\<exists>sm. prog s i = [Up sm, IdleLoop])))"

definition sched_inv :: "sched \<Rightarrow> bool" where
  "sched_inv s \<longleftrightarrow> queues_inv s \<and> (\<forall>t. has_status s t THREAD_RUNNING \<longleftrightarrow> t = running s)"

text \<open>In the middle of a switch no thread is running.\<close>

definition transit :: "sched \<Rightarrow> bool" where
  "transit s \<longleftrightarrow> queues_inv s \<and> (\<forall>t. \<not> has_status s t THREAD_RUNNING)"

lemma queuesD:
  assumes "queues_inv s"
  shows "threads s t = Some x \<Longrightarrow> t_magic x = THREAD_MAGIC" "distinct (ready_list s)"
    "t \<in> set (ready_list s) \<Longrightarrow> has_status s t THREAD_READY" "distinct (sem_waiters (semas s sm))"
    "t \<in> set (sem_waiters (semas s sm)) \<Longrightarrow> has_status s t THREAD_BLOCKED"
    "t \<in> set (sem_waiters (semas s sm)) \<Longrightarrow> waits_for (prog s t) sm"
    "idle_thread s = Some i \<Longrightarrow> threads s i \<noteq> None" "idle_thread s = Some i \<Longrightarrow> \<not> has_status s i THREAD_DYING"
    "idle_thread s = Some i \<Longrightarrow> i \<notin> set (ready_list s)"
    "idle_thread s = Some i \<Longrightarrow> prog s i = [IdleLoop] \<or> (\<exists>sm. prog s i = [Up sm, IdleLoop])"
  using assms by (simp_all add: queues_inv_def)

lemma waits_for_unique: "waits_for p sm \<Longrightarrow> waits_for p sm' \<Longrightarrow> sm = sm'"
  by (auto simp: waits_for_def split: list.splits instr.splits)

lemma has_status_simps [simp]:
  "has_status (set_status s t st) u st' = (if u = t then threads s t \<noteq> None \<and> st' = st else has_status s u st')"
  "has_status (set_prog s t p) = has_status s" "has_status (set_sema s sm x) = has_status s"
  by (auto simp: has_status_def set_status_def set_prog_def set_sema_def fun_eq_iff split: option.splits)

lemma has_status_threads: "has_status (s\<lparr>threads := f\<rparr>) t st \<longleftrightarrow> (case f t of None \<Rightarrow> False | Some x \<Rightarrow> status x = st)"
  by (simp add: has_status_def)

lemma has_status_other [simp]:
  "has_status (s\<lparr>ready_list := a\<rparr>) = has_status s" "has_status (s\<lparr>running := b\<rparr>) = has_status s"
  "has_status (s\<lparr>thread_ticks := c\<rparr>) = has_status s" "has_status (s\<lparr>intr_on := d\<rparr>) = has_status s"
  "has_status (s\<lparr>holder := e\<rparr>) = has_status s" "has_status (s\<lparr>conds := f\<rparr>) = has_status s"
  "has_status (s\<lparr>idle_thread := g\<rparr>) = has_status s" "has_status (s\<lparr>prog := h\<rparr>) = has_status s"
  "has_status (s\<lparr>semas := i\<rparr>) = has_status s"
  by (auto simp: has_status_def fun_eq_iff)

lemma has_status_exists: "has_status s t st \<Longrightarrow> threads s t \<noteq> None"
  by (auto simp: has_status_def split: option.splits)

lemma has_status_unique: "has_status s t st \<Longrightarrow> has_status s t st' \<Longrightarrow> st = st'"
  by (auto simp: has_status_def split: option.splits)

lemma thread_current_inv [simp]: "sched_inv s \<Longrightarrow> thread_current s = Inr (running s)"
  using has_status_exists [of s "running s"]
  by (auto simp: thread_current_def sched_inv_def queues_inv_def is_thread_def has_status_def split: option.splits)

lemma lock_held_inv [simp]: "sched_inv s \<Longrightarrow> lock_held_by_current_thread s l = Inr (holder s l = Some (running s))"
  by (simp add: lock_held_by_current_thread_def)

lemma sched_fields [simp]:
  "threads (set_status s t st) = (threads s)(t := map_option (\<lambda>x. x\<lparr>status := st\<rparr>) (threads s t))"
  "ready_list (set_status s t st) = ready_list s" "running (set_status s t st) = running s"
  "idle_thread (set_status s t st) = idle_thread s" "initial_thread (set_status s t st) = initial_thread s"
  "semas (set_status s t st) = semas s" "holder (set_status s t st) = holder s" "conds (set_status s t st) = conds s"
  "intr_on (set_status s t st) = intr_on s" "prog (set_status s t st) = prog s"
  "threads (set_prog s t p) = threads s" "ready_list (set_prog s t p) = ready_list s" "running (set_prog s t p) = running s"
  "idle_thread (set_prog s t p) = idle_thread s" "initial_thread (set_prog s t p) = initial_thread s"
  "semas (set_prog s t p) = semas s" "holder (set_prog s t p) = holder s" "conds (set_prog s t p) = conds s"
  "intr_on (set_prog s t p) = intr_on s" "prog (set_prog s t p) = (prog s)(t := p)"
  "threads (set_sema s sm x) = threads s" "ready_list (set_sema s sm x) = ready_list s" "running (set_sema s sm x) = running s"
  "idle_thread (set_sema s sm x) = idle_thread s" "initial_thread (set_sema s sm x) = initial_thread s"
  "semas (set_sema s sm x) = (semas s)(sm := x)" "holder (set_sema s sm x) = holder s" "conds (set_sema s sm x) = conds s"
  "intr_on (set_sema s sm x) = intr_on s" "prog (set_sema s sm x) = prog s"
  by (simp_all add: set_status_def set_prog_def set_sema_def)

section \<open>Switching\<close>

text \<open>What a switch does to the threads: the next one runs, the previous one is freed if it was dying.\<close>

definition switched :: "sched \<Rightarrow> addr \<Rightarrow> addr \<rightharpoonup> thread" where
  "switched s nt = (\<lambda>t. if t = nt then map_option (\<lambda>x. x\<lparr>status := THREAD_RUNNING\<rparr>) (threads s t)
     else if t = running s \<and> has_status s t THREAD_DYING \<and> t \<noteq> initial_thread s then None else threads s t)"

lemma schedule_result:
  assumes "schedule s = Inr s'"
  obtains nt where "s' = s\<lparr>ready_list := tl (ready_list s), running := nt, thread_ticks := 0, threads := switched s nt\<rparr>"
    "threads s nt \<noteq> None" "ready_list s \<noteq> [] \<Longrightarrow> nt = hd (ready_list s)" "ready_list s = [] \<Longrightarrow> idle_thread s = Some nt"
    "\<not> intr_on s" "nt = running s \<Longrightarrow> \<not> has_status s nt THREAD_RUNNING"
proof -
  obtain s1 nx where n: "next_thread_to_run s = (s1, nx)" by fastforce
  then have s1: "s1 = s\<lparr>ready_list := tl (ready_list s)\<rparr>" "ready_list s \<noteq> [] \<Longrightarrow> nx = Some (hd (ready_list s))"
      "ready_list s = [] \<Longrightarrow> nx = idle_thread s"
    by (auto simp: next_thread_to_run_def split: list.splits)
  from assms n obtain nt where nx: "nx = Some nt" "is_thread s1 (Some nt)" "\<not> intr_on s1"
      "\<not> has_status s1 (running s1) THREAD_RUNNING"
    by (cases nx) (auto simp: schedule_def is_thread_def)
  have th: "threads s nt \<noteq> None" using nx(2) s1(1) by (auto simp: is_thread_def split: option.splits)
  have "s' = s\<lparr>ready_list := tl (ready_list s), running := nt, thread_ticks := 0, threads := switched s nt\<rparr>"
  proof (cases "running s = nt")
    case True
    then have "threads s' = switched s nt"
      using assms n nx s1(1) by (auto simp: schedule_def schedule_tail_def switched_def Let_def has_status_def)
    with True show ?thesis
      using assms n nx s1(1) by (auto simp: schedule_def schedule_tail_def Let_def set_status_def)
  next
    case False
    then show ?thesis
      using assms n nx s1(1) th
      by (auto simp: schedule_def schedule_tail_def switched_def Let_def set_status_def has_status_def fun_eq_iff
          split: if_splits option.splits)
  qed
  with that th s1 nx show ?thesis by auto
qed

definition unlisted :: "sched \<Rightarrow> addr \<Rightarrow> bool" where
  "unlisted s t \<longleftrightarrow> t \<notin> set (ready_list s) \<and> (\<forall>sm. t \<notin> set (sem_waiters (semas s sm)))"

lemma idle_unlisted: "queues_inv s \<Longrightarrow> idle_thread s = Some i \<Longrightarrow> unlisted s i"
  by (fastforce simp: queues_inv_def unlisted_def waits_for_def)

lemma running_unlisted: "queues_inv s \<Longrightarrow> has_status s t st \<Longrightarrow> st \<noteq> THREAD_READY \<Longrightarrow> st \<noteq> THREAD_BLOCKED \<Longrightarrow> unlisted s t"
  using has_status_unique by (fastforce simp: queues_inv_def unlisted_def)

lemma ready_not_waiting: "queues_inv s \<Longrightarrow> t \<in> set (ready_list s) \<Longrightarrow> t \<notin> set (sem_waiters (semas s sm))"
  using has_status_unique by (fastforce simp: queues_inv_def)

lemma queues_status:
  assumes "queues_inv s" "unlisted s t" "st = THREAD_DYING \<Longrightarrow> idle_thread s \<noteq> Some t"
  shows "queues_inv (set_status s t st)"
  using assms by (auto simp: queues_inv_def unlisted_def split: if_splits)

lemma queues_push_ready:
  assumes "queues_inv s" "unlisted s t" "idle_thread s \<noteq> Some t" "threads s t \<noteq> None"
  shows "queues_inv (set_status (s\<lparr>ready_list := ready_list s @ [t]\<rparr>) t THREAD_READY)"
proof -
  have "unlisted s t \<Longrightarrow> u \<in> set (ready_list s) \<Longrightarrow> u \<noteq> t" for u by (auto simp: unlisted_def)
  moreover have "unlisted s t \<Longrightarrow> u \<in> set (sem_waiters (semas s sm)) \<Longrightarrow> u \<noteq> t" for u sm by (auto simp: unlisted_def)
  ultimately show ?thesis
    using assms by (auto simp: queues_inv_def unlisted_def split: if_splits)
qed

lemma queues_push_waiter:
  assumes "queues_inv s" "unlisted s t" "threads s t \<noteq> None" "waits_for (prog s t) sm"
  shows "queues_inv (set_status (set_sema s sm ((semas s sm)\<lparr>sem_waiters := sem_waiters (semas s sm) @ [t]\<rparr>)) t THREAD_BLOCKED)"
proof -
  have "unlisted s t \<Longrightarrow> u \<in> set (ready_list s) \<Longrightarrow> u \<noteq> t" for u by (auto simp: unlisted_def)
  moreover have "unlisted s t \<Longrightarrow> u \<in> set (sem_waiters (semas s sm)) \<Longrightarrow> u \<noteq> t" for u sm by (auto simp: unlisted_def)
  ultimately show ?thesis
    using assms by (auto simp: queues_inv_def unlisted_def split: if_splits)
qed

lemma transit_status:
  assumes "sched_inv s0" "queues_inv (set_status s (running s0) st)" "st \<noteq> THREAD_RUNNING" "has_status s = has_status s0"
  shows "transit (set_status s (running s0) st)"
  using assms by (auto simp: transit_def sched_inv_def)

lemma schedule_inv:
  assumes "transit s" "schedule s = Inr s'"
  shows "sched_inv s'"
proof -
  from assms(2) obtain nt where s': "s' = s\<lparr>ready_list := tl (ready_list s), running := nt, thread_ticks := 0, threads := switched s nt\<rparr>"
    "threads s nt \<noteq> None" "ready_list s \<noteq> [] \<Longrightarrow> nt = hd (ready_list s)" "ready_list s = [] \<Longrightarrow> idle_thread s = Some nt"
    by (rule schedule_result) auto
  have q: "queues_inv s" and nr: "\<forall>t. \<not> has_status s t THREAD_RUNNING" using assms(1) by (auto simp: transit_def)
  have st: "has_status s' t st \<longleftrightarrow> (if t = nt then st = THREAD_RUNNING
      else has_status s t st \<and> \<not> (t = running s \<and> has_status s t THREAD_DYING \<and> t \<noteq> initial_thread s))" for t st
    using s'(2) unfolding s'(1) by (auto simp: has_status_def switched_def split: option.splits)
  have nw: "nt \<notin> set (sem_waiters (semas s sm))" for sm
    using s'(3,4) ready_not_waiting [OF q, of nt] idle_unlisted [OF q, of nt]
    by (cases "ready_list s") (auto simp: unlisted_def)
  have nl: "nt \<notin> set (tl (ready_list s))"
    using q s'(3,4) by (cases "ready_list s") (auto simp: queues_inv_def)
  have same: "ready_list s' = tl (ready_list s)" "semas s' = semas s" "prog s' = prog s" "idle_thread s' = idle_thread s"
      "running s' = nt"
    unfolding s'(1) by simp_all
  have "queues_inv s'"
    unfolding queues_inv_def same
  proof (intro conjI allI ballI impI)
    fix t x
    assume "threads s' t = Some x"
    then show "t_magic x = THREAD_MAGIC"
      using q unfolding s'(1) by (auto simp: switched_def queues_inv_def split: if_splits)
  next
    show "distinct (tl (ready_list s))" using q by (simp add: queues_inv_def distinct_tl)
  next
    fix t
    assume t: "t \<in> set (tl (ready_list s))"
    then have "has_status s t THREAD_READY" using q by (auto simp: queues_inv_def dest: in_set_tlD)
    with nl t has_status_unique [of s t] show "has_status s' t THREAD_READY" unfolding st by auto
  next
    fix sm t
    assume t: "t \<in> set (sem_waiters (semas s sm))"
    then have "has_status s t THREAD_BLOCKED" using q by (auto simp: queues_inv_def)
    with nw t has_status_unique [of s t] show "has_status s' t THREAD_BLOCKED" unfolding st by auto
    show "waits_for (prog s t) sm" using q t by (auto simp: queues_inv_def)
  next
    fix i
    assume i: "idle_thread s = Some i"
    show "threads s' i \<noteq> None" using q i s'(2) unfolding s'(1) by (auto simp: switched_def queues_inv_def)
    show "\<not> has_status s' i THREAD_DYING" using q i unfolding st by (auto simp: queues_inv_def)
    show "i \<notin> set (tl (ready_list s))" using q i by (auto simp: queues_inv_def dest: in_set_tlD)
  qed (use q in \<open>auto simp: queues_inv_def\<close>)
  moreover have "has_status s' t THREAD_RUNNING \<longleftrightarrow> t = nt" for t using nr unfolding st by auto
  ultimately show ?thesis using same(5) by (simp add: sched_inv_def)
qed

section \<open>Operations keep the queues\<close>

lemma queues_inv_other [simp]:
  "queues_inv (s\<lparr>intr_on := a\<rparr>) = queues_inv s" "queues_inv (s\<lparr>holder := b\<rparr>) = queues_inv s"
  "queues_inv (s\<lparr>conds := c\<rparr>) = queues_inv s" "queues_inv (s\<lparr>thread_ticks := d\<rparr>) = queues_inv s"
  by (auto simp: queues_inv_def)

lemma sched_inv_other [simp]:
  "sched_inv (s\<lparr>intr_on := a\<rparr>) = sched_inv s" "sched_inv (s\<lparr>holder := b\<rparr>) = sched_inv s"
  "sched_inv (s\<lparr>conds := c\<rparr>) = sched_inv s" "sched_inv (resume_level s) = sched_inv s"
  by (auto simp: sched_inv_def resume_level_def)

lemma unlisted_running: "sched_inv s \<Longrightarrow> unlisted s (running s)"
  by (rule running_unlisted [of s _ THREAD_RUNNING]) (auto simp: sched_inv_def)

lemma running_exists: "sched_inv s \<Longrightarrow> threads s (running s) \<noteq> None"
  by (rule has_status_exists [of _ _ THREAD_RUNNING]) (auto simp: sched_inv_def)

lemma sched_inv_intr_current: "sched_inv s \<Longrightarrow> thread_current (s\<lparr>intr_on := b\<rparr>) = Inr (running s)"
  using thread_current_inv [of "s\<lparr>intr_on := b\<rparr>"] by simp

lemma thread_yield_inv:
  assumes "sched_inv s" "thread_yield s = Inr s'"
  shows "sched_inv s'"
proof -
  let ?t = "running s"
  let ?s1 = "s\<lparr>intr_on := False\<rparr>"
  let ?s2 = "if Some ?t \<noteq> idle_thread s then ?s1\<lparr>ready_list := ready_list s @ [?t]\<rparr> else ?s1"
  obtain s3 where s3: "schedule (set_status ?s2 ?t THREAD_READY) = Inr s3" "s' = resume_level s3"
    using assms by (auto simp: thread_yield_def Let_def cong: if_cong)
  have q: "queues_inv ?s1" and u: "unlisted ?s1 ?t" and e: "threads ?s1 ?t \<noteq> None"
    using assms(1) unlisted_running [OF assms(1)] running_exists [OF assms(1)]
    by (simp_all add: sched_inv_def unlisted_def)
  have "queues_inv (set_status ?s2 ?t THREAD_READY)"
    using queues_push_ready [OF q u _ e] queues_status [OF q u, of THREAD_READY] by auto
  then have "transit (set_status ?s2 ?t THREAD_READY)" by (rule transit_status [OF assms(1)]) (auto split: if_splits)
  from schedule_inv [OF this s3(1)] s3(2) show ?thesis by simp
qed

lemma thread_exit_inv:
  assumes "sched_inv s" "thread_exit s = Inr s'" "idle_thread s \<noteq> Some (running s)"
  shows "sched_inv s'"
proof -
  let ?t = "running s" and ?s1 = "s\<lparr>intr_on := False\<rparr>"
  obtain s3 where s3: "schedule (set_status ?s1 ?t THREAD_DYING) = Inr s3" "s' = resume_level s3"
    using assms by (auto simp: thread_exit_def)
  have q: "queues_inv ?s1" and u: "unlisted ?s1 ?t"
    using assms(1) unlisted_running [OF assms(1)] by (simp_all add: sched_inv_def unlisted_def)
  have "queues_inv (set_status ?s1 ?t THREAD_DYING)" by (rule queues_status [OF q u]) (use assms(3) in simp)
  then have "transit (set_status ?s1 ?t THREAD_DYING)" by (rule transit_status [OF assms(1)]) auto
  from schedule_inv [OF this s3(1)] s3(2) show ?thesis by simp
qed

text \<open>Blocking, on a semaphore or in \<open>idle\<close>.\<close>

lemma thread_block_inv:
  assumes "sched_inv s" "queues_inv (set_status s1 (running s) THREAD_BLOCKED)" "has_status s1 = has_status s"
    and "running s1 = running s" "threads s1 = threads s" "thread_block s1 = Inr s'"
  shows "sched_inv s'"
proof -
  have "thread_current s1 = Inr (running s)"
    using thread_current_inv [OF assms(1)] assms(3-5) by (simp add: thread_current_def is_thread_def)
  then obtain s3 where s3: "schedule (set_status s1 (running s) THREAD_BLOCKED) = Inr s3" "s' = resume_level s3"
    using assms(6) by (auto simp: thread_block_def)
  have "transit (set_status s1 (running s) THREAD_BLOCKED)" by (rule transit_status [OF assms(1,2) _ assms(3)]) simp
  from schedule_inv [OF this s3(1)] s3(2) show ?thesis by simp
qed

lemma idle_block_inv:
  assumes "sched_inv s" "thread_block (s\<lparr>intr_on := False\<rparr>) = Inr s'"
  shows "sched_inv s'"
proof (rule thread_block_inv [OF assms(1) _ _ _ _ assms(2)])
  have "unlisted (s\<lparr>intr_on := False\<rparr>) (running s)" using unlisted_running [OF assms(1)] by (simp add: unlisted_def)
  then show "queues_inv (set_status (s\<lparr>intr_on := False\<rparr>) (running s) THREAD_BLOCKED)"
    by (intro queues_status) (use assms(1) in \<open>auto simp: sched_inv_def\<close>)
qed simp_all

lemma queues_sema_value:
  assumes "queues_inv s" "sem_waiters x = sem_waiters (semas s sm)"
  shows "queues_inv (set_sema s sm x)"
  using assms by (auto simp: queues_inv_def)

lemma sched_sema_value:
  assumes "sched_inv s" "sem_waiters x = sem_waiters (semas s sm)"
  shows "sched_inv (set_sema s sm x)"
  using assms queues_sema_value by (auto simp: sched_inv_def)

lemma sema_down_inv:
  assumes "sched_inv s" "waits_for (prog s (running s)) sm" "sema_down s sm = Inr (s', through)"
  shows "sched_inv s'"
proof (cases "sem_value (semas s sm) = 0")
  case False
  have "sched_inv (set_sema s sm ((semas s sm)\<lparr>sem_value := sem_value (semas s sm) - 1\<rparr>))"
    by (rule sched_sema_value [OF assms(1)]) simp
  moreover have "s' = (set_sema (s\<lparr>intr_on := False\<rparr>) sm ((semas s sm)\<lparr>sem_value := sem_value (semas s sm) - 1\<rparr>))\<lparr>intr_on := True\<rparr>"
    using False assms(3) by (auto simp: sema_down_def Let_def)
  ultimately show ?thesis by (simp add: set_sema_def)
next
  case True
  let ?s1 = "s\<lparr>intr_on := False\<rparr>"
  let ?s2 = "set_sema ?s1 sm ((semas ?s1 sm)\<lparr>sem_waiters := sem_waiters (semas ?s1 sm) @ [running s]\<rparr>)"
  have b: "thread_block ?s2 = Inr s'"
    using True assms(3) sched_inv_intr_current [OF assms(1)] by (auto simp: sema_down_def Let_def)
  show ?thesis
  proof (rule thread_block_inv [OF assms(1) _ _ _ _ b])
    have "unlisted ?s1 (running s)" using unlisted_running [OF assms(1)] by (simp add: unlisted_def)
    then show "queues_inv (set_status ?s2 (running s) THREAD_BLOCKED)"
      by (intro queues_push_waiter) (use assms(1,2) running_exists [OF assms(1)] in \<open>auto simp: sched_inv_def\<close>)
  qed simp_all
qed

lemma queues_pop_waiter:
  assumes "queues_inv s" "sem_waiters (semas s sm) = t # ts"
  shows "queues_inv (set_sema s sm ((semas s sm)\<lparr>sem_waiters := ts\<rparr>))"
    "unlisted (set_sema s sm ((semas s sm)\<lparr>sem_waiters := ts\<rparr>)) t"
    "has_status s t THREAD_BLOCKED" "idle_thread s \<noteq> Some t"
proof -
  have w: "distinct (t # ts)" "\<And>u. u \<in> set (t # ts) \<Longrightarrow> has_status s u THREAD_BLOCKED \<and> waits_for (prog s u) sm"
    using queuesD(4) [OF assms(1), of sm] queuesD(5,6) [OF assms(1), where sm = sm] assms(2) by auto
  show "queues_inv (set_sema s sm ((semas s sm)\<lparr>sem_waiters := ts\<rparr>))"
    using assms(1) w by (simp add: queues_inv_def)
  show b: "has_status s t THREAD_BLOCKED" using w(2) by simp
  have "t \<notin> set (ready_list s)"
  proof
    assume "t \<in> set (ready_list s)"
    from has_status_unique [OF queuesD(3) [OF assms(1) this] b] show False by simp
  qed
  moreover have "t \<notin> set (sem_waiters (semas s sm'))" if "sm' \<noteq> sm" for sm'
  proof
    assume "t \<in> set (sem_waiters (semas s sm'))"
    from waits_for_unique [OF queuesD(6) [OF assms(1) this], of sm] w(2) that show False by simp
  qed
  ultimately show "unlisted (set_sema s sm ((semas s sm)\<lparr>sem_waiters := ts\<rparr>)) t"
    using w(1) by (simp add: unlisted_def)
  show "idle_thread s \<noteq> Some t"
    using idle_unlisted [OF assms(1), of t] assms(2) by (metis list.set_intros(1) unlisted_def)
qed

lemma sema_up_inv:
  assumes "sched_inv s"
  shows "\<exists>s'. sema_up s sm = Inr s' \<and> sched_inv s' \<and> running s' = running s \<and> prog s' = prog s \<and> holder s' = holder s
    \<and> conds s' = conds s \<and> idle_thread s' = idle_thread s \<and> dom (threads s') = dom (threads s)
    \<and> (\<forall>sm'. sem_value (semas s' sm') = (if sm' = sm then size_wrap (sem_value (semas s sm) + 1) else sem_value (semas s sm')))
    \<and> (\<forall>t. has_status s t THREAD_BLOCKED \<and> (\<forall>sm. \<not> waits_for (prog s t) sm) \<longrightarrow> has_status s' t THREAD_BLOCKED)"
proof (cases "sem_waiters (semas s sm)")
  case Nil
  with sched_sema_value [OF assms, of _ sm] show ?thesis by (auto simp: sema_up_def)
next
  case (Cons t ts)
  let ?s1 = "set_sema s sm ((semas s sm)\<lparr>sem_waiters := ts\<rparr>)"
  have q: "queues_inv s" using assms by (simp add: sched_inv_def)
  note p = queues_pop_waiter [OF q Cons]
  let ?s2 = "set_status (?s1\<lparr>ready_list := ready_list ?s1 @ [t]\<rparr>) t THREAD_READY"
  have e: "threads s t \<noteq> None" using p(3) by (rule has_status_exists)
  then have "is_thread ?s1 (Some t)" using q by (auto simp: is_thread_def queues_inv_def split: option.splits)
  then have ub: "thread_unblock ?s1 t = Inr ?s2" using p(3) by (simp add: thread_unblock_def)
  have "queues_inv ?s2" by (rule queues_push_ready [OF p(1,2)]) (use p(4) e in auto)
  moreover have ntr: "t \<noteq> running s" using p(3) assms has_status_unique by (fastforce simp: sched_inv_def)
  ultimately have inv2: "sched_inv ?s2" using assms by (auto simp: sched_inv_def)
  let ?s3 = "set_sema ?s2 sm ((semas ?s2 sm)\<lparr>sem_value := size_wrap (sem_value (semas ?s2 sm) + 1)\<rparr>)"
  have "sema_up s sm = Inr ?s3" using Cons ub by (simp add: sema_up_def)
  moreover have "sched_inv ?s3" by (rule sched_sema_value [OF inv2]) simp
  moreover have "waits_for (prog s t) sm" using q Cons by (auto simp: queues_inv_def)
  moreover have "dom (threads ?s3) = dom (threads s)" using e by (auto simp: dom_def)
  ultimately show ?thesis by (intro exI [of _ ?s3]) auto
qed

end
