(* ===== verification/Sched_Mutex.thy ===== *)
theory Sched_Mutex
  imports Sched_Inv
begin

text \<open>
  The programs of the threads and the owners of the locks: the invariant \<open>kernel_inv\<close>, which
  adds them to the queues of \<open>Sched_Inv\<close>, and that each operation of \<open>thread.c\<close> and \<open>synch.c\<close>
  keeps it.
\<close>

section \<open>Programs\<close>

fun phase_instr :: "instr \<Rightarrow> bool" where
  "phase_instr (AcquireDown _) = True"
| "phase_instr (AcquireHold _) = True"
| "phase_instr (ReleaseUp _) = True"
| "phase_instr _ = False"

fun inner_instr :: "instr \<Rightarrow> bool" where
  "inner_instr (TakeTid _) = True"
| "inner_instr (StartThread _) = True"
| "inner_instr IdleLoop = True"
| "inner_instr i = client_instr i"

text \<open>
  The phases of an operation are only ever at the head of a program, condition variables
  queue no lock's semaphore, threads that were freed ended with \<open>Exit\<close>, and a thread that is
  being created is blocked, has not run, and is started by one instruction only.
\<close>

definition prog_inv :: "sched \<Rightarrow> bool" where
  "prog_inv s \<longleftrightarrow>
     (\<forall>t i p. prog s t = i # p \<longrightarrow> (phase_instr i \<or> inner_instr i) \<and> (\<forall>j\<in>set p. inner_instr j))
   \<and> (\<forall>c. \<forall>w\<in>set (conds s c). \<forall>l. w \<noteq> LockSema l)
   \<and> (\<forall>t. threads s t = None \<longrightarrow> prog s t = [] \<or> hd (prog s t) = Exit)
   \<and> (\<forall>u t. StartThread t \<in> set (prog s u) \<longrightarrow> has_status s t THREAD_BLOCKED \<and> prog s t = []
        \<and> count_list (prog s u) (StartThread t) = 1 \<and> (\<forall>v. StartThread t \<in> set (prog s v) \<longrightarrow> v = u))"

definition owner :: "sched \<Rightarrow> addr \<Rightarrow> addr \<Rightarrow> bool" where
  "owner s l t \<longleftrightarrow> holder s l = Some t \<or> (\<exists>p. prog s t = AcquireHold l # p) \<or> (\<exists>p. prog s t = ReleaseUp l # p)"

definition in_phase :: "sched \<Rightarrow> addr \<Rightarrow> addr \<Rightarrow> bool" where
  "in_phase s l t \<longleftrightarrow> (\<exists>p. prog s t = AcquireHold l # p) \<or> (\<exists>p. prog s t = ReleaseUp l # p)"

text \<open>
  At most one thread owns a lock, from the moment it got through its semaphore to the moment
  it ups it, and the value of the semaphore says whether one does.
\<close>

definition mutex_inv :: "sched \<Rightarrow> bool" where
  "mutex_inv s \<longleftrightarrow> (\<forall>l. (\<forall>t u. owner s l t \<and> owner s l u \<longrightarrow> t = u)
     \<and> (\<forall>t. in_phase s l t \<longrightarrow> holder s l = None)
     \<and> sem_value (semas s (LockSema l)) = (if \<exists>t. owner s l t then 0 else 1))"

definition kernel_inv :: "sched \<Rightarrow> bool" where
  "kernel_inv s \<longleftrightarrow> sched_inv s \<and> prog_inv s \<and> mutex_inv s"

lemma owner_alt: "owner s l t \<longleftrightarrow> holder s l = Some t \<or> in_phase s l t"
  by (simp add: owner_def in_phase_def)

lemma owner_cong: "holder s' = holder s \<Longrightarrow> prog s' = prog s \<Longrightarrow> owner s' = owner s \<and> in_phase s' = in_phase s"
  by (simp add: fun_eq_iff owner_def in_phase_def)

lemma mutex_cong:
  assumes "holder s' = holder s" "prog s' = prog s" "\<And>l. sem_value (semas s' (LockSema l)) = sem_value (semas s (LockSema l))"
  shows "mutex_inv s' = mutex_inv s"
  using owner_cong [OF assms(1,2)] assms by (simp add: mutex_inv_def)

text \<open>Replacing a program whose head is no phase by another such program.\<close>

lemma mutex_prog:
  assumes "mutex_inv s" "\<And>l. \<not> in_phase s l t" "p = [] \<or> \<not> phase_instr (hd p)"
  shows "mutex_inv (set_prog s t p)"
proof -
  have "in_phase (set_prog s t p) = in_phase s"
    using assms(2,3) by (cases p) (auto simp: fun_eq_iff in_phase_def)
  moreover from this have "owner (set_prog s t p) = owner s"
    by (simp add: fun_eq_iff owner_def in_phase_def)
  ultimately show ?thesis using assms(1) by (simp add: mutex_inv_def)
qed

lemma prog_head:
  assumes "prog_inv s" "prog s t = i # p"
  shows "phase_instr i \<or> inner_instr i" "\<And>j. j \<in> set p \<Longrightarrow> inner_instr j" "p = [] \<or> \<not> phase_instr (hd p)"
proof -
  show "phase_instr i \<or> inner_instr i" and j: "\<And>j. j \<in> set p \<Longrightarrow> inner_instr j"
    using assms by (auto simp: prog_inv_def)
  have "inner_instr k \<Longrightarrow> \<not> phase_instr k" for k by (cases k) auto
  with j show "p = [] \<or> \<not> phase_instr (hd p)" by (cases p) auto
qed

lemma not_in_phase: "prog s t = i # p \<Longrightarrow> \<not> phase_instr i \<Longrightarrow> \<not> in_phase s l t"
  by (auto simp: in_phase_def)

lemma pendingD:
  assumes "prog_inv s" "StartThread t \<in> set (prog s u)"
  shows "has_status s t THREAD_BLOCKED" "prog s t = []" "count_list (prog s u) (StartThread t) = 1"
    "\<And>v. StartThread t \<in> set (prog s v) \<Longrightarrow> v = u"
  using assms by (auto simp: prog_inv_def)

text \<open>Replacing a program by one that starts no thread the old one does not.\<close>

lemma prog_inv_prog:
  assumes "prog_inv s" "prog s t \<noteq> []" "threads s t \<noteq> None"
    and "\<And>i q. p = i # q \<Longrightarrow> (phase_instr i \<or> inner_instr i) \<and> (\<forall>j\<in>set q. inner_instr j)"
    and "\<And>u. StartThread u \<in> set p \<Longrightarrow> StartThread u \<in> set (prog s t) \<and> count_list p (StartThread u) = 1"
  shows "prog_inv (set_prog s t p)"
  unfolding prog_inv_def
proof (intro conjI allI ballI impI)
  fix u i q
  assume "prog (set_prog s t p) u = i # q"
  then show "(phase_instr i \<or> inner_instr i)" "\<And>j. j \<in> set q \<Longrightarrow> inner_instr j"
    using assms(1,4) by (auto simp: prog_inv_def split: if_splits)
next
  fix u
  assume "threads (set_prog s t p) u = None"
  then show "prog (set_prog s t p) u = [] \<or> hd (prog (set_prog s t p) u) = Exit"
    using assms(1,3) by (auto simp: prog_inv_def)
next
  fix u w
  assume "StartThread w \<in> set (prog (set_prog s t p) u)"
  then have w: "StartThread w \<in> set (prog s u)" "u = t \<Longrightarrow> StartThread w \<in> set p" using assms(5) by (auto split: if_splits)
  note d = pendingD [OF assms(1) w(1)]
  show "has_status (set_prog s t p) w THREAD_BLOCKED" using d by simp
  show "prog (set_prog s t p) w = []" using d(2) assms(2) by auto
  show "count_list (prog (set_prog s t p) u) (StartThread w) = 1" using d(3) w(2) assms(5) by auto
  fix v
  assume "StartThread w \<in> set (prog (set_prog s t p) v)"
  then have "StartThread w \<in> set (prog s v)" using assms(5) by (auto split: if_splits)
  then show "v = u" by (rule d(4))
qed (use assms(1) in \<open>auto simp: prog_inv_def\<close>)

lemma prog_inv_tail:
  assumes "prog_inv s" "prog s t = i # p" "threads s t \<noteq> None"
  shows "prog_inv (set_prog s t p)"
proof (rule prog_inv_prog [OF assms(1) _ assms(3)])
  fix u
  assume u: "StartThread u \<in> set p"
  then have "count_list p (StartThread u) \<noteq> 0" by (simp add: count_list_0_iff)
  moreover have "count_list (i # p) (StartThread u) = 1" using pendingD(3) [OF assms(1), of u t] assms(2) u by simp
  ultimately have "count_list p (StartThread u) = 1" by (simp split: if_splits)
  with u show "StartThread u \<in> set (prog s t) \<and> count_list p (StartThread u) = 1" using assms(2) by simp
qed (use prog_head [OF assms(1,2)] assms(2) in auto)

lemma freedD: "prog_inv s \<Longrightarrow> threads s t = None \<Longrightarrow> prog s t = [] \<or> hd (prog s t) = Exit"
  by (simp add: prog_inv_def)

lemma prog_inv_cong:
  assumes "prog_inv s" "prog s' = prog s" "conds s' = conds s"
    and "\<And>t. has_status s t THREAD_BLOCKED \<Longrightarrow> prog s t = [] \<Longrightarrow> has_status s' t THREAD_BLOCKED"
    and "\<And>t. threads s' t = None \<Longrightarrow> threads s t = None \<or> hd (prog s t) = Exit"
  shows "prog_inv s'"
  unfolding prog_inv_def assms(2,3)
proof (intro conjI allI ballI impI)
  fix t
  assume "threads s' t = None"
  from assms(5) [OF this] freedD [OF assms(1), of t] show "prog s t = [] \<or> hd (prog s t) = Exit" by blast
next
  fix u t
  assume "StartThread t \<in> set (prog s u)"
  note d = pendingD [OF assms(1) this]
  show "has_status s' t THREAD_BLOCKED" by (rule assms(4) [OF d(1,2)])
  show "prog s t = []" "count_list (prog s u) (StartThread t) = 1" by (rule d)+
  fix v
  assume "StartThread t \<in> set (prog s v)"
  then show "v = u" by (rule d(4))
qed (use assms(1) in \<open>auto simp: prog_inv_def\<close>)

text \<open>Steps that change neither programs nor locks.\<close>

definition quiet :: "sched \<Rightarrow> sched \<Rightarrow> bool" where
  "quiet s s' \<longleftrightarrow> prog s' = prog s \<and> holder s' = holder s \<and> conds s' = conds s
     \<and> (\<forall>l. sem_value (semas s' (LockSema l)) = sem_value (semas s (LockSema l)))
     \<and> (\<forall>t. has_status s t THREAD_BLOCKED \<and> prog s t = [] \<longrightarrow> has_status s' t THREAD_BLOCKED)
     \<and> (\<forall>t. threads s' t = None \<longrightarrow> threads s t = None \<or> hd (prog s t) = Exit)"

lemma quiet_refl [simp]: "quiet s s"
  by (simp add: quiet_def)

lemma quiet_trans: "quiet s s1 \<Longrightarrow> quiet s1 s' \<Longrightarrow> quiet s s'"
  unfolding quiet_def by metis

lemma kernel_quiet:
  assumes "kernel_inv s" "quiet s s'" "sched_inv s'"
  shows "kernel_inv s'"
proof -
  have "prog_inv s'" by (rule prog_inv_cong [of s]) (use assms in \<open>auto simp: kernel_inv_def quiet_def\<close>)
  moreover have "mutex_inv s' = mutex_inv s" by (rule mutex_cong) (use assms(2) in \<open>auto simp: quiet_def\<close>)
  ultimately show ?thesis using assms by (simp add: kernel_inv_def)
qed

lemma schedule_quiet:
  assumes "transit s" "schedule s = Inr s'" "has_status s (running s) THREAD_DYING \<Longrightarrow> hd (prog s (running s)) = Exit"
  shows "quiet s (resume_level s')"
proof -
  from assms(2) obtain nt where s': "s' = s\<lparr>ready_list := tl (ready_list s), running := nt, thread_ticks := 0, threads := switched s nt\<rparr>"
    "threads s nt \<noteq> None" "ready_list s \<noteq> [] \<Longrightarrow> nt = hd (ready_list s)" "ready_list s = [] \<Longrightarrow> idle_thread s = Some nt"
    by (rule schedule_result) auto
  have q: "queues_inv s" using assms(1) by (simp add: transit_def)
  have nt: "\<not> (has_status s nt THREAD_BLOCKED \<and> prog s nt = [])"
  proof (cases "ready_list s = []")
    case True
    with queuesD(10) [OF q s'(4)] show ?thesis by auto
  next
    case False
    then have "has_status s nt THREAD_READY" using queuesD(3) [OF q, of nt] s'(3) by simp
    then show ?thesis using has_status_unique by fastforce
  qed
  have "has_status s' t THREAD_BLOCKED" if "has_status s t THREAD_BLOCKED" "prog s t = []" for t
  proof -
    have "t \<noteq> nt" "\<not> has_status s t THREAD_DYING" using nt that has_status_unique [OF that(1)] by auto
    then show ?thesis using that(1) unfolding s'(1) by (simp add: has_status_def switched_def)
  qed
  moreover have "threads s t = None \<or> hd (prog s t) = Exit" if "threads s' t = None" for t
    using that assms(3) unfolding s'(1) by (auto simp: switched_def split: if_splits)
  moreover have "prog s' = prog s" "holder s' = holder s" "conds s' = conds s" "semas s' = semas s"
    unfolding s'(1) by simp_all
  ultimately show ?thesis by (simp add: quiet_def resume_level_def)
qed

lemma status_quiet:
  assumes "sched_inv s" "has_status s1 = has_status s" "threads s1 = threads s" "prog s1 = prog s" "holder s1 = holder s"
    and "conds s1 = conds s" "\<And>l. sem_value (semas s1 (LockSema l)) = sem_value (semas s (LockSema l))"
  shows "quiet s (set_status s1 (running s) st)"
proof -
  have "has_status s t THREAD_BLOCKED \<Longrightarrow> t \<noteq> running s" for t
    using assms(1) has_status_unique by (fastforce simp: sched_inv_def)
  then show ?thesis using assms by (auto simp: quiet_def split: if_splits)
qed

lemma thread_yield_quiet:
  assumes "sched_inv s" "thread_yield s = Inr s'"
  shows "quiet s s'"
proof -
  let ?t = "running s" and ?s1 = "s\<lparr>intr_on := False\<rparr>"
  let ?s2 = "if Some ?t \<noteq> idle_thread s then ?s1\<lparr>ready_list := ready_list s @ [?t]\<rparr> else ?s1"
  let ?s3 = "set_status ?s2 ?t THREAD_READY"
  obtain s3 where s3: "schedule ?s3 = Inr s3" "s' = resume_level s3"
    using assms by (auto simp: thread_yield_def Let_def cong: if_cong)
  have q: "queues_inv ?s1" and u: "unlisted ?s1 ?t" and e: "threads ?s1 ?t \<noteq> None"
    using assms(1) unlisted_running [OF assms(1)] running_exists [OF assms(1)]
    by (simp_all add: sched_inv_def unlisted_def)
  have "queues_inv ?s3"
    using queues_push_ready [OF q u _ e] queues_status [OF q u, of THREAD_READY] by auto
  then have "transit ?s3" by (rule transit_status [OF assms(1)]) (auto split: if_splits)
  then have "quiet ?s3 s'" unfolding s3(2) by (rule schedule_quiet [OF _ s3(1)]) (auto split: if_splits)
  moreover have "quiet s ?s3" by (rule status_quiet [OF assms(1)]) auto
  ultimately show ?thesis by (rule quiet_trans [rotated])
qed

lemma thread_exit_quiet:
  assumes "sched_inv s" "thread_exit s = Inr s'" "prog s (running s) = Exit # p"
  shows "quiet s s'" "sched_inv s'"
proof -
  let ?t = "running s" and ?s1 = "s\<lparr>intr_on := False\<rparr>"
  have idle: "idle_thread s \<noteq> Some ?t"
    using queuesD(10) [of s ?t] assms(1,3) by (auto simp: sched_inv_def)
  then show "sched_inv s'" by (rule thread_exit_inv [OF assms(1,2)])
  obtain s3 where s3: "schedule (set_status ?s1 ?t THREAD_DYING) = Inr s3" "s' = resume_level s3"
    using assms by (auto simp: thread_exit_def)
  have q: "queues_inv ?s1" and u: "unlisted ?s1 ?t"
    using assms(1) unlisted_running [OF assms(1)] by (simp_all add: sched_inv_def unlisted_def)
  have "queues_inv (set_status ?s1 ?t THREAD_DYING)" by (rule queues_status [OF q u]) (use idle in simp)
  then have "transit (set_status ?s1 ?t THREAD_DYING)" by (rule transit_status [OF assms(1)]) auto
  then have "quiet (set_status ?s1 ?t THREAD_DYING) s'"
    unfolding s3(2) by (rule schedule_quiet [OF _ s3(1)]) (use assms(3) in simp)
  moreover have "quiet s (set_status ?s1 ?t THREAD_DYING)" by (rule status_quiet [OF assms(1)]) auto
  ultimately show "quiet s s'" by (rule quiet_trans [rotated])
qed

lemma thread_block_quiet:
  assumes "sched_inv s" "queues_inv (set_status s1 (running s) THREAD_BLOCKED)" "has_status s1 = has_status s"
    and "running s1 = running s" "threads s1 = threads s" "thread_block s1 = Inr s'"
    and "prog s1 = prog s" "holder s1 = holder s" "conds s1 = conds s"
    and "\<And>l. sem_value (semas s1 (LockSema l)) = sem_value (semas s (LockSema l))"
  shows "quiet s s'"
proof -
  have "thread_current s1 = Inr (running s)"
    using thread_current_inv [OF assms(1)] assms(3-5) by (simp add: thread_current_def is_thread_def)
  then obtain s3 where s3: "schedule (set_status s1 (running s) THREAD_BLOCKED) = Inr s3" "s' = resume_level s3"
    using assms(6) by (auto simp: thread_block_def)
  have "transit (set_status s1 (running s) THREAD_BLOCKED)" by (rule transit_status [OF assms(1,2) _ assms(3)]) simp
  then have "quiet (set_status s1 (running s) THREAD_BLOCKED) s'"
    unfolding s3(2) by (rule schedule_quiet [OF _ s3(1)]) (use assms(4) in simp)
  moreover have "quiet s (set_status s1 (running s) THREAD_BLOCKED)"
    by (rule status_quiet [OF assms(1,3,5,7-10)])
  ultimately show ?thesis by (rule quiet_trans [rotated])
qed

lemma sema_down_blocked:
  assumes "sched_inv s" "waits_for (prog s (running s)) sm" "sema_down s sm = Inr (s', False)"
  shows "quiet s s'"
proof -
  let ?s1 = "s\<lparr>intr_on := False\<rparr>"
  let ?s2 = "set_sema ?s1 sm ((semas ?s1 sm)\<lparr>sem_waiters := sem_waiters (semas ?s1 sm) @ [running s]\<rparr>)"
  have "sem_value (semas s sm) = 0" using assms(3) by (auto simp: sema_down_def Let_def split: if_splits)
  then have b: "thread_block ?s2 = Inr s'"
    using assms(3) sched_inv_intr_current [OF assms(1)] by (auto simp: sema_down_def Let_def)
  have "unlisted ?s1 (running s)" using unlisted_running [OF assms(1)] by (simp add: unlisted_def)
  then have "queues_inv (set_status ?s2 (running s) THREAD_BLOCKED)"
    by (intro queues_push_waiter) (use assms(1,2) running_exists [OF assms(1)] in \<open>auto simp: sched_inv_def\<close>)
  from thread_block_quiet [OF assms(1) this _ _ _ b] show ?thesis by simp
qed

lemma sema_down_through:
  assumes "sema_down s sm = Inr (s', True)"
  shows "s' = set_sema (s\<lparr>intr_on := True\<rparr>) sm ((semas s sm)\<lparr>sem_value := sem_value (semas s sm) - 1\<rparr>)" "0 < sem_value (semas s sm)"
  using assms by (auto simp: sema_down_def Let_def set_sema_def split: if_splits)

lemma sched_inv_prog:
  assumes "sched_inv s" "idle_thread s = Some (running s) \<Longrightarrow> p = [IdleLoop] \<or> (\<exists>sm. p = [Up sm, IdleLoop])"
  shows "sched_inv (set_prog s (running s) p)"
proof -
  have q: "queues_inv s" using assms(1) by (simp add: sched_inv_def)
  have "running s \<notin> set (sem_waiters (semas s sm))" for sm using unlisted_running [OF assms(1)] by (simp add: unlisted_def)
  then have "queues_inv (set_prog s (running s) p)"
    using q assms(2) unfolding queues_inv_def by (auto split: if_splits)
  then show ?thesis using assms(1) by (auto simp: sched_inv_def)
qed

lemma not_idle: "sched_inv s \<Longrightarrow> prog s (running s) = i # p \<Longrightarrow> i \<noteq> IdleLoop \<Longrightarrow> (\<And>sm. i \<noteq> Up sm)
  \<Longrightarrow> idle_thread s \<noteq> Some (running s)"
  using queuesD(10) [of s "running s"] by (auto simp: sched_inv_def)

lemma not_idle_Nil: "sched_inv s \<Longrightarrow> prog s (running s) = [] \<Longrightarrow> idle_thread s \<noteq> Some (running s)"
  using queuesD(10) [of s "running s"] by (auto simp: sched_inv_def)

text \<open>Advancing the running thread past an instruction that is no phase.\<close>

lemma kernel_advance:
  assumes "kernel_inv s" "prog s (running s) = i # p" "\<not> phase_instr i"
    and "idle_thread s = Some (running s) \<Longrightarrow> p = [IdleLoop]"
  shows "kernel_inv (set_prog s (running s) p)"
proof -
  have s: "sched_inv s" "prog_inv s" "mutex_inv s" using assms(1) by (auto simp: kernel_inv_def)
  have "sched_inv (set_prog s (running s) p)" by (rule sched_inv_prog [OF s(1)]) (use assms(4) in auto)
  moreover have "prog_inv (set_prog s (running s) p)" by (rule prog_inv_tail [OF s(2) assms(2) running_exists [OF s(1)]])
  moreover have "mutex_inv (set_prog s (running s) p)"
    by (rule mutex_prog [OF s(3) not_in_phase [OF assms(2,3)] prog_head(3) [OF s(2) assms(2)]])
  ultimately show ?thesis by (simp add: kernel_inv_def)
qed

section \<open>Lock operations\<close>

lemma prog_inv_other [simp]:
  "prog_inv (set_sema s sm x) = prog_inv s" "prog_inv (s\<lparr>holder := h\<rparr>) = prog_inv s" "prog_inv (s\<lparr>intr_on := b\<rparr>) = prog_inv s"
  by (simp_all add: prog_inv_def)

lemma mutexD:
  assumes "mutex_inv s"
  shows "owner s l t \<Longrightarrow> owner s l u \<Longrightarrow> t = u" "in_phase s l t \<Longrightarrow> holder s l = None"
    "sem_value (semas s (LockSema l)) = (if \<exists>t. owner s l t then 0 else 1)"
  using assms by (auto simp: mutex_inv_def)

lemma mutex_acquire:
  assumes "mutex_inv s" "\<And>l'. \<not> in_phase s l' t" "0 < sem_value (semas s (LockSema l))"
    and "sem_value x = sem_value (semas s (LockSema l)) - 1"
  shows "mutex_inv (set_prog (set_sema s (LockSema l) x) t (AcquireHold l # p))" (is "mutex_inv ?s")
proof -
  have free: "\<not> owner s l u" for u using assms(3) mutexD(3) [OF assms(1), of l] by (auto split: if_splits)
  have ph: "in_phase ?s l' u \<longleftrightarrow> in_phase s l' u \<or> (l' = l \<and> u = t)" for l' u
    using assms(2) by (auto simp: in_phase_def)
  have ow: "owner ?s l' u \<longleftrightarrow> owner s l' u \<or> (l' = l \<and> u = t)" for l' u
    using ph [of l' u] by (auto simp: owner_def in_phase_def)
  show ?thesis
    unfolding mutex_inv_def ow ph
  proof (intro allI conjI impI)
    fix l' u v
    assume "(owner s l' u \<or> l' = l \<and> u = t) \<and> (owner s l' v \<or> l' = l \<and> v = t)"
    then show "u = v" using free mutexD(1) [OF assms(1)] by blast
  next
    fix l' u
    assume "in_phase s l' u \<or> l' = l \<and> u = t"
    moreover have "holder s l = None" by (cases "holder s l") (use free in \<open>auto simp: owner_def\<close>)
    ultimately show "holder ?s l' = None" using mutexD(2) [OF assms(1)] by auto
  next
    fix l'
    show "sem_value (semas ?s (LockSema l')) = (if \<exists>u. owner s l' u \<or> l' = l \<and> u = t then 0 else 1)"
      using assms(4) free mutexD(3) [OF assms(1), of l'] mutexD(3) [OF assms(1), of l] by auto
  qed
qed

lemma kernel_acquire:
  assumes "kernel_inv s" "prog s (running s) = i # p" "i = AcquireDown l \<or> i = LockTryAcquire l" "0 < sem_value (semas s (LockSema l))"
  shows "kernel_inv (set_prog (set_sema s (LockSema l) ((semas s (LockSema l))\<lparr>sem_value := sem_value (semas s (LockSema l)) - 1\<rparr>))
    (running s) (AcquireHold l # p))" (is "kernel_inv (set_prog ?s _ _)")
proof -
  have s: "sched_inv s" "prog_inv s" "mutex_inv s" using assms(1) by (auto simp: kernel_inv_def)
  have "sched_inv ?s" by (rule sched_sema_value [OF s(1)]) simp
  then have "sched_inv (set_prog ?s (running ?s) (AcquireHold l # p))"
    by (rule sched_inv_prog) (use not_idle [OF s(1) assms(2)] assms(3) in auto)
  moreover have "prog_inv (set_prog ?s (running s) (AcquireHold l # p))"
  proof (rule prog_inv_prog)
    fix u
    assume "StartThread u \<in> set (AcquireHold l # p)"
    with pendingD(3) [OF s(2), of u "running s"] assms(2,3)
    show "StartThread u \<in> set (prog ?s (running s)) \<and> count_list (AcquireHold l # p) (StartThread u) = 1" by auto
  qed (use s(2) assms(2) running_exists [OF s(1)] prog_head(2) [OF s(2) assms(2)] in auto)
  moreover have "mutex_inv (set_prog ?s (running s) (AcquireHold l # p))"
    by (rule mutex_acquire [OF s(3) _ assms(4)]) (use assms(2,3) in \<open>auto simp: in_phase_def\<close>)
  ultimately show ?thesis by (simp add: kernel_inv_def)
qed

lemma kernel_hold:
  assumes "kernel_inv s" "prog s (running s) = AcquireHold l # p"
  shows "kernel_inv (set_prog (s\<lparr>holder := (holder s)(l := Some (running s))\<rparr>) (running s) p)" (is "kernel_inv (set_prog ?s _ _)")
proof -
  let ?t = "running s"
  have s: "sched_inv s" "prog_inv s" "mutex_inv s" using assms(1) by (auto simp: kernel_inv_def)
  have "sched_inv (set_prog ?s (running ?s) p)"
    by (rule sched_inv_prog) (use s(1) not_idle [OF s(1) assms(2)] in auto)
  moreover have "prog_inv (set_prog ?s ?t p)"
    by (rule prog_inv_tail) (use s(2) assms(2) running_exists [OF s(1)] in auto)
  moreover have "mutex_inv (set_prog ?s ?t p)"
  proof -
    have t: "owner s l ?t" "in_phase s l ?t" using assms(2) by (auto simp: owner_def in_phase_def)
    have p: "p = [] \<or> \<not> phase_instr (hd p)" by (rule prog_head(3) [OF s(2) assms(2)])
    have ph: "in_phase (set_prog ?s ?t p) l' u \<longleftrightarrow> in_phase s l' u \<and> u \<noteq> ?t" for l' u
      using p by (cases p) (auto simp: in_phase_def)
    have u: "in_phase s l u \<Longrightarrow> u = ?t" for u using mutexD(1) [OF s(3) _ t(1)] by (simp add: owner_alt)
    have l: "in_phase s l' ?t \<Longrightarrow> l' = l" for l' using assms(2) by (auto simp: in_phase_def)
    have ow: "owner (set_prog ?s ?t p) l' u \<longleftrightarrow> owner s l' u" for l' u
    proof (cases "l' = l")
      case True
      have "in_phase s l u \<longleftrightarrow> u = ?t" using u t(2) by blast
      with True mutexD(2) [OF s(3) t(2)] show ?thesis unfolding owner_alt ph by auto
    next
      case False
      then have "\<not> in_phase s l' ?t" using l by blast
      with False show ?thesis unfolding owner_alt ph by auto
    qed
    have "holder (set_prog ?s ?t p) l' = None" if "in_phase s l' u \<and> u \<noteq> ?t" for l' u
      using that mutexD(2) [OF s(3), of l' u] u by auto
    then show ?thesis using s(3) unfolding mutex_inv_def ow ph by auto
  qed
  ultimately show ?thesis by (simp add: kernel_inv_def)
qed

lemma kernel_release:
  assumes "kernel_inv s" "prog s (running s) = LockRelease l # p" "holder s l = Some (running s)"
  shows "kernel_inv (set_prog (s\<lparr>holder := (holder s)(l := None)\<rparr>) (running s) (ReleaseUp l # p))" (is "kernel_inv (set_prog ?s _ _)")
proof -
  let ?t = "running s"
  have s: "sched_inv s" "prog_inv s" "mutex_inv s" using assms(1) by (auto simp: kernel_inv_def)
  have "sched_inv (set_prog ?s (running ?s) (ReleaseUp l # p))"
    by (rule sched_inv_prog) (use s(1) not_idle [OF s(1) assms(2)] in auto)
  moreover have "prog_inv (set_prog ?s ?t (ReleaseUp l # p))"
  proof (rule prog_inv_prog)
    fix u
    assume "StartThread u \<in> set (ReleaseUp l # p)"
    with pendingD(3) [OF s(2), of u ?t] assms(2)
    show "StartThread u \<in> set (prog ?s ?t) \<and> count_list (ReleaseUp l # p) (StartThread u) = 1" by auto
  qed (use s(2) assms(2) running_exists [OF s(1)] prog_head(2) [OF s(2) assms(2)] in auto)
  moreover have "mutex_inv (set_prog ?s ?t (ReleaseUp l # p))"
  proof -
    have t: "owner s l ?t" using assms(3) by (simp add: owner_def)
    have ph: "in_phase (set_prog ?s ?t (ReleaseUp l # p)) l' u \<longleftrightarrow> in_phase s l' u \<or> (l' = l \<and> u = ?t)" for l' u
      using assms(2) by (auto simp: in_phase_def)
    have u: "in_phase s l u \<Longrightarrow> u = ?t" for u using mutexD(1) [OF s(3) _ t] by (simp add: owner_alt)
    have ow: "owner (set_prog ?s ?t (ReleaseUp l # p)) l' u \<longleftrightarrow> owner s l' u" for l' u
      unfolding owner_alt ph using assms(3) u by auto
    have "holder (set_prog ?s ?t (ReleaseUp l # p)) l' = None" if "in_phase s l' u \<or> l' = l \<and> u = ?t" for l' u
      using that mutexD(2) [OF s(3), of l' u] by auto
    then show ?thesis using s(3) unfolding mutex_inv_def ow ph by auto
  qed
  ultimately show ?thesis by (simp add: kernel_inv_def)
qed

lemma sema_up_prog_inv:
  assumes "sched_inv s" "prog_inv s" "sema_up s sm = Inr s1"
  shows "sched_inv s1" "prog_inv s1" "running s1 = running s" "prog s1 = prog s" "holder s1 = holder s" "conds s1 = conds s"
    "idle_thread s1 = idle_thread s"
    "sem_value (semas s1 sm') = (if sm' = sm then size_wrap (sem_value (semas s sm) + 1) else sem_value (semas s sm'))"
proof -
  from sema_up_inv [OF assms(1), of sm] assms(3) have u:
    "sched_inv s1" "running s1 = running s" "prog s1 = prog s" "holder s1 = holder s" "conds s1 = conds s"
    "idle_thread s1 = idle_thread s" "dom (threads s1) = dom (threads s)"
    "\<forall>sm'. sem_value (semas s1 sm') = (if sm' = sm then size_wrap (sem_value (semas s sm) + 1) else sem_value (semas s sm'))"
    "\<forall>t. has_status s t THREAD_BLOCKED \<and> (\<forall>sm. \<not> waits_for (prog s t) sm) \<longrightarrow> has_status s1 t THREAD_BLOCKED"
    by auto
  show "sched_inv s1" "running s1 = running s" "prog s1 = prog s" "holder s1 = holder s" "conds s1 = conds s"
    "idle_thread s1 = idle_thread s"
    "sem_value (semas s1 sm') = (if sm' = sm then size_wrap (sem_value (semas s sm) + 1) else sem_value (semas s sm'))"
    using u by auto
  show "prog_inv s1"
  proof (rule prog_inv_cong [OF assms(2) u(3,5)])
    fix t
    assume "has_status s t THREAD_BLOCKED" "prog s t = []"
    with u(9) show "has_status s1 t THREAD_BLOCKED" by (simp add: waits_for_def)
  next
    fix t
    assume "threads s1 t = None"
    then have "t \<notin> dom (threads s)" using u(7) by auto
    then show "threads s t = None \<or> hd (prog s t) = Exit" by auto
  qed
qed

lemma kernel_up:
  assumes "kernel_inv s" "sema_up s sm = Inr s1" "\<And>l. sm \<noteq> LockSema l"
  shows "kernel_inv s1" "running s1 = running s" "prog s1 = prog s" "idle_thread s1 = idle_thread s"
proof -
  have s: "sched_inv s" "prog_inv s" "mutex_inv s" using assms(1) by (auto simp: kernel_inv_def)
  note u = sema_up_prog_inv [OF s(1,2) assms(2)]
  have "mutex_inv s1 = mutex_inv s" by (rule mutex_cong [OF u(5,4)]) (use u(8) assms(3) in auto)
  with u s(3) show "kernel_inv s1" "running s1 = running s" "prog s1 = prog s" "idle_thread s1 = idle_thread s"
    by (simp_all add: kernel_inv_def)
qed

lemma kernel_release_up:
  assumes "kernel_inv s" "prog s (running s) = ReleaseUp l # p" "sema_up s (LockSema l) = Inr s1"
  shows "kernel_inv (set_prog s1 (running s1) p)"
proof -
  let ?t = "running s"
  have s: "sched_inv s" "prog_inv s" "mutex_inv s" using assms(1) by (auto simp: kernel_inv_def)
  note u = sema_up_prog_inv [OF s(1,2) assms(3)]
  have "sched_inv (set_prog s1 (running s1) p)"
    by (rule sched_inv_prog [OF u(1)]) (use u(3,7) not_idle [OF s(1) assms(2)] in auto)
  moreover have "prog_inv (set_prog s1 (running s1) p)"
    by (rule prog_inv_tail [OF u(2) _ running_exists [OF u(1)]]) (use u(3,4) assms(2) in auto)
  moreover have "mutex_inv (set_prog s1 ?t p)"
  proof -
    have t: "in_phase s l ?t" using assms(2) by (auto simp: in_phase_def)
    then have ot: "owner s l ?t" by (simp add: owner_alt)
    have hn: "holder s l = None" by (rule mutexD(2) [OF s(3) t])
    have v0: "sem_value (semas s (LockSema l)) = 0" using mutexD(3) [OF s(3), of l] ot by auto
    have p: "p = [] \<or> \<not> phase_instr (hd p)" by (rule prog_head(3) [OF s(2) assms(2)])
    have ph: "in_phase (set_prog s1 ?t p) l' w \<longleftrightarrow> in_phase s l' w \<and> w \<noteq> ?t" for l' w
      using p u(4) by (cases p) (auto simp: in_phase_def)
    have lt: "in_phase s l' ?t \<longleftrightarrow> l' = l" for l' using assms(2) by (auto simp: in_phase_def)
    have lw: "in_phase s l w \<longleftrightarrow> w = ?t" for w using t mutexD(1) [OF s(3) _ ot, of w] by (auto simp: owner_alt)
    have ow: "owner (set_prog s1 ?t p) l' w \<longleftrightarrow> owner s l' w \<and> l' \<noteq> l" for l' w
    proof (cases "l' = l")
      case True
      then show ?thesis using lw [of w] hn u(5) unfolding owner_alt ph by auto
    next
      case False
      then have "\<not> in_phase s l' ?t" using lt by blast
      then show ?thesis using False u(5) unfolding owner_alt ph by auto
    qed
    have "holder (set_prog s1 ?t p) l' = None" if "in_phase s l' w \<and> w \<noteq> ?t" for l' w
      using that mutexD(2) [OF s(3), of l' w] u(5) by simp
    moreover have "sem_value (semas (set_prog s1 ?t p) (LockSema l')) = (if \<exists>w. owner s l' w \<and> l' \<noteq> l then 0 else 1)" for l'
      using u(8) [of "LockSema l'"] v0 mutexD(3) [OF s(3), of l'] by auto
    ultimately show ?thesis using mutexD(1) [OF s(3)] unfolding mutex_inv_def ow ph by blast
  qed
  ultimately show ?thesis using u(3) by (simp add: kernel_inv_def)
qed

lemma kernel_down:
  assumes "kernel_inv s" "prog s (running s) = Down sm # p" "sema_down s sm = Inr (s1, through)"
  shows "kernel_inv (if through then set_prog s1 (running s1) p else s1)"
proof -
  have s: "sched_inv s" "prog_inv s" "mutex_inv s" using assms(1) by (auto simp: kernel_inv_def)
  have w: "waits_for (prog s (running s)) sm" using assms(2) by (simp add: waits_for_def)
  have nl: "sm \<noteq> LockSema l" for l using prog_head(1) [OF s(2) assms(2)] by auto
  note inv1 = sema_down_inv [OF s(1) w assms(3)]
  show ?thesis
  proof (cases through)
    case False
    with assms(3) have "quiet s s1" using sema_down_blocked [OF s(1) w] by simp
    with False inv1 kernel_quiet [OF assms(1)] show ?thesis by simp
  next
    case True
    with assms(3) have s1: "s1 = set_sema (s\<lparr>intr_on := True\<rparr>) sm ((semas s sm)\<lparr>sem_value := sem_value (semas s sm) - 1\<rparr>)"
      using sema_down_through by simp
    have "quiet s s1" using nl unfolding s1 quiet_def by auto
    then have "kernel_inv s1" using inv1 by (rule kernel_quiet [OF assms(1)])
    moreover have "prog s1 (running s1) = Down sm # p" "idle_thread s1 \<noteq> Some (running s1)"
      using assms(2) not_idle [OF s(1) assms(2)] unfolding s1 by auto
    ultimately have "kernel_inv (set_prog s1 (running s1) p)" by (intro kernel_advance) auto
    with True show ?thesis by simp
  qed
qed

lemma kernel_acquire_down:
  assumes "kernel_inv s" "prog s (running s) = AcquireDown l # p" "sema_down s (LockSema l) = Inr (s1, through)"
  shows "kernel_inv (if through then set_prog s1 (running s1) (AcquireHold l # p) else s1)"
proof -
  have s: "sched_inv s" "prog_inv s" "mutex_inv s" using assms(1) by (auto simp: kernel_inv_def)
  have w: "waits_for (prog s (running s)) (LockSema l)" using assms(2) by (simp add: waits_for_def)
  show ?thesis
  proof (cases through)
    case False
    with assms(3) have "quiet s s1" using sema_down_blocked [OF s(1) w] by simp
    with False sema_down_inv [OF s(1) w assms(3)] kernel_quiet [OF assms(1)] show ?thesis by simp
  next
    case True
    let ?s = "s\<lparr>intr_on := True\<rparr>"
    from True assms(3) have s1: "s1 = set_sema ?s (LockSema l) ((semas s (LockSema l))\<lparr>sem_value := sem_value (semas s (LockSema l)) - 1\<rparr>)"
      and v: "0 < sem_value (semas s (LockSema l))"
      using sema_down_through [of s "LockSema l" s1] by simp_all
    have "kernel_inv ?s" by (rule kernel_quiet [OF assms(1)]) (use s(1) in \<open>simp_all add: quiet_def\<close>)
    from kernel_acquire [OF this, of "AcquireDown l" p l] assms(2) v True show ?thesis unfolding s1 by simp
  qed
qed

section \<open>Creating threads\<close>

lemma init_thread_result:
  assumes "init_thread s t name prio = Inr s'"
  obtains f x where "s' = s\<lparr>threads := (threads s)(t \<mapsto> x), prog := (prog s)(t := []), semas := f\<rparr>"
    "status x = THREAD_BLOCKED" "t_magic x = THREAD_MAGIC" "\<And>l. f (LockSema l) = semas s (LockSema l)"
    "\<And>sm. f sm = semas s sm \<or> sem_waiters (f sm) = []"
proof -
  define x where "x = \<lparr>tid = 0, status = THREAD_BLOCKED, t_name = take 15 name, t_stack = word_of_nat t + 4096,
                 priority = prio, t_magic = THREAD_MAGIC, t_pagedir = 0, childrenlist = [], t_wait = False,
                 loadsuccess = True\<rparr>"
  define f where "f = (semas s)(Diesem t := \<lparr>sem_value = 0, sem_waiters = []\<rparr>, Loadsem t := \<lparr>sem_value = 0, sem_waiters = []\<rparr>,
    Loadsuccesssem t := \<lparr>sem_value = 0, sem_waiters = []\<rparr>, Waitsem t := \<lparr>sem_value = 0, sem_waiters = []\<rparr>,
    Exitsem t := \<lparr>sem_value = 0, sem_waiters = []\<rparr>, Filesem t := \<lparr>sem_value = 1, sem_waiters = []\<rparr>,
    Jinsem t := \<lparr>sem_value = 0, sem_waiters = []\<rparr>)"
  have "s' = s\<lparr>threads := (threads s)(t \<mapsto> x), prog := (prog s)(t := []), semas := f\<rparr>"
    using assms by (simp add: init_thread_def sema_init_def set_sema_def x_def f_def Let_def)
  moreover have "f sm = semas s sm \<or> sem_waiters (f sm) = []" for sm by (auto simp: f_def)
  ultimately show ?thesis using that [of f x] by (simp add: x_def f_def)
qed

lemma kernel_init_thread:
  assumes "kernel_inv s" "threads s t = None" "init_thread s t name prio = Inr s'"
  shows "kernel_inv s'" "has_status s' t THREAD_BLOCKED" "prog s' = (prog s)(t := [])" "running s' = running s"
    "running s \<noteq> t" "tid_lock s' = tid_lock s" "idle_thread s' = idle_thread s" "\<And>u. StartThread t \<notin> set (prog s' u)"
proof -
  have s: "sched_inv s" "prog_inv s" "mutex_inv s" and q: "queues_inv s"
    using assms(1) by (auto simp: kernel_inv_def sched_inv_def)
  from assms(3) obtain f x where s': "s' = s\<lparr>threads := (threads s)(t \<mapsto> x), prog := (prog s)(t := []), semas := f\<rparr>"
    and x: "status x = THREAD_BLOCKED" "t_magic x = THREAD_MAGIC"
    and f: "\<And>l. f (LockSema l) = semas s (LockSema l)" "\<And>sm. f sm = semas s sm \<or> sem_waiters (f sm) = []"
    by (rule init_thread_result) blast
  have fresh: "\<not> has_status s t st" for st using assms(2) by (simp add: has_status_def)
  show r: "running s \<noteq> t" using running_exists [OF s(1)] assms(2) by auto
  have hs: "has_status s' u st \<longleftrightarrow> (if u = t then st = THREAD_BLOCKED else has_status s u st)" for u st
    unfolding s' using x(1) by (auto simp: has_status_def)
  have w: "u \<in> set (sem_waiters (f sm)) \<Longrightarrow> u \<in> set (sem_waiters (semas s sm))" for u sm using f(2) [of sm] by auto
  have "queues_inv s'"
    unfolding queues_inv_def
  proof (intro conjI allI ballI impI)
    fix u y
    assume "threads s' u = Some y"
    then show "t_magic y = THREAD_MAGIC" using queuesD(1) [OF q, of u y] x(2) unfolding s' by (auto split: if_splits)
  next
    show "distinct (ready_list s')" using queuesD(2) [OF q] unfolding s' by simp
  next
    fix u
    assume "u \<in> set (ready_list s')"
    then have "has_status s u THREAD_READY" using queuesD(3) [OF q] unfolding s' by simp
    then show "has_status s' u THREAD_READY" using fresh unfolding hs by auto
  next
    fix sm
    show "distinct (sem_waiters (semas s' sm))" using queuesD(4) [OF q, of sm] f(2) [of sm] unfolding s' by auto
    fix u
    assume "u \<in> set (sem_waiters (semas s' sm))"
    then have "u \<in> set (sem_waiters (semas s sm))" using w unfolding s' by simp
    from queuesD(5,6) [OF q this] fresh [of THREAD_BLOCKED]
    show "has_status s' u THREAD_BLOCKED" "waits_for (prog s' u) sm" unfolding hs by (auto simp: s')
  next
    fix i
    assume "idle_thread s' = Some i"
    then have i: "idle_thread s = Some i" unfolding s' by simp
    note d = queuesD(7-10) [OF q i]
    have "i \<noteq> t" using d(1) assms(2) by auto
    with d show "threads s' i \<noteq> None" "\<not> has_status s' i THREAD_DYING" "i \<notin> set (ready_list s')"
        "prog s' i = [IdleLoop] \<or> (\<exists>sm. prog s' i = [Up sm, IdleLoop])"
      unfolding hs by (auto simp: s')
  qed
  moreover have "has_status s' u THREAD_RUNNING \<longleftrightarrow> u = running s'" for u
    using s(1) r unfolding hs by (auto simp: sched_inv_def s')
  ultimately have "sched_inv s'" by (simp add: sched_inv_def)
  moreover have "prog_inv s'"
    unfolding prog_inv_def
  proof (intro conjI allI ballI impI)
    fix u i p
    assume "prog s' u = i # p"
    then show "phase_instr i \<or> inner_instr i" "\<And>j. j \<in> set p \<Longrightarrow> inner_instr j"
      using prog_head(1,2) [OF s(2), of u i p] by (auto simp: s' split: if_splits)
  next
    fix u
    assume "threads s' u = None"
    then show "prog s' u = [] \<or> hd (prog s' u) = Exit" using freedD [OF s(2), of u] by (auto simp: s' split: if_splits)
  next
    fix u v
    assume "StartThread v \<in> set (prog s' u)"
    then have "StartThread v \<in> set (prog s u)" "u \<noteq> t" by (auto simp: s' split: if_splits)
    note d = pendingD [OF s(2) this(1)]
    show "has_status s' v THREAD_BLOCKED" "prog s' v = []" "count_list (prog s' u) (StartThread v) = 1"
      using d(1-3) \<open>u \<noteq> t\<close> unfolding hs by (auto simp: s')
    fix w
    assume "StartThread v \<in> set (prog s' w)"
    then have "StartThread v \<in> set (prog s w)" by (auto simp: s' split: if_splits)
    then show "w = u" by (rule d(4))
  qed (use s(2) in \<open>auto simp: s' prog_inv_def\<close>)
  moreover have "mutex_inv s'"
  proof -
    have "\<not> in_phase s l t" for l using freedD [OF s(2) assms(2)] by (auto simp: in_phase_def)
    then have "mutex_inv (set_prog s t [])" by (rule mutex_prog [OF s(3)]) simp
    moreover have "mutex_inv s' = mutex_inv (set_prog s t [])" by (rule mutex_cong) (use f(1) in \<open>simp_all add: s'\<close>)
    ultimately show ?thesis by simp
  qed
  ultimately show "kernel_inv s'" by (simp add: kernel_inv_def)
  show "has_status s' t THREAD_BLOCKED" by (simp add: hs)
  show "prog s' = (prog s)(t := [])" "running s' = running s" "tid_lock s' = tid_lock s" "idle_thread s' = idle_thread s"
    by (simp_all add: s')
  show "StartThread t \<notin> set (prog s' u)" for u
    using pendingD(1) [OF s(2), of t u] fresh by (auto simp: s' split: if_splits)
qed

lemma prog_inv_create:
  assumes "prog_inv s" "prog s r = Create name prio (Some t) # p" "threads s r \<noteq> None" "r \<noteq> t"
    and "has_status s t THREAD_BLOCKED" "prog s t = []" "\<And>u. StartThread t \<notin> set (prog s u)"
  shows "prog_inv (set_prog s r (LockAcquire l # TakeTid t # LockRelease l # StartThread t # p))"
  unfolding prog_inv_def
proof (intro conjI allI ballI impI)
  let ?p = "LockAcquire l # TakeTid t # LockRelease l # StartThread t # p"
  fix u i q
  assume "prog (set_prog s r ?p) u = i # q"
  then show "phase_instr i \<or> inner_instr i" "\<And>j. j \<in> set q \<Longrightarrow> inner_instr j"
    using prog_head(1,2) [OF assms(1), of u i q] prog_head(2) [OF assms(1,2)] by (auto split: if_splits)
next
  let ?p = "LockAcquire l # TakeTid t # LockRelease l # StartThread t # p"
  fix u
  assume "threads (set_prog s r ?p) u = None"
  then show "prog (set_prog s r ?p) u = [] \<or> hd (prog (set_prog s r ?p) u) = Exit"
    using freedD [OF assms(1), of u] assms(3) by auto
next
  let ?p = "LockAcquire l # TakeTid t # LockRelease l # StartThread t # p"
  fix u v
  assume sv: "StartThread v \<in> set (prog (set_prog s r ?p) u)"
  have np: "StartThread t \<notin> set p" using assms(7) [of r] assms(2) by simp
  show "has_status (set_prog s r ?p) v THREAD_BLOCKED" "prog (set_prog s r ?p) v = []"
      "count_list (prog (set_prog s r ?p) u) (StartThread v) = 1"
  proof -
    show "has_status (set_prog s r ?p) v THREAD_BLOCKED"
      using sv pendingD(1) [OF assms(1), of v u] assms(2,5) by (auto split: if_splits)
    show "prog (set_prog s r ?p) v = []"
      using sv pendingD(2) [OF assms(1), of v u] assms(2,4,6) by (auto split: if_splits)
    show "count_list (prog (set_prog s r ?p) u) (StartThread v) = 1"
    proof (cases "v = t")
      case True
      then have "u = r" using sv assms(7) by (auto split: if_splits)
      with True np show ?thesis by simp
    next
      case False
      with sv pendingD(3) [OF assms(1), of v u] assms(2) show ?thesis by (auto split: if_splits)
    qed
  qed
  fix w
  assume sw: "StartThread v \<in> set (prog (set_prog s r ?p) w)"
  show "w = u"
  proof (cases "v = t")
    case True
    then show ?thesis using sv sw assms(7) by (auto split: if_splits)
  next
    case False
    then have "StartThread v \<in> set (prog s u)" "StartThread v \<in> set (prog s w)"
      using sv sw assms(2) by (auto split: if_splits)
    then show ?thesis using pendingD(4) [OF assms(1)] by blast
  qed
qed (use assms(1) in \<open>auto simp: prog_inv_def\<close>)

lemma kernel_create:
  assumes "kernel_inv s" "prog s (running s) = Create name prio page # p" "allowed s (Create name prio page)"
    and "thread_create s name prio page p = Inr s'"
  shows "kernel_inv s'"
proof (cases page)
  case None
  have "idle_thread s \<noteq> Some (running s)" using assms(1,2) by (intro not_idle) (auto simp: kernel_inv_def)
  with kernel_advance [OF assms(1,2)] None assms(4) show ?thesis by (simp add: thread_create_def)
next
  case (Some t)
  then have fresh: "threads s t = None" using assms(3) by (simp add: allowed_def)
  from Some assms(4) obtain s1 where i: "init_thread s t name prio = Inr s1"
    and s': "s' = set_prog s1 (running s1) (LockAcquire (tid_lock s1) # TakeTid t # LockRelease (tid_lock s1) # StartThread t # p)"
    by (auto simp: thread_create_def)
  note k = kernel_init_thread [OF assms(1) fresh i]
  have s1: "sched_inv s1" "prog_inv s1" "mutex_inv s1" using k(1) by (auto simp: kernel_inv_def)
  have p1: "prog s1 (running s1) = Create name prio (Some t) # p" using k(3,4,5) assms(2) Some by auto
  have "sched_inv s'" unfolding s' by (rule sched_inv_prog [OF s1(1)]) (use not_idle [OF s1(1) p1] in auto)
  moreover have "prog_inv s'"
    unfolding s' by (rule prog_inv_create [OF s1(2) p1 running_exists [OF s1(1)]]) (use k in auto)
  moreover have "mutex_inv s'"
    unfolding s' by (rule mutex_prog [OF s1(3) not_in_phase [OF p1]]) auto
  ultimately show ?thesis by (simp add: kernel_inv_def)
qed


text \<open>Members of a thread that no invariant mentions.\<close>

lemma kernel_upd_thread:
  assumes "kernel_inv s" "\<And>x. status (g x) = status x" "\<And>x. t_magic (g x) = t_magic x"
  shows "kernel_inv (s\<lparr>threads := (threads s)(t := map_option g (threads s t))\<rparr>)" (is "kernel_inv ?s")
proof -
  have hs: "has_status ?s = has_status s"
    using assms(2) by (auto simp: has_status_def fun_eq_iff split: option.splits)
  have s: "sched_inv s" "prog_inv s" "mutex_inv s" and q: "queues_inv s"
    using assms(1) by (auto simp: kernel_inv_def sched_inv_def)
  have "t_magic y = THREAD_MAGIC" if "threads ?s u = Some y" for u y
    using that queuesD(1) [OF q] assms(3) by (auto split: if_splits)
  then have "queues_inv ?s" using q unfolding queues_inv_def hs by auto
  then have "sched_inv ?s" using s(1) unfolding sched_inv_def hs by simp
  moreover have "quiet s ?s" unfolding quiet_def hs by (auto split: if_splits)
  ultimately show ?thesis by (intro kernel_quiet [OF assms(1)])
qed

lemma kernel_next_tid [simp]: "kernel_inv (s\<lparr>next_tid := n\<rparr>) = kernel_inv s"
  by (simp add: kernel_inv_def sched_inv_def queues_inv_def prog_inv_def mutex_inv_def has_status_def owner_def in_phase_def)

lemma kernel_take_tid:
  assumes "kernel_inv s" "prog s (running s) = TakeTid t # p"
  shows "kernel_inv (set_prog (allocate_tid s t) (running s) p)"
proof -
  let ?s = "allocate_tid s t"
  have "?s = (s\<lparr>threads := (threads s)(t := map_option (\<lambda>x. x\<lparr>tid := next_tid s\<rparr>) (threads s t))\<rparr>)\<lparr>next_tid := s32_of (next_tid s + 1)\<rparr>"
    by (simp add: allocate_tid_def)
  then have "kernel_inv ?s" using kernel_upd_thread [OF assms(1), of "\<lambda>x. x\<lparr>tid := next_tid s\<rparr>" t] by simp
  moreover have "running ?s = running s" "prog ?s = prog s" "idle_thread ?s = idle_thread s" by (simp_all add: allocate_tid_def)
  moreover have "idle_thread s \<noteq> Some (running s)" using assms by (intro not_idle) (auto simp: kernel_inv_def)
  ultimately show ?thesis using kernel_advance [of ?s "TakeTid t" p] assms(2) by simp
qed

lemma kernel_unblock:
  assumes "kernel_inv s" "has_status s t THREAD_BLOCKED" "unlisted s t" "idle_thread s \<noteq> Some t"
    and "\<And>u. StartThread t \<notin> set (prog s u)"
  shows "kernel_inv (set_status (s\<lparr>ready_list := ready_list s @ [t]\<rparr>) t THREAD_READY)" (is "kernel_inv ?s")
proof -
  have s: "sched_inv s" "prog_inv s" "mutex_inv s" and q: "queues_inv s"
    using assms(1) by (auto simp: kernel_inv_def sched_inv_def)
  have e: "threads s t \<noteq> None" by (rule has_status_exists [OF assms(2)])
  have "queues_inv ?s" by (rule queues_push_ready [OF q assms(3) _ e]) (use assms(4) in simp)
  moreover have "t \<noteq> running s" using assms(2) s(1) has_status_unique by (fastforce simp: sched_inv_def)
  ultimately have "sched_inv ?s" using s(1) by (auto simp: sched_inv_def)
  moreover have "prog_inv ?s"
    unfolding prog_inv_def
  proof (intro conjI allI ballI impI)
    fix u v
    assume "StartThread v \<in> set (prog ?s u)"
    then have v: "StartThread v \<in> set (prog s u)" "v \<noteq> t" using assms(5) by auto
    note d = pendingD [OF s(2) v(1)]
    show "has_status ?s v THREAD_BLOCKED" using v(2) d(1) by simp
    show "prog ?s v = []" "count_list (prog ?s u) (StartThread v) = 1" using d(2,3) by simp_all
    fix w
    assume "StartThread v \<in> set (prog ?s w)"
    then have "StartThread v \<in> set (prog s w)" by simp
    then show "w = u" by (rule d(4))
  qed (use s(2) e in \<open>auto simp: prog_inv_def split: if_splits\<close>)
  moreover have "mutex_inv ?s = mutex_inv s" by (rule mutex_cong) auto
  ultimately show ?thesis using s(3) by (simp add: kernel_inv_def)
qed

lemma pending_unlisted:
  assumes "queues_inv s" "has_status s t THREAD_BLOCKED" "prog s t = []"
  shows "unlisted s t" "idle_thread s \<noteq> Some t"
proof -
  have "\<not> waits_for (prog s t) sm" for sm using assms(3) by (simp add: waits_for_def)
  moreover have "\<not> has_status s t THREAD_READY" using assms(2) has_status_unique by fastforce
  ultimately show "unlisted s t" using queuesD(3,6) [OF assms(1)] unfolding unlisted_def by blast
  show "idle_thread s \<noteq> Some t" using queuesD(10) [OF assms(1), of t] assms(3) by auto
qed


text \<open>Updates of a thread that the scheduler does not see.\<close>

definition unseen :: "sched \<Rightarrow> sched \<Rightarrow> bool" where
  "unseen s s' \<longleftrightarrow> kernel_inv s' \<and> prog s' = prog s \<and> running s' = running s \<and> idle_thread s' = idle_thread s
     \<and> has_status s' = has_status s"

lemma unseen_trans: "unseen s s1 \<Longrightarrow> unseen s1 s' \<Longrightarrow> unseen s s'"
  by (simp add: unseen_def)

lemma unseen_upd:
  assumes "kernel_inv s" "\<And>x. status (g x) = status x" "\<And>x. t_magic (g x) = t_magic x"
  shows "unseen s (s\<lparr>threads := (threads s)(t := map_option g (threads s t))\<rparr>)"
  using kernel_upd_thread [OF assms] assms(2)
  by (auto simp: unseen_def has_status_def fun_eq_iff split: option.splits)

lemma unseen_frame: "kernel_inv s \<Longrightarrow> alloc_frame s t z = Inr s' \<Longrightarrow> unseen s s'"
  using unseen_upd [of s "\<lambda>x. x\<lparr>t_stack := t_stack x - z\<rparr>" t] by (auto simp: alloc_frame_def split: if_splits)

lemma start_thread_result:
  assumes "kernel_inv s" "start_thread s t = Inr s'"
  obtains s1 where "unseen s s1" "has_status s1 t THREAD_BLOCKED"
    "s' = set_status (s1\<lparr>ready_list := ready_list s1 @ [t]\<rparr>) t THREAD_READY"
proof -
  from assms(2) obtain sa sb sc c where f: "alloc_frame s t 12 = Inr sa" "alloc_frame sa t 4 = Inr sb" "alloc_frame sb t 28 = Inr sc"
    and u: "thread_unblock (sc\<lparr>threads := (threads sc)(c := map_option (\<lambda>x. x\<lparr>childrenlist := childrenlist x @ [t]\<rparr>)
                                                        (threads sc c))\<rparr>) t = Inr s'"
    unfolding start_thread_def by (auto split: sum.splits)
  let ?s = "sc\<lparr>threads := (threads sc)(c := map_option (\<lambda>x. x\<lparr>childrenlist := childrenlist x @ [t]\<rparr>) (threads sc c))\<rparr>"
  have a: "unseen s sa" by (rule unseen_frame [OF assms(1) f(1)])
  then have b: "unseen sa sb" by (intro unseen_frame [OF _ f(2)]) (simp add: unseen_def)
  then have c: "unseen sb sc" by (intro unseen_frame [OF _ f(3)]) (simp add: unseen_def)
  then have "unseen sc ?s" by (intro unseen_upd) (simp_all add: unseen_def)
  with a b c have "unseen s ?s" by (blast intro: unseen_trans)
  with u show ?thesis using that [of ?s] by (auto simp: thread_unblock_def split: if_splits)
qed

lemma kernel_start:
  assumes "kernel_inv s" "prog s (running s) = StartThread t # p" "start_thread s t = Inr s'"
  shows "kernel_inv (set_prog s' (running s') p)"
proof -
  from assms(1,3) obtain s1 where u: "unseen s s1" "has_status s1 t THREAD_BLOCKED"
    and s': "s' = set_status (s1\<lparr>ready_list := ready_list s1 @ [t]\<rparr>) t THREAD_READY" by (rule start_thread_result)
  have p1: "prog s1 (running s1) = StartThread t # p" and k1: "kernel_inv s1" using u(1) assms(2) by (auto simp: unseen_def)
  then have s1: "sched_inv s1" "prog_inv s1" by (auto simp: kernel_inv_def)
  have idle: "idle_thread s1 \<noteq> Some (running s1)" by (rule not_idle [OF s1(1) p1]) auto
  let ?s = "set_prog s1 (running s1) p"
  have k: "kernel_inv ?s" by (rule kernel_advance [OF k1 p1]) (use idle in auto)
  have d: "prog s1 t = []" "count_list (prog s1 (running s1)) (StartThread t) = 1"
      "\<And>v. StartThread t \<in> set (prog s1 v) \<Longrightarrow> v = running s1"
    using pendingD [OF s1(2), of t "running s1"] p1 by auto
  have "StartThread t \<notin> set p" using d(2) p1 by (simp add: count_list_0_iff)
  then have np: "StartThread t \<notin> set (prog ?s v)" for v using d(3) [of v] by auto
  have "running s1 \<noteq> t" using d(1) p1 by auto
  then have pt: "prog ?s t = []" "has_status ?s t THREAD_BLOCKED" using d(1) u(2) by auto
  have "queues_inv ?s" using k by (simp add: kernel_inv_def sched_inv_def)
  note ul = pending_unlisted [OF this pt(2,1)]
  have "kernel_inv (set_status (?s\<lparr>ready_list := ready_list ?s @ [t]\<rparr>) t THREAD_READY)"
    by (rule kernel_unblock [OF k pt(2) ul np])
  moreover have "set_prog s' (running s') p = set_status (?s\<lparr>ready_list := ready_list ?s @ [t]\<rparr>) t THREAD_READY"
    unfolding s' by (simp add: set_prog_def set_status_def)
  ultimately show ?thesis by simp
qed

section \<open>Every step\<close>

text \<open>Replacing the head of the running thread's program.\<close>

lemma kernel_replace:
  assumes "kernel_inv s" "prog s (running s) = i # p" "\<not> phase_instr i" "idle_thread s \<noteq> Some (running s)"
    and "inner_instr a \<or> (\<exists>l. a = AcquireDown l)" "\<And>j. j \<in> set qs \<Longrightarrow> inner_instr j"
    and "\<And>t. StartThread t \<notin> set (a # qs)"
  shows "kernel_inv (set_prog s (running s) (a # qs @ p))"
proof -
  have s: "sched_inv s" "prog_inv s" "mutex_inv s" using assms(1) by (auto simp: kernel_inv_def)
  let ?s = "set_prog s (running s) (a # qs @ p)"
  have "sched_inv ?s" by (rule sched_inv_prog [OF s(1)]) (use assms(4) in auto)
  moreover have "prog_inv ?s"
  proof (rule prog_inv_prog [OF s(2)])
    fix u
    assume "StartThread u \<in> set (a # qs @ p)"
    then have u: "StartThread u \<in> set p" using assms(7) [of u] by auto
    have "count_list qs (StartThread u) = 0" "a \<noteq> StartThread u" using assms(7) [of u] by (auto simp: count_list_0_iff)
    moreover have "count_list p (StartThread u) = 1"
    proof -
      have "count_list (i # p) (StartThread u) = 1" using pendingD(3) [OF s(2), of u "running s"] assms(2) u by simp
      moreover have "count_list p (StartThread u) \<noteq> 0" using u by (simp add: count_list_0_iff)
      ultimately show ?thesis by (simp split: if_splits)
    qed
    ultimately show "StartThread u \<in> set (prog s (running s)) \<and> count_list (a # qs @ p) (StartThread u) = 1"
      using u assms(2) by simp
  qed (use assms(2,5,6) running_exists [OF s(1)] prog_head(2) [OF s(2) assms(2)] in auto)
  moreover have "mutex_inv ?s"
  proof -
    have a: "\<not> (\<exists>l. a = AcquireHold l)" "\<not> (\<exists>l. a = ReleaseUp l)" using assms(5) by auto
    have "in_phase ?s = in_phase s"
      using not_in_phase [OF assms(2,3)] a by (auto simp: fun_eq_iff in_phase_def)
    moreover from this have "owner ?s = owner s" by (simp add: fun_eq_iff owner_alt)
    ultimately show ?thesis using s(3) by (simp add: mutex_inv_def)
  qed
  ultimately show ?thesis by (simp add: kernel_inv_def)
qed

lemma kernel_conds:
  assumes "kernel_inv s" "\<And>c w l. w \<in> set (f c) \<Longrightarrow> w \<noteq> LockSema l"
  shows "kernel_inv (s\<lparr>conds := f\<rparr>)"
proof -
  have "prog_inv (s\<lparr>conds := f\<rparr>)" using assms by (simp add: kernel_inv_def prog_inv_def)
  moreover have "mutex_inv (s\<lparr>conds := f\<rparr>) = mutex_inv s" by (rule mutex_cong) auto
  ultimately show ?thesis using assms(1) by (simp add: kernel_inv_def)
qed

lemma kernel_sema_init:
  assumes "kernel_inv s" "\<And>l. sm \<noteq> LockSema l"
  shows "kernel_inv (sema_init s sm v)"
proof (rule kernel_quiet [OF assms(1)])
  show "quiet s (sema_init s sm v)" using assms(2) by (auto simp: quiet_def sema_init_def)
  show "sched_inv (sema_init s sm v)"
    using assms(1) by (auto simp: kernel_inv_def sched_inv_def sema_init_def queues_inv_def)
qed

lemma condsD: "kernel_inv s \<Longrightarrow> w \<in> set (conds s c) \<Longrightarrow> w \<noteq> LockSema l"
  by (auto simp: kernel_inv_def prog_inv_def)

lemma kernel_cond_wait:
  assumes "kernel_inv s" "prog s (running s) = CondWait c l w # p" "cond_wait s c l w p = Inr s'"
  shows "kernel_inv s'"
proof -
  have s: "sched_inv s" "prog_inv s" using assms(1) by (auto simp: kernel_inv_def)
  have w: "w \<noteq> LockSema l'" for l' using prog_head(1) [OF s(2) assms(2)] by auto
  let ?s = "(sema_init s w 0)\<lparr>conds := (conds (sema_init s w 0))(c := conds (sema_init s w 0) c @ [w])\<rparr>"
  have k: "kernel_inv ?s"
  proof (rule kernel_conds [OF kernel_sema_init [OF assms(1) w]])
    fix c' v l'
    assume "v \<in> set (((conds (sema_init s w 0))(c := conds (sema_init s w 0) c @ [w])) c')"
    then show "v \<noteq> LockSema l'" using condsD [OF assms(1), of v c'] w by (auto simp: sema_init_def split: if_splits)
  qed
  have eq: "prog ?s (running ?s) = CondWait c l w # p" "idle_thread ?s \<noteq> Some (running ?s)"
    using assms(2) not_idle [OF s(1) assms(2)] by (auto simp: sema_init_def)
  have "kernel_inv (set_prog ?s (running ?s) (LockRelease l # [Down w, LockAcquire l] @ p))"
    by (rule kernel_replace [OF k eq(1) _ eq(2)]) (use w in \<open>cases w; auto\<close>)+
  moreover have "s' = set_prog ?s (running ?s) (LockRelease l # [Down w, LockAcquire l] @ p)"
    using assms(3) by (auto simp: cond_wait_def Let_def split: if_splits)
  ultimately show ?thesis by simp
qed

lemma kernel_cond_signal:
  assumes "kernel_inv s" "prog s (running s) = CondSignal c l # p" "cond_signal s c l p = Inr s'"
  shows "kernel_inv s'"
proof -
  have idle: "idle_thread s \<noteq> Some (running s)" using assms(1,2) by (intro not_idle) (auto simp: kernel_inv_def)
  show ?thesis
  proof (cases "conds s c")
    case Nil
    then have "s' = set_prog s (running s) p" using assms(3) by (auto simp: cond_signal_def split: if_splits)
    then show ?thesis using kernel_advance [OF assms(1,2)] idle by simp
  next
    case (Cons w ws)
    let ?s = "s\<lparr>conds := (conds s)(c := ws)\<rparr>"
    have k: "kernel_inv ?s"
    proof (rule kernel_conds [OF assms(1)])
      fix c' v l'
      assume "v \<in> set (((conds s)(c := ws)) c')"
      then have "v \<in> set (conds s c')" using Cons by (auto split: if_splits)
      then show "v \<noteq> LockSema l'" by (rule condsD [OF assms(1)])
    qed
    have w: "w \<noteq> LockSema l'" for l' using condsD [OF assms(1), of w c] Cons by simp
    from Cons assms(3) obtain s1 where s1: "sema_up ?s w = Inr s1" "s' = set_prog s1 (running s1) p"
      by (auto simp: cond_signal_def split: if_splits sum.splits)
    note u = kernel_up [OF k s1(1) w]
    show ?thesis unfolding s1(2) by (rule kernel_advance [OF u(1)]) (use u assms(2) idle in auto)
  qed
qed

end
