(* ===== verification/Sched_Spec.thy ===== *)
theory Sched_Spec
  imports Sched_Mutex
begin

text \<open>
  What the scheduler and the synchronization primitives promise in every interleaving.
\<close>

section \<open>Every step keeps the invariant\<close>

lemma kernel_lock_acquire:
  assumes "kernel_inv s" "prog s (running s) = LockAcquire l # p" "lock_acquire s l p = Inr s'"
  shows "kernel_inv s'"
proof -
  have "idle_thread s \<noteq> Some (running s)" using assms(1,2) by (intro not_idle) (auto simp: kernel_inv_def)
  then have "kernel_inv (set_prog s (running s) (AcquireDown l # [] @ p))"
    by (intro kernel_replace [OF assms(1,2)]) auto
  with assms(3) show ?thesis by (auto simp: lock_acquire_def)
qed

lemma kernel_try_acquire:
  assumes "kernel_inv s" "prog s (running s) = LockTryAcquire l # p" "lock_try_acquire s l p = Inr s'"
  shows "kernel_inv s'"
proof (cases "0 < sem_value (semas s (LockSema l))")
  case True
  with kernel_acquire [OF assms(1,2), of l] assms(3) show ?thesis
    by (auto simp: lock_try_acquire_def sema_try_down_def)
next
  case False
  have "idle_thread s \<noteq> Some (running s)" using assms(1,2) by (intro not_idle) (auto simp: kernel_inv_def)
  with kernel_advance [OF assms(1,2)] False assms(3) show ?thesis
    by (auto simp: lock_try_acquire_def sema_try_down_def)
qed

lemma kernel_broadcast:
  assumes "kernel_inv s" "prog s (running s) = CondBroadcast c l # p" "cond_broadcast s c l p = Inr s'"
  shows "kernel_inv s'"
proof -
  have idle: "idle_thread s \<noteq> Some (running s)" using assms(1,2) by (intro not_idle) (auto simp: kernel_inv_def)
  then have "kernel_inv (set_prog s (running s) (CondSignal c l # [CondBroadcast c l] @ p))"
    by (intro kernel_replace [OF assms(1,2)]) auto
  with kernel_advance [OF assms(1,2)] idle assms(3) show ?thesis by (auto simp: cond_broadcast_def split: if_splits)
qed

lemma kernel_try_down:
  assumes "kernel_inv s" "prog s (running s) = TryDown sm # p"
  shows "kernel_inv (set_prog (fst (sema_try_down s sm)) (running s) p)"
proof -
  let ?s = "fst (sema_try_down s sm)"
  have s: "sched_inv s" "prog_inv s" using assms(1) by (auto simp: kernel_inv_def)
  have "sm \<noteq> LockSema l" for l using prog_head(1) [OF s(2) assms(2)] by auto
  then have "quiet s ?s" by (auto simp: quiet_def sema_try_down_def)
  moreover have "sched_inv ?s" using s(1) sched_sema_value [OF s(1)] by (simp add: sema_try_down_def)
  ultimately have "kernel_inv ?s" by (rule kernel_quiet [OF assms(1)])
  moreover have "prog ?s = prog s" "running ?s = running s" "idle_thread ?s = idle_thread s"
    by (simp_all add: sema_try_down_def)
  ultimately show ?thesis
    using kernel_advance [of ?s "TryDown sm" p] assms(2) not_idle [OF s(1) assms(2)] by simp
qed

lemma kernel_idle_start:
  assumes "kernel_inv s" "prog s (running s) = IdleStart sm # p"
  shows "kernel_inv (set_prog (s\<lparr>idle_thread := Some (running s)\<rparr>) (running s) [Up sm, IdleLoop])" (is "kernel_inv ?s")
proof -
  have s: "sched_inv s" "prog_inv s" "mutex_inv s" and q: "queues_inv s"
    using assms(1) by (auto simp: kernel_inv_def sched_inv_def)
  have u: "unlisted s (running s)" by (rule unlisted_running [OF s(1)])
  have "\<not> has_status s (running s) THREAD_DYING" using s(1) has_status_unique by (fastforce simp: sched_inv_def)
  then have "queues_inv ?s"
    using q u running_exists [OF s(1)] unfolding queues_inv_def unlisted_def by (auto split: if_splits)
  then have "sched_inv ?s" using s(1) by (simp add: sched_inv_def)
  moreover have "prog_inv ?s"
  proof -
    have "sm \<noteq> LockSema l" for l using prog_head(1) [OF s(2) assms(2)] by auto
    then have "inner_instr (Up sm)" by (cases sm) auto
    then have "prog_inv (set_prog s (running s) [Up sm, IdleLoop])"
      by (intro prog_inv_prog [OF s(2) _ running_exists [OF s(1)]]) (use assms(2) in auto)
    then show ?thesis by (simp add: prog_inv_def)
  qed
  moreover have "mutex_inv ?s"
  proof -
    have "mutex_inv (set_prog s (running s) [Up sm, IdleLoop])"
      by (rule mutex_prog [OF s(3) not_in_phase [OF assms(2)]]) auto
    moreover have "mutex_inv ?s = mutex_inv (set_prog s (running s) [Up sm, IdleLoop])" by (rule mutex_cong) auto
    ultimately show ?thesis by simp
  qed
  ultimately show ?thesis by (simp add: kernel_inv_def)
qed

lemma kernel_idle_block:
  assumes "kernel_inv s" "thread_block (s\<lparr>intr_on := False\<rparr>) = Inr s'"
  shows "kernel_inv s'"
proof (rule kernel_quiet [OF assms(1)])
  have s: "sched_inv s" using assms(1) by (simp add: kernel_inv_def)
  show "sched_inv s'" by (rule idle_block_inv [OF s assms(2)])
  have "unlisted (s\<lparr>intr_on := False\<rparr>) (running s)" using unlisted_running [OF s] by (simp add: unlisted_def)
  then have "queues_inv (set_status (s\<lparr>intr_on := False\<rparr>) (running s) THREAD_BLOCKED)"
    by (intro queues_status) (use s in \<open>auto simp: sched_inv_def\<close>)
  from thread_block_quiet [OF s this _ _ _ assms(2)] show "quiet s s'" by simp
qed

lemma kernel_yield:
  assumes "kernel_inv s" "thread_yield s = Inr s'"
  shows "kernel_inv s'"
proof -
  have s: "sched_inv s" using assms(1) by (simp add: kernel_inv_def)
  show ?thesis by (rule kernel_quiet [OF assms(1) thread_yield_quiet [OF s assms(2)] thread_yield_inv [OF s assms(2)]])
qed

lemma exec_instr_inv:
  assumes "kernel_inv s" "prog s (running s) = i # p" "allowed s i" "exec_instr s i p = Inr s'"
  shows "kernel_inv s'"
proof -
  have s: "sched_inv s" "prog_inv s" using assms(1) by (auto simp: kernel_inv_def)
  note [simp] = thread_current_inv [OF s(1)]
  have idle: "idle_thread s \<noteq> Some (running s)" if "i \<noteq> IdleLoop" "\<And>sm. i \<noteq> Up sm"
    by (rule not_idle [OF s(1) assms(2) that])
  show ?thesis
  proof (cases i)
    case (Down sm)
    with assms kernel_down [OF assms(1), of sm p] show ?thesis by (auto split: sum.splits)
  next
    case (TryDown sm)
    with assms kernel_try_down [OF assms(1), of sm p] show ?thesis
      by (auto simp: sema_try_down_def split: prod.splits if_splits)
  next
    case (Up sm)
    with assms obtain s1 where s1: "sema_up s sm = Inr s1" "s' = set_prog s1 (running s1) p" by (auto split: sum.splits)
    have "sm \<noteq> LockSema l" for l using prog_head(1) [OF s(2) assms(2)] Up by auto
    note u = kernel_up [OF assms(1) s1(1) this]
    have "idle_thread s = Some (running s) \<Longrightarrow> p = [IdleLoop]"
      using queuesD(10) [of s "running s"] s(1) assms(2) Up by (auto simp: sched_inv_def)
    then show ?thesis unfolding s1(2) by (intro kernel_advance [OF u(1)]) (use u(2-4) assms(2) Up in auto)
  next
    case (LockAcquire l)
    with assms kernel_lock_acquire [OF assms(1)] show ?thesis by simp
  next
    case (AcquireDown l)
    with assms kernel_acquire_down [OF assms(1), of l p] show ?thesis by (auto split: sum.splits)
  next
    case (AcquireHold l)
    with assms kernel_hold [OF assms(1), of l p] show ?thesis by auto
  next
    case (LockTryAcquire l)
    with assms kernel_try_acquire [OF assms(1)] show ?thesis by simp
  next
    case (LockRelease l)
    with assms kernel_release [OF assms(1), of l p] show ?thesis
      by (auto simp: lock_release_def lock_held_by_current_thread_def split: if_splits)
  next
    case (ReleaseUp l)
    with assms kernel_release_up [OF assms(1), of l p] show ?thesis by (auto split: sum.splits)
  next
    case (CondWait c l w)
    with assms kernel_cond_wait [OF assms(1)] show ?thesis by simp
  next
    case (CondSignal c l)
    with assms kernel_cond_signal [OF assms(1)] show ?thesis by simp
  next
    case (CondBroadcast c l)
    with assms kernel_broadcast [OF assms(1)] show ?thesis by simp
  next
    case Yield
    with idle have "kernel_inv (set_prog s (running s) p)" by (intro kernel_advance [OF assms(1,2)]) auto
    with assms(4) Yield kernel_yield show ?thesis by simp
  next
    case Exit
    with assms thread_exit_quiet [OF s(1), of s' p] kernel_quiet [OF assms(1)] show ?thesis by simp
  next
    case (Create name prio page)
    with assms kernel_create [OF assms(1)] show ?thesis by simp
  next
    case (TakeTid t)
    with assms kernel_take_tid [OF assms(1), of t p] show ?thesis by simp
  next
    case (StartThread t)
    with assms kernel_start [OF assms(1), of t p] show ?thesis by (auto split: sum.splits)
  next
    case (IdleStart sm)
    with assms kernel_idle_start [OF assms(1), of sm p] show ?thesis by auto
  next
    case IdleLoop
    with assms kernel_idle_block [OF assms(1)] show ?thesis by simp
  qed
qed


lemma kernel_call:
  assumes "kernel_inv s" "prog s (running s) = []" "\<And>i. i \<in> set p \<Longrightarrow> client_instr i"
  shows "kernel_inv (set_prog s (running s) p)" (is "kernel_inv ?s")
proof -
  have s: "sched_inv s" "prog_inv s" "mutex_inv s" using assms(1) by (auto simp: kernel_inv_def)
  have c: "client_instr i \<Longrightarrow> inner_instr i" for i by (cases i) auto
  have ph: "client_instr i \<Longrightarrow> \<not> phase_instr i" for i by (cases i) auto
  have ns: "StartThread t \<notin> set p" for t using assms(3) by force
  have nr: "\<not> has_status s (running s) THREAD_BLOCKED" using s(1) has_status_unique by (fastforce simp: sched_inv_def)
  have "sched_inv ?s" by (rule sched_inv_prog [OF s(1)]) (use not_idle_Nil [OF s(1) assms(2)] in simp)
  moreover have "prog_inv ?s"
    unfolding prog_inv_def
  proof (intro conjI allI ballI impI)
    fix u i q
    assume "prog ?s u = i # q"
    then show "phase_instr i \<or> inner_instr i" "\<And>j. j \<in> set q \<Longrightarrow> inner_instr j"
      using prog_head(1,2) [OF s(2), of u i q] assms(3) c by (auto split: if_splits)
  next
    fix u
    assume "threads ?s u = None"
    then show "prog ?s u = [] \<or> hd (prog ?s u) = Exit" using freedD [OF s(2), of u] running_exists [OF s(1)] by auto
  next
    fix u v
    assume "StartThread v \<in> set (prog ?s u)"
    then have v: "StartThread v \<in> set (prog s u)" "u \<noteq> running s" using ns by (auto split: if_splits)
    note d = pendingD [OF s(2) v(1)]
    show "has_status ?s v THREAD_BLOCKED" "count_list (prog ?s u) (StartThread v) = 1" using d v(2) by simp_all
    show "prog ?s v = []" using d(1,2) nr by auto
    fix w
    assume "StartThread v \<in> set (prog ?s w)"
    then have "StartThread v \<in> set (prog s w)" using ns by (auto split: if_splits)
    then show "w = u" by (rule d(4))
  qed (use s(2) in \<open>auto simp: prog_inv_def\<close>)
  moreover have "mutex_inv ?s"
    by (rule mutex_prog [OF s(3)]) (use assms(2,3) ph in \<open>cases p; auto simp: in_phase_def\<close>)+
  ultimately show ?thesis by (simp add: kernel_inv_def)
qed

lemma kernel_tick:
  assumes "kernel_inv s" "thread_tick s = Inr (s', yield)"
  shows "kernel_inv s'"
proof -
  have s: "sched_inv s" using assms(1) by (simp add: kernel_inv_def)
  obtain a b c d where s': "s' = s\<lparr>idle_ticks := a, user_ticks := b, kernel_ticks := c, thread_ticks := d\<rparr>"
  proof -
    have "s' = s\<lparr>idle_ticks := idle_ticks s', user_ticks := user_ticks s', kernel_ticks := kernel_ticks s', thread_ticks := thread_ticks s'\<rparr>"
      using assms(2) thread_current_inv [OF s] by (auto simp: thread_tick_def Let_def)
    then show ?thesis by (rule that)
  qed
  have hs: "has_status s' = has_status s" unfolding s' by (simp add: has_status_def fun_eq_iff)
  have "sched_inv s'" using s unfolding sched_inv_def queues_inv_def hs by (simp add: s')
  moreover have "quiet s s'" unfolding quiet_def hs by (simp add: s')
  ultimately show ?thesis by (intro kernel_quiet [OF assms(1)])
qed

inductive_cases kstepE [elim]: "kstep s s'"

lemma kstep_inv:
  assumes "kstep s s'" "kernel_inv s"
  shows "kernel_inv s'"
  using assms(1)
proof cases
  case (kstep_instr i p)
  then show ?thesis using exec_instr_inv [OF assms(2)] by blast
next
  case (kstep_call p)
  then show ?thesis using kernel_call [OF assms(2)] by simp
next
  case kstep_tick
  then show ?thesis using kernel_tick [OF assms(2)] by blast
next
  case (kstep_preempt s1)
  then show ?thesis using kernel_tick [OF assms(2)] kernel_yield by blast
qed

section \<open>Reachable states\<close>

text \<open>
  Invariants of a transition system: what holds at the start and is kept by every step holds in
  every reachable state.
\<close>

locale transition_system =
  fixes step :: "'s \<Rightarrow> 's \<Rightarrow> bool" and start :: "'s \<Rightarrow> bool" and inv :: "'s \<Rightarrow> bool"
  assumes inv_start: "start s \<Longrightarrow> inv s"
    and inv_step: "inv s \<Longrightarrow> step s s' \<Longrightarrow> inv s'"
begin

lemma inv_reachable:
  assumes "step\<^sup>*\<^sup>* s s'" "start s"
  shows "inv s'"
  using assms by (induction rule: rtranclp_induct) (auto intro: inv_start inv_step)

end

text \<open>
  The state the loader leaves: no threads, and every lock initialized before the first thread
  can use it.
\<close>

definition boot_state :: "sched \<Rightarrow> bool" where
  "boot_state s \<longleftrightarrow> \<not> intr_on s \<and> (\<forall>t. threads s t = None \<and> prog s t = []) \<and> idle_thread s = None
     \<and> (\<forall>c. conds s c = []) \<and> (\<forall>sm. sem_waiters (semas s sm) = []) \<and> (\<forall>l. holder s l = None)
     \<and> (\<forall>l. sem_value (semas s (LockSema l)) = 1)"

text \<open>The state in which \<open>thread_start\<close> has just been called.\<close>

definition started :: "sched \<Rightarrow> bool" where
  "started s \<longleftrightarrow> (\<exists>b t s0 page a. boot_state b \<and> thread_init b t = Inr s0 \<and> s = thread_start page (Sema a) s0)"

lemma thread_init_result:
  assumes "boot_state b" "thread_init b t = Inr s"
  shows "kernel_inv s" "prog s (running s) = []"
proof -
  let ?l = "(lock_init b (tid_lock b))\<lparr>ready_list := [], initial_thread := t, running := t\<rparr>"
  from assms(2) obtain s2 where i: "init_thread ?l t [109, 97, 105, 110] PRI_DEFAULT = Inr s2"
    and s: "s = lock_init (allocate_tid (set_status s2 t THREAD_RUNNING) t) (handlesem (allocate_tid (set_status s2 t THREAD_RUNNING) t))"
    by (auto simp: thread_init_def Let_def split: if_splits sum.splits)
  from i obtain f x where s2: "s2 = ?l\<lparr>threads := (threads ?l)(t \<mapsto> x), prog := (prog ?l)(t := []), semas := f\<rparr>"
    and x: "status x = THREAD_BLOCKED" "t_magic x = THREAD_MAGIC"
    and f: "\<And>l. f (LockSema l) = semas ?l (LockSema l)" "\<And>sm. f sm = semas ?l sm \<or> sem_waiters (f sm) = []"
    by (rule init_thread_result) blast
  have b: "threads b u = None" "prog b u = []" "idle_thread b = None" "conds b c = []" "sem_waiters (semas b sm) = []"
      "holder b l = None" "sem_value (semas b (LockSema l)) = 1" for u c sm l
    using assms(1) by (auto simp: boot_state_def)
  have fields: "prog s u = []" "idle_thread s = None" "conds s c = []" "holder s l = None" "running s = t" "ready_list s = []"
      "semas s = f(LockSema (handlesem (allocate_tid (set_status s2 t THREAD_RUNNING) t)) := \<lparr>sem_value = 1, sem_waiters = []\<rparr>)" for u c l
    unfolding s s2 by (simp_all add: allocate_tid_def lock_init_def sema_init_def b)
  define y where "y = x\<lparr>status := THREAD_RUNNING, tid := next_tid b\<rparr>"
  have th: "threads s u = (if u = t then Some y else None)" "status y = THREAD_RUNNING" "t_magic y = THREAD_MAGIC" for u
    unfolding s s2 y_def using x(2)
    by (simp_all add: allocate_tid_def lock_init_def sema_init_def set_status_def set_sema_def b)
  have w: "sem_waiters (f sm) = []" for sm using f(2) [of sm] b(5) by (auto simp: lock_init_def sema_init_def)
  have v: "sem_value (f (LockSema l)) = 1" for l using f(1) [of l] b(7) [of l] by (simp add: lock_init_def sema_init_def)
  have hs: "has_status s u st \<longleftrightarrow> u = t \<and> st = THREAD_RUNNING" for u st
    by (auto simp: has_status_def th)
  have "sched_inv s" by (simp add: sched_inv_def queues_inv_def hs fields w th)
  moreover have "prog_inv s" by (simp add: prog_inv_def fields)
  moreover have "mutex_inv s" by (simp add: mutex_inv_def owner_def in_phase_def fields v)
  ultimately show "kernel_inv s" by (simp add: kernel_inv_def)
  show "prog s (running s) = []" by (rule fields)
qed

interpretation kernel: transition_system kstep started kernel_inv
proof
  fix s
  assume "started s"
  then obtain b t s0 page a where s: "boot_state b" "thread_init b t = Inr s0" "s = thread_start page (Sema a) s0"
    by (auto simp: started_def)
  note i = thread_init_result [OF s(1,2)]
  have "kernel_inv (sema_init s0 (Sema a) 0)" by (rule kernel_sema_init [OF i(1)]) simp
  moreover have "running (sema_init s0 (Sema a) 0) = running s0" "prog (sema_init s0 (Sema a) 0) = prog s0"
    by (simp_all add: sema_init_def)
  ultimately show "kernel_inv s"
    unfolding s(3) thread_start_def using i(2) kernel_call [of "sema_init s0 (Sema a) 0"] by fastforce
qed (rule kstep_inv)


section \<open>No assertion fails\<close>

lemma schedule_tail_total: "\<not> intr_on s \<Longrightarrow> prev \<noteq> Some (running s) \<Longrightarrow> \<exists>s'. schedule_tail s prev = Inr s'"
  by (cases prev) (simp_all add: schedule_tail_def Let_def)

lemma next_thread_total:
  assumes "queues_inv s" "ready_list s \<noteq> [] \<or> idle_thread s \<noteq> None"
  shows "\<exists>s1 nt. next_thread_to_run s = (s1, Some nt) \<and> is_thread s1 (Some nt) \<and> running s1 = running s
    \<and> intr_on s1 = intr_on s \<and> has_status s1 = has_status s"
proof -
  have th: "is_thread s (Some u)" if "threads s u \<noteq> None" for u
    using that queuesD(1) [OF assms(1)] by (auto simp: is_thread_def)
  show ?thesis
  proof (cases "ready_list s")
    case Nil
    with assms(2) obtain i where "idle_thread s = Some i" by auto
    with Nil th [OF queuesD(7) [OF assms(1)]] show ?thesis by (simp add: next_thread_to_run_def)
  next
    case (Cons u us)
    have "has_status s u THREAD_READY" by (rule queuesD(3) [OF assms(1)]) (simp add: Cons)
    from th [OF has_status_exists [OF this]] Cons show ?thesis
      by (simp add: next_thread_to_run_def is_thread_def)
  qed
qed

lemma schedule_total:
  assumes "transit s" "\<not> intr_on s" "ready_list s \<noteq> [] \<or> idle_thread s \<noteq> None"
  obtains s' where "schedule s = Inr s'"
proof -
  have "queues_inv s" using assms(1) by (simp add: transit_def)
  then obtain s1 nt where n: "next_thread_to_run s = (s1, Some nt)" "is_thread s1 (Some nt)" "running s1 = running s"
      "intr_on s1 = intr_on s" "has_status s1 = has_status s"
    using next_thread_total assms(3) by blast
  then have sch: "schedule s = (if running s \<noteq> nt then schedule_tail (s1\<lparr>running := nt\<rparr>) (Some (running s)) else schedule_tail s1 None)"
    using assms(1,2) by (simp add: schedule_def transit_def)
  show ?thesis
  proof (cases "running s = nt")
    case True
    then show ?thesis using sch schedule_tail_total [of s1 None] n(4) assms(2) that by auto
  next
    case False
    then have "Some (running s) \<noteq> Some (running (s1\<lparr>running := nt\<rparr>))" by simp
    from schedule_tail_total [OF _ this] False sch n(4) assms(2) that show ?thesis by auto
  qed
qed

lemma thread_yield_total:
  assumes "sched_inv s"
  obtains s' where "thread_yield s = Inr s'"
proof -
  let ?t = "running s" and ?s1 = "s\<lparr>intr_on := False\<rparr>"
  let ?s2 = "if Some ?t \<noteq> idle_thread s then ?s1\<lparr>ready_list := ready_list s @ [?t]\<rparr> else ?s1"
  have q: "queues_inv ?s1" and u: "unlisted ?s1 ?t" and e: "threads ?s1 ?t \<noteq> None"
    using assms(1) unlisted_running [OF assms(1)] running_exists [OF assms(1)]
    by (simp_all add: sched_inv_def unlisted_def)
  have "queues_inv (set_status ?s2 ?t THREAD_READY)"
    using queues_push_ready [OF q u _ e] queues_status [OF q u, of THREAD_READY] by auto
  then have "transit (set_status ?s2 ?t THREAD_READY)" by (rule transit_status [OF assms(1)]) (auto split: if_splits)
  then obtain s3 where "schedule (set_status ?s2 ?t THREAD_READY) = Inr s3"
    by (rule schedule_total) (simp, (cases "idle_thread s"; simp))
  then show ?thesis using that assms by (auto simp: thread_yield_def Let_def cong: if_cong)
qed

lemma thread_exit_total:
  assumes "sched_inv s" "idle_thread s \<noteq> Some (running s)" "idle_thread s \<noteq> None"
  obtains s' where "thread_exit s = Inr s'"
proof -
  let ?t = "running s" and ?s1 = "s\<lparr>intr_on := False\<rparr>"
  have q: "queues_inv ?s1" and u: "unlisted ?s1 ?t"
    using assms(1) unlisted_running [OF assms(1)] by (simp_all add: sched_inv_def unlisted_def)
  have "queues_inv (set_status ?s1 ?t THREAD_DYING)" by (rule queues_status [OF q u]) (use assms(2) in simp)
  then have "transit (set_status ?s1 ?t THREAD_DYING)" by (rule transit_status [OF assms(1)]) auto
  then obtain s3 where "schedule (set_status ?s1 ?t THREAD_DYING) = Inr s3" by (rule schedule_total) (use assms(3) in auto)
  then show ?thesis using that assms by (auto simp: thread_exit_def)
qed

lemma thread_block_total:
  assumes "sched_inv s" "queues_inv (set_status s1 (running s) THREAD_BLOCKED)" "has_status s1 = has_status s"
    and "running s1 = running s" "threads s1 = threads s" "\<not> intr_on s1" "idle_thread s1 \<noteq> None"
  obtains s' where "thread_block s1 = Inr s'"
proof -
  have c: "thread_current s1 = Inr (running s)"
    using thread_current_inv [OF assms(1)] assms(3-5) by (simp add: thread_current_def is_thread_def)
  have "transit (set_status s1 (running s) THREAD_BLOCKED)" by (rule transit_status [OF assms(1,2) _ assms(3)]) simp
  then obtain s3 where "schedule (set_status s1 (running s) THREAD_BLOCKED) = Inr s3"
    by (rule schedule_total) (use assms(6,7) in auto)
  then show ?thesis using that assms(6) c by (auto simp: thread_block_def)
qed

lemma sema_down_total:
  assumes "sched_inv s" "waits_for (prog s (running s)) sm" "idle_thread s \<noteq> None"
  obtains s' b where "sema_down s sm = Inr (s', b)"
proof (cases "sem_value (semas s sm) = 0")
  case False
  then show ?thesis using that by (simp add: sema_down_def Let_def)
next
  case True
  let ?s1 = "s\<lparr>intr_on := False\<rparr>"
  let ?s2 = "set_sema ?s1 sm ((semas ?s1 sm)\<lparr>sem_waiters := sem_waiters (semas ?s1 sm) @ [running s]\<rparr>)"
  have "unlisted ?s1 (running s)" using unlisted_running [OF assms(1)] by (simp add: unlisted_def)
  then have q: "queues_inv (set_status ?s2 (running s) THREAD_BLOCKED)"
    by (intro queues_push_waiter) (use assms(1,2) running_exists [OF assms(1)] in \<open>auto simp: sched_inv_def\<close>)
  obtain s' where "thread_block ?s2 = Inr s'" by (rule thread_block_total [OF assms(1) q]) (use assms(3) in auto)
  then show ?thesis using that [of s' False] True sched_inv_intr_current [OF assms(1)] by (simp add: sema_down_def Let_def)
qed


text \<open>
  What a caller must not do: acquire a lock it holds, release or wait on or signal with a lock
  it does not hold, create a thread with a priority out of range.
\<close>

definition misuse :: "sched \<Rightarrow> instr \<Rightarrow> bool" where
  "misuse s i \<longleftrightarrow> (case i of
     LockAcquire l \<Rightarrow> holder s l = Some (running s)
   | LockTryAcquire l \<Rightarrow> holder s l = Some (running s)
   | LockRelease l \<Rightarrow> holder s l \<noteq> Some (running s)
   | CondWait _ l _ \<Rightarrow> holder s l \<noteq> Some (running s)
   | CondSignal _ l \<Rightarrow> holder s l \<noteq> Some (running s)
   | Create _ prio _ \<Rightarrow> \<not> (PRI_MIN \<le> prio \<and> prio \<le> PRI_MAX)
   | _ \<Rightarrow> False)"

lemma is_threadI: "queues_inv s \<Longrightarrow> has_status s t st \<Longrightarrow> is_thread s (Some t)"
  by (auto simp: is_thread_def has_status_def dest: queuesD(1) split: option.splits)

lemma start_thread_total:
  assumes "kernel_inv s" "has_status s t THREAD_BLOCKED"
  shows "\<exists>s'. start_thread s t = Inr s'"
proof -
  have frame: "\<exists>s1. alloc_frame s0 t z = Inr s1 \<and> unseen s0 s1 \<and> has_status s1 t THREAD_BLOCKED"
    if "kernel_inv s0" "has_status s0 t THREAD_BLOCKED" "z mod 4 = 0" for s0 z
  proof -
    have "is_thread s0 (Some t)"
      by (rule is_threadI [OF _ that(2)]) (use that(1) in \<open>simp add: kernel_inv_def sched_inv_def\<close>)
    with that(3) have "\<exists>s1. alloc_frame s0 t z = Inr s1" by (simp add: alloc_frame_def)
    then obtain s1 where s1: "alloc_frame s0 t z = Inr s1" by blast
    with unseen_frame [OF that(1) s1] that(2) show ?thesis by (simp add: unseen_def)
  qed
  obtain sa where a: "alloc_frame s t 12 = Inr sa" "unseen s sa" "has_status sa t THREAD_BLOCKED" using frame [OF assms, of 12] by auto
  have ka: "kernel_inv sa" using a(2) by (simp add: unseen_def)
  obtain sb where b: "alloc_frame sa t 4 = Inr sb" "unseen sa sb" "has_status sb t THREAD_BLOCKED" using frame [OF ka a(3), of 4] by auto
  have kb: "kernel_inv sb" using b(2) by (simp add: unseen_def)
  obtain sc where c: "alloc_frame sb t 28 = Inr sc" "unseen sb sc" "has_status sc t THREAD_BLOCKED" using frame [OF kb b(3), of 28] by auto
  have kc: "kernel_inv sc" using c(2) by (simp add: unseen_def)
  let ?c = "running sc"
  let ?s = "sc\<lparr>threads := (threads sc)(?c := map_option (\<lambda>x. x\<lparr>childrenlist := childrenlist x @ [t]\<rparr>) (threads sc ?c))\<rparr>"
  have u: "unseen sc ?s" by (rule unseen_upd [OF kc]) simp_all
  then have "has_status ?s t THREAD_BLOCKED" "queues_inv ?s" using c(3) by (simp_all add: unseen_def kernel_inv_def sched_inv_def)
  then have "is_thread ?s (Some t)" by (intro is_threadI)
  moreover have "thread_current sc = Inr ?c" using kc by (simp add: kernel_inv_def)
  ultimately show ?thesis
    using a(1) b(1) c(1) \<open>has_status ?s t THREAD_BLOCKED\<close> unfolding start_thread_def thread_unblock_def by simp
qed

lemma exec_instr_total:
  assumes "kernel_inv s" "prog s (running s) = i # p" "idle_thread s \<noteq> None" "\<not> misuse s i"
  shows "\<exists>s'. exec_instr s i p = Inr s'"
proof -
  have s: "sched_inv s" "prog_inv s" using assms(1) by (auto simp: kernel_inv_def)
  note [simp] = thread_current_inv [OF s(1)] lock_held_inv [OF s(1)]
  have up: "\<exists>s'. sema_up (s\<lparr>conds := f\<rparr>) sm = Inr s'" for sm f using sema_up_inv [of "s\<lparr>conds := f\<rparr>" sm] s(1) by auto
  have up': "\<exists>s'. sema_up s sm = Inr s'" for sm using sema_up_inv [OF s(1), of sm] by auto
  have down: "\<exists>s' b. sema_down s sm = Inr (s', b)" if "waits_for (i # p) sm" for sm
    using sema_down_total [OF s(1) _ assms(3), of sm] that assms(2) by metis
  show ?thesis
  proof (cases i)
    case (Down sm)
    with down [of sm] show ?thesis by (auto simp: waits_for_def)
  next
    case (TryDown sm)
    then show ?thesis by (simp split: prod.split)
  next
    case (AcquireDown l)
    with down [of "LockSema l"] show ?thesis by (auto simp: waits_for_def)
  next
    case (LockTryAcquire l)
    with assms(4) show ?thesis by (simp add: lock_try_acquire_def misuse_def split: prod.split)
  next
    case (CondSignal c l)
    have "\<exists>s'. cond_signal s c l p = Inr s'"
    proof (cases "conds s c")
      case (Cons w ws)
      with up [of "(conds s)(c := ws)" w] assms(4) \<open>i = CondSignal c l\<close> show ?thesis
        by (auto simp: cond_signal_def misuse_def)
    qed (use assms(4) \<open>i = CondSignal c l\<close> in \<open>simp add: cond_signal_def misuse_def\<close>)
    with CondSignal show ?thesis by simp
  next
    case Yield
    have "sched_inv (set_prog s (running s) p)"
      by (rule sched_inv_prog [OF s(1)]) (use not_idle [OF s(1) assms(2)] Yield in auto)
    then obtain s' where "thread_yield (set_prog s (running s) p) = Inr s'" by (rule thread_yield_total)
    with Yield show ?thesis by simp
  next
    case Exit
    then have "idle_thread s \<noteq> Some (running s)" by (intro not_idle [OF s(1) assms(2)]) auto
    then obtain s' where "thread_exit s = Inr s'" using assms(3) by (rule thread_exit_total [OF s(1)])
    with Exit show ?thesis by simp
  next
    case (Create name prio page)
    with assms(4) show ?thesis by (cases page) (simp_all add: thread_create_def init_thread_def misuse_def Let_def)
  next
    case (StartThread t)
    have "has_status s t THREAD_BLOCKED" by (rule pendingD(1) [OF s(2), of t "running s"]) (simp add: assms(2) StartThread)
    then obtain s' where "start_thread s t = Inr s'" using start_thread_total [OF assms(1)] by blast
    with StartThread show ?thesis by simp
  next
    case IdleLoop
    have "unlisted (s\<lparr>intr_on := False\<rparr>) (running s)" using unlisted_running [OF s(1)] by (simp add: unlisted_def)
    then have q: "queues_inv (set_status (s\<lparr>intr_on := False\<rparr>) (running s) THREAD_BLOCKED)"
      by (intro queues_status) (use s(1) in \<open>auto simp: sched_inv_def\<close>)
    obtain s' where "thread_block (s\<lparr>intr_on := False\<rparr>) = Inr s'"
      by (rule thread_block_total [OF s(1) q]) (use assms(3) in auto)
    with IdleLoop show ?thesis by simp
  next
    case (Up sm)
    with up' [of sm] show ?thesis by auto
  next
    case (ReleaseUp l)
    with up' [of "LockSema l"] show ?thesis by auto
  qed (use assms(4) in \<open>simp_all add: lock_acquire_def lock_release_def cond_wait_def cond_broadcast_def misuse_def Let_def\<close>)
qed


section \<open>Yielding in turn\<close>

lemma thread_yield_result:
  assumes "sched_inv s" "thread_yield s = Inr s'"
  shows "ready_list s \<noteq> [] \<Longrightarrow> running s' = hd (ready_list s)"
    "\<exists>xs. ready_list s' = tl (ready_list s) @ xs \<or> ready_list s = []" "idle_thread s' = idle_thread s"
proof -
  let ?t = "running s" and ?s1 = "s\<lparr>intr_on := False\<rparr>"
  let ?s2 = "if Some ?t \<noteq> idle_thread s then ?s1\<lparr>ready_list := ready_list s @ [?t]\<rparr> else ?s1"
  let ?s3 = "set_status ?s2 ?t THREAD_READY"
  obtain s3 where s3: "schedule ?s3 = Inr s3" "s' = resume_level s3"
    using assms by (auto simp: thread_yield_def Let_def cong: if_cong)
  from s3(1) obtain nt where n: "s3 = ?s3\<lparr>ready_list := tl (ready_list ?s3), running := nt, thread_ticks := 0, threads := switched ?s3 nt\<rparr>"
    "ready_list ?s3 \<noteq> [] \<Longrightarrow> nt = hd (ready_list ?s3)" by (rule schedule_result) blast
  have r: "ready_list ?s3 = ready_list s @ (if Some ?t \<noteq> idle_thread s then [?t] else [])" by simp
  show "ready_list s \<noteq> [] \<Longrightarrow> running s' = hd (ready_list s)"
    using n unfolding s3(2) by (simp add: resume_level_def)
  have rl: "ready_list s' = tl (ready_list ?s3)" unfolding s3(2) resume_level_def by (subst n(1)) simp
  show "\<exists>xs. ready_list s' = tl (ready_list s) @ xs \<or> ready_list s = []"
    unfolding rl r by (cases "ready_list s") auto
  show "idle_thread s' = idle_thread s" unfolding s3(2) resume_level_def by (subst n(1)) simp
qed

text \<open>\<open>n\<close> calls of \<open>thread_yield\<close>, each by the thread that is then running.\<close>

primrec yields :: "nat \<Rightarrow> sched \<Rightarrow> sched res" where
  "yields 0 s = Inr s"
| "yields (Suc n) s = rbind (thread_yield s) (yields n)"

lemma yields_reach:
  assumes "sched_inv s" "k < length (ready_list s)"
  shows "\<exists>s'. yields (Suc k) s = Inr s' \<and> running s' = ready_list s ! k"
  using assms
proof (induction k arbitrary: s)
  case 0
  obtain s' where y: "thread_yield s = Inr s'" using thread_yield_total [OF 0(1)] .
  moreover have "running s' = hd (ready_list s)" using thread_yield_result(1) [OF 0(1) y] 0(2) by simp
  ultimately show ?case using 0(2) by (simp add: hd_conv_nth)
next
  case (Suc k)
  obtain s1 where y: "thread_yield s = Inr s1" using thread_yield_total [OF Suc.prems(1)] .
  obtain xs where r: "ready_list s1 = tl (ready_list s) @ xs"
    using thread_yield_result(2) [OF Suc.prems(1) y] Suc.prems(2) by auto
  have k: "k < length (tl (ready_list s))" using Suc.prems(2) by simp
  then have "ready_list s1 ! k = ready_list s ! Suc k" using r by (simp add: nth_append nth_tl)
  moreover have "\<exists>s'. yields (Suc k) s1 = Inr s' \<and> running s' = ready_list s1 ! k"
    by (rule Suc.IH [OF thread_yield_inv [OF Suc.prems(1) y]]) (use k r in simp)
  ultimately show ?case using y by simp
qed

section \<open>An execution\<close>

text \<open>
  Running the kernel for a number of steps, with the programs that threads with nothing left
  to do take up in turn.
\<close>

fun run :: "nat \<Rightarrow> instr list list \<Rightarrow> sched \<Rightarrow> sched res" where
  "run 0 ps s = Inr s"
| "run (Suc n) ps s =
     (case prog s (running s) of
        [] \<Rightarrow> (case ps of [] \<Rightarrow> Inr s
             | p # ps' \<Rightarrow> kassert (list_all client_instr p) (run n ps' (set_prog s (running s) p)))
      | i # p \<Rightarrow> kassert (allowed s i) (rbind (exec_instr s i p) (run n ps)))"

lemma run_reaches: "run n ps s = Inr s' \<Longrightarrow> kstep\<^sup>*\<^sup>* s s'"
proof (induction n ps s rule: run.induct)
  case (2 n ps s)
  show ?case
  proof (cases "prog s (running s)")
    case Nil
    show ?thesis
    proof (cases ps)
      case (Cons p ps')
      with Nil 2 have "kstep\<^sup>*\<^sup>* (set_prog s (running s) p) s'" "kstep s (set_prog s (running s) p)"
        by (auto simp: list_all_iff intro: kstep_call)
      then show ?thesis by (rule converse_rtranclp_into_rtranclp [rotated])
    qed (use Nil 2 in simp)
  next
    case (Cons i p)
    with 2(3) obtain s1 where s1: "allowed s i" "exec_instr s i p = Inr s1" "run n ps s1 = Inr s'" by auto
    from kstep_instr [OF Cons s1(1,2)] 2(2) [OF Cons s1(3)] show ?thesis by (rule converse_rtranclp_into_rtranclp)
  qed
qed simp

text \<open>A state the loader leaves, with the page of the initial thread at 4096.\<close>

definition boot :: sched where
  "boot = \<lparr>threads = \<lambda>_. None, ready_list = [], running = 0, idle_thread = None, initial_thread = 0, tid_lock = 1, handlesem = 2,
     next_tid = 1, semas = \<lambda>_. \<lparr>sem_value = 1, sem_waiters = []\<rparr>, holder = \<lambda>_. None, conds = \<lambda>_. [],
     thread_ticks = 0, idle_ticks = 0, kernel_ticks = 0, user_ticks = 0, intr_on = False, prog = \<lambda>_. []\<rparr>"

definition first_state :: sched where
  "first_state = (case thread_init boot 4096 of Inr s \<Rightarrow> thread_start (Some 8192) (Sema 7) s | Inl _ \<Rightarrow> boot)"

lemma first_started: "started first_state"
proof -
  have "boot_state boot" by (simp add: boot_state_def boot_def)
  moreover have "\<exists>s. thread_init boot 4096 = Inr s"
    by (simp add: thread_init_def init_thread_def boot_def lock_init_def sema_init_def set_sema_def Let_def
        PRI_MIN_def PRI_MAX_def PRI_DEFAULT_def)
  ultimately show ?thesis unfolding started_def first_state_def by (metis sum.case(2))
qed

text \<open>
  The idle thread starts, the initial thread takes lock 5 and creates a thread that blocks on
  it.
\<close>

definition contended :: sched where
  "contended = (case run 29 [[IdleStart (Sema 7)], [LockAcquire 5, Create [116] 31 (Some 12288), Yield], [LockAcquire 5]] first_state
     of Inr s \<Rightarrow> s | Inl _ \<Rightarrow> boot)"

lemma run_numeral:
  "run (numeral k) ps s =
     (case prog s (running s) of
        [] \<Rightarrow> (case ps of [] \<Rightarrow> Inr s
             | p # ps' \<Rightarrow> kassert (list_all client_instr p) (run (pred_numeral k) ps' (set_prog s (running s) p)))
      | i # p \<Rightarrow> kassert (allowed s i) (rbind (exec_instr s i p) (run (pred_numeral k) ps)))"
  by (simp add: numeral_eq_Suc)

lemmas exec_simps = set_prog_def set_status_def set_sema_def has_status_def is_thread_def thread_current_def
  next_thread_to_run_def schedule_tail_def schedule_def resume_level_def thread_block_def thread_unblock_def
  thread_yield_def sema_init_def sema_down_def sema_up_def lock_init_def lock_held_by_current_thread_def
  lock_acquire_def lock_release_def init_thread_def alloc_frame_def thread_create_def allocate_tid_def
  start_thread_def thread_init_def thread_start_def allowed_def PRI_MIN_def PRI_MAX_def PRI_DEFAULT_def Let_def

lemma contended_run:
  "run 29 [[IdleStart (Sema 7)], [LockAcquire 5, Create [116] 31 (Some 12288), Yield], [LockAcquire 5]] first_state = Inr contended"
  "running contended = 12288" "prog contended 12288 = [AcquireDown 5]" "holder contended 5 = Some 4096"
  "ready_list contended = [4096]" "idle_thread contended = Some 8192"
  by (simp_all add: run_numeral exec_simps first_state_def boot_def contended_def)

lemma contended_reachable: "kstep\<^sup>*\<^sup>* first_state contended"
  by (rule run_reaches [OF contended_run(1)])

text \<open>The initial thread releases the lock after the other thread has blocked on it.\<close>

definition released :: sched where
  "released = (case run 31 [[IdleStart (Sema 7)], [LockAcquire 5, Create [116] 31 (Some 12288), Yield], [LockAcquire 5], [LockRelease 5]]
     first_state of Inr s \<Rightarrow> s | Inl _ \<Rightarrow> boot)"

lemma released_run:
  "run 31 [[IdleStart (Sema 7)], [LockAcquire 5, Create [116] 31 (Some 12288), Yield], [LockAcquire 5], [LockRelease 5]]
     first_state = Inr released"
  "running released = 4096" "sem_waiters (semas released (LockSema 5)) = [12288]" "ready_list released = []"
  by (simp_all add: run_numeral exec_simps first_state_def boot_def released_def)

section \<open>Properties\<close>

text \<open>
  C3: Mutual exclusion. In every state that any interleaving of threads, programs and timer
  interrupts reaches after \<open>thread_start\<close>, at most one thread is between getting through the
  semaphore of a lock in \<open>lock_acquire\<close> and upping it in \<open>lock_release\<close>, and the value of the
  semaphore is 0 or 1 accordingly.
\<close>

theorem lock_mutual_exclusion:
  assumes "started s0" "kstep\<^sup>*\<^sup>* s0 s"
  shows "(\<forall>t u. owner s l t \<and> owner s l u \<longrightarrow> t = u)
    \<and> sem_value (semas s (LockSema l)) = (if {t. owner s l t} = {} then 1 else 0)"
proof -
  have m: "mutex_inv s" using kernel.inv_reachable [OF assms(2,1)] by (simp add: kernel_inv_def)
  show ?thesis using mutexD(1) [OF m, of l] mutexD(3) [OF m, of l] by auto
qed

theorem lock_mutual_exclusion_witness:
  "kstep\<^sup>*\<^sup>* first_state contended \<and> running contended = 12288 \<and> {t. owner contended 5 t} = {4096}
   \<and> sem_value (semas contended (LockSema 5)) = 0"
proof -
  have o: "owner contended 5 4096" by (simp add: owner_def contended_run)
  note m = lock_mutual_exclusion [OF first_started contended_reachable, of 5]
  with o have "{t. owner contended 5 t} = {4096}" by blast
  with m show ?thesis by (simp add: contended_reachable contended_run)
qed

text \<open>
  C4: In every reachable state exactly the running thread has status \<open>THREAD_RUNNING\<close>, the run
  queue holds no thread twice and only ready threads, a waiting thread is blocked, and no
  thread is in two lists: not in two semaphores' lists of waiters, nor in one of them and in
  the run queue.
\<close>

theorem thread_in_one_queue:
  assumes "started s0" "kstep\<^sup>*\<^sup>* s0 s"
  shows "{t. has_status s t THREAD_RUNNING} = {running s} \<and> distinct (ready_list s)
    \<and> set (ready_list s) \<subseteq> {t. has_status s t THREAD_READY}
    \<and> (\<forall>sm. distinct (sem_waiters (semas s sm)) \<and> set (sem_waiters (semas s sm)) \<subseteq> {t. has_status s t THREAD_BLOCKED}
        \<and> set (ready_list s) \<inter> set (sem_waiters (semas s sm)) = {}
        \<and> (\<forall>sm'. sm = sm' \<or> set (sem_waiters (semas s sm)) \<inter> set (sem_waiters (semas s sm')) = {}))"
proof -
  have k: "sched_inv s" and q: "queues_inv s"
    using kernel.inv_reachable [OF assms(2,1)] by (simp_all add: kernel_inv_def sched_inv_def)
  have "{t. has_status s t THREAD_RUNNING} = {running s}" using k by (auto simp: sched_inv_def)
  moreover have "sm = sm' \<or> set (sem_waiters (semas s sm)) \<inter> set (sem_waiters (semas s sm')) = {}" for sm sm'
    using queuesD(6) [OF q] waits_for_unique by blast
  moreover have "set (ready_list s) \<inter> set (sem_waiters (semas s sm)) = {}" for sm using ready_not_waiting [OF q] by blast
  ultimately show ?thesis using queuesD(2-5) [OF q] by (simp add: subset_iff)
qed

theorem thread_in_one_queue_witness:
  "{t. has_status contended t THREAD_RUNNING} = {12288} \<and> set (ready_list contended) \<subseteq> {t. has_status contended t THREAD_READY}
   \<and> set (ready_list contended) \<inter> set (sem_waiters (semas contended (LockSema 5))) = {} \<and> ready_list contended = [4096]"
  using thread_in_one_queue [OF first_started contended_reachable] contended_run(2,5) by simp

text \<open>
  C5: Once the idle thread has started, no reachable state lets an operation of the running
  thread fail an assertion, whatever the interleaving, unless the caller misuses a lock it
  holds or does not hold or passes a priority out of range: \<open>schedule\<close> always finds a thread,
  \<open>thread_unblock\<close> is only called on blocked threads, and a switch never frees the thread it
  switches to.
\<close>

theorem kernel_no_assertion_fails:
  assumes "started s0" "kstep\<^sup>*\<^sup>* s0 s" "idle_thread s \<noteq> None" "prog s (running s) = i # p" "\<not> misuse s i"
  shows "\<exists>s'. exec_instr s i p = Inr s'"
  using exec_instr_total [OF kernel.inv_reachable [OF assms(2,1)] assms(4,3,5)] .

theorem kernel_no_assertion_fails_witness:
  "prog contended (running contended) = [AcquireDown 5] \<and> (\<exists>s'. exec_instr contended (AcquireDown 5) [] = Inr s')"
  using kernel_no_assertion_fails [OF first_started contended_reachable, of "AcquireDown 5" "[]"]
  by (simp add: contended_run misuse_def)

text \<open>
  C6: Round robin. In every reachable state the thread at position \<open>k\<close> of the run queue is the
  running one after \<open>k + 1\<close> yields, and none of these yields fails.
\<close>

theorem round_robin:
  assumes "started s0" "kstep\<^sup>*\<^sup>* s0 s" "k < length (ready_list s)"
  shows "\<exists>s'. yields (Suc k) s = Inr s' \<and> running s' = ready_list s ! k"
  by (rule yields_reach) (use kernel.inv_reachable [OF assms(2,1)] assms(3) in \<open>simp_all add: kernel_inv_def\<close>)

theorem round_robin_witness:
  "\<exists>s'. yields 1 contended = Inr s' \<and> running s' = 4096"
  using round_robin [OF first_started contended_reachable, of 0] by (simp add: contended_run)

text \<open>
  C7: \<open>sema_up\<close> wakes the thread that has waited longest: in a reachable state with waiters it
  takes the first of them off the list, appends it to the run queue as a ready thread, and
  adds one to the value; the other waiters and threads stay as they are. The call returns to
  the same thread.
\<close>

theorem sema_up_wakes_first:
  assumes "started s0" "kstep\<^sup>*\<^sup>* s0 s" "sem_waiters (semas s sm) = t # ts"
  shows "\<exists>s'. sema_up s sm = Inr s' \<and> sem_waiters (semas s' sm) = ts \<and> ready_list s' = ready_list s @ [t]
    \<and> has_status s' t THREAD_READY \<and> sem_value (semas s' sm) = size_wrap (sem_value (semas s sm) + 1)
    \<and> running s' = running s \<and> (\<forall>u. u = t \<or> threads s' u = threads s u) \<and> (\<forall>sm'. sm' = sm \<or> semas s' sm' = semas s sm')"
proof -
  have q: "queues_inv s" using kernel.inv_reachable [OF assms(2,1)] by (simp add: kernel_inv_def sched_inv_def)
  note p = queues_pop_waiter [OF q assms(3)]
  have "is_thread s (Some t)" by (rule is_threadI [OF q p(3)])
  then have "is_thread (set_sema s sm ((semas s sm)\<lparr>sem_waiters := ts\<rparr>)) (Some t)" by (simp add: is_thread_def)
  then show ?thesis using assms(3) p(3) has_status_exists [OF p(3)] by (auto simp: sema_up_def thread_unblock_def)
qed

theorem sema_up_wakes_first_witness:
  "sem_waiters (semas released (LockSema 5)) = [12288]
   \<and> (\<exists>s'. sema_up released (LockSema 5) = Inr s' \<and> ready_list s' = [12288] \<and> has_status s' 12288 THREAD_READY)"
  using sema_up_wakes_first [OF first_started run_reaches [OF released_run(1)] released_run(3)] released_run(3,4) by auto

end
