(* ===== verification/Arith64.thy ===== *)
theory Arith64
  imports Prelude
begin

text \<open>
  64-bit division from 32-bit division (\<open>src/lib/arithmetic.c\<close>). A divide error of the processor
  is \<open>None\<close>.
\<close>

section \<open>Operations\<close>

text \<open>The \<open>DIVL\<close> instruction divides by a 32-bit divisor and traps if the quotient needs more than 32 bits.\<close>

definition divl :: "u64 \<Rightarrow> u32 \<Rightarrow> u32 option" where
  "divl n d = (if d = 0 \<or> 2 ^ 32 \<le> unat n div unat d then None else Some (word_of_nat (unat n div unat d)))"

definition nlz :: "u32 \<Rightarrow> nat" where
  "nlz x0 =
     (let n0 = 0;
          (n1, x1) = (if x0 \<le> 0x0000FFFF then (n0 + 16, push_bit 16 x0) else (n0, x0));
          (n2, x2) = (if x1 \<le> 0x00FFFFFF then (n1 + 8, push_bit 8 x1) else (n1, x1));
          (n3, x3) = (if x2 \<le> 0x0FFFFFFF then (n2 + 4, push_bit 4 x2) else (n2, x2));
          (n4, x4) = (if x3 \<le> 0x3FFFFFFF then (n3 + 2, push_bit 2 x3) else (n3, x3)) in
      if x4 \<le> 0x7FFFFFFF then n4 + 1 else n4)"

definition udiv64 :: "u64 \<Rightarrow> u64 \<Rightarrow> u64 option" where
  "udiv64 n d =
     (if drop_bit 32 d = 0
      then let b = push_bit 32 1; n1 = ucast (drop_bit 32 n) :: u32; n0 = ucast n :: u32; d0 = ucast d :: u32 in
           if d0 = 0 then None
           else map_option (\<lambda>q. ucast q + b * ucast (n1 div d0)) (divl (b * ucast (n1 mod d0) + ucast n0) d0)
      else if n < d then Some 0
      else let d1 = ucast (drop_bit 32 d) :: u32; s = nlz d1 in
           map_option (\<lambda>q0. let q = ucast (drop_bit (31 - s) q0) :: u64 in
               if n - (q - 1) * d < d then q - 1 else q)
             (divl (drop_bit 1 n) (ucast (drop_bit 32 (push_bit s d)))))"

text \<open>The remainder is returned as a 32-bit integer.\<close>

definition umod64 :: "u64 \<Rightarrow> u64 \<Rightarrow> u32 option" where
  "umod64 n d = map_option (\<lambda>q. ucast (n - d * q)) (udiv64 n d)"

definition sdiv64 :: "u64 \<Rightarrow> u64 \<Rightarrow> u64 option" where
  "sdiv64 n d =
     (let n_abs = (if 0 \<le> sint n then n else - n); d_abs = (if 0 \<le> sint d then d else - d) in
      map_option (\<lambda>q_abs. if (sint n < 0) = (sint d < 0) then q_abs else - q_abs) (udiv64 n_abs d_abs))"

definition smod64 :: "u64 \<Rightarrow> u64 \<Rightarrow> u32 option" where
  "smod64 n d = map_option (\<lambda>q. ucast (n - d * q)) (sdiv64 n d)"

text \<open>What the compiler calls: the 32-bit remainders are extended to 64 bits.\<close>

definition divdi3 :: "u64 \<Rightarrow> u64 \<Rightarrow> u64 option" where
  "divdi3 n d = sdiv64 n d"

definition moddi3 :: "u64 \<Rightarrow> u64 \<Rightarrow> u64 option" where
  "moddi3 n d = map_option scast (smod64 n d)"

definition udivdi3 :: "u64 \<Rightarrow> u64 \<Rightarrow> u64 option" where
  "udivdi3 n d = udiv64 n d"

definition umoddi3 :: "u64 \<Rightarrow> u64 \<Rightarrow> u64 option" where
  "umoddi3 n d = map_option ucast (umod64 n d)"

section \<open>Normalizing the divisor\<close>

lemma unat_push_bit:
  assumes "unat (x :: 'a :: len word) * 2 ^ k < 2 ^ LENGTH('a)"
  shows "unat (push_bit k x) = unat x * 2 ^ k"
  by (subst unsigned_push_bit_eq) (use assms in \<open>simp add: push_bit_eq_mult take_bit_eq_mod\<close>)

lemma nlz_shift:
  assumes "unat (x :: u32) < 2 ^ m" "m + k \<le> 32"
  shows "unat (push_bit k x) = unat x * 2 ^ k"
proof (rule unat_push_bit)
  have "unat x * 2 ^ k < 2 ^ m * 2 ^ k" using assms(1) by simp
  also have "\<dots> \<le> 2 ^ LENGTH(32)" unfolding power_add [symmetric] by (rule power_increasing) (use assms(2) in auto)
  finally show "unat x * 2 ^ k < 2 ^ LENGTH(32)" .
qed

text \<open>One step: shifting by \<open>k\<close> if the top \<open>k\<close> bits are zero leaves a word whose top \<open>k\<close> bits are not all zero.\<close>

lemma nlz_stage:
  assumes "unat x = u * 2 ^ n" "2 ^ (32 - 2 * k) \<le> unat x" "0 < k" "2 * k \<le> 32" "c = (word_of_nat (2 ^ (32 - k) - 1) :: u32)"
    and "(n', x') = (if x \<le> c then (n + k, push_bit k x) else (n, x))"
  shows "unat (x' :: u32) = u * 2 ^ n'" "2 ^ (32 - k) \<le> unat x'" "n \<le> n'" "n' \<le> n + k"
proof -
  have "unat c = 2 ^ (32 - k) - 1"
    unfolding assms(5) unat_of_nat
    by (rule mod_less, rule less_imp_diff_less, rule power_strict_increasing) (use assms(3) in auto)
  then have le: "x \<le> c \<longleftrightarrow> unat x < 2 ^ (32 - k)"
    using zero_less_power [of "2 :: nat" "32 - k"] unfolding word_le_nat_alt by linarith
  have sh: "unat (push_bit k x) = unat x * 2 ^ k" if "unat x < 2 ^ (32 - k)"
    by (rule nlz_shift [OF that]) (use assms(4) in simp)
  have "2 ^ (32 - 2 * k) * 2 ^ k = (2 :: nat) ^ (32 - k)" using assms(4) by (simp flip: power_add)
  then have ge: "2 ^ (32 - k) \<le> unat x * 2 ^ k" using assms(2) by (metis mult_le_mono1)
  show "unat x' = u * 2 ^ n'" "2 ^ (32 - k) \<le> unat x'" "n \<le> n'" "n' \<le> n + k"
    using assms(1,6) le sh ge by (auto simp: power_add split: if_splits)
qed

lemma nlz_normalizes:
  assumes "x \<noteq> 0"
  shows "2 ^ 31 \<le> unat x * 2 ^ nlz x" "unat x * 2 ^ nlz x < 2 ^ 32" "nlz x \<le> 31"
proof -
  obtain n1 x1 where s1: "(n1 :: nat, x1) = (if x \<le> 0x0000FFFF then (0 + 16, push_bit 16 x) else (0, x))" by (cases "x \<le> 0x0000FFFF") auto
  obtain n2 x2 where s2: "(n2, x2) = (if x1 \<le> 0x00FFFFFF then (n1 + 8, push_bit 8 x1) else (n1, x1))" by (cases "x1 \<le> 0x00FFFFFF") auto
  obtain n3 x3 where s3: "(n3, x3) = (if x2 \<le> 0x0FFFFFFF then (n2 + 4, push_bit 4 x2) else (n2, x2))" by (cases "x2 \<le> 0x0FFFFFFF") auto
  obtain n4 x4 where s4: "(n4, x4) = (if x3 \<le> 0x3FFFFFFF then (n3 + 2, push_bit 2 x3) else (n3, x3))" by (cases "x3 \<le> 0x3FFFFFFF") auto
  obtain n5 x5 where s5: "(n5, x5) = (if x4 \<le> 0x7FFFFFFF then (n4 + 1, push_bit 1 x4) else (n4, x4))" by (cases "x4 \<le> 0x7FFFFFFF") auto
  have "0 < unat x" using assms by (simp add: unat_gt_0)
  then have r1: "unat x1 = unat x * 2 ^ n1" "2 ^ 16 \<le> unat x1" "n1 \<le> 16"
    using nlz_stage [of x "unat x" 0 16, OF _ _ _ _ _ s1] by simp_all
  have r2: "unat x2 = unat x * 2 ^ n2" "2 ^ 24 \<le> unat x2" "n2 \<le> 24"
    using nlz_stage [OF r1(1) _ _ _ _ s2] r1 by simp_all
  have r3: "unat x3 = unat x * 2 ^ n3" "2 ^ 28 \<le> unat x3" "n3 \<le> 28"
    using nlz_stage [OF r2(1) _ _ _ _ s3] r2 by simp_all
  have r4: "unat x4 = unat x * 2 ^ n4" "2 ^ 30 \<le> unat x4" "n4 \<le> 30"
    using nlz_stage [OF r3(1) _ _ _ _ s4] r3 by simp_all
  have r5: "unat x5 = unat x * 2 ^ n5" "2 ^ 31 \<le> unat x5" "n5 \<le> 31"
    using nlz_stage [OF r4(1) _ _ _ _ s5] r4 by simp_all
  have "nlz x = n5"
    unfolding nlz_def Let_def s1 [symmetric] prod.case s2 [symmetric] s3 [symmetric] s4 [symmetric]
    using s5 by (simp split: if_splits)
  then show "2 ^ 31 \<le> unat x * 2 ^ nlz x" "unat x * 2 ^ nlz x < 2 ^ 32" "nlz x \<le> 31"
    using r5 unsigned_less [of x5, where ?'a = nat] by simp_all
qed

section \<open>Division\<close>

text \<open>
  Dividing by the divisor with its low bits cleared gives a quotient that is too large by at most one.
\<close>

lemma quotient_estimate:
  fixes n d v e :: nat
  assumes "n < 2 ^ 64" "v = d div 2 ^ e" "2 ^ 31 \<le> v" "1 \<le> e" "e \<le> 32"
  shows "n div d \<le> n div (v * 2 ^ e)" "n div (v * 2 ^ e) \<le> n div d + 1"
proof -
  let ?w = "v * 2 ^ e"
  have wd: "?w \<le> d" unfolding assms(2) by (rule div_times_less_eq_dividend)
  have w0: "0 < ?w" using assms(3) by simp
  show "n div d \<le> n div ?w" by (rule div_le_mono2 [OF w0 wd])
  have dw: "d \<le> ?w + (2 ^ e - 1)"
  proof -
    have "d = ?w + d mod 2 ^ e" unfolding assms(2) by (rule div_mult_mod_eq [symmetric])
    moreover have "d mod 2 ^ e < 2 ^ e" by simp
    ultimately show ?thesis by linarith
  qed
  have w: "2 ^ 31 * 2 ^ e \<le> ?w" using assms(3) by simp
  let ?Q = "n div d"
  have d0: "0 < d" by (rule less_le_trans [OF w0 wd])
  have Q: "?Q + 1 \<le> 2 ^ (33 - e)"
  proof -
    have "?Q * (2 ^ 31 * 2 ^ e) \<le> ?Q * d" using w wd by (meson le_trans mult_le_mono2)
    also have "\<dots> \<le> n" by (rule div_times_less_eq_dividend)
    finally have "?Q * (2 ^ 31 * 2 ^ e) < 2 ^ 64" using assms(1) by simp
    also have "(2::nat) ^ 64 = 2 ^ (33 - e) * (2 ^ 31 * 2 ^ e)" using assms(5) by (simp flip: power_add)
    finally show ?thesis by simp
  qed
  have "(?Q + 1) * (2 ^ e - 1) \<le> ?w"
  proof -
    have "(?Q + 1) * (2 ^ e - 1) \<le> 2 ^ (33 - e) * (2 ^ e - 1)" using Q by (rule mult_le_mono1)
    also have "\<dots> = 2 ^ 33 - 2 ^ (33 - e)"
    proof -
      have "2 ^ (33 - e) * 2 ^ e = (2 :: nat) ^ 33" using assms(5) by (simp flip: power_add)
      then show ?thesis by (simp add: diff_mult_distrib2)
    qed
    also have "\<dots> \<le> 2 ^ 31 * 2 ^ e"
    proof (cases "e = 1")
      case False
      then have "(2 :: nat) ^ 2 \<le> 2 ^ e" using assms(4) by (intro power_increasing) auto
      then show ?thesis by simp
    qed simp
    also note w
    finally show ?thesis .
  qed
  moreover have "(?Q + 1) * d \<le> (?Q + 1) * ?w + (?Q + 1) * (2 ^ e - 1)"
    using mult_le_mono2 [OF dw, of "?Q + 1"] by (simp only: distrib_left)
  ultimately have "(?Q + 1) * d \<le> (?Q + 1) * ?w + ?w" by linarith
  moreover have "n < (?Q + 1) * d" using d0 by (metis Suc_eq_plus1 dividend_less_div_times mult.commute mult_Suc_right add.commute)
  ultimately have "n < (?Q + 2) * ?w" by simp
  then have "n div ?w < ?Q + 2" using w0 by (simp add: div_less_iff_less_mult)
  then show "n div ?w \<le> ?Q + 1" by simp
qed

lemma correct_estimate:
  assumes "unat (d :: u64) \<noteq> 0" "unat n div unat d \<le> unat q" "unat q \<le> unat n div unat d + 1" "1 \<le> unat n div unat d"
  shows "unat (if n - (q - 1) * d < d then q - 1 else q) = unat n div unat d"
proof -
  have q1: "unat (q - 1) = unat q - 1"
  proof -
    have "(1 :: u64) \<le> q" using assms(2,4) by (simp add: word_le_nat_alt)
    then show ?thesis by (simp add: unat_sub)
  qed
  have le: "(unat q - 1) * unat d \<le> unat n"
    using assms(3) by (metis add_le_imp_le_diff div_times_less_eq_dividend le_diff_conv le_trans mult_le_mono1)
  then have m: "unat ((q - 1) * d) = (unat q - 1) * unat d"
    using unsigned_less [of n, where ?'a = nat] by (simp add: unat_word_ariths q1)
  then have "unat (n - (q - 1) * d) = unat n - (unat q - 1) * unat d"
    using le by (subst unat_sub) (simp_all add: word_le_nat_alt)
  then have c: "n - (q - 1) * d < d \<longleftrightarrow> unat n - (unat q - 1) * unat d < unat d" by (simp add: word_less_nat_alt)
  have n: "unat n = (unat n div unat d) * unat d + unat n mod unat d" "unat n mod unat d < unat d" using assms(1) by simp_all
  consider "unat q = unat n div unat d" | "unat q = unat n div unat d + 1" using assms(2,3) by linarith
  then show ?thesis
  proof cases
    case 1
    obtain k where k: "unat n div unat d = Suc k" using assms(4) by (cases "unat n div unat d") auto
    have "unat n - k * unat d = unat n mod unat d + unat d" by (subst n(1), subst k) simp
    then have "unat n - (unat q - 1) * unat d = unat n mod unat d + unat d" using 1 k by simp
    then show ?thesis unfolding c using 1 by simp
  next
    case 2
    have "unat n - (unat q - 1) * unat d = unat n mod unat d" using 2 by (simp add: minus_div_mult_eq_mod)
    then show ?thesis unfolding c using 2 n(2) q1 by simp
  qed
qed

lemma unat_up: "unat (ucast (x :: u32) :: u64) = unat x"
  unfolding unsigned_ucast_eq
  by (rule take_bit_nat_eq_self) (use unsigned_less [of x, where ?'a = nat] in simp)

lemma udiv64_small:
  assumes "drop_bit 32 (d :: u64) = 0" "d \<noteq> 0"
  shows "udiv64 n d = Some (n div d)"
proof -
  let ?n1 = "ucast (drop_bit 32 n) :: u32" and ?n0 = "ucast n :: u32" and ?d0 = "ucast d :: u32"
  let ?b = "push_bit 32 (1 :: u64)"
  have b: "unat ?b = 2 ^ 32" by simp
  have dl: "unat d < 2 ^ 32"
  proof -
    have "unat (drop_bit 32 d) = 0" using assms(1) by simp
    then have "drop_bit 32 (unat d) = 0" by (simp only: unat_drop_bit_eq)
    then show ?thesis by (simp add: drop_bit_eq_div div_eq_0_iff)
  qed
  then have d0: "unat ?d0 = unat d" by (simp add: unsigned_ucast_eq take_bit_nat_eq_self)
  have dn: "unat d \<noteq> 0" using assms(2) by (simp add: unat_eq_0)
  have n0: "unat ?n0 = unat n mod 2 ^ 32" by (simp add: unsigned_ucast_eq take_bit_eq_mod)
  have n1: "unat ?n1 = unat n div 2 ^ 32"
  proof -
    have "unat n div 2 ^ 32 < 2 ^ 32" using unsigned_less [of n, where ?'a = nat] by (simp add: div_less_iff_less_mult)
    then show ?thesis unfolding unsigned_ucast_eq unat_drop_bit_eq drop_bit_eq_div [of _ "unat n"] by (simp add: take_bit_nat_eq_self)
  qed
  let ?m = "unat n div 2 ^ 32 mod unat d"
  have m: "?m < unat d" using dn by simp
  let ?x = "2 ^ 32 * ?m + unat n mod 2 ^ 32"
  have xd: "?x < 2 ^ 32 * unat d"
  proof -
    have "2 ^ 32 * ?m + 2 ^ 32 \<le> 2 ^ 32 * unat d" using m by (metis Suc_leI mult_Suc_right mult_le_mono2 add.commute)
    moreover have "unat n mod 2 ^ 32 < 2 ^ 32" by simp
    ultimately show ?thesis by linarith
  qed
  also have "2 ^ 32 * unat d \<le> 2 ^ 64" using dl by simp
  finally have x64: "?x < 2 ^ 64" .
  have arg: "unat (?b * ucast (?n1 mod ?d0) + ucast ?n0 :: u64) = ?x"
  proof -
    have "unat (ucast (?n1 mod ?d0) :: u64) = ?m" "unat (ucast ?n0 :: u64) = unat n mod 2 ^ 32"
      unfolding unat_up unat_mod_distrib n0 n1 d0 by simp_all
    then show ?thesis using x64 b by (simp add: unat_word_ariths)
  qed
  have q: "?x div unat d < 2 ^ 32" using xd dn by (simp add: div_less_iff_less_mult mult.commute)
  have dv: "divl (?b * ucast (?n1 mod ?d0) + ucast ?n0) ?d0 = Some (word_of_nat (?x div unat d))"
  proof -
    have "?d0 \<noteq> 0" using dn d0 by (metis unsigned_0)
    then show ?thesis unfolding divl_def arg d0 using q by simp
  qed
  have n: "unat n = unat d * (2 ^ 32 * (unat n div 2 ^ 32 div unat d)) + ?x"
  proof -
    have "unat n = 2 ^ 32 * (unat n div 2 ^ 32) + unat n mod 2 ^ 32" by simp
    also have "unat n div 2 ^ 32 = unat d * (unat n div 2 ^ 32 div unat d) + ?m" by simp
    finally show ?thesis by (simp only: distrib_left mult.assoc mult.left_commute add.assoc)
  qed
  have "unat n div unat d = 2 ^ 32 * (unat n div 2 ^ 32 div unat d) + ?x div unat d"
    by (subst n) (use dn in simp)
  moreover have "unat n div unat d < 2 ^ 64" 
    by (rule le_less_trans [OF div_le_dividend]) (use unsigned_less [of n, where ?'a = nat] in simp)
  ultimately have "unat (ucast (word_of_nat (?x div unat d) :: u32) + ?b * ucast (?n1 div ?d0) :: u64) = unat n div unat d"
    using q unfolding unat_word_ariths unat_up unat_div_distrib n1 d0 b unat_of_nat by simp
  then have "ucast (word_of_nat (?x div unat d) :: u32) + ?b * ucast (?n1 div ?d0) = n div d"
    by (intro word_unat_eq_iff [THEN iffD2]) (simp add: unat_div_distrib)
  moreover have "?d0 \<noteq> 0" using dn d0 by (metis unsigned_0)
  ultimately show ?thesis unfolding udiv64_def Let_def using assms(1) dv by simp
qed

lemma udiv64_large:
  assumes "drop_bit 32 (d :: u64) \<noteq> 0" "d \<le> n"
  shows "udiv64 n d = Some (n div d)"
proof -
  let ?d1 = "ucast (drop_bit 32 d) :: u32"
  have dh: "unat d div 2 ^ 32 < 2 ^ 32" using unsigned_less [of d, where ?'a = nat] by (simp add: div_less_iff_less_mult)
  then have d1: "unat ?d1 = unat d div 2 ^ 32"
    unfolding unsigned_ucast_eq unat_drop_bit_eq drop_bit_eq_div [of _ "unat d"] by (simp add: take_bit_nat_eq_self)
  have "unat (drop_bit 32 d) \<noteq> 0" using assms(1) by (simp add: unat_eq_0)
  then have "unat d div 2 ^ 32 \<noteq> 0" unfolding unat_drop_bit_eq drop_bit_eq_div [of _ "unat d"] .
  then have d1n: "?d1 \<noteq> 0" using d1 by (metis unsigned_0)
  let ?s = "nlz ?d1"
  note z = nlz_normalizes [OF d1n]
  define e where "e = 32 - ?s"
  have e: "1 \<le> e" "e \<le> 32" "?s + e = 32" "31 - ?s = e - 1" using z(3) by (simp_all add: e_def)
  have d64: "unat d * 2 ^ ?s < 2 ^ 64"
  proof -
    have "unat d < (unat d div 2 ^ 32 + 1) * 2 ^ 32" by (simp add: dividend_less_div_times)
    then have "unat d * 2 ^ ?s < (unat d div 2 ^ 32 + 1) * 2 ^ 32 * 2 ^ ?s" by simp
    also have "\<dots> = (unat ?d1 * 2 ^ ?s + 2 ^ ?s) * 2 ^ 32" unfolding d1 by (simp add: algebra_simps)
    also have "\<dots> \<le> 2 ^ 32 * 2 ^ 32"
    proof (rule mult_le_mono1)
      have "unat ?d1 < 2 ^ e"
      proof (rule ccontr)
        assume "\<not> unat ?d1 < 2 ^ e"
        then have "2 ^ e * 2 ^ ?s \<le> unat ?d1 * 2 ^ ?s" by simp
        moreover have "(2 :: nat) ^ e * 2 ^ ?s = 2 ^ 32" unfolding power_add [symmetric] using e(3) by (simp add: add.commute)
        ultimately show False using z(2) by simp
      qed
      then have "(unat ?d1 + 1) * 2 ^ ?s \<le> 2 ^ e * 2 ^ ?s" by (intro mult_le_mono1) simp
      also have "(2 :: nat) ^ e * 2 ^ ?s = 2 ^ 32" unfolding power_add [symmetric] using e(3) by (simp add: add.commute)
      finally show "unat ?d1 * 2 ^ ?s + 2 ^ ?s \<le> 2 ^ 32" by (simp add: algebra_simps)
    qed
    finally show ?thesis by simp
  qed
  have sh: "unat (push_bit ?s d) = unat d * 2 ^ ?s" by (rule unat_push_bit) (use d64 in simp)
  let ?v = "unat d div 2 ^ e"
  have v: "unat (drop_bit 32 (push_bit ?s d)) = ?v"
  proof -
    have "unat (drop_bit 32 (push_bit ?s d)) = unat d * 2 ^ ?s div 2 ^ 32"
      unfolding unat_drop_bit_eq sh by (simp add: drop_bit_eq_div)
    also have "\<dots> = unat d * 2 ^ ?s div (2 ^ e * 2 ^ ?s)"
      unfolding power_add [symmetric] using e(3) by (simp add: add.commute)
    also have "\<dots> = ?v" by simp
    finally show ?thesis .
  qed
  have v31: "2 ^ 31 \<le> ?v"
  proof -
    have "2 ^ 31 * 2 ^ e \<le> unat ?d1 * 2 ^ ?s * 2 ^ e" using z(1) by simp
    also have "\<dots> = unat ?d1 * 2 ^ 32" using e(3) by (simp add: mult.assoc flip: power_add)
    also have "\<dots> \<le> unat d" unfolding d1 by (rule div_times_less_eq_dividend)
    finally show ?thesis by (simp add: less_eq_div_iff_mult_less_eq)
  qed
  have v32: "?v < 2 ^ 32"
  proof -
    have "unat d * 2 ^ ?s < 2 ^ 32 * 2 ^ e * 2 ^ ?s"
      using d64 e(3) by (simp add: mult.assoc add.commute flip: power_add)
    then show ?thesis by (simp add: div_less_iff_less_mult)
  qed
  have va: "unat (ucast (drop_bit 32 (push_bit ?s d)) :: u32) = ?v"
    unfolding unsigned_ucast_eq v using v32 by (simp add: take_bit_nat_eq_self)
  let ?p = "unat n div 2 div ?v"
  have n1: "unat (drop_bit 1 n) = unat n div 2" unfolding unat_drop_bit_eq by (simp add: drop_bit_eq_div)
  have q0: "?p < 2 ^ 32"
  proof -
    have "unat n div 2 < 2 ^ 32 * 2 ^ 31" using unsigned_less [of n, where ?'a = nat] by (simp add: div_less_iff_less_mult)
    also have "\<dots> \<le> 2 ^ 32 * ?v" using v31 by simp
    finally show ?thesis using v31 by (simp add: div_less_iff_less_mult)
  qed
  have dv: "divl (drop_bit 1 n) (ucast (drop_bit 32 (push_bit ?s d))) = Some (word_of_nat ?p)"
  proof -
    have "ucast (drop_bit 32 (push_bit ?s d)) \<noteq> (0 :: u32)" using va v31 by (metis le_zero_eq power_eq_0_iff unsigned_0 zero_neq_numeral)
    then show ?thesis unfolding divl_def va n1 using q0 by simp
  qed
  let ?q = "ucast (drop_bit (31 - ?s) (word_of_nat ?p :: u32)) :: u64"
  have q: "unat ?q = unat n div (?v * 2 ^ e)"
  proof -
    have "unat ?q = ?p div 2 ^ (e - 1)"
      unfolding unat_up unat_drop_bit_eq unat_of_nat e(4) using q0 by (simp add: drop_bit_eq_div)
    also have "\<dots> = unat n div (2 * ?v * 2 ^ (e - 1))" by (simp only: div_mult2_eq)
    also have "2 * ?v * 2 ^ (e - 1) = ?v * 2 ^ e" using e(1) by (cases e) simp_all
    finally show ?thesis .
  qed
  have dn: "unat d \<noteq> 0" using v31 by (metis div_0 le_zero_eq power_eq_0_iff zero_neq_numeral)
  have "unat n < 2 ^ 64" using unsigned_less [of n, where ?'a = nat] by simp
  note est = quotient_estimate [OF this refl v31 e(1,2)]
  have "1 \<le> unat n div unat d" using assms(2) dn by (simp add: word_le_nat_alt less_eq_div_iff_mult_less_eq)
  from correct_estimate [OF dn _ _ this, of ?q] est q
  have "unat (if n - (?q - 1) * d < d then ?q - 1 else ?q) = unat n div unat d" by simp
  then have "(if n - (?q - 1) * d < d then ?q - 1 else ?q) = n div d"
    by (intro word_unat_eq_iff [THEN iffD2]) (simp add: unat_div_distrib)
  moreover have "\<not> n < d" using assms(2) by simp
  ultimately show ?thesis unfolding udiv64_def Let_def using assms(1) dv by simp
qed

lemma udiv64_zero: "udiv64 n 0 = None"
  by (simp add: udiv64_def)

lemma udiv64_div: "d \<noteq> 0 \<Longrightarrow> udiv64 n d = Some (n div d)"
proof -
  assume d: "d \<noteq> 0"
  consider "drop_bit 32 d = 0" | "drop_bit 32 d \<noteq> 0" "n < d" | "drop_bit 32 d \<noteq> 0" "d \<le> n" by fastforce
  then show ?thesis
  proof cases
    case 2
    have "n div d = 0" using 2(2) by (intro word_unat_eq_iff [THEN iffD2]) (simp add: unat_div_distrib word_less_nat_alt)
    with 2 show ?thesis by (simp add: udiv64_def)
  qed (simp_all add: d udiv64_small udiv64_large)
qed

lemma abs_sint:
  "int (unat (if 0 \<le> sint x then x else - x)) = \<bar>sint (x :: u64)\<bar>"
proof -
  have u: "uint x = sint x mod 2 ^ 64" by (simp add: uint_sint take_bit_eq_mod)
  have b: "- (2 ^ 63) \<le> sint x" "sint x < 2 ^ 63" using sint_ge [of x] sint_lt [of x] by simp_all
  show ?thesis
  proof (cases "0 \<le> sint x")
    case True
    then have "sint x mod 2 ^ 64 = sint x" using b(2) by (intro mod_pos_pos_trivial) auto
    then show ?thesis using True u by simp
  next
    case False
    have "uint (- x) = - sint x mod 2 ^ 64" unfolding uint_word_ariths u by (simp add: mod_minus_eq)
    also have "\<dots> = - sint x" using False b(1) by (intro mod_pos_pos_trivial) auto
    finally show ?thesis using False by simp
  qed
qed

section \<open>Properties\<close>

text \<open>
  C31: \<open>__udivdi3\<close> and \<open>__divdi3\<close> compute the 64-bit quotient for every dividend and every divisor
  but 0, the signed one rounding towards 0, and neither traps: no intermediate \<open>DIVL\<close>
  overflows. The one signed quotient that is not an \<open>int64_t\<close>, \<open>INT64_MIN / -1\<close>, wraps around.
\<close>

theorem div64_correct:
  assumes "d \<noteq> 0"
  shows "udivdi3 n d = Some (n div d) \<and> divdi3 n d = Some (word_of_int (sint n sdiv sint d))"
proof
  show "udivdi3 n d = Some (n div d)" by (simp add: udivdi3_def udiv64_div assms)
  let ?abs = "\<lambda>x :: u64. if 0 \<le> sint x then x else - x"
  note a = abs_sint
  have "?abs d \<noteq> 0" using assms by auto
  then have "divdi3 n d = Some (if (sint n < 0) = (sint d < 0) then ?abs n div ?abs d else - (?abs n div ?abs d))"
    by (simp add: divdi3_def sdiv64_def udiv64_div Let_def)
  also have "?abs n div ?abs d = word_of_int (\<bar>sint n\<bar> div \<bar>sint d\<bar>)"
    unfolding a [symmetric] by (simp add: word_div_def)
  also have "(if (sint n < 0) = (sint d < 0) then word_of_int (\<bar>sint n\<bar> div \<bar>sint d\<bar>) else - word_of_int (\<bar>sint n\<bar> div \<bar>sint d\<bar>))
      = (word_of_int (sint n sdiv sint d) :: u64)"
    by (auto simp: signed_divide_int_def sgn_if)
  finally show "divdi3 n d = Some (word_of_int (sint n sdiv sint d))" .
qed

theorem div64_correct_witness:
  "udivdi3 0xFFFFFFFFFFFFFFFF 0x100000001 = Some (0xFFFFFFFFFFFFFFFF div 0x100000001)
   \<and> divdi3 (- 7) 2 = Some (word_of_int (- 3))"
  using div64_correct [of "0x100000001" "0xFFFFFFFFFFFFFFFF"] div64_correct [of 2 "- 7"]
  by (simp add: signed_divide_int_def)

text \<open>
  C32: \<open>__umoddi3\<close> and \<open>__moddi3\<close> pass the remainder through a 32-bit integer: the unsigned one
  returns the remainder modulo 2 ^ 32, so it is the remainder exactly when that is below 2 ^ 32,
  which a divisor above 2 ^ 32 does not ensure.
\<close>

theorem umoddi3_truncates:
  assumes "d \<noteq> 0"
  shows "umoddi3 n d = Some (n mod d mod 2 ^ 32) \<and> (umoddi3 n d = Some (n mod d) \<longleftrightarrow> n mod d < 2 ^ 32)"
proof -
  have "n - d * (n div d) = n mod d" by (simp add: minus_mult_div_eq_mod)
  then have "umoddi3 n d = Some (ucast (ucast (n mod d) :: u32))"
    by (simp add: umoddi3_def umod64_def udiv64_div assms)
  also have t: "ucast (ucast x :: u32) = x mod (2 ^ 32 :: u64)" for x :: u64
    by (rule word_unat_eq_iff [THEN iffD2]) (simp add: unat_up unsigned_ucast_eq take_bit_eq_mod unat_mod_distrib)
  finally have u: "umoddi3 n d = Some (n mod d mod 2 ^ 32)" .
  moreover have "x mod 2 ^ 32 = x \<longleftrightarrow> x < 2 ^ 32" for x :: u64
    by (simp add: word_unat_eq_iff unat_mod_distrib word_less_nat_alt mod_eq_self_iff_div_eq_0 div_eq_0_iff)
  ultimately show ?thesis by simp
qed

theorem umoddi3_truncates_witness:
  "umoddi3 0x1FFFFFFFF 0x200000000 = Some 0xFFFFFFFF \<and> (0x1FFFFFFFF mod 0x200000000 :: u64) = 0x1FFFFFFFF"
  using umoddi3_truncates [of "0x200000000" "0x1FFFFFFFF"] by simp

end
