(* ===== verification/Stdlib.thy ===== *)
theory Stdlib
  imports Prelude "HOL-Library.Multiset"
begin

text \<open>
  Number parsing, sorting and searching (\<open>src/lib/stdlib.c\<close>, \<open>src/lib/ctype.h\<close>). An array of
  \<open>cnt\<close> elements of \<open>size\<close> bytes is the list of its elements, indexed from 1 in the heap
  operations as in the code; indexes are far below 2 ^ 31, since the elements are in memory.
  Strings are the bytes before the terminating null.
\<close>

section \<open>Characters\<close>

definition islower :: "int \<Rightarrow> bool" where "islower c \<longleftrightarrow> 97 \<le> c \<and> c \<le> 122"

definition isupper :: "int \<Rightarrow> bool" where "isupper c \<longleftrightarrow> 65 \<le> c \<and> c \<le> 90"

definition isalpha :: "int \<Rightarrow> bool" where "isalpha c \<longleftrightarrow> islower c \<or> isupper c"

definition isdigit :: "int \<Rightarrow> bool" where "isdigit c \<longleftrightarrow> 48 \<le> c \<and> c \<le> 57"

definition isalnum :: "int \<Rightarrow> bool" where "isalnum c \<longleftrightarrow> isalpha c \<or> isdigit c"

definition isspace :: "int \<Rightarrow> bool" where
  "isspace c \<longleftrightarrow> c = 32 \<or> c = 12 \<or> c = 10 \<or> c = 13 \<or> c = 9 \<or> c = 11"

section \<open>Parsing\<close>

text \<open>\<open>isspace\<close> is given the character as an \<open>unsigned char\<close>, \<open>isdigit\<close> as a \<open>char\<close>, which is signed.\<close>

fun skip_space :: "byte list \<Rightarrow> byte list" where
  "skip_space [] = []"
| "skip_space (c # s) = (if isspace (uint c) then skip_space s else c # s)"

fun parse_digits :: "int \<Rightarrow> byte list \<Rightarrow> int" where
  "parse_digits v [] = v"
| "parse_digits v (c # s) =
     (if isdigit (sint c) then parse_digits (s32_of (s32_of (v * 10) - (sint c - 48))) s else v)"

definition atoi :: "byte list \<Rightarrow> int" where
  "atoi s0 =
     (let s = skip_space s0;
          (negative, digits) = (case s of
             c # s' \<Rightarrow> if c = 43 then (False, s') else if c = 45 then (True, s') else (False, s)
           | [] \<Rightarrow> (False, s));
          v = parse_digits 0 digits in
      if \<not> negative then s32_of (- v) else v)"

section \<open>Sorting\<close>

definition do_swap :: "'a list \<Rightarrow> nat \<Rightarrow> nat \<Rightarrow> 'a list" where
  "do_swap xs a b = xs[a - 1 := xs ! (b - 1), b - 1 := xs ! (a - 1)]"

definition do_compare :: "('a \<Rightarrow> 'a \<Rightarrow> int) \<Rightarrow> 'a list \<Rightarrow> nat \<Rightarrow> nat \<Rightarrow> int" where
  "do_compare cmp xs a b = cmp (xs ! (a - 1)) (xs ! (b - 1))"

text \<open>The index of the largest element among \<open>i\<close> and its children.\<close>

definition heap_max :: "('a \<Rightarrow> 'a \<Rightarrow> int) \<Rightarrow> 'a list \<Rightarrow> nat \<Rightarrow> nat \<Rightarrow> nat" where
  "heap_max cmp xs i cnt =
     (let left = 2 * i; right = 2 * i + 1;
          m = (if left \<le> cnt \<and> 0 < do_compare cmp xs left i then left else i) in
      if right \<le> cnt \<and> 0 < do_compare cmp xs right m then right else m)"

lemma heap_max_ge: "i \<le> heap_max cmp xs i cnt" "heap_max cmp xs i cnt \<le> max i cnt"
  by (auto simp: heap_max_def Let_def)

function heapify :: "('a \<Rightarrow> 'a \<Rightarrow> int) \<Rightarrow> 'a list \<Rightarrow> nat \<Rightarrow> nat \<Rightarrow> 'a list" where
  "heapify cmp xs i cnt =
     (let m = heap_max cmp xs i cnt in
      if m = i then xs else heapify cmp (do_swap xs i m) m cnt)"
  by pat_completeness auto
termination
proof (relation "measure (\<lambda>(_, _, i, cnt). cnt - i)")
  fix cmp :: "'a \<Rightarrow> 'a \<Rightarrow> int" and xs i cnt m
  assume "m = heap_max cmp xs i cnt" "m \<noteq> i"
  then have "i < m" "m \<le> max i cnt" using heap_max_ge(1) [of i cmp xs cnt] heap_max_ge(2) [of cmp xs i cnt] by auto
  then show "((cmp, do_swap xs i m, m, cnt), cmp, xs, i, cnt) \<in> measure (\<lambda>(_, _, i, cnt). cnt - i)" by auto
qed simp

declare heapify.simps [simp del]

fun build_heap :: "('a \<Rightarrow> 'a \<Rightarrow> int) \<Rightarrow> 'a list \<Rightarrow> nat \<Rightarrow> nat \<Rightarrow> 'a list" where
  "build_heap cmp xs 0 cnt = xs"
| "build_heap cmp xs (Suc i) cnt = build_heap cmp (heapify cmp xs (Suc i) cnt) i cnt"

fun sort_heap :: "('a \<Rightarrow> 'a \<Rightarrow> int) \<Rightarrow> 'a list \<Rightarrow> nat \<Rightarrow> 'a list" where
  "sort_heap cmp xs i = (if 1 < i then sort_heap cmp (heapify cmp (do_swap xs 1 i) 1 (i - 1)) (i - 1) else xs)"

declare sort_heap.simps [simp del]

definition sort_array :: "('a \<Rightarrow> 'a \<Rightarrow> int) \<Rightarrow> 'a list \<Rightarrow> nat \<Rightarrow> 'a list" where
  "sort_array cmp xs cnt = sort_heap cmp (build_heap cmp xs (cnt div 2) cnt) cnt"

text \<open>\<open>compare_thunk\<close> calls the comparison it is passed as auxiliary data.\<close>

definition compare_thunk :: "'a \<Rightarrow> 'b \<Rightarrow> ('a \<Rightarrow> 'b \<Rightarrow> int) \<Rightarrow> int" where
  "compare_thunk a b compare = compare a b"

definition qsort :: "'a list \<Rightarrow> nat \<Rightarrow> ('a \<Rightarrow> 'a \<Rightarrow> int) \<Rightarrow> 'a list" where
  "qsort xs cnt compare = sort_array (\<lambda>a b. compare_thunk a b compare) xs cnt"

section \<open>Searching\<close>

text \<open>The positions \<open>first\<close> and \<open>last\<close> of the code, counted in elements.\<close>

function search_range :: "('k \<Rightarrow> 'a \<Rightarrow> int) \<Rightarrow> 'k \<Rightarrow> 'a list \<Rightarrow> nat \<Rightarrow> nat \<Rightarrow> nat option" where
  "search_range cmp key xs lo hi =
     (if lo < hi
      then let middle = lo + (hi - lo) div 2; c = cmp key (xs ! middle) in
           if c < 0 then search_range cmp key xs lo middle
           else if 0 < c then search_range cmp key xs (middle + 1) hi
           else Some middle
      else None)"
  by pat_completeness auto
termination
  by (relation "measure (\<lambda>(_, _, _, lo, hi). hi - lo)") auto

declare search_range.simps [simp del]

definition binary_search :: "('k \<Rightarrow> 'a \<Rightarrow> int) \<Rightarrow> 'k \<Rightarrow> 'a list \<Rightarrow> nat \<Rightarrow> nat option" where
  "binary_search cmp key xs cnt = search_range cmp key xs 0 cnt"

definition bsearch :: "'k \<Rightarrow> 'a list \<Rightarrow> nat \<Rightarrow> ('k \<Rightarrow> 'a \<Rightarrow> int) \<Rightarrow> nat option" where
  "bsearch key xs cnt compare = binary_search (\<lambda>a b. compare_thunk a b compare) key xs cnt"

section \<open>Comparison functions\<close>

text \<open>A \<open>strcmp\<close>-type comparison: its sign is a total preorder.\<close>

locale strcmp_order =
  fixes cmp :: "'a \<Rightarrow> 'a \<Rightarrow> int"
  assumes cmp_sym: "0 < cmp x y \<longleftrightarrow> cmp y x < 0"
    and cmp_trans: "cmp x y \<le> 0 \<Longrightarrow> cmp y z \<le> 0 \<Longrightarrow> cmp x z \<le> 0"
begin

lemma cmp_total: "\<not> 0 < cmp y x \<or> cmp x y \<le> 0"
  using cmp_sym [of y x] by auto

lemma cmp_le: "0 < cmp x y \<Longrightarrow> cmp y x \<le> 0"
  using cmp_sym [of x y] by simp

lemma cmp_refl: "cmp x x \<le> 0"
  using cmp_sym [of x x] by (cases "cmp x x" "0 :: int" rule: linorder_cases) auto

text \<open>The heap condition at index \<open>j\<close>: the children among the first \<open>n\<close> elements are not larger.\<close>

definition heap_at :: "'a list \<Rightarrow> nat \<Rightarrow> nat \<Rightarrow> bool" where
  "heap_at xs n j \<longleftrightarrow> (\<forall>c. c div 2 = j \<and> 2 \<le> c \<and> c \<le> n \<longrightarrow> cmp (xs ! (c - 1)) (xs ! (j - 1)) \<le> 0)"

definition heap_from :: "'a list \<Rightarrow> nat \<Rightarrow> nat \<Rightarrow> bool" where
  "heap_from xs n k \<longleftrightarrow> (\<forall>j. k \<le> j \<and> j \<le> n \<longrightarrow> heap_at xs n j)"

text \<open>A heap but for the element at \<open>i\<close>, which may be smaller than its children.\<close>

definition heap_but :: "'a list \<Rightarrow> nat \<Rightarrow> nat \<Rightarrow> nat \<Rightarrow> bool" where
  "heap_but xs n k i \<longleftrightarrow> (\<forall>j. k \<le> j \<and> j \<le> n \<and> j \<noteq> i \<longrightarrow> heap_at xs n j)
     \<and> (\<forall>c. k \<le> i div 2 \<and> c div 2 = i \<and> 2 \<le> c \<and> c \<le> n \<longrightarrow> cmp (xs ! (c - 1)) (xs ! (i div 2 - 1)) \<le> 0)"

lemma heap_max_children:
  assumes "1 \<le> i"
  shows "c div 2 = i \<Longrightarrow> c \<le> n \<Longrightarrow> cmp (xs ! (c - 1)) (xs ! (heap_max cmp xs i n - 1)) \<le> 0"
    "cmp (xs ! (i - 1)) (xs ! (heap_max cmp xs i n - 1)) \<le> 0"
    "heap_max cmp xs i n = i \<or> heap_max cmp xs i n div 2 = i \<and> heap_max cmp xs i n \<le> n"
proof -
  let ?x = "\<lambda>j. xs ! (j - 1)" and ?m = "heap_max cmp xs i n"
  let ?l = "if 2 * i \<le> n \<and> 0 < cmp (?x (2 * i)) (?x i) then 2 * i else i"
  have m: "?m = (if 2 * i + 1 \<le> n \<and> 0 < cmp (?x (2 * i + 1)) (?x ?l) then 2 * i + 1 else ?l)"
    by (simp add: heap_max_def do_compare_def Let_def)
  have l: "cmp (?x i) (?x ?l) \<le> 0" "2 * i \<le> n \<Longrightarrow> cmp (?x (2 * i)) (?x ?l) \<le> 0"
    using cmp_le cmp_refl by (auto simp: not_less)
  have lm: "cmp (?x ?l) (?x ?m) \<le> 0" unfolding m using cmp_le cmp_refl by auto
  have r: "2 * i + 1 \<le> n \<Longrightarrow> cmp (?x (2 * i + 1)) (?x ?m) \<le> 0" unfolding m using cmp_refl by (auto simp: not_less)
  show "cmp (?x i) (?x ?m) \<le> 0" by (rule cmp_trans [OF l(1) lm])
  show "?m = i \<or> ?m div 2 = i \<and> ?m \<le> n" unfolding m by auto
  assume "c div 2 = i" "c \<le> n"
  then consider "c = 2 * i" "2 * i \<le> n" | "c = 2 * i + 1" "2 * i + 1 \<le> n" by fastforce
  then show "cmp (?x c) (?x ?m) \<le> 0" using cmp_trans [OF l(2) lm] r by cases auto
qed

lemma nth_swap:
  assumes "1 \<le> a" "a \<le> length xs" "1 \<le> b" "b \<le> length xs" "1 \<le> j"
  shows "do_swap xs a b ! (j - 1) = (if j = b then xs ! (a - 1) else if j = a then xs ! (b - 1) else xs ! (j - 1))"
  using assms by (auto simp: do_swap_def nth_list_update)

end

lemma do_swap_mset [simp]: "a - 1 < length xs \<Longrightarrow> b - 1 < length xs \<Longrightarrow> mset (do_swap xs a b) = mset xs"
  unfolding do_swap_def by (rule mset_swap)

lemma do_swap_length [simp]: "length (do_swap xs a b) = length xs"
  by (simp add: do_swap_def)

lemma heapify_outside:
  assumes "1 \<le> i" "i \<le> n" "n \<le> length xs"
  shows "mset (heapify cmp xs i n) = mset xs" "drop n (heapify cmp xs i n) = drop n xs"
  using assms
proof (induction cmp xs i n rule: heapify.induct)
  case (1 cmp xs i n)
  let ?m = "heap_max cmp xs i n"
  case 1
  show ?case
  proof (cases "?m = i")
    case False
    have "?m \<le> n" "1 \<le> ?m" using heap_max_ge(1) [of i cmp xs n] heap_max_ge(2) [of cmp xs i n] 1 by auto
    with "1.IH"(1) [OF refl False] 1 False show ?thesis by (simp add: heapify.simps [of cmp xs] Let_def)
  qed (simp add: heapify.simps [of cmp xs])
next
  case (1 cmp xs i n)
  let ?m = "heap_max cmp xs i n"
  case 2
  show ?case
  proof (cases "?m = i")
    case False
    have m: "?m \<le> n" "1 \<le> ?m" using heap_max_ge(1) [of i cmp xs n] heap_max_ge(2) [of cmp xs i n] 2 by auto
    have "drop n (do_swap xs i ?m) = drop n xs" unfolding do_swap_def using m 2 by (simp add: drop_update_cancel)
    with "1.IH"(2) [OF refl False] 2 m False show ?thesis by (simp add: heapify.simps [of cmp xs] Let_def)
  qed (simp add: heapify.simps [of cmp xs])
qed

lemma heapify_length [simp]: "length (heapify cmp xs i n) = length xs"
  by (induction cmp xs i n rule: heapify.induct) (subst heapify.simps, simp add: Let_def)

context strcmp_order
begin

lemma heap_but_swap:
  assumes "heap_but xs n k i" "1 \<le> k" "k \<le> i" "i \<le> n" "n \<le> length xs" "heap_max cmp xs i n = m" "m \<noteq> i"
  shows "heap_but (do_swap xs i m) n k m"
proof -
  let ?x = "\<lambda>j. xs ! (j - 1)" and ?y = "\<lambda>j. do_swap xs i m ! (j - 1)"
  have i: "1 \<le> i" using assms(2,3) by simp
  note c = heap_max_children [OF i, where xs = xs and n = n, unfolded assms(6)]
  have m: "m div 2 = i" "m \<le> n" using c(3) assms(7) by auto
  then have m2: "2 \<le> m" "i < m" using i by auto
  have y: "?y j = (if j = m then ?x i else if j = i then ?x m else ?x j)" if "1 \<le> j" for j
    using nth_swap [of i xs m j] that assms(4,5) i m(2) m2 by simp
  have a: "cmp (?x c) (?x j) \<le> 0" if "k \<le> j" "j \<noteq> i" "c div 2 = j" "2 \<le> c" "c \<le> n" for j c
  proof -
    have "j \<le> n" using that(3,5) by auto
    then show ?thesis using assms(1) that unfolding heap_but_def heap_at_def by blast
  qed
  have b: "cmp (?x c) (?x (i div 2)) \<le> 0" if "k \<le> i div 2" "c div 2 = i" "2 \<le> c" "c \<le> n" for c
    using assms(1) that unfolding heap_but_def by blast
  show ?thesis
    unfolding heap_but_def heap_at_def
  proof (intro conjI allI impI)
    fix j c'
    assume j: "k \<le> j \<and> j \<le> n \<and> j \<noteq> m" and cj: "c' div 2 = j \<and> 2 \<le> c' \<and> c' \<le> n"
    have j1: "1 \<le> j" "1 \<le> c'" using j cj assms(2) by auto
    show "cmp (?y c') (?y j) \<le> 0"
    proof (cases "j = i")
      case True
      then have "c' \<noteq> i" using cj i by auto
      then have "?y c' = ?x c' \<or> ?y c' = ?x i" "?y j = ?x m" using y [OF j1(2)] y [OF j1(1)] True m2 by auto
      then show ?thesis using c(1) [of c'] c(2) cj True by auto
    next
      case False
      then have "c' \<noteq> m" using cj m(1) by auto
      show ?thesis
      proof (cases "c' = i")
        case True
        then have "?y c' = ?x m" "?y j = ?x j" "i div 2 = j" using y [OF j1(2)] y [OF j1(1)] False j \<open>c' \<noteq> m\<close> cj by auto
        then show ?thesis using b [of m] j m m2 by simp
      next
        case f: False
        then have "?y c' = ?x c'" "?y j = ?x j" using y [OF j1(2)] y [OF j1(1)] False j \<open>c' \<noteq> m\<close> by auto
        then show ?thesis using a [of j c'] j False cj by simp
      qed
    qed
  next
    fix c'
    assume h: "k \<le> m div 2 \<and> c' div 2 = m \<and> 2 \<le> c' \<and> c' \<le> n"
    then have "c' \<noteq> m" "c' \<noteq> i" using m2 m(1) by auto
    then have "?y c' = ?x c'" "?y (m div 2) = ?x m" using y [of c'] y [of i] h m i m2 by auto
    moreover have "cmp (?x c') (?x m) \<le> 0" using a [of m c'] h assms(3) m2 by simp
    ultimately show "cmp (?y c') (?y (m div 2)) \<le> 0" by simp
  qed
qed

lemma heapify_heap:
  assumes "heap_but xs n k i" "1 \<le> k" "k \<le> i" "i \<le> n" "n \<le> length xs"
  shows "heap_from (heapify cmp xs i n) n k"
  using assms
proof (induction "n - i" arbitrary: xs i rule: less_induct)
  case less
  let ?m = "heap_max cmp xs i n"
  have i: "1 \<le> i" using less(3,4) by simp
  show ?case
  proof (cases "?m = i")
    case True
    have "heap_at xs n i"
      unfolding heap_at_def using heap_max_children(1) [OF i, where xs = xs and n = n] True by simp
    then have "heap_from xs n k" using less(2) unfolding heap_from_def heap_but_def by blast
    then show ?thesis using True by (simp add: heapify.simps [of cmp xs])
  next
    case False
    have m: "?m \<le> n" "k \<le> ?m" "i < ?m"
      using heap_max_ge(1) [of i cmp xs n] heap_max_ge(2) [of cmp xs i n] less(4,5) False by auto
    have "heap_but (do_swap xs i ?m) n k ?m" by (rule heap_but_swap [OF less(2-6) refl False])
    from less(1) [OF _ this less(3) m(2,1)] less(6) m False show ?thesis by (simp add: heapify.simps [of cmp xs] Let_def)
  qed
qed

lemma heap_root:
  assumes "heap_from xs n 1" "1 \<le> j" "j \<le> n"
  shows "cmp (xs ! (j - 1)) (xs ! 0) \<le> 0"
  using assms(2,3)
proof (induction j rule: less_induct)
  case (less j)
  show ?case
  proof (cases "j = 1")
    case False
    then have p: "j div 2 < j" "1 \<le> j div 2" "2 \<le> j" "j div 2 \<le> n" using less(2,3) by auto
    have "cmp (xs ! (j - 1)) (xs ! (j div 2 - 1)) \<le> 0"
      using assms(1) p less(3) unfolding heap_from_def heap_at_def by blast
    from cmp_trans [OF this less(1) [OF p(1,2,4)]] show ?thesis .
  qed (simp add: cmp_refl)
qed

lemma build_heap_heap:
  assumes "heap_from xs n (Suc i)" "i \<le> n" "n \<le> length xs"
  shows "heap_from (build_heap cmp xs i n) n 1 \<and> mset (build_heap cmp xs i n) = mset xs
    \<and> length (build_heap cmp xs i n) = length xs"
  using assms
proof (induction i arbitrary: xs)
  case (Suc i)
  have "heap_but xs n (Suc i) (Suc i)" using Suc.prems(1) unfolding heap_but_def heap_from_def by auto
  then have "heap_from (heapify cmp xs (Suc i) n) n (Suc i)" by (rule heapify_heap) (use Suc.prems in auto)
  with Suc.IH [of "heapify cmp xs (Suc i) n"] Suc.prems heapify_outside(1) [of "Suc i" n xs] show ?case by auto
qed simp

text \<open>The loop that moves the largest element behind the heap, the sorted part growing from the end.\<close>

lemma sort_heap_sorts:
  assumes "heap_from xs i 1" "i \<le> length xs" "sorted_wrt (\<lambda>x y. cmp x y \<le> 0) (drop i xs)"
    and "\<And>x y. x \<in> set (take i xs) \<Longrightarrow> y \<in> set (drop i xs) \<Longrightarrow> cmp x y \<le> 0"
  shows "sorted_wrt (\<lambda>x y. cmp x y \<le> 0) (sort_heap cmp xs i) \<and> mset (sort_heap cmp xs i) = mset xs"
  using assms
proof (induction i arbitrary: xs rule: less_induct)
  case (less i)
  show ?case
  proof (cases "1 < i")
    case False
    then have "sorted_wrt (\<lambda>x y. cmp x y \<le> 0) (take i xs)" by (cases xs) (auto simp: take_Cons' le_Suc_eq not_less)
    then have "sorted_wrt (\<lambda>x y. cmp x y \<le> 0) (take i xs @ drop i xs)"
      unfolding sorted_wrt_append using less.prems(3,4) by blast
    with False show ?thesis by (simp add: sort_heap.simps [of cmp xs i])
  next
    case True
    let ?ys = "do_swap xs 1 i" and ?zs = "heapify cmp (do_swap xs 1 i) 1 (i - 1)"
    have il: "i \<le> length xs" "1 \<le> i" using less.prems(2) True by auto
    have y: "?ys ! (j - 1) = (if j = i then xs ! 0 else if j = 1 then xs ! (i - 1) else xs ! (j - 1))" if "1 \<le> j" for j
      using nth_swap [of 1 xs i j] that il by auto
    have "heap_but ?ys (i - 1) 1 1"
      unfolding heap_but_def heap_at_def
    proof (intro conjI allI impI)
      fix j c
      assume j: "1 \<le> j \<and> j \<le> i - 1 \<and> j \<noteq> 1" "c div 2 = j \<and> 2 \<le> c \<and> c \<le> i - 1"
      then have "?ys ! (c - 1) = xs ! (c - 1)" "?ys ! (j - 1) = xs ! (j - 1)" using y [of c] y [of j] by auto
      moreover have "cmp (xs ! (c - 1)) (xs ! (j - 1)) \<le> 0"
        using less.prems(1) j unfolding heap_from_def heap_at_def by auto
      ultimately show "cmp (?ys ! (c - 1)) (?ys ! (j - 1)) \<le> 0" by simp
    qed simp
    then have h: "heap_from ?zs (i - 1) 1" by (rule heapify_heap) (use True il in auto)
    have z: "mset ?zs = mset ?ys" "drop (i - 1) ?zs = drop (i - 1) ?ys" "length ?zs = length xs"
      using heapify_outside [of 1 "i - 1" ?ys cmp] True il by auto
    have msx: "mset ?ys = mset xs" by (rule do_swap_mset) (use il True in linarith)+
    have d: "drop (i - 1) ?ys = xs ! 0 # drop i xs"
    proof -
      have "drop (i - 1) ?ys = ?ys ! (i - 1) # drop i ?ys" using Cons_nth_drop_Suc [of "i - 1" ?ys] il True by simp
      moreover have "drop i ?ys = drop i xs" unfolding do_swap_def using True by (simp add: drop_update_cancel)
      ultimately show ?thesis using y [of i] il by simp
    qed
    have root: "cmp x (xs ! 0) \<le> 0" if "x \<in> set (take i xs)" for x
    proof -
      from that obtain j where "j < i" "x = xs ! j" "j < length xs" by (auto simp: in_set_conv_nth)
      with heap_root [OF less.prems(1), of "Suc j"] show ?thesis by simp
    qed
    have mt: "mset (take (i - 1) ?zs) + mset (drop (i - 1) ?zs) = mset xs"
      using z(1) msx by (metis append_take_drop_id mset_append)
    then have mt2: "mset (take (i - 1) ?zs) + {#xs ! 0#} + mset (drop i xs) = mset (take i xs) + mset (drop i xs)"
      unfolding z(2) d by (metis add.assoc add_mset_add_single append_take_drop_id mset.simps(2) mset_append add.commute)
    then have "set (take (i - 1) ?zs) \<subseteq> set (take i xs)"
      by (metis add_right_cancel mset_subset_eq_add_left set_mset_mono set_mset_mset)
    then have t: "x \<in> set (take i xs)" if "x \<in> set (take (i - 1) ?zs)" for x using that by blast
    have x0: "xs ! 0 \<in> set (take i xs)" using il True by (auto simp: in_set_conv_nth intro!: exI [of _ 0])
    have "sorted_wrt (\<lambda>x y. cmp x y \<le> 0) (drop (i - 1) ?zs)"
      unfolding z(2) d using less.prems(3,4) x0 by simp
    moreover have "cmp x w \<le> 0" if "x \<in> set (take (i - 1) ?zs)" "w \<in> set (drop (i - 1) ?zs)" for x w
      using that(2) root [OF t [OF that(1)]] less.prems(4) [OF t [OF that(1)]] unfolding z(2) d by auto
    ultimately have "sorted_wrt (\<lambda>x y. cmp x y \<le> 0) (sort_heap cmp ?zs (i - 1)) \<and> mset (sort_heap cmp ?zs (i - 1)) = mset ?zs"
      using less.IH [of "i - 1" ?zs] h z(3) il True by auto
    with True z(1) msx show ?thesis by (simp add: sort_heap.simps [of cmp xs i])
  qed
qed

lemma sort_array_sorts:
  "sorted_wrt (\<lambda>x y. cmp x y \<le> 0) (sort_array cmp xs (length xs)) \<and> mset (sort_array cmp xs (length xs)) = mset xs"
proof -
  let ?n = "length xs"
  have "heap_from xs ?n (Suc (?n div 2))" unfolding heap_from_def heap_at_def by auto
  then have b: "heap_from (build_heap cmp xs (?n div 2) ?n) ?n 1" "mset (build_heap cmp xs (?n div 2) ?n) = mset xs"
      "length (build_heap cmp xs (?n div 2) ?n) = ?n"
    using build_heap_heap [of xs ?n "?n div 2"] by auto
  from sort_heap_sorts [OF b(1)] b(2,3) show ?thesis by (simp add: sort_array_def)
qed

text \<open>Searching: what is left of the range are the elements that were not excluded.\<close>

lemma search_range_spec:
  assumes "sorted_wrt (\<lambda>x y. cmp x y \<le> 0) xs" "hi \<le> length xs"
  shows "case search_range cmp key xs lo hi of
      Some m \<Rightarrow> lo \<le> m \<and> m < hi \<and> cmp key (xs ! m) = 0
    | None \<Rightarrow> (\<forall>j. lo \<le> j \<and> j < hi \<longrightarrow> cmp key (xs ! j) \<noteq> 0)"
  using assms(2)
proof (induction "hi - lo" arbitrary: lo hi rule: less_induct)
  case less
  show ?case
  proof (cases "lo < hi")
    case True
    define m where "m = lo + (hi - lo) div 2"
    have m: "lo \<le> m" "m < hi" using True by (auto simp: m_def)
    have s: "search_range cmp key xs lo hi =
        (if cmp key (xs ! m) < 0 then search_range cmp key xs lo m
         else if 0 < cmp key (xs ! m) then search_range cmp key xs (m + 1) hi else Some m)"
      using True by (subst search_range.simps) (simp add: m_def Let_def)
    have le: "cmp (xs ! i) (xs ! j) \<le> 0" if "i < j" "j < hi" for i j
      using sorted_wrt_nth_less [OF assms(1) that(1)] that(2) less.prems by simp
    consider "cmp key (xs ! m) < 0" | "0 < cmp key (xs ! m)" | "cmp key (xs ! m) = 0" by linarith
    then show ?thesis
    proof cases
      case 1
      have out: "cmp key (xs ! j) \<noteq> 0" if "m \<le> j" "j < hi" for j
      proof
        assume "cmp key (xs ! j) = 0"
        then have "cmp (xs ! j) key \<le> 0" using cmp_sym [of "xs ! j" key] by auto
        moreover have "cmp (xs ! m) (xs ! j) \<le> 0" using le [of m j] that cmp_refl by (cases "m = j") auto
        ultimately have "cmp (xs ! m) key \<le> 0" using cmp_trans by blast
        then show False using 1 cmp_sym [of "xs ! m" key] by simp
      qed
      have ih: "case search_range cmp key xs lo m of Some k \<Rightarrow> lo \<le> k \<and> k < m \<and> cmp key (xs ! k) = 0
          | None \<Rightarrow> (\<forall>j. lo \<le> j \<and> j < m \<longrightarrow> cmp key (xs ! j) \<noteq> 0)"
        by (rule less.hyps) (use m less.prems in auto)
      have s1: "search_range cmp key xs lo hi = search_range cmp key xs lo m" using s 1 by simp
      show ?thesis
      proof (cases "search_range cmp key xs lo m")
        case None
        with ih out show ?thesis unfolding s1 by (auto simp: not_less) (metis not_less)
      qed (use ih m s1 in auto)
    next
      case 2
      have out: "cmp key (xs ! j) \<noteq> 0" if "j \<le> m" for j
      proof
        assume "cmp key (xs ! j) = 0"
        moreover have "cmp (xs ! j) (xs ! m) \<le> 0" using le [of j m] that m(2) cmp_refl by (cases "m = j") auto
        ultimately have "cmp key (xs ! m) \<le> 0" using cmp_trans [of key "xs ! j"] by simp
        with 2 show False by simp
      qed
      have ih: "case search_range cmp key xs (m + 1) hi of Some k \<Rightarrow> m + 1 \<le> k \<and> k < hi \<and> cmp key (xs ! k) = 0
          | None \<Rightarrow> (\<forall>j. m + 1 \<le> j \<and> j < hi \<longrightarrow> cmp key (xs ! j) \<noteq> 0)"
        by (rule less.hyps) (use m less.prems in auto)
      have s1: "search_range cmp key xs lo hi = search_range cmp key xs (m + 1) hi" using s 2 by simp
      show ?thesis
      proof (cases "search_range cmp key xs (m + 1) hi")
        case None
        have "m + 1 \<le> j \<or> j \<le> m" for j by linarith
        with None ih out show ?thesis unfolding s1 by auto
      qed (use ih m s1 in auto)
    next
      case 3
      with s m show ?thesis by simp
    qed
  qed (subst search_range.simps, simp)
qed

end

section \<open>Decimal numbers\<close>

text \<open>The decimal representation of an integer, as a reference for \<open>atoi\<close>.\<close>

fun decimal_nat :: "nat \<Rightarrow> byte list" where
  "decimal_nat n = (if n < 10 then [word_of_nat (48 + n)] else decimal_nat (n div 10) @ [word_of_nat (48 + n mod 10)])"

declare decimal_nat.simps [simp del]

definition decimal :: "int \<Rightarrow> byte list" where
  "decimal i = (if i < 0 then 45 # decimal_nat (nat (- i)) else decimal_nat (nat i))"

lemma digit_sint: "k < 10 \<Longrightarrow> sint (word_of_nat (48 + k) :: byte) = 48 + int k"
proof -
  assume k: "k < 10"
  have "\<forall>j < 10. sint (word_of_nat (48 + j) :: byte) = 48 + int j"
    by (simp add: numeral_eq_Suc All_less_Suc)
  with k show ?thesis by blast
qed

lemma parse_digits_append:
  "\<forall>c \<in> set s. isdigit (sint c) \<Longrightarrow> parse_digits v (s @ s') = parse_digits (parse_digits v s) s'"
  by (induction s arbitrary: v) auto

lemma decimal_nat_digits: "\<forall>c \<in> set (decimal_nat n). isdigit (sint c)"
proof (induction n rule: decimal_nat.induct)
  case (1 n)
  have d: "isdigit (sint (word_of_nat (48 + k) :: byte))" if "k < 10" for k
    using digit_sint [OF that] that by (simp add: isdigit_def)
  show ?case using 1 d [of n] d [of "n mod 10"] by (subst decimal_nat.simps) auto
qed

lemma parse_decimal_nat: "n \<le> 2 ^ 31 \<Longrightarrow> parse_digits 0 (decimal_nat n) = - int n"
proof (induction n rule: decimal_nat.induct)
  case (1 n)
  show ?case
  proof (cases "n < 10")
    case True
    then show ?thesis using digit_sint [OF True]
      by (subst decimal_nat.simps) (simp add: isdigit_def s32_of_lit)
  next
    case False
    have k: "n mod 10 < 10" by simp
    have n: "int n = int (n div 10) * 10 + int (n mod 10)"
      by (metis div_mult_mod_eq of_nat_add of_nat_mult of_nat_numeral)
    have b: "int n \<le> 2 ^ 31" using 1(2) by simp
    have "parse_digits 0 (decimal_nat (n div 10)) = - int (n div 10)" using 1 False by simp
    moreover have "s32_of (- int (n div 10) * 10) = - int (n div 10) * 10" by (rule s32_of_lit) (use n b in auto)
    moreover have "s32_of (- int (n div 10) * 10 - int (n mod 10)) = - int n" by (subst s32_of_lit) (use n b in auto)
    ultimately show ?thesis
      using False digit_sint [OF k]
      by (subst decimal_nat.simps) (simp add: parse_digits_append [OF decimal_nat_digits] isdigit_def)
  qed
qed

section \<open>Properties\<close>

text \<open>
  C34: \<open>qsort\<close> sorts: for every comparison function whose sign is a total preorder the result is
  a permutation of the array in which every element compares at most equal to every later one.
\<close>

theorem qsort_sorts:
  assumes "\<And>x y. 0 < compare x y \<longleftrightarrow> compare y x < 0"
    and "\<And>x y z. compare x y \<le> 0 \<Longrightarrow> compare y z \<le> 0 \<Longrightarrow> compare x z \<le> 0"
  shows "mset (qsort xs (length xs) compare) = mset xs
    \<and> sorted_wrt (\<lambda>x y. compare x y \<le> 0) (qsort xs (length xs) compare)"
proof -
  have "strcmp_order compare" using assms by unfold_locales
  from strcmp_order.sort_array_sorts [OF this, of xs] show ?thesis by (simp add: qsort_def compare_thunk_def)
qed

theorem qsort_sorts_witness:
  "mset (qsort [3, 1, 2 :: int] 3 (\<lambda>x y. x - y)) = {#3, 1, 2#} \<and> sorted_wrt (\<lambda>x y. x - y \<le> 0) (qsort [3, 1, 2 :: int] 3 (\<lambda>x y. x - y))"
  using qsort_sorts [of "\<lambda>x y. x - y" "[3, 1, 2 :: int]"] by (simp add: eval_nat_numeral)

text \<open>
  \<open>bsearch\<close> on a sorted array terminates and finds: it returns the position of an element that
  compares equal to the key, or a null pointer exactly when there is none.
\<close>

theorem bsearch_finds:
  assumes "\<And>x y. 0 < compare x y \<longleftrightarrow> compare y x < 0"
    and "\<And>x y z. compare x y \<le> 0 \<Longrightarrow> compare y z \<le> 0 \<Longrightarrow> compare x z \<le> 0"
    and "sorted_wrt (\<lambda>x y. compare x y \<le> 0) xs"
  shows "case bsearch key xs (length xs) compare of
      Some i \<Rightarrow> i < length xs \<and> compare key (xs ! i) = 0
    | None \<Rightarrow> (\<forall>x\<in>set xs. compare key x \<noteq> 0)"
proof -
  have "strcmp_order compare" using assms(1,2) by unfold_locales
  from strcmp_order.search_range_spec [OF this assms(3), where hi = "length xs" and key = key and lo = 0] show ?thesis
    by (auto simp: bsearch_def compare_thunk_def binary_search_def in_set_conv_nth split: option.splits)
qed

theorem bsearch_finds_witness:
  "\<exists>i. bsearch 5 [1, 3, 5, 7 :: int] 4 (\<lambda>x y. x - y) = Some i \<and> [1, 3, 5, 7 :: int] ! i = 5"
  using bsearch_finds [of "\<lambda>x y. x - y" "[1, 3, 5, 7 :: int]" 5]
  by (auto simp: eval_nat_numeral split: option.splits)

text \<open>
  Reading numbers: \<open>atoi\<close> reads back every 32-bit integer from its decimal representation, \<open>INT_MIN\<close> included,
  whatever white space comes before it and whatever text that does not start with a digit
  comes after it.
\<close>

theorem atoi_decimal:
  assumes "- (2 ^ 31) \<le> i" "i < 2 ^ 31" "\<forall>c\<in>set ws. isspace (uint c)" "rest = [] \<or> \<not> isdigit (sint (hd rest))"
  shows "atoi (ws @ decimal i @ rest) = i"
proof -
  have sk: "skip_space (ws @ s) = skip_space s" for s using assms(3) by (induction ws) auto
  have stop: "parse_digits v rest = v" for v using assms(4) by (cases rest) auto
  have pn: "parse_digits 0 (decimal_nat n @ rest) = - int n" if "n \<le> 2 ^ 31" for n
    using parse_decimal_nat [OF that] stop by (simp add: parse_digits_append [OF decimal_nat_digits])
  show ?thesis
  proof (cases "i < 0")
    case True
    have "parse_digits 0 (decimal_nat (nat (- i)) @ rest) = i" using pn [of "nat (- i)"] True assms(1) by simp
    with True show ?thesis by (simp add: atoi_def sk decimal_def isspace_def)
  next
    case False
    have "decimal_nat (nat i) \<noteq> []" by (subst decimal_nat.simps) simp
    then obtain c s where d: "decimal_nat (nat i) = c # s" by (auto simp: neq_Nil_conv)
    have "isdigit (sint c)" using decimal_nat_digits [of "nat i"] d by simp
    then have "48 \<le> sint c" "sint c \<le> 57" by (auto simp: isdigit_def)
    then have "c \<noteq> 43" "c \<noteq> 45" "uint c = sint c" by (auto simp: uint_sint take_bit_eq_mod)
    moreover from this have "\<not> isspace (uint c)" using \<open>48 \<le> sint c\<close> by (simp add: isspace_def)
    ultimately have "atoi (ws @ decimal i @ rest) = s32_of (- parse_digits 0 (decimal_nat (nat i) @ rest))"
      using False d by (simp add: atoi_def sk decimal_def)
    also have "\<dots> = i" using pn [of "nat i"] False assms(2) by simp
    finally show ?thesis .
  qed
qed

theorem atoi_decimal_witness: "atoi ([32] @ decimal (- 2147483648) @ [32]) = - 2147483648"
  using atoi_decimal [of "- 2147483648" "[32]" "[32]"] by (simp add: isspace_def isdigit_def)

end
