(* ===== verification/CString.thy ===== *)
theory CString
  imports Stdlib
begin

text \<open>
  The string library (\<open>src/lib/string.c\<close>) on a byte-addressed memory. The null pointer is address
  0; every address can be read, so what a function does with an unterminated string is to read
  on. The loops that search for a terminator are given a bound on their iterations; the lemmas
  show that every bound that reaches the terminator gives the same result.
\<close>

type_synonym mem = "nat \<Rightarrow> byte"

section \<open>Blocks of memory\<close>

fun copy_up :: "mem \<Rightarrow> nat \<Rightarrow> nat \<Rightarrow> nat \<Rightarrow> mem" where
  "copy_up m dst src 0 = m"
| "copy_up m dst src (Suc sz) = copy_up (m(dst := m src)) (dst + 1) (src + 1) sz"

text \<open>Copying down: \<open>dst\<close> and \<open>src\<close> are one past the byte to copy.\<close>

fun copy_down :: "mem \<Rightarrow> nat \<Rightarrow> nat \<Rightarrow> nat \<Rightarrow> mem" where
  "copy_down m dst src 0 = m"
| "copy_down m dst src (Suc sz) = copy_down (m(dst - 1 := m (src - 1))) (dst - 1) (src - 1) sz"

definition memcpy :: "mem \<Rightarrow> nat \<Rightarrow> nat \<Rightarrow> nat \<Rightarrow> (mem \<times> nat) res" where
  "memcpy m dst src sz =
     kassert (dst \<noteq> 0 \<or> sz = 0) (kassert (src \<noteq> 0 \<or> sz = 0) (Inr (copy_up m dst src sz, dst)))"

text \<open>The pointer \<open>memmove\<close> returns has moved to the end of the block when it copied upwards.\<close>

definition memmove :: "mem \<Rightarrow> nat \<Rightarrow> nat \<Rightarrow> nat \<Rightarrow> (mem \<times> nat) res" where
  "memmove m dst src sz =
     kassert (dst \<noteq> 0 \<or> sz = 0) (kassert (src \<noteq> 0 \<or> sz = 0)
       (if dst < src then Inr (copy_up m dst src sz, dst + sz)
        else Inr (copy_down m (dst + sz) (src + sz) sz, dst)))"

fun memcmp_loop :: "mem \<Rightarrow> nat \<Rightarrow> nat \<Rightarrow> nat \<Rightarrow> int" where
  "memcmp_loop m a b 0 = 0"
| "memcmp_loop m a b (Suc sz) =
     (if m a \<noteq> m b then (if m b < m a then 1 else - 1) else memcmp_loop m (a + 1) (b + 1) sz)"

definition memcmp :: "mem \<Rightarrow> nat \<Rightarrow> nat \<Rightarrow> nat \<Rightarrow> int res" where
  "memcmp m a b sz = kassert (a \<noteq> 0 \<or> sz = 0) (kassert (b \<noteq> 0 \<or> sz = 0) (Inr (memcmp_loop m a b sz)))"

fun memchr_loop :: "mem \<Rightarrow> nat \<Rightarrow> byte \<Rightarrow> nat \<Rightarrow> nat option" where
  "memchr_loop m block ch 0 = None"
| "memchr_loop m block ch (Suc sz) = (if m block = ch then Some block else memchr_loop m (block + 1) ch sz)"

definition memchr :: "mem \<Rightarrow> nat \<Rightarrow> int \<Rightarrow> nat \<Rightarrow> nat option res" where
  "memchr m block ch sz = kassert (block \<noteq> 0 \<or> sz = 0) (Inr (memchr_loop m block (word_of_int ch) sz))"

fun set_bytes :: "mem \<Rightarrow> nat \<Rightarrow> byte \<Rightarrow> nat \<Rightarrow> mem" where
  "set_bytes m dst v 0 = m"
| "set_bytes m dst v (Suc sz) = set_bytes (m(dst := v)) (dst + 1) v sz"

definition memset :: "mem \<Rightarrow> nat \<Rightarrow> int \<Rightarrow> nat \<Rightarrow> (mem \<times> nat) res" where
  "memset m dst v sz = kassert (dst \<noteq> 0 \<or> sz = 0) (Inr (set_bytes m dst (word_of_int v) sz, dst))"

section \<open>Strings\<close>

fun strlen_loop :: "nat \<Rightarrow> mem \<Rightarrow> nat \<Rightarrow> nat \<Rightarrow> nat res" where
  "strlen_loop 0 m string p = Inl OutOfFuel"
| "strlen_loop (Suc n) m string p = (if m p \<noteq> 0 then strlen_loop n m string (p + 1) else Inr (p - string))"

definition strlen :: "nat \<Rightarrow> mem \<Rightarrow> nat \<Rightarrow> nat res" where
  "strlen n m string = kassert (string \<noteq> 0) (strlen_loop n m string string)"

fun strnlen_loop :: "mem \<Rightarrow> nat \<Rightarrow> nat \<Rightarrow> nat \<Rightarrow> nat" where
  "strnlen_loop m string 0 len = len"
| "strnlen_loop m string (Suc k) len = (if m (string + len) \<noteq> 0 then strnlen_loop m string k (len + 1) else len)"

text \<open>The loop of \<open>strnlen\<close> runs while the length is below \<open>maxlen\<close>: \<open>maxlen\<close> rounds at most.\<close>

definition strnlen :: "mem \<Rightarrow> nat \<Rightarrow> nat \<Rightarrow> nat" where
  "strnlen m string maxlen = strnlen_loop m string maxlen 0"

fun strcmp_loop :: "nat \<Rightarrow> mem \<Rightarrow> nat \<Rightarrow> nat \<Rightarrow> int res" where
  "strcmp_loop 0 m a b = Inl OutOfFuel"
| "strcmp_loop (Suc n) m a b =
     (if m a \<noteq> 0 \<and> m a = m b then strcmp_loop n m (a + 1) (b + 1)
      else Inr (if m a < m b then - 1 else if m b < m a then 1 else 0))"

definition strcmp :: "nat \<Rightarrow> mem \<Rightarrow> nat \<Rightarrow> nat \<Rightarrow> int res" where
  "strcmp n m a b = kassert (a \<noteq> 0) (kassert (b \<noteq> 0) (strcmp_loop n m a b))"

fun strchr_loop :: "nat \<Rightarrow> mem \<Rightarrow> nat \<Rightarrow> byte \<Rightarrow> nat option res" where
  "strchr_loop 0 m string c = Inl OutOfFuel"
| "strchr_loop (Suc n) m string c =
     (if m string = c then Inr (Some string)
      else if m string = 0 then Inr None
      else strchr_loop n m (string + 1) c)"

definition strchr :: "nat \<Rightarrow> mem \<Rightarrow> nat \<Rightarrow> byte \<Rightarrow> nat option res" where
  "strchr n m string c = kassert (string \<noteq> 0) (strchr_loop n m string c)"

fun strcspn_loop :: "nat \<Rightarrow> nat \<Rightarrow> mem \<Rightarrow> nat \<Rightarrow> nat \<Rightarrow> nat \<Rightarrow> nat res" where
  "strcspn_loop 0 k m string stop len = Inl OutOfFuel"
| "strcspn_loop (Suc n) k m string stop len =
     (if m (string + len) = 0 then Inr len
      else rbind (strchr k m stop (m (string + len))) (\<lambda>r.
             if r \<noteq> None then Inr len else strcspn_loop n k m string stop (len + 1)))"

definition strcspn :: "nat \<Rightarrow> mem \<Rightarrow> nat \<Rightarrow> nat \<Rightarrow> nat res" where
  "strcspn n m string stop = strcspn_loop n n m string stop 0"

fun strspn_loop :: "nat \<Rightarrow> nat \<Rightarrow> mem \<Rightarrow> nat \<Rightarrow> nat \<Rightarrow> nat \<Rightarrow> nat res" where
  "strspn_loop 0 k m string skip len = Inl OutOfFuel"
| "strspn_loop (Suc n) k m string skip len =
     (if m (string + len) = 0 then Inr len
      else rbind (strchr k m skip (m (string + len))) (\<lambda>r.
             if r = None then Inr len else strspn_loop n k m string skip (len + 1)))"

definition strspn :: "nat \<Rightarrow> mem \<Rightarrow> nat \<Rightarrow> nat \<Rightarrow> nat res" where
  "strspn n m string skip = strspn_loop n n m string skip 0"

fun strpbrk_loop :: "nat \<Rightarrow> nat \<Rightarrow> mem \<Rightarrow> nat \<Rightarrow> nat \<Rightarrow> nat option res" where
  "strpbrk_loop 0 k m string stop = Inl OutOfFuel"
| "strpbrk_loop (Suc n) k m string stop =
     (if m string = 0 then Inr None
      else rbind (strchr k m stop (m string)) (\<lambda>r.
             if r \<noteq> None then Inr (Some string) else strpbrk_loop n k m (string + 1) stop))"

definition strpbrk :: "nat \<Rightarrow> mem \<Rightarrow> nat \<Rightarrow> nat \<Rightarrow> nat option res" where
  "strpbrk n m string stop = strpbrk_loop n n m string stop"

fun strrchr_loop :: "nat \<Rightarrow> mem \<Rightarrow> nat \<Rightarrow> byte \<Rightarrow> nat option \<Rightarrow> nat option res" where
  "strrchr_loop 0 m string c p = Inl OutOfFuel"
| "strrchr_loop (Suc n) m string c p =
     (if m string = 0 then Inr p else strrchr_loop n m (string + 1) c (if m string = c then Some string else p))"

definition strrchr :: "nat \<Rightarrow> mem \<Rightarrow> nat \<Rightarrow> byte \<Rightarrow> nat option res" where
  "strrchr n m string c = strrchr_loop n m string c None"

fun strstr_loop :: "mem \<Rightarrow> nat \<Rightarrow> nat \<Rightarrow> nat \<Rightarrow> nat \<Rightarrow> nat \<Rightarrow> nat option res" where
  "strstr_loop m haystack needle needle_len i 0 = Inr None"
| "strstr_loop m haystack needle needle_len i (Suc k) =
     rbind (memcmp m (haystack + i) needle needle_len) (\<lambda>r.
       if r = 0 then Inr (Some (haystack + i)) else strstr_loop m haystack needle needle_len (i + 1) k)"

definition strstr :: "nat \<Rightarrow> mem \<Rightarrow> nat \<Rightarrow> nat \<Rightarrow> nat option res" where
  "strstr n m haystack needle =
     rbind (strlen n m haystack) (\<lambda>haystack_len. rbind (strlen n m needle) (\<lambda>needle_len.
       if needle_len \<le> haystack_len
       then strstr_loop m haystack needle needle_len 0 (haystack_len - needle_len + 1)
       else Inr None))"

definition strlcpy :: "nat \<Rightarrow> mem \<Rightarrow> nat \<Rightarrow> nat \<Rightarrow> nat \<Rightarrow> (mem \<times> nat) res" where
  "strlcpy n m dst src sz =
     kassert (dst \<noteq> 0) (kassert (src \<noteq> 0)
       (rbind (strlen n m src) (\<lambda>src_len.
          if 0 < sz
          then let dst_len = (if src_len < sz - 1 then src_len else sz - 1) in
               rbind (memcpy m dst src dst_len) (\<lambda>(m1, _). Inr (m1(dst + dst_len := 0), src_len))
          else Inr (m, src_len))))"

definition strlcat :: "nat \<Rightarrow> mem \<Rightarrow> nat \<Rightarrow> nat \<Rightarrow> nat \<Rightarrow> (mem \<times> nat) res" where
  "strlcat n m dst src sz =
     kassert (dst \<noteq> 0) (kassert (src \<noteq> 0)
       (rbind (strlen n m src) (\<lambda>src_len. rbind (strlen n m dst) (\<lambda>dst_len.
          if 0 < sz \<and> dst_len < sz
          then let copy_cnt = (if src_len < sz - dst_len - 1 then src_len else sz - dst_len - 1) in
               rbind (memcpy m (dst + dst_len) src copy_cnt) (\<lambda>(m1, _).
                 Inr (m1(dst + dst_len + copy_cnt := 0), src_len + dst_len))
          else Inr (m, src_len + dst_len)))))"

section \<open>Tokens\<close>

text \<open>Skipping delimiters: \<open>None\<close> when the string ends first, at the position of the second component.\<close>

fun skip_delims :: "nat \<Rightarrow> nat \<Rightarrow> mem \<Rightarrow> nat \<Rightarrow> nat \<Rightarrow> (bool \<times> nat) res" where
  "skip_delims 0 k m delims s = Inl OutOfFuel"
| "skip_delims (Suc n) k m delims s =
     rbind (strchr k m delims (m s)) (\<lambda>r.
       if r \<noteq> None then if m s = 0 then Inr (False, s) else skip_delims n k m delims (s + 1)
       else Inr (True, s))"

fun skip_token :: "nat \<Rightarrow> nat \<Rightarrow> mem \<Rightarrow> nat \<Rightarrow> nat \<Rightarrow> nat res" where
  "skip_token 0 k m delims s = Inl OutOfFuel"
| "skip_token (Suc n) k m delims s =
     rbind (strchr k m delims (m s)) (\<lambda>r. if r = None then skip_token n k m delims (s + 1) else Inr s)"

text \<open>The result: the memory, the token and the saved position.\<close>

definition strtok_r :: "nat \<Rightarrow> mem \<Rightarrow> nat \<Rightarrow> nat \<Rightarrow> nat \<Rightarrow> (mem \<times> nat option \<times> nat) res" where
  "strtok_r n m s0 delims save =
     kassert (delims \<noteq> 0)
       (let s = (if s0 = 0 then save else s0) in
        kassert (s \<noteq> 0)
          (rbind (skip_delims n n m delims s) (\<lambda>(found, token).
             if \<not> found then Inr (m, None, token)
             else rbind (skip_token n n m delims token) (\<lambda>e.
                    if m e \<noteq> 0 then Inr (m(e := 0), Some token, e + 1) else Inr (m, Some token, e)))))"

text \<open>The loop over all tokens of a string, as its callers write it.\<close>

fun strtok_all :: "nat \<Rightarrow> nat \<Rightarrow> mem \<Rightarrow> nat \<Rightarrow> nat \<Rightarrow> nat \<Rightarrow> (mem \<times> nat list) res" where
  "strtok_all 0 n m s delims save = Inl OutOfFuel"
| "strtok_all (Suc k) n m s delims save =
     rbind (strtok_r n m s delims save) (\<lambda>(m1, token, save1).
       case token of
         None \<Rightarrow> Inr (m1, [])
       | Some t \<Rightarrow> rbind (strtok_all k n m1 0 delims save1) (\<lambda>(m2, ts). Inr (m2, t # ts)))"

section \<open>Copying\<close>

lemma copy_up_at:
  assumes "dst \<le> src \<or> src + sz \<le> dst"
  shows "copy_up m dst src sz a = (if dst \<le> a \<and> a < dst + sz then m (src + (a - dst)) else m a)"
  using assms
proof (induction sz arbitrary: m dst src)
  case (Suc sz)
  define m' where "m' = m(dst := m src)"
  have ih: "copy_up m' (dst + 1) (src + 1) sz a =
      (if dst + 1 \<le> a \<and> a < dst + 1 + sz then m' (src + 1 + (a - (dst + 1))) else m' a)"
    by (rule Suc.IH) (use Suc.prems in auto)
  have rd: "m' (src + 1 + (a - (dst + 1))) = m (src + (a - dst))" if "dst + 1 \<le> a" "a < dst + 1 + sz"
  proof -
    have "src + 1 + (a - (dst + 1)) = src + (a - dst)" "src + (a - dst) \<noteq> dst" using that Suc.prems by auto
    then show ?thesis unfolding m'_def by (simp only: fun_upd_apply if_False)
  qed
  have wr: "m' a = (if a = dst then m src else m a)" by (simp add: m'_def)
  show ?case unfolding copy_up.simps m'_def [symmetric] ih using rd wr by auto
qed auto

lemma copy_down_at:
  assumes "src \<le> dst"
  shows "copy_down m (dst + sz) (src + sz) sz a = (if dst \<le> a \<and> a < dst + sz then m (src + (a - dst)) else m a)"
  using assms
proof (induction sz arbitrary: m)
  case (Suc sz)
  define m' where "m' = m(dst + sz := m (src + sz))"
  have st: "copy_down m (dst + Suc sz) (src + Suc sz) (Suc sz) a = copy_down m' (dst + sz) (src + sz) sz a"
    unfolding m'_def by simp
  have ih: "copy_down m' (dst + sz) (src + sz) sz a = (if dst \<le> a \<and> a < dst + sz then m' (src + (a - dst)) else m' a)"
    by (rule Suc.IH [OF Suc.prems])
  have rd: "m' (src + (a - dst)) = m (src + (a - dst))" if "dst \<le> a" "a < dst + sz"
  proof -
    have "src + (a - dst) \<noteq> dst + sz" using that Suc.prems by auto
    then show ?thesis by (simp add: m'_def)
  qed
  have wr: "m' a = (if a = dst + sz then m (src + sz) else m a)" by (simp add: m'_def)
  show ?case unfolding st ih using rd wr by auto
qed auto

section \<open>Terminated strings\<close>

definition cstring :: "mem \<Rightarrow> nat \<Rightarrow> byte list \<Rightarrow> bool" where
  "cstring m p xs \<longleftrightarrow> (\<forall>i < length xs. m (p + i) = xs ! i \<and> xs ! i \<noteq> 0) \<and> m (p + length xs) = 0"

lemma cstring_Nil [simp]: "cstring m p [] \<longleftrightarrow> m p = 0"
  by (simp add: cstring_def)

lemma cstring_Cons [simp]: "cstring m p (x # xs) \<longleftrightarrow> m p = x \<and> x \<noteq> 0 \<and> cstring m (Suc p) xs"
  by (auto simp: cstring_def All_less_Suc2)

lemma cstring_append: "cstring m p (xs @ ys) \<Longrightarrow> cstring m (p + length xs) ys"
proof (induction xs arbitrary: p)
  case (Cons x xs)
  then show ?case using Cons.IH [of "Suc p"] by simp
qed simp

lemma cstring_cong:
  assumes "cstring m p xs" "\<And>a. p \<le> a \<Longrightarrow> a \<le> p + length xs \<Longrightarrow> m' a = m a"
  shows "cstring m' p xs"
  using assms by (induction xs arbitrary: p) auto

lemma cstring_unique: "cstring m p xs \<Longrightarrow> cstring m p ys \<Longrightarrow> xs = ys"
proof (induction xs arbitrary: p ys)
  case Nil
  then show ?case by (cases ys) auto
next
  case (Cons x xs)
  then show ?case by (cases ys) auto
qed

lemma cstring_nonzero: "cstring m p xs \<Longrightarrow> x \<in> set xs \<Longrightarrow> x \<noteq> 0"
  by (induction xs arbitrary: p) auto

lemma cstring_cut:
  assumes "cstring m p (xs @ ys)" "m' (p + length xs) = 0" "\<And>a. p \<le> a \<Longrightarrow> a < p + length xs \<Longrightarrow> m' a = m a"
  shows "cstring m' p xs"
  using assms by (induction xs arbitrary: p) auto

lemma strlen_cstring:
  assumes "cstring m p xs" "length xs < n" "p \<noteq> 0"
  shows "strlen n m p = Inr (length xs)"
proof -
  have "strlen_loop n m p q = Inr (q - p + length ys)" if "cstring m q ys" "length ys < n" "p \<le> q" for q ys n
    using that
  proof (induction ys arbitrary: q n)
    case Nil
    then show ?case by (cases n) auto
  next
    case (Cons y ys)
    then obtain n' where "n = Suc n'" by (cases n) auto
    with Cons show ?case by (simp add: Suc_diff_le)
  qed
  from this [OF assms(1,2)] assms(3) show ?thesis by (simp add: strlen_def)
qed

lemma strchr_cstring:
  assumes "cstring m p xs" "length xs < n" "p \<noteq> 0"
  shows "\<exists>r. strchr n m p c = Inr r \<and> (r = None \<longleftrightarrow> c \<noteq> 0 \<and> c \<notin> set xs)"
proof -
  have "\<exists>r. strchr_loop n m p c = Inr r \<and> (r = None \<longleftrightarrow> c \<noteq> 0 \<and> c \<notin> set xs)"
    using assms(1,2)
  proof (induction xs arbitrary: p n)
    case Nil
    then show ?case by (cases n) auto
  next
    case (Cons x xs)
    then obtain n' where n: "n = Suc n'" by (cases n) auto
    with Cons.IH [of "Suc p" n'] Cons.prems show ?case by auto
  qed
  with assms(3) show ?thesis by (simp add: strchr_def)
qed

section \<open>Tokenizing\<close>

text \<open>The maximal blocks without delimiters, as a reference.\<close>

function tokens :: "byte list \<Rightarrow> byte list \<Rightarrow> byte list list" where
  "tokens ds xs = (case dropWhile (\<lambda>x. x \<in> set ds) xs of [] \<Rightarrow> []
     | y # ys \<Rightarrow> takeWhile (\<lambda>x. x \<notin> set ds) (y # ys) # tokens ds (dropWhile (\<lambda>x. x \<notin> set ds) (y # ys)))"
  by pat_completeness auto
termination
proof (relation "measure (\<lambda>(_, xs). length xs)")
  fix ds xs y ys
  assume d: "dropWhile (\<lambda>x :: byte. x \<in> set ds) xs = y # ys"
  then have "y \<notin> set ds" by (metis hd_dropWhile list.sel(1) list.simps(3))
  then have "length (dropWhile (\<lambda>x. x \<notin> set ds) (y # ys)) < length (y # ys)"
    using length_dropWhile_le [of "\<lambda>x. x \<notin> set ds" ys] by simp
  also have "length (y # ys) \<le> length xs" unfolding d [symmetric] by (rule length_dropWhile_le)
  finally show "((ds, dropWhile (\<lambda>x. x \<notin> set ds) (y # ys)), ds, xs) \<in> measure (\<lambda>(_, xs). length xs)" by simp
qed simp

declare tokens.simps [simp del]

lemma tokens_Nil [simp]: "tokens ds [] = []"
  by (subst tokens.simps) simp

lemma tokens_skip: "x \<in> set ds \<Longrightarrow> tokens ds (x # xs) = tokens ds xs"
  by (subst (1 2) tokens.simps) simp

lemma skip_delims_spec:
  assumes "cstring m s xs" "length xs < n" "cstring m d ds" "length ds < k" "d \<noteq> 0"
  shows "skip_delims n k m d s =
    Inr (dropWhile (\<lambda>x. x \<in> set ds) xs \<noteq> [], s + length (takeWhile (\<lambda>x. x \<in> set ds) xs))"
  using assms(1,2)
proof (induction xs arbitrary: s n)
  case Nil
  then obtain n' where n: "n = Suc n'" by (cases n) auto
  obtain r where "strchr k m d (m s) = Inr r" "r \<noteq> None" using strchr_cstring [OF assms(3-5), of "m s"] Nil by auto
  with Nil n show ?case by auto
next
  case (Cons x xs)
  then obtain n' where n: "n = Suc n'" by (cases n) auto
  obtain r where "strchr k m d (m s) = Inr r" "r = None \<longleftrightarrow> x \<notin> set ds"
    using strchr_cstring [OF assms(3-5), of "m s"] Cons.prems(1) by auto
  with Cons n show ?case by auto
qed

lemma skip_token_spec:
  assumes "cstring m s xs" "length xs < n" "cstring m d ds" "length ds < k" "d \<noteq> 0"
  shows "skip_token n k m d s = Inr (s + length (takeWhile (\<lambda>x. x \<notin> set ds) xs))"
  using assms(1,2)
proof (induction xs arbitrary: s n)
  case Nil
  then obtain n' where n: "n = Suc n'" by (cases n) auto
  obtain r where "strchr k m d (m s) = Inr r" "r \<noteq> None" using strchr_cstring [OF assms(3-5), of "m s"] Nil by auto
  with Nil n show ?case by auto
next
  case (Cons x xs)
  then obtain n' where n: "n = Suc n'" by (cases n) auto
  obtain r where "strchr k m d (m s) = Inr r" "r = None \<longleftrightarrow> x \<notin> set ds"
    using strchr_cstring [OF assms(3-5), of "m s"] Cons.prems(1) by auto
  with Cons n show ?case by auto
qed

lemma strtok_r_spec:
  fixes ds xs :: "byte list"
  defines "ys \<equiv> dropWhile (\<lambda>x. x \<in> set ds) xs"
  assumes "cstring m s xs" "length xs < n" "cstring m d ds" "length ds < n" "d \<noteq> 0" "s \<noteq> 0" "s = (if s0 = 0 then save else s0)"
  shows "ys = [] \<Longrightarrow> strtok_r n m s0 d save = Inr (m, None, s + length xs)"
    "ys \<noteq> [] \<Longrightarrow> \<exists>m' save' zs. strtok_r n m s0 d save = Inr (m', Some (s + (length xs - length ys)), save')
      \<and> cstring m' (s + (length xs - length ys)) (takeWhile (\<lambda>x. x \<notin> set ds) ys) \<and> cstring m' save' zs
      \<and> tokens ds zs = tokens ds (dropWhile (\<lambda>x. x \<notin> set ds) ys) \<and> save' + length zs = s + length xs
      \<and> s + (length xs - length ys) + length (takeWhile (\<lambda>x. x \<notin> set ds) ys) \<le> save'
      \<and> (zs = [] \<or> s + (length xs - length ys) + length (takeWhile (\<lambda>x. x \<notin> set ds) ys) < save')
      \<and> (\<forall>a. a < s \<or> s + length xs \<le> a \<longrightarrow> m' a = m a)"
proof -
  let ?ws = "takeWhile (\<lambda>x. x \<in> set ds) xs"
  have xs: "xs = ?ws @ ys" by (simp add: ys_def)
  then have len: "length ?ws = length xs - length ys" "length ?ws + length ys = length xs"
    by (metis add_diff_cancel_right' length_append) (metis length_append xs)
  have sk: "skip_delims n n m d s = Inr (ys \<noteq> [], s + length ?ws)"
    using skip_delims_spec [OF assms(2-6)] by (simp add: ys_def)
  show "strtok_r n m s0 d save = Inr (m, None, s + length xs)" if "ys = []"
    using sk that len assms(6,7,8) by (simp add: strtok_r_def Let_def)
  assume ne: "ys \<noteq> []"
  define tt rr where "tt = takeWhile (\<lambda>x. x \<notin> set ds) ys" and "rr = dropWhile (\<lambda>x. x \<notin> set ds) ys"
  let ?p = "s + length ?ws"
  let ?e = "?p + length tt"
  have cy: "cstring m ?p ys" using cstring_append [of m s ?ws ys] xs assms(2) by simp
  have st: "skip_token n n m d ?p = Inr ?e" 
    unfolding tt_def by (rule skip_token_spec [OF cy _ assms(4-6)]) (use len assms(3) in simp)
  have yt: "ys = tt @ rr" by (simp add: tt_def rr_def)
  have cr: "cstring m ?e rr" using cstring_append [of m ?p tt rr] cy yt by simp
  have lr: "length tt + length rr = length ys" by (metis length_append yt)
  have run: "strtok_r n m s0 d save = (if m ?e \<noteq> 0 then Inr (m(?e := 0), Some ?p, ?e + 1) else Inr (m, Some ?p, ?e))"
    using sk st ne assms(6,7,8) by (simp add: strtok_r_def Let_def)
  have "\<exists>m' save' zs. strtok_r n m s0 d save = Inr (m', Some ?p, save')
      \<and> cstring m' ?p tt \<and> cstring m' save' zs
      \<and> tokens ds zs = tokens ds rr \<and> save' + length zs = s + length xs
      \<and> ?p + length tt \<le> save'
      \<and> (zs = [] \<or> ?p + length tt < save')
      \<and> (\<forall>a. a < s \<or> s + length xs \<le> a \<longrightarrow> m' a = m a)"
  proof (cases rr)
    case Nil
    have "m ?e = 0" "tt = ys" using cr [unfolded Nil] yt [unfolded Nil] by simp_all
    moreover from this have "strtok_r n m s0 d save = Inr (m, Some ?p, ?e)" using run by simp
    moreover have "?e = s + length xs" using lr [unfolded Nil] len(2) by simp
    moreover have "tokens ds [] = tokens ds rr" using Nil by simp
    ultimately show ?thesis using cy by (intro exI [of _ m] exI [of _ ?e] exI [of _ "[]"]) auto
  next
    case (Cons z zs)
    have z: "z \<in> set ds" using Cons unfolding rr_def by (metis hd_dropWhile list.sel(1) list.simps(3))
    have "m ?e \<noteq> 0" using cr [unfolded Cons] by simp
    then have "strtok_r n m s0 d save = Inr (m(?e := 0), Some ?p, ?e + 1)" using run by (simp only: if_True simp_thms)
    moreover have "cstring (m(?e := 0)) ?p tt" by (rule cstring_cut [of m ?p tt rr]) (use cy yt in auto)
    moreover have "cstring (m(?e := 0)) (?e + 1) zs" by (rule cstring_cong [of m]) (use cr [unfolded Cons] in auto)
    moreover have "tokens ds zs = tokens ds rr" using z Cons by (simp add: tokens_skip)
    moreover have e: "?e + 1 + length zs = s + length xs" using lr [unfolded Cons] len(2) by simp
    moreover have "\<forall>a. a < s \<or> s + length xs \<le> a \<longrightarrow> (m(?e := 0)) a = m a" using e by auto
    ultimately show ?thesis
      by (intro exI [of _ "m(?e := 0)"] exI [of _ "?e + 1"] exI [of _ zs] conjI) (assumption | simp)+
  qed
  then show "\<exists>m' save' zs. strtok_r n m s0 d save = Inr (m', Some (s + (length xs - length ys)), save')
      \<and> cstring m' (s + (length xs - length ys)) (takeWhile (\<lambda>x. x \<notin> set ds) ys) \<and> cstring m' save' zs
      \<and> tokens ds zs = tokens ds (dropWhile (\<lambda>x. x \<notin> set ds) ys) \<and> save' + length zs = s + length xs
      \<and> s + (length xs - length ys) + length (takeWhile (\<lambda>x. x \<notin> set ds) ys) \<le> save'
      \<and> (zs = [] \<or> s + (length xs - length ys) + length (takeWhile (\<lambda>x. x \<notin> set ds) ys) < save')
      \<and> (\<forall>a. a < s \<or> s + length xs \<le> a \<longrightarrow> m' a = m a)"
    unfolding len(1) tt_def rr_def .
qed

text \<open>The delimiters and the string do not overlap.\<close>

lemma strtok_all_spec:
  assumes "cstring m s xs" "length xs < n" "cstring m d ds" "length ds < n" "d \<noteq> 0" "s \<noteq> 0"
    and "s = (if s0 = 0 then save else s0)" "length (tokens ds xs) < k" "d + length ds < s \<or> s + length xs < d"
  shows "\<exists>m' ts. strtok_all k n m s0 d save = Inr (m', ts) \<and> list_all2 (cstring m') ts (tokens ds xs)
    \<and> (\<forall>a. a < s \<or> s + length xs \<le> a \<longrightarrow> m' a = m a) \<and> list_all (\<lambda>t. s \<le> t) ts"
  using assms
proof (induction k arbitrary: m s xs s0 save)
  case (Suc k)
  let ?ys = "dropWhile (\<lambda>x. x \<in> set ds) xs"
  note sp = strtok_r_spec [OF Suc.prems(1-7)]
  show ?case
  proof (cases "?ys = []")
    case True
    then have "tokens ds xs = []" by (subst tokens.simps) (simp only: list.case)
    with sp(1) [OF True] show ?thesis by simp
  next
    case False
    let ?t = "takeWhile (\<lambda>x. x \<notin> set ds) ?ys" and ?p = "s + (length xs - length ?ys)"
    from sp(2) [OF False] obtain m1 save1 zs where r: "strtok_r n m s0 d save = Inr (m1, Some ?p, save1)"
      "cstring m1 ?p ?t" "cstring m1 save1 zs" "tokens ds zs = tokens ds (dropWhile (\<lambda>x. x \<notin> set ds) ?ys)"
      "save1 + length zs = s + length xs" "?p + length ?t \<le> save1" "zs = [] \<or> ?p + length ?t < save1"
      "\<forall>a. a < s \<or> s + length xs \<le> a \<longrightarrow> m1 a = m a" by blast
    have tk: "tokens ds xs = ?t # tokens ds zs"
      using False r(4) by (subst tokens.simps) (cases ?ys; simp)
    have s1: "s \<le> save1" using r(6) by simp
    have "\<exists>m' ts. strtok_all k n m1 0 d save1 = Inr (m', ts) \<and> list_all2 (cstring m') ts (tokens ds zs)
        \<and> (\<forall>a. a < save1 \<or> save1 + length zs \<le> a \<longrightarrow> m' a = m1 a) \<and> list_all (\<lambda>t. save1 \<le> t) ts"
    proof (rule Suc.IH [OF r(3)])
      show "length zs < n" using r(5) s1 Suc.prems(2) by simp
      show "cstring m1 d ds" by (rule cstring_cong [OF Suc.prems(3)]) (use r(8) Suc.prems(9) in auto)
      show "d + length ds < save1 \<or> save1 + length zs < d" using Suc.prems(9) r(5) s1 by auto
    qed (use Suc.prems s1 tk in auto)
    then obtain m' ts where t: "strtok_all k n m1 0 d save1 = Inr (m', ts)" "list_all2 (cstring m') ts (tokens ds zs)"
      "\<forall>a. a < save1 \<or> save1 + length zs \<le> a \<longrightarrow> m' a = m1 a" "list_all (\<lambda>t. save1 \<le> t) ts" by blast
    have "cstring m' ?p ?t"
    proof (rule cstring_cong [OF r(2)])
      fix a
      assume "?p \<le> a" "a \<le> ?p + length ?t"
      then have "a < save1 \<or> save1 + length zs \<le> a" using r(6,7) by auto
      with t(3) show "m' a = m1 a" by blast
    qed
    moreover have "list_all (\<lambda>t. s \<le> t) ts" using t(4) s1 by (auto simp: list_all_iff)
    ultimately show ?thesis
      using r(1,5,8) t(1,2,3) tk s1 by auto
  qed
qed simp

section \<open>Comparing blocks\<close>

text \<open>For blocks of one size, \<open>memcmp\<close> is a comparison function that \<open>sort\<close> can be given.\<close>

lemma memcmp_loop_sym: "0 < memcmp_loop m a b sz \<longleftrightarrow> memcmp_loop m b a sz < 0"
  by (induction sz arbitrary: a b) auto

lemma memcmp_loop_trans: "memcmp_loop m a b sz \<le> 0 \<Longrightarrow> memcmp_loop m b c sz \<le> 0 \<Longrightarrow> memcmp_loop m a c sz \<le> 0"
proof (induction sz arbitrary: a b c)
  case (Suc sz)
  show ?case
  proof (cases "m a = m b \<and> m b = m c")
    case True
    then show ?thesis using Suc.IH [of "a + 1" "b + 1" "c + 1"] Suc.prems by simp
  next
    case False
    then have "m a < m c" using Suc.prems by (auto split: if_splits)
    then show ?thesis by auto
  qed
qed simp

interpretation blocks: strcmp_order "\<lambda>a b. memcmp_loop m a b sz" for m sz
  by unfold_locales (rule memcmp_loop_sym, rule memcmp_loop_trans)

section \<open>Properties\<close>

text \<open>
  \<open>memmove\<close> copies a block onto any other, overlapping in either direction: the bytes of the
  destination are the bytes the source had before, and no other byte changes. It returns the
  end of the destination, not its beginning, when the destination is below the source.
\<close>

theorem memmove_moves:
  assumes "dst \<noteq> 0" "src \<noteq> 0"
  shows "\<exists>m'. memmove m dst src sz = Inr (m', if dst < src then dst + sz else dst)
    \<and> (\<forall>a. m' a = (if dst \<le> a \<and> a < dst + sz then m (src + (a - dst)) else m a))"
proof (cases "dst < src")
  case True
  then show ?thesis using assms copy_up_at [of dst src sz m] by (simp add: memmove_def)
next
  case False
  then show ?thesis using assms copy_down_at [of src dst m sz] by (simp add: memmove_def)
qed

theorem memmove_moves_witness:
  "\<exists>m'. memmove (\<lambda>a. word_of_nat a) 10 11 3 = Inr (m', 13) \<and> m' 10 = 11 \<and> m' 12 = 13 \<and> m' 13 = 13"
  using memmove_moves [of 10 11 "\<lambda>a. word_of_nat a" 3] by auto

text \<open>
  \<open>strlcpy\<close> stays within its bound: it writes at most \<open>size\<close> bytes from \<open>dst\<close> on, always
  terminates what it writes, the result is the source cut to \<open>size - 1\<close> characters, and the
  value returned is the length of the whole source.
\<close>

theorem strlcpy_bounded:
  assumes "cstring m src xs" "length xs < n" "src \<noteq> 0" "dst \<noteq> 0" "0 < sz" "dst + sz \<le> src \<or> src + length xs < dst"
  shows "\<exists>m'. strlcpy n m dst src sz = Inr (m', length xs) \<and> cstring m' dst (take (sz - 1) xs)
    \<and> (\<forall>a. a < dst \<or> dst + sz \<le> a \<longrightarrow> m' a = m a)"
proof -
  define k where "k = (if length xs < sz - 1 then length xs else sz - 1)"
  let ?m = "(copy_up m dst src k)(dst + k := 0)"
  have "strlcpy n m dst src sz = Inr (?m, length xs)"
    using strlen_cstring [OF assms(1-3)] assms(3-5) by (simp add: strlcpy_def memcpy_def Let_def k_def)
  moreover have k: "k \<le> length xs" "k < sz" "length (take (sz - 1) xs) = k" using assms(5) by (auto simp: k_def)
  have cp: "copy_up m dst src k a = (if dst \<le> a \<and> a < dst + k then m (src + (a - dst)) else m a)" for a
    by (rule copy_up_at) (use assms(6) k in auto)
  then have "cstring ?m dst (take (sz - 1) xs)"
    using assms(1) k unfolding cstring_def k(3) by (auto simp: cp k_def split: if_splits)
  moreover have "\<forall>a. a < dst \<or> dst + sz \<le> a \<longrightarrow> ?m a = m a" using k(2) by (auto simp: cp)
  ultimately show ?thesis by blast
qed

theorem strlcpy_bounded_witness:
  "\<exists>m'. strlcpy 9 (\<lambda>a. if 20 \<le> a \<and> a < 25 then 97 else 0) 10 20 4 = Inr (m', 5) \<and> cstring m' 10 [97, 97, 97]"
  using strlcpy_bounded [of "\<lambda>a. if 20 \<le> a \<and> a < 25 then 97 else 0" 20 "[97, 97, 97, 97, 97]" 9 10 4] by auto

text \<open>
  C33: Calling \<open>strtok_r\<close> until it returns a null pointer terminates and yields the tokens of the
  string: pointers to terminated strings, which are the maximal blocks without delimiters in
  their order, none of them empty. Only bytes of the string are written.
\<close>

theorem strtok_r_tokenizes:
  assumes "cstring m s xs" "s \<noteq> 0" "length xs < n" "cstring m d ds" "d \<noteq> 0" "length ds < n"
    and "d + length ds < s \<or> s + length xs < d" "length (tokens ds xs) < k"
  shows "\<exists>m' ts. strtok_all k n m s d save = Inr (m', ts) \<and> list_all2 (cstring m') ts (tokens ds xs)
    \<and> [] \<notin> set (tokens ds xs) \<and> (\<forall>a. a < s \<or> s + length xs \<le> a \<longrightarrow> m' a = m a)"
proof -
  have "[] \<notin> set (tokens ds ys)" for ys
  proof (induction ds ys rule: tokens.induct)
    case (1 ds ys)
    show ?case
    proof (cases "dropWhile (\<lambda>x. x \<in> set ds) ys")
      case Nil
      then show ?thesis by (subst tokens.simps) (simp only: list.case list.set empty_iff not_False_eq_True)
    next
      case (Cons z zs)
      then have "z \<notin> set ds" by (metis hd_dropWhile list.sel(1) list.simps(3))
      with 1 [OF Cons] Cons show ?thesis by (subst tokens.simps) simp
    qed
  qed
  with strtok_all_spec [OF assms(1,3,4,6,5,2), of s save k] assms(2,7,8) show ?thesis by auto
qed

text \<open>The string \<open>/a//bc\<close> at 10 and the delimiter \<open>/\<close> at 30.\<close>

definition path_mem :: mem where
  "path_mem = ((\<lambda>_. 0)(10 := 47, 11 := 97, 12 := 47, 13 := 47, 14 := 98, 15 := 99, 30 := 47))"

lemma path_tokens: "tokens [47] [47, 97, 47, 47, 98, 99] = [[97], [98, 99]]"
  by (simp add: tokens.simps)

theorem strtok_r_tokenizes_witness:
  "\<exists>m' ts. strtok_all 3 7 path_mem 10 30 0 = Inr (m', ts) \<and> list_all2 (cstring m') ts [[97], [98, 99]]"
  using strtok_r_tokenizes [of path_mem 10 "[47, 97, 47, 47, 98, 99]" 7 30 "[47]" 3 0]
  by (auto simp: path_tokens path_mem_def)

end
