(* ===== verification/Intq.thy ===== *)
theory Intq
  imports Prelude
begin

text \<open>
  Interrupt queues (\<open>src/devices/intq.c\<close>): the ring buffers between interrupt handlers and
  threads. Every operation runs with interrupts off. An operation that has to wait returns the
  queue in which the calling thread is registered as the waiting one; it is tried again when
  that thread is woken. The lock of the queue, which lets one thread wait at a time, is one of
  \<open>src/threads/synch.c\<close>.
\<close>

section \<open>Operations\<close>

definition INTQ_BUFSIZE :: nat where "INTQ_BUFSIZE = 64"

record intq =
  not_full :: "nat option"
  not_empty :: "nat option"
  intq_buf :: "byte list"
  intq_head :: nat
  intq_tail :: nat

datatype 'a intq_result =
    Waits intq
  | Done intq (result: 'a) (woken: "nat option")

definition intq_init :: "intq \<Rightarrow> intq" where
  "intq_init q = q\<lparr>not_full := None, not_empty := None, intq_head := 0, intq_tail := 0\<rparr>"

definition next_pos :: "nat \<Rightarrow> nat" where
  "next_pos pos = (pos + 1) mod INTQ_BUFSIZE"

definition intq_empty :: "intq \<Rightarrow> bool" where
  "intq_empty q \<longleftrightarrow> intq_head q = intq_tail q"

definition intq_full :: "intq \<Rightarrow> bool" where
  "intq_full q \<longleftrightarrow> next_pos (intq_head q) = intq_tail q"

text \<open>\<open>ctx\<close> says whether an interrupt handler is running, \<open>cur\<close> is the current thread.\<close>

definition wait_not_empty :: "bool \<Rightarrow> nat \<Rightarrow> intq \<Rightarrow> intq res" where
  "wait_not_empty ctx cur q = kassert (\<not> ctx) (kassert (intq_empty q) (Inr (q\<lparr>not_empty := Some cur\<rparr>)))"

definition wait_not_full :: "bool \<Rightarrow> nat \<Rightarrow> intq \<Rightarrow> intq res" where
  "wait_not_full ctx cur q = kassert (\<not> ctx) (kassert (intq_full q) (Inr (q\<lparr>not_full := Some cur\<rparr>)))"

text \<open>Waking the waiting thread, if there is one: it is the second component.\<close>

definition signal_not_full :: "intq \<Rightarrow> (intq \<times> nat option) res" where
  "signal_not_full q = kassert (\<not> intq_full q) (Inr (q\<lparr>not_full := None\<rparr>, not_full q))"

definition signal_not_empty :: "intq \<Rightarrow> (intq \<times> nat option) res" where
  "signal_not_empty q = kassert (\<not> intq_empty q) (Inr (q\<lparr>not_empty := None\<rparr>, not_empty q))"

definition intq_getc :: "bool \<Rightarrow> nat \<Rightarrow> intq \<Rightarrow> byte intq_result res" where
  "intq_getc ctx cur q =
     (if intq_empty q then kassert (\<not> ctx) (rbind (wait_not_empty ctx cur q) (\<lambda>q1. Inr (Waits q1)))
      else rguard PageFault (intq_tail q < length (intq_buf q))
        (let b = intq_buf q ! intq_tail q; q1 = q\<lparr>intq_tail := next_pos (intq_tail q)\<rparr> in
         rbind (signal_not_full q1) (\<lambda>(q2, w). Inr (Done q2 b w))))"

definition intq_putc :: "bool \<Rightarrow> nat \<Rightarrow> intq \<Rightarrow> byte \<Rightarrow> unit intq_result res" where
  "intq_putc ctx cur q b =
     (if intq_full q then kassert (\<not> ctx) (rbind (wait_not_full ctx cur q) (\<lambda>q1. Inr (Waits q1)))
      else rguard PageFault (intq_head q < length (intq_buf q))
        (let q1 = q\<lparr>intq_buf := (intq_buf q)[intq_head q := b], intq_head := next_pos (intq_head q)\<rparr> in
         rbind (signal_not_empty q1) (\<lambda>(q2, w). Inr (Done q2 () w))))"

section \<open>Contents\<close>

definition intq_inv :: "intq \<Rightarrow> bool" where
  "intq_inv q \<longleftrightarrow> length (intq_buf q) = INTQ_BUFSIZE \<and> intq_head q < INTQ_BUFSIZE \<and> intq_tail q < INTQ_BUFSIZE"

text \<open>The number of bytes in the queue, and the bytes from the oldest to the newest.\<close>

definition intq_len :: "intq \<Rightarrow> nat" where
  "intq_len q = (intq_head q + INTQ_BUFSIZE - intq_tail q) mod INTQ_BUFSIZE"

definition intq_contents :: "intq \<Rightarrow> byte list" where
  "intq_contents q = map (\<lambda>i. intq_buf q ! ((intq_tail q + i) mod INTQ_BUFSIZE)) [0..<intq_len q]"

lemma length_contents [simp]: "length (intq_contents q) = intq_len q"
  by (simp add: intq_contents_def)

lemma mod_bufsize: "x < 2 * INTQ_BUFSIZE \<Longrightarrow> x mod INTQ_BUFSIZE = (if x < INTQ_BUFSIZE then x else x - INTQ_BUFSIZE)"
  by (auto simp: mod_if)

lemma len_if: "intq_inv q \<Longrightarrow> intq_len q =
    (if intq_tail q \<le> intq_head q then intq_head q - intq_tail q else intq_head q + INTQ_BUFSIZE - intq_tail q)"
  unfolding intq_len_def intq_inv_def by (subst mod_bufsize) auto

lemma next_pos_if: "p < INTQ_BUFSIZE \<Longrightarrow> next_pos p = (if p + 1 = INTQ_BUFSIZE then 0 else p + 1)"
  unfolding next_pos_def by (subst mod_bufsize) (auto simp: INTQ_BUFSIZE_def)

lemma next_pos_less [simp]: "next_pos p < INTQ_BUFSIZE"
  by (simp add: next_pos_def INTQ_BUFSIZE_def)

lemma empty_contents: "intq_inv q \<Longrightarrow> intq_empty q \<longleftrightarrow> intq_contents q = []"
  unfolding intq_empty_def length_0_conv [symmetric] length_contents
  by (auto simp: len_if) (auto simp: intq_inv_def)

lemma full_contents: "intq_inv q \<Longrightarrow> intq_full q \<longleftrightarrow> length (intq_contents q) = INTQ_BUFSIZE - 1"
  unfolding intq_full_def length_contents
  by (auto simp: len_if intq_inv_def next_pos_if split: if_splits)

lemma contents_less: "intq_inv q \<Longrightarrow> length (intq_contents q) \<le> INTQ_BUFSIZE - 1"
  unfolding length_contents by (auto simp: len_if intq_inv_def)

lemma intq_getc_spec:
  assumes "intq_inv q" "\<not> intq_empty q"
  shows "\<exists>q'. intq_getc ctx cur q = Inr (Done q' (hd (intq_contents q)) (not_full q)) \<and> intq_inv q'
    \<and> intq_contents q' = tl (intq_contents q)"
proof -
  let ?q1 = "q\<lparr>intq_tail := next_pos (intq_tail q)\<rparr>"
  have inv1: "intq_inv ?q1" using assms(1) by (simp add: intq_inv_def)
  have len: "intq_len ?q1 + 1 = intq_len q"
    using assms unfolding len_if [OF assms(1)] len_if [OF inv1] intq_empty_def
    by (auto simp: intq_inv_def next_pos_if split: if_splits)
  have "\<not> intq_full ?q1" using full_contents [OF inv1] contents_less [OF assms(1)] len by (simp add: INTQ_BUFSIZE_def)
  then have "intq_getc ctx cur q = Inr (Done (?q1\<lparr>not_full := None\<rparr>) (intq_buf q ! intq_tail q) (not_full q))"
    using assms by (simp add: intq_getc_def signal_not_full_def intq_inv_def)
  moreover have "intq_buf q ! intq_tail q = hd (intq_contents q)"
  proof -
    have l: "0 < intq_len q" using len by simp
    then have "intq_contents q \<noteq> []" by (metis length_0_conv length_contents less_irrefl)
    then have "hd (intq_contents q) = intq_contents q ! 0" by (rule hd_conv_nth)
    also have "\<dots> = intq_buf q ! intq_tail q" using l assms(1) by (simp add: intq_contents_def intq_inv_def)
    finally show ?thesis by simp
  qed
  moreover have "intq_contents (?q1\<lparr>not_full := None\<rparr>) = tl (intq_contents q)"
  proof (rule nth_equalityI)
    show "length (intq_contents (?q1\<lparr>not_full := None\<rparr>)) = length (tl (intq_contents q))"
      using len by (simp add: intq_len_def)
    fix i
    assume "i < length (intq_contents (?q1\<lparr>not_full := None\<rparr>))"
    then have i: "i < intq_len ?q1" by (simp add: intq_len_def)
    have "(next_pos (intq_tail q) + i) mod INTQ_BUFSIZE = (intq_tail q + Suc i) mod INTQ_BUFSIZE"
      by (simp add: next_pos_def mod_simps)
    then show "intq_contents (?q1\<lparr>not_full := None\<rparr>) ! i = tl (intq_contents q) ! i"
      using i len by (simp add: intq_contents_def nth_tl intq_len_def)
  qed
  moreover have "intq_inv (?q1\<lparr>not_full := None\<rparr>)" using inv1 by (simp add: intq_inv_def)
  ultimately show ?thesis by auto
qed

lemma intq_putc_spec:
  assumes "intq_inv q" "\<not> intq_full q"
  shows "\<exists>q'. intq_putc ctx cur q b = Inr (Done q' () (not_empty q)) \<and> intq_inv q' \<and> intq_contents q' = intq_contents q @ [b]"
proof -
  let ?q1 = "q\<lparr>intq_buf := (intq_buf q)[intq_head q := b], intq_head := next_pos (intq_head q)\<rparr>"
  have inv1: "intq_inv ?q1" using assms(1) by (simp add: intq_inv_def)
  have len: "intq_len ?q1 = intq_len q + 1"
    using assms unfolding len_if [OF assms(1)] len_if [OF inv1] intq_full_def
    by (auto simp: intq_inv_def next_pos_if split: if_splits)
  have "\<not> intq_empty ?q1" using empty_contents [OF inv1] len by (metis add_is_0 length_0_conv length_contents one_neq_zero)
  then have "intq_putc ctx cur q b = Inr (Done (?q1\<lparr>not_empty := None\<rparr>) () (not_empty q))"
    using assms by (simp add: intq_putc_def signal_not_empty_def intq_inv_def)
  moreover have "intq_contents (?q1\<lparr>not_empty := None\<rparr>) = intq_contents q @ [b]"
  proof (rule nth_equalityI)
    show "length (intq_contents (?q1\<lparr>not_empty := None\<rparr>)) = length (intq_contents q @ [b])"
      using len by (simp add: intq_len_def)
    fix i
    assume "i < length (intq_contents (?q1\<lparr>not_empty := None\<rparr>))"
    then have i: "i < intq_len q + 1" using len by (simp add: intq_len_def)
    have l: "intq_len q < INTQ_BUFSIZE" using contents_less [OF assms(1)] by (simp add: INTQ_BUFSIZE_def)
    have pos: "(intq_tail q + i) mod INTQ_BUFSIZE = intq_head q \<longleftrightarrow> i = intq_len q"
      using assms(1) i l by (subst mod_bufsize) (auto simp: len_if intq_inv_def split: if_splits)
    have "intq_head q < length (intq_buf q)" using assms(1) by (simp add: intq_inv_def)
    then show "intq_contents (?q1\<lparr>not_empty := None\<rparr>) ! i = (intq_contents q @ [b]) ! i"
      using i len pos by (cases "i = intq_len q") (simp_all add: intq_contents_def nth_append intq_len_def nth_list_update)
  qed
  moreover have "intq_inv (?q1\<lparr>not_empty := None\<rparr>)" using inv1 by (simp add: intq_inv_def)
  ultimately show ?thesis by auto
qed

section \<open>First in, first out\<close>

text \<open>
  A bounded queue: \<open>put\<close> and \<open>get\<close> return \<open>None\<close> when the queue is full or empty, and otherwise work
  on the two ends of the contents.
\<close>

locale bounded_fifo =
  fixes inv :: "'q \<Rightarrow> bool" and contents :: "'q \<Rightarrow> 'a list" and cap :: nat
    and put :: "'q \<Rightarrow> 'a \<Rightarrow> 'q option" and get :: "'q \<Rightarrow> ('q \<times> 'a) option"
  assumes put_full: "inv q \<Longrightarrow> put q x = None \<longleftrightarrow> length (contents q) = cap"
    and get_empty: "inv q \<Longrightarrow> get q = None \<longleftrightarrow> contents q = []"
    and put_contents: "inv q \<Longrightarrow> put q x = Some q' \<Longrightarrow> inv q' \<and> contents q' = contents q @ [x]"
    and get_contents: "inv q \<Longrightarrow> get q = Some (q', x) \<Longrightarrow> inv q' \<and> contents q = x # contents q'"
    and within_cap: "inv q \<Longrightarrow> length (contents q) \<le> cap"
begin

text \<open>A run of the queue: put what is given, get where nothing is given; what does not succeed is skipped.\<close>

fun transfer :: "'q \<Rightarrow> 'a option list \<Rightarrow> 'q \<times> 'a list \<times> 'a list" where
  "transfer q [] = (q, [], [])"
| "transfer q (Some x # ops) =
     (case put q x of None \<Rightarrow> transfer q ops
      | Some q1 \<Rightarrow> (case transfer q1 ops of (q2, ins, outs) \<Rightarrow> (q2, x # ins, outs)))"
| "transfer q (None # ops) =
     (case get q of None \<Rightarrow> transfer q ops
      | Some (q1, x) \<Rightarrow> (case transfer q1 ops of (q2, ins, outs) \<Rightarrow> (q2, ins, x # outs)))"

lemma transfer_fifo:
  assumes "inv q" "transfer q ops = (q', ins, outs)"
  shows "inv q' \<and> contents q @ ins = outs @ contents q'"
  using assms
proof (induction q ops arbitrary: ins outs rule: transfer.induct)
  case (2 q x ops)
  show ?case
  proof (cases "put q x")
    case None
    with 2 show ?thesis by simp
  next
    case (Some q1)
    obtain i o' where t: "transfer q1 ops = (q', i, o')" "ins = x # i" "outs = o'" using 2(4) Some by (auto split: prod.splits)
    note p = put_contents [OF 2(3) Some]
    from 2(2) [OF Some _ t(1)] p t show ?thesis by simp
  qed
next
  case (3 q ops)
  show ?case
  proof (cases "get q")
    case None
    with 3 show ?thesis by simp
  next
    case (Some r)
    then obtain q1 x where r: "get q = Some (q1, x)" by (cases r) auto
    obtain i o' where t: "transfer q1 ops = (q', i, o')" "ins = i" "outs = x # o'" using 3(4) r by (auto split: prod.splits)
    note p = get_contents [OF 3(3) r]
    from 3(2) [OF r refl _ t(1)] p t show ?thesis by simp
  qed
qed simp

end

text \<open>The operations of an interrupt queue when they need not wait.\<close>

definition try_putc :: "intq \<Rightarrow> byte \<Rightarrow> intq option" where
  "try_putc q b = (case intq_putc False 0 q b of Inr (Done q1 _ _) \<Rightarrow> Some q1 | _ \<Rightarrow> None)"

definition try_getc :: "intq \<Rightarrow> (intq \<times> byte) option" where
  "try_getc q = (case intq_getc False 0 q of Inr (Done q1 b _) \<Rightarrow> Some (q1, b) | _ \<Rightarrow> None)"

lemma try_putc_full: "intq_full q \<Longrightarrow> try_putc q b = None"
  by (simp add: try_putc_def intq_putc_def wait_not_full_def)

lemma try_getc_empty: "intq_empty q \<Longrightarrow> try_getc q = None"
  by (simp add: try_getc_def intq_getc_def wait_not_empty_def)

interpretation intq: bounded_fifo intq_inv intq_contents "INTQ_BUFSIZE - 1" try_putc try_getc
proof
  fix q q' :: intq and x
  assume inv: "intq_inv q"
  show "try_putc q x = None \<longleftrightarrow> length (intq_contents q) = INTQ_BUFSIZE - 1"
    using intq_putc_spec [OF inv, of False 0 x] try_putc_full [of q x] full_contents [OF inv]
    by (cases "intq_full q") (auto simp: try_putc_def)
  show "try_getc q = None \<longleftrightarrow> intq_contents q = []"
    using intq_getc_spec [OF inv, of False 0] try_getc_empty [of q] empty_contents [OF inv]
    by (cases "intq_empty q") (auto simp: try_getc_def)
  show "length (intq_contents q) \<le> INTQ_BUFSIZE - 1" by (rule contents_less [OF inv])
  show "intq_inv q' \<and> intq_contents q' = intq_contents q @ [x]" if "try_putc q x = Some q'"
    using that intq_putc_spec [OF inv, of False 0 x] try_putc_full [of q x]
    by (cases "intq_full q") (auto simp: try_putc_def)
  show "intq_inv q' \<and> intq_contents q = x # intq_contents q'" if "try_getc q = Some (q', x)"
    using that intq_getc_spec [OF inv, of False 0] try_getc_empty [of q] empty_contents [OF inv]
    by (cases "intq_empty q") (auto simp: try_getc_def)
qed

section \<open>Properties\<close>

text \<open>
  C35: An interrupt queue is a first-in first-out buffer of 63 bytes: over any sequence of
  \<open>intq_putc\<close> and \<open>intq_getc\<close> calls, those that would wait left out, the bytes that came out,
  followed by the contents at the end, are the contents at the start followed by the bytes that
  went in, and the indexes stay within the buffer.
\<close>

theorem intq_fifo:
  assumes "intq_inv q" "intq.transfer q ops = (q', ins, outs)"
  shows "intq_inv q' \<and> intq_contents q @ ins = outs @ intq_contents q' \<and> length (intq_contents q') \<le> 63"
  using intq.transfer_fifo [OF assms] contents_less [of q'] by (simp add: INTQ_BUFSIZE_def)

definition empty_intq :: intq where
  "empty_intq = intq_init \<lparr>not_full = None, not_empty = None, intq_buf = replicate 64 0, intq_head = 7, intq_tail = 9\<rparr>"

lemma empty_intq_inv: "intq_inv empty_intq" "intq_contents empty_intq = []"
  by (simp_all add: empty_intq_def intq_init_def intq_inv_def INTQ_BUFSIZE_def intq_contents_def intq_len_def)

theorem intq_fifo_witness:
  "\<exists>q'. intq.transfer empty_intq [Some 1, Some 2, None, None, None] = (q', [1, 2], [1, 2]) \<and> intq_inv q' \<and> intq_contents q' = []"
proof -
  obtain q' where "intq.transfer empty_intq [Some 1, Some 2, None, None, None] = (q', [1, 2], [1, 2])"
    by (simp add: empty_intq_def intq_init_def try_putc_def try_getc_def intq_putc_def intq_getc_def intq_full_def
        intq_empty_def next_pos_def signal_not_full_def signal_not_empty_def wait_not_empty_def INTQ_BUFSIZE_def)
  with intq_fifo [OF empty_intq_inv(1) this] empty_intq_inv(2) show ?thesis by simp
qed

end
