(* ===== verification/Vaddr.thy ===== *)
theory Vaddr
  imports Prelude
begin

text \<open>
  Virtual addresses and page table entries (\<open>src/threads/vaddr.h\<close>, \<open>src/threads/pte.h\<close>) as 32-bit
  words.
\<close>

section \<open>Addresses\<close>

definition PGSIZE :: nat where "PGSIZE = 4096"

definition PGMASK :: u32 where "PGMASK = 0xfff"

definition PHYS_BASE :: u32 where "PHYS_BASE = 0xc0000000"

definition pg_ofs :: "u32 \<Rightarrow> u32" where "pg_ofs va = va AND PGMASK"

definition pg_no :: "u32 \<Rightarrow> u32" where "pg_no va = drop_bit 12 va"

definition pg_round_up :: "u32 \<Rightarrow> u32" where "pg_round_up va = (va + 4096 - 1) AND NOT PGMASK"

definition pg_round_down :: "u32 \<Rightarrow> u32" where "pg_round_down va = va AND NOT PGMASK"

definition is_user_vaddr :: "u32 \<Rightarrow> bool" where "is_user_vaddr va \<longleftrightarrow> va < PHYS_BASE"

definition is_kernel_vaddr :: "u32 \<Rightarrow> bool" where "is_kernel_vaddr va \<longleftrightarrow> PHYS_BASE \<le> va"

definition ptov :: "u32 \<Rightarrow> u32 res" where "ptov paddr = kassert (paddr < PHYS_BASE) (Inr (paddr + PHYS_BASE))"

definition vtop :: "u32 \<Rightarrow> u32 res" where "vtop va = kassert (is_kernel_vaddr va) (Inr (va - PHYS_BASE))"

section \<open>Entries\<close>

definition PTMASK :: u32 where "PTMASK = 0x3ff000"

definition pt_no :: "u32 \<Rightarrow> nat" where "pt_no va = unat (drop_bit 12 (va AND PTMASK))"

definition pd_no :: "u32 \<Rightarrow> nat" where "pd_no va = unat (drop_bit 22 va)"

definition PTE_ADDR :: u32 where "PTE_ADDR = 0xfffff000"
definition PTE_P :: u32 where "PTE_P = 0x1"
definition PTE_W :: u32 where "PTE_W = 0x2"
definition PTE_U :: u32 where "PTE_U = 0x4"
definition PTE_A :: u32 where "PTE_A = 0x20"
definition PTE_D :: u32 where "PTE_D = 0x40"

definition pde_create :: "u32 \<Rightarrow> u32 res" where
  "pde_create pt = kassert (pg_ofs pt = 0) (rbind (vtop pt) (\<lambda>p. Inr (p OR PTE_U OR PTE_P OR PTE_W)))"

definition pde_get_pt :: "u32 \<Rightarrow> u32 res" where
  "pde_get_pt pde = kassert (pde AND PTE_P \<noteq> 0) (ptov (pde AND PTE_ADDR))"

definition pte_create_kernel :: "u32 \<Rightarrow> bool \<Rightarrow> u32 res" where
  "pte_create_kernel page writable =
     kassert (pg_ofs page = 0) (rbind (vtop page) (\<lambda>p. Inr (p OR PTE_P OR (if writable then PTE_W else 0))))"

definition pte_create_user :: "u32 \<Rightarrow> bool \<Rightarrow> u32 res" where
  "pte_create_user page writable = rbind (pte_create_kernel page writable) (\<lambda>e. Inr (e OR PTE_U))"

definition pte_get_page :: "u32 \<Rightarrow> u32 res" where
  "pte_get_page pte = ptov (pte AND PTE_ADDR)"

section \<open>Pages\<close>

lemmas pte_bits = PTE_ADDR_def PTE_P_def PTE_W_def PTE_U_def PTE_A_def PTE_D_def PGMASK_def

lemma PGMASK_mask: "PGMASK = mask 12"
  by (simp add: PGMASK_def mask_eq_exp_minus_1)

lemma pg_ofs_take_bit: "pg_ofs va = take_bit 12 va"
  by (simp only: pg_ofs_def PGMASK_mask take_bit_eq_mask)

lemma pg_ofs_unat: "unat (pg_ofs va) = unat va mod 4096"
  unfolding pg_ofs_take_bit unsigned_take_bit_eq by (simp add: take_bit_eq_mod)

lemma pg_ofs_0: "pg_ofs va = 0 \<longleftrightarrow> unat va mod 4096 = 0"
  using pg_ofs_unat [of va] by (metis unat_0 unat_eq_0)

lemma pg_no_unat: "unat (pg_no va) = unat va div 4096"
  unfolding pg_no_def unat_drop_bit_eq by (simp add: drop_bit_eq_div)

lemma PTE_ADDR_mask: "PTE_ADDR = NOT PGMASK"
  by (simp add: PTE_ADDR_def PGMASK_def)

lemma low_bits_and: "p AND (PGMASK :: u32) = 0 \<Longrightarrow> f AND PGMASK = f \<Longrightarrow> (p OR f) AND PTE_ADDR = p"
proof -
  assume p: "p AND PGMASK = 0" and f: "f AND PGMASK = f"
  have "f AND NOT PGMASK = 0" by (subst f [symmetric]) (simp add: bit_eq_iff bit_simps)
  moreover have "p AND NOT PGMASK = p"
  proof (rule bit_word_eqI)
    fix n
    assume "n < LENGTH(32)"
    have "\<not> bit (p AND PGMASK) n" using p by simp
    then show "bit (p AND NOT PGMASK) n = bit p n" using \<open>n < LENGTH(32)\<close> by (auto simp: bit_simps)
  qed
  ultimately show ?thesis by (simp add: PTE_ADDR_mask bit.conj_disj_distrib2)
qed

lemma aligned_sub: "pg_ofs va = 0 \<Longrightarrow> pg_ofs (va - PHYS_BASE) = 0"
proof -
  assume "pg_ofs va = 0"
  then have "va = push_bit 12 (drop_bit 12 va)" using bits_ident [of 12 va] by (simp only: pg_ofs_take_bit add_0_right)
  moreover have "PHYS_BASE = push_bit 12 0xc0000" by (simp add: PHYS_BASE_def)
  ultimately have "va - PHYS_BASE = push_bit 12 (drop_bit 12 va - 0xc0000)"
    by (simp only: push_bit_eq_mult left_diff_distrib)
  then show ?thesis unfolding pg_ofs_take_bit by (simp add: take_bit_push_bit)
qed

lemma low_bits_zero:
  assumes "p AND (PGMASK :: u32) = 0" "b AND PGMASK = b"
  shows "p AND b = 0"
proof -
  have "p AND b = (p AND PGMASK) AND b" by (subst (1) assms(2) [symmetric]) (simp only: ac_simps)
  then show ?thesis by (simp only: assms(1) and_zero_eq zero_and_eq)
qed

lemma flags_low: "PTE_P AND PGMASK = PTE_P" "PTE_W AND PGMASK = PTE_W" "PTE_U AND PGMASK = PTE_U"
  "PTE_A AND PGMASK = PTE_A" "PTE_D AND PGMASK = PTE_D"
  by (simp_all add: pte_bits)

lemma flag_or:
  assumes "p AND (PGMASK :: u32) = 0" "b AND PGMASK = b"
  shows "(p OR f) AND b = f AND b"
  by (simp only: bit.conj_disj_distrib2 low_bits_zero [OF assms] or.left_neutral)

text \<open>Creating an entry and reading the page back.\<close>

lemma pte_create_user_get:
  assumes "pg_ofs page = 0" "is_kernel_vaddr page" "page - PHYS_BASE < PHYS_BASE"
  shows "\<exists>e. pte_create_user page w = Inr e \<and> pte_get_page e = Inr page \<and> e AND PTE_P \<noteq> 0
    \<and> (e AND PTE_W \<noteq> 0 \<longleftrightarrow> w) \<and> e AND PTE_D = 0 \<and> e AND PTE_A = 0"
proof -
  let ?p = "page - PHYS_BASE"
  let ?f = "PTE_P OR (if w then PTE_W else 0) OR PTE_U"
  have p0: "?p AND PGMASK = 0" using aligned_sub [OF assms(1)] by (simp add: pg_ofs_def)
  have e: "pte_create_user page w = Inr (?p OR ?f)"
    using assms(1,2) by (simp only: pte_create_user_def pte_create_kernel_def vtop_def or.assoc kassert_True rbind_Inr simp_thms)
  have "?f AND PGMASK = ?f" by (simp add: pte_bits)
  then have a: "(?p OR ?f) AND PTE_ADDR = ?p" by (rule low_bits_and [OF p0])
  have "pte_get_page (?p OR ?f) = Inr page" using a assms(3) by (simp add: pte_get_page_def ptov_def)
  moreover have "(?p OR ?f) AND PTE_P \<noteq> 0" "(?p OR ?f) AND PTE_W \<noteq> 0 \<longleftrightarrow> w" "(?p OR ?f) AND PTE_D = 0" "(?p OR ?f) AND PTE_A = 0"
    unfolding flag_or [OF p0 flags_low(1)] flag_or [OF p0 flags_low(2)] flag_or [OF p0 flags_low(4)] flag_or [OF p0 flags_low(5)]
    by (simp_all add: pte_bits)
  ultimately show ?thesis using e by blast
qed

lemma pde_create_get:
  assumes "pg_ofs pt = 0" "is_kernel_vaddr pt" "pt - PHYS_BASE < PHYS_BASE"
  shows "\<exists>e. pde_create pt = Inr e \<and> pde_get_pt e = Inr pt \<and> e \<noteq> 0"
proof -
  let ?p = "pt - PHYS_BASE" and ?f = "PTE_U OR PTE_P OR PTE_W"
  have p0: "?p AND PGMASK = 0" using aligned_sub [OF assms(1)] by (simp add: pg_ofs_def)
  have e: "pde_create pt = Inr (?p OR ?f)" using assms(1,2) by (simp only: pde_create_def vtop_def or.assoc kassert_True rbind_Inr simp_thms)
  have "?f AND PGMASK = ?f" by (simp add: pte_bits)
  then have a: "(?p OR ?f) AND PTE_ADDR = ?p" by (rule low_bits_and [OF p0])
  have "(?p OR ?f) AND PTE_P \<noteq> 0" unfolding flag_or [OF p0 flags_low(1)] by (simp add: pte_bits)
  moreover from this have "?p OR ?f \<noteq> 0" by auto
  ultimately show ?thesis using e a assms(3) by (simp add: pde_get_pt_def ptov_def)
qed

lemma pt_no_unat: "pt_no va = unat va div 4096 mod 1024"
proof -
  have m: "PTMASK = push_bit 12 (mask 10)" by (simp add: PTMASK_def mask_eq_exp_minus_1)
  have d: "drop_bit 12 (va AND PTMASK) = take_bit 10 (drop_bit 12 va)"
    unfolding m by (auto intro!: bit_word_eqI simp: bit_simps)
  show ?thesis unfolding pt_no_def d unsigned_take_bit_eq unat_drop_bit_eq by (simp add: take_bit_eq_mod drop_bit_eq_div)
qed

lemma pd_no_unat: "pd_no va = unat va div 2 ^ 22"
  unfolding pd_no_def unat_drop_bit_eq by (simp add: drop_bit_eq_div)

lemma page_indexes: "unat va = pd_no va * 2 ^ 22 + pt_no va * 2 ^ 12 + unat (pg_ofs va)"
proof -
  have "unat va = unat va div 4096 * 4096 + unat va mod 4096" by simp
  also have "unat va div 4096 = unat va div 4096 div 1024 * 1024 + unat va div 4096 mod 1024" by simp
  finally show ?thesis unfolding pt_no_unat pd_no_unat pg_ofs_unat by (simp add: div_mult2_eq [symmetric])
qed

lemma pt_no_bound: "pt_no va < 1024"
  by (simp add: pt_no_unat)

lemma pd_no_bound: "pd_no va < 1024"
  unfolding pd_no_unat by (rule less_mult_imp_div_less) (use unsigned_less [of va, where 'a = nat] in simp)

lemma pd_no_user: "is_user_vaddr va \<Longrightarrow> pd_no va < 768"
  unfolding pd_no_unat is_user_vaddr_def word_less_nat_alt
  by (rule less_mult_imp_div_less) (simp add: PHYS_BASE_def)

lemma round_down_page:
  "pg_ofs (pg_round_down va) = 0" "pd_no (pg_round_down va) = pd_no va" "pt_no (pg_round_down va) = pt_no va"
  "is_user_vaddr va \<Longrightarrow> is_user_vaddr (pg_round_down va)" "pg_ofs va = 0 \<Longrightarrow> pg_round_down va = va"
proof -
  have d: "drop_bit 22 (va AND NOT (mask 12)) = drop_bit 22 va" by (rule bit_word_eqI) (auto simp: bit_simps dest: bit_imp_le_length)
  show "pg_ofs (pg_round_down va) = 0" "pd_no (pg_round_down va) = pd_no va"
    unfolding pg_round_down_def pd_no_def pg_ofs_def PGMASK_mask d by (simp_all add: and.assoc)
  have "drop_bit 12 ((va AND NOT (mask 12)) AND PTMASK) = drop_bit 12 (va AND PTMASK)"
    by (rule bit_word_eqI) (auto simp: bit_simps dest: bit_imp_le_length)
  then show "pt_no (pg_round_down va) = pt_no va" unfolding pg_round_down_def pt_no_def PGMASK_mask by (simp only:)
  have "pg_round_down va \<le> va" unfolding pg_round_down_def by (rule word_and_le2)
  then show "is_user_vaddr va \<Longrightarrow> is_user_vaddr (pg_round_down va)" by (simp add: is_user_vaddr_def)
  show "pg_round_down va = va" if "pg_ofs va = 0"
  proof -
    have "va = (va AND NOT PGMASK) OR (va AND PGMASK)" by (rule bit_word_eqI) (auto simp: bit_simps dest: bit_imp_le_length)
    then show ?thesis using that unfolding pg_ofs_def pg_round_down_def by simp
  qed
qed

end
