(* ===== verification/Syscall.thy ===== *)
theory Syscall
  imports Directory CString Vaddr
begin

text \<open>
  System calls on files and directories (\<open>src/userprog/syscall.c\<close>), as the handler runs them for
  one process: the file system, the process's descriptor table, the memory the process can
  address and the kernel pages the handler copies names into.

  \<open>umem\<close> holds the bytes the process has mapped, resident or brought in by the page fault
  handler. An access by the kernel to any other user address is decided as in \<open>page_fault\<close>
  of \<open>src/userprog/exception.c\<close>: at or below the saved stack pointer the process is killed,
  above it the stack grows by a page of zeros. The number of free kernel pages stands for the
  page allocator, which serves a single page exactly when one is free (\<open>Palloc\<close>). Tokens of
  a path are those \<open>strtok_r\<close> returns (\<open>strtok_r_tokenizes\<close> of \<open>CString\<close>) and a copied name is the
  prefix \<open>strlcpy\<close> copies (\<open>strlcpy_bounded\<close>). The lock \<open>handlesem\<close> is taken and released around
  single calls of one thread and leaves no trace here.

  A computation either returns, ends in \<open>thread_exit\<close>, or turns the machine off.
\<close>

section \<open>Computations\<close>

record sys =
  sfs :: fs
  fdtable :: "nat option list"
  nextfd :: int
  returnstatus :: int
  filenum :: int
  process_stack :: u32
  umem :: "u32 \<rightharpoonup> byte"
  ro_pages :: "u32 set"
  kpages :: nat
  eax :: u32
  console :: "byte list"
  keyboard :: "byte list"

datatype 'a outcome = Ret 'a | Exited | Off

type_synonym 'a sysm = "sys \<Rightarrow> ('a outcome \<times> sys) res"

definition sret :: "'a \<Rightarrow> 'a sysm" where
  "sret x s = Inr (Ret x, s)"

definition sbind :: "'a sysm \<Rightarrow> ('a \<Rightarrow> 'b sysm) \<Rightarrow> 'b sysm" where
  "sbind m f s = rbind (m s) (\<lambda>(r, s1). case r of Ret x \<Rightarrow> f x s1 | Exited \<Rightarrow> Inr (Exited, s1) | Off \<Rightarrow> Inr (Off, s1))"

definition sget :: "(sys \<Rightarrow> 'a) \<Rightarrow> 'a sysm" where
  "sget f s = Inr (Ret (f s), s)"

definition supd :: "(sys \<Rightarrow> sys) \<Rightarrow> unit sysm" where
  "supd f s = Inr (Ret (), f s)"

definition sfail :: "kerror \<Rightarrow> 'a sysm" where
  "sfail e s = Inl e"

definition sexit :: "'a sysm" where
  "sexit s = Inr (Exited, s)"

text \<open>\<open>thread_current ()->returnstatus = -1; thread_exit ();\<close>\<close>

definition kill :: "'a sysm" where
  "kill s = Inr (Exited, s\<lparr>returnstatus := - 1\<rparr>)"

definition set_eax :: "int \<Rightarrow> unit sysm" where
  "set_eax v = supd (\<lambda>s. s\<lparr>eax := word_of_int v\<rparr>)"

text \<open>Operations of the file system: one that changes it, one that only reads.\<close>

definition fsm :: "(fs \<Rightarrow> (fs \<times> 'a) res) \<Rightarrow> 'a sysm" where
  "fsm f s = rbind (f (sfs s)) (\<lambda>(fs1, x). Inr (Ret x, s\<lparr>sfs := fs1\<rparr>))"

definition fsu :: "(fs \<Rightarrow> fs res) \<Rightarrow> unit sysm" where
  "fsu f = fsm (\<lambda>s. rbind (f s) (\<lambda>s1. Inr (s1, ())))"

definition fsr :: "(fs \<Rightarrow> 'a res) \<Rightarrow> 'a sysm" where
  "fsr f = fsm (\<lambda>s. rbind (f s) (\<lambda>x. Inr (s, x)))"

text \<open>A pointer that must not be null.\<close>

definition nonnull :: "'a option \<Rightarrow> 'a sysm" where
  "nonnull p = (case p of None \<Rightarrow> sfail PageFault | Some x \<Rightarrow> sret x)"

section \<open>User memory\<close>

definition stack_grows :: "sys \<Rightarrow> u32 \<Rightarrow> bool" where
  "stack_grows s a \<longleftrightarrow> \<not> (a \<le> process_stack s \<or> process_stack s \<le> 0x08058000)"

definition grow_stack :: "u32 \<Rightarrow> sys \<Rightarrow> sys" where
  "grow_stack a s = s\<lparr>umem := (\<lambda>x. if pg_round_down x = pg_round_down a then Some 0 else umem s x)\<rparr>"

definition load_byte :: "u32 \<Rightarrow> byte sysm" where
  "load_byte a s =
     (case umem s a of
        Some b \<Rightarrow> Inr (Ret b, s)
      | None \<Rightarrow>
          if \<not> is_user_vaddr a then Inl PageFault
          else if stack_grows s a then Inr (Ret 0, grow_stack a s)
          else kill s)"

definition store_byte :: "u32 \<Rightarrow> byte \<Rightarrow> unit sysm" where
  "store_byte a b = sbind (load_byte a) (\<lambda>_ s.
     if pg_round_down a \<in> ro_pages s then kill s
     else Inr (Ret (), s\<lparr>umem := (umem s)(a \<mapsto> b)\<rparr>))"

definition user_word :: "u32 \<Rightarrow> u32 sysm" where
  "user_word a =
     sbind (load_byte a) (\<lambda>b0. sbind (load_byte (a + 1)) (\<lambda>b1.
     sbind (load_byte (a + 2)) (\<lambda>b2. sbind (load_byte (a + 3)) (\<lambda>b3. sret (le_word [b0, b1, b2, b3])))))"

definition user_int :: "u32 \<Rightarrow> int sysm" where
  "user_int a = sbind (user_word a) (\<lambda>w. sret (sint w))"

fun load_bytes :: "u32 \<Rightarrow> nat \<Rightarrow> byte list sysm" where
  "load_bytes a 0 = sret []"
| "load_bytes a (Suc n) = sbind (load_byte a) (\<lambda>b. sbind (load_bytes (a + 1) n) (\<lambda>bs. sret (b # bs)))"

fun store_bytes :: "u32 \<Rightarrow> byte list \<Rightarrow> unit sysm" where
  "store_bytes a [] = sret ()"
| "store_bytes a (b # bs) = sbind (store_byte a b) (\<lambda>_. store_bytes (a + 1) bs)"

text \<open>The byte at a user address; a fault does not return here, so the answer is never \<open>-1\<close>.\<close>

definition get_user :: "u32 \<Rightarrow> int sysm" where
  "get_user a = sbind (load_byte a) (\<lambda>b. sret (uint b))"

text \<open>The characters of a string up to its null byte; the search ends with user memory.\<close>

fun user_string :: "nat \<Rightarrow> u32 \<Rightarrow> byte list sysm" where
  "user_string 0 a = sfail PageFault"
| "user_string (Suc n) a = sbind (load_byte a) (\<lambda>b.
     if b = 0 then sret [] else sbind (user_string n (a + 1)) (\<lambda>bs. sret (b # bs)))"

definition copy_name :: "u32 \<Rightarrow> byte list sysm" where
  "copy_name a = sbind (user_string (unat PHYS_BASE) a) (\<lambda>bs. sret (take (PGSIZE - 1) bs))"

section \<open>Kernel pages and descriptors\<close>

definition get_kpage :: "bool sysm" where
  "get_kpage s = (if kpages s = 0 then Inr (Ret False, s) else Inr (Ret True, s\<lparr>kpages := kpages s - 1\<rparr>))"

definition free_kpages :: "nat \<Rightarrow> unit sysm" where
  "free_kpages n = supd (\<lambda>s. s\<lparr>kpages := kpages s + n\<rparr>)"

definition FILES_MAX :: nat where
  "FILES_MAX = 128"

text \<open>\<open>fdtable[fd]\<close>; an index outside the array is not a descriptor.\<close>

definition get_fd :: "int \<Rightarrow> nat option sysm" where
  "get_fd fd s = (if 0 \<le> fd \<and> nat fd < length (fdtable s) then Inr (Ret (fdtable s ! nat fd), s) else Inl PageFault)"

definition set_fd :: "int \<Rightarrow> nat option \<Rightarrow> unit sysm" where
  "set_fd fd f s = (if 0 \<le> fd \<and> nat fd < length (fdtable s)
     then Inr (Ret (), s\<lparr>fdtable := (fdtable s)[nat fd := f]\<rparr>) else Inl PageFault)"

definition file_isdir :: "nat \<Rightarrow> bool sysm" where
  "file_isdir f = fsr (\<lambda>s. rbind (file_get_inode s f) (\<lambda>p. rbind (get_inode s p) (\<lambda>i. Inr (isdir (idata i)))))"

definition set_curr_dir :: "nat option \<Rightarrow> unit sysm" where
  "set_curr_dir d = supd (\<lambda>s. s\<lparr>sfs := (sfs s)\<lparr>curr_dir := d\<rparr>\<rparr>)"

section \<open>Paths\<close>

text \<open>
  The loop over the tokens of a path enters the directory named by every token but the last.
  A token that names no directory entry ends the loop with a failure where the code tests the
  result (\<open>strict\<close>) and is skipped where it does not; one that names a file ends it always.
  Returned are the failure flag, the last token looked at and the inode of the last look-up.
\<close>

definition slash :: byte where
  "slash = 47"

fun walk :: "bool \<Rightarrow> byte list option \<Rightarrow> nat option \<Rightarrow> byte list list \<Rightarrow> (bool \<times> byte list option \<times> nat option) sysm" where
  "walk strict prev inode [] = sret (False, prev, inode)"
| "walk strict prev inode (t # ts) =
     (case prev of
        None \<Rightarrow> walk strict (Some t) inode ts
      | Some name \<Rightarrow>
          sbind (fsm dir_makesure) (\<lambda>d. sbind (nonnull d) (\<lambda>d.
          sbind (fsm (\<lambda>s. dir_lookup s d name)) (\<lambda>inode.
            case inode of
              None \<Rightarrow> if strict then sret (True, prev, None) else walk strict (Some t) None ts
            | Some p \<Rightarrow>
                sbind (fsr (\<lambda>s. rbind (get_inode s p) (\<lambda>i. Inr (isdir (idata i))))) (\<lambda>directory.
                if \<not> directory then sret (True, prev, Some p)
                else sbind (fsm (\<lambda>s. dir_open s (Some p))) (\<lambda>_. walk strict (Some t) (Some p) ts))))))"

section \<open>System calls\<close>

definition sys_halt :: "unit sysm" where
  "sys_halt s = Inr (Off, s)"

definition sys_exit :: "u32 \<Rightarrow> unit sysm" where
  "sys_exit esp = sbind (user_word (esp + 4)) (\<lambda>w.
     if w < PHYS_BASE
     then sbind (get_user (esp + 4)) (\<lambda>st. sbind (supd (\<lambda>s. s\<lparr>returnstatus := st\<rparr>)) (\<lambda>_. sexit))
     else kill)"

text \<open>The end of \<open>SYS_CREATE\<close> and \<open>SYS_REMOVE\<close>: the answer, the saved directory, the two pages.\<close>

definition finish_path :: "nat option \<Rightarrow> bool \<Rightarrow> unit sysm" where
  "finish_path prevdir answer =
     sbind (set_eax (of_bool answer)) (\<lambda>_. sbind (set_curr_dir prevdir) (\<lambda>_. free_kpages 2))"

definition sys_create :: "u32 \<Rightarrow> unit sysm" where
  "sys_create esp =
     sbind (fsm dir_makesure) (\<lambda>prevdir.
     sbind (user_word (esp + 4)) (\<lambda>p.
     if p > PHYS_BASE then kill else
     sbind (load_byte (esp + 4)) (\<lambda>low.
     if low = 0 then kill else
     sbind (get_user p) (\<lambda>c.
     if c = - 1 then kill else
     sbind get_kpage (\<lambda>got.
     if \<not> got then set_eax (- 1) else
     sbind (copy_name p) (\<lambda>name.
     sbind (user_word (esp + 8)) (\<lambda>initial_size.
     if length name \<le> 14 \<and> 0 < length name then
       sbind get_kpage (\<lambda>got.
       if \<not> got then sret () else
       if name ! 0 = slash then
         sbind (sget (\<lambda>s. curr_dir (sfs s))) (\<lambda>cur.
         sbind (fsu (\<lambda>s. dir_close s cur)) (\<lambda>_.
         sbind (walk True None None (tokens [slash] name)) (\<lambda>(fail, prev, _).
         if fail then finish_path prevdir False
         else sbind (nonnull prev) (\<lambda>prev.
           sbind (fsm (\<lambda>s. filesys_create s prev (sint initial_size))) (finish_path prevdir)))))
       else if slash \<in> set name then
         sbind (walk True None None (tokens [slash] name)) (\<lambda>(fail, prev, _).
         if fail then finish_path prevdir False
         else sbind (nonnull prev) (\<lambda>prev.
           sbind (fsm (\<lambda>s. filesys_create s prev (sint initial_size))) (finish_path prevdir)))
       else sbind (fsm (\<lambda>s. filesys_create s name (sint initial_size))) (finish_path prevdir))
     else
       sbind (free_kpages 1) (\<lambda>_. sbind (set_eax 0) (\<lambda>_. set_curr_dir prevdir)))))))))"

definition sys_remove :: "u32 \<Rightarrow> unit sysm" where
  "sys_remove esp =
     sbind (user_word (esp + 4)) (\<lambda>p.
     if p > PHYS_BASE then sexit else
     sbind (fsm dir_makesure) (\<lambda>prevdir.
     sbind get_kpage (\<lambda>got.
     if \<not> got then set_eax (- 1) else
     sbind (copy_name p) (\<lambda>name.
     sbind get_kpage (\<lambda>got.
     if \<not> got then sret () else
     if name \<noteq> [] \<and> name ! 0 = slash then
       if name = [slash] then sbind (set_eax 0) (\<lambda>_. free_kpages 2)
       else
         sbind (fsm dir_open_root) (\<lambda>_.
         sbind (walk True None None (tokens [slash] name)) (\<lambda>(fail, prev, _).
         if fail then finish_path prevdir False
         else sbind (nonnull prev) (\<lambda>prev. sbind (fsm (\<lambda>s. filesys_remove s prev)) (finish_path prevdir))))
     else if slash \<in> set name then
       sbind (walk True None None (tokens [slash] name)) (\<lambda>(fail, prev, _).
       if fail then finish_path prevdir False
       else sbind (nonnull prev) (\<lambda>prev. sbind (fsm (\<lambda>s. filesys_remove s prev)) (finish_path prevdir)))
     else sbind (fsm (\<lambda>s. filesys_remove s name)) (finish_path prevdir))))))"

text \<open>The part of \<open>SYS_OPEN\<close> that finds the file; on a path the failure flag is not read.\<close>

definition open_path :: "byte list \<Rightarrow> nat option sysm" where
  "open_path name =
     sbind (walk False None None (tokens [slash] name)) (\<lambda>(_, prev, _).
     sbind (nonnull prev) (\<lambda>prev.
     sbind (fsm (\<lambda>s. filesys_open s prev)) (\<lambda>f. sbind (free_kpages 2) (\<lambda>_. sret f))))"

definition open_name :: "byte list \<Rightarrow> nat option option sysm" where
  "open_name name =
     (if name \<noteq> [] \<and> name ! 0 = slash then
        if name = [slash] then
          sbind (fsm (\<lambda>s. inode_open s 1)) (\<lambda>p. sbind (fsm (\<lambda>s. file_open s p)) (\<lambda>f.
          sbind (free_kpages 1) (\<lambda>_. sret (Some f))))
        else
          sbind get_kpage (\<lambda>got.
          if \<not> got then sret None
          else sbind (fsm dir_open_root) (\<lambda>_. sbind (open_path name) (\<lambda>f. sret (Some f))))
      else if slash \<in> set name then
        sbind get_kpage (\<lambda>got. if \<not> got then sret None else sbind (open_path name) (\<lambda>f. sret (Some f)))
      else sbind (fsm (\<lambda>s. filesys_open s name)) (\<lambda>f. sbind (free_kpages 1) (\<lambda>_. sret (Some f))))"

text \<open>The descriptor for an opened file: the next one, or a free one from 3 on.\<close>

definition free_fd :: "nat option list \<Rightarrow> nat" where
  "free_fd t = (case filter (\<lambda>i. t ! i = None) [3..<FILES_MAX] of [] \<Rightarrow> FILES_MAX | i # _ \<Rightarrow> i)"

definition install_fd :: "nat option \<Rightarrow> unit sysm" where
  "install_fd openedfile =
     (case openedfile of
        None \<Rightarrow> sbind (supd (\<lambda>s. s\<lparr>filenum := s32_of (filenum s - 1)\<rparr>)) (\<lambda>_. set_eax (- 1))
      | Some f \<Rightarrow>
          sbind (sget nextfd) (\<lambda>fd.
          if fd \<ge> int FILES_MAX then
            sbind (sget (\<lambda>s. free_fd (fdtable s))) (\<lambda>i.
            if i \<ge> FILES_MAX then
              sbind (fsu (\<lambda>s. file_close s (Some f))) (\<lambda>_.
              sbind (supd (\<lambda>s. s\<lparr>filenum := s32_of (filenum s - 1)\<rparr>)) (\<lambda>_. set_eax (- 1)))
            else
              sbind (set_fd (int i) (Some f)) (\<lambda>_.
              sbind (supd (\<lambda>s. s\<lparr>nextfd := int i + 1\<rparr>)) (\<lambda>_. set_eax (int i))))
          else
            sbind (set_fd fd (Some f)) (\<lambda>_.
            sbind (supd (\<lambda>s. s\<lparr>nextfd := s32_of (nextfd s + 1)\<rparr>)) (\<lambda>_. set_eax fd))))"

definition sys_open :: "u32 \<Rightarrow> unit sysm" where
  "sys_open esp =
     sbind (fsm dir_makesure) (\<lambda>prevdir.
     sbind (user_word (esp + 4)) (\<lambda>p.
     if p > PHYS_BASE then kill else
     if p = 0 then kill else
     sbind get_kpage (\<lambda>got.
     if \<not> got then set_eax (- 1) else
     sbind (copy_name p) (\<lambda>name.
     sbind (open_name name) (\<lambda>r.
     case r of
       None \<Rightarrow> sret ()
     | Some openedfile \<Rightarrow>
         sbind (supd (\<lambda>s. s\<lparr>filenum := s32_of (filenum s + 1)\<rparr>)) (\<lambda>_.
         sbind (set_curr_dir prevdir) (\<lambda>_. install_fd openedfile)))))))"

definition sys_filesize :: "u32 \<Rightarrow> unit sysm" where
  "sys_filesize esp =
     sbind (user_int (esp + 4)) (\<lambda>fd.
     sbind (get_fd fd) (\<lambda>file.
     case file of
       None \<Rightarrow> set_eax (- 1)
     | Some f \<Rightarrow> sbind (fsr (\<lambda>s. file_length s f)) set_eax))"

text \<open>
  Reading from the keyboard stores one byte after the other; without a key the thread sleeps.
\<close>

definition input_getc :: "byte sysm" where
  "input_getc s = (case keyboard s of [] \<Rightarrow> Inl Blocked | b # bs \<Rightarrow> Inr (Ret b, s\<lparr>keyboard := bs\<rparr>))"

fun read_keyboard :: "u32 \<Rightarrow> nat \<Rightarrow> unit sysm" where
  "read_keyboard buf 0 = sret ()"
| "read_keyboard buf (Suc n) = sbind input_getc (\<lambda>b. sbind (store_byte buf b) (\<lambda>_. read_keyboard (buf + 1) n))"

text \<open>
  \<open>file_read (file, buffer, size)\<close> into user memory: the bytes the file gives are stored at the
  buffer, and only those.
\<close>

definition read_into :: "nat \<Rightarrow> u32 \<Rightarrow> int \<Rightarrow> int sysm" where
  "read_into f buf sz =
     sbind (fsm (\<lambda>s. rbind (file_read free_map_allocate s f (replicate (nat sz) 0) sz) (\<lambda>(s1, bs, n). Inr (s1, bs, n))))
       (\<lambda>(bs, n). sbind (store_bytes buf (take (nat n) bs)) (\<lambda>_. sret n))"

text \<open>
  Between the look-up of the descriptor and the transfer the code reads a byte of the inode with
  \<open>get_user\<close> and compares it with -1: the inode is kernel memory, so the read succeeds and the
  byte is never -1. The test is left out.
\<close>

definition sys_read :: "u32 \<Rightarrow> unit sysm" where
  "sys_read esp =
     sbind (user_int (esp + 4)) (\<lambda>fd.
     if fd < 0 \<or> fd > int FILES_MAX then kill else
     sbind (user_word (esp + 8)) (\<lambda>buf.
     if buf > PHYS_BASE then kill else
     sbind (get_user buf) (\<lambda>c.
     if c = - 1 then kill else
     sbind (user_word (esp + 12)) (\<lambda>sz.
     if fd = 0 then sbind (read_keyboard buf (unat sz)) (\<lambda>_. set_eax (uint sz))
     else if fd > 1 then
       if sz = 0 then set_eax 0
       else sbind (get_fd fd) (\<lambda>file.
         case file of
           None \<Rightarrow> set_eax (- 1)
         | Some f \<Rightarrow> sbind (read_into f buf (sint sz)) set_eax)
     else sret ()))))"

text \<open>
  Writing to the console copies the buffer out in pieces of 100 bytes; \<open>eax\<close> is not set.
\<close>

function put_console :: "u32 \<Rightarrow> nat \<Rightarrow> unit sysm" where
  "put_console buf sz =
     (if sz > 100
      then sbind (load_bytes buf 100) (\<lambda>bs. sbind (supd (\<lambda>s. s\<lparr>console := console s @ bs\<rparr>)) (\<lambda>_.
             put_console (buf + 100) (sz - 100)))
      else sbind (load_bytes buf sz) (\<lambda>bs. supd (\<lambda>s. s\<lparr>console := console s @ bs\<rparr>)))"
  by pat_completeness auto
termination by (relation "measure snd") auto

declare put_console.simps [simp del]

definition write_from :: "nat \<Rightarrow> u32 \<Rightarrow> int \<Rightarrow> int sysm" where
  "write_from f buf sz =
     sbind (load_bytes buf (nat sz)) (\<lambda>bs. fsm (\<lambda>s. file_write free_map_allocate s f bs sz))"

definition sys_write :: "u32 \<Rightarrow> unit sysm" where
  "sys_write esp =
     sbind (user_int (esp + 4)) (\<lambda>fd.
     sbind (user_word (esp + 8)) (\<lambda>buf.
     if buf > PHYS_BASE then kill else
     sbind (user_word (esp + 12)) (\<lambda>sz.
     if fd = 1 then put_console buf (unat sz)
     else if fd \<le> 0 then kill
     else if fd > int FILES_MAX then kill
     else sbind (get_fd fd) (\<lambda>file.
       case file of
         None \<Rightarrow> kill
       | Some f \<Rightarrow>
           sbind (get_user buf) (\<lambda>c.
           if c = - 1 \<or> buf = 0 then kill else
           sbind (file_isdir f) (\<lambda>directory.
           if directory then set_eax (- 1)
           else sbind (write_from f buf (sint sz)) set_eax))))))"

definition sys_seek :: "u32 \<Rightarrow> unit sysm" where
  "sys_seek esp =
     sbind (user_int (esp + 4)) (\<lambda>fd.
     sbind (user_word (esp + 8)) (\<lambda>position.
     sbind (get_fd fd) (\<lambda>file.
     case file of None \<Rightarrow> sret () | Some f \<Rightarrow> fsu (\<lambda>s. file_seek s f (sint position)))))"

definition sys_tell :: "u32 \<Rightarrow> unit sysm" where
  "sys_tell esp =
     sbind (user_int (esp + 4)) (\<lambda>fd.
     sbind (get_fd fd) (\<lambda>file.
     case file of None \<Rightarrow> sret () | Some f \<Rightarrow> sbind (fsr (\<lambda>s. file_tell s f)) set_eax))"

definition sys_close :: "u32 \<Rightarrow> unit sysm" where
  "sys_close esp =
     sbind (user_int (esp + 4)) (\<lambda>fd.
     if fd < 0 \<or> fd > int FILES_MAX then kill else
     sbind (get_fd fd) (\<lambda>file.
     case file of
       None \<Rightarrow> kill
     | Some f \<Rightarrow>
         sbind (set_fd fd None) (\<lambda>_.
         sbind (fsu (\<lambda>s. file_close s (Some f))) (\<lambda>_.
         supd (\<lambda>s. s\<lparr>filenum := s32_of (filenum s - 1)\<rparr>)))))"

definition sys_chdir :: "u32 \<Rightarrow> unit sysm" where
  "sys_chdir esp =
     sbind (user_word (esp + 4)) (\<lambda>p.
     if p > PHYS_BASE then kill else
     if p = 0 then kill else
     sbind get_kpage (\<lambda>got.
     if \<not> got then set_eax (- 1) else
     sbind (copy_name p) (\<lambda>dirname.
     sbind (fsm dir_makesure) (\<lambda>d. sbind (nonnull d) (\<lambda>d.
     sbind (fsm (\<lambda>s. dir_lookup s d dirname)) (\<lambda>inode.
     sbind (case inode of
              None \<Rightarrow> set_eax 0
            | Some p \<Rightarrow>
                sbind (fsr (\<lambda>s. rbind (get_inode s p) (\<lambda>i. Inr (isdir (idata i))))) (\<lambda>directory.
                if directory then sbind (fsm (\<lambda>s. dir_open s (Some p))) (\<lambda>_. set_eax 1) else set_eax 0))
       (\<lambda>_. free_kpages 1)))))))"

text \<open>
  The common parts of \<open>SYS_MKDIR\<close>: the new directory and its name in the current one, then the
  entries \<open>.\<close> and \<open>..\<close> inside it. \<open>&&\<close> stops at the first failure.
\<close>

definition add_current :: "byte list option \<Rightarrow> nat \<Rightarrow> bool sysm" where
  "add_current name sec =
     sbind (fsm dir_makesure) (\<lambda>d. sbind (nonnull name) (\<lambda>name. sbind (nonnull d) (\<lambda>d.
       fsm (\<lambda>s. dir_add s d name sec))))"

definition make_dir :: "byte list option \<Rightarrow> nat \<Rightarrow> (nat option \<times> bool) sysm" where
  "make_dir name sec =
     sbind (fsm (\<lambda>s. dir_create s sec 16)) (\<lambda>_.
     sbind (fsm (\<lambda>s. inode_open s sec)) (\<lambda>tryopen.
     sbind (if tryopen \<noteq> None then add_current name sec else sret False) (\<lambda>answer. sret (tryopen, answer))))"

definition add_dots :: "nat option \<Rightarrow> nat \<Rightarrow> nat sysm \<Rightarrow> bool sysm" where
  "add_dots inode sec parent =
     sbind (fsm (\<lambda>s. dir_open s inode)) (\<lambda>d.
     if d = None then sret False
     else sbind (add_current (Some [46]) sec) (\<lambda>ok.
       if \<not> ok then sret False
       else sbind parent (\<lambda>up. add_current (Some [46, 46]) up)))"

definition inode_sector_of :: "nat option \<Rightarrow> nat sysm" where
  "inode_sector_of inode = sbind (nonnull inode) (\<lambda>p. fsr (\<lambda>s. rbind (get_inode s p) (\<lambda>i. Inr (sector i))))"

definition dir_sector_of :: "nat option \<Rightarrow> nat sysm" where
  "dir_sector_of d = sbind (nonnull d) (\<lambda>d. sbind (fsr (\<lambda>s. dir_get_inode s d)) (\<lambda>p. inode_sector_of (Some p)))"

definition mkdir_absolute :: "byte list \<Rightarrow> nat \<Rightarrow> unit sysm" where
  "mkdir_absolute dirname sec =
     sbind (fsm dir_open_root) (\<lambda>_.
     sbind (walk False None None (tokens [slash] dirname)) (\<lambda>(_, prev, inode).
     sbind (make_dir prev sec) (\<lambda>(_, answer).
     if answer then
       sbind (fsm dir_makesure) (\<lambda>tempdir.
       sbind (fsm (\<lambda>s. inode_open s sec)) (\<lambda>p.
       sbind (add_dots p sec (inode_sector_of inode)) (\<lambda>answer.
       sbind (set_eax (of_bool answer)) (\<lambda>_.
       if answer then sbind (nonnull tempdir) (\<lambda>d. sbind (fsm (\<lambda>s. dir_reopen s d)) (\<lambda>_. sret ())) else sret ()))))
     else set_eax 0)))"

definition mkdir_relative :: "byte list \<Rightarrow> nat \<Rightarrow> unit sysm" where
  "mkdir_relative dirname sec =
     sbind (make_dir (Some dirname) sec) (\<lambda>(tryopen, answer).
     if answer then
       sbind (fsm dir_makesure) (\<lambda>tempdir.
       sbind (add_dots tryopen sec (dir_sector_of tempdir)) (\<lambda>answer.
       sbind (set_eax (of_bool answer)) (\<lambda>_. if answer then set_curr_dir tempdir else sret ())))
     else set_eax 0)"

definition sys_mkdir :: "u32 \<Rightarrow> unit sysm" where
  "sys_mkdir esp =
     sbind (user_word (esp + 4)) (\<lambda>p.
     if p > PHYS_BASE then kill else
     if p = 0 then kill else
     sbind get_kpage (\<lambda>got.
     if \<not> got then set_eax (- 1) else
     sbind (copy_name p) (\<lambda>dirname.
     if length dirname = 0 then sbind (free_kpages 1) (\<lambda>_. set_eax 0) else
     sbind (fsm (\<lambda>s. free_map_allocate s 1)) (\<lambda>r.
     let sec = (case r of Some k \<Rightarrow> k | None \<Rightarrow> 0) in
     sbind get_kpage (\<lambda>got.
     if \<not> got then sret () else
     sbind (if dirname ! 0 = slash then mkdir_absolute dirname sec
            else if slash \<in> set dirname
            then sbind (walk False None None (tokens [slash] dirname)) (\<lambda>(fail, _, _).
                   if fail then set_eax 0 else mkdir_relative dirname sec)
            else mkdir_relative dirname sec)
       (\<lambda>_. free_kpages 2))))))"

definition sys_readdir :: "u32 \<Rightarrow> unit sysm" where
  "sys_readdir esp =
     sbind (user_int (esp + 4)) (\<lambda>fd.
     sbind (user_word (esp + 8)) (\<lambda>dst.
     if dst > PHYS_BASE then kill else
     if dst = 0 then kill else
     sbind (get_fd fd) (\<lambda>file.
     case file of
       None \<Rightarrow> set_eax 0
     | Some f \<Rightarrow>
         sbind (file_isdir f) (\<lambda>directory.
         if \<not> directory then set_eax 0 else
         sbind (fsm dir_makesure) (\<lambda>prevdir.
         sbind (fsr (\<lambda>s. file_get_inode s f)) (\<lambda>p.
         sbind (fsm (\<lambda>s. dir_open s (Some p))) (\<lambda>tempopen. sbind (nonnull tempopen) (\<lambda>d.
         sbind (fsr (\<lambda>s. file_tell s f)) (\<lambda>pos.
         sbind (supd (\<lambda>s. s\<lparr>sfs := set_dpos (sfs s) d pos\<rparr>)) (\<lambda>_.
         sbind (fsm (\<lambda>s. dir_readdir s d)) (\<lambda>name.
         sbind (case name of None \<Rightarrow> sret () | Some nm \<Rightarrow> store_bytes dst (nm @ [0])) (\<lambda>_.
         sbind (fsr (\<lambda>s. rbind (get_dir s d) (\<lambda>x. Inr (d_pos x)))) (\<lambda>pos.
         sbind (fsu (\<lambda>s. file_seek s f pos)) (\<lambda>_.
         sbind (fsu (\<lambda>s. dir_close s (Some d))) (\<lambda>_.
         sbind (set_curr_dir prevdir) (\<lambda>_. set_eax (of_bool (name \<noteq> None))))))))))))))))))"

definition sys_isdir :: "u32 \<Rightarrow> unit sysm" where
  "sys_isdir esp =
     sbind (user_int (esp + 4)) (\<lambda>fd.
     sbind (get_fd fd) (\<lambda>file.
     case file of None \<Rightarrow> set_eax 0 | Some f \<Rightarrow> sbind (file_isdir f) (\<lambda>b. set_eax (of_bool b))))"

definition sys_inumber :: "u32 \<Rightarrow> unit sysm" where
  "sys_inumber esp =
     sbind (user_int (esp + 4)) (\<lambda>fd.
     sbind (get_fd fd) (\<lambda>file.
     case file of
       None \<Rightarrow> set_eax (- 1)
     | Some f \<Rightarrow> sbind (fsr (\<lambda>s. file_get_inode s f)) (\<lambda>p. sbind (inode_sector_of (Some p)) (\<lambda>n. set_eax (int n)))))"

text \<open>
  The handler. The calls that start, await or map processes and memory are the argument
  \<open>other\<close>; an unknown number returns.
\<close>

definition syscall_handler :: "(u32 \<Rightarrow> u32 \<Rightarrow> unit sysm) \<Rightarrow> u32 \<Rightarrow> unit sysm" where
  "syscall_handler other esp =
     sbind (supd (\<lambda>s. s\<lparr>process_stack := esp\<rparr>)) (\<lambda>_.
     if esp > PHYS_BASE then kill else
     sbind (get_user esp) (\<lambda>c.
     if c = - 1 then kill else
     sbind (user_word esp) (\<lambda>num.
     if num = 0 then sys_halt
     else if num = 1 then sys_exit esp
     else if num = 4 then sys_create esp
     else if num = 5 then sys_remove esp
     else if num = 6 then sys_open esp
     else if num = 7 then sys_filesize esp
     else if num = 8 then sys_read esp
     else if num = 9 then sys_write esp
     else if num = 10 then sys_seek esp
     else if num = 11 then sys_tell esp
     else if num = 12 then sys_close esp
     else if num = 15 then sys_chdir esp
     else if num = 16 then sys_mkdir esp
     else if num = 17 then sys_readdir esp
     else if num = 18 then sys_isdir esp
     else if num = 19 then sys_inumber esp
     else if num \<in> {2, 3, 13, 14} then other num esp
     else sret ())))"

end
