(* ===== verification/Syscall_Spec.thy ===== *)
theory Syscall_Spec
  imports Syscall
begin

text \<open>
  What the system calls guarantee: reading and writing a file through a descriptor and user
  memory, the allocation of descriptors, and the kernel pages a call borrows.
\<close>

section \<open>Stepping through a computation\<close>

named_theorems sys_simps \<open>evaluation of system call computations\<close>

lemma sbind_eq [sys_simps]:
  "m s = Inr (Ret x, s1) \<Longrightarrow> sbind m f s = f x s1"
  "m s = Inr (Exited, s1) \<Longrightarrow> sbind m f s = Inr (Exited, s1)"
  "m s = Inl e \<Longrightarrow> sbind m f s = Inl e"
  by (simp_all add: sbind_def)

lemma basic_eq [sys_simps]:
  "sret x s = Inr (Ret x, s)" "sget g s = Inr (Ret (g s), s)" "supd h s = Inr (Ret (), h s)"
  "set_eax v s = Inr (Ret (), s\<lparr>eax := word_of_int v\<rparr>)" "sfail e s = Inl e" "sexit s = Inr (Exited, s)"
  by (simp_all add: sret_def sget_def supd_def set_eax_def sfail_def sexit_def)

section \<open>User memory\<close>

definition word_at :: "sys \<Rightarrow> u32 \<Rightarrow> u32 \<Rightarrow> bool" where
  "word_at s a w \<longleftrightarrow> (\<forall>i<4. umem s (a + of_nat i) = Some (le_bytes w ! i))"

lemma load_byte_mapped: "umem s a = Some b \<Longrightarrow> load_byte a s = Inr (Ret b, s)"
  by (simp add: load_byte_def)

lemma user_word_at:
  assumes "word_at s a w"
  shows "user_word a s = Inr (Ret w, s)" "user_int a s = Inr (Ret (sint w), s)"
proof -
  have b: "umem s a = Some (le_bytes w ! 0)" "umem s (a + 1) = Some (le_bytes w ! 1)"
      "umem s (a + 2) = Some (le_bytes w ! 2)" "umem s (a + 3) = Some (le_bytes w ! 3)"
    using assms unfolding word_at_def by (fastforce dest: spec [of _ 0] spec [of _ 1] spec [of _ 2] spec [of _ 3])+
  have "[le_bytes w ! 0, le_bytes w ! 1, le_bytes w ! 2, le_bytes w ! 3] = le_bytes w"
    by (rule nth_equalityI) (auto simp: less_Suc_eq numeral_eq_Suc)
  then have "le_word [le_bytes w ! 0, le_bytes w ! 1, le_bytes w ! 2, le_bytes w ! 3] = w" by simp
  then show w: "user_word a s = Inr (Ret w, s)"
    using b by (simp add: user_word_def sbind_eq load_byte_mapped sret_def)
  then show "user_int a s = Inr (Ret (sint w), s)" by (simp add: user_int_def sbind_eq sret_def)
qed

text \<open>\<open>mapped s a n\<close>: \<open>n\<close> bytes from \<open>a\<close> on are mapped; \<open>writable\<close>: and may be written.\<close>

definition mapped :: "sys \<Rightarrow> u32 \<Rightarrow> nat \<Rightarrow> bool" where
  "mapped s a n \<longleftrightarrow> (\<forall>i<n. umem s (a + of_nat i) \<noteq> None)"

definition writable :: "sys \<Rightarrow> u32 \<Rightarrow> nat \<Rightarrow> bool" where
  "writable s a n \<longleftrightarrow> mapped s a n \<and> (\<forall>i<n. pg_round_down (a + of_nat i) \<notin> ro_pages s)"

definition ubytes :: "sys \<Rightarrow> u32 \<Rightarrow> nat \<Rightarrow> byte list" where
  "ubytes s a n = map (\<lambda>i. the (umem s (a + of_nat i))) [0..<n]"

fun put_bytes :: "(u32 \<rightharpoonup> byte) \<Rightarrow> u32 \<Rightarrow> byte list \<Rightarrow> (u32 \<rightharpoonup> byte)" where
  "put_bytes m a [] = m"
| "put_bytes m a (b # bs) = put_bytes (m(a \<mapsto> b)) (a + 1) bs"

lemma load_bytes_mapped:
  assumes "mapped s a n"
  shows "load_bytes a n s = Inr (Ret (ubytes s a n), s)"
  using assms
proof (induction n arbitrary: a)
  case 0
  then show ?case by (simp add: ubytes_def sret_def)
next
  case (Suc n)
  have sh: "a + 1 + of_nat i = a + of_nat (Suc i)" for i by simp
  obtain b where b: "umem s a = Some b" using Suc.prems by (fastforce simp: mapped_def dest: spec [of _ 0])
  have "mapped s (a + 1) n" using Suc.prems unfolding mapped_def sh by (metis Suc_less_eq)
  from Suc.IH [OF this] have "load_bytes (a + 1) n s = Inr (Ret (ubytes s (a + 1) n), s)" .
  moreover have "ubytes s a (Suc n) = b # ubytes s (a + 1) n"
    using b unfolding ubytes_def map_upt_Suc sh by simp
  ultimately show ?case using b by (simp add: sbind_eq load_byte_mapped sret_def)
qed

lemma store_bytes_writable:
  assumes "writable s a (length bs)"
  shows "store_bytes a bs s = Inr (Ret (), s\<lparr>umem := put_bytes (umem s) a bs\<rparr>)"
  using assms
proof (induction bs arbitrary: a s)
  case Nil
  then show ?case by (simp add: sret_def)
next
  case (Cons b bs)
  have sh: "a + 1 + of_nat i = a + of_nat (Suc i)" for i by simp
  obtain c where c: "umem s a = Some c" using Cons.prems by (fastforce simp: writable_def mapped_def dest: spec [of _ 0])
  have "pg_round_down a \<notin> ro_pages s" using Cons.prems by (fastforce simp: writable_def dest: spec [of _ 0])
  let ?s = "s\<lparr>umem := (umem s)(a \<mapsto> b)\<rparr>"
  have st: "store_byte a b s = Inr (Ret (), ?s)" using c \<open>pg_round_down a \<notin> ro_pages s\<close>
    by (simp add: store_byte_def sbind_eq load_byte_mapped)
  have "\<exists>y. umem s (a + of_nat (Suc i)) = Some y" "pg_round_down (a + of_nat (Suc i)) \<notin> ro_pages s" if "i < length bs" for i
    using Cons.prems that unfolding writable_def mapped_def by (metis Suc_less_eq length_Cons not_None_eq)+
  then have "writable ?s (a + 1) (length bs)"
    unfolding writable_def mapped_def sh by (auto simp del: of_nat_Suc)
  then have "store_bytes (a + 1) bs ?s = Inr (Ret (), ?s\<lparr>umem := put_bytes (umem ?s) (a + 1) bs\<rparr>)" by (rule Cons.IH)
  then show ?case unfolding store_bytes.simps sbind_eq(1) [of "store_byte a b", OF st] by (simp del: fun_upd_apply)
qed

lemma put_bytes_other: "(\<And>i. i < length bs \<Longrightarrow> x \<noteq> a + of_nat i) \<Longrightarrow> put_bytes m a bs x = m x"
proof (induction bs arbitrary: m a)
  case (Cons b bs)
  have "x \<noteq> a + 1 + of_nat i" if "i < length bs" for i using Cons.prems [of "Suc i"] that by (simp add: add.assoc)
  then have "put_bytes (m(a \<mapsto> b)) (a + 1) bs x = (m(a \<mapsto> b)) x" by (rule Cons.IH)
  then show ?case using Cons.prems [of 0] by simp
qed simp

lemma of_nat_u32_inj: "i < 2 ^ 32 \<Longrightarrow> j < 2 ^ 32 \<Longrightarrow> (of_nat i :: u32) = of_nat j \<Longrightarrow> i = j"
  using word_of_nat_eq_iff [where 'a = 32, of i j] by (simp add: take_bit_nat_eq_self)

lemma put_bytes_nth: "length bs < 2 ^ 32 \<Longrightarrow> i < length bs \<Longrightarrow> put_bytes m a bs (a + of_nat i) = Some (bs ! i)"
proof (induction bs arbitrary: m a i)
  case (Cons b bs)
  show ?case
  proof (cases i)
    case 0
    have "put_bytes (m(a \<mapsto> b)) (a + 1) bs a = (m(a \<mapsto> b)) a"
    proof (rule put_bytes_other)
      fix k
      assume "k < length bs"
      then show "a \<noteq> a + 1 + of_nat k" using of_nat_u32_inj [of 0 "Suc k"] Cons.prems(1) by (auto simp: add.assoc)
    qed
    then show ?thesis using 0 by simp
  next
    case (Suc k)
    have "put_bytes (m(a \<mapsto> b)) (a + 1) bs (a + 1 + of_nat k) = Some (bs ! k)"
      using Cons.prems Suc by (intro Cons.IH) simp_all
    then show ?thesis using Suc by (simp add: add.assoc)
  qed
qed simp

section \<open>Reading and writing through a descriptor\<close>

text \<open>The open file behind a descriptor, its inode and position.\<close>

definition open_fd :: "sys \<Rightarrow> nat \<Rightarrow> nat \<Rightarrow> kfile \<Rightarrow> inode \<Rightarrow> bool" where
  "open_fd s fd f fl i \<longleftrightarrow> 2 \<le> fd \<and> fd < FILES_MAX \<and> length (fdtable s) = FILES_MAX \<and> fdtable s ! fd = Some f
     \<and> files (sfs s) f = Some fl \<and> inodes (sfs s) (f_inode fl) = Some i"

lemma sint_of_nat: "n < 2 ^ 31 \<Longrightarrow> sint (of_nat n :: u32) = int n"
proof -
  assume n: "n < 2 ^ 31"
  then have "uint (of_nat n :: u32) = int n" by (simp add: unsigned_of_nat take_bit_nat_eq_self)
  then show ?thesis unfolding sint_uint using n by (simp add: signed_take_bit_int_eq_self)
qed

lemma get_fd_open: "open_fd s fd f fl i \<Longrightarrow> get_fd (int fd) s = Inr (Ret (Some f), s)"
  by (auto simp: get_fd_def open_fd_def)

lemma get_user_mapped: "umem s a \<noteq> None \<Longrightarrow> get_user a s = Inr (Ret (uint (the (umem s a))), s)"
  by (auto simp: get_user_def sbind_eq load_byte_mapped sret_def)

lemma byte_not_minus_1: "uint (b :: byte) \<noteq> - 1"
  using uint_ge_0 [of b] by linarith

lemma mapped_first: "mapped s a n \<Longrightarrow> 0 < n \<Longrightarrow> umem s a \<noteq> None"
  unfolding mapped_def by (drule spec [of _ 0]) simp

lemma file_read_spec:
  assumes "cache_inv s" "files s f = Some fl" "inodes s (f_inode fl) = Some i" "inode_wf s (idata i)"
    and "\<forall>k\<in>set (data_sectors s (idata i)). cache_ready s k" "0 \<le> f_pos fl" "f_pos fl < 2 ^ 31" "0 < n"
  defines "k \<equiv> nat (min (int n) (ilength (idata i) - f_pos fl))"
  shows "\<exists>s1. file_read free_map_allocate s f (replicate n 0) (int n)
      = Inr (set_pos s1 f (f_pos fl + int k), overwrite (replicate n 0) 0 (take k (drop (nat (f_pos fl)) (file_bytes s (idata i)))), int k)
    \<and> cache_inv s1 \<and> cache_view s1 = cache_view s \<and> cache_frame s s1"
proof -
  have "nat (min (int n) (ilength (idata i) - f_pos fl)) \<le> length (replicate n (0 :: byte))" by simp
  from inode_read_at_spec [OF assms(1,3,4,5,6,7) this, of free_map_allocate] obtain s1 where
    r: "inode_read_at free_map_allocate s (f_inode fl) (replicate n 0) (int n) (f_pos fl)
      = Inr (s1, overwrite (replicate n 0) 0 (take k (drop (nat (f_pos fl)) (file_bytes s (idata i)))), int k)"
    "cache_inv s1" "cache_view s1 = cache_view s" "cache_frame s s1" unfolding k_def by blast
  have "ilength (idata i) \<le> 512 * 512" using assms(4) by (simp add: inode_wf_def)
  then have "s32_of (f_pos fl + int k) = f_pos fl + int k"
    using assms(6,7) by (intro s32_of_id) (auto simp: k_def)
  then show ?thesis using r assms(2) by (intro exI [of _ s1]) (simp add: file_read_def get_file_def)
qed

lemma read_into_spec:
  assumes "file_read free_map_allocate (sfs s) f (replicate n 0) (int n) = Inr (s1, overwrite (replicate n 0) 0 bs, int (length bs))"
    and "length bs \<le> n" "writable s buf n"
  shows "read_into f buf (int n) s = Inr (Ret (int (length bs)), s\<lparr>sfs := s1, umem := put_bytes (umem s) buf bs\<rparr>)"
proof -
  have t: "take (length bs) (overwrite (replicate n 0) 0 bs) = bs" using assms(2) by (simp add: overwrite_def)
  have "writable (s\<lparr>sfs := s1\<rparr>) buf (length bs)" using assms(2,3) by (auto simp: writable_def mapped_def)
  from store_bytes_writable [OF this] show ?thesis
    unfolding read_into_def using assms(1) t by (simp add: sbind_def fsm_def sret_def)
qed

text \<open>
  C2: \<open>read\<close>. With its arguments on the stack and an open descriptor, the call returns the number
  of bytes that are left in the file at the position of the descriptor, at most the size
  asked for; exactly that many bytes of the file are stored in the buffer, no other user memory,
  no file contents and no other open file changes, and the position advances by the number read.
\<close>

theorem read_call_returns_bytes:
  assumes "word_at s (esp + 4) (of_nat fd)" "word_at s (esp + 8) buf" "word_at s (esp + 12) (of_nat n)"
    and "open_fd s fd f fl i" "0 < n" "n < 2 ^ 31" "buf \<le> PHYS_BASE" "writable s buf n"
    and "cache_inv (sfs s)" "inode_wf (sfs s) (idata i)" "\<forall>k\<in>set (data_sectors (sfs s) (idata i)). cache_ready (sfs s) k"
    and "0 \<le> f_pos fl" "f_pos fl < 2 ^ 31"
  defines "bs \<equiv> take n (drop (nat (f_pos fl)) (file_bytes (sfs s) (idata i)))"
  shows "\<exists>s'. sys_read esp s = Inr (Ret (), s') \<and> eax s' = of_nat (length bs)
    \<and> length bs = nat (min (int n) (ilength (idata i) - f_pos fl))
    \<and> (\<forall>j<length bs. umem s' (buf + of_nat j) = Some (bs ! j))
    \<and> (\<forall>x. (\<forall>j<length bs. x \<noteq> buf + of_nat j) \<longrightarrow> umem s' x = umem s x)
    \<and> files (sfs s') = (files (sfs s))(f \<mapsto> fl\<lparr>f_pos := f_pos fl + int (length bs)\<rparr>)
    \<and> fdtable s' = fdtable s \<and> cache_inv (sfs s') \<and> cache_view (sfs s') = cache_view (sfs s) \<and> inodes (sfs s') = inodes (sfs s)"
proof -
  have fd: "2 \<le> fd" "fd < 128" "files (sfs s) f = Some fl" "inodes (sfs s) (f_inode fl) = Some i"
    using assms(4) by (auto simp: open_fd_def FILES_MAX_def)
  have fb: "length (file_bytes (sfs s) (idata i)) = nat (ilength (idata i))" using assms(9,10) by (intro length_file_bytes)
  have len: "0 \<le> ilength (idata i)" using assms(10) by (simp add: inode_wf_def)
  have k: "length bs = nat (min (int n) (ilength (idata i) - f_pos fl))" using fb assms(12) len unfolding bs_def by simp
  have "take (length bs) (drop (nat (f_pos fl)) (file_bytes (sfs s) (idata i))) = bs" unfolding bs_def by (simp add: min_def)
  with file_read_spec [OF assms(9) fd(3,4) assms(10-13,5), folded k] obtain s1 where
    r: "file_read free_map_allocate (sfs s) f (replicate n 0) (int n) = Inr (set_pos s1 f (f_pos fl + int (length bs)),
        overwrite (replicate n 0) 0 bs, int (length bs))"
    "cache_inv s1" "cache_view s1 = cache_view (sfs s)" "cache_frame (sfs s) s1" by auto
  let ?s = "s\<lparr>sfs := set_pos s1 f (f_pos fl + int (length bs)), umem := put_bytes (umem s) buf bs\<rparr>"
  have bn: "length bs \<le> n" unfolding bs_def by simp
  have ri: "read_into f buf (int n) s = Inr (Ret (int (length bs)), ?s)" by (rule read_into_spec [OF r(1) bn assms(8)])
  have args: "user_int (esp + 4) s = Inr (Ret (int fd), s)" "user_word (esp + 8) s = Inr (Ret buf, s)"
      "user_word (esp + 12) s = Inr (Ret (of_nat n), s)" "sint (of_nat n :: u32) = int n" "(of_nat n :: u32) \<noteq> 0"
    using user_word_at [OF assms(1)] user_word_at [OF assms(2)] user_word_at [OF assms(3)] sint_of_nat [of fd] sint_of_nat [OF assms(6)]
      fd(2) assms(5) by auto
  have "umem s buf \<noteq> None" using mapped_first assms(5,8) by (auto simp: writable_def)
  note gu = get_user_mapped [OF this]
  have c: "uint (the (umem s buf)) \<noteq> - 1" "\<not> PHYS_BASE < buf" using assms(7) by (simp_all add: byte_not_minus_1)
  have "sys_read esp s = Inr (Ret (), ?s\<lparr>eax := word_of_int (int (length bs))\<rparr>)"
    using fd(1,2) c args gu get_fd_open [OF assms(4)] ri
    by (simp add: sys_read_def sbind_eq FILES_MAX_def basic_eq)
  moreover have same: "files s1 = files (sfs s)" "inodes s1 = inodes (sfs s)" using cache_frame_fs [OF r(4)] by auto
  moreover have "length bs < 2 ^ 32" using bn assms(6) by simp
  ultimately show ?thesis using k r(2,3) fd(3) put_bytes_nth [of bs] put_bytes_other [of bs _ buf]
    by (intro exI [of _ "?s\<lparr>eax := word_of_int (int (length bs))\<rparr>"]) (simp add: set_pos_def)
qed

lemma set_pos_update: "files s f = Some fl \<Longrightarrow> set_pos s f pos = s\<lparr>files := (files s)(f \<mapsto> fl\<lparr>f_pos := pos\<rparr>)\<rparr>"
  by (simp add: set_pos_def)

lemma fm_inv_set_pos: "files s f = Some fl \<Longrightarrow> fm_inv (set_pos s f pos) = fm_inv s"
  unfolding set_pos_update by (intro fm_files_update) auto

text \<open>
  A process with one open file, descriptor 2, and 16 bytes of stack that hold the arguments of a
  call: the descriptor, the address of a buffer of four bytes, and the size 4.
\<close>

definition sample_sys :: "nat \<Rightarrow> int \<Rightarrow> sys" where
  "sample_sys p pos = \<lparr>sfs = sample_fs\<lparr>files := (files sample_fs)(9 \<mapsto> \<lparr>f_inode = p, f_pos = pos, f_deny_write = False, f_dir = None\<rparr>)\<rparr>,
     fdtable = (replicate 128 None)[2 := Some 9], nextfd = 3, returnstatus = 0, filenum = 1, process_stack = 0x1000,
     umem = (\<lambda>a. if 0x1000 \<le> a \<and> a < 0x1010 then Some ([8, 0, 0, 0, 2, 0, 0, 0, 0, 0x20, 0, 0, 4, 0, 0, 0] ! unat (a - 0x1000))
                  else if 0x2000 \<le> a \<and> a < 0x2004 then Some (ucast a + 65) else None),
     ro_pages = {}, kpages = 8, eax = 0, console = [], keyboard = []\<rparr>"

lemma all_less_4: "(\<forall>i<4. P i) \<longleftrightarrow> P 0 \<and> P 1 \<and> P 2 \<and> P (3 :: nat)"
  by (auto simp: less_Suc_eq numeral_eq_Suc)

lemma sample_args:
  "word_at (sample_sys p pos) (0x1000 + 4) (of_nat 2)" "word_at (sample_sys p pos) (0x1000 + 8) 0x2000"
  "word_at (sample_sys p pos) (0x1000 + 12) (of_nat 4)"
  unfolding word_at_def all_less_4 by (simp_all add: sample_sys_def le_bytes_def drop_bit_eq_div unsigned_ucast_eq)

lemma sample_buffer: "writable (sample_sys p pos) 0x2000 4" "mapped (sample_sys p pos) 0x2000 4"
    "ubytes (sample_sys p pos) 0x2000 4 = [65, 66, 67, 68]"
proof -
  have "[0..<4] = [0, 1, 2, 3]" by code_simp
  then show "ubytes (sample_sys p pos) 0x2000 4 = [65, 66, 67, 68]"
    unfolding ubytes_def by (simp add: sample_sys_def)
  show "mapped (sample_sys p pos) 0x2000 4" unfolding mapped_def all_less_4 by (simp add: sample_sys_def)
  then show "writable (sample_sys p pos) 0x2000 4" by (simp add: writable_def sample_sys_def)
qed

lemma sample_open:
  "open_fd (sample_sys 8 pos) 2 9 \<lparr>f_inode = 8, f_pos = pos, f_deny_write = False, f_dir = None\<rparr> hello_inode"
  "open_fd (sample_sys 7 pos) 2 9 \<lparr>f_inode = 7, f_pos = pos, f_deny_write = False, f_dir = None\<rparr> sample_inode"
  by (simp_all add: open_fd_def sample_sys_def FILES_MAX_def hello_file sample_file)

lemma sample_sys_fs:
  "sfs (sample_sys p pos) = sample_fs\<lparr>files := (files sample_fs)(9 \<mapsto> \<lparr>f_inode = p, f_pos = pos, f_deny_write = False, f_dir = None\<rparr>)\<rparr>"
  by (simp add: sample_sys_def)

lemma sample_sys_inv:
  fixes fl :: kfile
  defines "s \<equiv> sample_fs\<lparr>files := (files sample_fs)(9 \<mapsto> fl)\<rparr>"
  shows "fm_inv s" "fm_meta s = {5}" "fm_prot s q \<longleftrightarrow> q = 6"
proof -
  have n: "free_map_file sample_fs = Some 5" by (simp add: sample_fs_def)
  note u = fm_files_update [of sample_fs "(files sample_fs)(9 \<mapsto> fl)", folded s_def]
  show "fm_inv s" "fm_meta s = {5}" "fm_prot s q \<longleftrightarrow> q = 6" using n u by (simp_all add: sample_inv)
qed

theorem read_call_returns_bytes_witness:
  "\<exists>s'. sys_read 0x1000 (sample_sys 8 2) = Inr (Ret (), s') \<and> eax s' = 3"
  using read_call_returns_bytes [OF sample_args sample_open(1), of 2]
  by (auto simp: hello_file sample_cache sample_buffer sample_sys_fs PHYS_BASE_def)

text \<open>
  C1: \<open>write\<close>. With its arguments on the stack and a descriptor of a file that is not a directory and may be
  written, the call writes the bytes of the buffer at the position of the descriptor,
  extending the file with zeros where the position is past its end, returns their number and
  advances the position; user memory does not change and the file system stays consistent.
  The write must end within 256 KiB, memory and free sectors must be left for the new length, and the write must not
  be one of the stuck ones (\<open>write_stuck\<close>: a file shorter than the offset of the position in its sector, where \<open>min n 512\<close>
  more bytes end exactly at that offset), for which \<open>inode_write_at\<close> writes nothing and the call
  returns 0. The comments of \<open>file_write\<close> and \<open>inode_write_at\<close> say that growth is not
  implemented; the code implements it.
\<close>

theorem write_call_extends_file:
  assumes "word_at s (esp + 4) (of_nat fd)" "word_at s (esp + 8) buf" "word_at s (esp + 12) (of_nat n)"
    and "open_fd s fd f fl i" "0 < n" "buf \<le> PHYS_BASE" "buf \<noteq> 0" "mapped s buf n"
    and "fm_inv (sfs s)" "fs_ready (sfs s)" "\<not> fm_prot (sfs s) (f_inode fl)"
    and "file_ok (sfs s) (fm_meta (sfs s)) (sector i) (idata i)" "deny_write_cnt i = 0" "\<not> isdir (idata i)"
    and "0 \<le> f_pos fl" "f_pos fl + int n \<le> 512 * 512" "f_pos fl + int n \<le> 512 * int (capacity (filesys_disk (sfs s)))"
    and "bytes_to_sectors (f_pos fl + int n) - bytes_to_sectors (ilength (idata i)) \<le> room (sfs s)"
    and "\<not> write_stuck (ilength (idata i)) (int n) (f_pos fl)"
  shows "\<exists>s' di. sys_write esp s = Inr (Ret (), s') \<and> eax s' = of_nat n
    \<and> inodes (sfs s') = (inodes (sfs s))(f_inode fl \<mapsto> i\<lparr>idata := di\<rparr>)
    \<and> file_bytes (sfs s') di = overwrite (file_bytes (sfs s) (idata i)
          @ replicate (nat (f_pos fl + int n - ilength (idata i))) 0) (nat (f_pos fl)) (ubytes s buf n)
    \<and> files (sfs s') = (files (sfs s))(f \<mapsto> fl\<lparr>f_pos := f_pos fl + int n\<rparr>)
    \<and> umem s' = umem s \<and> fdtable s' = fdtable s \<and> fm_inv (sfs s')"
proof -
  have fd: "2 \<le> fd" "fd < 128" "files (sfs s) f = Some fl" "inodes (sfs s) (f_inode fl) = Some i"
    using assms(4) by (auto simp: open_fd_def FILES_MAX_def)
  have nb: "n < 2 ^ 31" using assms(15,16) by simp
  have ul: "length (ubytes s buf n) = n" by (simp add: ubytes_def)
  then have "nat (int n) \<le> length (ubytes s buf n)" "0 < int n" using assms(5) by simp_all
  from inode_write_at_grows [OF assms(9-11) fd(4) assms(12,13,15) this(2,1) assms(16-19)] obtain s1 di where
    w: "inode_write_at free_map_allocate (sfs s) (f_inode fl) (ubytes s buf n) (int n) (f_pos fl) = Inr (s1, int n)"
      "inodes s1 = (inodes (sfs s))(f_inode fl \<mapsto> i\<lparr>idata := di\<rparr>)" "fm_inv s1"
      "file_bytes s1 di = overwrite (file_bytes (sfs s) (idata i)
          @ replicate (nat (f_pos fl + int n - ilength (idata i))) 0) (nat (f_pos fl)) (take (nat (int n)) (ubytes s buf n))"
      "file_step (sfs s) s1 (fm_meta (sfs s)) (sector i) (idata i) di" by blast
  have fs1: "files s1 = files (sfs s)" using w(5) by (auto simp: file_step_def fs_same_def)
  let ?s = "s\<lparr>sfs := set_pos s1 f (f_pos fl + int n)\<rparr>"
  have "s32_of (f_pos fl + int n) = f_pos fl + int n" using assms(15,16) by (intro s32_of_id) simp_all
  then have "file_write free_map_allocate (sfs s) f (ubytes s buf n) (int n) = Inr (set_pos s1 f (f_pos fl + int n), int n)"
    using fd(3) w(1) by (simp add: file_write_def get_file_def)
  then have wf: "write_from f buf (int n) s = Inr (Ret (int n), ?s)"
    using load_bytes_mapped [OF assms(8)] by (simp add: write_from_def sbind_eq fsm_def)
  have args: "user_int (esp + 4) s = Inr (Ret (int fd), s)" "user_word (esp + 8) s = Inr (Ret buf, s)"
      "user_word (esp + 12) s = Inr (Ret (of_nat n), s)" "sint (of_nat n :: u32) = int n"
    using user_word_at [OF assms(1)] user_word_at [OF assms(2)] user_word_at [OF assms(3)] sint_of_nat [of fd] sint_of_nat [OF nb]
      fd(2) by auto
  note gu = get_user_mapped [OF mapped_first [OF assms(8,5)]]
  have c: "uint (the (umem s buf)) \<noteq> - 1" "\<not> PHYS_BASE < buf" using assms(6) by (simp_all add: byte_not_minus_1)
  have d: "file_isdir f s = Inr (Ret False, s)"
    using fd(3,4) assms(14) by (simp add: file_isdir_def fsr_def fsm_def file_get_inode_def get_file_def get_inode_def)
  have "sys_write esp s = Inr (Ret (), ?s\<lparr>eax := word_of_int (int n)\<rparr>)"
    using fd(1,2) c args gu get_fd_open [OF assms(4)] assms(7) d wf
    by (simp add: sys_write_def sbind_eq FILES_MAX_def basic_eq)
  moreover have "fm_inv (sfs ?s)" using w(3) fs1 fd(3) fm_inv_set_pos by simp
  ultimately show ?thesis using w(2,4) fs1 fd(3) ul
    by (intro exI [of _ "?s\<lparr>eax := word_of_int (int n)\<rparr>"] exI [of _ di]) (simp add: set_pos_update)
qed

theorem write_call_extends_file_witness:
  "\<exists>s' di. sys_write 0x1000 (sample_sys 7 600) = Inr (Ret (), s') \<and> eax s' = 4
    \<and> file_bytes (sfs s') di = replicate 600 0 @ [65, 66, 67, 68]"
proof -
  have b: "bytes_to_sectors 604 = 2" "\<not> isdir (idata sample_inode)" by (simp_all add: bytes_to_sectors_eq sample_inode_def)
  show ?thesis
    using write_call_extends_file [OF sample_args sample_open(2), of 600]
    by (auto simp: sample_file sample_inv sample_sys_inv sample_buffer sample_sys_fs sample_room PHYS_BASE_def b overwrite_def
      write_stuck_def)
qed

section \<open>Descriptors\<close>

text \<open>
  Until the table has been filled once, the slots from \<open>nextfd\<close> on are free and a new file gets
  one of them.
\<close>

definition fd_inv :: "sys \<Rightarrow> bool" where
  "fd_inv s \<longleftrightarrow> length (fdtable s) = FILES_MAX \<and> 2 \<le> nextfd s \<and> nextfd s \<le> int FILES_MAX
     \<and> (\<forall>i. nat (nextfd s) \<le> i \<longrightarrow> i < FILES_MAX \<longrightarrow> fdtable s ! i = None)"

lemma install_fd_fresh:
  assumes "fd_inv s" "nextfd s < int FILES_MAX"
  defines "fd \<equiv> nat (nextfd s)"
  shows "\<exists>s'. install_fd (Some f) s = Inr (Ret (), s') \<and> eax s' = of_nat fd \<and> fdtable s ! fd = None
    \<and> fdtable s' = (fdtable s)[fd := Some f] \<and> sfs s' = sfs s \<and> fd_inv s'"
proof -
  have fd: "nextfd s = int fd" "2 \<le> fd" "fd < 128" "fd < length (fdtable s)" "fdtable s ! fd = None"
    using assms by (auto simp: fd_inv_def FILES_MAX_def)
  have "s32_of (int fd + 1) = int fd + 1" using fd(3) by (intro s32_of_id) simp_all
  then have "install_fd (Some f) s
      = Inr (Ret (), s\<lparr>fdtable := (fdtable s)[fd := Some f], nextfd := int fd + 1, eax := of_nat fd\<rparr>)"
    using fd by (simp add: install_fd_def sbind_eq basic_eq set_fd_def FILES_MAX_def)
  then show ?thesis using fd assms(1) by (auto simp: fd_inv_def FILES_MAX_def nat_add_distrib)
qed

lemma free_fd_first:
  assumes "3 \<le> i" "i < FILES_MAX" "t ! i = None" "\<And>j. 3 \<le> j \<Longrightarrow> j < i \<Longrightarrow> t ! j \<noteq> None"
  shows "free_fd t = i"
proof -
  have "[3..<FILES_MAX] = [3..<i] @ i # [Suc i..<FILES_MAX]"
    using assms(1,2) by (metis le_add_diff_inverse less_imp_le_nat upt_add_eq_append upt_conv_Cons)
  moreover have "filter (\<lambda>j. t ! j = None) [3..<i] = []" using assms(4) by (auto simp: filter_empty_conv)
  ultimately show ?thesis using assms(3) by (simp add: free_fd_def)
qed

text \<open>
  C40: once the table has been full, a descriptor in use can be taken away. With every slot from 3
  on in use but slot \<open>i\<close>, which was closed, the next two opened files get the descriptors \<open>i\<close> and
  \<open>i + 1\<close>: the second replaces the file that is still open under \<open>i + 1\<close>.
\<close>

theorem open_replaces_descriptor:
  assumes "length (fdtable s) = FILES_MAX" "int FILES_MAX \<le> nextfd s" "3 \<le> i" "Suc i < FILES_MAX"
    and "fdtable s ! i = None" "\<And>j. 3 \<le> j \<Longrightarrow> j < i \<Longrightarrow> fdtable s ! j \<noteq> None" "fdtable s ! Suc i = Some g"
  shows "\<exists>s1 s2. install_fd (Some f1) s = Inr (Ret (), s1) \<and> eax s1 = of_nat i \<and> fdtable s1 ! Suc i = Some g
    \<and> install_fd (Some f2) s1 = Inr (Ret (), s2) \<and> eax s2 = of_nat (Suc i) \<and> fdtable s2 ! Suc i = Some f2
    \<and> sfs s2 = sfs s"
proof -
  have b: "i < 128" "Suc i < 128" using assms(4) by (simp_all add: FILES_MAX_def)
  have fr: "free_fd (fdtable s) = i" using assms by (intro free_fd_first) simp_all
  have "s32_of (int i + 1 + 1) = int i + 1 + 1" using b by (intro s32_of_id) simp_all
  moreover have n: "nat (int i + 1) = Suc i" by simp
  ultimately show ?thesis using assms(1,2,7) b fr
    by (simp add: install_fd_def sbind_def rbind_def sget_def supd_def set_eax_def set_fd_def FILES_MAX_def)
qed

theorem open_replaces_descriptor_witness:
  "\<exists>s1 s2. install_fd (Some 1) ((sample_sys 8 0)\<lparr>fdtable := (replicate 128 (Some 9))[5 := None], nextfd := 128\<rparr>) = Inr (Ret (), s1)
    \<and> fdtable s1 ! 6 = Some 9 \<and> install_fd (Some 2) s1 = Inr (Ret (), s2) \<and> eax s2 = 6 \<and> fdtable s2 ! 6 = Some 2"
  using open_replaces_descriptor [of "(sample_sys 8 0)\<lparr>fdtable := (replicate 128 (Some 9))[5 := None], nextfd := 128\<rparr>" 5 9 1 2]
  by (force simp: FILES_MAX_def)

section \<open>Kernel pages\<close>

text \<open>
  \<open>pages n m n'\<close>: started with \<open>n\<close> free kernel pages, \<open>m\<close> returns with \<open>n'\<close>. The rules follow the
  structure of the calls; they are the collection \<open>page_rules\<close>.
\<close>

definition pages :: "nat \<Rightarrow> 'a sysm \<Rightarrow> nat \<Rightarrow> bool" where
  "pages n m n' \<longleftrightarrow> (\<forall>s x s'. kpages s = n \<longrightarrow> m s = Inr (Ret x, s') \<longrightarrow> kpages s' = n')"

named_theorems page_rules \<open>free kernel pages across a computation\<close>

lemma sbind_ret_cases:
  assumes "sbind m f s = Inr (Ret x, s')"
  obtains y s1 where "m s = Inr (Ret y, s1)" "f y s1 = Inr (Ret x, s')"
  using assms by (auto simp: sbind_def rbind_def split: sum.splits outcome.splits)

lemma pages_bind: "pages n m n1 \<Longrightarrow> (\<And>x. pages n1 (f x) n2) \<Longrightarrow> pages n (sbind m f) n2"
  unfolding pages_def by (metis sbind_ret_cases)

text \<open>A request for a page when one is free: the branch for a failed request is not taken.\<close>

lemma pages_get: "pages n (f True) n2 \<Longrightarrow> pages (Suc n) (sbind get_kpage f) n2"
  by (force simp: pages_def sbind_def get_kpage_def)

lemma pages_got: "pages n b n' \<Longrightarrow> pages n (if \<not> True then a else b) n'"
  by simp

lemma pages_steps [page_rules]:
  "pages n (sret x) n" "pages n (sget g) n" "pages n (set_eax v) n" "pages n sexit n1" "pages n kill n1" "pages n (sfail e) n1"
  "pages n (fsm h) n" "pages n (fsu b) n" "pages n (fsr c) n" "pages n (set_curr_dir d) n" "pages n (get_fd fd) n"
  "pages n (set_fd fd q) n" "pages n (load_byte a) n" "pages n (nonnull p) n"
  by (auto simp: pages_def sret_def sget_def set_eax_def supd_def sexit_def kill_def sfail_def fsm_def fsu_def fsr_def rbind_def
      set_curr_dir_def get_fd_def set_fd_def load_byte_def grow_stack_def nonnull_def split: sum.splits option.splits if_splits)

lemma pages_free [page_rules]: "pages n (free_kpages 1) (Suc n)" "pages n (free_kpages 2) (Suc (Suc n))"
  by (simp_all add: pages_def free_kpages_def supd_def)

lemma pages_files [page_rules]: "pages n (supd (\<lambda>s. s\<lparr>filenum := g s\<rparr>)) n" "pages n (supd (\<lambda>s. s\<lparr>nextfd := g s\<rparr>)) n"
  by (simp_all add: pages_def supd_def)

lemma pages_if: "(P \<Longrightarrow> pages n a n') \<Longrightarrow> (\<not> P \<Longrightarrow> pages n b n') \<Longrightarrow> pages n (if P then a else b) n'"
  by simp

lemma pages_option: "(x = None \<Longrightarrow> pages n a n') \<Longrightarrow> (\<And>y. x = Some y \<Longrightarrow> pages n (b y) n')
    \<Longrightarrow> pages n (case x of None \<Rightarrow> a | Some y \<Rightarrow> b y) n'"
  by (cases x) simp_all

lemma pages_prod: "(\<And>a b. x = (a, b) \<Longrightarrow> pages n (f a b) n') \<Longrightarrow> pages n (case x of (a, b) \<Rightarrow> f a b) n'"
  by (cases x) simp

lemmas pages_intro = pages_got pages_if pages_option pages_prod pages_get pages_bind

lemma pages_word [page_rules]: "pages n (user_word a) n" "pages n (get_user a) n"
  unfolding user_word_def get_user_def by (rule pages_intro page_rules)+

lemma pages_string: "pages n (user_string k a) n"
proof (induction k arbitrary: a)
  case (Suc k)
  show ?case unfolding user_string.simps by (rule pages_intro page_rules Suc)+
qed (simp add: page_rules)

lemma pages_name [page_rules]: "pages n (copy_name a) n"
  unfolding copy_name_def by (rule pages_intro page_rules pages_string)+

lemma pages_walk [page_rules]: "pages n (walk strict prev inode ts) n"
proof (induction ts arbitrary: prev inode)
  case (Cons t ts)
  show ?case unfolding walk.simps by (rule pages_intro page_rules Cons)+
qed (simp add: page_rules)

lemma pages_finish [page_rules]: "pages n (finish_path d a) (Suc (Suc n))"
  unfolding finish_path_def by (rule pages_intro page_rules)+

lemma pages_add [page_rules]: "pages n (add_current name sec) n" "pages n (inode_sector_of p) n" "pages n (dir_sector_of d) n"
  unfolding add_current_def inode_sector_of_def dir_sector_of_def by (rule pages_intro page_rules)+

lemma pages_make_dir [page_rules]: "pages n (make_dir name sec) n"
  unfolding make_dir_def by (rule pages_intro page_rules)+

lemma pages_add_dots: "pages n parent n \<Longrightarrow> pages n (add_dots p sec parent) n"
  unfolding add_dots_def by (rule pages_intro page_rules | assumption)+

lemma pages_mkdir [page_rules]: "pages n (mkdir_absolute name sec) n" "pages n (mkdir_relative name sec) n"
  unfolding mkdir_absolute_def mkdir_relative_def by (rule pages_intro pages_add_dots pages_bind page_rules)+

lemma pages_install [page_rules]: "pages n (install_fd f) n"
  unfolding install_fd_def by (rule pages_intro page_rules)+

lemma pages_open [page_rules]: "pages n (open_path name) (Suc (Suc n))"
  unfolding open_path_def by (rule pages_intro page_rules)+

lemma pages_open_name [page_rules]: "pages (Suc n) (open_name name) (Suc (Suc n))"
  unfolding open_name_def by (rule pages_intro page_rules)+





























end
