(* ===== verification/Palloc.thy ===== *)
theory Palloc
  imports Bitmap Vaddr "HOL-Library.Multiset"
begin

text \<open>
  The page allocator (\<open>src/threads/palloc.c\<close>, \<open>src/threads/palloc.h\<close>): two pools of pages with
  a bitmap of the used ones, from which runs of contiguous pages are taken and to which they
  return. Kernel memory is a map from page addresses to the 1024 words of the page; a null
  pointer is the address 0.

  The bitmaps are values of the pools; the pages in front of a pool that hold its bitmap in the
  running kernel are outside the pool's own pages. The pool lock is taken and released around
  the scan only, so an operation is one step here.
\<close>

section \<open>Pools\<close>

type_synonym memory = "u32 \<Rightarrow> u32 list"

record pool =
  used_map :: bitmap
  pool_base :: u32

record pmem =
  kernel_pool :: pool
  user_pool :: pool
  mem :: memory

definition PAL_ASSERT :: u32 where "PAL_ASSERT = 1"
definition PAL_ZERO :: u32 where "PAL_ZERO = 2"
definition PAL_USER :: u32 where "PAL_USER = 4"

text \<open>\<open>memset (pages, byte, PGSIZE * page_cnt)\<close>, the byte repeated four times in the word \<open>w\<close>.\<close>

fun memset_pages :: "memory \<Rightarrow> u32 \<Rightarrow> nat \<Rightarrow> u32 \<Rightarrow> memory" where
  "memset_pages m p 0 w = m"
| "memset_pages m p (Suc n) w = memset_pages (m(p := replicate 1024 w)) (p + 4096) n w"

text \<open>
  \<open>init_pool\<close> places the bitmap at \<open>base\<close>: after its header of two words come the elements, in
  whatever state the memory is.
\<close>

definition page_words :: "memory \<Rightarrow> u32 \<Rightarrow> nat \<Rightarrow> u32 list" where
  "page_words m p n = concat (map (\<lambda>i. m (p + of_nat (4096 * i))) [0..<n])"

definition init_pool :: "memory \<Rightarrow> u32 \<Rightarrow> nat \<Rightarrow> pool res" where
  "init_pool m base page_cnt =
     (let bm_pages = size_wrap (bitmap_buf_size page_cnt + PGSIZE - 1) div PGSIZE
      in rguard Panic (bm_pages \<le> page_cnt)
       (let page_cnt' = page_cnt - bm_pages;
            elems = take (elem_cnt page_cnt') (drop 2 (page_words m base bm_pages))
        in rbind (bitmap_create_in_buf page_cnt' elems (size_wrap (bm_pages * PGSIZE))) (\<lambda>b.
          Inr \<lparr>used_map = b, pool_base = base + of_nat (bm_pages * PGSIZE)\<rparr>)))"

definition palloc_init :: "u32 \<Rightarrow> nat \<Rightarrow> nat \<Rightarrow> memory \<Rightarrow> pmem res" where
  "palloc_init kernel_end ram_pages user_page_limit m =
     (let free_start = pg_round_up kernel_end
      in rbind (ptov (of_nat (ram_pages * PGSIZE))) (\<lambda>free_end.
       let free_pages = nat (u32_of (sint (free_end - free_start) sdiv 4096));
           half = free_pages div 2;
           user_pages = (if half > user_page_limit then user_page_limit else half);
           kernel_pages = free_pages - user_pages
       in rbind (init_pool m free_start kernel_pages) (\<lambda>kp.
          rbind (init_pool m (free_start + of_nat (kernel_pages * PGSIZE)) user_pages) (\<lambda>up.
            Inr \<lparr>kernel_pool = kp, user_pool = up, mem = m\<rparr>))))"

definition page_from_pool :: "pool \<Rightarrow> u32 \<Rightarrow> bool" where
  "page_from_pool p page =
     (let page_no = unat (pg_no page); start_page = unat (pg_no (pool_base p));
          end_page = size_wrap (start_page + bitmap_size (used_map p))
      in page_no \<ge> start_page \<and> page_no < end_page)"

definition set_used :: "bool \<Rightarrow> bitmap \<Rightarrow> pmem \<Rightarrow> pmem" where
  "set_used user b s =
     (if user then s\<lparr>user_pool := (user_pool s)\<lparr>used_map := b\<rparr>\<rparr>
      else s\<lparr>kernel_pool := (kernel_pool s)\<lparr>used_map := b\<rparr>\<rparr>)"

definition get_pool :: "bool \<Rightarrow> pmem \<Rightarrow> pool" where
  "get_pool user s = (if user then user_pool s else kernel_pool s)"

definition palloc_get_multiple :: "u32 \<Rightarrow> nat \<Rightarrow> pmem \<Rightarrow> (u32 \<times> pmem) res" where
  "palloc_get_multiple flags page_cnt s =
     (let user = (flags AND PAL_USER \<noteq> 0); pool = get_pool user s
      in if page_cnt = 0 then Inr (0, s)
      else rbind (bitmap_scan_and_flip (used_map pool) 0 page_cnt False) (\<lambda>(b, page_idx).
        let s' = set_used user b s;
            pages = (if page_idx \<noteq> BITMAP_ERROR then pool_base pool + of_nat (PGSIZE * page_idx) else 0)
        in if pages \<noteq> 0
           then Inr (pages, if flags AND PAL_ZERO \<noteq> 0 then s'\<lparr>mem := memset_pages (mem s') pages page_cnt 0\<rparr> else s')
           else rguard Panic (flags AND PAL_ASSERT = 0) (Inr (pages, s'))))"

definition palloc_get_page :: "u32 \<Rightarrow> pmem \<Rightarrow> (u32 \<times> pmem) res" where
  "palloc_get_page flags s = palloc_get_multiple flags 1 s"

definition palloc_free_multiple :: "u32 \<Rightarrow> nat \<Rightarrow> pmem \<Rightarrow> pmem res" where
  "palloc_free_multiple pages page_cnt s = kassert (pg_ofs pages = 0)
     (if pages = 0 \<or> page_cnt = 0 then Inr s
      else let user = (\<not> page_from_pool (kernel_pool s) pages); pool = get_pool user s
      in rguard Panic (user \<longrightarrow> page_from_pool (user_pool s) pages)
       (let page_idx = unat (pg_no pages - pg_no (pool_base pool));
            s' = s\<lparr>mem := memset_pages (mem s) pages page_cnt 0xcccccccc\<rparr>
        in rbind (bitmap_all (used_map pool) page_idx page_cnt) (\<lambda>all. kassert all
          (rbind (bitmap_set_multiple (used_map pool) page_idx page_cnt False) (\<lambda>b.
            Inr (set_used user b s'))))))"

definition palloc_free_page :: "u32 \<Rightarrow> pmem \<Rightarrow> pmem res" where
  "palloc_free_page page s = palloc_free_multiple page 1 s"

section \<open>Allocated pages\<close>

text \<open>A pool lies page-aligned in kernel memory; the two pools do not overlap.\<close>

definition pool_inv :: "pool \<Rightarrow> bool" where
  "pool_inv p \<longleftrightarrow> bitmap_inv (used_map p) \<and> pg_ofs (pool_base p) = 0 \<and> PHYS_BASE \<le> pool_base p
     \<and> unat (pool_base p) + 4096 * bit_cnt (used_map p) < 2 ^ 32"

definition page_run :: "u32 \<Rightarrow> nat \<Rightarrow> u32 set" where
  "page_run p n = (\<lambda>i. p + of_nat (4096 * i)) ` {..<n}"

definition pool_pages :: "pool \<Rightarrow> u32 set" where
  "pool_pages p = page_run (pool_base p) (bit_cnt (used_map p))"

definition pool_used :: "pool \<Rightarrow> u32 set" where
  "pool_used p = (\<lambda>i. pool_base p + of_nat (4096 * i)) ` {i. i < bit_cnt (used_map p) \<and> bitmap_bit (used_map p) i}"

definition allocated :: "pmem \<Rightarrow> u32 set" where
  "allocated s = pool_used (kernel_pool s) \<union> pool_used (user_pool s)"

definition palloc_inv :: "pmem \<Rightarrow> bool" where
  "palloc_inv s \<longleftrightarrow> pool_inv (kernel_pool s) \<and> pool_inv (user_pool s)
     \<and> pool_pages (kernel_pool s) \<inter> pool_pages (user_pool s) = {}"

section \<open>Page addresses\<close>

lemma unat_page:
  assumes "unat p + 4096 * n < 2 ^ 32" "i \<le> n"
  shows "unat (p + of_nat (4096 * i) :: u32) = unat p + 4096 * i"
proof -
  have b: "4096 * i < 2 ^ LENGTH(32)" using assms by simp
  then have "unat (of_nat (4096 * i) :: u32) = 4096 * i"
    by (simp only: unsigned_of_nat take_bit_nat_eq_self of_nat_id)
  then show ?thesis using assms unat_add_lem [of p "of_nat (4096 * i)"] by simp
qed

lemma page_inj:
  assumes "unat p + 4096 * n < 2 ^ 32"
  shows "inj_on (\<lambda>i. p + of_nat (4096 * i) :: u32) {..n}"
proof (rule inj_onI)
  fix i j
  assume "i \<in> {..n}" "j \<in> {..n}" "p + of_nat (4096 * i) = p + of_nat (4096 * j)"
  then have "unat p + 4096 * i = unat p + 4096 * j" using unat_page [OF assms] by (metis atMost_iff)
  then show "i = j" by simp
qed

lemma pg_ofs_page:
  assumes "unat p + 4096 * n < 2 ^ 32" "i \<le> n" "pg_ofs p = 0"
  shows "pg_ofs (p + of_nat (4096 * i)) = 0"
  using assms(3) unfolding pg_ofs_0 unat_page [OF assms(1,2)] by simp

lemma pg_no_page:
  assumes "unat p + 4096 * n < 2 ^ 32" "i \<le> n" "pg_ofs p = 0"
  shows "unat (pg_no (p + of_nat (4096 * i))) = unat (pg_no p) + i"
  unfolding pg_no_unat unat_page [OF assms(1,2)] by simp

lemma page_run_Suc: "page_run p (Suc n) = insert p (page_run (p + 4096) n)"
proof -
  have "page_run p (Suc n) = insert p ((\<lambda>i. p + of_nat (4096 * Suc i)) ` {..<n})"
    unfolding page_run_def lessThan_Suc_eq_insert_0 image_insert image_image by simp
  then show ?thesis unfolding page_run_def by (simp add: add.assoc)
qed

lemma page_run_0 [simp]: "page_run p 0 = {}"
  by (simp add: page_run_def)

lemma page_run_1 [simp]: "page_run p (Suc 0) = {p}"
  by (simp add: page_run_Suc)

lemma memset_pages_apply:
  "memset_pages m p n w q = (if q \<in> page_run p n then replicate 1024 w else m q)"
  by (induction n arbitrary: m p) (simp_all add: page_run_Suc)

lemma page_run_shift: "page_run (p + of_nat (4096 * i)) n = (\<lambda>j. p + of_nat (4096 * j)) ` {i..<i + n}"
proof -
  have "(\<lambda>j. p + of_nat (4096 * j) :: u32) ` ((\<lambda>k. i + k) ` {..<n}) = page_run (p + of_nat (4096 * i)) n"
    unfolding page_run_def image_image by (simp add: algebra_simps)
  moreover have "(\<lambda>k. i + k) ` {..<n} = {i..<i + n}"
    by (metis add.commute image_add_atLeastLessThan lessThan_atLeast0 add_0_right)
  ultimately show ?thesis by simp
qed

lemma card_page_run:
  assumes "unat p + 4096 * n < 2 ^ 32"
  shows "card (page_run p n) = n"
  unfolding page_run_def by (subst card_image [OF inj_on_subset [OF page_inj [OF assms]]]) auto

section \<open>Pools as sets of pages\<close>

lemma pool_run:
  assumes "pool_inv p" "i + n \<le> bit_cnt (used_map p)"
  shows "page_run (pool_base p + of_nat (4096 * i)) n \<subseteq> pool_pages p"
  unfolding page_run_shift pool_pages_def using assms(2) by (auto simp: page_run_def)

lemma pool_used_iff:
  assumes "pool_inv p" "i < bit_cnt (used_map p)"
  shows "pool_base p + of_nat (4096 * i) \<in> pool_used p \<longleftrightarrow> bitmap_bit (used_map p) i"
proof -
  have "inj_on (\<lambda>i. pool_base p + of_nat (4096 * i)) {..bit_cnt (used_map p)}"
    using assms(1) by (intro page_inj) (simp add: pool_inv_def)
  then show ?thesis unfolding pool_used_def using assms(2)
    by (subst inj_on_image_mem_iff [where B = "{..bit_cnt (used_map p)}"]) auto
qed

lemma pool_used_pages: "pool_used p \<subseteq> pool_pages p"
  unfolding pool_used_def pool_pages_def page_run_def by (intro image_mono) auto

lemma run_free_iff:
  assumes "pool_inv p" "i + n \<le> bit_cnt (used_map p)"
  shows "run_at (used_map p) i n False \<longleftrightarrow> page_run (pool_base p + of_nat (4096 * i)) n \<inter> pool_used p = {}"
proof -
  have "page_run (pool_base p + of_nat (4096 * i)) n \<inter> pool_used p = {}
      \<longleftrightarrow> (\<forall>j\<in>{i..<i + n}. pool_base p + of_nat (4096 * j) \<notin> pool_used p)"
    unfolding page_run_shift by blast
  also have "\<dots> \<longleftrightarrow> (\<forall>j\<in>{i..<i + n}. \<not> bitmap_bit (used_map p) j)"
    using pool_used_iff [OF assms(1)] assms(2) by (intro ball_cong) auto
  finally show ?thesis unfolding run_at_def using assms(2) by auto
qed

text \<open>Setting a run of bits adds its pages, clearing it removes them.\<close>

lemma pool_used_overwrite:
  assumes "pool_inv p" "i + n \<le> bit_cnt (used_map p)" "bitmap_inv b" "bit_cnt b = bit_cnt (used_map p)"
    and "bitmap_bits b = overwrite (bitmap_bits (used_map p)) i (replicate n v)"
  shows "pool_inv (p\<lparr>used_map := b\<rparr>)" "pool_pages (p\<lparr>used_map := b\<rparr>) = pool_pages p"
    and "pool_used (p\<lparr>used_map := b\<rparr>) = (if v then pool_used p \<union> page_run (pool_base p + of_nat (4096 * i)) n
           else pool_used p - page_run (pool_base p + of_nat (4096 * i)) n)"
proof -
  show "pool_inv (p\<lparr>used_map := b\<rparr>)" "pool_pages (p\<lparr>used_map := b\<rparr>) = pool_pages p"
    using assms(1,3,4) by (simp_all add: pool_inv_def pool_pages_def)
  let ?N = "bit_cnt (used_map p)" and ?f = "\<lambda>i. pool_base p + of_nat (4096 * i)"
  have bit: "bitmap_bit b j = (if i \<le> j \<and> j < i + n then v else bitmap_bit (used_map p) j)" if "j < ?N" for j
    using arg_cong [OF assms(5), of "\<lambda>l. l ! j"] that assms(2,4)
    by (cases "i \<le> j \<and> j < i + n") (auto simp: nth_overwrite)
  have "inj_on ?f {..<?N}" using assms(1) by (intro inj_on_subset [OF page_inj [of _ ?N]]) (auto simp: pool_inv_def)
  note img = inj_on_image_set_diff [OF this]
  let ?U = "{j. j < ?N \<and> bitmap_bit (used_map p) j}"
  show "pool_used (p\<lparr>used_map := b\<rparr>) = (if v then pool_used p \<union> page_run (?f i) n else pool_used p - page_run (?f i) n)"
  proof (cases v)
    case True
    then have "{j. j < ?N \<and> bitmap_bit b j} = ?U \<union> {i..<i + n}" using bit assms(2) by auto
    then show ?thesis using True assms(4) unfolding page_run_shift pool_used_def by (simp add: image_Un)
  next
    case False
    then have "{j. j < ?N \<and> bitmap_bit b j} = ?U - {i..<i + n}" using bit by (auto split: if_splits)
    moreover have "?f ` (?U - {i..<i + n}) = ?f ` ?U - ?f ` {i..<i + n}" using assms(2) by (intro img) auto
    ultimately show ?thesis using False assms(4) unfolding page_run_shift pool_used_def by simp
  qed
qed

section \<open>Taking and returning pages\<close>

text \<open>\<open>block\<close>: \<open>p\<close> is the address of \<open>n\<close> pages inside the pool.\<close>

definition block :: "pool \<Rightarrow> u32 \<Rightarrow> nat \<Rightarrow> bool" where
  "block pool p n \<longleftrightarrow> (\<exists>i. i + n \<le> bit_cnt (used_map pool) \<and> p = pool_base pool + of_nat (4096 * i))"

definition same_pools :: "pmem \<Rightarrow> pmem \<Rightarrow> bool" where
  "same_pools s s' \<longleftrightarrow> (\<forall>u. pool_base (get_pool u s') = pool_base (get_pool u s)
     \<and> bit_cnt (used_map (get_pool u s')) = bit_cnt (used_map (get_pool u s)))"

lemma same_pools_block: "same_pools s s' \<Longrightarrow> block (get_pool u s') p n = block (get_pool u s) p n"
  by (simp add: same_pools_def block_def)

lemma get_pool_set_used:
  "get_pool user (set_used user b s) = (get_pool user s)\<lparr>used_map := b\<rparr>"
  "get_pool (\<not> user) (set_used user b s) = get_pool (\<not> user) s"
  "mem (set_used user b s) = mem s"
  by (simp_all add: get_pool_def set_used_def)

lemma allocated_pools: "allocated s = pool_used (get_pool user s) \<union> pool_used (get_pool (\<not> user) s)"
  by (auto simp: allocated_def get_pool_def)

lemma palloc_inv_pools: "palloc_inv s \<longleftrightarrow> pool_inv (get_pool user s) \<and> pool_inv (get_pool (\<not> user) s)
    \<and> pool_pages (get_pool user s) \<inter> pool_pages (get_pool (\<not> user) s) = {}"
  by (auto simp: palloc_inv_def get_pool_def)

lemma set_used_run:
  assumes "palloc_inv s" "i + n \<le> bit_cnt (used_map (get_pool user s))" "bitmap_inv b"
    and "bit_cnt b = bit_cnt (used_map (get_pool user s))"
    and "bitmap_bits b = overwrite (bitmap_bits (used_map (get_pool user s))) i (replicate n v)"
  defines "run \<equiv> page_run (pool_base (get_pool user s) + of_nat (4096 * i)) n"
  shows "palloc_inv (set_used user b s)"
    "allocated (set_used user b s) = (if v then allocated s \<union> run else allocated s - run)"
    "same_pools s (set_used user b s)"
proof -
  have inv: "pool_inv (get_pool user s)" "pool_inv (get_pool (\<not> user) s)"
    and disj: "pool_pages (get_pool user s) \<inter> pool_pages (get_pool (\<not> user) s) = {}"
    using assms(1) unfolding palloc_inv_pools [of s user] by auto
  note o = pool_used_overwrite [OF inv(1) assms(2-5), folded run_def]
  show "palloc_inv (set_used user b s)"
    unfolding palloc_inv_pools [of _ user] get_pool_set_used using o(1,2) inv disj by simp
  have "run \<inter> pool_used (get_pool (\<not> user) s) = {}"
    using pool_run [OF inv(1) assms(2), folded run_def] pool_used_pages [of "get_pool (\<not> user) s"] disj by blast
  then show "allocated (set_used user b s) = (if v then allocated s \<union> run else allocated s - run)"
    unfolding allocated_pools [of _ user] get_pool_set_used o(3) by auto
  show "same_pools s (set_used user b s)"
    unfolding same_pools_def using assms(4) by (auto simp: get_pool_def set_used_def)
qed

lemma page_from_pool_iff:
  assumes "pool_inv p" "pg_ofs q = 0"
  shows "page_from_pool p q \<longleftrightarrow> q \<in> pool_pages p"
proof -
  have lim: "unat (pool_base p) + 4096 * bit_cnt (used_map p) < 2 ^ 32" "pg_ofs (pool_base p) = 0"
    using assms(1) by (auto simp: pool_inv_def)
  have w: "size_wrap (unat (pg_no (pool_base p)) + bitmap_size (used_map p)) = unat (pg_no (pool_base p)) + bit_cnt (used_map p)"
    using lim(1) unfolding pg_no_unat bitmap_size_def by (intro size_wrap_id) linarith
  show ?thesis
  proof
    assume "q \<in> pool_pages p"
    then obtain i where "i < bit_cnt (used_map p)" "q = pool_base p + of_nat (4096 * i)"
      by (auto simp: pool_pages_def page_run_def)
    then show "page_from_pool p q"
      using pg_no_page [OF lim(1) _ lim(2), of i] unfolding page_from_pool_def Let_def w by simp
  next
    assume "page_from_pool p q"
    then have a: "unat (pg_no (pool_base p)) \<le> unat (pg_no q)" "unat (pg_no q) < unat (pg_no (pool_base p)) + bit_cnt (used_map p)"
      unfolding page_from_pool_def Let_def w by auto
    define i where "i = unat (pg_no q) - unat (pg_no (pool_base p))"
    have i: "i < bit_cnt (used_map p)" using a by (simp add: i_def)
    have "unat q = unat (pg_no q) * 4096" "unat (pool_base p) = unat (pg_no (pool_base p)) * 4096"
      using assms(2) lim(2) unfolding pg_ofs_0 pg_no_unat by auto
    then have "unat q = unat (pool_base p) + 4096 * i" using a by (simp add: i_def)
    also have "\<dots> = unat (pool_base p + of_nat (4096 * i))" using unat_page [OF lim(1)] i by simp
    finally have "q = pool_base p + of_nat (4096 * i)" by (rule word_unat_eq_iff [THEN iffD2])
    then show "q \<in> pool_pages p" unfolding pool_pages_def page_run_def using i by blast
  qed
qed

lemma mem_update_simps [simp]:
  "get_pool u (s\<lparr>mem := m\<rparr>) = get_pool u s" "allocated (s\<lparr>mem := m\<rparr>) = allocated s"
  "palloc_inv (s\<lparr>mem := m\<rparr>) = palloc_inv s"
  by (simp_all add: get_pool_def allocated_def palloc_inv_def)

lemma block_nonnull:
  assumes "pool_inv pool" "block pool p n"
  shows "p \<noteq> 0" "PHYS_BASE \<le> p" "pg_ofs p = 0" "unat p + 4096 * n < 2 ^ 32"
proof -
  obtain i where i: "i + n \<le> bit_cnt (used_map pool)" "p = pool_base pool + of_nat (4096 * i)"
    using assms(2) by (auto simp: block_def)
  have lim: "unat (pool_base pool) + 4096 * bit_cnt (used_map pool) < 2 ^ 32" "pg_ofs (pool_base pool) = 0"
      "unat PHYS_BASE \<le> unat (pool_base pool)"
    using assms(1) by (auto simp: pool_inv_def word_le_nat_alt)
  have u: "unat p = unat (pool_base pool) + 4096 * i" using unat_page [OF lim(1), of i] i by simp
  then have "unat PHYS_BASE \<le> unat p" using lim(3) by simp
  then show "PHYS_BASE \<le> p" by (simp add: word_le_nat_alt)
  then show "p \<noteq> 0" by (auto simp: PHYS_BASE_def)
  show "pg_ofs p = 0" unfolding i(2) using pg_ofs_page [OF lim(1) _ lim(2)] i(1) by simp
  show "unat p + 4096 * n < 2 ^ 32" using u i lim(1) by linarith
qed

lemma run_free_pools:
  assumes "palloc_inv s" "i + n \<le> bit_cnt (used_map (get_pool user s))"
  shows "page_run (pool_base (get_pool user s) + of_nat (4096 * i)) n \<inter> allocated s = {}
    \<longleftrightarrow> run_at (used_map (get_pool user s)) i n False"
proof -
  have inv: "pool_inv (get_pool user s)" "pool_pages (get_pool user s) \<inter> pool_pages (get_pool (\<not> user) s) = {}"
    using assms(1) unfolding palloc_inv_pools [of s user] by auto
  show ?thesis
    using pool_run [OF inv(1) assms(2)] pool_used_pages [of "get_pool (\<not> user) s"] inv(2)
    unfolding run_free_iff [OF inv(1) assms(2)] allocated_pools [of s user] by blast
qed

lemma palloc_get_multiple_cases:
  fixes flags :: u32
  assumes "palloc_inv s" "0 < n"
  defines "user \<equiv> flags AND PAL_USER \<noteq> 0"
  shows "(palloc_get_multiple flags n s = (if flags AND PAL_ASSERT = 0 then Inr (0, s) else Inl Panic)
           \<and> (\<forall>p. block (get_pool user s) p n \<longrightarrow> page_run p n \<inter> allocated s \<noteq> {}))
       \<or> (\<exists>p s'. palloc_get_multiple flags n s = Inr (p, s') \<and> block (get_pool user s) p n
           \<and> page_run p n \<inter> allocated s = {} \<and> allocated s' = allocated s \<union> page_run p n \<and> palloc_inv s'
           \<and> same_pools s s'
           \<and> (\<forall>q. mem s' q = (if flags AND PAL_ZERO \<noteq> 0 \<and> q \<in> page_run p n then replicate 1024 0 else mem s q)))"
proof -
  let ?P = "get_pool user s" and ?B = "used_map (get_pool user s)"
  have inv: "pool_inv ?P" using assms(1) unfolding palloc_inv_pools [of s user] by auto
  then have "bitmap_inv ?B" by (simp add: pool_inv_def)
  from bitmap_scan_and_flip_spec [OF this, of 0 n False, simplified] show ?thesis
  proof (elim disjE exE conjE)
    assume scan: "bitmap_scan_and_flip ?B 0 n False = Inr (?B, BITMAP_ERROR)"
      and none: "\<forall>k. \<not> run_at ?B k n False"
    have "set_used user ?B s = s" by (simp add: set_used_def get_pool_def)
    then have "palloc_get_multiple flags n s = (if flags AND PAL_ASSERT = 0 then Inr (0, s) else Inl Panic)"
      using scan assms(2) unfolding palloc_get_multiple_def Let_def by (fold user_def) (simp add: rguard_def)
    moreover have "\<forall>p. block ?P p n \<longrightarrow> page_run p n \<inter> allocated s \<noteq> {}"
      using none run_free_pools [OF assms(1)] by (auto simp: block_def)
    ultimately show ?thesis by blast
  next
    fix b i
    assume scan: "bitmap_scan_and_flip ?B 0 n False = Inr (b, i)" "i \<noteq> BITMAP_ERROR"
      and run: "run_at ?B i n False" and b: "bitmap_inv b" "bit_cnt b = bit_cnt ?B"
        "bitmap_bits b = overwrite (bitmap_bits ?B) i (replicate n True)"
    define p where "p = pool_base ?P + of_nat (4096 * i)"
    define s' where "s' = set_used user b s"
    have i: "i + n \<le> bit_cnt ?B" using run by (simp add: run_at_def)
    have bl: "block ?P p n" using i by (auto simp: block_def p_def)
    note set = set_used_run [OF assms(1) i b, folded p_def s'_def, simplified]
    have get: "palloc_get_multiple flags n s = Inr (p, if flags AND PAL_ZERO \<noteq> 0 then s'\<lparr>mem := memset_pages (mem s') p n 0\<rparr> else s')"
      using scan assms(2) block_nonnull(1) [OF inv bl] unfolding palloc_get_multiple_def Let_def PGSIZE_def
      by (fold user_def) (simp add: s'_def p_def)
    have fresh: "page_run p n \<inter> allocated s = {}" using run run_free_pools [OF assms(1) i] by (simp add: p_def)
    have mem': "mem s' = mem s" by (simp add: s'_def get_pool_set_used)
    show ?thesis
      by (rule disjI2, rule exI [of _ p], rule exI, intro conjI, rule get)
        (use bl fresh set mem' in \<open>auto simp: memset_pages_apply same_pools_def\<close>)
  qed
qed

lemma palloc_free_multiple_spec:
  assumes "palloc_inv s" "0 < n" "block (get_pool user s) p n" "page_run p n \<subseteq> allocated s"
  shows "\<exists>s'. palloc_free_multiple p n s = Inr s' \<and> allocated s' = allocated s - page_run p n \<and> palloc_inv s'
    \<and> same_pools s s'
    \<and> (\<forall>q. mem s' q = (if q \<in> page_run p n then replicate 1024 0xcccccccc else mem s q))"
proof -
  let ?P = "get_pool user s" and ?B = "used_map (get_pool user s)"
  have inv: "pool_inv ?P" "pool_pages ?P \<inter> pool_pages (get_pool (\<not> user) s) = {}" "pool_inv (kernel_pool s)" "pool_inv (user_pool s)"
    using assms(1) unfolding palloc_inv_pools [of s user] by (auto simp: get_pool_def split: if_splits)
  obtain i where i: "i + n \<le> bit_cnt ?B" and p: "p = pool_base ?P + of_nat (4096 * i)"
    using assms(3) by (auto simp: block_def)
  note bl = block_nonnull [OF inv(1) assms(3)]
  have lim: "unat (pool_base ?P) + 4096 * bit_cnt ?B < 2 ^ 32" "pg_ofs (pool_base ?P) = 0" "bitmap_inv ?B"
    using inv(1) by (auto simp: pool_inv_def)
  have inp: "p \<in> pool_pages ?P"
    using pool_run [OF inv(1) i] assms(2) unfolding p by (auto simp: page_run_def)
  then have which: "(\<not> page_from_pool (kernel_pool s) p) = user" "user \<Longrightarrow> page_from_pool (user_pool s) p"
    using inv(2) unfolding page_from_pool_iff [OF inv(3) bl(3)] page_from_pool_iff [OF inv(4) bl(3)]
    by (auto simp: get_pool_def split: if_splits)
  have "unat (pg_no p) = unat (pg_no (pool_base ?P)) + i" using pg_no_page [OF lim(1) _ lim(2), of i] i p by simp
  then have idx: "unat (pg_no p - pg_no (pool_base ?P)) = i" by (subst unat_sub) (simp_all add: word_le_nat_alt)
  have "bitmap_bit ?B j" if "i \<le> j" "j < i + n" for j
  proof -
    have q: "pool_base ?P + of_nat (4096 * j) \<in> page_run p n" unfolding p page_run_shift using that by auto
    then have "pool_base ?P + of_nat (4096 * j) \<notin> pool_used (get_pool (\<not> user) s)"
      using pool_run [OF inv(1) i] inv(2) pool_used_pages [of "get_pool (\<not> user) s"] unfolding p by blast
    then show ?thesis using q assms(4) pool_used_iff [OF inv(1), of j] that i unfolding allocated_pools [of s user] by auto
  qed
  then have all: "bitmap_all ?B i n = Inr True" unfolding bitmap_all_spec [OF lim(3) i] by simp
  obtain b where b: "bitmap_set_multiple ?B i n False = Inr b" "bitmap_inv b" "bit_cnt b = bit_cnt ?B"
      "bitmap_bits b = overwrite (bitmap_bits ?B) i (replicate n False)"
    using bitmap_set_multiple_spec [OF lim(3) i, of False] by blast
  define s1 where "s1 = s\<lparr>mem := memset_pages (mem s) p n 0xcccccccc\<rparr>"
  have r: "palloc_free_multiple p n s = Inr (set_used user b s1)"
    using bl assms(2) which unfolding palloc_free_multiple_def Let_def which(1) idx all by (simp add: b s1_def)
  have s1: "palloc_inv s1" "get_pool u s1 = get_pool u s" "allocated s1 = allocated s" for u using assms(1) by (simp_all add: s1_def)
  have fin: "palloc_inv (set_used user b s1)" "allocated (set_used user b s1) = allocated s - page_run p n"
      "same_pools s (set_used user b s1)"
    using set_used_run [OF s1(1), of i n user b False, unfolded s1, folded p, OF i b(2-4)] by (simp_all add: same_pools_def s1(2))
  have "\<forall>q. mem (set_used user b s1) q = (if q \<in> page_run p n then replicate 1024 0xcccccccc else mem s q)"
    by (simp add: get_pool_set_used s1_def memset_pages_apply)
  with r fin show ?thesis by blast
qed

section \<open>A source of pages\<close>

text \<open>
  What the users of single pages rely on: a page that is handed out was not handed out before,
  a null pointer changes nothing, and a page that was handed out can be returned.
\<close>

locale page_source =
  fixes get :: "'s \<Rightarrow> (u32 \<times> 's) res" and free :: "u32 \<Rightarrow> 's \<Rightarrow> 's res"
    and alloc :: "'s \<Rightarrow> u32 set" and inv :: "'s \<Rightarrow> bool"
  assumes get_fresh: "inv s \<Longrightarrow> get s = Inr (p, s') \<Longrightarrow> p \<noteq> 0 \<Longrightarrow> p \<notin> alloc s \<and> alloc s' = insert p (alloc s) \<and> inv s'"
    and get_null: "inv s \<Longrightarrow> get s = Inr (0, s') \<Longrightarrow> s' = s"
    and free_returns: "inv s \<Longrightarrow> p \<in> alloc s \<Longrightarrow> \<exists>s'. free p s = Inr s' \<and> alloc s' = alloc s - {p} \<and> inv s'"
    and alloc_nonnull: "inv s \<Longrightarrow> p \<in> alloc s \<Longrightarrow> p \<noteq> 0"

fun get_pages :: "('s \<Rightarrow> (u32 \<times> 's) res) \<Rightarrow> nat \<Rightarrow> 's \<Rightarrow> (u32 list \<times> 's) res" where
  "get_pages get 0 s = Inr ([], s)"
| "get_pages get (Suc n) s = rbind (get s) (\<lambda>(p, s1).
     if p = 0 then Inr ([], s1) else rbind (get_pages get n s1) (\<lambda>(ps, s2). Inr (p # ps, s2)))"

fun free_pages :: "(u32 \<Rightarrow> 's \<Rightarrow> 's res) \<Rightarrow> u32 list \<Rightarrow> 's \<Rightarrow> 's res" where
  "free_pages free [] s = Inr s"
| "free_pages free (p # ps) s = rbind (free p s) (free_pages free ps)"

context page_source
begin

lemma get_pages_fresh:
  assumes "inv s" "get_pages get n s = Inr (ps, s')"
  shows "distinct ps \<and> set ps \<inter> alloc s = {} \<and> alloc s' = set ps \<union> alloc s \<and> inv s'"
  using assms
proof (induction n arbitrary: s ps)
  case (Suc n)
  then obtain p s1 where g: "get s = Inr (p, s1)" by auto
  show ?case
  proof (cases "p = 0")
    case True
    with Suc.prems g get_null [of s s1] show ?thesis by simp
  next
    case False
    with g Suc.prems obtain qs where q: "get_pages get n s1 = Inr (qs, s')" "ps = p # qs" by auto
    have f: "p \<notin> alloc s" "alloc s1 = insert p (alloc s)" "inv s1" using get_fresh [OF Suc.prems(1) g False] by auto
    from Suc.IH [OF f(3) q(1)] show ?thesis using f(1) unfolding q(2) f(2) by auto
  qed
qed simp

lemma free_pages_returns:
  assumes "inv s" "distinct ps" "set ps \<subseteq> alloc s"
  shows "\<exists>s'. free_pages free ps s = Inr s' \<and> alloc s' = alloc s - set ps \<and> inv s'"
  using assms
proof (induction ps arbitrary: s)
  case (Cons p ps)
  then obtain s1 where f: "free p s = Inr s1" "alloc s1 = alloc s - {p}" "inv s1"
    using free_returns [of s p] by auto
  have "set ps \<subseteq> alloc s1" using Cons.prems(2,3) unfolding f(2) by auto
  then obtain s' where "free_pages free ps s1 = Inr s'" "alloc s' = alloc s1 - set ps" "inv s'"
    using Cons.IH [OF f(3)] Cons.prems(2) by auto
  then show ?case using f(1,2) by auto
qed simp

lemma get_then_free:
  assumes "inv s" "get_pages get n s = Inr (ps, s')" "mset qs = mset ps"
  shows "\<exists>s''. free_pages free qs s' = Inr s'' \<and> alloc s'' = alloc s"
proof -
  from get_pages_fresh [OF assms(1,2)] have f: "distinct ps" "set ps \<inter> alloc s = {}" "alloc s' = set ps \<union> alloc s" "inv s'"
    by auto
  have q: "set qs = set ps" "distinct qs" using assms(3) f(1) by (metis set_mset_mset, metis mset_eq_imp_distinct_iff)
  then show ?thesis using free_pages_returns [OF f(4), of qs] f(2,3) by auto
qed

end

lemma allocated_block: "p \<in> allocated s \<Longrightarrow> \<exists>user. block (get_pool user s) p (Suc 0)"
  unfolding allocated_def pool_used_def block_def
  by (auto simp: get_pool_def Suc_le_eq intro: exI [of _ True] exI [of _ False])

interpretation palloc: page_source "palloc_get_page flags" palloc_free_page allocated palloc_inv for flags
proof
  fix s p s'
  assume s: "palloc_inv s" and g: "palloc_get_page flags s = Inr (p, s')" and p: "p \<noteq> 0"
  show "p \<notin> allocated s \<and> allocated s' = insert p (allocated s) \<and> palloc_inv s'"
    using palloc_get_multiple_cases [OF s, of 1 flags] g p by (auto simp: palloc_get_page_def split: if_splits)
next
  fix s s'
  assume s: "palloc_inv s" and g: "palloc_get_page flags s = Inr (0, s')"
  have "pool_inv (get_pool user s)" for user using s by (auto simp: palloc_inv_def get_pool_def)
  then show "s' = s" using palloc_get_multiple_cases [OF s, of 1 flags] g block_nonnull(1)
    by (auto simp: palloc_get_page_def split: if_splits)
next
  fix s p
  assume s: "palloc_inv s" and p: "p \<in> allocated s"
  then obtain user where b: "block (get_pool user s) p (Suc 0)" using allocated_block by blast
  then show "\<exists>s'. palloc_free_page p s = Inr s' \<and> allocated s' = allocated s - {p} \<and> palloc_inv s'"
    using palloc_free_multiple_spec [OF s _ b] p by (auto simp: palloc_free_page_def)
  show "p \<noteq> 0" using b block_nonnull(1) s by (auto simp: palloc_inv_def get_pool_def split: if_splits)
qed

section \<open>Initialization\<close>

lemma length_page_words:
  assumes "\<And>q. length (m q) = 1024"
  shows "length (page_words m p n) = 1024 * n"
  unfolding page_words_def length_concat by (simp add: assms comp_def sum_list_triv)

lemma bitmap_create_in_buf_spec:
  assumes "n + 31 < 2 ^ 32" "length elems = elem_cnt n" "bitmap_buf_size n \<le> block_size"
  shows "\<exists>b. bitmap_create_in_buf n elems block_size = Inr b \<and> bitmap_inv b \<and> bit_cnt b = n
    \<and> bitmap_bits b = replicate n False"
  using bitmap_set_all_spec [of "\<lparr>bit_cnt = n, bits = elems\<rparr>" False] assms
  by (auto simp: bitmap_create_in_buf_def bitmap_inv_def)

lemma init_pool_spec:
  assumes "pg_ofs base = 0" "PHYS_BASE \<le> base" "unat base + 4096 * page_cnt < 2 ^ 32" "0 < page_cnt"
    and "\<And>q. length (m q) = 1024"
  shows "\<exists>p. init_pool m base page_cnt = Inr p \<and> pool_inv p \<and> pool_used p = {} \<and> pool_pages p \<subseteq> page_run base page_cnt"
proof -
  have c: "page_cnt < 2 ^ 20" using assms(3) by simp
  define e where "e = (page_cnt + 31) div 32"
  have el: "elem_cnt page_cnt = e" "bitmap_buf_size page_cnt = 8 + 4 * e"
    using c unfolding e_def bitmap_buf_size_def by (simp_all add: elem_cnt_small byte_cnt_small)
  define bm where "bm = (8 + 4 * e + 4095) div 4096"
  have bm: "size_wrap (bitmap_buf_size page_cnt + PGSIZE - 1) div PGSIZE = bm"
    using c unfolding el bm_def by (simp add: PGSIZE_def e_def)
  have room: "8 + 4 * e \<le> 4096 * bm"
    using div_mult_mod_eq [of "8 + 4 * e + 4095" 4096] mod_less_divisor [of 4096 "8 + 4 * e + 4095"] unfolding bm_def by linarith
  have "e < Suc page_cnt" unfolding e_def by (rule less_mult_imp_div_less) (use assms(4) in simp)
  then have "bm < Suc page_cnt" unfolding bm_def by (intro less_mult_imp_div_less) (use assms(4) in simp)
  then have fits: "bm \<le> page_cnt" by simp
  let ?n = "page_cnt - bm"
  define elems where "elems = take (elem_cnt ?n) (drop 2 (page_words m base bm))"
  have n: "?n + 31 < 2 ^ 32" using c by simp
  have e': "elem_cnt ?n \<le> e" "bitmap_buf_size ?n \<le> 8 + 4 * e"
    using elem_cnt_small [OF n] c unfolding bitmap_buf_size_def byte_cnt_small [OF n] e_def
    by (simp_all add: div_le_mono)
  then have "length elems = elem_cnt ?n" using room unfolding elems_def by (simp add: length_page_words assms(5))
  moreover have "bitmap_buf_size ?n \<le> size_wrap (bm * PGSIZE)"
    using e'(2) room fits assms(3) by (simp add: PGSIZE_def)
  ultimately obtain b where b: "bitmap_create_in_buf ?n elems (size_wrap (bm * PGSIZE)) = Inr b" "bitmap_inv b"
      "bit_cnt b = ?n" "bitmap_bits b = replicate ?n False"
    using bitmap_create_in_buf_spec [OF n] by blast
  define p where "p = \<lparr>used_map = b, pool_base = base + of_nat (4096 * bm)\<rparr>"
  have sel: "used_map p = b" "pool_base p = base + of_nat (4096 * bm)" by (simp_all add: p_def)
  have "init_pool m base page_cnt = Inr p"
    unfolding init_pool_def Let_def bm using fits b(1) by (simp add: elems_def p_def PGSIZE_def mult.commute)
  moreover have u: "unat (pool_base p) = unat base + 4096 * bm" unfolding sel using unat_page [OF assms(3) fits] .
  then have "pool_inv p"
    using assms(1-3) fits b(2,3) pg_ofs_page [OF assms(3) fits assms(1)]
    unfolding pool_inv_def word_le_nat_alt u unfolding sel by (simp add: word_le_nat_alt)
  moreover have "\<not> bitmap_bit b i" if "i < ?n" for i
    using arg_cong [OF b(4), of "\<lambda>l. l ! i"] that b(3) by simp
  then have "pool_used p = {}" unfolding pool_used_def sel using b(3) by auto
  moreover have "pool_pages p \<subseteq> page_run base page_cnt"
    unfolding pool_pages_def sel page_run_shift b(3) unfolding page_run_def using fits by (intro image_mono) auto
  ultimately show ?thesis by blast
qed

lemma pg_ofs_round_up: "pg_ofs (pg_round_up va) = 0"
  by (simp add: pg_ofs_def pg_round_up_def bit_eq_iff bit_simps)

text \<open>The free pages as \<open>palloc_init\<close> counts them.\<close>

lemma free_page_count:
  assumes "unat fs + 4096 * k = unat fe" "k < 2 ^ 18"
  shows "nat (u32_of (sint (fe - fs :: u32) sdiv 4096)) = k"
proof -
  have "unat (fe - fs) = 4096 * k" using assms(1) by (subst unat_sub) (simp_all add: word_le_nat_alt)
  then have u: "uint (fe - fs) = 4096 * int k" by (metis of_nat_mult of_nat_numeral uint_nat)
  moreover have "sint (fe - fs) = uint (fe - fs)"
    unfolding sint_uint u using assms(2) by (intro signed_take_bit_int_eq_self) simp_all
  ultimately show ?thesis using assms(2) by (simp add: sdiv_nonneg)
qed

lemma palloc_init_inv:
  assumes "PHYS_BASE \<le> pg_round_up kernel_end" "\<And>q. length (m q) = 1024" "0 < user_page_limit"
    and "unat (pg_round_up kernel_end) + 8192 \<le> unat PHYS_BASE + 4096 * ram_pages" "ram_pages < 2 ^ 18"
  shows "\<exists>s. palloc_init kernel_end ram_pages user_page_limit m = Inr s \<and> palloc_inv s \<and> allocated s = {} \<and> mem s = m"
proof -
  define fs where "fs = pg_round_up kernel_end"
  have fs: "pg_ofs fs = 0" "PHYS_BASE \<le> fs" using assms(1) by (simp_all add: fs_def pg_ofs_round_up)
  define fe :: u32 where "fe = PHYS_BASE + of_nat (4096 * ram_pages)"
  have "unat PHYS_BASE = 0xc0000000" by (simp add: PHYS_BASE_def)
  note pb = this
  have fe: "unat fe = unat PHYS_BASE + 4096 * ram_pages"
    unfolding fe_def using assms(5) pb by (intro unat_page [of _ ram_pages]) simp_all
  have "(of_nat (4096 * ram_pages) :: u32) < PHYS_BASE"
    using assms(5) unat_page [of 0 ram_pages ram_pages] pb by (simp add: word_less_nat_alt)
  then have ptov: "ptov (of_nat (ram_pages * PGSIZE)) = Inr fe"
    by (simp add: ptov_def PGSIZE_def fe_def mult.commute add.commute)
  obtain k where k: "unat fs + 4096 * k = unat fe"
  proof -
    have "4096 dvd unat fe" unfolding fe pb by (intro dvd_add) simp_all
    moreover have "4096 dvd unat fs" using fs(1) unfolding pg_ofs_0 by auto
    ultimately have "4096 dvd unat fe - unat fs" by (rule dvd_diff_nat)
    then show ?thesis using that assms(4) fe fs_def by (metis add_leD1 dvdE le_add_diff_inverse)
  qed
  have k2: "2 \<le> k" "k < 2 ^ 18"
    using k fe assms(4,5) fs(2) unfolding fs_def word_le_nat_alt by linarith+
  define up where "up = (if k div 2 > user_page_limit then user_page_limit else k div 2)"
  have up: "0 < up" "up < k" using assms(3) k2(1) unfolding up_def by auto
  have lim: "unat fs + 4096 * k < 2 ^ 32" using k fe assms(5) pb by simp
  have ku: "k - up \<le> k" by simp
  define ub where "ub = fs + of_nat (4096 * (k - up))"
  have u: "unat ub = unat fs + 4096 * (k - up)" unfolding ub_def using unat_page [OF lim ku] .
  have lims: "unat fs + 4096 * (k - up) < 2 ^ 32" "unat ub + 4096 * up < 2 ^ 32" using lim u up by linarith+
  obtain kp where kp: "init_pool m fs (k - up) = Inr kp" "pool_inv kp" "pool_used kp = {}" "pool_pages kp \<subseteq> page_run fs (k - up)"
    using init_pool_spec [where m = m, OF fs lims(1) _ assms(2)] up by auto
  have "pg_ofs ub = 0" unfolding ub_def by (rule pg_ofs_page [OF lim ku fs(1)])
  moreover have "PHYS_BASE \<le> ub" using fs(2) u by (simp add: word_le_nat_alt)
  ultimately obtain ip where ip: "init_pool m ub up = Inr ip" "pool_inv ip" "pool_used ip = {}" "pool_pages ip \<subseteq> page_run ub up"
    using init_pool_spec [where m = m, OF _ _ lims(2) up(1) assms(2)] by blast
  let ?f = "\<lambda>i. fs + of_nat (4096 * i)"
  have runs: "page_run fs (k - up) = ?f ` {..<k - up}" "page_run ub up = ?f ` {k - up..<k - up + up}"
    unfolding ub_def page_run_shift by (simp_all add: page_run_def)
  have "?f ` {..<k - up} \<inter> ?f ` {k - up..<k - up + up} = ?f ` ({..<k - up} \<inter> {k - up..<k - up + up})"
    by (rule inj_on_image_Int [symmetric, OF page_inj [OF lim]]) (use up in auto)
  also have "\<dots> = {}" by auto
  finally have "page_run fs (k - up) \<inter> page_run ub up = {}" unfolding runs .
  then have disj: "pool_pages kp \<inter> pool_pages ip = {}" using kp(4) ip(4) by blast
  have "palloc_init kernel_end ram_pages user_page_limit m = Inr \<lparr>kernel_pool = kp, user_pool = ip, mem = m\<rparr>"
    unfolding palloc_init_def Let_def fs_def [symmetric] ptov rbind_Inr free_page_count [OF k k2(2)] up_def [symmetric] kp(1)
    using ip(1) by (simp add: ub_def PGSIZE_def mult.commute)
  then show ?thesis using kp(2,3) ip(2,3) disj by (auto simp: palloc_inv_def allocated_def)
qed

section \<open>Properties\<close>

text \<open>
  C36: \<open>palloc_get_multiple\<close> returns contiguous pages of the pool its flags name, none of which was
  handed out before, zero-filled on request, and touches no other page; it fails, with a null
  pointer or a panic as its flags say, exactly when no free run of that length is left. Returning
  the pages restores the set of allocated pages.
\<close>

theorem palloc_hands_out_fresh_pages:
  assumes "palloc_inv s" "0 < n"
  shows "(palloc_get_multiple flags n s = (if flags AND PAL_ASSERT = 0 then Inr (0, s) else Inl Panic)
           \<and> (\<forall>p. block (get_pool (flags AND PAL_USER \<noteq> 0) s) p n \<longrightarrow> page_run p n \<inter> allocated s \<noteq> {}))
       \<or> (\<exists>p s'. palloc_get_multiple flags n s = Inr (p, s') \<and> block (get_pool (flags AND PAL_USER \<noteq> 0) s) p n
           \<and> p \<noteq> 0 \<and> pg_ofs p = 0 \<and> card (page_run p n) = n
           \<and> page_run p n \<inter> allocated s = {} \<and> allocated s' = allocated s \<union> page_run p n \<and> palloc_inv s'
           \<and> (\<forall>q. mem s' q = (if flags AND PAL_ZERO \<noteq> 0 \<and> q \<in> page_run p n then replicate 1024 0 else mem s q))
           \<and> (\<exists>s''. palloc_free_multiple p n s' = Inr s'' \<and> allocated s'' = allocated s \<and> palloc_inv s''
               \<and> (\<forall>q. q \<notin> page_run p n \<longrightarrow> mem s'' q = mem s q)))"
  using palloc_get_multiple_cases [OF assms, of flags]
proof (elim disjE exE conjE)
  fix p s'
  let ?u = "flags AND PAL_USER \<noteq> 0"
  assume g: "palloc_get_multiple flags n s = Inr (p, s')" and b: "block (get_pool ?u s) p n"
    and fresh: "page_run p n \<inter> allocated s = {}" "allocated s' = allocated s \<union> page_run p n" and inv: "palloc_inv s'"
    and same: "same_pools s s'"
    and m: "\<forall>q. mem s' q = (if flags AND PAL_ZERO \<noteq> 0 \<and> q \<in> page_run p n then replicate 1024 0 else mem s q)"
  have "pool_inv (get_pool ?u s)" using assms(1) by (auto simp: palloc_inv_def get_pool_def)
  note bl = block_nonnull [OF this b]
  have "block (get_pool ?u s') p n" using b by (simp only: same_pools_block [OF same])
  then obtain s'' where f: "palloc_free_multiple p n s' = Inr s''" "allocated s'' = allocated s' - page_run p n" "palloc_inv s''"
      "\<forall>q. mem s'' q = (if q \<in> page_run p n then replicate 1024 0xcccccccc else mem s' q)"
    using palloc_free_multiple_spec [OF inv assms(2)] fresh(2) by blast
  have "allocated s'' = allocated s" using f(2) fresh by auto
  moreover have "q \<notin> page_run p n \<longrightarrow> mem s'' q = mem s q" for q using f(4) m by simp
  ultimately have r: "\<exists>s''. palloc_free_multiple p n s' = Inr s'' \<and> allocated s'' = allocated s \<and> palloc_inv s''
      \<and> (\<forall>q. q \<notin> page_run p n \<longrightarrow> mem s'' q = mem s q)" using f(1,3) by blast
  show ?thesis
    by (rule disjI2, rule exI [of _ p], rule exI [of _ s'], intro conjI g b bl(1,3) card_page_run [OF bl(4)] fresh inv m r)
qed blast

definition sample_pmem :: pmem where
  "sample_pmem = \<lparr>kernel_pool = \<lparr>used_map = \<lparr>bit_cnt = 4, bits = [0b0001]\<rparr>, pool_base = 0xc0100000\<rparr>,
     user_pool = \<lparr>used_map = \<lparr>bit_cnt = 2, bits = [0b10]\<rparr>, pool_base = 0xc0200000\<rparr>, mem = (\<lambda>p. replicate 1024 p)\<rparr>"

lemma sample_pmem_inv: "palloc_inv sample_pmem"
proof -
  have "page_run 0xc0100000 4 \<inter> page_run 0xc0200000 2 = {}"
    by (simp add: page_run_def lessThan_nat_numeral lessThan_Suc)
  then show ?thesis
    by (simp add: sample_pmem_def palloc_inv_def pool_inv_def bitmap_inv_def elem_cnt_def size_wrap_def pool_pages_def
        pg_ofs_def PGMASK_def PHYS_BASE_def)
qed

lemma pool_used_filter:
  "pool_used p = set (map (\<lambda>i. pool_base p + of_nat (4096 * i)) (filter (bitmap_bit (used_map p)) [0..<bit_cnt (used_map p)]))"
  by (auto simp: pool_used_def)

lemma sample_allocated: "allocated sample_pmem = {0xc0100000, 0xc0201000}"
proof -
  have "[0..<4] = [0, 1, 2, 3]" "[0..<2] = [0, 1]" by (simp_all add: upt_rec)
  then show ?thesis by (simp add: allocated_def pool_used_filter sample_pmem_def bitmap_bit_def bit_simps insert_commute)
qed

theorem palloc_hands_out_fresh_pages_witness:
  "\<exists>p s'. palloc_get_multiple PAL_ZERO 2 sample_pmem = Inr (p, s') \<and> allocated s' = allocated sample_pmem \<union> page_run p 2
    \<and> (\<exists>s''. palloc_free_multiple p 2 s' = Inr s'' \<and> allocated s'' = allocated sample_pmem)"
proof -
  have "block (kernel_pool sample_pmem) 0xc0101000 2"
    unfolding block_def by (rule exI [of _ 1]) (simp add: sample_pmem_def)
  moreover have "page_run 0xc0101000 2 \<inter> allocated sample_pmem = {}"
    by (simp add: sample_allocated page_run_def lessThan_nat_numeral lessThan_Suc)
  moreover have "get_pool (PAL_ZERO AND PAL_USER \<noteq> 0) sample_pmem = kernel_pool sample_pmem"
    by (simp add: get_pool_def PAL_ZERO_def PAL_USER_def)
  ultimately show ?thesis using palloc_hands_out_fresh_pages [OF sample_pmem_inv, of 2 PAL_ZERO] by auto
qed

end
