(* ===== verification/Pagedir.thy ===== *)
theory Pagedir
  imports Palloc
begin

text \<open>
  Page directories (\<open>src/userprog/pagedir.c\<close>): two-level page tables in pages of kernel memory, the
  active directory in \<open>CR3\<close> and the translations the processor has cached.

  A pointer to an entry is the address of its page and the index of the word. The translation
  look-aside buffer is a map from page addresses to the entries cached for them; loading
  \<open>CR3\<close> empties it, as the processor's manual says.
\<close>

section \<open>State\<close>

record machine =
  phys :: pmem
  base_page_dir :: u32
  ram_pages :: nat
  cr3 :: u32
  tlb :: "u32 \<rightharpoonup> u32"

definition load_word :: "u32 \<times> nat \<Rightarrow> machine \<Rightarrow> u32 res" where
  "load_word a s = (let page = mem (phys s) (fst a) in rguard PageFault (snd a < length page) (Inr (page ! snd a)))"

definition put_word :: "u32 \<times> nat \<Rightarrow> u32 \<Rightarrow> pmem \<Rightarrow> pmem" where
  "put_word a w s = s\<lparr>mem := (mem s)(fst a := (mem s (fst a))[snd a := w])\<rparr>"

definition store_word :: "u32 \<times> nat \<Rightarrow> u32 \<Rightarrow> machine \<Rightarrow> machine res" where
  "store_word a w s = rguard PageFault (snd a < length (mem (phys s) (fst a))) (Inr (s\<lparr>phys := put_word a w (phys s)\<rparr>))"

text \<open>The page allocator as the page directories call it.\<close>

definition get_page :: "u32 \<Rightarrow> machine \<Rightarrow> (u32 \<times> machine) res" where
  "get_page flags s = rbind (palloc_get_page flags (phys s)) (\<lambda>(p, m). Inr (p, s\<lparr>phys := m\<rparr>))"

definition free_page :: "u32 \<Rightarrow> machine \<Rightarrow> machine res" where
  "free_page p s = rbind (palloc_free_page p (phys s)) (\<lambda>m. Inr (s\<lparr>phys := m\<rparr>))"

section \<open>Directories\<close>

definition pagedir_create :: "machine \<Rightarrow> (u32 \<times> machine) res" where
  "pagedir_create s = rbind (get_page 0 s) (\<lambda>(pd, s1).
     if pd \<noteq> 0
     then Inr (pd, s1\<lparr>phys := (phys s1)\<lparr>mem := (mem (phys s1))(pd := mem (phys s1) (base_page_dir s1))\<rparr>\<rparr>)
     else Inr (pd, s1))"

fun destroy_pt :: "u32 \<Rightarrow> nat list \<Rightarrow> machine \<Rightarrow> machine res" where
  "destroy_pt pt [] s = Inr s"
| "destroy_pt pt (i # is) s = rbind (load_word (pt, i) s) (\<lambda>pte.
     if pte AND PTE_P \<noteq> 0
     then rbind (pte_get_page pte) (\<lambda>page. rbind (free_page page s) (destroy_pt pt is))
     else destroy_pt pt is s)"

fun destroy_pd :: "u32 \<Rightarrow> nat list \<Rightarrow> machine \<Rightarrow> machine res" where
  "destroy_pd pd [] s = Inr s"
| "destroy_pd pd (i # is) s = rbind (load_word (pd, i) s) (\<lambda>pde.
     if pde AND PTE_P \<noteq> 0
     then rbind (pde_get_pt pde) (\<lambda>pt.
       rbind (destroy_pt pt [0..<1024] s) (\<lambda>s1. rbind (free_page pt s1) (destroy_pd pd is)))
     else destroy_pd pd is s)"

definition pagedir_destroy :: "u32 \<Rightarrow> machine \<Rightarrow> machine res" where
  "pagedir_destroy pd s =
     (if pd = 0 then Inr s
      else kassert (pd \<noteq> base_page_dir s)
        (rbind (destroy_pd pd [0..<pd_no PHYS_BASE] s) (free_page pd)))"

definition lookup_page :: "u32 \<Rightarrow> u32 \<Rightarrow> bool \<Rightarrow> machine \<Rightarrow> ((u32 \<times> nat) option \<times> machine) res" where
  "lookup_page pd vaddr create s =
     kassert (pd \<noteq> 0) (kassert (create \<longrightarrow> is_user_vaddr vaddr)
       (let pde = (pd, pd_no vaddr);
            entry = (\<lambda>s. rbind (load_word pde s) (\<lambda>e. rbind (pde_get_pt e) (\<lambda>pt. Inr (Some (pt, pt_no vaddr), s))))
        in rbind (load_word pde s) (\<lambda>e.
          if e = 0
          then if create
               then rbind (get_page PAL_ZERO s) (\<lambda>(pt, s1).
                 if pt = 0 then Inr (None, s1)
                 else rbind (pde_create pt) (\<lambda>e. rbind (store_word pde e s1) entry))
               else Inr (None, s)
          else entry s)))"

definition pagedir_set_page :: "u32 \<Rightarrow> u32 \<Rightarrow> u32 \<Rightarrow> bool \<Rightarrow> machine \<Rightarrow> (bool \<times> machine) res" where
  "pagedir_set_page pd upage kpage writable s =
     kassert (pg_ofs upage = 0) (kassert (pg_ofs kpage = 0) (kassert (is_user_vaddr upage)
     (rbind (vtop kpage) (\<lambda>paddr. kassert (unat (drop_bit 12 paddr) < ram_pages s) (kassert (pd \<noteq> base_page_dir s)
       (rbind (lookup_page pd upage True s) (\<lambda>(pte, s1).
         case pte of
           Some a \<Rightarrow> rbind (load_word a s1) (\<lambda>e. kassert (e AND PTE_P = 0)
             (rbind (pte_create_user kpage writable) (\<lambda>e. rbind (store_word a e s1) (\<lambda>s2. Inr (True, s2)))))
         | None \<Rightarrow> Inr (False, s1))))))))"

definition pagedir_get_page :: "u32 \<Rightarrow> u32 \<Rightarrow> machine \<Rightarrow> u32 res" where
  "pagedir_get_page pd uaddr s = kassert (is_user_vaddr uaddr)
     (rbind (lookup_page pd uaddr False s) (\<lambda>(pte, s1).
       case pte of
         Some a \<Rightarrow> rbind (load_word a s1) (\<lambda>e.
           if e AND PTE_P \<noteq> 0 then rbind (pte_get_page e) (\<lambda>page. Inr (page + pg_ofs uaddr)) else Inr 0)
       | None \<Rightarrow> Inr 0))"

definition pagedir_activate :: "u32 \<Rightarrow> machine \<Rightarrow> machine res" where
  "pagedir_activate pd s =
     (let pd' = (if pd = 0 then base_page_dir s else pd)
      in rbind (vtop pd') (\<lambda>p. Inr (s\<lparr>cr3 := p, tlb := Map.empty\<rparr>)))"

definition active_pd :: "machine \<Rightarrow> u32 res" where
  "active_pd s = ptov (cr3 s)"

definition invalidate_pagedir :: "u32 \<Rightarrow> machine \<Rightarrow> machine res" where
  "invalidate_pagedir pd s = rbind (active_pd s) (\<lambda>a. if a = pd then pagedir_activate pd s else Inr s)"

definition pagedir_clear_page :: "u32 \<Rightarrow> u32 \<Rightarrow> machine \<Rightarrow> machine res" where
  "pagedir_clear_page pd upage s = kassert (pg_ofs upage = 0) (kassert (is_user_vaddr upage)
     (rbind (lookup_page pd upage False s) (\<lambda>(pte, s1).
       case pte of
         Some a \<Rightarrow> rbind (load_word a s1) (\<lambda>e.
           if e AND PTE_P \<noteq> 0
           then rbind (store_word a (e AND NOT PTE_P) s1) (invalidate_pagedir pd)
           else Inr s1)
       | None \<Rightarrow> Inr s1)))"

text \<open>The three flags are read and written the same way, with the bit of the flag.\<close>

definition pte_flag :: "u32 \<Rightarrow> u32 \<Rightarrow> u32 \<Rightarrow> machine \<Rightarrow> bool res" where
  "pte_flag flag pd vpage s = rbind (lookup_page pd vpage False s) (\<lambda>(pte, s1).
     case pte of Some a \<Rightarrow> rbind (load_word a s1) (\<lambda>e. Inr (e AND flag \<noteq> 0)) | None \<Rightarrow> Inr False)"

definition set_pte_flag :: "u32 \<Rightarrow> u32 \<Rightarrow> u32 \<Rightarrow> bool \<Rightarrow> machine \<Rightarrow> machine res" where
  "set_pte_flag flag pd vpage v s = rbind (lookup_page pd vpage False s) (\<lambda>(pte, s1).
     case pte of
       Some a \<Rightarrow> rbind (load_word a s1) (\<lambda>e.
         if v then store_word a (e OR flag) s1
         else rbind (store_word a (e AND NOT flag) s1) (invalidate_pagedir pd))
     | None \<Rightarrow> Inr s1)"

definition pagedir_is_dirty :: "u32 \<Rightarrow> u32 \<Rightarrow> machine \<Rightarrow> bool res" where
  "pagedir_is_dirty = pte_flag PTE_D"

definition pagedir_set_dirty :: "u32 \<Rightarrow> u32 \<Rightarrow> bool \<Rightarrow> machine \<Rightarrow> machine res" where
  "pagedir_set_dirty = set_pte_flag PTE_D"

definition pagedir_is_accessed :: "u32 \<Rightarrow> u32 \<Rightarrow> machine \<Rightarrow> bool res" where
  "pagedir_is_accessed = pte_flag PTE_A"

definition pagedir_set_accessed :: "u32 \<Rightarrow> u32 \<Rightarrow> bool \<Rightarrow> machine \<Rightarrow> machine res" where
  "pagedir_set_accessed = set_pte_flag PTE_A"

definition pagedir_is_writable :: "u32 \<Rightarrow> u32 \<Rightarrow> machine \<Rightarrow> bool res" where
  "pagedir_is_writable = pte_flag PTE_W"

definition pagedir_set_writable :: "u32 \<Rightarrow> u32 \<Rightarrow> bool \<Rightarrow> machine \<Rightarrow> machine res" where
  "pagedir_set_writable = set_pte_flag PTE_W"

section \<open>Address spaces\<close>

text \<open>
  \<open>pte_at\<close> is the entry for a virtual address, 0 where there is no page table; \<open>space\<close> is the
  address space it gives: a map from user pages to frames and the right to write.
\<close>

definition pde_at :: "machine \<Rightarrow> u32 \<Rightarrow> nat \<Rightarrow> u32" where
  "pde_at s pd i = mem (phys s) pd ! i"

definition entry_page :: "u32 \<Rightarrow> u32" where
  "entry_page e = (e AND PTE_ADDR) + PHYS_BASE"

definition pte_at :: "machine \<Rightarrow> u32 \<Rightarrow> u32 \<Rightarrow> u32" where
  "pte_at s pd va = (let e = pde_at s pd (pd_no va) in if e = 0 then 0 else mem (phys s) (entry_page e) ! pt_no va)"

definition mapping :: "u32 \<Rightarrow> (u32 \<times> bool) option" where
  "mapping e = (if e AND PTE_P \<noteq> 0 then Some (entry_page e, e AND PTE_W \<noteq> 0) else None)"

definition user_page :: "u32 \<Rightarrow> bool" where
  "user_page v \<longleftrightarrow> pg_ofs v = 0 \<and> is_user_vaddr v"

definition space :: "machine \<Rightarrow> u32 \<Rightarrow> u32 \<rightharpoonup> u32 \<times> bool" where
  "space s pd v = (if user_page v then mapping (pte_at s pd v) else None)"

definition entry_ok :: "u32 \<Rightarrow> bool" where
  "entry_ok e \<longleftrightarrow> e AND PTE_P \<noteq> 0 \<and> e AND PTE_ADDR < PHYS_BASE"

text \<open>The pages a directory is made of, and that they are its own.\<close>

definition table_at :: "machine \<Rightarrow> u32 \<Rightarrow> nat \<Rightarrow> u32" where
  "table_at s pd i = entry_page (pde_at s pd i)"

definition tables :: "machine \<Rightarrow> u32 \<Rightarrow> u32 set" where
  "tables s pd = table_at s pd ` {i. i < 768 \<and> pde_at s pd i \<noteq> 0}"

definition footprint :: "machine \<Rightarrow> u32 \<Rightarrow> u32 set" where
  "footprint s pd = insert pd (tables s pd)"

definition pd_inv :: "machine \<Rightarrow> u32 \<Rightarrow> bool" where
  "pd_inv s pd \<longleftrightarrow> (\<forall>i<768. pde_at s pd i \<noteq> 0 \<longrightarrow> entry_ok (pde_at s pd i))
     \<and> inj_on (table_at s pd) {i. i < 768 \<and> pde_at s pd i \<noteq> 0} \<and> pd \<notin> tables s pd
     \<and> footprint s pd \<subseteq> allocated (phys s)
     \<and> (\<forall>v. is_user_vaddr v \<longrightarrow> pte_at s pd v AND PTE_P \<noteq> 0 \<longrightarrow> entry_ok (pte_at s pd v))"

definition mem_ok :: "machine \<Rightarrow> bool" where
  "mem_ok s \<longleftrightarrow> palloc_inv (phys s) \<and> (\<forall>q. length (mem (phys s) q) = 1024)"

section \<open>Looking up entries\<close>

lemma same_page:
  assumes "pg_ofs u = 0" "pg_ofs v = 0" "pd_no u = pd_no v" "pt_no u = pt_no v"
  shows "u = v"
  using page_indexes [of u] page_indexes [of v] assms by (simp add: word_unat_eq_iff)

lemma pde_get_pt_ok: "entry_ok e \<Longrightarrow> pde_get_pt e = Inr (entry_page e)"
  by (simp add: pde_get_pt_def ptov_def entry_ok_def entry_page_def)

lemma pte_get_page_ok: "entry_ok e \<Longrightarrow> pte_get_page e = Inr (entry_page e)"
  by (simp add: pte_get_page_def ptov_def entry_ok_def entry_page_def)

lemma load_word_ok: "mem_ok s \<Longrightarrow> i < 1024 \<Longrightarrow> load_word (q, i) s = Inr (mem (phys s) q ! i)"
  by (simp add: load_word_def mem_ok_def)

lemma store_word_ok: "mem_ok s \<Longrightarrow> i < 1024 \<Longrightarrow> store_word (q, i) w s = Inr (s\<lparr>phys := put_word (q, i) w (phys s)\<rparr>)"
  by (simp add: store_word_def mem_ok_def)

lemma put_word_simps [simp]:
  "allocated (put_word a w m) = allocated m" "palloc_inv (put_word a w m) = palloc_inv m"
  "mem (put_word (q, i) w m) = (mem m)(q := (mem m q)[i := w])"
  by (simp_all add: put_word_def)

lemma mem_ok_put: "mem_ok s \<Longrightarrow> mem_ok (s\<lparr>phys := put_word (q, i) w (phys s)\<rparr>)"
  by (simp add: mem_ok_def)

lemma lookup_page_found:
  assumes "mem_ok s" "pd_inv s pd" "is_user_vaddr va" "pde_at s pd (pd_no va) \<noteq> 0" "pd \<noteq> 0"
  shows "lookup_page pd va create s = Inr (Some (table_at s pd (pd_no va), pt_no va), s)"
proof -
  have "entry_ok (pde_at s pd (pd_no va))" using assms(2,4) pd_no_user [OF assms(3)] by (auto simp: pd_inv_def)
  then show ?thesis
    using assms by (simp add: lookup_page_def load_word_ok pd_no_bound pde_get_pt_ok pde_at_def table_at_def)
qed

lemma lookup_page_none:
  assumes "mem_ok s" "pde_at s pd (pd_no va) = 0" "pd \<noteq> 0"
  shows "lookup_page pd va False s = Inr (None, s)"
  using assms by (simp add: lookup_page_def load_word_ok pd_no_bound pde_at_def)

section \<open>Changing one entry\<close>

text \<open>A directory is not affected by a change of memory outside its own pages.\<close>

lemma pd_frame:
  assumes "pd_inv s pd" "\<And>q. q \<in> footprint s pd \<Longrightarrow> mem (phys s') q = mem (phys s) q"
    and "footprint s pd \<subseteq> allocated (phys s')"
  shows "pde_at s' pd i = pde_at s pd i" "table_at s' pd i = table_at s pd i" "footprint s' pd = footprint s pd"
    and "is_user_vaddr v \<Longrightarrow> pte_at s' pd v = pte_at s pd v" "pd_inv s' pd" "space s' pd = space s pd"
proof -
  show e: "pde_at s' pd i = pde_at s pd i" for i using assms(2) by (simp add: pde_at_def footprint_def)
  then show t: "table_at s' pd i = table_at s pd i" for i by (simp add: table_at_def)
  have ts: "tables s' pd = tables s pd" unfolding tables_def e t ..
  then show f: "footprint s' pd = footprint s pd" unfolding footprint_def by simp
  show p: "pte_at s' pd v = pte_at s pd v" if "is_user_vaddr v" for v
  proof (cases "pde_at s pd (pd_no v) = 0")
    case False
    then have "table_at s pd (pd_no v) \<in> footprint s pd" using pd_no_user [OF that] by (auto simp: footprint_def tables_def)
    then show ?thesis using assms(2) by (simp add: pte_at_def e Let_def flip: table_at_def)
  qed (simp add: pte_at_def e)
  show "pd_inv s' pd" using assms(1,3) unfolding pd_inv_def e t ts f by (simp add: p)
  show "space s' pd = space s pd" by (rule ext) (simp add: space_def user_page_def p)
qed

lemma store_pte:
  assumes "mem_ok s" "pd_inv s pd" "is_user_vaddr u" "pde_at s pd (pd_no u) \<noteq> 0"
    and "e AND PTE_P \<noteq> 0 \<Longrightarrow> entry_ok e"
  defines "s' \<equiv> s\<lparr>phys := put_word (table_at s pd (pd_no u), pt_no u) e (phys s)\<rparr>"
  shows "pd_inv s' pd" "footprint s' pd = footprint s pd"
    "is_user_vaddr v \<Longrightarrow> pte_at s' pd v = (if pd_no v = pd_no u \<and> pt_no v = pt_no u then e else pte_at s pd v)"
proof -
  let ?t = "table_at s pd (pd_no u)"
  have ut: "?t \<in> tables s pd" using assms(4) pd_no_user [OF assms(3)] by (auto simp: tables_def)
  then have ne: "pd \<noteq> ?t" using assms(2) by (auto simp: pd_inv_def)
  have m: "mem (phys s') q = (if q = ?t then (mem (phys s) q)[pt_no u := e] else mem (phys s) q)" for q by (simp add: s'_def)
  have d: "pde_at s' pd i = pde_at s pd i" for i using ne by (simp add: pde_at_def m)
  have t: "table_at s' pd i = table_at s pd i" for i by (simp add: table_at_def d)
  have ts: "tables s' pd = tables s pd" unfolding tables_def d t ..
  then show f: "footprint s' pd = footprint s pd" by (simp add: footprint_def)
  show p: "pte_at s' pd v = (if pd_no v = pd_no u \<and> pt_no v = pt_no u then e else pte_at s pd v)" if v: "is_user_vaddr v" for v
  proof (cases "pde_at s pd (pd_no v) = 0")
    case True
    then show ?thesis using assms(4) by (auto simp: pte_at_def d)
  next
    case False
    have len: "length (mem (phys s) ?t) = 1024" using assms(1) by (simp add: mem_ok_def)
    have "table_at s pd (pd_no v) = ?t \<longleftrightarrow> pd_no v = pd_no u"
      using assms(2,4) False pd_no_user [OF v] pd_no_user [OF assms(3)] by (auto simp: pd_inv_def dest: inj_onD)
    then show ?thesis using False len pt_no_bound [of u]
      by (auto simp: pte_at_def d Let_def m simp flip: table_at_def)
  qed
  have "allocated (phys s') = allocated (phys s)" by (simp add: s'_def)
  then show "pd_inv s' pd" using assms(2,5) unfolding pd_inv_def d t ts f by (auto simp: p)
qed

lemma allocated_page:
  assumes "palloc_inv m" "p \<in> allocated m"
  shows "pg_ofs p = 0" "is_kernel_vaddr p" "p - PHYS_BASE < PHYS_BASE" "p \<noteq> 0"
proof -
  obtain user where b: "block (get_pool user m) p (Suc 0)" using allocated_block [OF assms(2)] by blast
  have "pool_inv (get_pool user m)" using assms(1) by (auto simp: palloc_inv_def get_pool_def)
  note n = block_nonnull [OF this b]
  show "pg_ofs p = 0" "is_kernel_vaddr p" "p \<noteq> 0" using n by (simp_all add: is_kernel_vaddr_def)
  have "unat (p - PHYS_BASE) = unat p - unat PHYS_BASE" using n(2) by (simp add: unat_sub)
  then show "p - PHYS_BASE < PHYS_BASE" using unsigned_less [of p, where 'a = nat] by (simp add: word_less_nat_alt PHYS_BASE_def)
qed

lemma pde_create_entry:
  assumes "palloc_inv m" "pt \<in> allocated m"
  obtains e where "pde_create pt = Inr e" "entry_ok e" "entry_page e = pt" "e \<noteq> 0"
proof -
  from pde_create_get [OF allocated_page(1-3) [OF assms]] obtain e where
    e: "pde_create pt = Inr e" "pde_get_pt e = Inr pt" "e \<noteq> 0" by blast
  then have "entry_ok e" "entry_page e = pt" by (auto simp: pde_get_pt_def ptov_def entry_ok_def entry_page_def)
  with e that show ?thesis by blast
qed

lemma get_page_cases:
  assumes "mem_ok s" "flags AND PAL_ASSERT = 0"
  shows "get_page flags s = Inr (0, s) \<or> (\<exists>p m. get_page flags s = Inr (p, s\<lparr>phys := m\<rparr>) \<and> p \<noteq> 0
    \<and> palloc_inv m \<and> p \<notin> allocated (phys s) \<and> allocated m = insert p (allocated (phys s))
    \<and> mem m = (if flags AND PAL_ZERO \<noteq> 0 then (mem (phys s))(p := replicate 1024 0) else mem (phys s)))"
proof -
  have inv: "palloc_inv (phys s)" using assms by (simp add: mem_ok_def)
  then have "pool_inv (get_pool u (phys s))" for u by (auto simp: palloc_inv_def get_pool_def)
  note nn = block_nonnull(1) [OF this]
  from palloc_get_multiple_cases [OF inv zero_less_one, of flags] show ?thesis
  proof (elim disjE exE conjE)
    fix p m
    assume "palloc_get_multiple flags 1 (phys s) = Inr (p, m)" "block (get_pool (flags AND PAL_USER \<noteq> 0) (phys s)) p 1"
      "page_run p 1 \<inter> allocated (phys s) = {}" "allocated m = allocated (phys s) \<union> page_run p 1" "palloc_inv m"
      and q: "\<forall>q. mem m q = (if flags AND PAL_ZERO \<noteq> 0 \<and> q \<in> page_run p 1 then replicate 1024 0 else mem (phys s) q)"
    moreover from this have "p \<noteq> 0" by (intro nn)
    moreover have "mem m = (if flags AND PAL_ZERO \<noteq> 0 then (mem (phys s))(p := replicate 1024 0) else mem (phys s))"
      using q by (auto simp: fun_eq_iff)
    ultimately show ?thesis
      by (intro disjI2 exI [of _ p] exI [of _ m]) (simp add: get_page_def palloc_get_page_def)
  qed (simp add: get_page_def palloc_get_page_def assms(2))
qed

lemma get_zero_page:
  assumes "mem_ok s"
  shows "get_page PAL_ZERO s = Inr (0, s) \<or> (\<exists>pt m. get_page PAL_ZERO s = Inr (pt, s\<lparr>phys := m\<rparr>) \<and> pt \<noteq> 0
    \<and> palloc_inv m \<and> pt \<notin> allocated (phys s) \<and> allocated m = insert pt (allocated (phys s))
    \<and> mem m = (mem (phys s))(pt := replicate 1024 0))"
  using get_page_cases [OF assms, of PAL_ZERO] by (simp add: PAL_ZERO_def PAL_ASSERT_def)

lemma lookup_page_create:
  assumes "mem_ok s" "pd_inv s pd" "is_user_vaddr va" "pde_at s pd (pd_no va) = 0"
  shows "lookup_page pd va True s = Inr (None, s) \<or> (\<exists>m pt. let s' = s\<lparr>phys := m\<rparr> in
      lookup_page pd va True s = Inr (Some (table_at s' pd (pd_no va), pt_no va), s')
      \<and> mem_ok s' \<and> pd_inv s' pd \<and> pde_at s' pd (pd_no va) \<noteq> 0 \<and> footprint s' pd = insert pt (footprint s pd)
      \<and> pt \<notin> allocated (phys s) \<and> allocated m = insert pt (allocated (phys s))
      \<and> (\<forall>q. q \<noteq> pd \<and> q \<noteq> pt \<longrightarrow> mem m q = mem (phys s) q)
      \<and> (\<forall>v. is_user_vaddr v \<longrightarrow> pte_at s' pd v = pte_at s pd v))"
proof -
  have al: "footprint s pd \<subseteq> allocated (phys s)" using assms(2) by (simp add: pd_inv_def)
  then have pd: "pd \<in> allocated (phys s)" "pd \<noteq> 0"
    using assms(1) allocated_page(4) by (auto simp: footprint_def mem_ok_def)
  let ?n = "pd_no va"
  have n: "?n < 768" "?n < 1024" using pd_no_user [OF assms(3)] by simp_all
  have e0: "load_word (pd, ?n) s = Inr 0" using assms(1,4) n(2) by (simp add: load_word_ok pde_at_def)
  from get_zero_page [OF assms(1)] show ?thesis
  proof (elim disjE exE conjE)
    assume "get_page PAL_ZERO s = Inr (0, s)"
    then show ?thesis using pd(2) assms(3) e0 by (simp add: lookup_page_def)
  next
    fix pt m
    assume g: "get_page PAL_ZERO s = Inr (pt, s\<lparr>phys := m\<rparr>)" "pt \<noteq> 0" and inv: "palloc_inv m"
      and fresh: "pt \<notin> allocated (phys s)" "allocated m = insert pt (allocated (phys s))"
      and mm: "mem m = (mem (phys s))(pt := replicate 1024 0)"
    obtain e where e: "pde_create pt = Inr e" "entry_ok e" "entry_page e = pt" "e \<noteq> 0"
      using pde_create_entry [OF inv, of pt] fresh(2) by auto
    define m' where "m' = put_word (pd, ?n) e m"
    define s' where "s' = s\<lparr>phys := m'\<rparr>"
    have ph: "phys s' = m'" "allocated m' = insert pt (allocated (phys s))" by (simp_all add: s'_def m'_def fresh(2))
    have ne: "pt \<noteq> pd" using fresh(1) pd(1) by auto
    have mem': "mem m' q = (if q = pd then (mem (phys s) pd)[?n := e] else if q = pt then replicate 1024 0 else mem (phys s) q)" for q
      using ne by (simp add: m'_def mm)
    have len: "length (mem (phys s) q) = 1024" for q using assms(1) by (simp add: mem_ok_def)
    have ok1: "mem_ok (s\<lparr>phys := m\<rparr>)" using inv by (simp add: mem_ok_def mm len)
    have ok: "mem_ok s'" using inv unfolding mem_ok_def ph mem' by (auto simp: len m'_def)
    have d: "pde_at s' pd i = (if i = ?n then e else pde_at s pd i)" if "i < 1024" for i
      using that by (simp add: pde_at_def ph mem' len)
    have t: "table_at s' pd i = (if i = ?n then pt else table_at s pd i)" if "i < 1024" for i
      using d [OF that] by (simp add: table_at_def e(3))
    have idx: "{i. i < 768 \<and> pde_at s' pd i \<noteq> 0} = insert ?n {i. i < 768 \<and> pde_at s pd i \<noteq> 0}"
      using n e(4) d by (auto split: if_splits)
    have old: "table_at s pd i \<in> allocated (phys s)" "table_at s pd i \<noteq> pd" if "i < 768" "pde_at s pd i \<noteq> 0" for i
    proof -
      have "table_at s pd i \<in> tables s pd" using that by (auto simp: tables_def)
      then show "table_at s pd i \<in> allocated (phys s)" "table_at s pd i \<noteq> pd"
        using al assms(2) by (auto simp: footprint_def pd_inv_def)
    qed
    have "table_at s' pd ` {i. i < 768 \<and> pde_at s pd i \<noteq> 0} = tables s pd"
      unfolding tables_def using t assms(4) by (intro image_cong) auto
    then have ts: "tables s' pd = insert pt (tables s pd)" unfolding tables_def [of s'] idx using t n by simp
    then have f: "footprint s' pd = insert pt (footprint s pd)" unfolding footprint_def by auto
    have p: "pte_at s' pd v = pte_at s pd v" if v: "is_user_vaddr v" for v
    proof -
      have vn: "pd_no v < 768" "pd_no v < 1024" using pd_no_user [OF v] by simp_all
      consider "pd_no v = ?n" | "pd_no v \<noteq> ?n" "pde_at s pd (pd_no v) = 0" | "pd_no v \<noteq> ?n" "pde_at s pd (pd_no v) \<noteq> 0" by blast
      then show ?thesis
      proof cases
        case 1
        then show ?thesis using assms(4) d [OF vn(2)] e(3,4) ne pt_no_bound by (simp add: pte_at_def ph mem')
      next
        case 2
        then show ?thesis using d [OF vn(2)] by (simp add: pte_at_def)
      next
        case 3
        then have "table_at s pd (pd_no v) \<noteq> pd" "table_at s pd (pd_no v) \<noteq> pt" using old [OF vn(1)] fresh(1) by auto
        then show ?thesis using 3 d [OF vn(2)] by (simp add: pte_at_def Let_def ph mem' flip: table_at_def)
      qed
    qed
    have "inj_on (table_at s' pd) {i. i < 768 \<and> pde_at s' pd i \<noteq> 0}"
    proof -
      have "inj_on (table_at s' pd) {i. i < 768 \<and> pde_at s pd i \<noteq> 0} \<longleftrightarrow> inj_on (table_at s pd) {i. i < 768 \<and> pde_at s pd i \<noteq> 0}"
        using t assms(4) by (intro inj_on_cong) auto
      moreover have "pt \<notin> table_at s' pd ` {i. i < 768 \<and> pde_at s pd i \<noteq> 0}"
        using t old(1) fresh(1) assms(4) by (auto split: if_splits)
      ultimately show ?thesis unfolding idx using assms(2) t n by (auto simp: pd_inv_def inj_on_insert)
    qed
    moreover have "pd \<notin> tables s' pd" using ts ne assms(2) by (auto simp: pd_inv_def)
    moreover have "footprint s' pd \<subseteq> allocated (phys s')" using al unfolding f ph by auto
    moreover have "\<forall>i<768. pde_at s' pd i \<noteq> 0 \<longrightarrow> entry_ok (pde_at s' pd i)" using d assms(2) e(2) by (auto simp: pd_inv_def)
    ultimately have inv': "pd_inv s' pd" using assms(2) p unfolding pd_inv_def by simp
    have "lookup_page pd va True s = Inr (Some (table_at s' pd ?n, pt_no va), s')"
      using pd(2) assms(3) e0 g e(1) store_word_ok [OF ok1 n(2), of pd e] load_word_ok [OF ok n(2), of pd] t [OF n(2)] d [OF n(2)] pde_get_pt_ok [OF e(2)] e(3)
      by (simp add: lookup_page_def s'_def m'_def pde_at_def len)
    then show ?thesis
      using ok inv' d [OF n(2)] e(4) f fresh(1) ph(2) mem' p
      by (intro disjI2 exI [of _ m'] exI [of _ pt]) (simp add: s'_def)
  qed
qed

section \<open>All directories and the translation buffer\<close>

text \<open>
  \<open>P\<close> is the set of live directories, the kernel's own among them. A cached entry is coherent
  with the entry in memory if it names the same frame and claims no flag the entry in
  memory lacks.
\<close>

definition dirs_inv :: "machine \<Rightarrow> u32 set \<Rightarrow> bool" where
  "dirs_inv s P \<longleftrightarrow> mem_ok s \<and> base_page_dir s \<in> P \<and> tables s (base_page_dir s) = {} \<and> (\<forall>pd\<in>P. pd_inv s pd)
     \<and> (\<forall>a\<in>P. \<forall>b\<in>P. a \<noteq> b \<longrightarrow> footprint s a \<inter> footprint s b = {})"

definition coherent :: "u32 \<Rightarrow> u32 \<Rightarrow> bool" where
  "coherent e t \<longleftrightarrow> e AND PTE_P \<noteq> 0 \<and> e AND PTE_ADDR = t AND PTE_ADDR \<and> e AND NOT t = 0"

definition active :: "machine \<Rightarrow> u32" where
  "active s = cr3 s + PHYS_BASE"

definition tlb_inv :: "machine \<Rightarrow> u32 set \<Rightarrow> bool" where
  "tlb_inv s P \<longleftrightarrow> cr3 s < PHYS_BASE \<and> active s \<in> P
     \<and> (\<forall>v e. tlb s v = Some e \<longrightarrow> user_page v \<longrightarrow> coherent e (pte_at s (active s) v))"

definition vm_inv :: "machine \<Rightarrow> u32 set \<Rightarrow> bool" where
  "vm_inv s P \<longleftrightarrow> dirs_inv s P \<and> tlb_inv s P"

lemma dirs_inv_page:
  assumes "dirs_inv s P" "pd \<in> P"
  shows "mem_ok s" "pd_inv s pd" "pd \<in> allocated (phys s)" "pd \<noteq> 0" "is_kernel_vaddr pd" "pd - PHYS_BASE < PHYS_BASE"
proof -
  show i: "mem_ok s" "pd_inv s pd" using assms by (auto simp: dirs_inv_def)
  then show a: "pd \<in> allocated (phys s)" by (auto simp: pd_inv_def footprint_def)
  show "pd \<noteq> 0" "is_kernel_vaddr pd" "pd - PHYS_BASE < PHYS_BASE"
    using allocated_page [OF _ a] i(1) by (auto simp: mem_ok_def)
qed

lemma tables_footprint: "pd_inv s pd \<Longrightarrow> tables s pd = footprint s pd - {pd}"
  by (auto simp: pd_inv_def footprint_def)

text \<open>A step that changes one directory, within its own pages and pages nobody had.\<close>

lemma dirs_step:
  assumes "dirs_inv s P" "pd \<in> P" "mem_ok s'" "pd_inv s' pd" "base_page_dir s' = base_page_dir s"
    and "allocated (phys s) \<subseteq> allocated (phys s')" "footprint s' pd \<inter> allocated (phys s) \<subseteq> footprint s pd"
    and "\<And>q. q \<in> allocated (phys s) \<Longrightarrow> q \<notin> footprint s pd \<Longrightarrow> mem (phys s') q = mem (phys s) q"
    and "pd = base_page_dir s \<Longrightarrow> footprint s' pd = footprint s pd"
  shows "dirs_inv s' P" "pd' \<in> P \<Longrightarrow> pd' \<noteq> pd \<Longrightarrow> space s' pd' = space s pd'"
    "pd' \<in> P \<Longrightarrow> pd' \<noteq> pd \<Longrightarrow> is_user_vaddr v \<Longrightarrow> pte_at s' pd' v = pte_at s pd' v"
proof -
  have other: "pd_inv s pd'" "footprint s pd' \<subseteq> allocated (phys s)" "footprint s pd' \<inter> footprint s pd = {}"
    "\<And>q. q \<in> footprint s pd' \<Longrightarrow> mem (phys s') q = mem (phys s) q" if "pd' \<in> P" "pd' \<noteq> pd" for pd'
  proof -
    show i: "pd_inv s pd'" "footprint s pd' \<inter> footprint s pd = {}" using assms(1,2) that by (auto simp: dirs_inv_def)
    then show a: "footprint s pd' \<subseteq> allocated (phys s)" by (simp add: pd_inv_def)
    show "mem (phys s') q = mem (phys s) q" if "q \<in> footprint s pd'" for q using that a i(2) by (intro assms(8)) auto
  qed
  have fr: "footprint s' a = footprint s a" "is_user_vaddr v \<Longrightarrow> pte_at s' a v = pte_at s a v" "pd_inv s' a" "space s' a = space s a"
    if "a \<in> P" "a \<noteq> pd" for a v
    using pd_frame [OF other(1) [OF that], of s'] other(2,4) [OF that] assms(6) by auto
  show "pd' \<in> P \<Longrightarrow> pd' \<noteq> pd \<Longrightarrow> space s' pd' = space s pd'" using fr(4) by blast
  show "pd' \<in> P \<Longrightarrow> pd' \<noteq> pd \<Longrightarrow> is_user_vaddr v \<Longrightarrow> pte_at s' pd' v = pte_at s pd' v" using fr(2) by blast
  have new: "footprint s' pd \<inter> footprint s a = {}" if "a \<in> P" "a \<noteq> pd" for a using other(2,3) [OF that] assms(7) by blast
  have "footprint s' a \<inter> footprint s' b = {}" if "a \<in> P" "b \<in> P" "a \<noteq> b" for a b
    using that fr(1) new assms(1) unfolding dirs_inv_def by (cases "a = pd"; cases "b = pd") (auto simp: Int_commute)
  moreover have "pd_inv s' a" if "a \<in> P" for a using fr(3) that assms(4) by (cases "a = pd") auto
  moreover have "tables s' (base_page_dir s) = {}"
  proof -
    let ?b = "base_page_dir s"
    have b: "?b \<in> P" "pd_inv s ?b" "tables s ?b = {}" using assms(1) by (auto simp: dirs_inv_def)
    have "footprint s' ?b = footprint s ?b" "pd_inv s' ?b" using fr(1,3) [OF b(1)] assms(4,9) by (cases "?b = pd"; auto)+
    then show ?thesis using tables_footprint b(2,3) by simp
  qed
  ultimately show "dirs_inv s' P" using assms(1,3,5) by (auto simp: dirs_inv_def)
qed

lemma phys_only:
  assumes "phys s' = phys s" "base_page_dir s' = base_page_dir s"
  shows "dirs_inv s' P = dirs_inv s P" "space s' = space s" "pte_at s' = pte_at s"
proof -
  have [simp]: "pde_at s' = pde_at s" "table_at s' = table_at s" by (intro ext; simp add: pde_at_def table_at_def assms)+
  show [simp]: "pte_at s' = pte_at s" by (intro ext) (simp add: pte_at_def assms Let_def)
  have [simp]: "tables s' = tables s" "footprint s' = footprint s" by (intro ext; simp add: tables_def footprint_def)+
  show "dirs_inv s' P = dirs_inv s P" "space s' = space s"
    by (auto simp: dirs_inv_def mem_ok_def pd_inv_def space_def assms fun_eq_iff)
qed

lemma invalidate_pagedir_spec:
  assumes "dirs_inv s P" "pd \<in> P" "cr3 s < PHYS_BASE" "active s \<in> P"
    and "active s \<noteq> pd \<Longrightarrow> tlb_inv s P"
  shows "\<exists>s'. invalidate_pagedir pd s = Inr s' \<and> vm_inv s' P \<and> space s' = space s \<and> phys s' = phys s"
proof (cases "active s = pd")
  case True
  have k: "is_kernel_vaddr pd" "pd \<noteq> 0" using dirs_inv_page [OF assms(1,2)] by auto
  let ?s = "s\<lparr>cr3 := pd - PHYS_BASE, tlb := Map.empty\<rparr>"
  have "invalidate_pagedir pd s = Inr ?s"
    using True assms(3) k by (simp add: invalidate_pagedir_def active_pd_def active_def ptov_def pagedir_activate_def vtop_def)
  moreover have "vm_inv ?s P"
    using assms(1,2) phys_only(1) [of ?s s P] dirs_inv_page(6) [OF assms(1,2)]
    by (simp add: vm_inv_def tlb_inv_def active_def)
  ultimately show ?thesis using phys_only(2) [of ?s s] by auto
next
  case False
  then have "invalidate_pagedir pd s = Inr s"
    using assms(3) by (simp add: invalidate_pagedir_def active_pd_def active_def ptov_def)
  then show ?thesis using assms(1,5) False by (auto simp: vm_inv_def)
qed

section \<open>Operations on one directory\<close>

lemma write_pte:
  assumes "vm_inv s P" "pd \<in> P" "user_page u" "pde_at s pd (pd_no u) \<noteq> 0" "e AND PTE_P \<noteq> 0 \<Longrightarrow> entry_ok e"
  defines "s1 \<equiv> s\<lparr>phys := put_word (table_at s pd (pd_no u), pt_no u) e (phys s)\<rparr>"
  shows "store_word (table_at s pd (pd_no u), pt_no u) e s = Inr s1" "dirs_inv s1 P"
    and "space s1 pd = (space s pd)(u := mapping e)" "\<And>a. a \<in> P \<Longrightarrow> a \<noteq> pd \<Longrightarrow> space s1 a = space s a"
    and "(\<And>c. active s = pd \<Longrightarrow> coherent c (pte_at s pd u) \<Longrightarrow> coherent c e) \<Longrightarrow> tlb_inv s1 P"
proof -
  have d: "dirs_inv s P" and u: "is_user_vaddr u" "pg_ofs u = 0" using assms(1,3) by (auto simp: vm_inv_def user_page_def)
  note pg = dirs_inv_page [OF d assms(2)]
  note st = store_pte [OF pg(1,2) u(1) assms(4,5), folded s1_def]
  show "store_word (table_at s pd (pd_no u), pt_no u) e s = Inr s1"
    unfolding s1_def by (rule store_word_ok [OF pg(1) pt_no_bound])
  have t: "table_at s pd (pd_no u) \<in> footprint s pd" using assms(4) pd_no_user [OF u(1)] by (auto simp: footprint_def tables_def)
  have ok: "mem_ok s1" unfolding s1_def by (rule mem_ok_put [OF pg(1)])
  have al: "allocated (phys s1) = allocated (phys s)" "base_page_dir s1 = base_page_dir s" by (simp_all add: s1_def)
  have fr: "mem (phys s1) q = mem (phys s) q" if "q \<notin> footprint s pd" for q using that t by (auto simp: s1_def)
  note ds = dirs_step [OF d assms(2) ok st(1) al(2)]
  show "dirs_inv s1 P" "\<And>a. a \<in> P \<Longrightarrow> a \<noteq> pd \<Longrightarrow> space s1 a = space s a"
    using ds(1,2) al(1) st(2) fr by auto
  have at: "pte_at s1 pd v = (if v = u then e else pte_at s pd v)" if "user_page v" for v
    using st(3) [of v] that same_page [of u v] u by (auto simp: user_page_def)
  then show "space s1 pd = (space s pd)(u := mapping e)" using assms(3) by (auto simp: space_def fun_eq_iff)
  show "tlb_inv s1 P" if c: "\<And>c. active s = pd \<Longrightarrow> coherent c (pte_at s pd u) \<Longrightarrow> coherent c e"
  proof -
    have t: "tlb_inv s P" using assms(1) by (simp add: vm_inv_def)
    have [simp]: "cr3 s1 = cr3 s" "tlb s1 = tlb s" "active s1 = active s" by (simp_all add: s1_def active_def)
    have "coherent c (pte_at s1 (active s) v)" if "tlb s v = Some c" "user_page v" for c v
    proof (cases "active s = pd")
      case True
      then show ?thesis using that t c at by (auto simp: tlb_inv_def)
    next
      case False
      then have "pte_at s1 (active s) v = pte_at s (active s) v"
        using ds(3) al(1) st(2) fr that(2) t by (auto simp: tlb_inv_def user_page_def)
      then show ?thesis using that t by (auto simp: tlb_inv_def)
    qed
    then show ?thesis using t by (simp add: tlb_inv_def)
  qed
qed

lemma space_no_table: "pde_at s pd (pd_no u) = 0 \<Longrightarrow> space s pd u = None"
  by (simp add: space_def pte_at_def mapping_def)

text \<open>Bits of entries.\<close>

lemma flag_bits:
  assumes "flag \<in> {PTE_W, PTE_A, PTE_D}"
  shows "(e OR flag) AND PTE_P = e AND PTE_P" "(e AND NOT flag) AND PTE_P = e AND PTE_P"
    "(e OR flag) AND PTE_ADDR = e AND PTE_ADDR" "(e AND NOT flag) AND PTE_ADDR = e AND PTE_ADDR"
proof -
  have f: "flag AND PTE_P = 0" "flag AND PTE_ADDR = 0" "NOT flag AND PTE_P = PTE_P" "NOT flag AND PTE_ADDR = PTE_ADDR"
    using assms by (auto simp: pte_bits)
  show "(e OR flag) AND PTE_P = e AND PTE_P" "(e AND NOT flag) AND PTE_P = e AND PTE_P"
    "(e OR flag) AND PTE_ADDR = e AND PTE_ADDR" "(e AND NOT flag) AND PTE_ADDR = e AND PTE_ADDR"
    by (simp_all add: bit.conj_disj_distrib2 and.assoc f)
qed

lemma flag_mapping:
  assumes "flag \<in> {PTE_W, PTE_A, PTE_D}" "e' = (if v then e OR flag else e AND NOT flag)"
  shows "mapping e' = (if flag = PTE_W then map_option (\<lambda>(k, w). (k, v)) (mapping e) else mapping e)"
    "entry_ok e' = entry_ok e" "e' AND PTE_P = e AND PTE_P"
proof -
  have b: "e' AND PTE_P = e AND PTE_P" "e' AND PTE_ADDR = e AND PTE_ADDR" using assms(2) flag_bits [OF assms(1)] by simp_all
  show "entry_ok e' = entry_ok e" "e' AND PTE_P = e AND PTE_P" by (simp_all add: entry_ok_def b)
  have "(e' AND PTE_W \<noteq> 0) = (if flag = PTE_W then v else e AND PTE_W \<noteq> 0)"
    using assms by (auto simp: bit.conj_disj_distrib2 and.assoc pte_bits)
  then show "mapping e' = (if flag = PTE_W then map_option (\<lambda>(k, w). (k, v)) (mapping e) else mapping e)"
    using b by (auto simp: mapping_def entry_page_def)
qed

lemma coherent_or:
  assumes "flag \<in> {PTE_W, PTE_A, PTE_D}" "coherent c e"
  shows "coherent c (e OR flag)"
proof -
  have "c AND NOT (e OR flag) = (c AND NOT e) AND NOT flag" by (simp add: and.assoc)
  then show ?thesis using assms flag_bits(3) by (simp add: coherent_def)
qed

lemma load_pte:
  assumes "dirs_inv s P" "pd \<in> P" "is_user_vaddr u" "pde_at s pd (pd_no u) \<noteq> 0"
  shows "load_word (table_at s pd (pd_no u), pt_no u) s = Inr (pte_at s pd u)"
    "lookup_page pd u c s = Inr (Some (table_at s pd (pd_no u), pt_no u), s)"
    "pte_at s pd u AND PTE_P \<noteq> 0 \<Longrightarrow> entry_ok (pte_at s pd u)"
proof -
  note pg = dirs_inv_page [OF assms(1,2)]
  show "load_word (table_at s pd (pd_no u), pt_no u) s = Inr (pte_at s pd u)"
    using load_word_ok [OF pg(1) pt_no_bound] assms(4) by (simp add: pte_at_def table_at_def)
  show "lookup_page pd u c s = Inr (Some (table_at s pd (pd_no u), pt_no u), s)"
    by (rule lookup_page_found [OF pg(1,2) assms(3,4) pg(4)])
  show "pte_at s pd u AND PTE_P \<noteq> 0 \<Longrightarrow> entry_ok (pte_at s pd u)" using pg(2) assms(3) by (auto simp: pd_inv_def)
qed

lemma lookup_none:
  "dirs_inv s P \<Longrightarrow> pd \<in> P \<Longrightarrow> pde_at s pd (pd_no u) = 0 \<Longrightarrow> lookup_page pd u False s = Inr (None, s)"
  using dirs_inv_page [of s P pd] by (intro lookup_page_none) auto

text \<open>A change of one entry, with the translation buffer flushed if the directory is the active one.\<close>

lemma write_and_invalidate:
  assumes "vm_inv s P" "pd \<in> P" "user_page u" "pde_at s pd (pd_no u) \<noteq> 0" "e AND PTE_P \<noteq> 0 \<Longrightarrow> entry_ok e"
  shows "\<exists>s'. rbind (store_word (table_at s pd (pd_no u), pt_no u) e s) (invalidate_pagedir pd) = Inr s' \<and> vm_inv s' P
    \<and> space s' pd = (space s pd)(u := mapping e) \<and> (\<forall>a\<in>P. a \<noteq> pd \<longrightarrow> space s' a = space s a)"
proof -
  define s1 where "s1 = s\<lparr>phys := put_word (table_at s pd (pd_no u), pt_no u) e (phys s)\<rparr>"
  note w = write_pte [OF assms, folded s1_def]
  have c: "cr3 s1 < PHYS_BASE" "active s1 \<in> P" "active s1 = active s"
    using assms(1) by (auto simp: s1_def vm_inv_def tlb_inv_def active_def)
  have "tlb_inv s1 P" if "active s1 \<noteq> pd" using w(5) that c(3) by blast
  then obtain s' where "invalidate_pagedir pd s1 = Inr s'" "vm_inv s' P" "space s' = space s1"
    using invalidate_pagedir_spec [OF w(2) assms(2) c(1,2)] by blast
  then show ?thesis using w(1,3,4) by simp
qed

lemma set_pte_flag_spec:
  assumes "vm_inv s P" "pd \<in> P" "user_page u" "flag \<in> {PTE_W, PTE_A, PTE_D}"
  shows "\<exists>s'. set_pte_flag flag pd u v s = Inr s' \<and> vm_inv s' P
    \<and> space s' pd = (if flag = PTE_W then (space s pd)(u := map_option (\<lambda>(k, w). (k, v)) (space s pd u)) else space s pd)
    \<and> (\<forall>a\<in>P. a \<noteq> pd \<longrightarrow> space s' a = space s a)"
proof (cases "pde_at s pd (pd_no u) = 0")
  case True
  have "set_pte_flag flag pd u v s = Inr s" using lookup_none [OF _ assms(2) True] assms(1) by (simp add: set_pte_flag_def vm_inv_def)
  moreover have "(space s pd)(u := map_option (\<lambda>(k, w). (k, v)) (space s pd u)) = space s pd"
    using space_no_table [OF True] by (simp add: fun_upd_idem_iff)
  ultimately show ?thesis using assms(1) by simp
next
  case False
  have d: "dirs_inv s P" "is_user_vaddr u" using assms(1,3) by (auto simp: vm_inv_def user_page_def)
  note ld = load_pte [OF d(1) assms(2) d(2) False]
  let ?e = "pte_at s pd u"
  define e' where "e' = (if v then ?e OR flag else ?e AND NOT flag)"
  note fm = flag_mapping [OF assms(4) e'_def]
  have ok: "e' AND PTE_P \<noteq> 0 \<Longrightarrow> entry_ok e'" using ld(3) fm by simp
  have sp: "(space s pd)(u := mapping e') = (if flag = PTE_W then (space s pd)(u := map_option (\<lambda>(k, w). (k, v)) (space s pd u)) else space s pd)"
    using fm(1) assms(3) by (auto simp: space_def fun_eq_iff)
  show ?thesis
  proof (cases v)
    case True
    have "coherent c e'" if "coherent c ?e" for c using coherent_or [OF assms(4) that] True by (simp add: e'_def)
    then show ?thesis using write_pte [OF assms(1-3) False ok] sp ld(1,2) True
      by (simp add: set_pte_flag_def e'_def vm_inv_def)
  next
    case v: False
    show ?thesis using write_and_invalidate [OF assms(1-3) False ok] sp ld(1,2) v by (simp add: set_pte_flag_def e'_def)
  qed
qed

lemma clear_page_spec:
  assumes "vm_inv s P" "pd \<in> P" "user_page u"
  shows "\<exists>s'. pagedir_clear_page pd u s = Inr s' \<and> vm_inv s' P \<and> space s' pd = (space s pd)(u := None)
    \<and> (\<forall>a\<in>P. a \<noteq> pd \<longrightarrow> space s' a = space s a)"
proof -
  have d: "dirs_inv s P" "is_user_vaddr u" "pg_ofs u = 0" using assms(1,3) by (auto simp: vm_inv_def user_page_def)
  consider "pde_at s pd (pd_no u) = 0" | "pde_at s pd (pd_no u) \<noteq> 0" "pte_at s pd u AND PTE_P = 0"
    | "pde_at s pd (pd_no u) \<noteq> 0" "pte_at s pd u AND PTE_P \<noteq> 0" by blast
  then show ?thesis
  proof cases
    case 1
    then show ?thesis using lookup_none [OF d(1) assms(2) 1] fun_upd_idem [of "space s pd", OF space_no_table [OF 1]] d(2,3) assms(1)
      by (simp add: pagedir_clear_page_def)
  next
    case 2
    have "space s pd u = None" using 2(2) by (simp add: space_def mapping_def)
    from fun_upd_idem [of "space s pd", OF this] show ?thesis using load_pte [OF d(1) assms(2) d(2) 2(1)] 2(2) d(2,3) assms(1)
      by (simp add: pagedir_clear_page_def)
  next
    case 3
    let ?e = "pte_at s pd u AND NOT PTE_P"
    have z: "?e AND PTE_P = 0" by (simp add: and.assoc)
    then have "mapping ?e = None" by (simp add: mapping_def)
    then show ?thesis
      using write_and_invalidate [OF assms 3(1), of ?e] load_pte [OF d(1) assms(2) d(2) 3(1)] 3(2) d(2,3) z
      by (simp add: pagedir_clear_page_def)
  qed
qed

text \<open>Creating the missing page table changes no address space.\<close>

lemma create_table_spec:
  assumes "vm_inv s P" "pd \<in> P" "user_page u" "pde_at s pd (pd_no u) = 0" "pd \<noteq> base_page_dir s"
  shows "lookup_page pd u True s = Inr (None, s) \<or> (\<exists>s'. lookup_page pd u True s = Inr (Some (table_at s' pd (pd_no u), pt_no u), s')
    \<and> vm_inv s' P \<and> pde_at s' pd (pd_no u) \<noteq> 0 \<and> pte_at s' pd u = pte_at s pd u \<and> (\<forall>a\<in>P. space s' a = space s a)
    \<and> base_page_dir s' = base_page_dir s \<and> ram_pages s' = ram_pages s)"
proof -
  have d: "dirs_inv s P" "is_user_vaddr u" "tlb_inv s P" using assms(1,3) by (auto simp: vm_inv_def user_page_def)
  note pg = dirs_inv_page [OF d(1) assms(2)]
  from lookup_page_create [OF pg(1,2) d(2) assms(4)] show ?thesis unfolding Let_def
  proof (elim disjE exE conjE)
    fix m pt
    define s' where "s' = s\<lparr>phys := m\<rparr>"
    assume "lookup_page pd u True s = Inr (Some (table_at (s\<lparr>phys := m\<rparr>) pd (pd_no u), pt_no u), s\<lparr>phys := m\<rparr>)"
      "mem_ok (s\<lparr>phys := m\<rparr>)" "pd_inv (s\<lparr>phys := m\<rparr>) pd" "pde_at (s\<lparr>phys := m\<rparr>) pd (pd_no u) \<noteq> 0"
      "footprint (s\<lparr>phys := m\<rparr>) pd = insert pt (footprint s pd)"
      and fresh: "pt \<notin> allocated (phys s)" "allocated m = insert pt (allocated (phys s))"
      and mm: "\<forall>q. q \<noteq> pd \<and> q \<noteq> pt \<longrightarrow> mem m q = mem (phys s) q"
      and "\<forall>v. is_user_vaddr v \<longrightarrow> pte_at (s\<lparr>phys := m\<rparr>) pd v = pte_at s pd v"
    then have lk: "lookup_page pd u True s = Inr (Some (table_at s' pd (pd_no u), pt_no u), s')" and ok: "mem_ok s'" "pd_inv s' pd"
      and nz: "pde_at s' pd (pd_no u) \<noteq> 0" and f: "footprint s' pd = insert pt (footprint s pd)"
      and at: "\<And>v. is_user_vaddr v \<Longrightarrow> pte_at s' pd v = pte_at s pd v" by (simp_all add: s'_def)
    have ph: "phys s' = m" "base_page_dir s' = base_page_dir s" "ram_pages s' = ram_pages s" by (simp_all add: s'_def)
    have fr: "mem (phys s') q = mem (phys s) q" if "q \<in> allocated (phys s)" "q \<notin> footprint s pd" for q
      using that mm fresh(1) unfolding ph by (auto simp: footprint_def)
    have sub: "allocated (phys s) \<subseteq> allocated (phys s')" "footprint s' pd \<inter> allocated (phys s) \<subseteq> footprint s pd"
      using fresh by (auto simp: ph f)
    note ds = dirs_step [OF d(1) assms(2) ok ph(2) sub fr, simplified assms(5)]
    have sp: "space s' a = space s a" if "a \<in> P" for a
      using ds(2) [of a] that at by (cases "a = pd") (auto simp: space_def user_page_def fun_eq_iff)
    have pt: "pte_at s' a v = pte_at s a v" if "a \<in> P" "is_user_vaddr v" for a v
      using ds(3) [of a v] that at by (cases "a = pd") auto
    have "tlb_inv s' P" using d(3) pt by (auto simp: tlb_inv_def s'_def active_def user_page_def)
    then have "vm_inv s' P" using ds(1) by (simp add: vm_inv_def)
    then show ?thesis using lk nz at d(2) sp ph by (intro disjI2 exI [of _ s']) simp
  qed simp
qed

lemma set_page_spec:
  assumes "vm_inv s P" "pd \<in> P" "user_page u" "pd \<noteq> base_page_dir s" "space s pd u = None"
    and "pg_ofs k = 0" "is_kernel_vaddr k" "k - PHYS_BASE < PHYS_BASE" "unat (drop_bit 12 (k - PHYS_BASE)) < ram_pages s"
  shows "pagedir_set_page pd u k w s = Inr (False, s) \<or> (\<exists>s'. pagedir_set_page pd u k w s = Inr (True, s') \<and> vm_inv s' P
    \<and> space s' pd = (space s pd)(u \<mapsto> (k, w)) \<and> (\<forall>a\<in>P. a \<noteq> pd \<longrightarrow> space s' a = space s a))"
proof -
  have u: "is_user_vaddr u" "pg_ofs u = 0" using assms(3) by (auto simp: user_page_def)
  have np: "pte_at s pd u AND PTE_P = 0" using assms(3,5) by (auto simp: space_def mapping_def split: if_splits)
  obtain e where e: "pte_create_user k w = Inr e" "pte_get_page e = Inr k" "e AND PTE_P \<noteq> 0" "(e AND PTE_W \<noteq> 0) = w"
    using pte_create_user_get [OF assms(6-8)] by blast
  then have ek: "entry_ok e" "mapping e = Some (k, w)"
    by (auto simp: pte_get_page_def ptov_def entry_ok_def entry_page_def mapping_def)
  have fin: "\<exists>s''. rbind (load_word (table_at s' pd (pd_no u), pt_no u) s') (\<lambda>e. kassert (e AND PTE_P = 0)
          (rbind (pte_create_user k w) (\<lambda>e. rbind (store_word (table_at s' pd (pd_no u), pt_no u) e s') (\<lambda>s2. Inr (True, s2)))))
        = Inr (True, s'') \<and> vm_inv s'' P \<and> space s'' pd = (space s' pd)(u \<mapsto> (k, w)) \<and> (\<forall>a\<in>P. a \<noteq> pd \<longrightarrow> space s'' a = space s' a)"
    if s': "vm_inv s' P" "pde_at s' pd (pd_no u) \<noteq> 0" "pte_at s' pd u AND PTE_P = 0" for s'
  proof -
    have "dirs_inv s' P" using s'(1) by (simp add: vm_inv_def)
    note ld = load_pte [OF this assms(2) u(1) s'(2)]
    note w = write_pte [OF s'(1) assms(2,3) s'(2), of e]
    have "\<not> coherent c (pte_at s' pd u)" for c
    proof
      assume "coherent c (pte_at s' pd u)"
      then have "c AND NOT (pte_at s' pd u) = 0" "c AND PTE_P \<noteq> 0" by (auto simp: coherent_def)
      moreover have "c AND PTE_P = (c AND NOT (pte_at s' pd u)) AND PTE_P OR c AND (pte_at s' pd u AND PTE_P)"
        by (rule bit_word_eqI) (auto simp: bit_simps)
      ultimately show False using s'(3) by simp
    qed
    then show ?thesis using w ek ld(1) s'(3) e(1) by (auto simp: vm_inv_def)
  qed
  have chk: "pagedir_set_page pd u k w s = rbind (lookup_page pd u True s) (\<lambda>(pte, s1).
       case pte of
         Some a \<Rightarrow> rbind (load_word a s1) (\<lambda>e. kassert (e AND PTE_P = 0)
           (rbind (pte_create_user k w) (\<lambda>e. rbind (store_word a e s1) (\<lambda>s2. Inr (True, s2)))))
       | None \<Rightarrow> Inr (False, s1))"
    using assms(4,6,7,9) u by (simp add: pagedir_set_page_def vtop_def)
  show ?thesis
  proof (cases "pde_at s pd (pd_no u) = 0")
    case True
    from create_table_spec [OF assms(1-3) True assms(4)] show ?thesis
    proof (elim disjE exE conjE)
      fix s'
      assume lk: "lookup_page pd u True s = Inr (Some (table_at s' pd (pd_no u), pt_no u), s')"
        and s': "vm_inv s' P" "pde_at s' pd (pd_no u) \<noteq> 0" "pte_at s' pd u = pte_at s pd u" "\<forall>a\<in>P. space s' a = space s a"
      from fin [OF s'(1,2)] s'(3) np show ?thesis unfolding chk lk using s'(4) assms(2) by auto
    qed (simp add: chk)
  next
    case False
    have "dirs_inv s P" using assms(1) by (simp add: vm_inv_def)
    note ld = load_pte(2) [OF this assms(2) u(1) False]
    from fin [OF assms(1) False np] show ?thesis unfolding chk ld by auto
  qed
qed

lemma get_page_spec:
  assumes "dirs_inv s P" "pd \<in> P" "is_user_vaddr ua"
  shows "pagedir_get_page pd ua s = Inr (case space s pd (pg_round_down ua) of None \<Rightarrow> 0 | Some (k, w) \<Rightarrow> k + pg_ofs ua)"
proof -
  let ?u = "pg_round_down ua"
  have u: "user_page ?u" "pte_at s pd ?u = pte_at s pd ua"
    using round_down_page assms(3) by (simp_all add: user_page_def pte_at_def Let_def)
  show ?thesis
  proof (cases "pde_at s pd (pd_no ua) = 0")
    case True
    then have "space s pd ?u = None" by (intro space_no_table) (simp add: round_down_page)
    then show ?thesis using lookup_none [OF assms(1,2) True] assms(3) by (simp add: pagedir_get_page_def)
  next
    case False
    note ld = load_pte [OF assms False]
    have "space s pd ?u = mapping (pte_at s pd ua)" using u by (simp add: space_def)
    then show ?thesis using ld assms(3) pte_get_page_ok by (auto simp: pagedir_get_page_def mapping_def)
  qed
qed

section \<open>Steps on the address spaces\<close>

text \<open>
  The operations of the kernel on a directory, and the processor caching the entry of a page
  it accesses; \<open>spec_op\<close> is their effect on the address space.
\<close>

datatype dir_op = Set_page u32 u32 bool | Clear_page u32 | Set_writable u32 bool | Set_dirty u32 bool
  | Set_accessed u32 bool | Activate | Tlb_fill u32

definition tlb_fill :: "u32 \<Rightarrow> machine \<Rightarrow> machine" where
  "tlb_fill v s = (let e = pte_at s (active s) v in if e AND PTE_P \<noteq> 0 then s\<lparr>tlb := (tlb s)(v \<mapsto> e)\<rparr> else s)"

fun exec_op :: "dir_op \<Rightarrow> u32 \<Rightarrow> machine \<Rightarrow> (bool \<times> machine) res" where
  "exec_op (Set_page u k w) pd s = pagedir_set_page pd u k w s"
| "exec_op (Clear_page u) pd s = rbind (pagedir_clear_page pd u s) (\<lambda>s'. Inr (True, s'))"
| "exec_op (Set_writable u b) pd s = rbind (pagedir_set_writable pd u b s) (\<lambda>s'. Inr (True, s'))"
| "exec_op (Set_dirty u b) pd s = rbind (pagedir_set_dirty pd u b s) (\<lambda>s'. Inr (True, s'))"
| "exec_op (Set_accessed u b) pd s = rbind (pagedir_set_accessed pd u b s) (\<lambda>s'. Inr (True, s'))"
| "exec_op Activate pd s = rbind (pagedir_activate pd s) (\<lambda>s'. Inr (True, s'))"
| "exec_op (Tlb_fill v) pd s = Inr (True, tlb_fill v s)"

fun spec_op :: "dir_op \<Rightarrow> (u32 \<rightharpoonup> u32 \<times> bool) \<Rightarrow> (u32 \<rightharpoonup> u32 \<times> bool)" where
  "spec_op (Set_page u k w) M = M(u \<mapsto> (k, w))"
| "spec_op (Clear_page u) M = M(u := None)"
| "spec_op (Set_writable u b) M = M(u := map_option (\<lambda>(k, w). (k, b)) (M u))"
| "spec_op _ M = M"

fun op_pre :: "dir_op \<Rightarrow> u32 \<Rightarrow> machine \<Rightarrow> bool" where
  "op_pre (Set_page u k w) pd s \<longleftrightarrow> user_page u \<and> pd \<noteq> base_page_dir s \<and> space s pd u = None
     \<and> pg_ofs k = 0 \<and> is_kernel_vaddr k \<and> k - PHYS_BASE < PHYS_BASE \<and> unat (drop_bit 12 (k - PHYS_BASE)) < ram_pages s"
| "op_pre (Clear_page u) pd s \<longleftrightarrow> user_page u"
| "op_pre (Set_writable u b) pd s \<longleftrightarrow> user_page u"
| "op_pre (Set_dirty u b) pd s \<longleftrightarrow> user_page u"
| "op_pre (Set_accessed u b) pd s \<longleftrightarrow> user_page u"
| "op_pre _ pd s \<longleftrightarrow> True"

lemma activate_spec:
  assumes "vm_inv s P" "pd \<in> P"
  shows "\<exists>s'. pagedir_activate pd s = Inr s' \<and> vm_inv s' P \<and> active s' = pd \<and> space s' = space s"
proof -
  have d: "dirs_inv s P" using assms(1) by (simp add: vm_inv_def)
  note pg = dirs_inv_page [OF d assms(2)]
  let ?s = "s\<lparr>cr3 := pd - PHYS_BASE, tlb := Map.empty\<rparr>"
  have "pagedir_activate pd s = Inr ?s" using pg(4,5) by (simp add: pagedir_activate_def vtop_def)
  moreover have "vm_inv ?s P" "active ?s = pd"
    using d assms(2) phys_only(1) [of ?s s P] pg(6) by (auto simp: vm_inv_def tlb_inv_def active_def)
  ultimately show ?thesis using phys_only(2) [of ?s s] by auto
qed

lemma tlb_fill_spec:
  assumes "vm_inv s P"
  shows "vm_inv (tlb_fill v s) P" "space (tlb_fill v s) = space s"
proof -
  let ?s = "tlb_fill v s"
  have ph: "phys ?s = phys s" "base_page_dir ?s = base_page_dir s" "cr3 ?s = cr3 s" by (simp_all add: tlb_fill_def Let_def)
  note po = phys_only [OF ph(1,2)]
  show "space ?s = space s" by (rule po(2))
  have "active ?s = active s" by (simp add: active_def ph(3))
  then show "vm_inv ?s P"
    using assms unfolding vm_inv_def tlb_inv_def po ph
    by (auto simp: tlb_fill_def Let_def coherent_def split: if_splits)
qed

lemma exec_op_refines:
  assumes "vm_inv s P" "pd \<in> P" "op_pre op pd s"
  shows "\<exists>ok s'. exec_op op pd s = Inr (ok, s') \<and> vm_inv s' P
    \<and> (\<forall>a\<in>P. space s' a = (if a = pd \<and> ok then spec_op op (space s a) else space s a))"
proof (cases op)
  case (Set_page u k w)
  then show ?thesis using set_page_spec [OF assms(1,2), of u k w] assms(1,3) by auto
next
  case (Clear_page u)
  then show ?thesis using clear_page_spec [OF assms(1,2), of u] assms(3) by auto
next
  case (Set_writable u b)
  then show ?thesis using set_pte_flag_spec [OF assms(1,2), of u PTE_W b] assms(3) by (auto simp: pagedir_set_writable_def)
next
  case (Set_dirty u b)
  have "PTE_D \<noteq> PTE_W" by (simp add: PTE_D_def PTE_W_def)
  with Set_dirty show ?thesis using set_pte_flag_spec [OF assms(1,2), of u PTE_D b] assms(3) by (auto simp: pagedir_set_dirty_def)
next
  case (Set_accessed u b)
  have "PTE_A \<noteq> PTE_W" by (simp add: PTE_A_def PTE_W_def)
  with Set_accessed show ?thesis using set_pte_flag_spec [OF assms(1,2), of u PTE_A b] assms(3) by (auto simp: pagedir_set_accessed_def)
next
  case Activate
  then show ?thesis using activate_spec [OF assms(1,2)] by auto
next
  case (Tlb_fill v)
  then show ?thesis using tlb_fill_spec [OF assms(1)] by auto
qed

section \<open>Creating and destroying a directory\<close>

lemma pagedir_create_spec:
  assumes "vm_inv s P"
  shows "pagedir_create s = Inr (0, s) \<or> (\<exists>pd s'. pagedir_create s = Inr (pd, s') \<and> pd \<notin> allocated (phys s) \<and> pd \<noteq> 0
    \<and> vm_inv s' (insert pd P) \<and> space s' pd = Map.empty \<and> (\<forall>a\<in>P. space s' a = space s a)
    \<and> allocated (phys s') = insert pd (allocated (phys s)))"
proof -
  have d: "dirs_inv s P" "tlb_inv s P" using assms by (simp_all add: vm_inv_def)
  let ?b = "base_page_dir s"
  have b: "?b \<in> P" "tables s ?b = {}" using d(1) by (auto simp: dirs_inv_def)
  note pg = dirs_inv_page [OF d(1) b(1)]
  have "0 AND PAL_ASSERT = 0" by simp
  from get_page_cases [OF pg(1) this] show ?thesis
  proof (elim disjE exE conjE)
    assume "get_page 0 s = Inr (0, s)"
    then show ?thesis by (simp add: pagedir_create_def)
  next
    fix pd m
    assume g: "get_page 0 s = Inr (pd, s\<lparr>phys := m\<rparr>)" "pd \<noteq> 0" "palloc_inv m" and fresh: "pd \<notin> allocated (phys s)"
      "allocated m = insert pd (allocated (phys s))"
      and mm: "mem m = (if 0 AND PAL_ZERO \<noteq> 0 then (mem (phys s))(pd := replicate 1024 0) else mem (phys s))"
    define s' where "s' = s\<lparr>phys := m\<lparr>mem := (mem m)(pd := mem m ?b)\<rparr>\<rparr>"
    have cr: "pagedir_create s = Inr (pd, s')" using g by (simp add: pagedir_create_def s'_def)
    have mem': "mem (phys s') q = (if q = pd then mem (phys s) ?b else mem (phys s) q)" for q using mm by (simp add: s'_def)
    have al: "allocated (phys s') = insert pd (allocated (phys s))" "base_page_dir s' = ?b" by (simp_all add: s'_def fresh(2))
    have ok: "mem_ok s'" using pg(1) g(3) unfolding mem_ok_def mem' by (simp add: s'_def)
    have old: "pd \<notin> footprint s a" "footprint s a \<subseteq> allocated (phys s')" "pd_inv s a" if "a \<in> P" for a
      using that d(1) fresh(1) al(1) by (auto simp: dirs_inv_def pd_inv_def)
    have same: "mem (phys s') q = mem (phys s) q" if "a \<in> P" "q \<in> footprint s a" for a q
      using old(1) [OF that(1)] that(2) mem' by auto
    have fr: "pde_at s' a i = pde_at s a i" "footprint s' a = footprint s a" "is_user_vaddr v \<Longrightarrow> pte_at s' a v = pte_at s a v"
      "pd_inv s' a" "space s' a = space s a" if "a \<in> P" for a i v
      using pd_frame [OF old(3) [OF that] same [OF that] old(2) [OF that]] by auto
    have z: "pde_at s' pd i = 0" if "i < 768" for i
      using b(2) that by (auto simp: pde_at_def mem' tables_def)
    then have t: "tables s' pd = {}" "\<And>v. is_user_vaddr v \<Longrightarrow> pte_at s' pd v = 0"
      using pd_no_user by (auto simp: tables_def pte_at_def)
    then have n: "pd_inv s' pd" "footprint s' pd = {pd}" "space s' pd = Map.empty"
      using z al(1) by (auto simp: pd_inv_def footprint_def space_def user_page_def mapping_def fun_eq_iff inj_on_def)
    have "tables s' ?b = {}" using tables_footprint [OF fr(4) [OF b(1)]] tables_footprint [OF old(3) [OF b(1)]] fr(2) [OF b(1)] b(2) by simp
    moreover have "\<forall>a\<in>insert pd P. \<forall>c\<in>insert pd P. a \<noteq> c \<longrightarrow> footprint s' a \<inter> footprint s' c = {}"
      using fr(2) n(2) old(1) d(1) by (auto simp: dirs_inv_def)
    ultimately have "dirs_inv s' (insert pd P)" using ok n(1) fr(4) b(1) al(2) by (auto simp: dirs_inv_def)
    moreover have "tlb_inv s' (insert pd P)"
      using d(2) fr(3) by (auto simp: tlb_inv_def active_def s'_def user_page_def)
    ultimately show ?thesis using cr fresh(1) g(2) n(3) fr(5) al(1)
      by (intro disjI2 exI [of _ pd] exI [of _ s']) (simp add: vm_inv_def)
  qed
qed

text \<open>
  The pages \<open>pagedir_destroy\<close> is to free: for every page table of the directory the frames it
  maps, then the page table itself.
\<close>

definition pt_frames :: "machine \<Rightarrow> u32 \<Rightarrow> nat list \<Rightarrow> u32 list" where
  "pt_frames s pt is = map entry_page (filter (\<lambda>e. e AND PTE_P \<noteq> 0) (map (\<lambda>i. mem (phys s) pt ! i) is))"

definition pt_pages :: "machine \<Rightarrow> u32 \<Rightarrow> nat \<Rightarrow> u32 list" where
  "pt_pages s pd i = (if pde_at s pd i AND PTE_P \<noteq> 0 then pt_frames s (table_at s pd i) [0..<1024] @ [table_at s pd i] else [])"

definition dir_pages :: "machine \<Rightarrow> u32 \<Rightarrow> nat list \<Rightarrow> u32 list" where
  "dir_pages s pd is = concat (map (pt_pages s pd) is)"

text \<open>Every present entry the directory holds names physical memory.\<close>

definition entries_ok :: "machine \<Rightarrow> u32 \<Rightarrow> nat list \<Rightarrow> bool" where
  "entries_ok s pd is \<longleftrightarrow> (\<forall>i\<in>set is. pde_at s pd i AND PTE_P \<noteq> 0 \<longrightarrow> entry_ok (pde_at s pd i)
     \<and> (\<forall>j<1024. mem (phys s) (table_at s pd i) ! j AND PTE_P \<noteq> 0 \<longrightarrow> entry_ok (mem (phys s) (table_at s pd i) ! j)))"

text \<open>\<open>freed s s' F\<close>: the pages of \<open>F\<close> were returned and nothing else changed.\<close>

definition freed :: "machine \<Rightarrow> machine \<Rightarrow> u32 set \<Rightarrow> bool" where
  "freed s s' F \<longleftrightarrow> mem_ok s' \<and> allocated (phys s') = allocated (phys s) - F \<and> (\<forall>q. q \<notin> F \<longrightarrow> mem (phys s') q = mem (phys s) q)
     \<and> s' = s\<lparr>phys := phys s'\<rparr>"

lemma freed_trans: "freed s s1 F \<Longrightarrow> freed s1 s2 G \<Longrightarrow> freed s s2 (F \<union> G)"
  by (auto simp: freed_def) (metis machine.surjective machine.update_convs(1))

lemma free_page_spec:
  assumes "mem_ok s" "p \<in> allocated (phys s)"
  shows "\<exists>s'. free_page p s = Inr s' \<and> freed s s' {p}"
proof -
  have inv: "palloc_inv (phys s)" using assms(1) by (simp add: mem_ok_def)
  obtain user where b: "block (get_pool user (phys s)) p (Suc 0)" using allocated_block [OF assms(2)] by blast
  from palloc_free_multiple_spec [OF inv _ b] assms(2) obtain m where
    m: "palloc_free_multiple p (Suc 0) (phys s) = Inr m" "allocated m = allocated (phys s) - {p}" "palloc_inv m"
      "\<And>q. mem m q = (if q = p then replicate 1024 0xcccccccc else mem (phys s) q)" by auto
  then show ?thesis using assms(1)
    by (intro exI [of _ "s\<lparr>phys := m\<rparr>"]) (auto simp: free_page_def palloc_free_page_def freed_def mem_ok_def)
qed

lemma destroy_pt_spec:
  assumes "mem_ok s" "set is \<subseteq> {..<1024}" "\<forall>i\<in>set is. mem (phys s) pt ! i AND PTE_P \<noteq> 0 \<longrightarrow> entry_ok (mem (phys s) pt ! i)"
    and "distinct (pt_frames s pt is)" "set (pt_frames s pt is) \<subseteq> allocated (phys s)" "pt \<notin> set (pt_frames s pt is)"
  shows "\<exists>s'. destroy_pt pt is s = Inr s' \<and> freed s s' (set (pt_frames s pt is))"
  using assms
proof (induction "is" arbitrary: s)
  case Nil
  then show ?case by (simp add: pt_frames_def freed_def)
next
  case (Cons i "is")
  let ?e = "mem (phys s) pt ! i"
  have ld: "load_word (pt, i) s = Inr ?e" using Cons.prems(1,2) by (intro load_word_ok) auto
  show ?case
  proof (cases "?e AND PTE_P = 0")
    case True
    then have "pt_frames s pt (i # is) = pt_frames s pt is" by (simp add: pt_frames_def)
    then show ?thesis using Cons.IH [of s] Cons.prems True ld by simp
  next
    case False
    then have f: "pt_frames s pt (i # is) = entry_page ?e # pt_frames s pt is" by (simp add: pt_frames_def)
    obtain s1 where s1: "free_page (entry_page ?e) s = Inr s1" "freed s s1 {entry_page ?e}"
      using free_page_spec [OF Cons.prems(1), of "entry_page ?e"] Cons.prems(5) f by auto
    have pt: "mem (phys s1) pt = mem (phys s) pt" using s1(2) Cons.prems(6) f by (auto simp: freed_def)
    then have f1: "pt_frames s1 pt is = pt_frames s pt is" by (simp add: pt_frames_def)
    have al: "allocated (phys s1) = allocated (phys s) - {entry_page ?e}" "mem_ok s1" using s1(2) by (auto simp: freed_def)
    have "\<exists>s'. destroy_pt pt is s1 = Inr s' \<and> freed s1 s' (set (pt_frames s1 pt is))"
      by (rule Cons.IH) (use Cons.prems al f f1 pt in auto)
    then obtain s' where "destroy_pt pt is s1 = Inr s'" "freed s1 s' (set (pt_frames s pt is))" unfolding f1 by blast
    moreover have "pte_get_page ?e = Inr (entry_page ?e)" using Cons.prems(3) False by (intro pte_get_page_ok) simp
    ultimately show ?thesis using ld False s1(1) freed_trans [OF s1(2)] unfolding f by auto
  qed
qed

lemma destroy_pd_spec:
  assumes "mem_ok s" "set is \<subseteq> {..<1024}" "entries_ok s pd is"
    and "distinct (dir_pages s pd is)" "set (dir_pages s pd is) \<subseteq> allocated (phys s)" "pd \<notin> set (dir_pages s pd is)"
  shows "\<exists>s'. destroy_pd pd is s = Inr s' \<and> freed s s' (set (dir_pages s pd is))"
  using assms
proof (induction "is" arbitrary: s)
  case Nil
  then show ?case by (simp add: dir_pages_def freed_def)
next
  case (Cons i "is")
  let ?e = "pde_at s pd i" and ?pt = "table_at s pd i"
  have ld: "load_word (pd, i) s = Inr ?e" using Cons.prems(1,2) load_word_ok [of s i pd] by (auto simp: pde_at_def)
  have d: "dir_pages s pd (i # is) = pt_pages s pd i @ dir_pages s pd is" by (simp add: dir_pages_def)
  have tail: "set is \<subseteq> {..<1024}" "entries_ok s pd is" "distinct (dir_pages s pd is)"
      "set (dir_pages s pd is) \<subseteq> allocated (phys s)" "pd \<notin> set (dir_pages s pd is)"
    using Cons.prems(2-6) unfolding d by (auto simp: entries_ok_def)
  show ?case
  proof (cases "?e AND PTE_P = 0")
    case True
    then have "pt_pages s pd i = []" by (simp add: pt_pages_def)
    then show ?thesis using Cons.IH [OF Cons.prems(1) tail] ld True unfolding d by simp
  next
    case False
    let ?F = "pt_frames s ?pt [0..<1024]"
    have pp: "pt_pages s pd i = ?F @ [?pt]" using False by (simp add: pt_pages_def)
    have p: "distinct ?F" "?pt \<notin> set ?F" "set ?F \<subseteq> allocated (phys s)" "?pt \<in> allocated (phys s)"
        "pd \<notin> set ?F" "pd \<noteq> ?pt" "set (dir_pages s pd is) \<inter> insert ?pt (set ?F) = {}"
      using Cons.prems(4-6) unfolding d pp by auto
    have eo: "entry_ok ?e" "\<forall>j\<in>set [0..<1024]. mem (phys s) ?pt ! j AND PTE_P \<noteq> 0 \<longrightarrow> entry_ok (mem (phys s) ?pt ! j)"
      using Cons.prems(3) False by (auto simp: entries_ok_def)
    have "set [0..<1024] \<subseteq> {..<1024::nat}" by auto
    from destroy_pt_spec [OF Cons.prems(1) this eo(2) p(1,3,2)] obtain s1 where
      s1: "destroy_pt ?pt [0..<1024] s = Inr s1" "freed s s1 (set ?F)" by blast
    then have "?pt \<in> allocated (phys s1)" "mem_ok s1" using p(2,4) by (auto simp: freed_def)
    from free_page_spec [OF this(2,1)] obtain s2 where s2: "free_page ?pt s1 = Inr s2" "freed s1 s2 {?pt}" by blast
    have fr: "freed s s2 (insert ?pt (set ?F))" using freed_trans [OF s1(2) s2(2)] by (simp add: Un_commute)
    then have m2: "mem_ok s2" "allocated (phys s2) = allocated (phys s) - insert ?pt (set ?F)"
      "\<And>q. q \<notin> insert ?pt (set ?F) \<Longrightarrow> mem (phys s2) q = mem (phys s) q" by (auto simp: freed_def)
    have pde: "pde_at s2 pd j = pde_at s pd j" "table_at s2 pd j = table_at s pd j" for j
      using m2(3) [of pd] p(5,6) by (simp_all add: pde_at_def table_at_def)
    have tab: "mem (phys s2) (table_at s pd j) = mem (phys s) (table_at s pd j)" if "j \<in> set is" "pde_at s pd j AND PTE_P \<noteq> 0" for j
    proof -
      have "table_at s pd j \<in> set (dir_pages s pd is)" using that by (auto simp: dir_pages_def pt_pages_def)
      then show ?thesis using p(7) by (intro m2(3)) auto
    qed
    have "pt_pages s2 pd j = pt_pages s pd j" if "j \<in> set is" for j
      using tab [OF that] by (simp add: pt_pages_def pt_frames_def pde)
    then have dp: "dir_pages s2 pd is = dir_pages s pd is" unfolding dir_pages_def by (intro arg_cong [of _ _ concat] map_cong) auto
    have eo2: "entries_ok s2 pd is" using tail(2) tab by (auto simp: entries_ok_def pde)
    have "\<exists>s'. destroy_pd pd is s2 = Inr s' \<and> freed s2 s' (set (dir_pages s2 pd is))"
      by (rule Cons.IH [OF m2(1) tail(1) eo2]) (use tail p(7) m2(2) dp in auto)
    then obtain s' where s': "destroy_pd pd is s2 = Inr s'" "freed s2 s' (set (dir_pages s pd is))" unfolding dp by blast
    have "destroy_pd pd (i # is) s = Inr s'" using ld False pde_get_pt_ok [OF eo(1)] s1(1) s2(1) s'(1) by (simp add: table_at_def)
    moreover have "freed s s' (set (dir_pages s pd (i # is)))"
      using freed_trans [OF fr s'(2)] unfolding d pp by simp
    ultimately show ?thesis by blast
  qed
qed

section \<open>Properties\<close>

text \<open>
  C37: every operation on a page directory whose documented conditions hold returns without a
  failed assertion and changes the address spaces as its specification says: the mapping of the
  one page in the one directory, no other page and no other directory; a false answer changes
  nothing. The processor's cached translations stay coherent with the page tables throughout,
  and a look-up returns what the address space says.
\<close>

theorem pagedir_refines_spaces:
  assumes "vm_inv s P" "pd \<in> P" "op_pre op pd s"
  shows "\<exists>ok s'. exec_op op pd s = Inr (ok, s') \<and> vm_inv s' P
    \<and> (\<forall>a\<in>P. space s' a = (if a = pd \<and> ok then spec_op op (space s a) else space s a))
    \<and> (\<forall>a\<in>P. \<forall>ua. is_user_vaddr ua \<longrightarrow>
         pagedir_get_page a ua s' = Inr (case space s' a (pg_round_down ua) of None \<Rightarrow> 0 | Some (k, w) \<Rightarrow> k + pg_ofs ua))"
proof -
  from exec_op_refines [OF assms] obtain ok s' where r: "exec_op op pd s = Inr (ok, s')" "vm_inv s' P"
    "\<forall>a\<in>P. space s' a = (if a = pd \<and> ok then spec_op op (space s a) else space s a)" by blast
  moreover from r(2) have "\<forall>a\<in>P. \<forall>ua. is_user_vaddr ua \<longrightarrow>
      pagedir_get_page a ua s' = Inr (case space s' a (pg_round_down ua) of None \<Rightarrow> 0 | Some (k, w) \<Rightarrow> k + pg_ofs ua)"
    using get_page_spec by (auto simp: vm_inv_def)
  ultimately show ?thesis by blast
qed

text \<open>A machine with the kernel's directory and one empty process directory.\<close>

definition sample_machine :: machine where
  "sample_machine = \<lparr>phys = \<lparr>kernel_pool = \<lparr>used_map = \<lparr>bit_cnt = 4, bits = [0b0011]\<rparr>, pool_base = 0xc0100000\<rparr>,
       user_pool = \<lparr>used_map = \<lparr>bit_cnt = 2, bits = [0b01]\<rparr>, pool_base = 0xc0200000\<rparr>, mem = (\<lambda>p. replicate 1024 0)\<rparr>,
     base_page_dir = 0xc0100000, ram_pages = 0x400, cr3 = 0x100000, tlb = Map.empty\<rparr>"

lemma pool_geometry_inv:
  assumes "phys s = \<lparr>kernel_pool = \<lparr>used_map = \<lparr>bit_cnt = 4, bits = [a]\<rparr>, pool_base = 0xc0100000\<rparr>,
       user_pool = \<lparr>used_map = \<lparr>bit_cnt = 2, bits = [b]\<rparr>, pool_base = 0xc0200000\<rparr>, mem = m\<rparr>"
    and "\<And>q. length (m q) = 1024"
  shows "mem_ok s"
proof -
  have "page_run 0xc0100000 4 \<inter> page_run 0xc0200000 2 = {}"
    by (simp add: page_run_def lessThan_nat_numeral lessThan_Suc)
  then show ?thesis
    by (simp add: mem_ok_def assms palloc_inv_def pool_inv_def bitmap_inv_def elem_cnt_def size_wrap_def pool_pages_def
        pg_ofs_def PGMASK_def PHYS_BASE_def)
qed

lemma upt_small: "[0..<4] = [0, 1, 2, 3 :: nat]" "[0..<2] = [0, 1 :: nat]"
  by (simp_all add: upt_rec)

lemma sample_machine_inv: "vm_inv sample_machine {0xc0100000, 0xc0101000}"
proof -
  let ?s = sample_machine
  have ok: "mem_ok ?s" by (rule pool_geometry_inv, simp add: sample_machine_def, simp)
  have al: "{0xc0100000, 0xc0101000} \<subseteq> allocated (phys ?s)"
    by (simp add: allocated_def pool_used_filter sample_machine_def upt_small bitmap_bit_def bit_simps)
  have z: "pde_at ?s pd i = 0" if "i < 1024" for pd i using that by (simp add: pde_at_def sample_machine_def)
  then have t: "tables ?s pd = {}" "footprint ?s pd = {pd}" for pd by (auto simp: tables_def footprint_def)
  have at: "pte_at ?s pd v = 0" for pd v using z pd_no_bound by (simp add: pte_at_def)
  have "pd_inv ?s pd" if "pd \<in> {0xc0100000, 0xc0101000}" for pd
    using that al z by (auto simp: pd_inv_def t at inj_on_def)
  then have "dirs_inv ?s {0xc0100000, 0xc0101000}"
    using ok by (auto simp: dirs_inv_def t) (simp_all add: sample_machine_def)
  moreover have "tlb_inv ?s {0xc0100000, 0xc0101000}"
    by (simp add: tlb_inv_def sample_machine_def active_def PHYS_BASE_def)
  ultimately show ?thesis by (simp add: vm_inv_def)
qed

theorem pagedir_refines_spaces_witness:
  "\<exists>ok s'. exec_op (Set_page 0x08048000 0xc0200000 True) 0xc0101000 sample_machine = Inr (ok, s')
    \<and> vm_inv s' {0xc0100000, 0xc0101000} \<and> (ok \<longrightarrow> pagedir_get_page 0xc0101000 0x08048123 s' = Inr 0xc0200123)"
proof -
  let ?op = "Set_page 0x08048000 0xc0200000 True"
  have "space sample_machine 0xc0101000 v = None" for v
    using pd_no_bound by (simp add: space_def pte_at_def pde_at_def mapping_def sample_machine_def)
  then have "op_pre ?op 0xc0101000 sample_machine"
    by (simp add: user_page_def pg_ofs_def PGMASK_def is_user_vaddr_def PHYS_BASE_def is_kernel_vaddr_def)
      (simp add: sample_machine_def)
  from pagedir_refines_spaces [OF sample_machine_inv _ this] obtain ok s' where
    r: "exec_op ?op 0xc0101000 sample_machine = Inr (ok, s')" "vm_inv s' {0xc0100000, 0xc0101000}"
      "\<forall>a\<in>{0xc0100000, 0xc0101000}. space s' a = (if a = 0xc0101000 \<and> ok then spec_op ?op (space sample_machine a) else space sample_machine a)"
      "\<forall>a\<in>{0xc0100000, 0xc0101000}. \<forall>ua. is_user_vaddr ua \<longrightarrow>
         pagedir_get_page a ua s' = Inr (case space s' a (pg_round_down ua) of None \<Rightarrow> 0 | Some (k, w) \<Rightarrow> k + pg_ofs ua)" by auto
  have "is_user_vaddr 0x08048123" "pg_round_down 0x08048123 = 0x08048000" "pg_ofs 0x08048123 = 0x123"
    by (simp_all add: is_user_vaddr_def PHYS_BASE_def pg_round_down_def pg_ofs_def PGMASK_def)
  then have "ok \<longrightarrow> pagedir_get_page 0xc0101000 0x08048123 s' = Inr 0xc0200123" using r(3,4) by simp
  then show ?thesis using r(1,2) by blast
qed

text \<open>
  C38: \<open>pagedir_destroy\<close> returns every frame the directory maps, every page table and the
  directory itself to the page allocator, each exactly once, and touches no other page, provided no
  page is referenced twice.
\<close>

theorem pagedir_destroy_frees:
  assumes "mem_ok s" "pd \<noteq> base_page_dir s" "entries_ok s pd [0..<768]"
    and "distinct (pd # dir_pages s pd [0..<768])" "set (pd # dir_pages s pd [0..<768]) \<subseteq> allocated (phys s)"
  shows "\<exists>s'. pagedir_destroy pd s = Inr s' \<and> freed s s' (set (pd # dir_pages s pd [0..<768]))"
proof -
  have "pd_no PHYS_BASE = 768" by (simp add: pd_no_unat PHYS_BASE_def)
  moreover have "set [0..<768] \<subseteq> {..<1024::nat}" by auto
  from destroy_pd_spec [OF assms(1) this assms(3)] obtain s1 where
    s1: "destroy_pd pd [0..<768] s = Inr s1" "freed s s1 (set (dir_pages s pd [0..<768]))"
    using assms(4,5) by auto
  moreover from s1(2) have "mem_ok s1" "pd \<in> allocated (phys s1)" using assms(4,5) by (auto simp: freed_def)
  from free_page_spec [OF this] obtain s2 where "free_page pd s1 = Inr s2" "freed s1 s2 {pd}" by blast
  moreover have "pd \<noteq> 0" using allocated_page(4) assms(1,5) by (auto simp: mem_ok_def)
  ultimately show ?thesis using freed_trans [OF s1(2), of s2 "{pd}"] assms(2) by (simp add: pagedir_destroy_def)
qed

text \<open>A process directory with one page table that maps one frame.\<close>

definition sample_process :: machine where
  "sample_process = sample_machine\<lparr>phys := \<lparr>kernel_pool = \<lparr>used_map = \<lparr>bit_cnt = 4, bits = [0b0111]\<rparr>, pool_base = 0xc0100000\<rparr>,
     user_pool = \<lparr>used_map = \<lparr>bit_cnt = 2, bits = [0b01]\<rparr>, pool_base = 0xc0200000\<rparr>,
     mem = (\<lambda>p. replicate 1024 0)(0xc0101000 := (replicate 1024 0)[32 := 0x00102007],
        0xc0102000 := (replicate 1024 0)[72 := 0x00200007])\<rparr>\<rparr>"

lemma sample_process_facts:
  "pde_at sample_process 0xc0101000 i = (replicate 1024 0)[32 := 0x00102007] ! i"
  "table_at sample_process 0xc0101000 32 = 0xc0102000"
  "mem (phys sample_process) 0xc0102000 = (replicate 1024 0)[72 := 0x00200007]"
  by (simp_all add: pde_at_def table_at_def sample_process_def entry_page_def PTE_ADDR_def PHYS_BASE_def)

lemma concat_single:
  assumes "i < n" "\<And>j. j < n \<Longrightarrow> j \<noteq> i \<Longrightarrow> f j = []"
  shows "concat (map f [0..<n]) = f i"
  using assms by (induction n) (auto simp: less_Suc_eq)

lemma sample_process_pages: "dir_pages sample_process 0xc0101000 [0..<768] = [0xc0200000, 0xc0102000]"
proof -
  let ?s = sample_process and ?l = "(replicate 1024 0)[72 := 0x00200007 :: u32]"
  have upd: "?l = replicate 72 0 @ [0x00200007] @ replicate 951 0" by (simp add: upd_conv_take_nth_drop)
  have "map (\<lambda>i. ?l ! i) [0..<1024] = ?l" using map_nth [of ?l] by simp
  then have "pt_frames ?s 0xc0102000 [0..<1024] = map entry_page (filter (\<lambda>e. e AND PTE_P \<noteq> 0) ?l)"
    unfolding pt_frames_def sample_process_facts by (simp only:)
  also have "\<dots> = [0xc0200000]" unfolding upd by (simp add: filter_replicate PTE_P_def entry_page_def PTE_ADDR_def PHYS_BASE_def)
  finally have p32: "pt_pages ?s 0xc0101000 32 = [0xc0200000, 0xc0102000]"
    unfolding pt_pages_def sample_process_facts by (simp add: PTE_P_def)
  have none: "pt_pages ?s 0xc0101000 i = []" if "i \<noteq> 32" "i < 1024" for i
    using that unfolding pt_pages_def sample_process_facts by simp
  then show ?thesis unfolding dir_pages_def using p32 by (subst concat_single [of 32]) (simp_all only:, simp_all)
qed

theorem pagedir_destroy_frees_witness:
  "\<exists>s'. pagedir_destroy 0xc0101000 sample_process = Inr s'
    \<and> freed sample_process s' {0xc0101000, 0xc0200000, 0xc0102000}"
proof -
  let ?s = sample_process
  have ok: "mem_ok ?s" by (rule pool_geometry_inv, simp add: sample_process_def, simp)
  have e: "entry_ok 0x00102007" "entry_ok 0x00200007" by (simp_all add: entry_ok_def PTE_P_def PTE_ADDR_def PHYS_BASE_def)
  have "entries_ok ?s 0xc0101000 [0..<768]"
    unfolding entries_ok_def
  proof (intro ballI impI)
    fix i
    assume "i \<in> set [0..<768]" "pde_at ?s 0xc0101000 i AND PTE_P \<noteq> 0"
    then have i: "i = 32" unfolding sample_process_facts by (auto simp: nth_list_update split: if_splits)
    have "pde_at ?s 0xc0101000 32 = 0x00102007" unfolding sample_process_facts by simp
    moreover have "entry_ok (mem (phys ?s) (table_at ?s 0xc0101000 32) ! j)"
      if "j < 1024" "mem (phys ?s) (table_at ?s 0xc0101000 32) ! j AND PTE_P \<noteq> 0" for j
      using that e(2) unfolding sample_process_facts by (auto simp: nth_list_update split: if_splits)
    ultimately show "entry_ok (pde_at ?s 0xc0101000 i) \<and> (\<forall>j<1024. mem (phys ?s) (table_at ?s 0xc0101000 i) ! j AND PTE_P \<noteq> 0
        \<longrightarrow> entry_ok (mem (phys ?s) (table_at ?s 0xc0101000 i) ! j))"
      unfolding i using e(1) by simp
  qed
  moreover have "{0xc0101000, 0xc0200000, 0xc0102000} \<subseteq> allocated (phys ?s)"
    by (simp add: allocated_def pool_used_filter sample_process_def upt_small bitmap_bit_def bit_simps)
  ultimately show ?thesis
    using pagedir_destroy_frees [OF ok, of "0xc0101000"] unfolding sample_process_pages
    by (simp add: sample_process_def sample_machine_def)
qed

end
