(* ===== verification/Vm.thy ===== *)
theory Vm
  imports Pagedir Page Free_Map
begin

text \<open>
  Demand paging (\<open>src/vm/frame.c\<close>, \<open>src/vm/swap.c\<close>, \<open>src/vm/page.c\<close> and \<open>page_fault\<close> of
  \<open>src/userprog/exception.c\<close>): the supplemental page tables of the processes, the list of the
  frames they occupy, and the swap device.

  The state joins the machine of \<open>Pagedir\<close>, the file system and the tables of this component.
  Entries of the tables live at addresses \<open>malloc\<close> returned; the two lists of frames are the
  sequences of their elements, as the refinement of kernel lists allows. A supplemental page
  table is the hash table of \<open>KHash\<close>. One thread at a time runs a paging operation:
  the locks \<open>framesem\<close>, \<open>swap_lock\<close> and \<open>handlesem\<close> are not part of the state. The code holds them
  around less than that: \<open>swap_in\<close> releases \<open>framesem\<close> between taking the frame and reading the
  slot into it, and \<open>swap_out\<close> does not take \<open>swap_lock\<close>, so what another process does in between is not covered. A computation that reads through a
  pointer the code never set is a \<open>PageFault\<close>.

  The bounds of the two loops are the length of the frame list: each turn of the eviction
  clock clears an accessed bit, and each failed request for a frame evicts one.
\<close>

section \<open>State\<close>

record frame_table_entry =
  frame :: u32
  owner :: nat
  fspte :: addr
  fuaddr :: u32

record vm =
  vfs :: fs
  mach :: machine
  sptes :: "addr \<Rightarrow> sup_page_table_entry"
  ftes :: "addr \<Rightarrow> frame_table_entry"
  curr :: nat
  spt :: "nat \<Rightarrow> addr hash"
  suppagetable :: "nat \<Rightarrow> bool"
  pagedir :: "nat \<Rightarrow> u32"
  proc_frames :: "nat \<Rightarrow> addr list"
  next_mapid :: "nat \<Rightarrow> int"
  nextmmapfd :: "nat \<Rightarrow> int"
  exit_status :: "nat \<Rightarrow> int"
  global_frame_list :: "addr list"
  swap_table :: bitmap
  swap_device :: disk

definition on_mach :: "(machine \<Rightarrow> ('a \<times> machine) res) \<Rightarrow> vm \<Rightarrow> ('a \<times> vm) res" where
  "on_mach f s = rbind (f (mach s)) (\<lambda>(x, m). Inr (x, s\<lparr>mach := m\<rparr>))"

definition upd_mach :: "(machine \<Rightarrow> machine res) \<Rightarrow> vm \<Rightarrow> vm res" where
  "upd_mach f s = rbind (f (mach s)) (\<lambda>m. Inr (s\<lparr>mach := m\<rparr>))"

text \<open>\<open>malloc\<close>: the next address or a null pointer.\<close>

definition vm_alloc :: "vm \<Rightarrow> vm \<times> addr option" where
  "vm_alloc s = (let (f, p) = kalloc (vfs s) in (s\<lparr>vfs := f\<rparr>, p))"

text \<open>The words of a page, and what a process finds at the address of a frame.\<close>

definition page_at :: "vm \<Rightarrow> u32 \<Rightarrow> u32 list" where
  "page_at s k = mem (phys (mach s)) k"

definition put_page :: "u32 \<Rightarrow> u32 list \<Rightarrow> vm \<Rightarrow> vm" where
  "put_page k ws s = s\<lparr>mach := (mach s)\<lparr>phys := (phys (mach s))\<lparr>mem := (mem (phys (mach s)))(k := ws)\<rparr>\<rparr>\<rparr>"

section \<open>The swap device\<close>

definition swap_init :: "disk \<Rightarrow> bitmap option \<Rightarrow> vm \<Rightarrow> vm res" where
  "swap_init d table s =
     (case table of None \<Rightarrow> Inl PageFault | Some b \<Rightarrow> Inr (s\<lparr>swap_device := d, swap_table := b\<rparr>))"

fun read_sectors :: "nat list \<Rightarrow> int \<Rightarrow> u32 \<Rightarrow> vm \<Rightarrow> vm res" where
  "read_sectors [] realindex fr s = Inr s"
| "read_sectors (i # is) realindex fr s =
     rbind (disk_read (swap_device s) (nat (u32_of (realindex + int i)))) (\<lambda>(d, bs).
       read_sectors is realindex fr
         (put_page fr (overwrite (page_at s fr) (128 * i) (words_le 128 bs)) (s\<lparr>swap_device := d\<rparr>)))"

definition read_from_disk :: "u32 \<Rightarrow> int \<Rightarrow> vm \<Rightarrow> vm res" where
  "read_from_disk fr index s = read_sectors [0..<8] (s32_of (index * 8)) fr s"

fun write_sectors :: "nat list \<Rightarrow> int \<Rightarrow> u32 \<Rightarrow> vm \<Rightarrow> vm res" where
  "write_sectors [] realindex fr s = Inr s"
| "write_sectors (i # is) realindex fr s =
     rbind (disk_write (swap_device s) (nat (u32_of (realindex + int i))) (le_words (take 128 (drop (128 * i) (page_at s fr)))))
       (\<lambda>d. write_sectors is realindex fr (s\<lparr>swap_device := d\<rparr>))"

definition write_to_disk :: "u32 \<Rightarrow> int \<Rightarrow> vm \<Rightarrow> vm res" where
  "write_to_disk fr index s = write_sectors [0..<8] (s32_of (index * 8)) fr s"

section \<open>Frames\<close>

definition frame_init :: "vm \<Rightarrow> vm" where
  "frame_init s = s\<lparr>global_frame_list := []\<rparr>"

text \<open>
  The eviction clock: while the first frame's page was accessed, its bit is cleared and the frame
  moves to the back. On an empty list the function ends without a result.
\<close>

definition fte_page :: "vm \<Rightarrow> addr \<Rightarrow> u32 \<times> u32" where
  "fte_page s f = (pagedir s (owner (ftes s f)), user_vaddr (sptes s (fspte (ftes s f))))"

fun evict_clock :: "nat \<Rightarrow> vm \<Rightarrow> (addr \<times> vm) res" where
  "evict_clock 0 s = Inl OutOfFuel"
| "evict_clock (Suc n) s =
     (case global_frame_list s of
        [] \<Rightarrow> Inl PageFault
      | f # fs \<Rightarrow>
          let (pd, va) = fte_page s f
          in rbind (pagedir_is_accessed pd va (mach s)) (\<lambda>a.
            if a
            then rbind (upd_mach (pagedir_set_accessed pd va False) s) (\<lambda>s1. evict_clock n (s1\<lparr>global_frame_list := fs @ [f]\<rparr>))
            else Inr (f, s)))"

definition select_fte_for_evict :: "vm \<Rightarrow> (addr \<times> vm) res" where
  "select_fte_for_evict s =
     (if global_frame_list s = [] then Inl PageFault
      else rbind (evict_clock (Suc (length (global_frame_list s))) s) (\<lambda>(f, s1).
        let (pd, va) = fte_page s1 f in rbind (upd_mach (pagedir_clear_page pd va) s1) (\<lambda>s2. Inr (f, s2))))"

definition swap_out :: "vm \<Rightarrow> vm res" where
  "swap_out s =
     rbind (select_fte_for_evict s) (\<lambda>(f, s1).
     rbind (bitmap_scan_and_flip (swap_table s1) 0 1 False) (\<lambda>(b, index).
     rguard Panic (index \<noteq> BITMAP_ERROR)
       (let e = ftes s1 f; p = fspte e;
            s2 = s1\<lparr>swap_table := b, sptes := (sptes s1)(p := (sptes s1 p)\<lparr>swapindex := s32_of (int index), inswap := True\<rparr>)\<rparr>
        in rbind (write_to_disk (frame e) (s32_of (int index)) s2) (\<lambda>s3.
          let s4 = s3\<lparr>global_frame_list := remove1 f (global_frame_list s3),
                      proc_frames := (proc_frames s3)(owner e := remove1 f (proc_frames s3 (owner e)))\<rparr>
          in upd_mach (free_page (frame e)) s4))))"

text \<open>\<open>palloc_get_page\<close>, evicting frames until it succeeds.\<close>

fun get_frame :: "nat \<Rightarrow> u32 \<Rightarrow> vm \<Rightarrow> (u32 \<times> vm) res" where
  "get_frame 0 flags s = Inl OutOfFuel"
| "get_frame (Suc n) flags s =
     rbind (on_mach (get_page flags) s) (\<lambda>(fr, s1).
       if fr = 0 then rbind (swap_out s1) (get_frame n flags) else Inr (fr, s1))"

definition find_entry :: "vm \<Rightarrow> u32 \<Rightarrow> addr option" where
  "find_entry s va = find_spte (sptes s) (spt s (curr s)) 0 va"

definition allocate_frame :: "u32 \<Rightarrow> u32 \<Rightarrow> vm \<Rightarrow> (u32 \<times> vm) res" where
  "allocate_frame uaddr flags s =
     rbind (get_frame (Suc (length (global_frame_list s))) flags s) (\<lambda>(fr, s1).
     case vm_alloc s1 of
       (s2, None) \<Rightarrow> Inl PageFault
     | (s2, Some f) \<Rightarrow>
         let pd = pagedir s2 (curr s2);
             s3 = s2\<lparr>ftes := (ftes s2)(f := \<lparr>frame = fr, owner = curr s2, fspte = 0, fuaddr = uaddr\<rparr>)\<rparr>
         in case find_entry s3 (pg_round_down uaddr) of
              Some p \<Rightarrow>
                let s4 = s3\<lparr>ftes := (ftes s3)(f := (ftes s3 f)\<lparr>fspte := p\<rparr>)\<rparr>
                in rbind (pagedir_get_page pd uaddr (mach s4)) (\<lambda>k.
                  if k = 0
                  then rbind (on_mach (pagedir_set_page pd uaddr fr (spte_writable (sptes s4 p))) s4) (\<lambda>(_, s5).
                    Inr (fr, s5\<lparr>proc_frames := (proc_frames s5)(curr s5 := proc_frames s5 (curr s5) @ [f]),
                                global_frame_list := global_frame_list s5 @ [f]\<rparr>))
                  else rbind (upd_mach (free_page fr) s4) (\<lambda>s5. Inr (0, s5)))
            | None \<Rightarrow> rbind (upd_mach (free_page fr) s3) (\<lambda>s4. Inr (0, s4)))"

definition swap_in :: "u32 \<Rightarrow> vm \<Rightarrow> vm res" where
  "swap_in addr s =
     (case find_entry s (pg_round_down addr) of
        None \<Rightarrow> Inl PageFault
      | Some p \<Rightarrow>
          rbind (allocate_frame (user_vaddr (sptes s p)) (PAL_USER OR PAL_ZERO) s) (\<lambda>(fr, s1).
          rguard Panic (fr \<noteq> 0)
            (rbind (read_from_disk fr (swapindex (sptes s1 p)) s1) (\<lambda>s2.
             rbind (bitmap_flip (swap_table s2) (nat (u32_of (swapindex (sptes s2 p))))) (\<lambda>b.
               Inr (s2\<lparr>swap_table := b, sptes := (sptes s2)(p := (sptes s2 p)\<lparr>swapindex := - 1, inswap := False\<rparr>)\<rparr>))))))"

section \<open>Supplemental page tables\<close>

text \<open>
  \<open>page_init\<close>: the table of the running thread; whether the bucket array could be allocated is
  not tested. \<open>allocate_page\<close> leaves the members it does not set as they were.
\<close>

definition page_init :: "vm \<Rightarrow> vm" where
  "page_init s =
     (let (s1, p) = vm_alloc s; (s2, q) = vm_alloc s1
      in s2\<lparr>suppagetable := (suppagetable s2)(curr s2 := p \<noteq> None), spt := (spt s2)(curr s2 := fst (hash_init (q \<noteq> None))),
           next_mapid := (next_mapid s2)(curr s2 := 3), nextmmapfd := (nextmmapfd s2)(curr s2 := 3)\<rparr>)"

definition allocate_page :: "nat \<Rightarrow> int \<Rightarrow> u32 \<Rightarrow> nat \<Rightarrow> nat \<Rightarrow> bool \<Rightarrow> vm \<Rightarrow> addr option \<times> vm" where
  "allocate_page file ofs upage rbytes zbytes writable s =
     (let s1 = (if suppagetable s (curr s) then s else page_init s);
          (s2, p) = vm_alloc s1
      in case p of
           None \<Rightarrow> (None, s2)
         | Some p \<Rightarrow>
             let e = (sptes s2 p)\<lparr>user_vaddr := upage, mapid := 0, mmapfd := 0, inswap := False, swapindex := - 1\<rparr>;
                 e1 = (if file \<noteq> 0
                       then e\<lparr>filerelated := True, spte_file := file, spte_ofs := ofs, read_bytes := rbytes, zero_bytes := zbytes\<rparr>
                       else e\<lparr>filerelated := False\<rparr>);
                 sp = (sptes s2)(p := e1\<lparr>spte_writable := writable\<rparr>);
                 (s3, q) = vm_alloc s2;
                 h = fst (hash_insert (q \<noteq> None) (hash_spte sp) (compare_spte sp) (spt s3 (curr s3)) p)
             in (Some p, s3\<lparr>sptes := sp, spt := (spt s3)(curr s3 := h)\<rparr>))"

text \<open>Writing a mapped page back to its file; the page is read through the address of the process.\<close>

definition user_bytes :: "vm \<Rightarrow> u32 \<Rightarrow> byte list res" where
  "user_bytes s va = rbind (pagedir_get_page (pagedir s (curr s)) va (mach s)) (\<lambda>k.
     rguard PageFault (k \<noteq> 0) (Inr (le_words (page_at s k))))"

definition spte_set_dirty :: "u32 \<Rightarrow> bool \<Rightarrow> vm \<Rightarrow> vm" where
  "spte_set_dirty upage d s =
     (case find_entry s (pg_round_down upage) of
        Some p \<Rightarrow> s\<lparr>sptes := (sptes s)(p := (sptes s p)\<lparr>spte_dirty := d\<rparr>)\<rparr>
      | None \<Rightarrow> s)"

definition before_munmap :: "addr \<Rightarrow> vm \<Rightarrow> vm res" where
  "before_munmap p s =
     (let e = sptes s p; pd = pagedir s (curr s)
      in if mapid e = 0 then Inr s
      else rbind (pagedir_is_dirty pd (user_vaddr e) (mach s)) (\<lambda>d.
        if \<not> d then Inr s
        else let s1 = spte_set_dirty (user_vaddr e) True s
          in rbind (file_tell (vfs s1) (spte_file e)) (\<lambda>pos.
             rbind (user_bytes s1 (user_vaddr e)) (\<lambda>bs.
             rbind (file_write_at free_map_allocate (vfs s1) (spte_file e) bs (s32_of (int (read_bytes e))) (spte_ofs e)) (\<lambda>(fs1, _).
             rbind (file_seek fs1 (spte_file e) pos) (\<lambda>fs2.
               upd_mach (pagedir_set_dirty pd (user_vaddr e) False) (s1\<lparr>vfs := fs2\<rparr>)))))))"

fun munmap_all :: "nat \<Rightarrow> hash_iterator \<Rightarrow> vm \<Rightarrow> vm res" where
  "munmap_all 0 i s = Inl OutOfFuel"
| "munmap_all (Suc n) i s =
     (case hash_cur (spt s (curr s)) i of
        None \<Rightarrow> Inr s
      | Some p \<Rightarrow> rbind (before_munmap p s) (\<lambda>s1. rbind (hash_next (spt s1 (curr s1)) i) (\<lambda>i1. munmap_all n i1 s1)))"

definition destroy_spt :: "vm \<Rightarrow> vm res" where
  "destroy_spt s = rbind (hash_next (spt s (curr s)) hash_first)
     (\<lambda>i. munmap_all (Suc (helem_cnt (spt s (curr s)))) i s)"

section \<open>Page faults\<close>

datatype fault_result = Resume | Exit_process

text \<open>\<open>returnstatus = -1\<close> and \<open>thread_exit ()\<close>.\<close>

definition set_exit :: "vm \<Rightarrow> vm" where
  "set_exit s = s\<lparr>exit_status := (exit_status s)(curr s := - 1)\<rparr>"

definition kill_process :: "vm \<Rightarrow> (fault_result \<times> vm) res" where
  "kill_process s = Inr (Exit_process, set_exit s)"

text \<open>Bringing in a page of a file: the first bytes from the file, the rest of the frame is zero.\<close>

definition load_file_page :: "addr \<Rightarrow> vm \<Rightarrow> (fault_result \<times> vm) res" where
  "load_file_page p s =
     (let e = sptes s p
      in kassert ((read_bytes e + zero_bytes e) mod PGSIZE = 0) (kassert (pg_ofs (user_vaddr e) = 0)
        (rbind (allocate_frame (user_vaddr e) (PAL_USER OR PAL_ZERO) s) (\<lambda>(k, s1).
          if k = 0 then kill_process s1
          else rbind (file_read_at free_map_allocate (vfs s1) (spte_file e) (le_words (page_at s1 k)) (s32_of (int (read_bytes e))) (spte_ofs e))
            (\<lambda>(fs1, bs, n).
              let s2 = put_page k (words_le 1024 bs) (s1\<lparr>vfs := fs1\<rparr>)
              in if n \<noteq> s32_of (int (read_bytes e))
                 then rbind (upd_mach (free_page k) s2) (\<lambda>s3. Inr (Resume, s3))
                 else rbind (upd_mach (pagedir_set_writable (pagedir s2 (curr s2)) (user_vaddr e) (spte_writable e)) s2)
                        (\<lambda>s3. Inr (Resume, s3)))))))"

definition grow_user_stack :: "u32 \<Rightarrow> vm \<Rightarrow> (fault_result \<times> vm) res" where
  "grow_user_stack fault_addr s =
     (let (_, s1) = allocate_page 0 0 (pg_round_down fault_addr) 0 0 True s
      in rbind (allocate_frame (pg_round_down fault_addr) (PAL_USER OR PAL_ZERO) s1) (\<lambda>(_, s2). Inr (Resume, s2)))"

definition is_code_vaddr :: "u32 \<Rightarrow> bool" where
  "is_code_vaddr v \<longleftrightarrow> v < 0xa0058000"

definition is_code_section :: "u32 \<Rightarrow> bool" where
  "is_code_section v \<longleftrightarrow> v \<le> 0x08058000"

text \<open>
  A fault of the kernel on behalf of a process: \<open>stack\<close> is the stack pointer saved at the entry of
  the system call.
\<close>

definition kernel_fault :: "u32 \<Rightarrow> bool \<Rightarrow> u32 \<Rightarrow> vm \<Rightarrow> (fault_result \<times> vm) res" where
  "kernel_fault fault_addr not_present stack s =
     (if \<not> not_present then kill_process s
      else rguard Panic (is_user_vaddr fault_addr)
        (let spte = find_entry s (pg_round_down fault_addr)
         in if spte = None \<and> fault_addr \<le> stack \<or> is_code_section stack then kill_process s
         else case spte of
           Some p \<Rightarrow> rguard Panic (spte_file (sptes s p) \<noteq> 0) (load_file_page p s)
         | None \<Rightarrow> grow_user_stack fault_addr s))"

definition user_fault :: "u32 \<Rightarrow> u32 \<Rightarrow> vm \<Rightarrow> (fault_result \<times> vm) res" where
  "user_fault fault_addr esp s =
     (if fault_addr = 0 \<or> is_kernel_vaddr fault_addr then kill_process s
      else if is_code_vaddr esp then Inr (Resume, set_exit s)
      else case find_entry s (pg_round_down fault_addr) of
        None \<Rightarrow>
          if is_code_vaddr fault_addr then kill_process s
          else if esp \<le> fault_addr \<or> esp - fault_addr = 32 \<or> esp - fault_addr = 4 then grow_user_stack fault_addr s
          else kill_process s
      | Some p \<Rightarrow>
          if inswap (sptes s p) then rbind (swap_in (user_vaddr (sptes s p)) s) (\<lambda>s1. Inr (Resume, s1))
          else rguard Panic (spte_file (sptes s p) \<noteq> 0) (load_file_page p s))"

definition page_fault :: "u32 \<Rightarrow> bool \<Rightarrow> bool \<Rightarrow> u32 \<Rightarrow> u32 \<Rightarrow> vm \<Rightarrow> (fault_result \<times> vm) res" where
  "page_fault fault_addr not_present user stack esp s =
     (if \<not> user then kernel_fault fault_addr not_present stack s else user_fault fault_addr esp s)"

end
