(* ===== verification/Process.thy ===== *)
theory Process
  imports Vm Directory CString
begin

text \<open>
  User processes (\<open>src/userprog/process.c\<close>): loading an ELF executable into the supplemental page
  table, building the initial stack with the arguments of the program, and releasing what a
  process holds when it exits.

  A command line is the list of its bytes before the null byte; the loops over \<open>strtok_r\<close> on a
  private copy run over its tokens. Memory of the process is written through its page
  directory: a byte of a page that is not present goes through the page fault handler first, and
  a page that is still absent afterwards is a \<open>PageFault\<close>. A header buffer is read
  only after it was filled. Releasing a pointer that was never set is a \<open>PageFault\<close>; the task state
  segment, console messages and locks held around one call are not part of the state. The
  semaphores of parent and child are the subject of \<open>Process_Sync\<close>.
\<close>

section \<open>State\<close>

record proc =
  pvm :: vm
  process_stack :: u32
  exec_file :: "nat option"
  fdtable :: "nat option list"
  filenum :: int

datatype 'a run = Done 'a | Killed

type_synonym 'a procm = "proc \<Rightarrow> ('a run \<times> proc) res"

definition pret :: "'a \<Rightarrow> 'a procm" where
  "pret x s = Inr (Done x, s)"

definition pbind :: "'a procm \<Rightarrow> ('a \<Rightarrow> 'b procm) \<Rightarrow> 'b procm" where
  "pbind m f s = rbind (m s) (\<lambda>(r, s1). case r of Done x \<Rightarrow> f x s1 | Killed \<Rightarrow> Inr (Killed, s1))"

definition pget :: "(proc \<Rightarrow> 'a) \<Rightarrow> 'a procm" where
  "pget f s = Inr (Done (f s), s)"

definition pupd :: "(proc \<Rightarrow> proc) \<Rightarrow> unit procm" where
  "pupd f s = Inr (Done (), f s)"

text \<open>Steps of the machine, of the virtual memory and of the file system.\<close>

definition pmach :: "(machine \<Rightarrow> ('a \<times> machine) res) \<Rightarrow> 'a procm" where
  "pmach f s = rbind (on_mach f (pvm s)) (\<lambda>(x, v). Inr (Done x, s\<lparr>pvm := v\<rparr>))"

definition pmachu :: "(machine \<Rightarrow> machine res) \<Rightarrow> unit procm" where
  "pmachu f s = rbind (upd_mach f (pvm s)) (\<lambda>v. Inr (Done (), s\<lparr>pvm := v\<rparr>))"

definition pvmm :: "(vm \<Rightarrow> ('a \<times> vm) res) \<Rightarrow> 'a procm" where
  "pvmm f s = rbind (f (pvm s)) (\<lambda>(x, v). Inr (Done x, s\<lparr>pvm := v\<rparr>))"

definition pfs :: "(fs \<Rightarrow> (fs \<times> 'a) res) \<Rightarrow> 'a procm" where
  "pfs f s = rbind (f (vfs (pvm s))) (\<lambda>(fs, x). Inr (Done x, s\<lparr>pvm := (pvm s)\<lparr>vfs := fs\<rparr>\<rparr>))"

definition pfsu :: "(fs \<Rightarrow> fs res) \<Rightarrow> unit procm" where
  "pfsu f = pfs (\<lambda>fs. rbind (f fs) (\<lambda>fs1. Inr (fs1, ())))"

definition cur_pd :: "proc \<Rightarrow> u32" where
  "cur_pd s = pagedir (pvm s) (curr (pvm s))"

section \<open>Executables\<close>

type_synonym half = "16 word"

definition half_at :: "byte list \<Rightarrow> nat \<Rightarrow> half" where
  "half_at bs i = word_of_nat (unat (bs ! i) + 256 * unat (bs ! (i + 1)))"

definition word_at :: "byte list \<Rightarrow> nat \<Rightarrow> u32" where
  "word_at bs i = le_word (take 4 (drop i bs))"

record Elf32_Ehdr =
  e_ident :: "byte list"
  e_type :: half
  e_machine :: half
  e_version :: u32
  e_entry :: u32
  e_phoff :: u32
  e_shoff :: u32
  e_flags :: u32
  e_ehsize :: half
  e_phentsize :: half
  e_phnum :: half
  e_shentsize :: half
  e_shnum :: half
  e_shstrndx :: half

record Elf32_Phdr =
  p_type :: u32
  p_offset :: u32
  p_vaddr :: u32
  p_paddr :: u32
  p_filesz :: u32
  p_memsz :: u32
  p_flags :: u32
  p_align :: u32

definition ehdr_size :: nat where "ehdr_size = 52"

definition phdr_size :: nat where "phdr_size = 32"

definition ehdr_of :: "byte list \<Rightarrow> Elf32_Ehdr" where
  "ehdr_of bs = \<lparr>e_ident = take 16 bs, e_type = half_at bs 16, e_machine = half_at bs 18, e_version = word_at bs 20,
     e_entry = word_at bs 24, e_phoff = word_at bs 28, e_shoff = word_at bs 32, e_flags = word_at bs 36, e_ehsize = half_at bs 40,
     e_phentsize = half_at bs 42, e_phnum = half_at bs 44, e_shentsize = half_at bs 46, e_shnum = half_at bs 48, e_shstrndx = half_at bs 50\<rparr>"

definition phdr_of :: "byte list \<Rightarrow> Elf32_Phdr" where
  "phdr_of bs = \<lparr>p_type = word_at bs 0, p_offset = word_at bs 4, p_vaddr = word_at bs 8, p_paddr = word_at bs 12,
     p_filesz = word_at bs 16, p_memsz = word_at bs 20, p_flags = word_at bs 24, p_align = word_at bs 28\<rparr>"

definition PT_LOAD :: u32 where "PT_LOAD = 1"
definition PT_DYNAMIC :: u32 where "PT_DYNAMIC = 2"
definition PT_INTERP :: u32 where "PT_INTERP = 3"
definition PT_SHLIB :: u32 where "PT_SHLIB = 5"
definition PF_W :: u32 where "PF_W = 2"

text \<open>The test of the executable header.\<close>

definition elf_magic :: "byte list" where
  "elf_magic = [127, 69, 76, 70, 1, 1, 1]"

definition ehdr_ok :: "Elf32_Ehdr \<Rightarrow> bool" where
  "ehdr_ok h \<longleftrightarrow> take 7 (e_ident h) = elf_magic \<and> e_type h = 2 \<and> e_machine h = 3 \<and> e_version h = 1
     \<and> e_phentsize h = word_of_nat phdr_size \<and> e_phnum h \<le> 1024"

definition validate_segment :: "Elf32_Phdr \<Rightarrow> int \<Rightarrow> bool" where
  "validate_segment ph len =
     (if p_offset ph AND PGMASK \<noteq> p_vaddr ph AND PGMASK then False
      else if p_offset ph > word_of_int len then False
      else if p_memsz ph < p_filesz ph then False
      else if p_memsz ph = 0 then False
      else if \<not> is_user_vaddr (p_vaddr ph) then False
      else if \<not> is_user_vaddr (p_vaddr ph + p_memsz ph) then False
      else \<not> p_vaddr ph + p_memsz ph < p_vaddr ph)"

definition ROUND_UP :: "u32 \<Rightarrow> u32 \<Rightarrow> u32" where
  "ROUND_UP x step = (x + step - 1) div step * step"

definition segment_bytes :: "Elf32_Phdr \<Rightarrow> u32 \<times> u32" where
  "segment_bytes ph =
     (let page_offset = p_vaddr ph AND PGMASK
      in if 0 < p_filesz ph
         then let rd = page_offset + p_filesz ph in (rd, ROUND_UP (page_offset + p_memsz ph) (word_of_nat PGSIZE) - rd)
         else (0, ROUND_UP (page_offset + p_memsz ph) (word_of_nat PGSIZE)))"

text \<open>
  The pages of a segment; the result of \<open>allocate_page\<close> is not tested. The bound of the loop is
  one more than the pages of both parts.
\<close>

fun segment_pages :: "nat \<Rightarrow> nat \<Rightarrow> int \<Rightarrow> u32 \<Rightarrow> u32 \<Rightarrow> u32 \<Rightarrow> bool \<Rightarrow> vm \<Rightarrow> vm res" where
  "segment_pages 0 file ofs upage rd zb writable s = Inl OutOfFuel"
| "segment_pages (Suc n) file ofs upage rd zb writable s =
     (if rd > 0 \<or> zb > 0
      then let page_read = (if rd < word_of_nat PGSIZE then rd else word_of_nat PGSIZE);
               page_zero = word_of_nat PGSIZE - page_read;
               s1 = snd (allocate_page file ofs upage (unat page_read) (unat page_zero) writable s)
           in segment_pages n file (s32_of (ofs + uint (page_read + page_zero))) (upage + word_of_nat PGSIZE)
                (rd - page_read) (zb - page_zero) writable s1
      else Inr s)"

definition segment_fuel :: "u32 \<Rightarrow> u32 \<Rightarrow> nat" where
  "segment_fuel rd zb = Suc ((unat rd + unat zb) div PGSIZE)"

definition load_segment :: "nat \<Rightarrow> int \<Rightarrow> u32 \<Rightarrow> u32 \<Rightarrow> u32 \<Rightarrow> bool \<Rightarrow> vm \<Rightarrow> (bool \<times> vm) res" where
  "load_segment file ofs upage rd zb writable s =
     kassert (unat (rd + zb) mod PGSIZE = 0) (kassert (pg_ofs upage = 0) (kassert (ofs smod int PGSIZE = 0)
       (rbind (segment_pages (segment_fuel rd zb) file ofs upage rd zb writable s) (\<lambda>s1. Inr (True, s1)))))"

definition load_phdr :: "nat \<Rightarrow> Elf32_Phdr \<Rightarrow> vm \<Rightarrow> (bool \<times> vm) res" where
  "load_phdr file ph s =
     (if p_type ph \<in> {PT_DYNAMIC, PT_INTERP, PT_SHLIB} then Inr (False, s)
      else if p_type ph = PT_LOAD then
        rbind (file_length (vfs s) file) (\<lambda>len.
          if validate_segment ph len
          then let (rd, zb) = segment_bytes ph
               in load_segment file (sint (p_offset ph AND NOT PGMASK)) (p_vaddr ph AND NOT PGMASK) rd zb (p_flags ph AND PF_W \<noteq> 0) s
          else Inr (False, s))
      else Inr (True, s))"

fun load_phdrs :: "nat \<Rightarrow> nat \<Rightarrow> int \<Rightarrow> vm \<Rightarrow> (bool \<times> vm) res" where
  "load_phdrs 0 file file_ofs s = Inr (True, s)"
| "load_phdrs (Suc n) file file_ofs s =
     rbind (file_length (vfs s) file) (\<lambda>len.
       if file_ofs < 0 \<or> file_ofs > len then Inr (False, s)
       else rbind (file_seek (vfs s) file file_ofs) (\<lambda>fs1.
         rbind (file_read free_map_allocate fs1 file (replicate phdr_size 0) (int phdr_size)) (\<lambda>(fs2, bs, n_read).
           let s1 = s\<lparr>vfs := fs2\<rparr>
           in if n_read \<noteq> int phdr_size then Inr (False, s1)
              else rbind (load_phdr file (phdr_of bs) s1) (\<lambda>(ok, s2).
                if ok then load_phdrs n file (s32_of (file_ofs + int phdr_size)) s2 else Inr (False, s2)))))"

section \<open>The initial stack\<close>

text \<open>A store of the kernel to an address of the process.\<close>

definition user_put :: "u32 \<Rightarrow> byte \<Rightarrow> unit procm" where
  "user_put a b s =
     (let put = (\<lambda>s. rbind (pagedir_get_page (cur_pd s) (pg_round_down a) (mach (pvm s))) (\<lambda>k.
            if k = 0 then Inl PageFault
            else rbind (pagedir_is_writable (cur_pd s) (pg_round_down a) (mach (pvm s))) (\<lambda>w.
              if w then Inr (Done (), s\<lparr>pvm := put_page k (words_le 1024 ((le_words (page_at (pvm s) k))[unat (pg_ofs a) := b])) (pvm s)\<rparr>)
              else rbind (kernel_fault a False (process_stack s) (pvm s)) (\<lambda>(_, v). Inr (Killed, s\<lparr>pvm := v\<rparr>)))))
      in rbind (pagedir_get_page (cur_pd s) (pg_round_down a) (mach (pvm s))) (\<lambda>k.
        if k \<noteq> 0 then put s
        else rbind (kernel_fault a True (process_stack s) (pvm s)) (\<lambda>(r, v).
          case r of Exit_process \<Rightarrow> Inr (Killed, s\<lparr>pvm := v\<rparr>) | Resume \<Rightarrow> put (s\<lparr>pvm := v\<rparr>))))"

fun user_puts :: "u32 \<Rightarrow> byte list \<Rightarrow> unit procm" where
  "user_puts a [] = pret ()"
| "user_puts a (b # bs) = pbind (user_put a b) (\<lambda>_. user_puts (a + 1) bs)"

definition user_put_word :: "u32 \<Rightarrow> u32 \<Rightarrow> unit procm" where
  "user_put_word a w = user_puts a (le_bytes w)"

text \<open>The loop over the arguments: a pointer and the string it points to.\<close>

fun put_args :: "u32 \<Rightarrow> u32 \<Rightarrow> byte list list \<Rightarrow> u32 procm" where
  "put_args esp temp [] = pret esp"
| "put_args esp temp (tok # toks) =
     pbind (user_put_word esp (esp + temp)) (\<lambda>_.
     pbind (user_puts (esp + temp) (tok @ [0])) (\<lambda>_.
       put_args (esp + 4) (temp - 4 + word_of_nat (length tok + 1)) toks))"

definition space_char :: byte where "space_char = 32"

definition arg_length :: "byte list list \<Rightarrow> nat" where
  "arg_length toks = 1 + sum_list (map (\<lambda>t. length t + 1) toks)"

definition build_stack :: "byte list list \<Rightarrow> u32 procm" where
  "build_stack toks =
     (let argc = length toks; esp = PHYS_BASE - word_of_nat (arg_length toks + 12 + (argc + 1) * 4)
      in pbind (pupd (\<lambda>s. s\<lparr>process_stack := esp\<rparr>)) (\<lambda>_.
         pbind (user_put_word esp 0) (\<lambda>_.
         pbind (user_put_word (esp + 4) (word_of_nat argc)) (\<lambda>_.
         pbind (user_put_word (esp + 8) (esp + 12)) (\<lambda>_.
         pbind (put_args (esp + 12) (word_of_nat (4 * (argc + 1) + 1)) toks) (\<lambda>a.
         pbind (user_put_word a 0) (\<lambda>_.
         pbind (user_put (a + 4) 0) (\<lambda>_. pret esp)))))))) "

text \<open>
  \<open>setup_stack\<close>: the answer, and the stack pointer if it was set. Without a page for the copy of
  the command line the code returns \<open>TID_ERROR\<close>, which is true.
\<close>

definition setup_stack :: "byte list \<Rightarrow> (bool \<times> u32 option) procm" where
  "setup_stack file_name =
     pbind (pmach (get_page 0)) (\<lambda>fn_copy.
     if fn_copy = 0 then pret (True, None) else
     pbind (pvmm (\<lambda>v. Inr (allocate_page 0 0 (PHYS_BASE - word_of_nat PGSIZE) 0 0 True v))) (\<lambda>_.
     pbind (pvmm (allocate_frame (PHYS_BASE - word_of_nat PGSIZE) (PAL_USER OR PAL_ZERO))) (\<lambda>kpage.
     pbind (if kpage = 0 then pret None else pbind (build_stack (tokens [space_char] file_name)) (\<lambda>esp. pret (Some esp))) (\<lambda>esp.
     pbind (pmachu (free_page fn_copy)) (\<lambda>_. pret (kpage \<noteq> 0, esp))))))"

definition process_activate :: "unit procm" where
  "process_activate = pbind (pget cur_pd) (\<lambda>pd. pmachu (pagedir_activate pd))"

text \<open>
  \<open>load\<close>: whether it succeeded, the entry point and the stack pointer as far as they were set.
  Without a page directory the copy of the command line, not yet made, is released; without a page
  for the copy the answer is \<open>TID_ERROR\<close>, which is true.
\<close>

definition open_executable :: "byte list \<Rightarrow> nat option procm" where
  "open_executable file_name =
     (case tokens [space_char] file_name of
        [] \<Rightarrow> (\<lambda>s. Inl PageFault)
      | tok # _ \<Rightarrow>
          pbind (pfs (\<lambda>fs. filesys_open fs tok)) (\<lambda>file.
          case file of
            None \<Rightarrow> pret None
          | Some f \<Rightarrow>
              pbind (pupd (\<lambda>s. s\<lparr>filenum := s32_of (filenum s + 1)\<rparr>)) (\<lambda>_.
              pbind (pfsu (\<lambda>fs. file_deny_write fs f)) (\<lambda>_.
              pbind (pupd (\<lambda>s. s\<lparr>exec_file := Some f\<rparr>)) (\<lambda>_. pret (Some f))))))"

definition load_image :: "nat \<Rightarrow> byte list \<Rightarrow> (bool \<times> u32 option \<times> u32 option) procm" where
  "load_image file file_name =
     pbind (pfs (\<lambda>fs. rbind (file_read free_map_allocate fs file (replicate ehdr_size 0) (int ehdr_size)) (\<lambda>(fs1, bs, n). Inr (fs1, bs, n))))
     (\<lambda>(bs, n).
       if n \<noteq> int ehdr_size \<or> \<not> ehdr_ok (ehdr_of bs) then pret (False, None, None)
       else
         pbind (pvmm (load_phdrs (unat (e_phnum (ehdr_of bs))) file (sint (e_phoff (ehdr_of bs))))) (\<lambda>ok.
         if \<not> ok then pret (False, None, None)
         else pbind (setup_stack file_name) (\<lambda>(ok, esp).
           if \<not> ok then pret (False, None, esp) else pret (True, Some (e_entry (ehdr_of bs)), esp))))"

definition load :: "byte list \<Rightarrow> (bool \<times> u32 option \<times> u32 option) procm" where
  "load file_name =
     pbind (pmach pagedir_create) (\<lambda>pd.
     pbind (pupd (\<lambda>s. s\<lparr>pvm := (pvm s)\<lparr>pagedir := (pagedir (pvm s))(curr (pvm s) := pd)\<rparr>\<rparr>)) (\<lambda>_.
     if pd = 0 then (\<lambda>s. Inl PageFault) else
     pbind process_activate (\<lambda>_.
     pbind (pmach (get_page 0)) (\<lambda>fn_copy.
     if fn_copy = 0 then pret (True, None, None) else
     pbind (open_executable file_name) (\<lambda>file.
     pbind (case file of None \<Rightarrow> pret (False, None, None) | Some f \<Rightarrow> load_image f (take (PGSIZE - 1) file_name)) (\<lambda>r.
     pbind (pmachu (free_page fn_copy)) (\<lambda>_. pret r)))))))"

definition install_page :: "u32 \<Rightarrow> u32 \<Rightarrow> bool \<Rightarrow> bool procm" where
  "install_page upage kpage writable =
     pbind (pget cur_pd) (\<lambda>pd.
     pbind (pmach (\<lambda>m. rbind (pagedir_get_page pd upage m) (\<lambda>k. Inr (k, m)))) (\<lambda>k.
     if k = 0 then pmach (pagedir_set_page pd upage kpage writable) else pret False))"

section \<open>The end of a process\<close>

definition remove_frames :: "vm \<Rightarrow> vm" where
  "remove_frames s =
     s\<lparr>global_frame_list := filter (\<lambda>f. f \<notin> set (proc_frames s (curr s))) (global_frame_list s),
       proc_frames := (proc_frames s)(curr s := [])\<rparr>"

definition exit_memory :: "vm \<Rightarrow> vm res" where
  "exit_memory s =
     rbind (if suppagetable s (curr s) then rbind (destroy_spt s) (\<lambda>s1. Inr (remove_frames s1)) else Inr s) (\<lambda>s1.
       let pd = pagedir s1 (curr s1)
       in if pd = 0 then Inr s1
          else let s2 = s1\<lparr>pagedir := (pagedir s1)(curr s1 := 0)\<rparr>
            in rbind (upd_mach (pagedir_activate 0) s2) (upd_mach (pagedir_destroy pd)))"

fun close_files :: "nat option list \<Rightarrow> fs \<Rightarrow> fs res" where
  "close_files [] s = Inr s"
| "close_files (None # fds) s = close_files fds s"
| "close_files (Some f # fds) s = rbind (file_close s (Some f)) (close_files fds)"

definition process_exit :: "unit procm" where
  "process_exit =
     pbind (pvmm (\<lambda>v. rbind (exit_memory v) (\<lambda>v1. Inr ((), v1)))) (\<lambda>_.
     pbind (pget fdtable) (\<lambda>fds.
     pbind (pfsu (close_files fds)) (\<lambda>_.
     pbind (pget exec_file) (\<lambda>file.
     pbind (pfsu (\<lambda>fs. file_close fs file)) (\<lambda>_.
       pupd (\<lambda>s. s\<lparr>filenum := s32_of (filenum s - int (length (filter (\<lambda>f. f \<noteq> None) (fds @ [file])))), exec_file := None\<rparr>))))))"

end
