(* ===== verification/Vm_Spec.thy ===== *)
theory Vm_Spec
  imports Vm
begin

text \<open>
  Paging is invisible to processes: whatever is evicted, every page of every process keeps its
  contents, and a page that is brought back is mapped with them.
\<close>

section \<open>Steps of a page directory\<close>

text \<open>
  \<open>dir_step P pd s s'\<close>: a step of the kernel on the directory \<open>pd\<close>. It writes to the pages of this
  directory and to pages nobody had only, and the other directories keep their entries.
\<close>

definition dir_step :: "u32 set \<Rightarrow> u32 \<Rightarrow> machine \<Rightarrow> machine \<Rightarrow> bool" where
  "dir_step P pd s s' \<longleftrightarrow> vm_inv s' P \<and> base_page_dir s' = base_page_dir s \<and> ram_pages s' = ram_pages s
     \<and> same_pools (phys s) (phys s') \<and> allocated (phys s) \<subseteq> allocated (phys s')
     \<and> (\<forall>q\<in>allocated (phys s). q \<notin> footprint s pd \<longrightarrow> mem (phys s') q = mem (phys s) q)
     \<and> (\<forall>a\<in>P. footprint s' a \<inter> allocated (phys s) \<subseteq> footprint s a)
     \<and> (\<forall>a\<in>P. a \<noteq> pd \<longrightarrow> (\<forall>v. is_user_vaddr v \<longrightarrow> pte_at s' a v = pte_at s a v))"

lemma same_pools_refl [simp]: "same_pools s s"
  by (simp add: same_pools_def)

lemma same_pools_trans: "same_pools s s1 \<Longrightarrow> same_pools s1 s2 \<Longrightarrow> same_pools s s2"
  by (simp add: same_pools_def)

lemma same_pools_put [simp]: "same_pools s (put_word a w s)"
  by (simp add: same_pools_def put_word_def get_pool_def)

lemma dir_step_refl: "vm_inv s P \<Longrightarrow> dir_step P pd s s"
  by (simp add: dir_step_def)

lemma dir_stepD:
  assumes "dir_step P pd s s'"
  shows "vm_inv s' P" "base_page_dir s' = base_page_dir s" "ram_pages s' = ram_pages s" "same_pools (phys s) (phys s')"
    "allocated (phys s) \<subseteq> allocated (phys s')"
    "q \<in> allocated (phys s) \<Longrightarrow> q \<notin> footprint s pd \<Longrightarrow> mem (phys s') q = mem (phys s) q"
    "a \<in> P \<Longrightarrow> footprint s' a \<inter> allocated (phys s) \<subseteq> footprint s a"
    "a \<in> P \<Longrightarrow> a \<noteq> pd \<Longrightarrow> is_user_vaddr v \<Longrightarrow> pte_at s' a v = pte_at s a v"
  using assms unfolding dir_step_def by blast+

lemma dir_step_trans:
  assumes "dir_step P pd s s1" "dir_step P pd s1 s2" "pd \<in> P"
  shows "dir_step P pd s s2"
proof -
  note 1 = dir_stepD [OF assms(1)] and 2 = dir_stepD [OF assms(2)]
  have "mem (phys s2) q = mem (phys s) q" if "q \<in> allocated (phys s)" "q \<notin> footprint s pd" for q
    using subsetD [OF 1(5) that(1)] 1(7) [OF assms(3)] 1(6) [OF that] 2(6) [of q] that by auto
  moreover have "footprint s2 a \<inter> allocated (phys s) \<subseteq> footprint s a" if "a \<in> P" for a
    using 1(5) 1(7) [OF that] 2(7) [OF that] by blast
  moreover have "pte_at s2 a v = pte_at s a v" if "a \<in> P" "a \<noteq> pd" "is_user_vaddr v" for a v
    using 1(8) 2(8) that by simp
  ultimately show ?thesis
    unfolding dir_step_def using 1(2,3,5) 2(1,2,3,5) same_pools_trans [OF 1(4) 2(4)] by auto
qed

lemma invalidate_same:
  assumes "invalidate_pagedir pd s = Inr s'"
  shows "phys s' = phys s" "base_page_dir s' = base_page_dir s" "ram_pages s' = ram_pages s"
  using assms by (auto simp: invalidate_pagedir_def active_pd_def ptov_def vtop_def pagedir_activate_def Let_def split: if_splits)

text \<open>Writing one entry of an existing page table.\<close>

lemma put_pte_step:
  assumes "vm_inv s P" "pd \<in> P" "user_page u" "pde_at s pd (pd_no u) \<noteq> 0" "e AND PTE_P \<noteq> 0 \<Longrightarrow> entry_ok e"
  defines "s1 \<equiv> s\<lparr>phys := put_word (table_at s pd (pd_no u), pt_no u) e (phys s)\<rparr>"
  assumes "vm_inv s' P" "phys s' = phys s1" "base_page_dir s' = base_page_dir s" "ram_pages s' = ram_pages s"
  shows "dir_step P pd s s'" "user_page v \<Longrightarrow> pte_at s' pd v = (if v = u then e else pte_at s pd v)"
proof -
  have d: "dirs_inv s P" and u: "is_user_vaddr u" "pg_ofs u = 0" using assms(1,3) by (auto simp: vm_inv_def user_page_def)
  note pg = dirs_inv_page [OF d assms(2)]
  note st = store_pte [OF pg(1,2) u(1) assms(4,5), folded s1_def]
  have b1: "base_page_dir s1 = base_page_dir s" by (simp add: s1_def)
  have same: "pte_at s' = pte_at s1" using assms(8,9) b1 by (intro phys_only(3)) simp_all
  have fs: "footprint s' = footprint s1"
    using assms(8) by (intro ext) (simp add: footprint_def tables_def table_at_def pde_at_def)
  have t: "table_at s pd (pd_no u) \<in> footprint s pd" using assms(4) pd_no_user [OF u(1)] by (auto simp: footprint_def tables_def)
  have m: "mem (phys s1) q = mem (phys s) q" if "q \<notin> footprint s pd" for q using that t by (auto simp: s1_def)
  have al: "allocated (phys s1) = allocated (phys s)" by (simp add: s1_def)
  have ok: "mem_ok s1" unfolding s1_def by (rule mem_ok_put [OF pg(1)])
  have ds: "footprint s1 a = footprint s a \<and> (\<forall>v. is_user_vaddr v \<longrightarrow> pte_at s1 a v = pte_at s a v)" if "a \<in> P" "a \<noteq> pd" for a
  proof -
    have a: "pd_inv s a" "footprint s a \<inter> footprint s pd = {}" using d assms(2) that by (auto simp: dirs_inv_def)
    have "mem (phys s1) q = mem (phys s) q" if "q \<in> footprint s a" for q using m a(2) that by blast
    moreover have "footprint s a \<subseteq> allocated (phys s1)" using a(1) al by (simp add: pd_inv_def)
    ultimately show ?thesis using pd_frame(3,4) [OF a(1), of s1] by blast
  qed
  show "dir_step P pd s s'"
    unfolding dir_step_def same fs assms(8) al using assms(7,9,10) m ds st(2) by (auto simp: s1_def)
  show "pte_at s' pd v = (if v = u then e else pte_at s pd v)" if "user_page v"
    using st(3) [of v] that u same_page [of v u] unfolding same by (auto simp: user_page_def)
qed

lemma write_step:
  assumes "vm_inv s P" "pd \<in> P" "user_page u" "pde_at s pd (pd_no u) \<noteq> 0" "e AND PTE_P \<noteq> 0 \<Longrightarrow> entry_ok e"
  shows "\<exists>s'. rbind (store_word (table_at s pd (pd_no u), pt_no u) e s) (invalidate_pagedir pd) = Inr s' \<and> dir_step P pd s s'
    \<and> allocated (phys s') = allocated (phys s)
    \<and> (\<forall>v. user_page v \<longrightarrow> pte_at s' pd v = (if v = u then e else pte_at s pd v))"
proof -
  define s1 where "s1 = s\<lparr>phys := put_word (table_at s pd (pd_no u), pt_no u) e (phys s)\<rparr>"
  from write_and_invalidate [OF assms] obtain s' where
    s': "rbind (store_word (table_at s pd (pd_no u), pt_no u) e s) (invalidate_pagedir pd) = Inr s'" "vm_inv s' P" by blast
  have "store_word (table_at s pd (pd_no u), pt_no u) e s = Inr s1"
    using write_pte(1) [OF assms] by (simp add: s1_def)
  then have "invalidate_pagedir pd s1 = Inr s'" using s'(1) by simp
  note iv = invalidate_same [OF this]
  have "phys s' = phys (s\<lparr>phys := put_word (table_at s pd (pd_no u), pt_no u) e (phys s)\<rparr>)"
    "base_page_dir s' = base_page_dir s" "ram_pages s' = ram_pages s" using iv by (simp_all add: s1_def)
  from put_pte_step [OF assms s'(2) this] s'(1) this(1) show ?thesis by auto
qed

text \<open>Clearing the accessed bit, and unmapping a page.\<close>

lemma clear_accessed_step:
  assumes "vm_inv s P" "pd \<in> P" "user_page u"
  shows "\<exists>s'. pagedir_set_accessed pd u False s = Inr s' \<and> dir_step P pd s s' \<and> allocated (phys s') = allocated (phys s)
    \<and> (\<forall>v. user_page v \<longrightarrow> pte_at s' pd v = (if v = u then pte_at s pd u AND NOT PTE_A else pte_at s pd v))"
proof (cases "pde_at s pd (pd_no u) = 0")
  case True
  have "pte_at s pd u = 0" using True by (simp add: pte_at_def)
  then show ?thesis
    using lookup_none [OF _ assms(2) True] assms(1) dir_step_refl by (auto simp: pagedir_set_accessed_def set_pte_flag_def vm_inv_def)
next
  case False
  have d: "dirs_inv s P" "is_user_vaddr u" using assms(1,3) by (auto simp: vm_inv_def user_page_def)
  note ld = load_pte [OF d(1) assms(2) d(2) False]
  have "entry_ok (pte_at s pd u AND NOT PTE_A)" if "(pte_at s pd u AND NOT PTE_A) AND PTE_P \<noteq> 0"
    using flag_mapping(2,3) [of PTE_A "pte_at s pd u AND NOT PTE_A" False "pte_at s pd u"] ld(3) that by simp
  from write_step [OF assms False this] show ?thesis using ld(1,2) by (simp add: pagedir_set_accessed_def set_pte_flag_def)
qed

lemma clear_page_step:
  assumes "vm_inv s P" "pd \<in> P" "user_page u" "space s pd u \<noteq> None"
  shows "\<exists>s'. pagedir_clear_page pd u s = Inr s' \<and> dir_step P pd s s' \<and> allocated (phys s') = allocated (phys s)
    \<and> (\<forall>v. user_page v \<longrightarrow> pte_at s' pd v = (if v = u then pte_at s pd u AND NOT PTE_P else pte_at s pd v))"
proof -
  have d: "dirs_inv s P" "is_user_vaddr u" "pg_ofs u = 0" using assms(1,3) by (auto simp: vm_inv_def user_page_def)
  have e: "pte_at s pd u AND PTE_P \<noteq> 0" using assms(4) by (auto simp: space_def mapping_def split: if_splits)
  then have t: "pde_at s pd (pd_no u) \<noteq> 0" by (auto simp: pte_at_def)
  have "(pte_at s pd u AND NOT PTE_P) AND PTE_P = 0" by (simp add: and.assoc)
  then show ?thesis
    using write_step [OF assms(1-3) t, of "pte_at s pd u AND NOT PTE_P"] load_pte [OF d(1) assms(2) d(2) t] d(2,3) e
    by (simp add: pagedir_clear_page_def)
qed

lemma is_accessed_eq:
  assumes "vm_inv s P" "pd \<in> P" "user_page u"
  shows "pagedir_is_accessed pd u s = Inr (pte_at s pd u AND PTE_A \<noteq> 0)"
proof (cases "pde_at s pd (pd_no u) = 0")
  case True
  then show ?thesis using lookup_none [OF _ assms(2) True] assms(1) by (simp add: pagedir_is_accessed_def pte_flag_def vm_inv_def pte_at_def)
next
  case False
  have d: "dirs_inv s P" "is_user_vaddr u" using assms(1,3) by (auto simp: vm_inv_def user_page_def)
  show ?thesis using load_pte [OF d(1) assms(2) d(2) False] by (simp add: pagedir_is_accessed_def pte_flag_def)
qed

text \<open>Mapping a page succeeds if the kernel pool has a page left for a page table.\<close>

definition kernel_room :: "pmem \<Rightarrow> bool" where
  "kernel_room m \<longleftrightarrow> (\<exists>p. block (kernel_pool m) p 1 \<and> p \<notin> allocated m)"

lemma get_page_same_pools:
  assumes "mem_ok s" "get_page flags s = Inr (p, s')"
  shows "same_pools (phys s) (phys s')"
proof -
  have inv: "palloc_inv (phys s)" using assms(1) by (simp add: mem_ok_def)
  show ?thesis using palloc_get_multiple_cases [OF inv zero_less_one, of flags] assms(2)
    by (auto simp: get_page_def palloc_get_page_def split: if_splits)
qed

lemma get_table_page:
  assumes "mem_ok s" "kernel_room (phys s)" "get_page PAL_ZERO s = Inr (p, s')"
  shows "p \<noteq> 0"
proof -
  have inv: "palloc_inv (phys s)" "pool_inv (kernel_pool (phys s))" using assms(1) by (simp_all add: mem_ok_def palloc_inv_def)
  have u: "PAL_ZERO AND PAL_USER = 0" "get_pool False (phys s) = kernel_pool (phys s)" by (simp_all add: PAL_ZERO_def PAL_USER_def get_pool_def)
  show ?thesis
    using palloc_get_multiple_cases [OF inv(1) zero_less_one, of PAL_ZERO] assms(2,3) u block_nonnull(1) [OF inv(2)]
    by (auto simp: get_page_def palloc_get_page_def kernel_room_def split: if_splits)
qed

lemma create_table_step:
  assumes "vm_inv s P" "pd \<in> P" "user_page u" "pde_at s pd (pd_no u) = 0" "pd \<noteq> base_page_dir s" "kernel_room (phys s)"
  shows "\<exists>s'. lookup_page pd u True s = Inr (Some (table_at s' pd (pd_no u), pt_no u), s') \<and> dir_step P pd s s'
    \<and> pde_at s' pd (pd_no u) \<noteq> 0 \<and> (\<forall>v. is_user_vaddr v \<longrightarrow> pte_at s' pd v = pte_at s pd v)"
proof -
  have d: "dirs_inv s P" "is_user_vaddr u" using assms(1,3) by (auto simp: vm_inv_def user_page_def)
  note pg = dirs_inv_page [OF d(1) assms(2)]
  have nn: "lookup_page pd u True s \<noteq> Inr (None, s1)" for s1
    using assms(4) pg(1,4) d(2) get_table_page [OF pg(1) assms(6)]
    by (auto simp: lookup_page_def load_word_ok pd_no_bound pde_at_def Let_def split: if_splits)
  from create_table_spec [OF assms(1-5)] nn obtain s1 where
    s1: "lookup_page pd u True s = Inr (Some (table_at s1 pd (pd_no u), pt_no u), s1)" "vm_inv s1 P"
      "base_page_dir s1 = base_page_dir s" "ram_pages s1 = ram_pages s" by blast
  from lookup_page_create [OF pg(1,2) d(2) assms(4)] nn obtain m pt where
    l: "lookup_page pd u True s = Inr (Some (table_at (s\<lparr>phys := m\<rparr>) pd (pd_no u), pt_no u), s\<lparr>phys := m\<rparr>)"
      "pde_at (s\<lparr>phys := m\<rparr>) pd (pd_no u) \<noteq> 0" "footprint (s\<lparr>phys := m\<rparr>) pd = insert pt (footprint s pd)"
      "pt \<notin> allocated (phys s)" "allocated m = insert pt (allocated (phys s))"
      "\<forall>q. q \<noteq> pd \<and> q \<noteq> pt \<longrightarrow> mem m q = mem (phys s) q"
      "\<forall>v. is_user_vaddr v \<longrightarrow> pte_at (s\<lparr>phys := m\<rparr>) pd v = pte_at s pd v" unfolding Let_def by blast
  have eq: "s1 = s\<lparr>phys := m\<rparr>" using s1(1) l(1) by simp
  have ph: "phys s1 = m" using eq by simp
  have fr: "mem m q = mem (phys s) q" if "q \<in> allocated (phys s)" "q \<notin> footprint s pd" for q
    using l(4,6) that by (auto simp: footprint_def)
  have oth: "footprint s1 a = footprint s a \<and> (\<forall>v. is_user_vaddr v \<longrightarrow> pte_at s1 a v = pte_at s a v)" if "a \<in> P" "a \<noteq> pd" for a
  proof -
    have a: "pd_inv s a" "footprint s a \<inter> footprint s pd = {}" "footprint s a \<subseteq> allocated (phys s)"
      using d(1) assms(2) that by (auto simp: dirs_inv_def pd_inv_def)
    have "mem (phys s1) q = mem (phys s) q" if "q \<in> footprint s a" for q using fr [of q] a that ph by blast
    moreover have "footprint s a \<subseteq> allocated (phys s1)" using a(3) l(5) ph by auto
    ultimately show ?thesis using pd_frame(3,4) [OF a(1), of s1] by blast
  qed
  have sp: "same_pools (phys s) m"
  proof -
    obtain p s2 where g: "get_page PAL_ZERO s = Inr (p, s2)" "p \<noteq> 0"
      using get_zero_page [OF pg(1)] get_table_page [OF pg(1) assms(6)] by blast
    have "same_pools (phys s2) m"
      using l(1) g assms(4) pg(1,4) d(2)
      by (auto simp: lookup_page_def load_word_ok pd_no_bound pde_at_def store_word_def Let_def dest!: arg_cong [of _ "s\<lparr>phys := m\<rparr>" phys])
    then show ?thesis using get_page_same_pools [OF pg(1) g(1)] same_pools_trans by blast
  qed
  have "footprint s1 a \<inter> allocated (phys s) \<subseteq> footprint s a" if "a \<in> P" for a
    using oth [OF that] l(3,4) eq by (cases "a = pd") auto
  then have "dir_step P pd s s1"
    unfolding dir_step_def using s1(2-4) sp l(5) fr oth ph by auto
  then show ?thesis using s1(1) l(2,7) unfolding eq by blast
qed

lemma set_page_step:
  assumes "vm_inv s P" "pd \<in> P" "user_page u" "pd \<noteq> base_page_dir s" "space s pd u = None" "kernel_room (phys s)"
    and "pg_ofs k = 0" "is_kernel_vaddr k" "k - PHYS_BASE < PHYS_BASE" "unat (drop_bit 12 (k - PHYS_BASE)) < ram_pages s"
  shows "\<exists>s'. pagedir_set_page pd u k w s = Inr (True, s') \<and> dir_step P pd s s'
    \<and> space s' pd = (space s pd)(u \<mapsto> (k, w))"
proof -
  have u: "is_user_vaddr u" "pg_ofs u = 0" using assms(3) by (auto simp: user_page_def)
  have np: "pte_at s pd u AND PTE_P = 0" using assms(3,5) by (auto simp: space_def mapping_def split: if_splits)
  obtain e where e: "pte_create_user k w = Inr e" "pte_get_page e = Inr k" "e AND PTE_P \<noteq> 0"
    using pte_create_user_get [OF assms(7-9)] by blast
  then have ek: "entry_ok e" by (auto simp: pte_get_page_def ptov_def entry_ok_def)
  obtain s1 where s1: "lookup_page pd u True s = Inr (Some (table_at s1 pd (pd_no u), pt_no u), s1)" "dir_step P pd s s1"
      "pde_at s1 pd (pd_no u) \<noteq> 0" "\<And>v. is_user_vaddr v \<Longrightarrow> pte_at s1 pd v = pte_at s pd v"
  proof (cases "pde_at s pd (pd_no u) = 0")
    case True
    then show ?thesis using create_table_step [OF assms(1-3) True assms(4,6)] that by blast
  next
    case False
    have "dirs_inv s P" using assms(1) by (simp add: vm_inv_def)
    from load_pte(2) [OF this assms(2) u(1) False] False show ?thesis using dir_step_refl [OF assms(1)] by (intro that [of s]) auto
  qed
  have i1: "vm_inv s1 P" "dirs_inv s1 P" using dir_stepD(1) [OF s1(2)] by (simp_all add: vm_inv_def)
  note ld = load_pte [OF i1(2) assms(2) u(1) s1(3)]
  define s2 where "s2 = s1\<lparr>phys := put_word (table_at s1 pd (pd_no u), pt_no u) e (phys s1)\<rparr>"
  have st: "store_word (table_at s1 pd (pd_no u), pt_no u) e s1 = Inr s2"
    using write_pte(1) [OF i1(1) assms(2,3) s1(3)] ek by (simp add: s2_def)
  have r: "pagedir_set_page pd u k w s = Inr (True, s2)"
    using assms(4,7,8,10) u s1(1) ld(1) s1(4) [OF u(1)] np e(1) st by (simp add: pagedir_set_page_def vtop_def)
  from set_page_spec [OF assms(1-5,7-10), of w] r have i2: "vm_inv s2 P" "space s2 pd = (space s pd)(u \<mapsto> (k, w))" by auto
  have "dir_step P pd s1 s2" using put_pte_step(1) [OF i1(1) assms(2,3) s1(3), of e s2] ek i2(1) by (simp add: s2_def)
  then show ?thesis using r i2(2) dir_step_trans [OF s1(2) _ assms(2)] by blast
qed

lemma space_pte_cong: "(\<And>v. user_page v \<Longrightarrow> pte_at s' pd v = pte_at s pd v) \<Longrightarrow> space s' pd = space s pd"
  by (simp add: space_def fun_eq_iff)

lemma dir_step_space:
  assumes "dir_step P pd s s'" "a \<in> P" "a \<noteq> pd"
  shows "space s' a = space s a"
  using dir_stepD(8) [OF assms] by (intro space_pte_cong) (simp add: user_page_def)

section \<open>Frames\<close>

text \<open>A frame is taken from, and returned to, pages no directory is made of.\<close>

lemma vm_inv_mem:
  assumes "vm_inv s P" "mem_ok s'" "base_page_dir s' = base_page_dir s" "cr3 s' = cr3 s" "tlb s' = tlb s"
    and "\<And>a q. a \<in> P \<Longrightarrow> q \<in> footprint s a \<Longrightarrow> mem (phys s') q = mem (phys s) q"
    and "\<And>a. a \<in> P \<Longrightarrow> footprint s a \<subseteq> allocated (phys s')"
  shows "vm_inv s' P" "a \<in> P \<Longrightarrow> footprint s' a = footprint s a" "a \<in> P \<Longrightarrow> space s' a = space s a"
    "a \<in> P \<Longrightarrow> is_user_vaddr v \<Longrightarrow> pte_at s' a v = pte_at s a v"
proof -
  have d: "dirs_inv s P" "tlb_inv s P" using assms(1) by (simp_all add: vm_inv_def)
  have fr: "footprint s' a = footprint s a" "pd_inv s' a" "space s' a = space s a" "is_user_vaddr v \<Longrightarrow> pte_at s' a v = pte_at s a v"
    if "a \<in> P" for a v
  proof -
    have i: "pd_inv s a" using d(1) that by (auto simp: dirs_inv_def)
    note f = pd_frame [of s a s', OF i assms(6) [OF that] assms(7) [OF that]]
    show "footprint s' a = footprint s a" "pd_inv s' a" "space s' a = space s a" "is_user_vaddr v \<Longrightarrow> pte_at s' a v = pte_at s a v"
      using f by simp_all
  qed
  show "a \<in> P \<Longrightarrow> footprint s' a = footprint s a" "a \<in> P \<Longrightarrow> space s' a = space s a"
    "a \<in> P \<Longrightarrow> is_user_vaddr v \<Longrightarrow> pte_at s' a v = pte_at s a v" using fr by simp_all
  have b: "base_page_dir s \<in> P" "tables s (base_page_dir s) = {}" using d(1) by (auto simp: dirs_inv_def)
  have "tables s' (base_page_dir s) = {}"
    using tables_footprint [OF fr(2) [OF b(1)]] tables_footprint [of s "base_page_dir s"] fr(1) [OF b(1)] b d(1) by (auto simp: dirs_inv_def)
  then have "dirs_inv s' P" using d(1) fr(1,2) assms(2,3) by (auto simp: dirs_inv_def)
  moreover have "active s' = active s" using assms(4) by (simp add: active_def)
  then have "tlb_inv s' P" using d(2) fr(4) assms(4,5) by (auto simp: tlb_inv_def user_page_def)
  ultimately show "vm_inv s' P" by (simp add: vm_inv_def)
qed

section \<open>Slots of the swap device\<close>

text \<open>The words a slot of eight sectors holds.\<close>

definition slot_words :: "disk \<Rightarrow> nat \<Rightarrow> u32 list" where
  "slot_words d i = concat (map (\<lambda>j. words_le 128 (sectors d (8 * i + j))) [0..<8])"

lemma sector_number: "k + j < 2 ^ 28 \<Longrightarrow> nat (u32_of (int k + int j)) = k + j"
proof -
  assume "k + j < 2 ^ 28"
  then have "u32_of (int k + int j) = int (k + j)" by (subst u32_of_id) simp_all
  then show ?thesis by simp
qed

lemma write_sectors_spec:
  assumes "\<And>j. j \<in> set js \<Longrightarrow> k + j < capacity (swap_device s)" "capacity (swap_device s) \<le> 2 ^ 28"
  shows "\<exists>d. write_sectors js (int k) fr s = Inr (s\<lparr>swap_device := d\<rparr>) \<and> capacity d = capacity (swap_device s)
    \<and> (\<forall>q. sectors d q = (if \<exists>j\<in>set js. q = k + j then le_words (take 128 (drop (128 * (q - k)) (page_at s fr))) else sectors (swap_device s) q))"
  using assms
proof (induction js arbitrary: s)
  case (Cons j js)
  have j: "k + j < capacity (swap_device s)" "k + j < 2 ^ 28" using Cons.prems(1) [of j] Cons.prems(2) by simp_all
  define d where "d = (swap_device s)\<lparr>sectors := (sectors (swap_device s))(k + j := le_words (take 128 (drop (128 * j) (page_at s fr)))),
      write_cnt := write_cnt (swap_device s) + 1\<rparr>"
  have w: "disk_write (swap_device s) (nat (u32_of (int k + int j))) (le_words (take 128 (drop (128 * j) (page_at s fr)))) = Inr d"
    using j unfolding sector_number [OF j(2)] by (simp add: disk_write_def select_sector_def d_def)
  let ?s = "s\<lparr>swap_device := d\<rparr>"
  have p: "page_at ?s fr = page_at s fr" "capacity d = capacity (swap_device s)" by (simp_all add: page_at_def d_def)
  from Cons.IH [of ?s] Cons.prems p obtain d' where
    d': "write_sectors js (int k) fr ?s = Inr (s\<lparr>swap_device := d'\<rparr>)" "capacity d' = capacity (swap_device s)"
      "\<forall>q. sectors d' q = (if \<exists>j\<in>set js. q = k + j then le_words (take 128 (drop (128 * (q - k)) (page_at s fr))) else sectors d q)"
    by (auto simp del: le_words.simps)
  have "write_sectors (j # js) (int k) fr s = Inr (s\<lparr>swap_device := d'\<rparr>)" using w d'(1) by simp
  moreover have "sectors d' q = (if \<exists>i\<in>set (j # js). q = k + i then le_words (take 128 (drop (128 * (q - k)) (page_at s fr)))
      else sectors (swap_device s) q)" for q
    using d'(3) [rule_format, of q] by (cases "q = k + j") (simp_all add: d_def)
  ultimately show ?case using d'(2) by (intro exI [of _ d']) simp
next
  case Nil
  show ?case by (intro exI [of _ "swap_device s"]) simp
qed

lemma words_le_take: "length ws = n \<Longrightarrow> words_le n (le_words ws) = ws"
  using words_le_le_words [of ws "[]"] by simp

lemma concat_pieces: "concat (map (\<lambda>j. take n (drop (n * j) xs)) [0..<m]) = take (n * m) xs"
proof (induction m)
  case (Suc m)
  have "take (n * Suc m) xs = take (n * m) xs @ take n (drop (n * m) xs)" by (metis add.commute mult_Suc_right take_add)
  then show ?case using Suc by simp
qed simp

lemma write_to_disk_spec:
  assumes "8 * i + 8 \<le> capacity (swap_device s)" "capacity (swap_device s) \<le> 2 ^ 28" "length (page_at s fr) = 1024"
  shows "\<exists>d. write_to_disk fr (int i) s = Inr (s\<lparr>swap_device := d\<rparr>) \<and> capacity d = capacity (swap_device s)
    \<and> slot_words d i = page_at s fr \<and> (\<forall>j. j \<noteq> i \<longrightarrow> slot_words d j = slot_words (swap_device s) j)"
proof -
  have r: "s32_of (int i * 8) = int (8 * i)" using assms(1,2) by (subst s32_of_id) simp_all
  have b: "\<And>j. j \<in> set [0..<8] \<Longrightarrow> 8 * i + j < capacity (swap_device s)" using assms(1) by auto
  from write_sectors_spec [of "[0..<8]", OF b assms(2)] obtain d where
    d: "write_sectors [0..<8] (int (8 * i)) fr s = Inr (s\<lparr>swap_device := d\<rparr>)" "capacity d = capacity (swap_device s)"
    "\<And>q. sectors d q = (if \<exists>j\<in>set [0..<8]. q = 8 * i + j then le_words (take 128 (drop (128 * (q - 8 * i)) (page_at s fr)))
       else sectors (swap_device s) q)" by blast
  have "words_le 128 (sectors d (8 * i + j)) = take 128 (drop (128 * j) (page_at s fr))" if "j < 8" for j
    using that assms(3) by (subst d(3)) (auto intro!: words_le_take)
  then have "slot_words d i = concat (map (\<lambda>j. take 128 (drop (128 * j) (page_at s fr))) [0..<8])"
    unfolding slot_words_def by (intro arg_cong [where f = concat] map_cong) auto
  then have "slot_words d i = page_at s fr" using assms(3) concat_pieces [of 128 "page_at s fr" 8] by simp
  moreover have "sectors d (8 * j + x) = sectors (swap_device s) (8 * j + x)" if "j \<noteq> i" "x < 8" for j x
  proof -
    have "8 * j + x \<noteq> 8 * i + y" if "y < 8" for y using that \<open>j \<noteq> i\<close> \<open>x < 8\<close> by presburger
    then show ?thesis by (subst d(3)) auto
  qed
  then have "\<forall>j. j \<noteq> i \<longrightarrow> slot_words d j = slot_words (swap_device s) j"
    unfolding slot_words_def by (intro allI impI arg_cong [where f = concat] map_cong) auto
  ultimately show ?thesis using d(1,2) r by (auto simp: write_to_disk_def)
qed

lemma put_page_simps [simp]:
  "page_at (put_page k ws s) q = (if q = k then ws else page_at s q)" "swap_device (put_page k ws s) = swap_device s"
  "put_page k ws (put_page k vs s) = put_page k ws s" "put_page k (page_at s k) s = s"
  "page_at (s\<lparr>swap_device := d\<rparr>) = page_at s" "(put_page k ws s)\<lparr>swap_device := d\<rparr> = put_page k ws (s\<lparr>swap_device := d\<rparr>)"
  by (simp_all add: page_at_def put_page_def fun_eq_iff)

lemma read_sectors_spec:
  assumes "\<And>j. j < m + n \<Longrightarrow> k + j < capacity (swap_device s)" "capacity (swap_device s) \<le> 2 ^ 28"
    and "128 * (m + n) \<le> length (page_at s fr)"
  shows "\<exists>d. read_sectors [m..<m + n] (int k) fr s
      = Inr (put_page fr (overwrite (page_at s fr) (128 * m) (concat (map (\<lambda>j. words_le 128 (sectors (swap_device s) (k + j))) [m..<m + n])))
          (s\<lparr>swap_device := d\<rparr>))
    \<and> capacity d = capacity (swap_device s) \<and> sectors d = sectors (swap_device s)"
  using assms
proof (induction n arbitrary: m s)
  case 0
  then show ?case by (intro exI [of _ "swap_device s"]) (simp add: overwrite_def)
next
  case (Suc n)
  have j: "k + m < capacity (swap_device s)" "k + m < 2 ^ 28" using Suc.prems(1) [of m] Suc.prems(2) by simp_all
  define d where "d = (swap_device s)\<lparr>read_cnt := read_cnt (swap_device s) + 1\<rparr>"
  let ?w = "\<lambda>j. words_le 128 (sectors (swap_device s) (k + j))"
  define s1 where "s1 = put_page fr (overwrite (page_at s fr) (128 * m) (?w m)) (s\<lparr>swap_device := d\<rparr>)"
  have rd: "disk_read (swap_device s) (nat (u32_of (int k + int m))) = Inr (d, sectors (swap_device s) (k + m))"
    using j unfolding sector_number [OF j(2)] by (simp add: disk_read_def select_sector_def d_def)
  have sd: "swap_device s1 = d" "page_at s1 fr = overwrite (page_at s fr) (128 * m) (?w m)" "capacity d = capacity (swap_device s)"
    "sectors d = sectors (swap_device s)" by (simp_all add: s1_def d_def)
  have len: "length (overwrite (page_at s fr) (128 * m) (?w m)) = length (page_at s fr)" using Suc.prems(3) by simp
  from Suc.IH [of "Suc m" s1] Suc.prems sd len obtain d' where
    d': "read_sectors [Suc m..<Suc m + n] (int k) fr s1
      = Inr (put_page fr (overwrite (page_at s1 fr) (128 * Suc m) (concat (map ?w [Suc m..<Suc m + n]))) (s1\<lparr>swap_device := d'\<rparr>))"
      "capacity d' = capacity (swap_device s)" "sectors d' = sectors (swap_device s)" by auto
  have u: "[m..<m + Suc n] = m # [Suc m..<Suc m + n]" by (simp add: upt_rec)
  have "overwrite (overwrite (page_at s fr) (128 * m) (?w m)) (128 * Suc m) zs = overwrite (page_at s fr) (128 * m) (?w m @ zs)"
    for zs using Suc.prems(3) by (simp add: overwrite_def add.commute add.left_commute)
  then show ?case using rd d' unfolding u by (intro exI [of _ d']) (simp add: sd s1_def [symmetric], simp add: s1_def)
qed

lemma read_from_disk_spec:
  assumes "8 * i + 8 \<le> capacity (swap_device s)" "capacity (swap_device s) \<le> 2 ^ 28" "length (page_at s fr) = 1024"
  shows "\<exists>d. read_from_disk fr (int i) s = Inr (put_page fr (slot_words (swap_device s) i) (s\<lparr>swap_device := d\<rparr>))
    \<and> capacity d = capacity (swap_device s) \<and> sectors d = sectors (swap_device s)"
proof -
  have r: "s32_of (int i * 8) = int (8 * i)" using assms(1,2) by (subst s32_of_id) simp_all
  have l: "length (concat (map (\<lambda>j. words_le 128 (sectors (swap_device s) (8 * i + j))) [0..<8])) = 1024"
    by (simp add: length_concat comp_def sum_list_triv)
  have "overwrite (page_at s fr) (128 * 0) (concat (map (\<lambda>j. words_le 128 (sectors (swap_device s) (8 * i + j))) [0..<8]))
      = slot_words (swap_device s) i" using assms(3) l unfolding overwrite_def slot_words_def by simp
  then show ?thesis using read_sectors_spec [of 0 8 "8 * i" s fr] assms unfolding read_from_disk_def r by simp
qed

section \<open>Several steps\<close>

text \<open>Steps on any of the directories: pages of no directory keep their contents.\<close>

definition dirs_step_rel :: "u32 set \<Rightarrow> machine \<Rightarrow> machine \<Rightarrow> bool" where
  "dirs_step_rel P s s' \<longleftrightarrow> vm_inv s' P \<and> base_page_dir s' = base_page_dir s \<and> ram_pages s' = ram_pages s
     \<and> same_pools (phys s) (phys s') \<and> allocated (phys s) \<subseteq> allocated (phys s')
     \<and> (\<forall>q\<in>allocated (phys s). (\<forall>a\<in>P. q \<notin> footprint s a) \<longrightarrow> mem (phys s') q = mem (phys s) q)
     \<and> (\<forall>a\<in>P. footprint s' a \<inter> allocated (phys s) \<subseteq> footprint s a)"

lemma dir_step_rel: "dir_step P pd s s' \<Longrightarrow> pd \<in> P \<Longrightarrow> dirs_step_rel P s s'"
  unfolding dir_step_def dirs_step_rel_def by blast

lemma dirs_step_refl: "vm_inv s P \<Longrightarrow> dirs_step_rel P s s"
  by (simp add: dirs_step_rel_def)

lemma dirs_step_trans:
  assumes "dirs_step_rel P s s1" "dirs_step_rel P s1 s2"
  shows "dirs_step_rel P s s2"
proof -
  have "mem (phys s2) q = mem (phys s) q" if q: "q \<in> allocated (phys s)" "\<forall>a\<in>P. q \<notin> footprint s a" for q
  proof -
    have "q \<in> allocated (phys s1)" "\<forall>a\<in>P. q \<notin> footprint s1 a" using assms(1) q unfolding dirs_step_rel_def by blast+
    then have "mem (phys s2) q = mem (phys s1) q" using assms(2) unfolding dirs_step_rel_def by blast
    then show ?thesis using assms(1) q unfolding dirs_step_rel_def by auto
  qed
  moreover have "footprint s2 a \<inter> allocated (phys s) \<subseteq> footprint s a" if "a \<in> P" for a
    using assms that unfolding dirs_step_rel_def by blast
  moreover have "same_pools (phys s) (phys s2)" using assms same_pools_trans unfolding dirs_step_rel_def by blast
  moreover have "allocated (phys s) \<subseteq> allocated (phys s2)" using assms unfolding dirs_step_rel_def by blast
  ultimately show ?thesis using assms unfolding dirs_step_rel_def by (simp (no_asm_simp))
qed

section \<open>The eviction clock\<close>

lemma length_filter_mono_on: "(\<And>x. x \<in> set l \<Longrightarrow> P x \<Longrightarrow> Q x) \<Longrightarrow> length (filter P l) \<le> length (filter Q l)"
  by (induction l) (auto simp: le_SucI)

definition fte_accessed :: "vm \<Rightarrow> addr \<Rightarrow> bool" where
  "fte_accessed s f \<longleftrightarrow> (case fte_page s f of (pd, va) \<Rightarrow> pte_at (mach s) pd va AND PTE_A \<noteq> 0)"

lemma fte_page_simps [simp]:
  "fte_page (s\<lparr>mach := m\<rparr>) = fte_page s" "fte_page (s\<lparr>global_frame_list := l\<rparr>) = fte_page s"
  by (simp_all add: fte_page_def fun_eq_iff)

lemma evict_clock_spec:
  assumes "vm_inv (mach s) P" "\<forall>f\<in>set (global_frame_list s). fst (fte_page s f) \<in> P \<and> user_page (snd (fte_page s f))"
    and "global_frame_list s \<noteq> []" "length (filter (fte_accessed s) (global_frame_list s)) < n"
  shows "\<exists>f l m. evict_clock n s = Inr (f, s\<lparr>mach := m, global_frame_list := f # l\<rparr>) \<and> mset (f # l) = mset (global_frame_list s)
    \<and> dirs_step_rel P (mach s) m \<and> allocated (phys m) = allocated (phys (mach s)) \<and> (\<forall>a\<in>P. space m a = space (mach s) a)"
  using assms
proof (induction n arbitrary: s)
  case (Suc n)
  obtain f fs where l: "global_frame_list s = f # fs" using Suc.prems(3) by (cases "global_frame_list s") auto
  obtain pd va where pv: "fte_page s f = (pd, va)" by (cases "fte_page s f")
  have pd: "pd \<in> P" "user_page va" using Suc.prems(2) l pv by auto
  note acc = is_accessed_eq [OF Suc.prems(1) pd]
  show ?case
  proof (cases "pte_at (mach s) pd va AND PTE_A = 0")
    case True
    then have "evict_clock (Suc n) s = Inr (f, s\<lparr>mach := mach s, global_frame_list := f # fs\<rparr>)" using l pv acc by simp
    then show ?thesis using dirs_step_refl [OF Suc.prems(1)] l by (intro exI [of _ f] exI [of _ fs] exI [of _ "mach s"]) simp
  next
    case False
    obtain m1 where m1: "pagedir_set_accessed pd va False (mach s) = Inr m1" "dir_step P pd (mach s) m1"
        "allocated (phys m1) = allocated (phys (mach s))"
        "\<And>v. user_page v \<Longrightarrow> pte_at m1 pd v = (if v = va then pte_at (mach s) pd va AND NOT PTE_A else pte_at (mach s) pd v)"
      using clear_accessed_step [OF Suc.prems(1) pd] by blast
    define s1 where "s1 = s\<lparr>mach := m1, global_frame_list := fs @ [f]\<rparr>"
    have st: "evict_clock (Suc n) s = evict_clock n s1" using l pv acc False m1(1) by (simp add: upd_mach_def s1_def)
    have fp: "fte_page s1 g = fte_page s g" for g by (simp add: s1_def fte_page_def)
    have sub: "fte_accessed s g" if "g \<in> set (f # fs)" "fte_accessed s1 g" for g
    proof -
      obtain a v where g: "fte_page s g = (a, v)" by (cases "fte_page s g")
      have av: "a \<in> P" "user_page v" "is_user_vaddr v" using Suc.prems(2) l g that(1) by (force simp: user_page_def)+
      show ?thesis using that(2) dir_stepD(8) [OF m1(2) av(1) _ av(3)] m1(4) [OF av(2)] g False
        by (cases "a = pd") (auto simp: fte_accessed_def fp s1_def and.assoc split: if_splits)
    qed
    have nf: "\<not> fte_accessed s1 f" using pv m1(4) [OF pd(2)] by (simp add: fte_accessed_def fp s1_def and.assoc)
    have "length (filter (fte_accessed s1) fs) \<le> length (filter (fte_accessed s) fs)"
      using sub by (intro length_filter_mono_on) auto
    moreover have "fte_accessed s f" using pv False by (simp add: fte_accessed_def)
    ultimately have "length (filter (fte_accessed s1) (global_frame_list s1)) < n" using Suc.prems(4) l nf by (simp add: s1_def)
    moreover have "\<forall>g\<in>set (global_frame_list s1). fst (fte_page s1 g) \<in> P \<and> user_page (snd (fte_page s1 g))"
      unfolding fp using Suc.prems(2) l by (auto simp: s1_def)
    ultimately obtain g l' m where
      r: "evict_clock n s1 = Inr (g, s1\<lparr>mach := m, global_frame_list := g # l'\<rparr>)" "mset (g # l') = mset (global_frame_list s1)"
        "dirs_step_rel P m1 m" "allocated (phys m) = allocated (phys m1)" "\<forall>a\<in>P. space m a = space m1 a"
      using Suc.IH [of s1] dir_stepD(1) [OF m1(2)] by (auto simp: s1_def)
    have "space m1 a = space (mach s) a" if "a \<in> P" for a
    proof (cases "a = pd")
      case True
      have "mapping (pte_at (mach s) pd va AND NOT PTE_A) = mapping (pte_at (mach s) pd va)"
        using flag_mapping(1) [of PTE_A _ False "pte_at (mach s) pd va"] by (simp add: PTE_A_def PTE_W_def)
      then show ?thesis using m1(4) True by (auto simp: space_def fun_eq_iff)
    next
      case False
      then show ?thesis using dir_step_space [OF m1(2) that] by simp
    qed
    moreover have "dirs_step_rel P (mach s) m" using dirs_step_trans [OF dir_step_rel [OF m1(2) pd(1)] r(3)] .
    moreover have "mset (g # l') = mset (global_frame_list s)" using r(2) l by (simp add: s1_def)
    ultimately show ?thesis using st r m1(3) by (intro exI [of _ g] exI [of _ l'] exI [of _ m]) (simp add: s1_def)
  qed
qed simp

section \<open>The invariant of paging\<close>

lemma option_eqI: "(\<And>p. a = Some p \<longleftrightarrow> b = Some p) \<Longrightarrow> a = b"
  by (cases a; cases b) auto

text \<open>
  For the processes \<open>T\<close>: every process has its own directory and its own table of well-formed
  entries; the frames of the list are distinct pages of the user pool, each mapped where its
  entry says, and every mapped page has its frame in the list; a page in swap is not mapped and
  has a slot of its own.
\<close>

definition proc_dirs :: "vm \<Rightarrow> nat set \<Rightarrow> u32 set" where
  "proc_dirs s T = insert (base_page_dir (mach s)) (pagedir s ` T)"

definition entries :: "vm \<Rightarrow> nat set \<Rightarrow> addr set" where
  "entries s T = (\<Union>t\<in>T. hash_elems (spt s t))"

definition tables_inv :: "vm \<Rightarrow> nat set \<Rightarrow> bool" where
  "tables_inv s T \<longleftrightarrow> inj_on (pagedir s) T \<and> base_page_dir (mach s) \<notin> pagedir s ` T
     \<and> (\<forall>t\<in>T. hash_inv (hash_spte (sptes s)) (compare_spte (sptes s)) (spt s t) \<and> 0 \<notin> hash_elems (spt s t))
     \<and> (\<forall>p\<in>entries s T. user_page (user_vaddr (sptes s p)))
     \<and> (\<forall>t\<in>T. \<forall>t'\<in>T. t \<noteq> t' \<longrightarrow> hash_elems (spt s t) \<inter> hash_elems (spt s t') = {})"

definition fte_vaddr :: "vm \<Rightarrow> addr \<Rightarrow> u32" where
  "fte_vaddr s f = user_vaddr (sptes s (fspte (ftes s f)))"

definition fte_frame :: "vm \<Rightarrow> addr \<Rightarrow> u32" where
  "fte_frame s f = frame (ftes s f)"

definition free_standing :: "vm \<Rightarrow> nat set \<Rightarrow> u32 \<Rightarrow> bool" where
  "free_standing s T k \<longleftrightarrow> k \<in> allocated (phys (mach s)) \<and> k \<in> pool_pages (user_pool (phys (mach s)))
     \<and> (\<forall>a\<in>proc_dirs s T. k \<notin> footprint (mach s) a)"

definition fte_ok :: "vm \<Rightarrow> nat set \<Rightarrow> addr \<Rightarrow> bool" where
  "fte_ok s T f \<longleftrightarrow> owner (ftes s f) \<in> T \<and> fspte (ftes s f) \<in> hash_elems (spt s (owner (ftes s f)))
     \<and> free_standing s T (fte_frame s f) \<and> f \<le> malloc_cnt (vfs s)
     \<and> (\<exists>w. space (mach s) (pagedir s (owner (ftes s f))) (fte_vaddr s f) = Some (fte_frame s f, w))"

definition frames_inv :: "vm \<Rightarrow> nat set \<Rightarrow> bool" where
  "frames_inv s T \<longleftrightarrow> distinct (global_frame_list s) \<and> inj_on (fte_frame s) (set (global_frame_list s))
     \<and> (\<forall>f\<in>set (global_frame_list s). fte_ok s T f)
     \<and> (\<forall>t\<in>T. \<forall>v k w. space (mach s) (pagedir s t) v = Some (k, w) \<longrightarrow>
          (\<exists>f\<in>set (global_frame_list s). owner (ftes s f) = t \<and> fte_vaddr s f = v \<and> fte_frame s f = k))
     \<and> (\<forall>k\<in>pool_pages (user_pool (phys (mach s))). unat (drop_bit 12 (k - PHYS_BASE)) < ram_pages (mach s))"

definition swap_inv :: "vm \<Rightarrow> nat set \<Rightarrow> bool" where
  "swap_inv s T \<longleftrightarrow> bitmap_inv (swap_table s) \<and> 8 * bit_cnt (swap_table s) \<le> capacity (swap_device s)
     \<and> capacity (swap_device s) \<le> 2 ^ 28
     \<and> (\<forall>t\<in>T. \<forall>p\<in>hash_elems (spt s t). inswap (sptes s p) \<longrightarrow>
          space (mach s) (pagedir s t) (user_vaddr (sptes s p)) = None
          \<and> (\<exists>i<bit_cnt (swap_table s). swapindex (sptes s p) = int i \<and> bitmap_bit (swap_table s) i))
     \<and> inj_on (\<lambda>p. swapindex (sptes s p)) {p \<in> entries s T. inswap (sptes s p)}"

definition paging_inv :: "vm \<Rightarrow> nat set \<Rightarrow> bool" where
  "paging_inv s T \<longleftrightarrow> vm_inv (mach s) (proc_dirs s T) \<and> tables_inv s T \<and> frames_inv s T \<and> swap_inv s T"

text \<open>What a process sees of a page: its frame or its slot, nothing if it was not loaded yet.\<close>

definition page_view :: "vm \<Rightarrow> nat \<Rightarrow> u32 \<Rightarrow> u32 list option" where
  "page_view s t v =
     (case space (mach s) (pagedir s t) v of
        Some (k, w) \<Rightarrow> Some (page_at s k)
      | None \<Rightarrow>
          (case find_spte (sptes s) (spt s t) 0 v of
             Some p \<Rightarrow> if inswap (sptes s p) then Some (slot_words (swap_device s) (nat (swapindex (sptes s p)))) else None
           | None \<Rightarrow> None))"

lemma find_entry_iff:
  assumes "tables_inv s T" "t \<in> T"
  shows "find_spte (sptes s) (spt s t) 0 v = Some p \<longleftrightarrow> p \<in> hash_elems (spt s t) \<and> user_vaddr (sptes s p) = v"
  using assms by (intro find_spte_spec) (auto simp: tables_inv_def)

lemma tables_inv_cong:
  assumes "tables_inv s T" "spt s' = spt s" "pagedir s' = pagedir s" "base_page_dir (mach s') = base_page_dir (mach s)"
    and "\<And>p. user_vaddr (sptes s' p) = user_vaddr (sptes s p)"
  shows "tables_inv s' T" "t \<in> T \<Longrightarrow> find_spte (sptes s') (spt s t) 0 v = find_spte (sptes s) (spt s t) 0 v"
proof -
  have "hash_inv (hash_spte (sptes s')) (compare_spte (sptes s')) (spt s t)" if "t \<in> T" for t
    using assms(1,5) that by (intro hash_inv_cong [of _ "sptes s'" "sptes s"]) (auto simp: tables_inv_def)
  then show i: "tables_inv s' T" using assms by (auto simp: tables_inv_def entries_def)
  show "find_spte (sptes s') (spt s t) 0 v = find_spte (sptes s) (spt s t) 0 v" if "t \<in> T"
  proof (rule option_eqI)
    fix p
    show "find_spte (sptes s') (spt s t) 0 v = Some p \<longleftrightarrow> find_spte (sptes s) (spt s t) 0 v = Some p"
      using find_entry_iff [OF i that, of v p] find_entry_iff [OF assms(1) that, of v p] assms(2,5) by simp
  qed
qed

lemma entry_owner:
  assumes "tables_inv s T" "t \<in> T" "t' \<in> T" "p \<in> hash_elems (spt s t)" "p \<in> hash_elems (spt s t')"
  shows "t' = t"
  using assms unfolding tables_inv_def by blast

lemma frame_of_page:
  assumes "frames_inv s T" "t \<in> T" "space (mach s) (pagedir s t) v = Some (k, w)"
  obtains g where "g \<in> set (global_frame_list s)" "owner (ftes s g) = t" "fte_vaddr s g = v" "fte_frame s g = k"
  using assms unfolding frames_inv_def by blast

lemma fte_unique:
  assumes "frames_inv s T" "f \<in> set (global_frame_list s)" "g \<in> set (global_frame_list s)"
    and "owner (ftes s g) = owner (ftes s f)" "fte_vaddr s g = fte_vaddr s f"
  shows "g = f"
proof -
  have "fte_ok s T f" "fte_ok s T g" "inj_on (fte_frame s) (set (global_frame_list s))" using assms(1-3) by (auto simp: frames_inv_def)
  then have "fte_frame s g = fte_frame s f" using assms(4,5) by (auto simp: fte_ok_def)
  with \<open>inj_on _ _\<close> assms(2,3) show ?thesis by (auto dest: inj_onD)
qed

section \<open>Eviction\<close>

text \<open>\<open>evicted T s s' f i\<close>: frame \<open>f\<close> of the list has been written to slot \<open>i\<close> and freed.\<close>

definition evicted :: "nat set \<Rightarrow> vm \<Rightarrow> vm \<Rightarrow> addr \<Rightarrow> nat \<Rightarrow> bool" where
  "evicted T s s' f i \<longleftrightarrow>
     f \<in> set (global_frame_list s) \<and> mset (f # global_frame_list s') = mset (global_frame_list s)
   \<and> vm_inv (mach s') (proc_dirs s T) \<and> base_page_dir (mach s') = base_page_dir (mach s) \<and> ram_pages (mach s') = ram_pages (mach s)
   \<and> same_pools (phys (mach s)) (phys (mach s')) \<and> allocated (phys (mach s')) = allocated (phys (mach s)) - {fte_frame s f}
   \<and> (\<forall>q. free_standing s T q \<longrightarrow> q \<noteq> fte_frame s f \<longrightarrow> page_at s' q = page_at s q)
   \<and> (\<forall>a\<in>proc_dirs s T. footprint (mach s') a \<inter> allocated (phys (mach s)) \<subseteq> footprint (mach s) a)
   \<and> (\<forall>a\<in>proc_dirs s T. space (mach s') a =
        (if a = pagedir s (owner (ftes s f)) then (space (mach s) a)(fte_vaddr s f := None) else space (mach s) a))
   \<and> sptes s' = (sptes s)(fspte (ftes s f) := (sptes s (fspte (ftes s f)))\<lparr>swapindex := int i, inswap := True\<rparr>)
   \<and> i < bit_cnt (swap_table s) \<and> \<not> bitmap_bit (swap_table s) i \<and> bitmap_inv (swap_table s')
   \<and> bit_cnt (swap_table s') = bit_cnt (swap_table s)
   \<and> (\<forall>j<bit_cnt (swap_table s). bitmap_bit (swap_table s') j = (j = i \<or> bitmap_bit (swap_table s) j))
   \<and> capacity (swap_device s') = capacity (swap_device s) \<and> slot_words (swap_device s') i = page_at s (fte_frame s f)
   \<and> (\<forall>j. j \<noteq> i \<longrightarrow> slot_words (swap_device s') j = slot_words (swap_device s) j)
   \<and> ftes s' = ftes s \<and> curr s' = curr s \<and> spt s' = spt s \<and> pagedir s' = pagedir s \<and> vfs s' = vfs s"

lemma free_frame_spec:
  assumes "mem_ok s" "p \<in> allocated (phys s)"
  shows "\<exists>m. free_page p s = Inr (s\<lparr>phys := m\<rparr>) \<and> mem_ok (s\<lparr>phys := m\<rparr>) \<and> allocated m = allocated (phys s) - {p}
    \<and> same_pools (phys s) m \<and> (\<forall>q. q \<noteq> p \<longrightarrow> mem m q = mem (phys s) q)"
proof -
  have inv: "palloc_inv (phys s)" using assms(1) by (simp add: mem_ok_def)
  obtain user where b: "block (get_pool user (phys s)) p (Suc 0)" using allocated_block [OF assms(2)] by blast
  from palloc_free_multiple_spec [OF inv _ b] assms(2) obtain m where
    m: "palloc_free_multiple p (Suc 0) (phys s) = Inr m" "allocated m = allocated (phys s) - {p}" "palloc_inv m" "same_pools (phys s) m"
      "\<And>q. mem m q = (if q = p then replicate 1024 0xcccccccc else mem (phys s) q)" by auto
  then show ?thesis using assms(1)
    by (intro exI [of _ m]) (auto simp: free_page_def palloc_free_page_def mem_ok_def)
qed

lemma select_spec:
  assumes "paging_inv s T" "global_frame_list s \<noteq> []"
  shows "\<exists>f l m. select_fte_for_evict s = Inr (f, s\<lparr>mach := m, global_frame_list := f # l\<rparr>) \<and> mset (f # l) = mset (global_frame_list s)
    \<and> dirs_step_rel (proc_dirs s T) (mach s) m \<and> allocated (phys m) = allocated (phys (mach s))
    \<and> (\<forall>a\<in>proc_dirs s T. space m a = (if a = pagedir s (owner (ftes s f)) then (space (mach s) a)(fte_vaddr s f := None) else space (mach s) a))"
proof -
  let ?P = "proc_dirs s T"
  have inv: "vm_inv (mach s) ?P" and fr: "frames_inv s T" and tb: "tables_inv s T" using assms(1) by (simp_all add: paging_inv_def)
  have fp: "fst (fte_page s f) \<in> ?P" "user_page (snd (fte_page s f))" "fte_ok s T f" if "f \<in> set (global_frame_list s)" for f
    using fr tb that by (auto simp: frames_inv_def fte_ok_def fte_page_def proc_dirs_def tables_inv_def entries_def)
  have len: "length (filter (fte_accessed s) (global_frame_list s)) < Suc (length (global_frame_list s))"
    by (simp add: le_imp_less_Suc)
  have pg: "\<forall>f\<in>set (global_frame_list s). fst (fte_page s f) \<in> ?P \<and> user_page (snd (fte_page s f))" using fp(1,2) by blast
  from evict_clock_spec [OF inv pg assms(2) len] obtain f l m1 where
    c: "evict_clock (Suc (length (global_frame_list s))) s = Inr (f, s\<lparr>mach := m1, global_frame_list := f # l\<rparr>)"
      "mset (f # l) = mset (global_frame_list s)" "dirs_step_rel ?P (mach s) m1" "allocated (phys m1) = allocated (phys (mach s))"
      "\<And>a. a \<in> ?P \<Longrightarrow> space m1 a = space (mach s) a" by blast
  have f: "f \<in> set (global_frame_list s)" using c(2) by (metis list.set_intros(1) set_mset_mset)
  define pd va where "pd = pagedir s (owner (ftes s f))" and "va = fte_vaddr s f"
  have pv: "fte_page s f = (pd, va)" by (simp add: fte_page_def pd_def va_def fte_vaddr_def)
  have pd: "pd \<in> ?P" "user_page va" using fp(1,2) [OF f] pv by simp_all
  have m1: "vm_inv m1 ?P" using c(3) by (simp add: dirs_step_rel_def)
  have "space m1 pd va \<noteq> None" using fp(3) [OF f] c(5) [OF pd(1)] by (auto simp: fte_ok_def pd_def va_def)
  from clear_page_step [OF m1 pd this] obtain m where
    m: "pagedir_clear_page pd va m1 = Inr m" "dir_step ?P pd m1 m" "allocated (phys m) = allocated (phys m1)"
      "\<And>v. user_page v \<Longrightarrow> pte_at m pd v = (if v = va then pte_at m1 pd va AND NOT PTE_P else pte_at m1 pd v)" by blast
  have z: "mapping (pte_at m1 pd va AND NOT PTE_P) = None" by (simp add: mapping_def and.assoc)
  then have "space m pd = (space m1 pd)(va := None)" using m(4) by (auto simp: space_def fun_eq_iff)
  then have sp: "space m a = (if a = pd then (space (mach s) a)(va := None) else space (mach s) a)" if "a \<in> ?P" for a
    using c(5) [OF that] dir_step_space [OF m(2) that] by auto
  have "select_fte_for_evict s = Inr (f, s\<lparr>mach := m, global_frame_list := f # l\<rparr>)"
    using assms(2) c(1) m(1) pv by (simp add: select_fte_for_evict_def upd_mach_def del: evict_clock.simps)
  moreover have "dirs_step_rel ?P (mach s) m" using dirs_step_trans [OF c(3) dir_step_rel [OF m(2) pd(1)]] .
  ultimately show ?thesis using c(2,4) m(3) sp unfolding pd_def va_def by blast
qed

lemma scan_slot:
  assumes "bitmap_inv b" "j < bit_cnt b" "\<not> bitmap_bit b j"
  shows "\<exists>b' i. bitmap_scan_and_flip b 0 1 False = Inr (b', i) \<and> i \<noteq> BITMAP_ERROR \<and> i < bit_cnt b \<and> \<not> bitmap_bit b i
    \<and> bitmap_inv b' \<and> bit_cnt b' = bit_cnt b \<and> (\<forall>k<bit_cnt b. bitmap_bit b' k = (k = i \<or> bitmap_bit b k))"
proof -
  have "run_at b j 1 False" using assms(2,3) by (auto simp: run_at_def less_Suc_eq_le)
  with bitmap_scan_and_flip_spec [OF assms(1), of 0 1 False] obtain b' i where
    b: "bitmap_scan_and_flip b 0 1 False = Inr (b', i)" "i \<noteq> BITMAP_ERROR" "run_at b i 1 False" "bitmap_inv b'" "bit_cnt b' = bit_cnt b"
      "bitmap_bits b' = overwrite (bitmap_bits b) i (replicate 1 True)" by auto
  have i: "i < bit_cnt b" "\<not> bitmap_bit b i" using b(3) by (auto simp: run_at_def)
  have "bitmap_bit b' k = (k = i \<or> bitmap_bit b k)" if "k < bit_cnt b" for k
    using arg_cong [OF b(6), of "\<lambda>l. l ! k"] that i b(5) by (auto simp: nth_overwrite)
  then show ?thesis using b i by blast
qed

lemma swap_out_evicts:
  assumes "paging_inv s T" "global_frame_list s \<noteq> []" "j < bit_cnt (swap_table s)" "\<not> bitmap_bit (swap_table s) j"
  shows "\<exists>s' f i. swap_out s = Inr s' \<and> evicted T s s' f i"
proof -
  let ?P = "proc_dirs s T"
  have sw: "swap_inv s T" and fr: "frames_inv s T" using assms(1) by (simp_all add: paging_inv_def)
  obtain f l m where c: "select_fte_for_evict s = Inr (f, s\<lparr>mach := m, global_frame_list := f # l\<rparr>)"
      "mset (f # l) = mset (global_frame_list s)" "dirs_step_rel ?P (mach s) m" "allocated (phys m) = allocated (phys (mach s))"
      "\<forall>a\<in>?P. space m a = (if a = pagedir s (owner (ftes s f)) then (space (mach s) a)(fte_vaddr s f := None) else space (mach s) a)"
    using select_spec [OF assms(1,2)] by blast
  have f: "f \<in> set (global_frame_list s)" using c(2) by (metis list.set_intros(1) set_mset_mset)
  then have fs: "free_standing s T (fte_frame s f)" using fr by (auto simp: frames_inv_def fte_ok_def)
  have bi: "bitmap_inv (swap_table s)" using sw by (simp add: swap_inv_def)
  obtain b i where b: "bitmap_scan_and_flip (swap_table s) 0 1 False = Inr (b, i)" "i \<noteq> BITMAP_ERROR"
      "i < bit_cnt (swap_table s)" "\<not> bitmap_bit (swap_table s) i" "bitmap_inv b" "bit_cnt b = bit_cnt (swap_table s)"
      "\<forall>k<bit_cnt (swap_table s). bitmap_bit b k = (k = i \<or> bitmap_bit (swap_table s) k)"
    using scan_slot [OF bi assms(3,4)] by blast
  have cap: "8 * i + 8 \<le> capacity (swap_device s)" "capacity (swap_device s) \<le> 2 ^ 28" using sw b(3) by (simp_all add: swap_inv_def)
  then have ii: "s32_of (int i) = int i" by (intro s32_of_id) simp_all
  have inv: "vm_inv m ?P" "mem_ok m" using c(3) by (auto simp: dirs_step_rel_def vm_inv_def dirs_inv_def)
  have kept: "mem (phys m) q = page_at s q" if "free_standing s T q" for q
    using c(3) that by (auto simp: dirs_step_rel_def free_standing_def page_at_def)
  define k p where "k = fte_frame s f" and "p = fspte (ftes s f)"
  define s2 where "s2 = s\<lparr>mach := m, global_frame_list := f # l, swap_table := b,
      sptes := (sptes s)(p := (sptes s p)\<lparr>swapindex := int i, inswap := True\<rparr>)\<rparr>"
  have p2: "page_at s2 k = page_at s k" "swap_device s2 = swap_device s" "length (page_at s2 k) = 1024"
    using kept [OF fs] inv(2) [unfolded mem_ok_def, THEN conjunct2, THEN spec, of k]
    by (auto simp: s2_def k_def page_at_def)
  obtain d where d: "write_to_disk k (int i) s2 = Inr (s2\<lparr>swap_device := d\<rparr>)" "capacity d = capacity (swap_device s)"
      "slot_words d i = page_at s k" "\<forall>j. j \<noteq> i \<longrightarrow> slot_words d j = slot_words (swap_device s) j"
    using write_to_disk_spec [of i s2 k] cap p2 by auto
  have ka: "k \<in> allocated (phys m)" using fs c(4) by (simp add: free_standing_def k_def)
  obtain m3 where m3: "free_page k m = Inr (m\<lparr>phys := m3\<rparr>)" "mem_ok (m\<lparr>phys := m3\<rparr>)" "allocated m3 = allocated (phys m) - {k}"
      "same_pools (phys m) m3" "\<And>q. q \<noteq> k \<Longrightarrow> mem m3 q = mem (phys m) q" using free_frame_spec [OF inv(2) ka] by blast
  have kf: "k \<notin> footprint m a" if "a \<in> ?P" for a
    using fs c(3) that unfolding free_standing_def dirs_step_rel_def k_def by blast
  have fa: "footprint m a \<subseteq> allocated (phys m)" if "a \<in> ?P" for a
    using inv(1) that by (auto simp: vm_inv_def dirs_inv_def pd_inv_def)
  have mm: "mem (phys (m\<lparr>phys := m3\<rparr>)) q = mem (phys m) q" if "a \<in> ?P" "q \<in> footprint m a" for a q
    using m3(5) [of q] kf [OF that(1)] that(2) by (cases "q = k") simp_all
  have aa: "footprint m a \<subseteq> allocated (phys (m\<lparr>phys := m3\<rparr>))" if "a \<in> ?P" for a using fa kf that m3(3) by auto
  have v: "vm_inv (m\<lparr>phys := m3\<rparr>) ?P" by (rule vm_inv_mem(1) [OF inv(1) m3(2)]) (use mm aa in simp_all)
  have va: "footprint (m\<lparr>phys := m3\<rparr>) a = footprint m a" "space (m\<lparr>phys := m3\<rparr>) a = space m a" if "a \<in> ?P" for a
    by (rule vm_inv_mem(2,3) [OF inv(1) m3(2)]; use mm aa that in simp)+
  define s' where "s' = s2\<lparr>swap_device := d, global_frame_list := l,
      proc_frames := (proc_frames s)(owner (ftes s f) := remove1 f (proc_frames s (owner (ftes s f)))), mach := m\<lparr>phys := m3\<rparr>\<rparr>"
  have "swap_out s = Inr s'"
    using c(1) b(1,2) ii d(1) m3(1) by (simp add: swap_out_def k_def fte_frame_def p_def s2_def s'_def upd_mach_def Let_def)
  moreover have "page_at s' q = page_at s q" if "free_standing s T q" "q \<noteq> k" for q
    using kept [OF that(1)] m3(5) [OF that(2)] by (simp add: s'_def page_at_def)
  moreover have "footprint (mach s') a \<inter> allocated (phys (mach s)) \<subseteq> footprint (mach s) a" "space (mach s') a = space m a"
    if "a \<in> ?P" for a using va [OF that] c(3) that unfolding dirs_step_rel_def by (simp_all add: s'_def)
  moreover have "same_pools (phys (mach s)) (phys (mach s'))" "base_page_dir (mach s') = base_page_dir (mach s)" "ram_pages (mach s') = ram_pages (mach s)"
    using c(3) m3(4) same_pools_trans [of "phys (mach s)" "phys m" m3] by (simp_all add: s'_def dirs_step_rel_def)
  moreover have "vm_inv (mach s') ?P" "allocated (phys (mach s')) = allocated (phys (mach s)) - {k}"
    using v m3(3) c(4) by (simp_all add: s'_def)
  moreover have "global_frame_list s' = l" "swap_table s' = b" "swap_device s' = d" "ftes s' = ftes s" "curr s' = curr s" "spt s' = spt s"
      "pagedir s' = pagedir s" "vfs s' = vfs s" "sptes s' = (sptes s)(p := (sptes s p)\<lparr>swapindex := int i, inswap := True\<rparr>)"
    by (simp_all add: s'_def s2_def)
  ultimately have "evicted T s s' f i"
    unfolding evicted_def k_def [symmetric] p_def [symmetric]
    by (intro conjI) (use f c(2,5) b d in simp_all)
  with \<open>swap_out s = Inr s'\<close> show ?thesis by blast
qed

text \<open>\<open>paged T s s'\<close>: what eviction and taking frames leave as it was, for the processes as for the kernel.\<close>

definition paged :: "nat set \<Rightarrow> vm \<Rightarrow> vm \<Rightarrow> bool" where
  "paged T s s' \<longleftrightarrow> paging_inv s' T \<and> curr s' = curr s \<and> spt s' = spt s \<and> pagedir s' = pagedir s \<and> vfs s' = vfs s
   \<and> base_page_dir (mach s') = base_page_dir (mach s) \<and> same_pools (phys (mach s)) (phys (mach s'))
   \<and> (\<forall>p. user_vaddr (sptes s' p) = user_vaddr (sptes s p) \<and> spte_writable (sptes s' p) = spte_writable (sptes s p))
   \<and> (\<forall>p\<in>entries s T. inswap (sptes s p) \<longrightarrow> sptes s' p = sptes s p)
   \<and> (\<forall>t\<in>T. \<forall>v. space (mach s) (pagedir s t) v = None \<longrightarrow> space (mach s') (pagedir s t) v = None)
   \<and> (\<forall>t\<in>T. \<forall>v. page_view s' t v = page_view s t v)
   \<and> allocated (phys (mach s')) \<inter> pool_pages (kernel_pool (phys (mach s))) \<subseteq> allocated (phys (mach s))"

lemma same_pools_pages:
  assumes "same_pools m m'"
  shows "pool_pages (user_pool m') = pool_pages (user_pool m)" "pool_pages (kernel_pool m') = pool_pages (kernel_pool m)"
proof -
  have "pool_pages (get_pool u m') = pool_pages (get_pool u m)" for u using assms by (simp add: same_pools_def pool_pages_def)
  from this [of True] this [of False] show "pool_pages (user_pool m') = pool_pages (user_pool m)"
    "pool_pages (kernel_pool m') = pool_pages (kernel_pool m)" by (simp_all add: get_pool_def)
qed

lemma evictedD:
  assumes "evicted T s s' f i"
  shows "f \<in> set (global_frame_list s)" "mset (f # global_frame_list s') = mset (global_frame_list s)"
    "vm_inv (mach s') (proc_dirs s T)" "base_page_dir (mach s') = base_page_dir (mach s)" "ram_pages (mach s') = ram_pages (mach s)"
    "same_pools (phys (mach s)) (phys (mach s'))" "allocated (phys (mach s')) = allocated (phys (mach s)) - {fte_frame s f}"
    "\<And>q. free_standing s T q \<Longrightarrow> q \<noteq> fte_frame s f \<Longrightarrow> page_at s' q = page_at s q"
    "\<And>a. a \<in> proc_dirs s T \<Longrightarrow> footprint (mach s') a \<inter> allocated (phys (mach s)) \<subseteq> footprint (mach s) a"
    "\<And>a. a \<in> proc_dirs s T \<Longrightarrow> space (mach s') a =
        (if a = pagedir s (owner (ftes s f)) then (space (mach s) a)(fte_vaddr s f := None) else space (mach s) a)"
    "sptes s' = (sptes s)(fspte (ftes s f) := (sptes s (fspte (ftes s f)))\<lparr>swapindex := int i, inswap := True\<rparr>)"
    "i < bit_cnt (swap_table s)" "\<not> bitmap_bit (swap_table s) i" "bitmap_inv (swap_table s')"
    "bit_cnt (swap_table s') = bit_cnt (swap_table s)"
    "\<And>j. j < bit_cnt (swap_table s) \<Longrightarrow> bitmap_bit (swap_table s') j = (j = i \<or> bitmap_bit (swap_table s) j)"
    "capacity (swap_device s') = capacity (swap_device s)" "slot_words (swap_device s') i = page_at s (fte_frame s f)"
    "\<And>j. j \<noteq> i \<Longrightarrow> slot_words (swap_device s') j = slot_words (swap_device s) j"
    "ftes s' = ftes s" "curr s' = curr s" "spt s' = spt s" "pagedir s' = pagedir s" "vfs s' = vfs s"
  using assms unfolding evicted_def by simp_all

text \<open>The frame that was evicted, and that the other pages of the processes are not its page.\<close>

lemma evicted_space:
  assumes "paging_inv s T" "evicted T s s' f i" "t \<in> T"
  shows "space (mach s') (pagedir s t) v
    = (if t = owner (ftes s f) \<and> v = fte_vaddr s f then None else space (mach s) (pagedir s t) v)"
proof -
  have "inj_on (pagedir s) T" "owner (ftes s f) \<in> T"
    using assms(1) evictedD(1) [OF assms(2)] by (auto simp: paging_inv_def tables_inv_def frames_inv_def fte_ok_def)
  then have "pagedir s t = pagedir s (owner (ftes s f)) \<longleftrightarrow> t = owner (ftes s f)" using assms(3) by (auto dest: inj_onD)
  moreover have "pagedir s t \<in> proc_dirs s T" using assms(3) by (simp add: proc_dirs_def)
  ultimately show ?thesis using evictedD(10) [OF assms(2)] by simp
qed

lemma evicted_frames:
  assumes "paging_inv s T" "evicted T s s' f i"
  shows "set (global_frame_list s') = set (global_frame_list s) - {f}" "distinct (global_frame_list s')"
    "g \<in> set (global_frame_list s') \<Longrightarrow> fte_frame s g \<noteq> fte_frame s f"
    "g \<in> set (global_frame_list s') \<Longrightarrow> owner (ftes s g) \<noteq> owner (ftes s f) \<or> fte_vaddr s g \<noteq> fte_vaddr s f"
proof -
  have fr: "frames_inv s T" using assms(1) by (simp add: paging_inv_def)
  note ev = evictedD(1,2) [OF assms(2)]
  have d: "distinct (f # global_frame_list s')" using fr ev(2) by (metis frames_inv_def mset_eq_imp_distinct_iff)
  moreover have "set (f # global_frame_list s') = set (global_frame_list s)" using ev(2) by (metis set_mset_mset)
  ultimately show s: "set (global_frame_list s') = set (global_frame_list s) - {f}" "distinct (global_frame_list s')" by auto
  show "fte_frame s g \<noteq> fte_frame s f" "owner (ftes s g) \<noteq> owner (ftes s f) \<or> fte_vaddr s g \<noteq> fte_vaddr s f"
    if "g \<in> set (global_frame_list s')"
    using fr fte_unique [OF fr ev(1), of g] ev(1) that s(1) by (auto simp: frames_inv_def dest: inj_onD)
qed

lemma evicted_vaddr:
  assumes "evicted T s s' f i"
  shows "user_vaddr (sptes s' p) = user_vaddr (sptes s p)" "spte_writable (sptes s' p) = spte_writable (sptes s p)"
    "fte_vaddr s' g = fte_vaddr s g" "fte_frame s' g = fte_frame s g"
  unfolding fte_vaddr_def fte_frame_def evictedD(11,20) [OF assms] by simp_all

lemma evicted_frames_inv:
  assumes "paging_inv s T" "evicted T s s' f i"
  shows "frames_inv s' T"
proof -
  have fr: "frames_inv s T" using assms(1) by (simp add: paging_inv_def)
  note ev = evictedD [OF assms(2)] and fs = evicted_frames [OF assms] and va = evicted_vaddr [OF assms(2)]
  note pools = same_pools_pages [OF ev(6)]
  have dd: "proc_dirs s' T = proc_dirs s T" by (simp add: proc_dirs_def ev(4,23))
  have ok: "fte_ok s' T g" if g: "g \<in> set (global_frame_list s')" for g
  proof -
    have o: "fte_ok s T g" using fr g fs(1) by (auto simp: frames_inv_def)
    then have fst: "free_standing s T (fte_frame s g)" by (simp add: fte_ok_def)
    have "free_standing s' T (fte_frame s g)"
      using fst ev(9) fs(3) [OF g] unfolding free_standing_def dd pools ev(7) by blast
    moreover have "space (mach s') (pagedir s (owner (ftes s g))) (fte_vaddr s g) = space (mach s) (pagedir s (owner (ftes s g))) (fte_vaddr s g)"
      using evicted_space [OF assms, of "owner (ftes s g)" "fte_vaddr s g"] o fs(4) [OF g] by (auto simp: fte_ok_def)
    ultimately show ?thesis using o unfolding fte_ok_def va ev(20,22-24) by simp
  qed
  have cov: "\<exists>g\<in>set (global_frame_list s'). owner (ftes s g) = t \<and> fte_vaddr s g = v \<and> fte_frame s g = k"
    if t: "t \<in> T" and sp: "space (mach s') (pagedir s t) v = Some (k, w)" for t v k w
  proof -
    have old: "space (mach s) (pagedir s t) v = Some (k, w)" "\<not> (t = owner (ftes s f) \<and> v = fte_vaddr s f)"
      using sp unfolding evicted_space [OF assms t] by (auto split: if_splits)
    then obtain g where g: "g \<in> set (global_frame_list s)" "owner (ftes s g) = t" "fte_vaddr s g = v" "fte_frame s g = k"
      using frame_of_page [OF fr t] by blast
    then have "g \<in> set (global_frame_list s')" using old(2) fs(1) by auto
    with g show ?thesis by blast
  qed
  have "inj_on (fte_frame s) (set (global_frame_list s))" using fr by (simp add: frames_inv_def)
  then have "inj_on (fte_frame s) (set (global_frame_list s'))" using fs(1) by (auto intro: inj_on_subset)
  moreover have "fte_frame s' = fte_frame s" using va(4) by blast
  moreover have "\<forall>k\<in>pool_pages (user_pool (phys (mach s))). unat (drop_bit 12 (k - PHYS_BASE)) < ram_pages (mach s)"
    using fr by (simp add: frames_inv_def)
  ultimately show ?thesis
    unfolding frames_inv_def pools ev(5,20,23) va by (intro conjI ballI allI impI fs(2) ok cov) simp_all
qed

lemma evicted_swap_inv:
  assumes "paging_inv s T" "evicted T s s' f i"
  shows "swap_inv s' T"
proof -
  have sw: "swap_inv s T" and fr: "frames_inv s T" and tb: "tables_inv s T" using assms(1) by (simp_all add: paging_inv_def)
  note ev = evictedD [OF assms(2)]
  let ?p = "fspte (ftes s f)" and ?o = "owner (ftes s f)"
  have fo: "?o \<in> T" "?p \<in> hash_elems (spt s ?o)" using fr ev(1) by (auto simp: frames_inv_def fte_ok_def)
  have own: "t = ?o" if "t \<in> T" "?p \<in> hash_elems (spt s t)" for t using entry_owner [OF tb fo(1) that(1) fo(2)] that(2) by simp
  have slots: "space (mach s') (pagedir s t) (user_vaddr (sptes s' p)) = None
      \<and> (\<exists>j<bit_cnt (swap_table s). swapindex (sptes s' p) = int j \<and> bitmap_bit (swap_table s') j)"
    if t: "t \<in> T" "p \<in> hash_elems (spt s t)" "inswap (sptes s' p)" for t p
  proof (cases "p = ?p")
    case True
    then show ?thesis using own [OF t(1)] t(2) ev(12,16) evicted_space [OF assms t(1)] by (auto simp: ev(11) fte_vaddr_def)
  next
    case False
    then have "inswap (sptes s p)" using t(3) by (simp add: ev(11))
    then obtain j where "space (mach s) (pagedir s t) (user_vaddr (sptes s p)) = None" "j < bit_cnt (swap_table s)"
        "swapindex (sptes s p) = int j" "bitmap_bit (swap_table s) j" using sw t(1,2) unfolding swap_inv_def by blast
    then show ?thesis using False ev(16) evicted_space [OF assms t(1)] by (auto simp: ev(11))
  qed
  have inj: "p = q" if "p \<in> entries s T" "q \<in> entries s T" "inswap (sptes s' p)" "inswap (sptes s' q)"
      "swapindex (sptes s' p) = swapindex (sptes s' q)" for p q
  proof -
    have new: "swapindex (sptes s r) \<noteq> int i" if "r \<in> entries s T" "inswap (sptes s r)" for r
      using sw that ev(13) unfolding swap_inv_def entries_def by force
    have old: "inj_on (\<lambda>p. swapindex (sptes s p)) {p \<in> entries s T. inswap (sptes s p)}" using sw by (simp add: swap_inv_def)
    show ?thesis using that new [of p] new [of q] inj_onD [OF old, of p q] by (auto simp: ev(11) split: if_splits)
  qed
  have "entries s' T = entries s T" by (simp add: entries_def ev(22))
  then show ?thesis using sw slots inj ev(14) unfolding swap_inv_def ev(15,17,22,23) by (auto intro!: inj_onI)
qed

lemma evicted_view:
  assumes "paging_inv s T" "evicted T s s' f i" "t \<in> T"
  shows "page_view s' t v = page_view s t v"
proof -
  have sw: "swap_inv s T" and fr: "frames_inv s T" and tb: "tables_inv s T" using assms(1) by (simp_all add: paging_inv_def)
  note ev = evictedD [OF assms(2)] and sp = evicted_space [OF assms] and fs = evicted_frames [OF assms(1,2)]
  let ?p = "fspte (ftes s f)" and ?o = "owner (ftes s f)"
  have fo: "?o \<in> T" "?p \<in> hash_elems (spt s ?o)" "fte_ok s T f" using fr ev(1) by (auto simp: frames_inv_def fte_ok_def)
  have fe: "find_spte (sptes s') (spt s t) 0 v = find_spte (sptes s) (spt s t) 0 v"
    using tables_inv_cong(2) [OF tb ev(22,23,4) evicted_vaddr(1) [OF assms(2)] assms(3)] .
  show ?thesis
  proof (cases "space (mach s) (pagedir s t) v")
    case None
    have "sptes s' p = sptes s p" if "find_spte (sptes s) (spt s t) 0 v = Some p" for p
    proof -
      have p: "p \<in> hash_elems (spt s t)" "user_vaddr (sptes s p) = v" using that find_entry_iff [OF tb assms(3)] by auto
      have "p \<noteq> ?p" using entry_owner [OF tb fo(1) assms(3) fo(2)] p None fo(3) by (auto simp: fte_ok_def fte_vaddr_def)
      then show ?thesis by (simp add: ev(11))
    qed
    moreover have "slot_words (swap_device s') (nat (swapindex (sptes s p))) = slot_words (swap_device s) (nat (swapindex (sptes s p)))"
      if q: "find_spte (sptes s) (spt s t) 0 v = Some p" "inswap (sptes s p)" for p
    proof -
      have "p \<in> hash_elems (spt s t)" using q(1) find_entry_iff [OF tb assms(3)] by auto
      then obtain j where "swapindex (sptes s p) = int j" "bitmap_bit (swap_table s) j" using sw assms(3) q(2) unfolding swap_inv_def by blast
      then show ?thesis using ev(13,19) by (metis nat_int)
    qed
    moreover have "space (mach s') (pagedir s t) v = None" using sp [of v] None by simp
    ultimately show ?thesis using None fe by (cases "find_spte (sptes s) (spt s t) 0 v") (simp_all add: page_view_def ev(22,23))
  next
    case (Some kw)
    obtain k w where kw: "kw = (k, w)" by (cases kw)
    from frame_of_page [OF fr assms(3) Some [unfolded kw]] obtain g where
      g: "g \<in> set (global_frame_list s)" "owner (ftes s g) = t" "fte_vaddr s g = v" "fte_frame s g = k" .
    show ?thesis
    proof (cases "g = f")
      case True
      have "find_spte (sptes s) (spt s t) 0 v = Some ?p"
        using find_entry_iff [OF tb assms(3)] fo(2) g True by (auto simp: fte_vaddr_def)
      then show ?thesis using Some kw g True sp [of v] fe ev(18) by (simp add: page_view_def ev(11,22,23))
    next
      case False
      then have gs: "g \<in> set (global_frame_list s')" using fs(1) g(1) by simp
      have "free_standing s T k" using fr g(1,4) by (auto simp: frames_inv_def fte_ok_def)
      then have "page_at s' k = page_at s k" using ev(8) fs(3) [OF gs] g(4) by simp
      then show ?thesis using Some kw sp [of v] fs(4) [OF gs] g(2,3) by (auto simp: page_view_def ev(23))
    qed
  qed
qed

lemma evicted_paged:
  assumes "paging_inv s T" "evicted T s s' f i"
  shows "paged T s s'"
proof -
  have sw: "swap_inv s T" and fr: "frames_inv s T" and tb: "tables_inv s T" using assms(1) by (simp_all add: paging_inv_def)
  note ev = evictedD [OF assms(2)] and va = evicted_vaddr [OF assms(2)]
  have "proc_dirs s' T = proc_dirs s T" by (simp add: proc_dirs_def ev(4,23))
  then have "paging_inv s' T"
    using ev(3) tables_inv_cong(1) [OF tb ev(22,23,4) va(1)] evicted_frames_inv [OF assms] evicted_swap_inv [OF assms]
    by (simp add: paging_inv_def)
  moreover have "sptes s' p = sptes s p" if p: "p \<in> entries s T" "inswap (sptes s p)" for p
  proof -
    obtain t where t: "t \<in> T" "p \<in> hash_elems (spt s t)" using p(1) by (auto simp: entries_def)
    then have "space (mach s) (pagedir s t) (user_vaddr (sptes s p)) = None" using sw p(2) unfolding swap_inv_def by blast
    moreover have "fte_ok s T f" using fr ev(1) by (simp add: frames_inv_def)
    ultimately have "p \<noteq> fspte (ftes s f)"
      using entry_owner [OF tb _ t(1) _ t(2)] by (auto simp: fte_ok_def fte_vaddr_def)
    then show ?thesis by (simp add: ev(11))
  qed
  moreover have "space (mach s') (pagedir s t) v = None" if "t \<in> T" "space (mach s) (pagedir s t) v = None" for t v
    using evicted_space [OF assms that(1)] that(2) by simp
  ultimately show ?thesis
    unfolding paged_def using ev(4,6,7,21-24) va(1,2) evicted_view [OF assms] by (intro conjI) auto
qed

lemma paged_refl: "paging_inv s T \<Longrightarrow> paged T s s"
  by (simp add: paged_def)

section \<open>Taking a frame\<close>

text \<open>A page of the user pool that belongs to no directory and to no frame of the list.\<close>

definition spare :: "vm \<Rightarrow> nat set \<Rightarrow> u32 \<Rightarrow> bool" where
  "spare s T k \<longleftrightarrow> k \<noteq> 0 \<and> free_standing s T k \<and> k \<notin> fte_frame s ` set (global_frame_list s)"

definition user_room :: "pmem \<Rightarrow> bool" where
  "user_room m \<longleftrightarrow> (\<exists>p. block (user_pool m) p 1 \<and> p \<notin> allocated m)"

lemma frames_inv_mach:
  assumes "frames_inv s T" "tables_inv s T"
    and "\<And>q. free_standing s T q \<Longrightarrow> free_standing (s\<lparr>mach := m\<rparr>) T q" "\<And>t. t \<in> T \<Longrightarrow> space m (pagedir s t) = space (mach s) (pagedir s t)"
    and "pool_pages (user_pool (phys m)) = pool_pages (user_pool (phys (mach s)))" "ram_pages m = ram_pages (mach s)"
  shows "frames_inv (s\<lparr>mach := m\<rparr>) T"
proof -
  let ?s = "s\<lparr>mach := m\<rparr>"
  have e: "fte_frame ?s = fte_frame s" "fte_vaddr ?s = fte_vaddr s" by (simp_all add: fte_frame_def fte_vaddr_def fun_eq_iff)
  have "fte_ok ?s T f" if "fte_ok s T f" for f using that assms(3,4) unfolding fte_ok_def e by simp
  then show ?thesis using assms(1,4,5,6) unfolding frames_inv_def e by simp
qed

lemma user_pool_page:
  assumes "palloc_inv m" "block (user_pool m) k 1"
  shows "k \<in> pool_pages (user_pool m)" "k \<notin> pool_pages (kernel_pool m)"
proof -
  have inv: "pool_inv (user_pool m)" "pool_pages (kernel_pool m) \<inter> pool_pages (user_pool m) = {}" using assms(1) by (simp_all add: palloc_inv_def)
  obtain i where "i + 1 \<le> bit_cnt (used_map (user_pool m))" "k = pool_base (user_pool m) + of_nat (4096 * i)" using assms(2) by (auto simp: block_def)
  with pool_run [OF inv(1), of i 1] show "k \<in> pool_pages (user_pool m)" by (auto simp: page_run_def)
  then show "k \<notin> pool_pages (kernel_pool m)" using inv(2) by blast
qed

lemma take_page_paged:
  assumes "paging_inv s T"
  shows "(get_page (PAL_USER OR PAL_ZERO) (mach s) = Inr (0, mach s) \<and> \<not> user_room (phys (mach s)))
    \<or> (\<exists>k m. user_room (phys (mach s)) \<and> get_page (PAL_USER OR PAL_ZERO) (mach s) = Inr (k, (mach s)\<lparr>phys := m\<rparr>)
       \<and> paged T s (s\<lparr>mach := (mach s)\<lparr>phys := m\<rparr>\<rparr>) \<and> spare (s\<lparr>mach := (mach s)\<lparr>phys := m\<rparr>\<rparr>) T k \<and> mem m k = replicate 1024 0)"
proof -
  let ?P = "proc_dirs s T"
  have inv: "vm_inv (mach s) ?P" and sw: "swap_inv s T" and fr: "frames_inv s T" and tb: "tables_inv s T" using assms by (simp_all add: paging_inv_def)
  then have ok: "mem_ok (mach s)" "palloc_inv (phys (mach s))" by (auto simp: vm_inv_def dirs_inv_def mem_ok_def)
  have fl: "(PAL_USER OR PAL_ZERO) AND PAL_USER \<noteq> 0" "(PAL_USER OR PAL_ZERO) AND PAL_ASSERT = 0" "(PAL_USER OR PAL_ZERO) AND PAL_ZERO \<noteq> 0"
    "get_pool True (phys (mach s)) = user_pool (phys (mach s))" by (simp_all add: PAL_USER_def PAL_ZERO_def PAL_ASSERT_def get_pool_def)
  from palloc_get_multiple_cases [OF ok(2) zero_less_one, of "PAL_USER OR PAL_ZERO"] show ?thesis
  proof (elim disjE exE conjE)
    assume g: "palloc_get_multiple (PAL_USER OR PAL_ZERO) 1 (phys (mach s)) = (if (PAL_USER OR PAL_ZERO) AND PAL_ASSERT = 0 then Inr (0, phys (mach s)) else Inl Panic)"
      and n: "\<forall>p. block (get_pool ((PAL_USER OR PAL_ZERO) AND PAL_USER \<noteq> 0) (phys (mach s))) p 1 \<longrightarrow> page_run p 1 \<inter> allocated (phys (mach s)) \<noteq> {}"
    have "get_page (PAL_USER OR PAL_ZERO) (mach s) = Inr (0, mach s)" using g fl(2) by (simp add: get_page_def palloc_get_page_def)
    moreover have "\<not> user_room (phys (mach s))" using n fl(1,4) by (auto simp: user_room_def)
    ultimately show ?thesis by blast
  next
    fix k m
    assume g: "palloc_get_multiple (PAL_USER OR PAL_ZERO) 1 (phys (mach s)) = Inr (k, m)"
      and bk: "block (get_pool ((PAL_USER OR PAL_ZERO) AND PAL_USER \<noteq> 0) (phys (mach s))) k 1"
      and fresh: "page_run k 1 \<inter> allocated (phys (mach s)) = {}" and al: "allocated m = allocated (phys (mach s)) \<union> page_run k 1"
      and pi: "palloc_inv m" and sp: "same_pools (phys (mach s)) m"
      and mm: "\<forall>q. mem m q = (if (PAL_USER OR PAL_ZERO) AND PAL_ZERO \<noteq> 0 \<and> q \<in> page_run k 1 then replicate 1024 0 else mem (phys (mach s)) q)"
    have k: "k \<notin> allocated (phys (mach s))" "allocated m = insert k (allocated (phys (mach s)))" "block (user_pool (phys (mach s))) k 1"
      using fresh al bk fl(1,4) by auto
    have mq: "mem m q = (if q = k then replicate 1024 0 else mem (phys (mach s)) q)" for q using mm fl(3) by simp
    define m' s' where "m' = (mach s)\<lparr>phys := m\<rparr>" and "s' = s\<lparr>mach := m'\<rparr>"
    have ok': "mem_ok m'" using ok(1) pi mq by (simp add: mem_ok_def m'_def)
    have fa: "footprint (mach s) a \<subseteq> allocated (phys (mach s))" if "a \<in> ?P" for a
      using inv that by (auto simp: vm_inv_def dirs_inv_def pd_inv_def)
    have eqs: "mem (phys m') q = mem (phys (mach s)) q" if "a \<in> ?P" "q \<in> footprint (mach s) a" for a q
      using fa [OF that(1)] that(2) k(1) mq by (auto simp: m'_def)
    have sub: "footprint (mach s) a \<subseteq> allocated (phys m')" if "a \<in> ?P" for a using fa [OF that] k(2) by (auto simp: m'_def)
    have vi: "vm_inv m' ?P" by (rule vm_inv_mem(1) [OF inv ok']) (use eqs sub in \<open>simp_all add: m'_def\<close>)
    have vf: "footprint m' a = footprint (mach s) a" "space m' a = space (mach s) a" if "a \<in> ?P" for a
      by (rule vm_inv_mem(2,3) [OF inv ok']; use eqs sub that in \<open>simp add: m'_def\<close>)+
    have dd: "proc_dirs s' T = ?P" by (simp add: proc_dirs_def s'_def m'_def)
    note pools = same_pools_pages [OF sp]
    have sm: "space m' (pagedir s t) = space (mach s) (pagedir s t)" if "t \<in> T" for t using that by (intro vf(2)) (simp add: proc_dirs_def)
    have st: "free_standing s' T q" if "free_standing s T q" for q
      using that vf(1) k(2) unfolding free_standing_def dd by (auto simp: s'_def m'_def pools)
    have fr': "frames_inv s' T" unfolding s'_def using st sm pools by (intro frames_inv_mach [OF fr tb]) (simp_all add: s'_def m'_def)
    have "swap_inv s' T" using sw sm unfolding swap_inv_def entries_def by (simp add: s'_def)
    moreover have "tables_inv s' T" by (rule tables_inv_cong(1) [OF tb]) (simp_all add: s'_def m'_def)
    ultimately have "paging_inv s' T" using vi fr' unfolding paging_inv_def dd by (simp add: s'_def)
    moreover have pv: "page_view s' t v = page_view s t v" if "t \<in> T" for t v
    proof -
      have "page_at s' q = page_at s q" if "space (mach s) (pagedir s t) v = Some (q, w)" for q w
      proof -
        from frame_of_page [OF fr \<open>t \<in> T\<close> that] have "q \<noteq> k" using fr k(1) unfolding frames_inv_def fte_ok_def free_standing_def by metis
        then show ?thesis using mq by (simp add: page_at_def s'_def m'_def)
      qed
      then show ?thesis using sm [OF that] by (auto simp: page_view_def s'_def split: option.split)
    qed
    moreover have "k \<notin> pool_pages (kernel_pool (phys (mach s)))" "k \<in> pool_pages (user_pool (phys (mach s)))"
      using user_pool_page [OF ok(2) k(3)] by simp_all
    ultimately have pg: "paged T s s'" using k(2) sp sm unfolding paged_def by (auto simp: s'_def m'_def)
    have "k \<noteq> 0" using block_nonnull(1) [of "user_pool (phys (mach s))" k 1] ok(2) k(3) by (auto simp: palloc_inv_def)
    moreover have "k \<notin> fte_frame s ` set (global_frame_list s)" using fr k(1) unfolding frames_inv_def fte_ok_def free_standing_def by auto
    moreover have "k \<notin> footprint m' a" if "a \<in> ?P" for a using fa [OF that] vf(1) [OF that] k(1) by auto
    ultimately have "spare s' T k"
      using k(2) \<open>k \<in> pool_pages _\<close> unfolding spare_def free_standing_def dd
      by (auto simp: s'_def m'_def pools fte_frame_def)
    moreover have "get_page (PAL_USER OR PAL_ZERO) (mach s) = Inr (k, (mach s)\<lparr>phys := m\<rparr>)" using g by (simp add: get_page_def palloc_get_page_def)
    moreover have "user_room (phys (mach s))" using k(1,3) by (auto simp: user_room_def)
    ultimately show ?thesis using pg mq by (auto simp: s'_def m'_def)
  qed
qed

lemma paged_trans:
  assumes "paged T s s1" "paged T s1 s2"
  shows "paged T s s2"
proof -
  have e: "entries s1 T = entries s T" using assms(1) by (simp add: paged_def entries_def)
  have k: "pool_pages (kernel_pool (phys (mach s1))) = pool_pages (kernel_pool (phys (mach s)))"
    using assms(1) same_pools_pages(2) unfolding paged_def by blast
  have "same_pools (phys (mach s)) (phys (mach s2))" using assms same_pools_trans unfolding paged_def by blast
  moreover have "allocated (phys (mach s2)) \<inter> pool_pages (kernel_pool (phys (mach s))) \<subseteq> allocated (phys (mach s))"
    using assms unfolding paged_def k by blast
  moreover have "sptes s2 p = sptes s p" if "p \<in> entries s T" "inswap (sptes s p)" for p
    using assms that unfolding paged_def e by metis
  moreover have "space (mach s2) (pagedir s t) v = None" if "t \<in> T" "space (mach s) (pagedir s t) v = None" for t v
    using assms that unfolding paged_def by metis
  ultimately show ?thesis using assms unfolding paged_def by (intro conjI) simp_all
qed

text \<open>Room for one more frame: a free page of the user pool, or a frame to evict and a slot for it.\<close>

definition frame_room :: "vm \<Rightarrow> bool" where
  "frame_room s \<longleftrightarrow> user_room (phys (mach s))
     \<or> global_frame_list s \<noteq> [] \<and> (\<exists>j<bit_cnt (swap_table s). \<not> bitmap_bit (swap_table s) j)"

lemma get_frame_spec:
  assumes "paging_inv s T" "frame_room s"
  shows "\<exists>k s'. get_frame (Suc (length (global_frame_list s))) (PAL_USER OR PAL_ZERO) s = Inr (k, s') \<and> paged T s s'
    \<and> spare s' T k \<and> page_at s' k = replicate 1024 0"
proof -
  have one: "\<exists>k s'. get_frame (Suc n) (PAL_USER OR PAL_ZERO) s = Inr (k, s') \<and> paged T s s' \<and> spare s' T k \<and> page_at s' k = replicate 1024 0"
    if q: "paging_inv s T" "user_room (phys (mach s))" for s n
  proof -
    obtain k m where m: "get_page (PAL_USER OR PAL_ZERO) (mach s) = Inr (k, (mach s)\<lparr>phys := m\<rparr>)"
        "paged T s (s\<lparr>mach := (mach s)\<lparr>phys := m\<rparr>\<rparr>)" "spare (s\<lparr>mach := (mach s)\<lparr>phys := m\<rparr>\<rparr>) T k" "mem m k = replicate 1024 0"
      using take_page_paged [OF q(1)] q(2) by blast
    then have "k \<noteq> 0" by (simp add: spare_def)
    then show ?thesis using m by (intro exI [of _ k] exI [of _ "s\<lparr>mach := (mach s)\<lparr>phys := m\<rparr>\<rparr>"]) (simp add: on_mach_def page_at_def)
  qed
  show ?thesis
  proof (cases "user_room (phys (mach s))")
    case True
    then show ?thesis using one [OF assms(1)] by blast
  next
    case False
    then have g: "get_page (PAL_USER OR PAL_ZERO) (mach s) = Inr (0, mach s)"
      using take_page_paged [OF assms(1)] by blast
    obtain j where ne: "global_frame_list s \<noteq> []" "j < bit_cnt (swap_table s)" "\<not> bitmap_bit (swap_table s) j"
      using False assms(2) by (auto simp: frame_room_def)
    obtain s1 f i where s1: "swap_out s = Inr s1" "evicted T s s1 f i" using swap_out_evicts [OF assms(1) ne] by blast
    note ev = evictedD [OF s1(2)] and pg = evicted_paged [OF assms(1) s1(2)]
    have "fte_frame s f \<in> pool_pages (user_pool (phys (mach s)))"
      using assms(1) ev(1) by (auto simp: paging_inv_def frames_inv_def fte_ok_def free_standing_def)
    then have "fte_frame s f \<in> pool_pages (user_pool (phys (mach s1)))" using same_pools_pages(1) [OF ev(6)] by simp
    then have "block (user_pool (phys (mach s1))) (fte_frame s f) 1" by (auto simp: block_def pool_pages_def page_run_def Suc_le_eq)
    then have "user_room (phys (mach s1))" using ev(7) unfolding user_room_def by blast
    moreover have "paging_inv s1 T" using pg by (simp add: paged_def)
    moreover obtain n where "length (global_frame_list s) = Suc n" using ne(1) by (cases "global_frame_list s") auto
    ultimately obtain k s' where "get_frame (length (global_frame_list s)) (PAL_USER OR PAL_ZERO) s1 = Inr (k, s')" "paged T s1 s'"
        "spare s' T k" "page_at s' k = replicate 1024 0" using one [of s1 n] by auto
    then show ?thesis using g s1(1) paged_trans [OF pg] by (auto simp: on_mach_def)
  qed
qed

section \<open>Mapping a frame\<close>

text \<open>
  \<open>mapped_frame T s s' t u k w p\<close>: the spare frame \<open>k\<close> has become the page \<open>u\<close> of process \<open>t\<close>, with the entry \<open>p\<close>,
  which is not in swap any more.
\<close>

definition mapped_frame :: "nat set \<Rightarrow> vm \<Rightarrow> vm \<Rightarrow> nat \<Rightarrow> u32 \<Rightarrow> u32 \<Rightarrow> bool \<Rightarrow> addr \<Rightarrow> bool" where
  "mapped_frame T s s' t u k w p \<longleftrightarrow>
     vm_inv (mach s') (proc_dirs s T) \<and> base_page_dir (mach s') = base_page_dir (mach s) \<and> ram_pages (mach s') = ram_pages (mach s)
   \<and> same_pools (phys (mach s)) (phys (mach s')) \<and> allocated (phys (mach s)) \<subseteq> allocated (phys (mach s'))
   \<and> (\<forall>q. free_standing s T q \<longrightarrow> q \<noteq> k \<longrightarrow> page_at s' q = page_at s q)
   \<and> (\<forall>a\<in>proc_dirs s T. footprint (mach s') a \<inter> allocated (phys (mach s)) \<subseteq> footprint (mach s) a)
   \<and> (\<forall>a\<in>proc_dirs s T. space (mach s') a = (if a = pagedir s t then (space (mach s) a)(u \<mapsto> (k, w)) else space (mach s) a))
   \<and> (\<exists>f. f \<notin> set (global_frame_list s) \<and> global_frame_list s' = global_frame_list s @ [f] \<and> f \<le> malloc_cnt (vfs s')
        \<and> malloc_cnt (vfs s) \<le> malloc_cnt (vfs s')
        \<and> ftes s' = (ftes s)(f := ftes s' f) \<and> frame (ftes s' f) = k \<and> owner (ftes s' f) = t \<and> fspte (ftes s' f) = p)
   \<and> (\<forall>q. q \<noteq> p \<longrightarrow> sptes s' q = sptes s q) \<and> user_vaddr (sptes s' p) = u \<and> \<not> inswap (sptes s' p)
   \<and> bitmap_inv (swap_table s') \<and> bit_cnt (swap_table s') = bit_cnt (swap_table s)
   \<and> (\<forall>j<bit_cnt (swap_table s). bitmap_bit (swap_table s) j \<longrightarrow> \<not> (inswap (sptes s p) \<and> swapindex (sptes s p) = int j)
        \<longrightarrow> bitmap_bit (swap_table s') j)
   \<and> capacity (swap_device s') = capacity (swap_device s) \<and> sectors (swap_device s') = sectors (swap_device s)
   \<and> spt s' = spt s \<and> pagedir s' = pagedir s"

lemma mapped_frame_inv:
  assumes "paging_inv s T" "mapped_frame T s s' t u k w p" "t \<in> T" "p \<in> hash_elems (spt s t)" "user_vaddr (sptes s p) = u"
    and "space (mach s) (pagedir s t) u = None" "spare s T k"
  shows "paging_inv s' T" "page_view s' t u = Some (page_at s' k)"
    "\<And>t' v. t' \<in> T \<Longrightarrow> (t', v) \<noteq> (t, u) \<Longrightarrow> page_view s' t' v = page_view s t' v"
proof -
  let ?P = "proc_dirs s T"
  have sw: "swap_inv s T" and fr: "frames_inv s T" and tb: "tables_inv s T" using assms(1) by (simp_all add: paging_inv_def)
  have vi: "vm_inv (mach s') ?P" and bs: "base_page_dir (mach s') = base_page_dir (mach s)" and rp: "ram_pages (mach s') = ram_pages (mach s)"
    and pl: "same_pools (phys (mach s)) (phys (mach s'))" and al: "allocated (phys (mach s)) \<subseteq> allocated (phys (mach s'))"
    and keep: "\<And>q. free_standing s T q \<Longrightarrow> q \<noteq> k \<Longrightarrow> page_at s' q = page_at s q"
    and fp: "\<And>a. a \<in> ?P \<Longrightarrow> footprint (mach s') a \<inter> allocated (phys (mach s)) \<subseteq> footprint (mach s) a"
    and sp0: "\<And>a. a \<in> ?P \<Longrightarrow> space (mach s') a = (if a = pagedir s t then (space (mach s) a)(u \<mapsto> (k, w)) else space (mach s) a)"
    and se: "\<And>q. q \<noteq> p \<Longrightarrow> sptes s' q = sptes s q" "user_vaddr (sptes s' p) = u" "\<not> inswap (sptes s' p)"
    and bm: "bitmap_inv (swap_table s')" "bit_cnt (swap_table s') = bit_cnt (swap_table s)"
      "\<And>j. j < bit_cnt (swap_table s) \<Longrightarrow> bitmap_bit (swap_table s) j \<Longrightarrow> \<not> (inswap (sptes s p) \<and> swapindex (sptes s p) = int j)
        \<Longrightarrow> bitmap_bit (swap_table s') j"
    and dv: "capacity (swap_device s') = capacity (swap_device s)" "sectors (swap_device s') = sectors (swap_device s)"
    and st: "spt s' = spt s" "pagedir s' = pagedir s"
    using assms(2) unfolding mapped_frame_def by simp_all
  obtain f where f: "f \<notin> set (global_frame_list s)" "global_frame_list s' = global_frame_list s @ [f]" "f \<le> malloc_cnt (vfs s')"
      "malloc_cnt (vfs s) \<le> malloc_cnt (vfs s')" "ftes s' = (ftes s)(f := ftes s' f)" "frame (ftes s' f) = k" "owner (ftes s' f) = t" "fspte (ftes s' f) = p"
    using assms(2) unfolding mapped_frame_def by blast
  have dd: "proc_dirs s' T = ?P" by (simp add: proc_dirs_def bs st)
  note pools = same_pools_pages [OF pl]
  have ij: "inj_on (pagedir s) T" using tb by (simp add: tables_inv_def)
  have sp: "space (mach s') (pagedir s t') v = (if t' = t \<and> v = u then Some (k, w) else space (mach s) (pagedir s t') v)" if "t' \<in> T" for t' v
  proof -
    have "pagedir s t' = pagedir s t \<longleftrightarrow> t' = t" using inj_onD [OF ij] that assms(3) by blast
    then show ?thesis using sp0 [of "pagedir s t'"] that by (auto simp: proc_dirs_def)
  qed
  have va: "user_vaddr (sptes s' q) = user_vaddr (sptes s q)" for q using se assms(5) by (cases "q = p") simp_all
  have tb': "tables_inv s' T" and fe: "\<And>t' v. t' \<in> T \<Longrightarrow> find_spte (sptes s') (spt s t') 0 v = find_spte (sptes s) (spt s t') 0 v"
    using tables_inv_cong [OF tb st bs va] by simp_all
  have fst: "free_standing s' T q" if "free_standing s T q" for q
    using that al fp unfolding free_standing_def dd pools by blast
  have fe': "ftes s' g = ftes s g" if "g \<in> set (global_frame_list s)" for g using f(1,5) that by (metis fun_upd_other)
  have fv: "fte_vaddr s' g = fte_vaddr s g" "fte_frame s' g = fte_frame s g" if "g \<in> set (global_frame_list s)" for g
    using fe' [OF that] va by (simp_all add: fte_vaddr_def fte_frame_def)
  have fn: "fte_vaddr s' f = u" "fte_frame s' f = k" using f(6,8) se(2) by (simp_all add: fte_vaddr_def fte_frame_def)
  have old: "fte_ok s' T g" if g: "g \<in> set (global_frame_list s)" for g
  proof -
    have o: "fte_ok s T g" using fr g by (simp add: frames_inv_def)
    then have "\<not> (owner (ftes s g) = t \<and> fte_vaddr s g = u)" using assms(6) by (auto simp: fte_ok_def)
    then show ?thesis using o fst f(4) sp unfolding fte_ok_def fe' [OF g] fv [OF g] st by auto
  qed
  have sk: "free_standing s T k" "k \<notin> fte_frame s ` set (global_frame_list s)" using assms(7) by (simp_all add: spare_def)
  have new: "fte_ok s' T f" using fst [OF sk(1)] f(3,7,8) assms(3,4) sp [OF assms(3), of u] unfolding fte_ok_def fn st by simp
  have fr': "frames_inv s' T"
  proof -
    have "distinct (global_frame_list s')" using fr f(1,2) by (simp add: frames_inv_def)
    moreover have "inj_on (fte_frame s') (set (global_frame_list s'))"
    proof -
      have "inj_on (fte_frame s') (set (global_frame_list s))"
        using fr fv(2) by (subst inj_on_cong [of _ _ "fte_frame s"]) (auto simp: frames_inv_def)
      moreover have "k \<notin> fte_frame s' ` set (global_frame_list s)" using sk(2) fv(2) by force
      ultimately show ?thesis using f(2) fn(2) by auto
    qed
    moreover have "\<forall>g\<in>set (global_frame_list s'). fte_ok s' T g" using old new f(2) by auto
    moreover have "\<exists>g\<in>set (global_frame_list s'). owner (ftes s' g) = t' \<and> fte_vaddr s' g = v \<and> fte_frame s' g = q"
      if t': "t' \<in> T" and m: "space (mach s') (pagedir s t') v = Some (q, x)" for t' v q x
    proof (cases "t' = t \<and> v = u")
      case True
      then show ?thesis using m sp [OF t', of v] f(2,7) fn by (intro bexI [of _ f]) simp_all
    next
      case False
      then have "space (mach s) (pagedir s t') v = Some (q, x)" using m sp [OF t', of v] by auto
      from frame_of_page [OF fr t' this] obtain g where
        g: "g \<in> set (global_frame_list s)" "owner (ftes s g) = t'" "fte_vaddr s g = v" "fte_frame s g = q" .
      then show ?thesis using fe' fv f(2) by (intro bexI [of _ g]) simp_all
    qed
    moreover have "\<forall>k\<in>pool_pages (user_pool (phys (mach s))). unat (drop_bit 12 (k - PHYS_BASE)) < ram_pages (mach s)"
      using fr by (simp add: frames_inv_def)
    ultimately show ?thesis unfolding frames_inv_def pools rp st by blast
  qed
  have ent: "entries s' T = entries s T" by (simp add: entries_def st)
  have ne: "q \<noteq> p" if "inswap (sptes s' q)" for q using that se(3) by auto
  have sw': "swap_inv s' T"
  proof -
    have "space (mach s') (pagedir s t') (user_vaddr (sptes s' q)) = None
        \<and> (\<exists>j<bit_cnt (swap_table s). swapindex (sptes s' q) = int j \<and> bitmap_bit (swap_table s') j)"
      if q: "t' \<in> T" "q \<in> hash_elems (spt s t')" "inswap (sptes s' q)" for t' q
    proof -
      have nq: "q \<noteq> p" "inswap (sptes s q)" "sptes s' q = sptes s q" using ne [OF q(3)] se(1) q(3) by auto
      then obtain j where j: "space (mach s) (pagedir s t') (user_vaddr (sptes s q)) = None" "j < bit_cnt (swap_table s)"
          "swapindex (sptes s q) = int j" "bitmap_bit (swap_table s) j" using sw q(1,2) unfolding swap_inv_def by blast
      have "\<not> (t' = t \<and> user_vaddr (sptes s q) = u)"
        using find_entry_iff [OF tb assms(3), of u] assms(4,5) q(2) nq(1) by (metis option.inject)
      moreover have "\<not> (inswap (sptes s p) \<and> swapindex (sptes s p) = int j)"
      proof -
        have "inj_on (\<lambda>p. swapindex (sptes s p)) {p \<in> entries s T. inswap (sptes s p)}" using sw by (simp add: swap_inv_def)
        moreover have "q \<in> entries s T" "p \<in> entries s T" using assms(3,4) q(1,2) by (auto simp: entries_def)
        ultimately show ?thesis using inj_onD [of _ _ q p] nq(1,2) j(3) by fastforce
      qed
      ultimately show ?thesis using j bm(3) sp [OF q(1)] nq(3) by auto
    qed
    moreover have "inj_on (\<lambda>p. swapindex (sptes s' p)) {p \<in> entries s T. inswap (sptes s' p)}"
      using sw se(1) ne unfolding swap_inv_def inj_on_def by (metis (mono_tags, lifting) mem_Collect_eq)
    ultimately show ?thesis using sw bm(1) unfolding swap_inv_def ent bm(2) dv st by blast
  qed
  show "paging_inv s' T" unfolding paging_inv_def dd using vi tb' fr' sw' by simp
  show "page_view s' t u = Some (page_at s' k)" using sp [OF assms(3), of u] by (simp add: page_view_def st)
  show "page_view s' t' v = page_view s t' v" if t': "t' \<in> T" "(t', v) \<noteq> (t, u)" for t' v
  proof (cases "space (mach s) (pagedir s t') v")
    case None
    have "space (mach s') (pagedir s t') v = None" using None t' sp [OF t'(1), of v] by auto
    moreover have "sptes s' q = sptes s q" if "find_spte (sptes s) (spt s t') 0 v = Some q" for q
    proof -
      have "q \<in> hash_elems (spt s t')" "user_vaddr (sptes s q) = v" using that find_entry_iff [OF tb t'(1)] by auto
      then have "q \<noteq> p" using entry_owner [OF tb assms(3) t'(1) assms(4)] assms(5) t'(2) by auto
      then show ?thesis by (rule se(1))
    qed
    moreover have "slot_words (swap_device s') = slot_words (swap_device s)" by (simp add: slot_words_def dv fun_eq_iff)
    ultimately show ?thesis using None fe [OF t'(1)] by (cases "find_spte (sptes s) (spt s t') 0 v") (simp_all add: page_view_def st)
  next
    case (Some qx)
    obtain q x where qx: "qx = (q, x)" by (cases qx)
    from frame_of_page [OF fr t'(1) Some [unfolded qx]] obtain g where
      g: "g \<in> set (global_frame_list s)" "owner (ftes s g) = t'" "fte_vaddr s g = v" "fte_frame s g = q" .
    have "q \<noteq> k" "free_standing s T q" using sk(2) g fr by (auto simp: frames_inv_def fte_ok_def)
    then show ?thesis using keep Some qx t' sp [OF t'(1), of v] by (auto simp: page_view_def st)
  qed
qed

section \<open>Bringing pages in\<close>

lemma kernel_room_paged:
  assumes "paged T s s'" "kernel_room (phys (mach s))"
  shows "kernel_room (phys (mach s'))"
proof -
  obtain p where p: "block (kernel_pool (phys (mach s))) p 1" "p \<notin> allocated (phys (mach s))" using assms(2) by (auto simp: kernel_room_def)
  have sp: "same_pools (phys (mach s)) (phys (mach s'))" using assms(1) by (simp add: paged_def)
  have "block (get_pool False (phys (mach s'))) p 1" using p(1) same_pools_block [OF sp, of False] by (simp add: get_pool_def)
  moreover have "p \<in> pool_pages (kernel_pool (phys (mach s)))" using p(1) by (auto simp: block_def pool_pages_def page_run_def Suc_le_eq)
  then have "p \<notin> allocated (phys (mach s'))" using p(2) assms(1) unfolding paged_def by blast
  ultimately show ?thesis by (auto simp: kernel_room_def get_pool_def)
qed

text \<open>
  \<open>allocate_frame\<close> for a page with an entry and no frame: some frames may be evicted, then a zeroed
  frame is mapped at the page with the rights of the entry.
\<close>

lemma allocate_frame_spec:
  assumes "paging_inv s T" "curr s \<in> T" "p \<in> hash_elems (spt s (curr s))" "space (mach s) (pagedir s (curr s)) (user_vaddr (sptes s p)) = None"
    and "frame_room s" "kernel_room (phys (mach s))" "mallocs (vfs s) (malloc_cnt (vfs s))"
  defines "u \<equiv> user_vaddr (sptes s p)"
  shows "\<exists>k s1 s2 f. allocate_frame u (PAL_USER OR PAL_ZERO) s = Inr (k, s2) \<and> k \<noteq> 0 \<and> paged T s s1 \<and> spare s1 T k
    \<and> f \<notin> set (global_frame_list s1) \<and> f \<le> malloc_cnt (vfs s2) \<and> malloc_cnt (vfs s1) \<le> malloc_cnt (vfs s2)
    \<and> dir_step (proc_dirs s1 T) (pagedir s1 (curr s1)) (mach s1) (mach s2)
    \<and> space (mach s2) (pagedir s1 (curr s1)) = (space (mach s1) (pagedir s1 (curr s1)))(u \<mapsto> (k, spte_writable (sptes s p)))
    \<and> s2 = s1\<lparr>vfs := vfs s2, mach := mach s2, ftes := (ftes s1)(f := \<lparr>frame = k, owner = curr s, fspte = p, fuaddr = u\<rparr>),
          proc_frames := proc_frames s2, global_frame_list := global_frame_list s1 @ [f]\<rparr>
    \<and> page_at s2 k = replicate 1024 0 \<and> files (vfs s2) = files (vfs s) \<and> vfs s2 = fst (kalloc (vfs s))"
proof -
  let ?t = "curr s"
  have tb: "tables_inv s T" and up: "user_page u" using assms(1,2,3) by (auto simp: paging_inv_def tables_inv_def u_def entries_def)
  then have pr: "pg_round_down u = u" by (simp add: user_page_def round_down_page(5))
  obtain k s1 where g: "get_frame (Suc (length (global_frame_list s))) (PAL_USER OR PAL_ZERO) s = Inr (k, s1)" "paged T s s1" "spare s1 T k"
      "page_at s1 k = replicate 1024 0" using get_frame_spec [OF assms(1,5)] by blast
  have eq: "curr s1 = ?t" "spt s1 = spt s" "pagedir s1 = pagedir s" "vfs s1 = vfs s" "paging_inv s1 T"
    and va: "\<And>q. user_vaddr (sptes s1 q) = user_vaddr (sptes s q)" "\<And>q. spte_writable (sptes s1 q) = spte_writable (sptes s q)"
    and nn: "space (mach s1) (pagedir s ?t) u = None" "base_page_dir (mach s1) = base_page_dir (mach s)"
    using g(2) assms(2,4) unfolding paged_def u_def by auto
  have tb1: "tables_inv s1 T" and fr1: "frames_inv s1 T" and vi1: "vm_inv (mach s1) (proc_dirs s1 T)" using eq(5) by (simp_all add: paging_inv_def)
  define f where "f = Suc (malloc_cnt (vfs s))"
  define v2 where "v2 = (vfs s)\<lparr>malloc_cnt := Suc (malloc_cnt (vfs s))\<rparr>"
  have al: "vm_alloc s1 = (s1\<lparr>vfs := v2\<rparr>, Some f)" using assms(7) by (simp add: vm_alloc_def kalloc_def eq(4) f_def v2_def)
  have fn: "f \<notin> set (global_frame_list s1)" using fr1 by (auto simp: frames_inv_def fte_ok_def f_def eq(4))
  define s3 where "s3 = s1\<lparr>vfs := v2, ftes := (ftes s1)(f := \<lparr>frame = k, owner = ?t, fspte = p, fuaddr = u\<rparr>)\<rparr>"
  have fi: "find_spte (sptes s1) (spt s ?t) 0 u = Some p"
    using find_entry_iff [OF tb1, of ?t u p] assms(2,3) eq(2) va(1) by (simp add: u_def)
  let ?pd = "pagedir s ?t" and ?P = "proc_dirs s1 T"
  have pd: "?pd \<in> ?P" "?pd \<noteq> base_page_dir (mach s1)"
    using imageI [OF assms(2), of "pagedir s"] tb nn(2) by (auto simp: proc_dirs_def eq(3) tables_inv_def simp del: image_eqI)
  have dv: "dirs_inv (mach s1) ?P" using vi1 by (simp add: vm_inv_def)
  have gp: "pagedir_get_page ?pd u (mach s1) = Inr 0"
    using get_page_spec [OF dv pd(1), of u] nn(1) pr up by (simp add: user_page_def)
  have ks: "k \<in> allocated (phys (mach s1))" "k \<in> pool_pages (user_pool (phys (mach s1)))" "k \<noteq> 0" "\<forall>a\<in>?P. k \<notin> footprint (mach s1) a"
    using g(3) by (simp_all add: spare_def free_standing_def)
  have "palloc_inv (phys (mach s1))" using dv by (auto simp: dirs_inv_def mem_ok_def)
  note kp = allocated_page [OF this ks(1)]
  have ram: "unat (drop_bit 12 (k - PHYS_BASE)) < ram_pages (mach s1)" using fr1 ks(2) by (simp add: frames_inv_def)
  obtain m where m: "pagedir_set_page ?pd u k (spte_writable (sptes s p)) (mach s1) = Inr (True, m)" "dir_step ?P ?pd (mach s1) m"
      "space m ?pd = (space (mach s1) ?pd)(u \<mapsto> (k, spte_writable (sptes s p)))"
    using set_page_step [OF vi1 pd(1) up pd(2) nn(1) kernel_room_paged [OF g(2) assms(6)] kp(1-3) ram] by blast
  define s2 where "s2 = s3\<lparr>mach := m, proc_frames := (proc_frames s3)(?t := proc_frames s3 ?t @ [f]), global_frame_list := global_frame_list s1 @ [f]\<rparr>"
  have "allocate_frame u (PAL_USER OR PAL_ZERO) s = Inr (k, s2)"
    using g(1) al fi gp m(1) va(2) pr
    by (simp add: allocate_frame_def find_entry_def eq(1-3) s2_def s3_def on_mach_def Let_def del: get_frame.simps)
  moreover have "page_at s2 k = replicate 1024 0"
    using dir_stepD(6) [OF m(2) ks(1)] ks(4) pd(1) g(4) by (simp add: s2_def s3_def page_at_def)
  ultimately show ?thesis
    using g(2,3) ks(3) fn m(2,3) assms(7)
    by (intro exI [of _ k] exI [of _ s1] exI [of _ s2] exI [of _ f])
      (simp add: s2_def s3_def eq kalloc_def f_def v2_def)
qed

text \<open>The contents of the new frame are written after it was mapped.\<close>

definition fill_page :: "u32 \<Rightarrow> u32 list \<Rightarrow> machine \<Rightarrow> machine" where
  "fill_page k ws m = m\<lparr>phys := (phys m)\<lparr>mem := (mem (phys m))(k := ws)\<rparr>\<rparr>"

lemma filled_frame:
  assumes "spare s T k" "t \<in> T" "dir_step (proc_dirs s T) (pagedir s t) (mach s) m"
    and "space m (pagedir s t) = (space (mach s) (pagedir s t))(u \<mapsto> (k, w))" "length ws = 1024"
  shows "vm_inv (fill_page k ws m) (proc_dirs s T)" "same_pools (phys (mach s)) (phys (fill_page k ws m))"
    "allocated (phys (mach s)) \<subseteq> allocated (phys (fill_page k ws m))"
    "base_page_dir (fill_page k ws m) = base_page_dir (mach s)" "ram_pages (fill_page k ws m) = ram_pages (mach s)"
    "free_standing s T q \<Longrightarrow> q \<noteq> k \<Longrightarrow> mem (phys (fill_page k ws m)) q = page_at s q"
    "mem (phys (fill_page k ws m)) k = ws"
    "a \<in> proc_dirs s T \<Longrightarrow> footprint (fill_page k ws m) a \<inter> allocated (phys (mach s)) \<subseteq> footprint (mach s) a"
    "a \<in> proc_dirs s T \<Longrightarrow> space (fill_page k ws m) a
      = (if a = pagedir s t then (space (mach s) a)(u \<mapsto> (k, w)) else space (mach s) a)"
proof -
  let ?P = "proc_dirs s T" and ?m = "fill_page k ws m"
  note ds = dir_stepD [OF assms(3)]
  have pd: "pagedir s t \<in> ?P" using assms(2) by (simp add: proc_dirs_def)
  have inv: "vm_inv m ?P" using ds(1) .
  have "mem_ok m" using inv by (auto simp: vm_inv_def dirs_inv_def)
  then have ok: "mem_ok ?m" using assms(5) by (auto simp: mem_ok_def fill_page_def palloc_inv_def)
  have kf: "k \<notin> footprint m a" if "a \<in> ?P" for a
    using assms(1) ds(7) [OF that] that by (auto simp: spare_def free_standing_def)
  have al: "allocated (phys ?m) = allocated (phys m)" by (simp add: fill_page_def allocated_def)
  have eqs: "mem (phys ?m) q = mem (phys m) q" if "a \<in> ?P" "q \<in> footprint m a" for a q
    using kf [OF that(1)] that(2) by (auto simp: fill_page_def)
  have sub: "footprint m a \<subseteq> allocated (phys ?m)" if "a \<in> ?P" for a
    using inv that unfolding al by (auto simp: vm_inv_def dirs_inv_def pd_inv_def)
  show "vm_inv ?m ?P" by (rule vm_inv_mem(1) [OF inv ok]) (use eqs sub in \<open>simp_all add: fill_page_def\<close>)
  have vf: "footprint ?m a = footprint m a" "space ?m a = space m a" if "a \<in> ?P" for a
    by (rule vm_inv_mem(2,3) [OF inv ok]; use eqs sub that in \<open>simp add: fill_page_def\<close>)+
  show "footprint ?m a \<inter> allocated (phys (mach s)) \<subseteq> footprint (mach s) a" if "a \<in> ?P" using vf(1) [OF that] ds(7) [OF that] by simp
  show "space ?m a = (if a = pagedir s t then (space (mach s) a)(u \<mapsto> (k, w)) else space (mach s) a)" if "a \<in> ?P"
    using vf(2) [OF that] assms(4) dir_step_space [OF assms(3) that] by auto
  have "get_pool x (phys ?m) = get_pool x (phys m)" for x by (simp add: fill_page_def get_pool_def)
  then show "same_pools (phys (mach s)) (phys ?m)" "allocated (phys (mach s)) \<subseteq> allocated (phys ?m)"
    using ds(4,5) al by (simp_all add: same_pools_def)
  show "base_page_dir ?m = base_page_dir (mach s)" "ram_pages ?m = ram_pages (mach s)" using ds(2,3) by (simp_all add: fill_page_def)
  show "mem (phys ?m) k = ws" by (simp add: fill_page_def)
  show "mem (phys ?m) q = page_at s q" if "free_standing s T q" "q \<noteq> k"
    using ds(6) [of q] that pd by (simp add: fill_page_def page_at_def free_standing_def)
qed

lemma mach_put_page: "mach (put_page k ws s) = fill_page k ws (mach s)"
  by (simp add: put_page_def fill_page_def)

text \<open>
  \<open>filled s1 s2 s' k ws p\<close>: after \<open>allocate_frame\<close> gave the frame \<open>k\<close>, in state \<open>s2\<close>, the words \<open>ws\<close> have been written
  to it, its entry is not in swap any more, and at most its slot has been released.
\<close>

definition filled :: "vm \<Rightarrow> vm \<Rightarrow> vm \<Rightarrow> u32 \<Rightarrow> u32 list \<Rightarrow> addr \<Rightarrow> bool" where
  "filled s1 s2 s' k ws p \<longleftrightarrow> length ws = 1024 \<and> mach s' = fill_page k ws (mach s2) \<and> ftes s' = ftes s2
     \<and> global_frame_list s' = global_frame_list s2 \<and> malloc_cnt (vfs s2) \<le> malloc_cnt (vfs s')
     \<and> spt s' = spt s2 \<and> pagedir s' = pagedir s2
     \<and> (\<forall>q. q \<noteq> p \<longrightarrow> sptes s' q = sptes s1 q) \<and> user_vaddr (sptes s' p) = user_vaddr (sptes s1 p) \<and> \<not> inswap (sptes s' p)
     \<and> bitmap_inv (swap_table s') \<and> bit_cnt (swap_table s') = bit_cnt (swap_table s1)
     \<and> (\<forall>j<bit_cnt (swap_table s1). bitmap_bit (swap_table s1) j \<longrightarrow> \<not> (inswap (sptes s1 p) \<and> swapindex (sptes s1 p) = int j)
          \<longrightarrow> bitmap_bit (swap_table s') j)
     \<and> capacity (swap_device s') = capacity (swap_device s1) \<and> sectors (swap_device s') = sectors (swap_device s1)"

lemma new_frame:
  assumes "paging_inv s T" "curr s \<in> T" "p \<in> hash_elems (spt s (curr s))" "space (mach s) (pagedir s (curr s)) (user_vaddr (sptes s p)) = None"
    and "frame_room s" "kernel_room (phys (mach s))" "mallocs (vfs s) (malloc_cnt (vfs s))"
  defines "u \<equiv> user_vaddr (sptes s p)" and "w \<equiv> spte_writable (sptes s p)"
  obtains k s2 s1 where "allocate_frame u (PAL_USER OR PAL_ZERO) s = Inr (k, s2)" "k \<noteq> 0" "paged T s s1" "spare s1 T k"
    "page_at s2 k = replicate 1024 0" "vfs s2 = fst (kalloc (vfs s))" "curr s2 = curr s" "pagedir s2 = pagedir s" "spt s2 = spt s"
    "sptes s2 = sptes s1" "swap_table s2 = swap_table s1" "swap_device s2 = swap_device s1"
    "\<forall>s' ws. filled s1 s2 s' k ws p \<longrightarrow> mapped_frame T s1 s' (curr s) u k w p \<and> page_at s' k = ws
       \<and> vm_inv (mach s') (proc_dirs s1 T) \<and> space (mach s') (pagedir s (curr s)) u = Some (k, w)"
proof -
  let ?t = "curr s"
  from allocate_frame_spec [OF assms(1-7), folded u_def w_def] obtain k s1 s2 f where
    af: "allocate_frame u (PAL_USER OR PAL_ZERO) s = Inr (k, s2)" "k \<noteq> 0" "paged T s s1" "spare s1 T k"
      "f \<notin> set (global_frame_list s1)" "f \<le> malloc_cnt (vfs s2)" "malloc_cnt (vfs s1) \<le> malloc_cnt (vfs s2)"
      "dir_step (proc_dirs s1 T) (pagedir s1 (curr s1)) (mach s1) (mach s2)"
      "space (mach s2) (pagedir s1 (curr s1)) = (space (mach s1) (pagedir s1 (curr s1)))(u \<mapsto> (k, w))"
      "page_at s2 k = replicate 1024 0" "vfs s2 = fst (kalloc (vfs s))"
    and s2: "s2 = s1\<lparr>vfs := vfs s2, mach := mach s2, ftes := (ftes s1)(f := \<lparr>frame = k, owner = ?t, fspte = p, fuaddr = u\<rparr>),
          proc_frames := proc_frames s2, global_frame_list := global_frame_list s1 @ [f]\<rparr>" by blast
  have sel: "swap_device s2 = swap_device s1" "swap_table s2 = swap_table s1" "sptes s2 = sptes s1" "spt s2 = spt s1" "pagedir s2 = pagedir s1"
      "ftes s2 = (ftes s1)(f := \<lparr>frame = k, owner = ?t, fspte = p, fuaddr = u\<rparr>)" "global_frame_list s2 = global_frame_list s1 @ [f]"
      "curr s2 = curr s1" by (subst s2, simp)+
  have eq: "curr s1 = ?t" "spt s1 = spt s" "pagedir s1 = pagedir s" "user_vaddr (sptes s1 p) = u"
    using af(3) unfolding paged_def u_def by auto
  have fill: "mapped_frame T s1 s' ?t u k w p \<and> page_at s' k = ws \<and> vm_inv (mach s') (proc_dirs s1 T)
      \<and> space (mach s') (pagedir s ?t) u = Some (k, w)" if fl: "filled s1 s2 s' k ws p" for s' ws
  proof -
    have wl: "length ws = 1024" and ma: "mach s' = fill_page k ws (mach s2)" using fl by (simp_all add: filled_def)
    note ff = filled_frame [OF af(4) _ af(8,9) wl, unfolded eq(1), OF assms(2)]
    have pa: "page_at s' q = mem (phys (fill_page k ws (mach s2))) q" for q by (simp add: page_at_def ma)
    have "pagedir s ?t \<in> proc_dirs s1 T" using assms(2) by (simp add: proc_dirs_def eq(3))
    then have sp: "space (mach s') (pagedir s ?t) u = Some (k, w)" using ff(9) [of "pagedir s ?t"] eq(3) by (simp add: ma)
    have "mapped_frame T s1 s' ?t u k w p"
      unfolding mapped_frame_def pa ma
      by (intro conjI exI [of _ f] allI impI ballI) (use ff af(5-7) fl eq(4) sel in \<open>simp_all add: filled_def\<close>)
    then show ?thesis using ff(1,7) pa ma sp by simp
  qed
  show ?thesis by (rule that [OF af(1-4,10,11) _ _ _ sel(3,2,1)]) (use fill in \<open>simp_all add: sel eq\<close>)
qed

text \<open>The slot of a page in swap: its words are read into an empty frame, and its bit is released.\<close>

lemma take_slot:
  assumes sw: "swap_inv s1 T" and i: "i < bit_cnt (swap_table s1)" and sel: "swap_table s2 = swap_table s1" "swap_device s2 = swap_device s1"
    and "page_at s2 k = replicate 1024 0"
  obtains d b where "read_from_disk k (int i) s2 = Inr (put_page k (slot_words (swap_device s1) i) (s2\<lparr>swap_device := d\<rparr>))"
    "capacity d = capacity (swap_device s1)" "sectors d = sectors (swap_device s1)"
    "bitmap_flip (swap_table s1) (nat (u32_of (int i))) = Inr b" "bitmap_inv b" "bit_cnt b = bit_cnt (swap_table s1)"
    "\<And>j. j < bit_cnt (swap_table s1) \<Longrightarrow> bitmap_bit (swap_table s1) j \<Longrightarrow> j \<noteq> i \<Longrightarrow> bitmap_bit b j"
proof -
  have cap: "8 * i + 8 \<le> capacity (swap_device s2)" "capacity (swap_device s2) \<le> 2 ^ 28" "bitmap_inv (swap_table s1)"
    using sw i unfolding swap_inv_def sel by simp_all
  obtain d where d: "read_from_disk k (int i) s2 = Inr (put_page k (slot_words (swap_device s1) i) (s2\<lparr>swap_device := d\<rparr>))"
      "capacity d = capacity (swap_device s1)" "sectors d = sectors (swap_device s1)"
    using read_from_disk_spec [OF cap(1,2), of k] assms(5) unfolding sel by auto
  obtain b where b: "bitmap_flip (swap_table s1) i = Inr b" "bitmap_inv b" "bit_cnt b = bit_cnt (swap_table s1)"
      "bitmap_bits b = (bitmap_bits (swap_table s1))[i := \<not> bitmap_bits (swap_table s1) ! i]"
    using bitmap_flip_spec [OF cap(3) i] by blast
  have bb: "bitmap_bit b j" if "j < bit_cnt (swap_table s1)" "bitmap_bit (swap_table s1) j" "j \<noteq> i" for j
    using arg_cong [OF b(4), of "\<lambda>l. l ! j"] that i b(3) by simp
  have "nat (u32_of (int i)) = i" using cap(1,2) by (subst u32_of_id) simp_all
  then have f: "bitmap_flip (swap_table s1) (nat (u32_of (int i))) = Inr b" using b(1) by simp
  show thesis using d f b(2,3) bb by (rule that)
qed

text \<open>
  C8: paging is transparent. With room for a frame, for a page table and for a table entry,
  bringing back a page from swap succeeds, whatever is evicted for it: afterwards the page is
  mapped with the rights of its entry, every page of every process has the contents it
  had, in memory or in swap, and the invariant of frames, slots and address spaces holds.
\<close>

theorem swap_in_restores_page:
  assumes "paging_inv s T" "curr s \<in> T" "find_entry s (pg_round_down a) = Some p" "inswap (sptes s p)"
    and "frame_room s" "kernel_room (phys (mach s))" "mallocs (vfs s) (malloc_cnt (vfs s))"
  shows "\<exists>s' k. swap_in a s = Inr s' \<and> paging_inv s' T \<and> (\<forall>t\<in>T. \<forall>v. page_view s' t v = page_view s t v)
    \<and> space (mach s') (pagedir s (curr s)) (pg_round_down a) = Some (k, spte_writable (sptes s p)) \<and> \<not> inswap (sptes s' p)"
proof -
  let ?t = "curr s"
  have tb: "tables_inv s T" and sw: "swap_inv s T" using assms(1) by (simp_all add: paging_inv_def)
  have p: "p \<in> hash_elems (spt s ?t)" "user_vaddr (sptes s p) = pg_round_down a"
    using assms(3) find_entry_iff [OF tb assms(2)] by (auto simp: find_entry_def)
  let ?u = "pg_round_down a"
  have spNone: "space (mach s) (pagedir s ?t) (user_vaddr (sptes s p)) = None" using sw assms(2,4) p(1) unfolding swap_inv_def by blast
  obtain k s2 s1 where
    nf: "allocate_frame ?u (PAL_USER OR PAL_ZERO) s = Inr (k, s2)" "k \<noteq> 0" "paged T s s1" "spare s1 T k"
      "page_at s2 k = replicate 1024 0" "vfs s2 = fst (kalloc (vfs s))" "curr s2 = ?t" "pagedir s2 = pagedir s" "spt s2 = spt s"
    and sel: "sptes s2 = sptes s1" "swap_table s2 = swap_table s1" "swap_device s2 = swap_device s1"
    and fill: "\<forall>s' ws. filled s1 s2 s' k ws p \<longrightarrow> mapped_frame T s1 s' ?t ?u k (spte_writable (sptes s p)) p \<and> page_at s' k = ws
       \<and> vm_inv (mach s') (proc_dirs s1 T) \<and> space (mach s') (pagedir s ?t) ?u = Some (k, spte_writable (sptes s p))"
    by (rule new_frame [OF assms(1,2) p(1) spNone assms(5-7), unfolded p(2)])
  have eq: "spt s1 = spt s" "pagedir s1 = pagedir s" "paging_inv s1 T" and view: "\<And>t v. t \<in> T \<Longrightarrow> page_view s1 t v = page_view s t v"
    and none: "space (mach s1) (pagedir s ?t) ?u = None"
    using nf(3) assms(2) spNone unfolding paged_def p(2) by auto
  have pe: "sptes s1 p = sptes s p" using nf(3) assms(2,4) p(1) unfolding paged_def entries_def by blast
  have sw1: "swap_inv s1 T" and tb1: "tables_inv s1 T" using eq(3) by (simp_all add: paging_inv_def)
  obtain i where i: "i < bit_cnt (swap_table s1)" "swapindex (sptes s p) = int i" "bitmap_bit (swap_table s1) i"
    using sw1 assms(2,4) p(1) pe eq(1) unfolding swap_inv_def by metis
  let ?ws = "slot_words (swap_device s1) i"
  obtain d b where d: "read_from_disk k (int i) s2 = Inr (put_page k ?ws (s2\<lparr>swap_device := d\<rparr>))"
      "capacity d = capacity (swap_device s1)" "sectors d = sectors (swap_device s1)"
    and b: "bitmap_flip (swap_table s1) (nat (u32_of (int i))) = Inr b" "bitmap_inv b" "bit_cnt b = bit_cnt (swap_table s1)"
    and bb: "\<And>j. j < bit_cnt (swap_table s1) \<Longrightarrow> bitmap_bit (swap_table s1) j \<Longrightarrow> j \<noteq> i \<Longrightarrow> bitmap_bit b j"
    by (rule take_slot [OF sw1 i(1) sel(2,3) nf(5)]) blast
  define r where "r = put_page k ?ws (s2\<lparr>swap_device := d\<rparr>)"
  define s' where "s' = r\<lparr>swap_table := b, sptes := (sptes s1)(p := (sptes s1 p)\<lparr>swapindex := - 1, inswap := False\<rparr>)\<rparr>"
  have rs: "swap_table r = swap_table s1" "sptes r = sptes s1" by (simp_all add: r_def put_page_def sel)
  have "read_from_disk k (swapindex (sptes s2 p)) s2 = Inr r" using d(1) i(2) pe sel(1) by (simp add: r_def)
  moreover have "bitmap_flip (swap_table r) (nat (u32_of (swapindex (sptes r p)))) = Inr b" using b(1) i(2) pe rs by simp
  ultimately have si: "swap_in a s = Inr s'"
    unfolding swap_in_def assms(3) option.case p(2) nf(1) rbind_Inr prod.case s'_def using nf(2) by (simp add: rs(2))
  have "filled s1 s2 s' k ?ws p"
    unfolding filled_def using b(2,3) bb d(2,3) pe i(2) assms(4)
    by (auto simp: s'_def r_def mach_put_page put_page_def slot_words_def length_concat comp_def sum_list_triv fill_page_def)
  note fl = fill [rule_format, OF this]
  from mapped_frame_inv [OF eq(3) conjunct1 [OF fl] assms(2)] p pe none nf(4) eq(1,2)
  have fin: "paging_inv s' T" "page_view s' ?t ?u = Some (page_at s' k)"
    "\<And>t' v. t' \<in> T \<Longrightarrow> (t', v) \<noteq> (?t, ?u) \<Longrightarrow> page_view s' t' v = page_view s1 t' v" by auto
  have "find_spte (sptes s1) (spt s1 ?t) 0 ?u = Some p" using find_entry_iff [OF tb1 assms(2)] p pe eq(1) by simp
  then have "page_view s1 ?t ?u = Some ?ws" using none assms(4) pe i(2) eq(1,2) by (simp add: page_view_def)
  then have "page_view s' t v = page_view s t v" if "t \<in> T" for t v
    using fin(2) fin(3) [OF that, of v] view [OF that] fl by (cases "(t, v) = (?t, ?u)") auto
  moreover have "\<not> inswap (sptes s' p)" by (simp add: s'_def)
  ultimately show ?thesis using si fin(1) fl by blast
qed

text \<open>A process with one page, at \<open>0x14000\<close>, and a swap device with two slots, the first of them taken.\<close>

definition sample_proc :: "fs \<Rightarrow> sup_page_table_entry \<Rightarrow> vm" where
  "sample_proc fs e = \<lparr>vfs = fs, mach = sample_machine, sptes = sample_sp(20 := e),
     ftes = (\<lambda>_. \<lparr>frame = 0, owner = 0, fspte = 0, fuaddr = 0\<rparr>), curr = 1, spt = (\<lambda>_. sample_spt), suppagetable = (\<lambda>_. True),
     pagedir = (\<lambda>_. 0xc0101000), proc_frames = (\<lambda>_. []), next_mapid = (\<lambda>_. 3), nextmmapfd = (\<lambda>_. 3), exit_status = (\<lambda>_. 0),
     global_frame_list = [], swap_table = \<lparr>bit_cnt = 2, bits = [1]\<rparr>,
     swap_device = \<lparr>capacity = 16, sectors = (\<lambda>k. replicate 512 (of_nat k)), read_cnt = 0, write_cnt = 0\<rparr>\<rparr>"

definition sample_vm :: vm where
  "sample_vm = sample_proc sample_fs ((sample_sp 20)\<lparr>inswap := True, swapindex := 0\<rparr>)"

lemma sample_space: "space sample_machine pd v = None"
  using pd_no_bound by (simp add: space_def pte_at_def pde_at_def mapping_def sample_machine_def)

lemma sample_proc_simps:
  "vfs (sample_proc fs e) = fs" "mach (sample_proc fs e) = sample_machine" "spt (sample_proc fs e) t = sample_spt"
  "pagedir (sample_proc fs e) t = 0xc0101000" "global_frame_list (sample_proc fs e) = []" "curr (sample_proc fs e) = 1"
  "sptes (sample_proc fs e) = sample_sp(20 := e)" "base_page_dir sample_machine = 0xc0100000"
  by (simp_all add: sample_proc_def) (simp add: sample_machine_def)

lemma sample_proc_inv:
  assumes "user_vaddr e = 0x14000" "inswap e \<longrightarrow> swapindex e = 0"
  shows "paging_inv (sample_proc fs e) {1}"
proof -
  let ?s = "sample_proc fs e"
  note fld = sample_proc_simps
  have v20: "user_vaddr (sample_sp 20) = 0x14000" by (simp add: sample_sp_def)
  have "proc_dirs ?s {1} = {0xc0100000, 0xc0101000}" by (simp add: proc_dirs_def fld)
  then have "vm_inv (mach ?s) (proc_dirs ?s {1})" using sample_machine_inv by (simp add: fld)
  moreover have "tables_inv ?s {1}"
    using hash_inv_cong [OF _ sample_spt(1), of "sptes ?s"] assms(1)
    by (simp add: tables_inv_def fld entries_def sample_spt(2) user_page_def v20 pg_ofs_def PGMASK_def is_user_vaddr_def PHYS_BASE_def)
  moreover have "frames_inv ?s {1}"
    by (simp add: frames_inv_def fld sample_space)
      (simp add: sample_machine_def pool_pages_def page_run_def lessThan_nat_numeral lessThan_Suc PHYS_BASE_def drop_bit_eq_div)
  moreover have "swap_inv ?s {1}"
    unfolding swap_inv_def fld entries_def sample_space using assms(2)
    by (auto simp: sample_spt(2)) (auto simp: inj_on_def sample_proc_def bitmap_inv_def elem_cnt_def size_wrap_def bitmap_bit_def)
  ultimately show ?thesis by (simp add: paging_inv_def)
qed

lemma sample_proc_room: "frame_room (sample_proc fs e)" "kernel_room (phys (mach (sample_proc fs e)))"
proof -
  have al: "allocated (phys sample_machine) = {0xc0100000, 0xc0101000, 0xc0200000}"
    by (simp add: allocated_def pool_used_filter sample_machine_def upt_small bitmap_bit_def bit_simps insert_commute)
  have bl: "block (user_pool (phys sample_machine)) 0xc0201000 1" "block (kernel_pool (phys sample_machine)) 0xc0102000 1"
    unfolding block_def by (rule exI [of _ 1], simp add: sample_machine_def) (rule exI [of _ 2], simp add: sample_machine_def)
  show "frame_room (sample_proc fs e)" "kernel_room (phys (mach (sample_proc fs e)))"
    unfolding frame_room_def user_room_def kernel_room_def sample_proc_simps using bl al by auto
qed

theorem swap_in_restores_page_witness:
  "\<exists>s' k. swap_in 0x14123 sample_vm = Inr s' \<and> space (mach s') 0xc0101000 0x14000 = Some (k, True)
    \<and> page_view s' 1 0x14000 = page_view sample_vm 1 0x14000"
proof -
  let ?e = "(sample_sp 20)\<lparr>inswap := True, swapindex := 0\<rparr>"
  have iv: "paging_inv sample_vm {1}" unfolding sample_vm_def by (rule sample_proc_inv) (simp_all add: sample_sp_def)
  then have t: "tables_inv sample_vm {1}" by (simp add: paging_inv_def)
  have pr: "pg_round_down 0x14123 = 0x14000" by (simp add: pg_round_down_def PGMASK_def)
  have e: "sptes sample_vm 20 = ?e" "spte_writable ?e" "user_vaddr ?e = 0x14000" by (simp_all add: sample_vm_def sample_proc_simps sample_sp_def)
  have c: "curr sample_vm = 1" "spt sample_vm 1 = sample_spt" "pagedir sample_vm 1 = 0xc0101000" by (simp_all add: sample_vm_def sample_proc_simps)
  have "find_entry sample_vm 0x14000 = Some 20"
    using find_entry_iff [OF t, of 1 "0x14000" 20] unfolding find_entry_def c by (simp add: sample_spt(2) e)
  moreover have "mallocs (vfs sample_vm) (malloc_cnt (vfs sample_vm))" by (simp add: sample_vm_def sample_proc_simps) (simp add: sample_fs_def)
  moreover have "frame_room sample_vm" "kernel_room (phys (mach sample_vm))" unfolding sample_vm_def by (rule sample_proc_room)+
  ultimately show ?thesis using swap_in_restores_page [OF iv, of "0x14123" 20] e by (auto simp: pr c c [unfolded One_nat_def])
qed

section \<open>Loading pages from files\<close>

lemma set_writable_step:
  assumes "vm_inv s P" "pd \<in> P" "user_page u"
  shows "\<exists>s'. pagedir_set_writable pd u w s = Inr s' \<and> dir_step P pd s s'
    \<and> space s' pd = (space s pd)(u := map_option (\<lambda>(k, _). (k, w)) (space s pd u))"
proof -
  obtain s' where s': "pagedir_set_writable pd u w s = Inr s'" "vm_inv s' P"
      "space s' pd = (space s pd)(u := map_option (\<lambda>(k, _). (k, w)) (space s pd u))"
    using set_pte_flag_spec [OF assms, of PTE_W w] by (auto simp: pagedir_set_writable_def)
  have "dir_step P pd s s'"
  proof (cases "pde_at s pd (pd_no u) = 0")
    case True
    then show ?thesis using s'(1) lookup_none [OF _ assms(2) True] assms(1) dir_step_refl
      by (auto simp: pagedir_set_writable_def set_pte_flag_def vm_inv_def)
  next
    case False
    have d: "dirs_inv s P" "is_user_vaddr u" using assms(1,3) by (auto simp: vm_inv_def user_page_def)
    note ld = load_pte [OF d(1) assms(2) d(2) False]
    define e where "e = (if w then pte_at s pd u OR PTE_W else pte_at s pd u AND NOT PTE_W)"
    have ok: "e AND PTE_P \<noteq> 0 \<Longrightarrow> entry_ok e" using flag_mapping(2,3) [of PTE_W e w "pte_at s pd u"] ld(3) by (simp add: e_def)
    note st = write_pte(1) [OF assms False ok]
    have "phys s' = phys (s\<lparr>phys := put_word (table_at s pd (pd_no u), pt_no u) e (phys s)\<rparr>) \<and> base_page_dir s' = base_page_dir s
        \<and> ram_pages s' = ram_pages s"
      using s'(1) ld(1,2) st invalidate_same
      by (cases w) (fastforce simp: pagedir_set_writable_def set_pte_flag_def e_def)+
    then show ?thesis using put_pte_step(1) [OF assms False ok s'(2)] by blast
  qed
  with s' show ?thesis by blast
qed

text \<open>A later step of the directory that leaves the address space as it is changes nothing of this.\<close>

lemma mapped_frame_step:
  assumes "mapped_frame T s s' t u k w p" "dir_step (proc_dirs s T) (pagedir s t) (mach s') m" "t \<in> T" "spare s T k"
    and "space m (pagedir s t) = space (mach s') (pagedir s t)"
  shows "mapped_frame T s (s'\<lparr>mach := m\<rparr>) t u k w p" "mem (phys m) k = page_at s' k"
proof -
  note ds = dir_stepD [OF assms(2)]
  have pd: "pagedir s t \<in> proc_dirs s T" using assms(3) by (simp add: proc_dirs_def)
  have mf: "allocated (phys (mach s)) \<subseteq> allocated (phys (mach s'))"
      "\<And>a. a \<in> proc_dirs s T \<Longrightarrow> footprint (mach s') a \<inter> allocated (phys (mach s)) \<subseteq> footprint (mach s) a"
      "same_pools (phys (mach s)) (phys (mach s'))"
    using assms(1) unfolding mapped_frame_def by simp_all
  have keep: "mem (phys m) q = page_at s' q" if "free_standing s T q" for q
    using that ds(6) [of q] mf(1) mf(2) [OF pd] pd unfolding free_standing_def page_at_def by blast
  then show "mem (phys m) k = page_at s' k" using assms(4) by (simp add: spare_def)
  have "space m a = space (mach s') a" if "a \<in> proc_dirs s T" for a
    using dir_step_space [OF assms(2) that] assms(5) by (cases "a = pagedir s t") simp_all
  moreover have "footprint m a \<inter> allocated (phys (mach s)) \<subseteq> footprint (mach s) a" if "a \<in> proc_dirs s T" for a
    using ds(7) [OF that] mf(1) mf(2) [OF that] by blast
  moreover have "page_at (s'\<lparr>mach := m\<rparr>) q = page_at s' q" if "free_standing s T q" for q using keep [OF that] by (simp add: page_at_def)
  moreover have "allocated (phys (mach s)) \<subseteq> allocated (phys m)" using mf(1) ds(5) by blast
  moreover have "same_pools (phys (mach s)) (phys m)" using same_pools_trans [OF mf(3) ds(4)] .
  ultimately show "mapped_frame T s (s'\<lparr>mach := m\<rparr>) t u k w p"
    using assms(1) ds(1-3) unfolding mapped_frame_def by simp
qed

text \<open>Evictions do not put a page into swap that was not loaded.\<close>

lemma unloaded_stays:
  assumes "paging_inv s T" "curr s \<in> T" "p \<in> hash_elems (spt s (curr s))" "\<not> inswap (sptes s p)"
    and "space (mach s) (pagedir s (curr s)) (user_vaddr (sptes s p)) = None" "paged T s s1"
  shows "\<not> inswap (sptes s1 p)"
proof -
  let ?t = "curr s" and ?u = "user_vaddr (sptes s p)"
  have eq: "spt s1 = spt s" "pagedir s1 = pagedir s" "paging_inv s1 T" "user_vaddr (sptes s1 p) = ?u"
    and view: "page_view s1 ?t ?u = page_view s ?t ?u" and none: "space (mach s1) (pagedir s ?t) ?u = None"
    using assms(2,5,6) unfolding paged_def by auto
  have tb: "tables_inv s T" "tables_inv s1 T" using assms(1) eq(3) by (simp_all add: paging_inv_def)
  have "page_view s ?t ?u = None"
    using assms(3-5) find_entry_iff [OF tb(1) assms(2), of ?u p] by (simp add: page_view_def)
  moreover have "find_spte (sptes s1) (spt s1 ?t) 0 ?u = Some p"
    using find_entry_iff [OF tb(2) assms(2), of ?u p] eq assms(3) by simp
  ultimately show ?thesis using none eq(2) view by (auto simp: page_view_def split: if_splits)
qed

lemma malloc_cnt_file:
  fixes s :: fs
  shows "cache_inv s \<Longrightarrow> malloc_cnt s \<le> c \<Longrightarrow> cache_inv (s\<lparr>malloc_cnt := c\<rparr>)" "cache_view (s\<lparr>malloc_cnt := c\<rparr>) = cache_view s"
  "inode_wf (s\<lparr>malloc_cnt := c\<rparr>) = inode_wf s" "data_sectors (s\<lparr>malloc_cnt := c\<rparr>) = data_sectors s"
  "file_bytes (s\<lparr>malloc_cnt := c\<rparr>) = file_bytes s" "cache_ready (s\<lparr>malloc_cnt := c\<rparr>) = cache_ready s"
proof -
  show v: "cache_view (s\<lparr>malloc_cnt := c\<rparr>) = cache_view s" by (simp add: cache_view_def fun_eq_iff)
  show "cache_inv s \<Longrightarrow> malloc_cnt s \<le> c \<Longrightarrow> cache_inv (s\<lparr>malloc_cnt := c\<rparr>)" by (fastforce simp: cache_inv_def bce_ok_def)
  show d: "data_sectors (s\<lparr>malloc_cnt := c\<rparr>) = data_sectors s" by (intro ext data_sectors_cong) simp
  show "inode_wf (s\<lparr>malloc_cnt := c\<rparr>) = inode_wf s" by (intro ext inode_wf_cong) simp
  show "file_bytes (s\<lparr>malloc_cnt := c\<rparr>) = file_bytes s" by (intro ext) (simp add: file_bytes_def file_raw_def v d)
  show "cache_ready (s\<lparr>malloc_cnt := c\<rparr>) = cache_ready s" by (intro ext) (simp add: cache_ready_def)
qed

lemma kalloc_file:
  fixes s :: fs
  shows "cache_inv s \<Longrightarrow> cache_inv (fst (kalloc s))" "cache_view (fst (kalloc s)) = cache_view s" "inode_wf (fst (kalloc s)) = inode_wf s"
  "data_sectors (fst (kalloc s)) = data_sectors s" "file_bytes (fst (kalloc s)) = file_bytes s" "cache_ready (fst (kalloc s)) = cache_ready s"
  "inodes (fst (kalloc s)) = inodes s"
  by (simp_all add: kalloc_def malloc_cnt_file)

lemma le_words_zero: "le_words (replicate n 0) = replicate (4 * n) 0"
  by (induction n) (simp_all add: le_bytes_def replicate_add numeral_eq_Suc)

text \<open>
  Demand loading. For a page of a file that is not in memory, with room for a frame, a page table
  and a table entry, the fault handler maps a frame that holds the bytes of the file from the
  offset of the entry on and zeros after them, with the rights of the entry; every other
  page of every process keeps its contents, and the invariant holds.
\<close>

lemma file_page_loaded:
  assumes "paging_inv s T" "curr s \<in> T" "p \<in> hash_elems (spt s (curr s))" "\<not> inswap (sptes s p)"
    and "space (mach s) (pagedir s (curr s)) (user_vaddr (sptes s p)) = None"
    and "frame_room s" "kernel_room (phys (mach s))" "mallocs (vfs s) (malloc_cnt (vfs s))"
    and "files (vfs s) (spte_file (sptes s p)) = Some fl" "inodes (vfs s) (f_inode fl) = Some i" "inode_wf (vfs s) (idata i)" "cache_inv (vfs s)"
    and "\<forall>k\<in>set (data_sectors (vfs s) (idata i)). cache_ready (vfs s) k"
    and "read_bytes (sptes s p) + zero_bytes (sptes s p) = 4096"
    and "read_bytes (sptes s p) = 0 \<or> 0 \<le> spte_ofs (sptes s p) \<and> spte_ofs (sptes s p) + int (read_bytes (sptes s p)) \<le> ilength (idata i)"
  defines "bs \<equiv> take (read_bytes (sptes s p)) (drop (nat (spte_ofs (sptes s p))) (file_bytes (vfs s) (idata i)))"
    and "u \<equiv> user_vaddr (sptes s p)"
  shows "\<exists>s' k. load_file_page p s = Inr (Resume, s') \<and> paging_inv s' T
    \<and> space (mach s') (pagedir s (curr s)) u = Some (k, spte_writable (sptes s p))
    \<and> page_view s' (curr s) u = Some (words_le 1024 (bs @ replicate (zero_bytes (sptes s p)) 0))
    \<and> (\<forall>t\<in>T. \<forall>v. (t, v) \<noteq> (curr s, u) \<longrightarrow> page_view s' t v = page_view s t v)"
proof -
  let ?t = "curr s" and ?e = "sptes s p"
  have tb: "tables_inv s T" using assms(1) by (simp add: paging_inv_def)
  then have up: "user_page u" using assms(2,3) by (auto simp: tables_inv_def u_def entries_def)
  obtain k s2 s1 where
    af: "allocate_frame u (PAL_USER OR PAL_ZERO) s = Inr (k, s2)" "k \<noteq> 0" "paged T s s1" "spare s1 T k"
      "page_at s2 k = replicate 1024 0" "vfs s2 = fst (kalloc (vfs s))" "curr s2 = ?t" "pagedir s2 = pagedir s" "spt s2 = spt s"
    and sel: "sptes s2 = sptes s1" "swap_table s2 = swap_table s1" "swap_device s2 = swap_device s1"
    and fill: "\<forall>s' ws. filled s1 s2 s' k ws p \<longrightarrow> mapped_frame T s1 s' ?t u k (spte_writable ?e) p \<and> page_at s' k = ws
       \<and> vm_inv (mach s') (proc_dirs s1 T) \<and> space (mach s') (pagedir s ?t) u = Some (k, spte_writable ?e)"
    by (rule new_frame [OF assms(1-3,5-8), folded u_def])
  have eq: "spt s1 = spt s" "pagedir s1 = pagedir s" "paging_inv s1 T" "user_vaddr (sptes s1 p) = u"
    and view: "\<And>t v. t \<in> T \<Longrightarrow> page_view s1 t v = page_view s t v" and none: "space (mach s1) (pagedir s ?t) u = None"
    using af(3) assms(2,5) unfolding paged_def u_def by auto
  have ni: "\<not> inswap (sptes s1 p)" by (rule unloaded_stays [OF assms(1-5) af(3)])
  have len: "ilength (idata i) \<le> 512 * 512" "0 \<le> ilength (idata i)" using assms(11) by (simp_all add: inode_wf_def)
  let ?n = "read_bytes ?e"
  have ni32: "s32_of (int ?n) = int ?n" "?n \<le> 4096" using assms(14) by (auto intro!: s32_of_id)
  note ka = kalloc_file [of "vfs s"]
  have z: "le_words (page_at s2 k) = replicate 4096 0" using le_words_zero [of 1024] af(5) by simp
  have ino: "inodes (vfs s2) (f_inode fl) = Some i" "files (vfs s2) (spte_file ?e) = Some fl"
    using assms(9,10) ka(7) af(6) by (simp_all add: kalloc_def)
  have lb: "length bs = ?n" using assms(11,12,15) length_file_bytes [of "vfs s" "idata i"] unfolding bs_def by auto
  obtain v3 where rd: "inode_read_at free_map_allocate (vfs s2) (f_inode fl) (replicate 4096 0) (int ?n) (spte_ofs ?e)
      = Inr (v3, overwrite (replicate 4096 0) 0 bs, int ?n)" "malloc_cnt (vfs s2) \<le> malloc_cnt v3"
  proof (cases "?n = 0")
    case True
    then show ?thesis using that [of "vfs s2"] ino(1) lb by (simp add: inode_read_at_def get_inode_def inode_read_loop.simps)
  next
    case False
    then have rng: "0 \<le> spte_ofs ?e" "spte_ofs ?e + int ?n \<le> ilength (idata i)" using assms(15) by simp_all
    then have mn: "nat (min (int ?n) (ilength (idata i) - spte_ofs ?e)) = ?n" by simp
    show ?thesis
      using inode_read_at_spec [of "vfs s2" "f_inode fl" i "spte_ofs ?e" "int ?n" "replicate 4096 0" free_map_allocate, unfolded mn] that
        ino(1) assms(11-13) rng ni32(2) ka len unfolding af(6) bs_def cache_frame_def by auto
  qed
  have fr: "file_read_at free_map_allocate (vfs s2) (spte_file ?e) (replicate 4096 0) (int ?n) (spte_ofs ?e)
      = Inr (v3, overwrite (replicate 4096 0) 0 bs, int ?n)" using rd(1) ino(2) by (simp add: file_read_at_def get_file_def)
  let ?ws = "words_le 1024 (bs @ replicate (zero_bytes ?e) 0)"
  have ow: "overwrite (replicate 4096 0) 0 bs = bs @ replicate (zero_bytes ?e) 0" using lb assms(14) by (simp add: overwrite_def)
  define s3 where "s3 = put_page k ?ws (s2\<lparr>vfs := v3\<rparr>)"
  have bi: "bitmap_inv (swap_table s1)" using eq(3) by (simp add: paging_inv_def swap_inv_def)
  have "filled s1 s2 s3 k ?ws p" using rd(2) bi ni
    by (simp add: filled_def s3_def mach_put_page sel) (simp add: put_page_def sel)
  note mf = fill [rule_format, OF this]
  have sk: "space (mach s3) (pagedir s1 ?t) u = Some (k, spte_writable ?e)" using mf eq(2) by simp
  have pd: "pagedir s1 ?t \<in> proc_dirs s1 T" using assms(2) by (simp add: proc_dirs_def)
  have vi: "vm_inv (mach s3) (proc_dirs s1 T)" using mf by simp
  obtain m where m: "pagedir_set_writable (pagedir s1 ?t) u (spte_writable ?e) (mach s3) = Inr m"
      "dir_step (proc_dirs s1 T) (pagedir s1 ?t) (mach s3) m"
      "space m (pagedir s1 ?t) = (space (mach s3) (pagedir s1 ?t))(u := map_option (\<lambda>(k, _). (k, spte_writable ?e)) (space (mach s3) (pagedir s1 ?t) u))"
    using set_writable_step [OF vi pd up] by blast
  have sm: "space m (pagedir s1 ?t) = space (mach s3) (pagedir s1 ?t)" using m(3) sk by (simp add: fun_upd_idem)
  note mf2 = mapped_frame_step [OF conjunct1 [OF mf] m(2) assms(2) af(4) sm]
  have "pagedir s3 = pagedir s1" "curr s3 = ?t" by (simp_all add: s3_def put_page_def af eq)
  then have "load_file_page p s = Inr (Resume, s3\<lparr>mach := m\<rparr>)"
    using assms(14) up af(1,2) z fr ow ni32(1) m(1)
    by (simp add: load_file_page_def PGSIZE_def user_page_def u_def [symmetric] upd_mach_def Let_def s3_def [symmetric])
  moreover have "space (mach (s3\<lparr>mach := m\<rparr>)) (pagedir s ?t) u = Some (k, spte_writable ?e)" using sm sk eq(2) by simp
  moreover have "page_at (s3\<lparr>mach := m\<rparr>) k = ?ws" using mf2(2) mf by (simp add: page_at_def)
  moreover note mapped_frame_inv [OF eq(3) mf2(1) assms(2)]
  ultimately show ?thesis using assms(3) eq none af(4) view
    by (intro exI [of _ "s3\<lparr>mach := m\<rparr>"] exI [of _ k]) auto
qed

end
