(* ===== verification/Vm_Growth.thy ===== *)
theory Vm_Growth
  imports Vm_Spec
begin

text \<open>
  New pages of a process: an entry of its supplemental page table (\<open>allocate_page\<close>), and a
  page of stack (the growth of the stack in \<open>page_fault\<close>). A new entry changes no page of any
  process; a new page of stack is zero.
\<close>

section \<open>New entries\<close>

definition old_entries :: "vm \<Rightarrow> nat set \<Rightarrow> bool" where
  "old_entries s T \<longleftrightarrow> (\<forall>p\<in>entries s T. p \<le> malloc_cnt (vfs s))"

lemma table_small:
  assumes "hash_inv (hash_spte sp) (compare_spte sp) h" "\<forall>p\<in>hash_elems h. user_page (user_vaddr (sp p))"
  shows "helem_cnt h < 2 ^ 32 - 1"
proof -
  have "inj_on (\<lambda>p. user_vaddr (sp p)) (hash_elems h)"
    using assms(1) by (auto simp: hash_inv_def compare_spte_def inj_on_def)
  then have "card (hash_elems h) = card ((\<lambda>p. user_vaddr (sp p)) ` hash_elems h)" by (simp add: card_image)
  also have "\<dots> \<le> card (UNIV - {1, 2} :: u32 set)"
    by (rule card_mono) (use assms(2) in \<open>auto simp: user_page_def pg_ofs_def PGMASK_def\<close>)
  also have "\<dots> < 2 ^ 32 - 1" by (simp add: card_Diff_subset card_word)
  finally show ?thesis using spte.helem_cnt_card [OF assms(1)] by simp
qed

lemma user_page_round_down: "is_user_vaddr a \<Longrightarrow> user_page (pg_round_down a)"
  using round_down_page(1,4) by (simp add: user_page_def)

lemma no_entry_unmapped:
  assumes "paging_inv s T" "t \<in> T" "find_spte (sptes s) (spt s t) 0 u = None"
  shows "space (mach s) (pagedir s t) u = None"
proof (rule ccontr)
  have tb: "tables_inv s T" and fi: "frames_inv s T" using assms(1) by (simp_all add: paging_inv_def)
  assume "space (mach s) (pagedir s t) u \<noteq> None"
  then obtain k w where "space (mach s) (pagedir s t) u = Some (k, w)" by auto
  from frame_of_page [OF fi assms(2) this] obtain f where
    f: "f \<in> set (global_frame_list s)" "owner (ftes s f) = t" "fte_vaddr s f = u" by blast
  then have "fspte (ftes s f) \<in> hash_elems (spt s t)" using fi unfolding frames_inv_def fte_ok_def by auto
  then show False using find_entry_iff [OF tb assms(2), of u "fspte (ftes s f)"] f(3) assms(3) by (simp add: fte_vaddr_def)
qed

text \<open>What \<open>allocate_page\<close> writes to a new entry.\<close>

definition new_entry :: "nat \<Rightarrow> int \<Rightarrow> u32 \<Rightarrow> nat \<Rightarrow> nat \<Rightarrow> bool \<Rightarrow> sup_page_table_entry \<Rightarrow> bool" where
  "new_entry file ofs u rb zb w e \<longleftrightarrow> user_vaddr e = u \<and> mapid e = 0 \<and> \<not> inswap e \<and> spte_writable e = w \<and> (filerelated e \<longleftrightarrow> file \<noteq> 0)
     \<and> (file \<noteq> 0 \<longrightarrow> spte_file e = file \<and> spte_ofs e = ofs \<and> read_bytes e = rb \<and> zero_bytes e = zb)"

text \<open>
  \<open>added s s' T t p e\<close>: the table of the process \<open>t\<close> got the entry \<open>e\<close> at the address \<open>p\<close>, which
  no table had, for a page without an entry.
\<close>

definition added :: "vm \<Rightarrow> vm \<Rightarrow> nat set \<Rightarrow> nat \<Rightarrow> addr \<Rightarrow> sup_page_table_entry \<Rightarrow> bool" where
  "added s s' T t p e \<longleftrightarrow> t \<in> T \<and> p \<noteq> 0 \<and> p \<notin> entries s T \<and> user_page (user_vaddr e) \<and> \<not> inswap e
     \<and> find_spte (sptes s) (spt s t) 0 (user_vaddr e) = None
     \<and> (\<exists>fs h. s' = s\<lparr>vfs := fs, sptes := (sptes s)(p := e), spt := (spt s)(t := h)\<rparr> \<and> malloc_cnt (vfs s) \<le> malloc_cnt fs
          \<and> hash_elems h = insert p (hash_elems (spt s t)) \<and> hash_inv (hash_spte (sptes s')) (compare_spte (sptes s')) h)"

lemma addedD:
  assumes "added s s' T t p e"
  shows "t \<in> T" "p \<noteq> 0" "sptes s' = (sptes s)(p := e)" "mach s' = mach s" "pagedir s' = pagedir s" "ftes s' = ftes s"
    "global_frame_list s' = global_frame_list s" "swap_table s' = swap_table s" "swap_device s' = swap_device s" "curr s' = curr s"
    "malloc_cnt (vfs s) \<le> malloc_cnt (vfs s')" "hash_elems (spt s' t) = insert p (hash_elems (spt s t))"
    "hash_inv (hash_spte (sptes s')) (compare_spte (sptes s')) (spt s' t)" "t' \<noteq> t \<Longrightarrow> spt s' t' = spt s t'"
    "p \<notin> entries s T" "entries s' T = insert p (entries s T)" "q \<in> entries s T \<Longrightarrow> sptes s' q = sptes s q"
    "page_at s' = page_at s" "\<not> inswap (sptes s' p)" "proc_dirs s' T = proc_dirs s T"
    "t' \<in> T \<Longrightarrow> q \<in> hash_elems (spt s t') \<Longrightarrow> sptes s' q = sptes s q"
  using assms by (auto simp: added_def entries_def page_at_def fun_eq_iff proc_dirs_def split: if_splits)

lemma added_tables:
  assumes "tables_inv s T" "added s s' T t p e"
  shows "tables_inv s' T"
proof -
  note ad = addedD [OF assms(2)]
  have "hash_inv (hash_spte (sptes s')) (compare_spte (sptes s')) (spt s' t') \<and> 0 \<notin> hash_elems (spt s' t')" if "t' \<in> T" for t'
  proof (cases "t' = t")
    case True
    then show ?thesis using ad(2,12,13) assms(1) that by (auto simp: tables_inv_def)
  next
    case False
    have "hash_inv (hash_spte (sptes s')) (compare_spte (sptes s')) (spt s t')"
      by (rule hash_inv_cong [of _ "sptes s'" "sptes s"]) (use assms(1) that ad(21) in \<open>auto simp: tables_inv_def\<close>)
    then show ?thesis using assms(1) that ad(14) [OF False] by (simp add: tables_inv_def)
  qed
  moreover have "\<forall>q\<in>entries s' T. user_page (user_vaddr (sptes s' q))"
    using assms ad(3,16,17) by (auto simp: tables_inv_def added_def)
  moreover have "hash_elems (spt s' t1) \<inter> hash_elems (spt s' t2) = {}" if "t1 \<in> T" "t2 \<in> T" "t1 \<noteq> t2" for t1 t2
    using entry_owner [OF assms(1) that(1,2)] ad(12,14,15) that by (cases "t1 = t"; cases "t2 = t") (auto simp: entries_def)
  ultimately show ?thesis using assms(1) ad(4,5) by (simp add: tables_inv_def)
qed

lemma added_frames:
  assumes "frames_inv s T" "added s s' T t p e"
  shows "frames_inv s' T"
proof -
  note ad = addedD [OF assms(2)]
  have ok: "fte_ok s T f" "fspte (ftes s f) \<in> entries s T" if "f \<in> set (global_frame_list s)" for f
    using assms(1) that unfolding frames_inv_def fte_ok_def entries_def by auto
  have fv: "fte_vaddr s' f = fte_vaddr s f" if "f \<in> set (global_frame_list s)" for f
    using ad(17) [OF ok(2) [OF that]] by (simp add: fte_vaddr_def ad(6))
  have ff: "fte_frame s' = fte_frame s" by (simp add: fte_frame_def ad(6) fun_eq_iff)
  have sub: "hash_elems (spt s t') \<subseteq> hash_elems (spt s' t')" for t' using ad(12,14) by (cases "t' = t") auto
  have ok': "fte_ok s' T f" if "f \<in> set (global_frame_list s)" for f
    using ok(1) [OF that] fv [OF that] sub ff ad(11) by (auto simp: fte_ok_def free_standing_def ad(4-6,20))
  show ?thesis
    unfolding frames_inv_def
  proof (intro conjI ballI allI impI)
    fix t v k w assume t: "t \<in> T" and sp: "space (mach s') (pagedir s' t) v = Some (k, w)"
    from frame_of_page [OF assms(1) t sp [unfolded ad(4,5)]] obtain g where
      "g \<in> set (global_frame_list s)" "owner (ftes s g) = t" "fte_vaddr s g = v" "fte_frame s g = k" .
    then show "\<exists>f\<in>set (global_frame_list s'). owner (ftes s' f) = t \<and> fte_vaddr s' f = v \<and> fte_frame s' f = k"
      using fv ff by (intro bexI [of _ g]) (auto simp: ad(6,7))
  qed (use assms(1) ok' ff in \<open>simp_all add: frames_inv_def ad(4,7)\<close>)
qed

lemma added_swap:
  assumes "swap_inv s T" "added s s' T t p e"
  shows "swap_inv s' T"
proof -
  note ad = addedD [OF assms(2)]
  have swe: "{q \<in> entries s' T. inswap (sptes s' q)} = {q \<in> entries s T. inswap (sptes s q)}"
    using ad(15-17,19) by auto
  show ?thesis
    unfolding swap_inv_def
  proof (intro conjI ballI impI)
    fix t' q assume tq: "t' \<in> T" "q \<in> hash_elems (spt s' t')" "inswap (sptes s' q)"
    then have q: "q \<in> hash_elems (spt s t')" using ad(12,14,19) by (cases "t' = t") auto
    then show "space (mach s') (pagedir s' t') (user_vaddr (sptes s' q)) = None"
      "\<exists>i<bit_cnt (swap_table s'). swapindex (sptes s' q) = int i \<and> bitmap_bit (swap_table s') i"
      using assms(1) tq ad(21) [OF tq(1) q] unfolding swap_inv_def by (auto simp: ad(4,5,8))
  next
    show "inj_on (\<lambda>q. swapindex (sptes s' q)) {q \<in> entries s' T. inswap (sptes s' q)}"
      using assms(1) ad(17) unfolding swe swap_inv_def by (auto simp: inj_on_def)
  qed (use assms(1) in \<open>simp_all add: swap_inv_def ad(8,9)\<close>)
qed

lemma added_inv:
  assumes "paging_inv s T" "added s s' T t p e"
  shows "paging_inv s' T" "old_entries s T \<Longrightarrow> p \<le> malloc_cnt (vfs s') \<Longrightarrow> old_entries s' T"
    "t' \<in> T \<Longrightarrow> page_view s' t' v = page_view s t' v"
proof -
  note ad = addedD [OF assms(2)]
  have tb: "tables_inv s T" and inv: "frames_inv s T" "swap_inv s T" "vm_inv (mach s) (proc_dirs s T)"
    using assms(1) by (simp_all add: paging_inv_def)
  have tb': "tables_inv s' T" by (rule added_tables [OF tb assms(2)])
  then show "paging_inv s' T" using added_frames [OF inv(1) assms(2)] added_swap [OF inv(2) assms(2)] inv(3) by (simp add: paging_inv_def ad(4,20))
  show "old_entries s T \<Longrightarrow> p \<le> malloc_cnt (vfs s') \<Longrightarrow> old_entries s' T" using ad(11,16) by (force simp: old_entries_def)
  show "page_view s' t' v = page_view s t' v" if t: "t' \<in> T"
  proof -
    have none: "find_spte (sptes s) (spt s t) 0 (user_vaddr e) = None" using assms(2) by (simp add: added_def)
    have "user_vaddr (sptes s q) \<noteq> user_vaddr e" if "q \<in> hash_elems (spt s t)" for q
      using none find_entry_iff [OF tb ad(1), of "user_vaddr e" q] that by auto
    moreover have "p \<notin> hash_elems (spt s t')" using ad(15) t by (auto simp: entries_def)
    ultimately have "find_spte (sptes s') (spt s' t') 0 v = (if t' = t \<and> v = user_vaddr e then Some p else find_spte (sptes s) (spt s t') 0 v)"
      using find_entry_iff [OF tb' t, of v] find_entry_iff [OF tb t, of v] ad(3,12,14)
      by (intro option_eqI) (cases "t' = t"; auto)
    moreover have "sptes s' q = sptes s q" if "find_spte (sptes s) (spt s t') 0 v = Some q" for q
      using that find_entry_iff [OF tb t, of v q] ad(21) [OF t] by auto
    ultimately show ?thesis using none ad(19) by (auto simp: page_view_def ad(4,5,9,18) split: option.split)
  qed
qed

lemma allocate_page_spec:
  assumes "paging_inv s T" "curr s \<in> T" "suppagetable s (curr s)" "old_entries s T" "user_page u" "find_entry s u = None"
    and "mallocs (vfs s) (malloc_cnt (vfs s))"
  shows "\<exists>s' p e. allocate_page file ofs u rb zb w s = (Some p, s') \<and> p = Suc (malloc_cnt (vfs s)) \<and> new_entry file ofs u rb zb w e
    \<and> added s s' T (curr s) p e \<and> paging_inv s' T \<and> old_entries s' T \<and> (\<forall>t\<in>T. \<forall>v. page_view s' t v = page_view s t v)
    \<and> vfs s' = fst (kalloc (fst (kalloc (vfs s)))) \<and> suppagetable s' = suppagetable s"
proof -
  let ?t = "curr s" and ?n = "malloc_cnt (vfs s)"
  define p where "p = Suc ?n"
  define e where "e = (let e = (sptes s p)\<lparr>user_vaddr := u, mapid := 0, mmapfd := 0, inswap := False, swapindex := - 1\<rparr>
    in (if file \<noteq> 0 then e\<lparr>filerelated := True, spte_file := file, spte_ofs := ofs, read_bytes := rb, zero_bytes := zb\<rparr>
        else e\<lparr>filerelated := False\<rparr>)\<lparr>spte_writable := w\<rparr>)"
  let ?sp = "(sptes s)(p := e)"
  obtain h old where h: "hash_insert (mallocs (vfs s) (Suc ?n)) (hash_spte ?sp) (compare_spte ?sp) (spt s ?t) p = (h, old)"
    by (cases "hash_insert (mallocs (vfs s) (Suc ?n)) (hash_spte ?sp) (compare_spte ?sp) (spt s ?t) p") blast
  define s' where "s' = s\<lparr>vfs := fst (kalloc (fst (kalloc (vfs s)))), sptes := ?sp, spt := (spt s)(?t := h)\<rparr>"
  have e: "new_entry file ofs u rb zb w e" by (simp add: e_def new_entry_def Let_def)
  have "allocate_page file ofs u rb zb w s =
      (Some p, s\<lparr>vfs := fst (kalloc (fst (kalloc (vfs s)))), sptes := ?sp,
         spt := (spt s)(?t := fst (hash_insert (mallocs (vfs s) (Suc ?n)) (hash_spte ?sp) (compare_spte ?sp) (spt s ?t) p))\<rparr>)"
    using assms(3,7) by (simp add: allocate_page_def vm_alloc_def kalloc_def p_def e_def Let_def split_def)
  then have al: "allocate_page file ofs u rb zb w s = (Some p, s')" by (simp add: h s'_def)
  have tb: "tables_inv s T" using assms(1) by (simp add: paging_inv_def)
  have fresh: "p \<notin> entries s T" using assms(4) by (force simp: old_entries_def p_def)
  have same: "?sp q = sptes s q" if "q \<in> hash_elems (spt s ?t)" for q using fresh that assms(2) by (auto simp: entries_def)
  have hi: "hash_inv (hash_spte ?sp) (compare_spte ?sp) (spt s ?t)"
    by (rule hash_inv_cong [of _ ?sp "sptes s"]) (use tb assms(2) same in \<open>auto simp: tables_inv_def\<close>)
  have "\<forall>q\<in>hash_elems (spt s ?t). user_page (user_vaddr (?sp q))" using tb assms(2) same by (auto simp: tables_inv_def entries_def)
  note hs = spte.hash_insert_spec [OF hi table_small [OF hi this] h]
  have pu: "user_vaddr (?sp p) = u" using e by (simp add: new_entry_def)
  have nou: "user_vaddr (?sp q) \<noteq> u" if "q \<in> hash_elems (spt s ?t)" for q
    using assms(6) find_entry_iff [OF tb assms(2), of u q] same [of q] that by (auto simp: find_entry_def)
  have "old = None"
  proof (cases old)
    case (Some q)
    then have "hash_find (hash_spte ?sp) (compare_spte ?sp) (spt s ?t) p = Some q" using hs by simp
    then show ?thesis using spte.hash_find_spec [OF hi, of p q] pu nou [of q] by (auto simp: compare_spte_def not_less)
  qed simp
  then have "hash_elems h = insert p (hash_elems (spt s ?t))" "hash_inv (hash_spte ?sp) (compare_spte ?sp) h" using hs by simp_all
  moreover have "p \<noteq> 0" "malloc_cnt (vfs s) \<le> malloc_cnt (fst (kalloc (fst (kalloc (vfs s)))))" by (simp_all add: p_def kalloc_def)
  moreover have "user_vaddr e = u" "\<not> inswap e" using e by (simp_all add: new_entry_def)
  ultimately have ad: "added s s' T ?t p e"
    unfolding added_def using fresh assms(2,5,6)
    by (intro conjI exI [of _ "fst (kalloc (fst (kalloc (vfs s))))"] exI [of _ h]) (simp_all add: s'_def find_entry_def)
  show ?thesis using al e ad added_inv [OF assms(1) ad] assms(4)
    by (intro exI [of _ s'] exI [of _ p] exI [of _ e]) (simp add: s'_def p_def kalloc_def)
qed

section \<open>Stack growth\<close>

text \<open>A new page of a process whose frame is left as it was allocated is zero.\<close>

lemma zero_frame:
  assumes "paging_inv s T" "curr s \<in> T" "p \<in> hash_elems (spt s (curr s))" "\<not> inswap (sptes s p)"
    and "space (mach s) (pagedir s (curr s)) (user_vaddr (sptes s p)) = None"
    and "frame_room s" "kernel_room (phys (mach s))" "mallocs (vfs s) (malloc_cnt (vfs s))"
  defines "u \<equiv> user_vaddr (sptes s p)"
  shows "\<exists>s' k. allocate_frame u (PAL_USER OR PAL_ZERO) s = Inr (k, s') \<and> k \<noteq> 0 \<and> paging_inv s' T
    \<and> space (mach s') (pagedir s (curr s)) u = Some (k, spte_writable (sptes s p))
    \<and> page_view s' (curr s) u = Some (replicate 1024 0) \<and> page_at s' k = replicate 1024 0 \<and> pagedir s' = pagedir s \<and> curr s' = curr s
    \<and> spt s' = spt s \<and> vfs s' = fst (kalloc (vfs s))
    \<and> (\<forall>t\<in>T. \<forall>v. (t, v) \<noteq> (curr s, u) \<longrightarrow> page_view s' t v = page_view s t v)"
proof -
  let ?t = "curr s" and ?e = "sptes s p"
  obtain k s2 s1 where
    af: "allocate_frame u (PAL_USER OR PAL_ZERO) s = Inr (k, s2)" "k \<noteq> 0" "paged T s s1" "spare s1 T k"
      "page_at s2 k = replicate 1024 0" "vfs s2 = fst (kalloc (vfs s))" "curr s2 = ?t" "pagedir s2 = pagedir s" "spt s2 = spt s"
    and sel: "sptes s2 = sptes s1" "swap_table s2 = swap_table s1" "swap_device s2 = swap_device s1"
    and fill: "\<forall>s' ws. filled s1 s2 s' k ws p \<longrightarrow> mapped_frame T s1 s' ?t u k (spte_writable ?e) p \<and> page_at s' k = ws
       \<and> vm_inv (mach s') (proc_dirs s1 T) \<and> space (mach s') (pagedir s ?t) u = Some (k, spte_writable ?e)"
    by (rule new_frame [OF assms(1-3,5-8), folded u_def])
  have eq: "spt s1 = spt s" "pagedir s1 = pagedir s" "paging_inv s1 T" "user_vaddr (sptes s1 p) = u"
    and view: "\<And>t v. t \<in> T \<Longrightarrow> page_view s1 t v = page_view s t v" and none: "space (mach s1) (pagedir s ?t) u = None"
    using af(3) assms(2,5) unfolding paged_def u_def by auto
  have ni: "\<not> inswap (sptes s1 p)" by (rule unloaded_stays [OF assms(1-5) af(3)])
  have "fill_page k (replicate 1024 0) (mach s2) = mach s2"
    using af(5) by (simp add: fill_page_def page_at_def fun_upd_idem)
  moreover have "bitmap_inv (swap_table s1)" using eq(3) by (simp add: paging_inv_def swap_inv_def)
  ultimately have "filled s1 s2 s2 k (replicate 1024 0) p" using ni by (simp add: filled_def sel)
  note mf = fill [rule_format, OF this]
  show ?thesis using mapped_frame_inv [OF eq(3) conjunct1 [OF mf] assms(2)] mf af assms(3) eq none view
    by (intro exI [of _ s2] exI [of _ k]) auto
qed

lemma grow_user_stack_spec:
  assumes "paging_inv s T" "curr s \<in> T" "suppagetable s (curr s)" "old_entries s T" "is_user_vaddr fault_addr"
    and "find_entry s (pg_round_down fault_addr) = None" "frame_room s" "kernel_room (phys (mach s))"
    and "mallocs (vfs s) (malloc_cnt (vfs s))" "mallocs (vfs s) (malloc_cnt (vfs s) + 2)"
  shows "\<exists>s' k. grow_user_stack fault_addr s = Inr (Resume, s') \<and> paging_inv s' T \<and> curr s' = curr s \<and> pagedir s' = pagedir s
    \<and> space (mach s') (pagedir s (curr s)) (pg_round_down fault_addr) = Some (k, True)
    \<and> page_view s' (curr s) (pg_round_down fault_addr) = Some (replicate 1024 0)
    \<and> (\<forall>t\<in>T. \<forall>v. (t, v) \<noteq> (curr s, pg_round_down fault_addr) \<longrightarrow> page_view s' t v = page_view s t v)"
proof -
  let ?u = "pg_round_down fault_addr"
  have "user_page ?u" using assms(5) by (rule user_page_round_down)
  from allocate_page_spec [OF assms(1-4) this assms(6,9), of 0 0 0 0 True] obtain s1 p e where
    s1: "allocate_page 0 0 ?u 0 0 True s = (Some p, s1)" "new_entry 0 0 ?u 0 0 True e" "paging_inv s1 T"
      "added s s1 T (curr s) p e" "\<And>t v. t \<in> T \<Longrightarrow> page_view s1 t v = page_view s t v" "vfs s1 = fst (kalloc (fst (kalloc (vfs s))))"
    by blast
  note fld = addedD(4,5,7,8,10) [OF s1(4)] s1(6)
  have sp: "sptes s1 p = e" using addedD(3) [OF s1(4)] by simp
  have en: "user_vaddr e = ?u" "\<not> inswap e" "spte_writable e" using s1(2) by (simp_all add: new_entry_def)
  have un: "space (mach s1) (pagedir s1 (curr s1)) (user_vaddr (sptes s1 p)) = None"
    using no_entry_unmapped [OF assms(1,2)] assms(6) by (simp add: fld sp en find_entry_def)
  have rm: "frame_room s1" "kernel_room (phys (mach s1))" using assms(7,8) by (simp_all add: frame_room_def fld)
  have "mallocs (vfs s1) (malloc_cnt (vfs s1))" using assms(10) by (simp add: fld kalloc_def)
  moreover have "curr s1 \<in> T" "p \<in> hash_elems (spt s1 (curr s1))" "\<not> inswap (sptes s1 p)"
    using assms(2) addedD(12) [OF s1(4)] en(2) by (simp_all add: fld sp)
  ultimately obtain s' k where
    "allocate_frame ?u (PAL_USER OR PAL_ZERO) s1 = Inr (k, s')" "paging_inv s' T" "curr s' = curr s" "pagedir s' = pagedir s"
      "space (mach s') (pagedir s (curr s)) ?u = Some (k, True)" "page_view s' (curr s) ?u = Some (replicate 1024 0)"
      "\<forall>t\<in>T. \<forall>v. (t, v) \<noteq> (curr s, ?u) \<longrightarrow> page_view s' t v = page_view s1 t v"
    using zero_frame [OF s1(3) _ _ _ un rm] unfolding fld sp en(1) eqTrueI [OF en(3)] by blast
  then show ?thesis using s1(1,5) by (intro exI [of _ s'] exI [of _ k]) (simp add: grow_user_stack_def)
qed

text \<open>
  C15: stack growth. For a fault at a user address whose page has no entry, with room for a frame and
  memory for the table entries, the process gets a zero page, writable and mapped at the
  page of the address; no page of any process changes, and the invariant holds.
\<close>

theorem stack_growth_adds_zero_page:
  assumes "paging_inv s T" "curr s \<in> T" "suppagetable s (curr s)" "old_entries s T" "is_user_vaddr fault_addr"
    and "find_entry s (pg_round_down fault_addr) = None" "frame_room s" "kernel_room (phys (mach s))"
    and "mallocs (vfs s) (malloc_cnt (vfs s))" "mallocs (vfs s) (malloc_cnt (vfs s) + 2)"
  shows "\<exists>s' k. grow_user_stack fault_addr s = Inr (Resume, s') \<and> paging_inv s' T
    \<and> space (mach s') (pagedir s (curr s)) (pg_round_down fault_addr) = Some (k, True)
    \<and> page_view s' (curr s) (pg_round_down fault_addr) = Some (replicate 1024 0)
    \<and> (\<forall>t\<in>T. \<forall>v. (t, v) \<noteq> (curr s, pg_round_down fault_addr) \<longrightarrow> page_view s' t v = page_view s t v)"
  using grow_user_stack_spec [OF assms] by blast

lemma sample_user:
  defines "s fs \<equiv> sample_proc fs (sample_sp 20)"
  shows "paging_inv (s fs) {1}" "find_entry (s fs) v \<noteq> None \<Longrightarrow> v = 0x14000" "20 \<le> malloc_cnt fs \<Longrightarrow> old_entries (s fs) {1}" "suppagetable (s fs) t"
proof -
  show iv: "paging_inv (s fs) {1}" unfolding s_def by (rule sample_proc_inv) (simp_all add: sample_sp_def)
  show "20 \<le> malloc_cnt fs \<Longrightarrow> old_entries (s fs) {1}" by (simp add: s_def old_entries_def entries_def sample_proc_simps sample_spt(2))
  show "suppagetable (s fs) t" by (simp add: s_def sample_proc_def)
  assume "find_entry (s fs) v \<noteq> None"
  then obtain p where "find_entry (s fs) v = Some p" by auto
  then show "v = 0x14000"
    using find_entry_iff [of "s fs" "{1}" 1 v p] iv unfolding s_def find_entry_def sample_proc_simps paging_inv_def
    by (auto simp: sample_spt(2) sample_sp_def)
qed

theorem stack_growth_adds_zero_page_witness:
  "\<exists>s' k. grow_user_stack 0xbfffe123 (sample_proc (sample_fs\<lparr>malloc_cnt := 100\<rparr>) (sample_sp 20)) = Inr (Resume, s')
    \<and> space (mach s') 0xc0101000 0xbfffe000 = Some (k, True) \<and> page_view s' 1 0xbfffe000 = Some (replicate 1024 0)"
proof -
  let ?s = "sample_proc (sample_fs\<lparr>malloc_cnt := 100\<rparr>) (sample_sp 20)"
  have pr: "pg_round_down 0xbfffe123 = 0xbfffe000" by (simp add: pg_round_down_def PGMASK_def)
  have "find_entry ?s 0xbfffe000 = None" using sample_user(2) [of "sample_fs\<lparr>malloc_cnt := 100\<rparr>" "0xbfffe000"] by fastforce
  moreover have "mallocs (vfs ?s) n" for n by (simp add: sample_proc_simps) (simp add: sample_fs_def)
  ultimately show ?thesis
    using stack_growth_adds_zero_page [OF sample_user(1), of "sample_fs\<lparr>malloc_cnt := 100\<rparr>" "0xbfffe123"] sample_user(3,4) sample_proc_room
    by (auto simp: pr sample_proc_simps is_user_vaddr_def PHYS_BASE_def)
qed

end
