(* ===== verification/Process_Spec.thy ===== *)
theory Process_Spec
  imports Process Vm_Growth
begin

text \<open>
  Programs are loaded as their headers say: the pages of a validated segment lie in user memory, and
  a fault on any of them brings in the bytes of the executable. The initial stack holds the
  arguments of the command line.
\<close>

section \<open>Segments\<close>

lemma le_bytes_le_word: "4 \<le> length bs \<Longrightarrow> le_bytes (le_word bs) = take 4 bs"
proof -
  assume "4 \<le> length bs"
  then obtain a b c d cs where "bs = a # b # c # d # cs"
    by (metis One_nat_def Suc_le_length_iff numeral_eq_Suc pred_numeral_simps(2,3) semiring_norm(26,27))
  moreover have "le_bytes (le_word (a # b # c # d # cs)) = [a, b, c, d]"
  proof -
    have "\<not> bit x (k + n)" if "8 \<le> k" for x :: byte and k n using that bit_imp_le_length [of x "k + n"] by auto
    then show ?thesis unfolding le_bytes_def le_word_def by (auto intro!: bit_word_eqI simp: bit_simps)
  qed
  ultimately show ?thesis by simp
qed

lemma le_words_words_le: "length bs = 4 * n \<Longrightarrow> le_words (words_le n bs) = bs"
proof (induction n arbitrary: bs)
  case (Suc n)
  then show ?case using le_bytes_le_word [of bs] by simp
qed simp

lemma round_up_nat:
  fixes x :: u32
  assumes "unat x + 4095 < 2 ^ 32"
  shows "unat (ROUND_UP x (word_of_nat PGSIZE)) = (unat x + 4095) div 4096 * 4096"
proof -
  have "unat (x + 4096 - 1) = unat x + 4095"
    using assms unat_add_lem [of x 4095] by (simp add: unat_word_ariths)
  then have d: "unat ((x + 4096 - 1) div 4096) = (unat x + 4095) div 4096" by (simp add: unat_div)
  have "(unat x + 4095) div 4096 * 4096 < 2 ^ 32" using assms by (meson div_times_less_eq_dividend order_le_less_trans)
  then show ?thesis using d by (simp add: ROUND_UP_def PGSIZE_def unat_word_ariths)
qed

lemma pg_round_down_unat: "unat (pg_round_down va) = 4096 * (unat va div 4096)"
proof -
  have "unat va = unat (pg_round_down va) + unat (pg_ofs va)"
    using page_indexes [of va] page_indexes [of "pg_round_down va"] by (simp add: round_down_page(1-3))
  then show ?thesis using pg_ofs_unat [of va] by (metis add_diff_cancel_right' minus_mod_eq_mult_div)
qed

definition seg_pages :: "Elf32_Phdr \<Rightarrow> nat" where
  "seg_pages ph = (unat (p_vaddr ph) mod 4096 + unat (p_memsz ph) + 4095) div 4096"

lemma validated_bounds:
  assumes "validate_segment ph len"
  shows "p_memsz ph \<noteq> 0" "unat (p_filesz ph) \<le> unat (p_memsz ph)" "unat (p_vaddr ph) + unat (p_memsz ph) < 0xc0000000"
proof -
  let ?v = "unat (p_vaddr ph)" and ?m = "unat (p_memsz ph)"
  show "p_memsz ph \<noteq> 0" using assms by (auto simp: validate_segment_def split: if_splits)
  have "\<not> p_memsz ph < p_filesz ph" using assms by (auto simp: validate_segment_def split: if_splits)
  then show "unat (p_filesz ph) \<le> ?m" by (simp add: word_less_nat_alt)
  have "\<not> p_vaddr ph + p_memsz ph < p_vaddr ph" "p_vaddr ph + p_memsz ph < PHYS_BASE"
    using assms by (auto simp: validate_segment_def is_user_vaddr_def split: if_splits)
  then have v: "?v \<le> unat (p_vaddr ph + p_memsz ph)" "unat (p_vaddr ph + p_memsz ph) < 0xc0000000"
    by (simp_all add: word_less_nat_alt PHYS_BASE_def)
  have "unat (p_vaddr ph + p_memsz ph) = ?v + ?m" using v(1) unat_plus_simple [of "p_vaddr ph" "p_memsz ph"] by (simp add: word_le_nat_alt)
  then show "?v + ?m < 0xc0000000" using v(2) by simp
qed

lemma page_bound:
  fixes a :: nat
  assumes "a = 4096 * q + r" "4096 * n \<le> r + m + 4095" "a + m < 0xc0000000"
  shows "4096 * (q + n) \<le> 0xc0000000"
proof -
  have "4096 * (q + n) \<le> a + m + 4095" using assms(1,2) by simp
  also have "\<dots> < 4096 * 786433" using assms(3) by simp
  finally have "q + n < 786433" by (simp only: mult_less_cancel1)
  then show ?thesis by simp
qed

lemma segment_bytes_spec:
  assumes "validate_segment ph len" "segment_bytes ph = (rd, zb)"
  shows "unat rd + unat zb = 4096 * seg_pages ph" "unat rd = (if p_filesz ph = 0 then 0 else unat (p_vaddr ph) mod 4096 + unat (p_filesz ph))"
    "unat (p_vaddr ph AND NOT PGMASK) = 4096 * (unat (p_vaddr ph) div 4096)" "4096 * (unat (p_vaddr ph) div 4096 + seg_pages ph) \<le> 0xc0000000"
    "0 < seg_pages ph"
proof -
  let ?v = "unat (p_vaddr ph)" and ?m = "unat (p_memsz ph)" and ?f = "unat (p_filesz ph)"
  let ?po = "p_vaddr ph AND PGMASK"
  let ?ru = "ROUND_UP (?po + p_memsz ph) (word_of_nat PGSIZE)"
  note v = validated_bounds [OF assms(1)]
  have po: "unat ?po = ?v mod 4096" using pg_ofs_unat [of "p_vaddr ph"] by (simp add: pg_ofs_def)
  have lt: "?v mod 4096 + ?m < 0xc0000000" using v(3) mod_less_eq_dividend [of ?v 4096] by linarith
  have pm: "unat (?po + p_memsz ph) = ?v mod 4096 + ?m" using lt po by (subst unat_add_lem [THEN iffD1]) simp_all
  have ru: "unat ?ru = 4096 * seg_pages ph"
    using round_up_nat [of "?po + p_memsz ph"] lt unfolding pm seg_pages_def by simp
  have le: "?v mod 4096 + ?m \<le> 4096 * seg_pages ph" "4096 * seg_pages ph \<le> ?v mod 4096 + ?m + 4095" unfolding seg_pages_def by linarith+
  have pf: "unat (?po + p_filesz ph) = ?v mod 4096 + ?f" using lt v(2) po by (subst unat_add_lem [THEN iffD1]) simp_all
  have rz: "rd = (if p_filesz ph = 0 then 0 else ?po + p_filesz ph)" "zb = ?ru - rd"
    using assms(2) by (auto simp: segment_bytes_def Let_def word_neq_0_conv split: if_splits)
  then show rd: "unat rd = (if p_filesz ph = 0 then 0 else ?v mod 4096 + ?f)" using pf by simp
  have "unat rd \<le> unat ?ru" using rd le(1) v(2) ru by (auto split: if_splits)
  then show "unat rd + unat zb = 4096 * seg_pages ph" using rz(2) ru by (simp add: unat_sub word_le_nat_alt)
  show "unat (p_vaddr ph AND NOT PGMASK) = 4096 * (?v div 4096)" using pg_round_down_unat [of "p_vaddr ph"] by (simp add: pg_round_down_def)
  have "0 < ?m" using v(1) by (simp add: unat_gt_0)
  then show "0 < seg_pages ph" using le(1) by linarith
  show "4096 * (?v div 4096 + seg_pages ph) \<le> 0xc0000000"
    using page_bound [OF mult_div_mod_eq [of 4096 ?v, symmetric] le(2) v(3)] .
qed

lemma s32_of_add: "s32_of (s32_of x + y) = s32_of (x + y)"
  by (simp add: s32_of_def mod_simps algebra_simps)

text \<open>
  Entries were added to the table of the running process and nothing else was changed: memory,
  frames, swap and the contents of every page are the same.
\<close>

definition only_entries :: "nat set \<Rightarrow> vm \<Rightarrow> vm \<Rightarrow> bool" where
  "only_entries T s s' \<longleftrightarrow> mach s' = mach s \<and> pagedir s' = pagedir s \<and> curr s' = curr s \<and> global_frame_list s' = global_frame_list s
     \<and> swap_table s' = swap_table s \<and> suppagetable s' = suppagetable s \<and> (\<exists>c\<ge>malloc_cnt (vfs s). vfs s' = (vfs s)\<lparr>malloc_cnt := c\<rparr>)
     \<and> (\<forall>t\<in>T. \<forall>v. page_view s' t v = page_view s t v)
     \<and> (\<forall>p\<in>hash_elems (spt s (curr s)). p \<in> hash_elems (spt s' (curr s)) \<and> sptes s' p = sptes s p)"

definition seg_entry :: "nat \<Rightarrow> int \<Rightarrow> u32 \<Rightarrow> nat \<Rightarrow> bool \<Rightarrow> nat \<Rightarrow> sup_page_table_entry \<Rightarrow> bool" where
  "seg_entry file ofs u rd w i e \<longleftrightarrow> new_entry file (s32_of (ofs + 4096 * int i)) (u + word_of_nat (4096 * i))
     (min 4096 (rd - 4096 * i)) (4096 - min 4096 (rd - 4096 * i)) w e"

lemma added_only_entries:
  assumes "added s s' T (curr s) p e" "paging_inv s T" "vfs s' = fst (kalloc (fst (kalloc (vfs s))))" "suppagetable s' = suppagetable s"
  shows "only_entries T s s'"
proof -
  note ad = addedD [OF assms(1)]
  have "\<exists>c\<ge>malloc_cnt (vfs s). vfs s' = (vfs s)\<lparr>malloc_cnt := c\<rparr>"
    using assms(3) by (intro exI [of _ "Suc (Suc (malloc_cnt (vfs s)))"]) (simp add: kalloc_def)
  then show ?thesis using ad(4,5,7,8,10,12) ad(21) [OF ad(1)] added_inv(3) [OF assms(2,1)] assms(4) unfolding only_entries_def by blast
qed

lemma only_entries_trans: "only_entries T s s1 \<Longrightarrow> only_entries T s1 s2 \<Longrightarrow> only_entries T s s2"
proof -
  assume 1: "only_entries T s s1" and 2: "only_entries T s1 s2"
  obtain c d where "malloc_cnt (vfs s) \<le> c" "vfs s1 = (vfs s)\<lparr>malloc_cnt := c\<rparr>" "malloc_cnt (vfs s1) \<le> d" "vfs s2 = (vfs s1)\<lparr>malloc_cnt := d\<rparr>"
    using 1 2 by (auto simp: only_entries_def)
  then have v: "\<exists>c\<ge>malloc_cnt (vfs s). vfs s2 = (vfs s)\<lparr>malloc_cnt := c\<rparr>" by (intro exI [of _ d]) simp
  show ?thesis using 1 2 v unfolding only_entries_def by auto
qed

lemma page_parts:
  fixes rd zb :: u32
  assumes "unat rd + unat zb = 4096 * Suc n"
  defines "pr \<equiv> if rd < word_of_nat PGSIZE then rd else word_of_nat PGSIZE"
  defines "pz \<equiv> word_of_nat PGSIZE - pr"
  shows "unat pr = min 4096 (unat rd)" "unat pz = 4096 - min 4096 (unat rd)" "uint (pr + pz) = 4096"
    "unat (rd - pr) = unat rd - 4096" "unat (rd - pr) + unat (zb - pz) = 4096 * n" "0 < rd \<or> 0 < zb"
proof -
  have lt: "rd < 4096 \<longleftrightarrow> unat rd < 4096" by (simp add: word_less_nat_alt)
  show pr: "unat pr = min 4096 (unat rd)" using lt by (auto simp: pr_def PGSIZE_def)
  have le: "pr \<le> 4096" "pr \<le> rd" using pr by (simp_all add: word_le_nat_alt)
  show pz: "unat pz = 4096 - min 4096 (unat rd)" using le(1) pr by (simp add: pz_def PGSIZE_def unat_sub)
  show "uint (pr + pz) = 4096" by (simp add: pz_def PGSIZE_def)
  show r: "unat (rd - pr) = unat rd - 4096" using le(2) pr by (simp add: unat_sub)
  have "unat pz \<le> unat zb" using pz assms(1) by simp
  then have "pz \<le> zb" by (simp add: word_le_nat_alt)
  then show "unat (rd - pr) + unat (zb - pz) = 4096 * n" using r pz assms(1) by (auto simp: unat_sub)
  show "0 < rd \<or> 0 < zb" using assms(1) by (auto simp: word_neq_0_conv [symmetric])
qed

lemma segment_pages_spec:
  assumes "paging_inv s T" "curr s \<in> T" "suppagetable s (curr s)" "old_entries s T" "\<forall>k. mallocs (vfs s) k" "file \<noteq> 0" "s32_of ofs = ofs"
    and "pg_ofs u = 0" "unat u + 4096 * n \<le> 0xc0000000" "unat rd + unat zb = 4096 * n" "n < m"
    and "\<forall>i<n. find_entry s (u + word_of_nat (4096 * i)) = None"
  shows "\<exists>s'. segment_pages m file ofs u rd zb w s = Inr s' \<and> paging_inv s' T \<and> old_entries s' T \<and> only_entries T s s'
    \<and> (\<forall>i<n. \<exists>p\<in>hash_elems (spt s' (curr s)). seg_entry file ofs u (unat rd) w i (sptes s' p))"
  using assms
proof (induction n arbitrary: s ofs u rd zb m)
  case 0
  then have "rd = 0" "zb = 0" by (simp_all add: unat_eq_0)
  then show ?case using 0 by (cases m) (auto simp: only_entries_def intro!: exI [of _ "malloc_cnt (vfs s)"])
next
  case (Suc n)
  note pre = Suc.prems
  obtain m' where m: "m = Suc m'" "n < m'" using pre(11) by (cases m) auto
  have up: "user_page u" using pre(8,9) by (simp add: user_page_def is_user_vaddr_def PHYS_BASE_def word_less_nat_alt)
  let ?pr = "if rd < word_of_nat PGSIZE then rd else word_of_nat PGSIZE"
  let ?pz = "word_of_nat PGSIZE - ?pr"
  note pp = page_parts [OF pre(10)]
  have fe: "find_entry s u = None" using pre(12) [rule_format, of 0] by simp
  from allocate_page_spec [OF pre(1-4) up fe, of "file" ofs "unat ?pr" "unat ?pz" w] pre(5) obtain s1 p e where
    s1: "allocate_page file ofs u (unat ?pr) (unat ?pz) w s = (Some p, s1)" "new_entry file ofs u (unat ?pr) (unat ?pz) w e"
      "added s s1 T (curr s) p e" "paging_inv s1 T" "old_entries s1 T" "vfs s1 = fst (kalloc (fst (kalloc (vfs s))))" "suppagetable s1 = suppagetable s"
    by blast
  note ad = addedD [OF s1(3)]
  have oe: "only_entries T s s1" by (rule added_only_entries [OF s1(3) pre(1) s1(6,7)])
  have ue: "user_vaddr e = u" using s1(2) by (simp add: new_entry_def)
  have u4: "unat (u + 4096) = unat u + 4096" using pre(9) by (subst unat_add_lem [THEN iffD1]) simp_all
  have tb: "tables_inv s T" "tables_inv s1 T" using pre(1) s1(4) by (simp_all add: paging_inv_def)
  have none: "find_entry s1 (u + 4096 + word_of_nat (4096 * i)) = None" if i: "i < n" for i
  proof (rule ccontr)
    let ?v = "u + 4096 + word_of_nat (4096 * i)"
    have v: "?v = u + word_of_nat (4096 * Suc i)" by simp
    assume "find_entry s1 ?v \<noteq> None"
    then obtain q where "q \<in> hash_elems (spt s1 (curr s))" "user_vaddr (sptes s1 q) = ?v"
      using find_entry_iff [OF tb(2) pre(2), of ?v] by (auto simp: find_entry_def ad(10))
    moreover have "find_entry s ?v = None" using pre(12) [rule_format, of "Suc i"] i unfolding v by blast
    ultimately have "q = p" using find_entry_iff [OF tb(1) pre(2), of ?v q] ad(12) ad(21) [OF ad(1), of q] by (auto simp: find_entry_def)
    then have "?v = u" using \<open>user_vaddr (sptes s1 q) = ?v\<close> ad(3) ue by simp
    moreover have "unat (word_of_nat (4096 * Suc i) :: u32) = 4096 * Suc i"
      using pre(9) i by (subst unsigned_of_nat, subst take_bit_nat_eq_self) simp_all
    ultimately show False unfolding v by (metis add.right_neutral add_left_cancel mult_is_0 nat.distinct(1) unsigned_0 zero_neq_numeral)
  qed
  have hyps: "curr s1 \<in> T" "suppagetable s1 (curr s1)" "\<forall>k. mallocs (vfs s1) k" "s32_of (s32_of (ofs + 4096)) = s32_of (ofs + 4096)"
      "pg_ofs (u + 4096) = 0" "unat (u + 4096) + 4096 * n \<le> 0xc0000000"
    using pre(2,3,5,9) s1(6,7) ad(10) s32_of_add [of "ofs + 4096" 0] u4 pre(8) by (simp_all add: kalloc_def pg_ofs_0)
  from Suc.IH [OF s1(4) hyps(1,2) s1(5) hyps(3) pre(6) hyps(4-6) pp(5) m(2)] none obtain s2 where
    s2: "segment_pages m' file (s32_of (ofs + 4096)) (u + 4096) (rd - ?pr) (zb - ?pz) w s1 = Inr s2" "paging_inv s2 T" "old_entries s2 T"
      "only_entries T s1 s2" "\<forall>i<n. \<exists>p\<in>hash_elems (spt s2 (curr s1)). seg_entry file (s32_of (ofs + 4096)) (u + 4096) (unat (rd - ?pr)) w i (sptes s2 p)"
    by blast
  have "segment_pages m file ofs u rd zb w s = Inr s2"
    using s2(1) s1(1) pp(3,6) by (simp add: m(1) Let_def PGSIZE_def)
  moreover have "\<exists>p\<in>hash_elems (spt s2 (curr s)). seg_entry file ofs u (unat rd) w i (sptes s2 p)" if i: "i < Suc n" for i
  proof (cases i)
    case 0
    have "p \<in> hash_elems (spt s2 (curr s)) \<and> sptes s2 p = e"
      using s2(4) ad(3,10,12) by (auto simp: only_entries_def)
    then show ?thesis using s1(2) pre(7) pp(1,2) 0 by (intro bexI [of _ p]) (simp_all add: seg_entry_def)
  next
    case (Suc j)
    then obtain q where "q \<in> hash_elems (spt s2 (curr s))" "seg_entry file (s32_of (ofs + 4096)) (u + 4096) (unat (rd - ?pr)) w j (sptes s2 q)"
      using s2(5) i ad(10) by auto
    then show ?thesis using pp(4) Suc s32_of_add [of "ofs + 4096" "4096 * int j"]
      by (intro bexI [of _ q]) (simp_all add: seg_entry_def algebra_simps)
  qed
  ultimately show ?case using s2(2,3) only_entries_trans [OF oe s2(4)] by blast
qed

lemma sint_small: "unat (w :: u32) < 2 ^ 31 \<Longrightarrow> sint w = int (unat w)"
proof -
  assume "unat w < 2 ^ 31"
  then have "int (unat w) < int (2 ^ 31)" by (simp only: of_nat_less_iff)
  then have "uint w < 2 ^ 31" by simp
  moreover have "- (2 ^ 31) \<le> uint w" by (rule order_trans [OF _ unsigned_greater_eq]) simp
  ultimately have "signed_take_bit 31 (uint w) = uint w" by (intro signed_take_bit_int_eq_self) simp_all
  then show ?thesis by (subst sint_uint) simp
qed

definition seg_unused :: "vm \<Rightarrow> Elf32_Phdr \<Rightarrow> bool" where
  "seg_unused s ph \<longleftrightarrow> (\<forall>i < seg_pages ph. find_entry s (pg_round_down (p_vaddr ph) + word_of_nat (4096 * i)) = None)"

definition seg_read :: "Elf32_Phdr \<Rightarrow> nat" where
  "seg_read ph = (if p_filesz ph = 0 then 0 else unat (p_vaddr ph) mod 4096 + unat (p_filesz ph))"

lemma load_asserts:
  assumes "validate_segment ph len" "segment_bytes ph = (rd, zb)" "0 \<le> len" "len < 2 ^ 31"
  defines "n \<equiv> 4096 * (unat (p_offset ph) div 4096)"
  shows "unat (rd + zb) mod PGSIZE = 0" "pg_ofs (pg_round_down (p_vaddr ph)) = 0" "sint (p_offset ph AND NOT PGMASK) smod int PGSIZE = 0"
    "seg_pages ph < segment_fuel rd zb" "sint (p_offset ph AND NOT PGMASK) = int n" "s32_of (int n) = int n"
proof -
  note ss = segment_bytes_spec [OF assms(1,2)]
  have "\<not> word_of_int len < p_offset ph" using assms(1) by (auto simp: validate_segment_def split: if_splits)
  then have "unat (p_offset ph) \<le> unat (word_of_int len :: u32)" by (simp add: word_le_nat_alt not_less)
  also have "\<dots> \<le> nat len" using assms(3,4) by (simp add: unsigned_of_int take_bit_int_eq_self)
  finally have "unat (p_offset ph) < 2 ^ 31" using assms(4) by simp
  then have n: "n < 2 ^ 31" unfolding n_def by (meson order_le_less_trans times_div_less_eq_dividend)
  have "unat (p_offset ph AND NOT PGMASK) = n" using pg_round_down_unat [of "p_offset ph"] by (simp add: pg_round_down_def n_def)
  then show ofs: "sint (p_offset ph AND NOT PGMASK) = int n" using sint_small [of "p_offset ph AND NOT PGMASK"] n by metis
  have sum: "4096 * seg_pages ph \<le> 0xc0000000" using ss(4) by simp
  have "unat (rd + zb) = 4096 * seg_pages ph" using ss(1) sum by (subst unat_add_lem [THEN iffD1]) simp_all
  then show "unat (rd + zb) mod PGSIZE = 0" "pg_ofs (pg_round_down (p_vaddr ph)) = 0" by (simp_all add: PGSIZE_def round_down_page)
  show "sint (p_offset ph AND NOT PGMASK) smod int PGSIZE = 0" unfolding ofs by (simp add: PGSIZE_def n_def smod_nonneg)
  show "seg_pages ph < segment_fuel rd zb" "s32_of (int n) = int n" using ss(1) n by (simp_all add: segment_fuel_def PGSIZE_def s32_of_lit)
qed

lemma load_phdr_spec:
  assumes "paging_inv s T" "curr s \<in> T" "suppagetable s (curr s)" "old_entries s T" "\<forall>k. mallocs (vfs s) k" "file \<noteq> 0"
    and "p_type ph = PT_LOAD" "file_length (vfs s) file = Inr len" "validate_segment ph len" "0 \<le> len" "len < 2 ^ 31" "seg_unused s ph"
  shows "\<exists>s'. load_phdr file ph s = Inr (True, s') \<and> paging_inv s' T \<and> old_entries s' T \<and> only_entries T s s'
    \<and> (\<forall>i < seg_pages ph. \<exists>p\<in>hash_elems (spt s' (curr s)).
          seg_entry file (int (4096 * (unat (p_offset ph) div 4096))) (pg_round_down (p_vaddr ph)) (seg_read ph) (p_flags ph AND PF_W \<noteq> 0) i (sptes s' p))"
proof -
  obtain rd zb where sb: "segment_bytes ph = (rd, zb)" by fastforce
  note ss = segment_bytes_spec [OF assms(9) sb] and as = load_asserts [OF assms(9) sb assms(10,11)]
  let ?n = "seg_pages ph" and ?u = "pg_round_down (p_vaddr ph)" and ?o = "4096 * (unat (p_offset ph) div 4096)"
  have un: "unat ?u + 4096 * ?n \<le> 0xc0000000" using ss(4) by (simp add: pg_round_down_unat)
  from segment_pages_spec [OF assms(1-6) as(6,2) un ss(1) as(4), of "p_flags ph AND PF_W \<noteq> 0"] assms(12) obtain s' where
    s': "segment_pages (segment_fuel rd zb) file (int ?o) ?u rd zb (p_flags ph AND PF_W \<noteq> 0) s = Inr s'" "paging_inv s' T" "old_entries s' T"
      "only_entries T s s'" "\<forall>i<?n. \<exists>p\<in>hash_elems (spt s' (curr s)). seg_entry file (int ?o) ?u (unat rd) (p_flags ph AND PF_W \<noteq> 0) i (sptes s' p)"
    unfolding seg_unused_def by blast
  have "load_phdr file ph s = Inr (True, s')"
    using s'(1) as assms(7-9) sb
    by (simp add: load_phdr_def PT_LOAD_def PT_DYNAMIC_def PT_INTERP_def PT_SHLIB_def load_segment_def pg_round_down_def)
  then show ?thesis using s' ss(2) by (auto simp: seg_read_def)
qed

lemma pg_round_down_of_nat: "pg_round_down va = word_of_nat (4096 * (unat va div 4096))"
  using arg_cong [OF pg_round_down_unat [of va], of "word_of_nat :: nat \<Rightarrow> u32"] by simp

text \<open>The page of an address of a segment, and the bytes its entry takes from the file.\<close>

lemma page_index_less:
  assumes "4096 * q + r = (v :: nat)" "4096 * q' + r' = x" "r + m \<le> 4096 * n" "x < v + m"
  shows "q' < q + n"
proof -
  have "4096 * q' \<le> x" "v + m \<le> 4096 * (q + n)" using assms(1-3) by simp_all
  then have "4096 * q' < 4096 * (q + n)" using assms(4) by (meson order_le_less_trans order_less_le_trans)
  then show ?thesis by (simp only: mult_less_cancel1)
qed

lemma seg_page_index:
  assumes "validate_segment ph len" "unat (p_vaddr ph) \<le> unat a" "unat a < unat (p_vaddr ph) + unat (p_memsz ph)"
  defines "i \<equiv> unat a div 4096 - unat (p_vaddr ph) div 4096"
  shows "i < seg_pages ph" "pg_round_down a = pg_round_down (p_vaddr ph) + word_of_nat (4096 * i)"
    "4096 * i + unat a mod 4096 = unat a - unat (p_vaddr ph) + unat (p_vaddr ph) mod 4096"
proof -
  let ?v = "unat (p_vaddr ph)" and ?x = "unat a" and ?m = "unat (p_memsz ph)"
  have le: "?v div 4096 \<le> ?x div 4096" using assms(2) by (rule div_le_mono)
  have q: "4096 * i = 4096 * (?x div 4096) - 4096 * (?v div 4096)" by (simp add: i_def right_diff_distrib')
  have dv: "4096 * (?v div 4096) + ?v mod 4096 = ?v" "4096 * (?x div 4096) + ?x mod 4096 = ?x" by simp_all
  then show "4096 * i + ?x mod 4096 = ?x - ?v + ?v mod 4096" using q le assms(2) by (simp only:) linarith
  have "?v mod 4096 + ?m \<le> 4096 * seg_pages ph" unfolding seg_pages_def by linarith
  from page_index_less [OF dv this assms(3)] show "i < seg_pages ph" using le by (simp add: i_def)
  have "4096 * (?x div 4096) = 4096 * (?v div 4096) + 4096 * i" using q le by simp
  then show "pg_round_down a = pg_round_down (p_vaddr ph) + word_of_nat (4096 * i)"
    unfolding pg_round_down_of_nat by (metis of_nat_add)
qed

lemma seg_entry_bytes:
  fixes a :: u32
  assumes "validate_segment ph len" "unat (p_vaddr ph) \<le> unat a" "unat a < unat (p_vaddr ph) + unat (p_memsz ph)"
    and "unat (p_offset ph) + unat (p_filesz ph) \<le> length bs" "length bs < 2 ^ 31"
  defines "i \<equiv> unat a div 4096 - unat (p_vaddr ph) div 4096"
  defines "rb \<equiv> min 4096 (seg_read ph - 4096 * i)" and "ofs \<equiv> s32_of (int (4096 * (unat (p_offset ph) div 4096)) + 4096 * int i)"
  shows "rb = 0 \<or> 0 \<le> ofs \<and> ofs + int rb \<le> int (length bs)"
    "(take rb (drop (nat ofs) bs) @ replicate (4096 - rb) 0) ! (unat a mod 4096)
      = (if unat a - unat (p_vaddr ph) < unat (p_filesz ph) then bs ! (unat (p_offset ph) + (unat a - unat (p_vaddr ph))) else 0)"
proof -
  let ?v = "unat (p_vaddr ph)" and ?x = "unat a" and ?f = "unat (p_filesz ph)" and ?o = "unat (p_offset ph)"
  have ix: "4096 * i + ?x mod 4096 = ?x - ?v + ?v mod 4096" using seg_page_index(3) [OF assms(1-3)] by (simp add: i_def)
  have "p_offset ph AND PGMASK = p_vaddr ph AND PGMASK" using assms(1) by (auto simp: validate_segment_def split: if_splits)
  then have om: "?o mod 4096 = ?v mod 4096" using pg_ofs_unat [of "p_offset ph"] pg_ofs_unat [of "p_vaddr ph"] by (simp add: pg_ofs_def)
  have od: "4096 * (?o div 4096) + ?o mod 4096 = ?o" by simp
  have R: "seg_read ph = (if ?f = 0 then 0 else ?v mod 4096 + ?f)" by (simp add: seg_read_def unat_eq_0)
  have ofs: "ofs = int (4096 * (?o div 4096) + 4096 * i)" if "4096 * i < seg_read ph"
  proof -
    have "4096 * (?o div 4096) + 4096 * i < length bs" using that R od om assms(4) by (auto split: if_splits)
    then show ?thesis using assms(5) unfolding ofs_def by (subst s32_of_lit) simp_all
  qed
  show rg: "rb = 0 \<or> 0 \<le> ofs \<and> ofs + int rb \<le> int (length bs)"
  proof (cases "4096 * i < seg_read ph")
    case True
    have "4096 * i + rb \<le> seg_read ph" using True by (simp add: rb_def)
    then have "4096 * (?o div 4096) + 4096 * i + rb \<le> length bs" using True R od om assms(4) by (auto split: if_splits)
    then show ?thesis using ofs [OF True] by simp
  qed (simp add: rb_def)
  have l: "length (take rb (drop (nat ofs) bs)) = rb" using rg by auto
  show "(take rb (drop (nat ofs) bs) @ replicate (4096 - rb) 0) ! (?x mod 4096)
      = (if ?x - ?v < ?f then bs ! (?o + (?x - ?v)) else 0)"
  proof (cases "?x - ?v < ?f")
    case True
    then have lt: "4096 * i + ?x mod 4096 < seg_read ph" using ix R by simp
    then have "?x mod 4096 < rb" by (simp add: rb_def)
    moreover have "4096 * i < seg_read ph" using lt by simp
    from ofs [OF this] have "nat ofs = 4096 * (?o div 4096) + 4096 * i" by (simp only: nat_int)
    then have "nat ofs + ?x mod 4096 = ?o + (?x - ?v)" using ix om od by simp
    moreover have "nat ofs \<le> length bs" using rg \<open>?x mod 4096 < rb\<close> by auto
    ultimately show ?thesis using True l by (simp add: nth_append)
  next
    case False
    then have "rb \<le> ?x mod 4096" using ix R by (auto simp: rb_def split: if_splits)
    then show ?thesis using False l by (simp add: nth_append not_less)
  qed
qed

text \<open>The entry of an address of a loaded segment.\<close>

lemma load_phdr_entry:
  assumes "paging_inv s T" "curr s \<in> T" "suppagetable s (curr s)" "old_entries s T" "\<forall>k. mallocs (vfs s) k" "file \<noteq> 0"
    and "p_type ph = PT_LOAD" "file_length (vfs s) file = Inr len" "validate_segment ph len" "0 \<le> len" "len < 2 ^ 31" "seg_unused s ph"
    and "unat (p_vaddr ph) \<le> unat a" "unat a < unat (p_vaddr ph) + unat (p_memsz ph)"
  defines "j \<equiv> unat a div 4096 - unat (p_vaddr ph) div 4096"
  obtains s1 p where "load_phdr file ph s = Inr (True, s1)" "paging_inv s1 T" "only_entries T s s1"
    "find_entry s1 (pg_round_down a) = Some p" "p \<in> hash_elems (spt s1 (curr s))" "space (mach s) (pagedir s (curr s)) (pg_round_down a) = None"
    "new_entry file (s32_of (int (4096 * (unat (p_offset ph) div 4096)) + 4096 * int j)) (pg_round_down a)
       (min 4096 (seg_read ph - 4096 * j)) (4096 - min 4096 (seg_read ph - 4096 * j)) (p_flags ph AND PF_W \<noteq> 0) (sptes s1 p)"
proof -
  note ix = seg_page_index [OF assms(9,13,14), folded j_def]
  from load_phdr_spec [OF assms(1-12)] obtain s1 where
    s1: "load_phdr file ph s = Inr (True, s1)" "paging_inv s1 T" "only_entries T s s1"
      "\<forall>i < seg_pages ph. \<exists>p\<in>hash_elems (spt s1 (curr s)). seg_entry file (int (4096 * (unat (p_offset ph) div 4096)))
         (pg_round_down (p_vaddr ph)) (seg_read ph) (p_flags ph AND PF_W \<noteq> 0) i (sptes s1 p)" by blast
  obtain p where p: "p \<in> hash_elems (spt s1 (curr s))" "new_entry file (s32_of (int (4096 * (unat (p_offset ph) div 4096)) + 4096 * int j)) (pg_round_down a)
      (min 4096 (seg_read ph - 4096 * j)) (4096 - min 4096 (seg_read ph - 4096 * j)) (p_flags ph AND PF_W \<noteq> 0) (sptes s1 p)"
    using s1(4) [rule_format, OF ix(1)] ix(2) by (auto simp: seg_entry_def)
  have tb: "tables_inv s1 T" using s1(2) by (simp add: paging_inv_def)
  have c: "curr s1 = curr s" using s1(3) by (simp add: only_entries_def)
  have fe: "find_entry s1 (pg_round_down a) = Some p"
    using find_entry_iff [OF tb assms(2)] p c by (simp add: find_entry_def new_entry_def)
  have "find_entry s (pg_round_down a) = None" using assms(12) ix(1,2) by (simp add: seg_unused_def)
  then have "space (mach s) (pagedir s (curr s)) (pg_round_down a) = None"
    using no_entry_unmapped [OF assms(1,2), of "pg_round_down a"] by (simp add: find_entry_def)
  then show ?thesis using that [OF s1(1-3) fe p(1) _ p(2)] by simp
qed

lemma segment_file:
  assumes "inode_wf s (idata i)" "cache_inv s" "files s fp = Some fl" "inodes s (f_inode fl) = Some i"
  shows "0 \<le> ilength (idata i)" "ilength (idata i) \<le> 512 * 512" "int (length (file_bytes s (idata i))) = ilength (idata i)"
    "file_length s fp = Inr (ilength (idata i))"
proof -
  show l: "0 \<le> ilength (idata i)" "ilength (idata i) \<le> 512 * 512" using assms(1) by (simp_all add: inode_wf_def)
  show "int (length (file_bytes s (idata i))) = ilength (idata i)" using length_file_bytes [of s "idata i"] assms(1,2) l by simp
  show "file_length s fp = Inr (ilength (idata i))" using assms(3,4) by (simp add: file_length_def get_file_def get_inode_def inode_length_def)
qed

lemma segment_address:
  assumes "validate_segment ph len" "p_vaddr ph \<le> a" "a < p_vaddr ph + p_memsz ph"
  shows "unat (p_vaddr ph) \<le> unat a" "unat a < unat (p_vaddr ph) + unat (p_memsz ph)" "\<not> is_kernel_vaddr a"
proof -
  note vb = validated_bounds [OF assms(1)]
  have "unat (p_vaddr ph + p_memsz ph) = unat (p_vaddr ph) + unat (p_memsz ph)" using vb(3) by (subst unat_add_lem [THEN iffD1]) simp_all
  then show a: "unat (p_vaddr ph) \<le> unat a" "unat a < unat (p_vaddr ph) + unat (p_memsz ph)"
    using assms(2,3) by (simp_all add: word_le_nat_alt word_less_nat_alt)
  then show "\<not> is_kernel_vaddr a" using vb(3) by (simp add: is_kernel_vaddr_def PHYS_BASE_def word_le_nat_alt)
qed

text \<open>
  C9: programs are loaded on demand as their headers say. After a loadable segment passed the checks and
  was entered into the page table, which changes no page, a fault of the process at an address
  of the segment other than the null pointer brings in a page that holds there the byte of the file at the same distance
  from the start of the segment, or zero past the part that is in the file. The bytes of the segment must lie in the file:
  \<open>validate_segment\<close> tests only where they start, and a page that the file does not fill is freed
  while it stays mapped. The pages of the segment must not be in the table already, memory and a frame or
  a page to evict must be there, and the stack pointer must not lie in the code area, where
  the handler returns without doing anything. Page 0 is treated as any other: the test that the comment \<open>Disallow mapping page 0\<close> announces is
  commented out in the code.
\<close>

theorem exec_page_fault_loads_image:
  assumes "paging_inv s T" "curr s \<in> T" "suppagetable s (curr s)" "old_entries s T" "\<forall>k. mallocs (vfs s) k"
    and "frame_room s" "kernel_room (phys (mach s))" "seg_unused s ph"
    and "file \<noteq> 0" "files (vfs s) file = Some fl" "inodes (vfs s) (f_inode fl) = Some i" "inode_wf (vfs s) (idata i)" "cache_inv (vfs s)"
    and "\<forall>k\<in>set (data_sectors (vfs s) (idata i)). cache_ready (vfs s) k"
    and "p_type ph = PT_LOAD" "validate_segment ph (ilength (idata i))"
    and "int (unat (p_offset ph)) + int (unat (p_filesz ph)) \<le> ilength (idata i)"
    and "p_vaddr ph \<le> a" "a < p_vaddr ph + p_memsz ph" "a \<noteq> 0" "\<not> is_code_vaddr esp"
  defines "off \<equiv> unat a - unat (p_vaddr ph)"
  shows "\<exists>s1 s2 ws. load_phdr file ph s = Inr (True, s1) \<and> paging_inv s1 T \<and> (\<forall>t\<in>T. \<forall>v. page_view s1 t v = page_view s t v)
    \<and> page_fault a not_present True stack esp s1 = Inr (Resume, s2) \<and> paging_inv s2 T
    \<and> page_view s2 (curr s) (pg_round_down a) = Some ws
    \<and> le_words ws ! unat (pg_ofs a) = (if off < unat (p_filesz ph) then file_bytes (vfs s) (idata i) ! (unat (p_offset ph) + off) else 0)"
proof -
  let ?t = "curr s" and ?fb = "file_bytes (vfs s) (idata i)"
  note len = segment_file(1,2) [OF assms(12,13,10,11)] and fbl = segment_file(3) [OF assms(12,13,10,11)]
    and fl = segment_file(4) [OF assms(12,13,10,11)] and a = segment_address(1,2) [OF assms(16,18,19)]
  define j where "j = unat a div 4096 - unat (p_vaddr ph) div 4096"
  have l31: "ilength (idata i) < 2 ^ 31" using len(2) by simp
  obtain s1 p where s1: "load_phdr file ph s = Inr (True, s1)" "paging_inv s1 T" "only_entries T s s1"
    and fe: "find_entry s1 (pg_round_down a) = Some p" "p \<in> hash_elems (spt s1 ?t)" "space (mach s) (pagedir s ?t) (pg_round_down a) = None"
    and ne: "new_entry file (s32_of (int (4096 * (unat (p_offset ph) div 4096)) + 4096 * int j)) (pg_round_down a)
       (min 4096 (seg_read ph - 4096 * j)) (4096 - min 4096 (seg_read ph - 4096 * j)) (p_flags ph AND PF_W \<noteq> 0) (sptes s1 p)"
    by (rule load_phdr_entry [OF assms(1-5,9,15) fl assms(16) len(1) l31 assms(8) a, folded j_def])
  obtain c where c: "malloc_cnt (vfs s) \<le> c" "vfs s1 = (vfs s)\<lparr>malloc_cnt := c\<rparr>" using s1(3) by (auto simp: only_entries_def)
  have oe: "mach s1 = mach s" "pagedir s1 = pagedir s" "curr s1 = ?t" "global_frame_list s1 = global_frame_list s" "swap_table s1 = swap_table s"
    and view: "\<forall>t\<in>T. \<forall>v. page_view s1 t v = page_view s t v" using s1(3) by (simp_all add: only_entries_def)
  have e: "user_vaddr (sptes s1 p) = pg_round_down a" "\<not> inswap (sptes s1 p)" "spte_file (sptes s1 p) = file"
      "spte_ofs (sptes s1 p) = s32_of (int (4096 * (unat (p_offset ph) div 4096)) + 4096 * int j)"
      "read_bytes (sptes s1 p) = min 4096 (seg_read ph - 4096 * j)" "zero_bytes (sptes s1 p) = 4096 - min 4096 (seg_read ph - 4096 * j)"
    using ne assms(9) by (simp_all add: new_entry_def)
  have un: "space (mach s1) (pagedir s1 (curr s1)) (user_vaddr (sptes s1 p)) = None" using fe(3) by (simp add: oe e)
  note seb = seg_entry_bytes [OF assms(16) a, of ?fb, folded j_def]
  have fb: "unat (p_offset ph) + unat (p_filesz ph) \<le> length ?fb" "length ?fb < 2 ^ 31"
    using fbl assms(17) len(2) by (simp_all only: of_nat_add [symmetric] of_nat_le_iff fbl [symmetric]) simp
  note mf = malloc_cnt_file [where s = "vfs s" and c = c]
  have hyp: "curr s1 \<in> T" "p \<in> hash_elems (spt s1 (curr s1))" "frame_room s1" "kernel_room (phys (mach s1))" "mallocs (vfs s1) (malloc_cnt (vfs s1))"
      "files (vfs s1) (spte_file (sptes s1 p)) = Some fl" "inodes (vfs s1) (f_inode fl) = Some i" "inode_wf (vfs s1) (idata i)" "cache_inv (vfs s1)"
      "\<forall>k\<in>set (data_sectors (vfs s1) (idata i)). cache_ready (vfs s1) k" "read_bytes (sptes s1 p) + zero_bytes (sptes s1 p) = 4096"
      "read_bytes (sptes s1 p) = 0 \<or> 0 \<le> spte_ofs (sptes s1 p) \<and> spte_ofs (sptes s1 p) + int (read_bytes (sptes s1 p)) \<le> ilength (idata i)"
    using assms(2,5-7,10-14) fe(2) mf c seb(1) [OF fb] fbl by (simp_all add: oe e frame_room_def)
  from file_page_loaded [OF s1(2) hyp(1,2) e(2) un hyp(3-12)] obtain s2 where
    s2: "load_file_page p s1 = Inr (Resume, s2)" "paging_inv s2 T"
      "page_view s2 ?t (pg_round_down a) = Some (words_le 1024 (take (read_bytes (sptes s1 p)) (drop (nat (spte_ofs (sptes s1 p))) ?fb)
         @ replicate (zero_bytes (sptes s1 p)) 0))" (is "_ = Some (words_le 1024 ?bs)")
    using mf c(2) by (auto simp: oe e)
  have "page_fault a not_present True stack esp s1 = Inr (Resume, s2)"
    using segment_address(3) [OF assms(16,18,19)] s2(1) assms(9,20,21) fe(1) e(2,3) by (simp add: page_fault_def user_fault_def)
  moreover have "length ?bs = 4096" using seb(1) [OF fb] by (auto simp: e)
  then have "le_words (words_le 1024 ?bs) = ?bs" by (intro le_words_words_le) simp
  then have "le_words (words_le 1024 ?bs) ! unat (pg_ofs a) = (if off < unat (p_filesz ph) then ?fb ! (unat (p_offset ph) + off) else 0)"
    using seb(2) [OF fb] by (simp add: e pg_ofs_unat off_def)
  ultimately show ?thesis using s1(1,2) view s2(2,3) by blast
qed

text \<open>A segment of three bytes of the file of the sample, followed by zeros.\<close>

definition sample_image :: vm where
  "sample_image = sample_proc (sample_fs\<lparr>files := (files sample_fs)(9 \<mapsto> \<lparr>f_inode = 8, f_pos = 0, f_deny_write = False, f_dir = None\<rparr>), malloc_cnt := 100\<rparr>) (sample_sp 20)"

definition sample_phdr :: Elf32_Phdr where
  "sample_phdr = \<lparr>p_type = 1, p_offset = 1, p_vaddr = 0x8048001, p_paddr = 0, p_filesz = 3, p_memsz = 8192, p_flags = 2, p_align = 4096\<rparr>"

theorem exec_page_fault_loads_image_witness:
  "\<exists>s1 s2 ws. load_phdr 9 sample_phdr sample_image = Inr (True, s1)
    \<and> page_fault 0x8048002 True True 0 0xbfffff00 s1 = Inr (Resume, s2)
    \<and> page_view s2 1 0x8048000 = Some ws \<and> le_words ws ! 2 = 108"
proof -
  let ?s = sample_image and ?ph = sample_phdr
  have iv: "paging_inv ?s {1}" unfolding sample_image_def by (rule sample_user(1))
  have c: "curr ?s = 1" "mach ?s = sample_machine" "pagedir ?s 1 = 0xc0101000"
    "vfs ?s = sample_fs\<lparr>files := (files sample_fs)(9 \<mapsto> \<lparr>f_inode = 8, f_pos = 0, f_deny_write = False, f_dir = None\<rparr>), malloc_cnt := 100\<rparr>"
    by (simp_all add: sample_image_def sample_proc_simps)
  have old: "old_entries ?s {1}" unfolding sample_image_def by (rule sample_user(3)) simp
  have ci: "cache_inv (vfs ?s)" using sample_cache(1) unfolding c by (intro malloc_cnt_file(1)) (simp_all add: cache_inv_def bce_ok_def sample_fs_def)
  have rm: "frame_room ?s" "kernel_room (phys (mach ?s))" unfolding sample_image_def by (rule sample_proc_room)+
  have "seg_pages ?ph = 3" by (simp add: seg_pages_def sample_phdr_def)
  moreover have "pg_round_down (p_vaddr ?ph) = 0x8048000" by (simp add: sample_phdr_def pg_round_down_def PGMASK_def)
  moreover have "(0x8048000 :: u32) + word_of_nat (4096 * k) \<noteq> 0x14000" if "k < 3" for k
    using that by (auto simp: numeral_3_eq_3 less_Suc_eq)
  ultimately have un: "seg_unused ?s ?ph" unfolding seg_unused_def sample_image_def using sample_user(2) by metis
  have fl: "validate_segment ?ph 5" by (simp add: validate_segment_def sample_phdr_def PGMASK_def is_user_vaddr_def PHYS_BASE_def)
  have pr: "pg_round_down 0x8048002 = 0x8048000" "unat (pg_ofs 0x8048002) = 2" by (simp_all add: pg_round_down_def pg_ofs_def PGMASK_def)
  have su: "suppagetable ?s (Suc 0)" "mallocs sample_fs k" for k by (simp_all add: sample_image_def sample_user(4)) (simp add: sample_fs_def)
  have fb: "file_bytes (vfs ?s) (idata hello_inode) ! Suc (Suc 0) = 108" by (simp add: c malloc_cnt_file hello_file)
  show ?thesis
    using exec_page_fault_loads_image [OF iv _ _ old _ rm un, of 9 "\<lparr>f_inode = 8, f_pos = 0, f_deny_write = False, f_dir = None\<rparr>" hello_inode
        "0x8048002" "0xbfffff00" True 0] ci fl su
    by (auto simp: c pr hello_file sample_cache malloc_cnt_file PT_LOAD_def is_code_vaddr_def) (auto simp: sample_phdr_def fb)
qed

section \<open>Malformed executables\<close>

lemma allocate_page_vfs: "\<exists>c\<ge>malloc_cnt (vfs s). vfs (snd (allocate_page file ofs u rb zb w s)) = (vfs s)\<lparr>malloc_cnt := c\<rparr>"
proof -
  let ?s = "snd (allocate_page file ofs u rb zb w s)"
  have "vfs ?s = (vfs s)\<lparr>malloc_cnt := malloc_cnt (vfs ?s)\<rparr> \<and> malloc_cnt (vfs s) \<le> malloc_cnt (vfs ?s)"
    by (simp add: allocate_page_def page_init_def vm_alloc_def kalloc_def Let_def split_def split: option.split)
  then show ?thesis by blast
qed

lemma segment_pages_total:
  "unat rd + unat zb = 4096 * n \<Longrightarrow> n < m \<Longrightarrow> \<exists>s'. segment_pages m file ofs u rd zb w s = Inr s'
    \<and> (\<exists>c\<ge>malloc_cnt (vfs s). vfs s' = (vfs s)\<lparr>malloc_cnt := c\<rparr>)"
proof (induction n arbitrary: m ofs u rd zb s)
  case 0
  then have "rd = 0" "zb = 0" by (simp_all add: unat_eq_0)
  then show ?case using 0 by (cases m) (auto intro!: exI [of _ "malloc_cnt (vfs s)"])
next
  case (Suc n)
  then obtain m' where m: "m = Suc m'" "n < m'" by (cases m) auto
  let ?pr = "if rd < word_of_nat PGSIZE then rd else word_of_nat PGSIZE"
  let ?pz = "word_of_nat PGSIZE - ?pr"
  note pp = page_parts [OF Suc.prems(1)]
  let ?s1 = "snd (allocate_page file ofs u (unat ?pr) (unat ?pz) w s)"
  obtain c where c: "malloc_cnt (vfs s) \<le> c" "vfs ?s1 = (vfs s)\<lparr>malloc_cnt := c\<rparr>" using allocate_page_vfs by blast
  from Suc.IH [OF pp(5) m(2)] obtain s' d where s': "segment_pages m' file (s32_of (ofs + uint (?pr + ?pz))) (u + word_of_nat PGSIZE) (rd - ?pr) (zb - ?pz) w ?s1 = Inr s'"
      "malloc_cnt (vfs ?s1) \<le> d" "vfs s' = (vfs ?s1)\<lparr>malloc_cnt := d\<rparr>" by blast
  have "segment_pages m file ofs u rd zb w s = Inr s'" unfolding m(1) segment_pages.simps Let_def using s'(1) pp(6) by simp
  moreover have "vfs s' = (vfs s)\<lparr>malloc_cnt := d\<rparr>" "malloc_cnt (vfs s) \<le> d" using s'(2,3) c by simp_all
  ultimately show ?case by blast
qed

text \<open>A file whose inode is well-formed; nothing is said of its contents.\<close>

definition file_readable :: "fs \<Rightarrow> nat \<Rightarrow> bool" where
  "file_readable fs f \<longleftrightarrow> (\<exists>fl i. files fs f = Some fl \<and> inodes fs (f_inode fl) = Some i \<and> inode_wf fs (idata i) \<and> cache_inv fs
     \<and> (\<forall>k\<in>set (data_sectors fs (idata i)). cache_ready fs k))"

lemma file_readable_malloc: "file_readable fs f \<Longrightarrow> malloc_cnt fs \<le> c \<Longrightarrow> file_readable (fs\<lparr>malloc_cnt := c\<rparr>) f"
  by (auto simp: file_readable_def malloc_cnt_file)

lemma cache_inv_files: "cache_inv (fs\<lparr>files := e\<rparr>) = cache_inv fs"
  by (simp add: cache_inv_def bce_ok_def)

lemma file_readable_pos: "file_readable fs f \<Longrightarrow> file_readable (set_pos fs f pos) f"
  by (auto simp: file_readable_def set_pos_def cache_inv_files)

lemma file_readable_frame:
  assumes "file_readable fs f" "cache_inv fs'" "cache_frame fs fs'"
  shows "file_readable fs' f"
proof -
  have "cache_ready fs' k = cache_ready fs k" for k using assms(3) by (auto simp: cache_frame_def cache_ready_def)
  then show ?thesis
    using assms(1,2) cache_frame_fs [OF assms(3)] data_sectors_cong [OF cache_frame_fs(3) [OF assms(3)]] inode_wf_cong [OF cache_frame_fs(3) [OF assms(3)]]
    by (auto simp: file_readable_def)
qed

lemma readable_length:
  assumes "file_readable fs f"
  obtains len where "file_length fs f = Inr len" "0 \<le> len" "len \<le> 512 * 512"
  using assms by (auto simp: file_readable_def file_length_def get_file_def get_inode_def inode_length_def inode_wf_def)

lemma read_header:
  assumes "file_readable fs f" "0 \<le> ofs" "ofs < 2 ^ 31" "file_seek fs f ofs = Inr fs1"
  shows "\<exists>fs2 bs n. file_read free_map_allocate fs1 f (replicate phdr_size 0) (int phdr_size) = Inr (fs2, bs, n) \<and> file_readable fs2 f"
proof -
  have fs1: "fs1 = set_pos fs f ofs" using assms(1,2,4) by (auto simp: file_seek_def file_readable_def get_file_def)
  have rd: "file_readable fs1 f" using file_readable_pos [OF assms(1)] fs1 by simp
  then obtain fl i where fl: "files fs1 f = Some fl" "inodes fs1 (f_inode fl) = Some i" "inode_wf fs1 (idata i)" "cache_inv fs1"
      "\<forall>k\<in>set (data_sectors fs1 (idata i)). cache_ready fs1 k" by (auto simp: file_readable_def)
  have pos: "f_pos fl = ofs" using fl(1) fs1 by (auto simp: set_pos_def)
  have "nat (min (int phdr_size) (ilength (idata i) - ofs)) \<le> length (replicate phdr_size (0 :: byte))" by (simp add: nat_le_iff)
  from inode_read_at_spec [OF fl(4,2,3,5) assms(2,3) this, of free_map_allocate] obtain fs2 bs n where
    fs2: "inode_read_at free_map_allocate fs1 (f_inode fl) (replicate phdr_size 0) (int phdr_size) ofs = Inr (fs2, bs, n)" "cache_inv fs2" "cache_frame fs1 fs2"
    by blast
  then have "file_read free_map_allocate fs1 f (replicate phdr_size 0) (int phdr_size) = Inr (set_pos fs2 f (s32_of (ofs + n)), bs, n)"
    using fl(1) pos by (simp add: file_read_def get_file_def)
  then show ?thesis using file_readable_pos [OF file_readable_frame [OF rd fs2(2,3)]] by blast
qed

lemma load_phdr_total:
  assumes "file_readable (vfs s) file"
  shows "\<exists>ok s'. load_phdr file ph s = Inr (ok, s') \<and> file_readable (vfs s') file"
proof -
  obtain len where len: "file_length (vfs s) file = Inr len" "0 \<le> len" "len \<le> 512 * 512" using readable_length [OF assms] .
  show ?thesis
  proof (cases "p_type ph = PT_LOAD \<and> validate_segment ph len")
    case False
    then show ?thesis using assms len(1) by (auto simp: load_phdr_def)
  next
    case True
    obtain rd zb where sb: "segment_bytes ph = (rd, zb)" by fastforce
    have v: "validate_segment ph len" using True by simp
    note ss = segment_bytes_spec [OF v sb]
    have l31: "len < 2 ^ 31" using len(3) by simp
    note as = load_asserts [OF v sb len(2) l31]
    from segment_pages_total [OF ss(1), of "segment_fuel rd zb"] as(4) obtain s' c where
      s': "segment_pages (segment_fuel rd zb) file (sint (p_offset ph AND NOT PGMASK)) (p_vaddr ph AND NOT PGMASK) rd zb (p_flags ph AND PF_W \<noteq> 0) s = Inr s'"
        "malloc_cnt (vfs s) \<le> c" "vfs s' = (vfs s)\<lparr>malloc_cnt := c\<rparr>" by blast
    then have "load_phdr file ph s = Inr (True, s')"
      using True sb len(1) as by (simp add: load_phdr_def PT_LOAD_def PT_DYNAMIC_def PT_INTERP_def PT_SHLIB_def load_segment_def pg_round_down_def)
    then show ?thesis using file_readable_malloc [OF assms s'(2)] s'(3) by metis
  qed
qed

lemma load_phdrs_total:
  "file_readable (vfs s) file \<Longrightarrow> ofs < 2 ^ 31 \<Longrightarrow> \<exists>ok s'. load_phdrs n file ofs s = Inr (ok, s') \<and> file_readable (vfs s') file"
proof (induction n arbitrary: ofs s)
  case (Suc n)
  obtain len where len: "file_length (vfs s) file = Inr len" using readable_length [OF Suc.prems(1)] .
  show ?case
  proof (cases "ofs < 0 \<or> ofs > len")
    case True
    then show ?thesis using len Suc.prems(1) by auto
  next
    case False
    then have sk: "file_seek (vfs s) file ofs = Inr (set_pos (vfs s) file ofs)"
      using Suc.prems(1) by (auto simp: file_seek_def file_readable_def get_file_def)
    from read_header [OF Suc.prems(1) _ Suc.prems(2) sk] False obtain fs2 bs m where
      rd: "file_read free_map_allocate (set_pos (vfs s) file ofs) file (replicate phdr_size 0) (int phdr_size) = Inr (fs2, bs, m)" "file_readable fs2 file"
      by auto
    show ?thesis
    proof (cases "m = int phdr_size")
      case True
      have "file_readable (vfs (s\<lparr>vfs := fs2\<rparr>)) file" using rd(2) by simp
      from load_phdr_total [OF this, of "phdr_of bs"] obtain ok s1 where
        s1: "load_phdr file (phdr_of bs) (s\<lparr>vfs := fs2\<rparr>) = Inr (ok, s1)" "file_readable (vfs s1) file" by blast
      have "s32_of (ofs + int phdr_size) < 2 ^ 31" by (simp add: s32_of_def)
      from Suc.IH [OF s1(2) this] show ?thesis using len False sk rd(1) True s1 by (cases ok) auto
    qed (use len False sk rd in auto)
  qed
qed auto

text \<open>
  C10: no executable can fail an assertion of the kernel. Whatever bytes a file holds, reading its program
  headers ends, entering every loadable segment or refusing the file, and the file stays
  readable; a segment that passes the checks consists of whole pages of user memory.
\<close>

theorem executables_are_safe:
  assumes "file_readable (vfs s) file"
  shows "(\<exists>ok s'. load_phdrs n file (sint (e_phoff h)) s = Inr (ok, s') \<and> file_readable (vfs s') file)
    \<and> (validate_segment ph len \<longrightarrow> (case segment_bytes ph of (rd, zb) \<Rightarrow>
         4096 dvd unat rd + unat zb \<and> unat (pg_round_down (p_vaddr ph)) + unat rd + unat zb \<le> unat PHYS_BASE))"
proof
  have "sint (e_phoff h) < 2 ^ 31" using sint_lt [of "e_phoff h"] by simp
  then show "\<exists>ok s'. load_phdrs n file (sint (e_phoff h)) s = Inr (ok, s') \<and> file_readable (vfs s') file" by (rule load_phdrs_total [OF assms])
  show "validate_segment ph len \<longrightarrow> (case segment_bytes ph of (rd, zb) \<Rightarrow>
         4096 dvd unat rd + unat zb \<and> unat (pg_round_down (p_vaddr ph)) + unat rd + unat zb \<le> unat PHYS_BASE)"
  proof
    assume v: "validate_segment ph len"
    obtain rd zb where sb: "segment_bytes ph = (rd, zb)" by fastforce
    show "case segment_bytes ph of (rd, zb) \<Rightarrow> 4096 dvd unat rd + unat zb \<and> unat (pg_round_down (p_vaddr ph)) + unat rd + unat zb \<le> unat PHYS_BASE"
      using segment_bytes_spec [OF v sb] sb by (simp add: pg_round_down_unat PHYS_BASE_def)
  qed
qed

theorem executables_are_safe_witness:
  "(\<exists>ok s'. load_phdrs 3 9 0 sample_image = Inr (ok, s')) \<and> (case segment_bytes sample_phdr of (rd, zb) \<Rightarrow>
     unat (pg_round_down (p_vaddr sample_phdr)) + unat rd + unat zb \<le> unat PHYS_BASE)"
proof -
  have c: "vfs sample_image = sample_fs\<lparr>files := (files sample_fs)(9 \<mapsto> \<lparr>f_inode = 8, f_pos = 0, f_deny_write = False, f_dir = None\<rparr>), malloc_cnt := 100\<rparr>"
    by (simp add: sample_image_def sample_proc_simps)
  have "cache_inv (vfs sample_image)"
    using sample_cache(1) unfolding c by (intro malloc_cnt_file(1)) (simp_all add: cache_inv_def bce_ok_def sample_fs_def)
  then have r: "file_readable (vfs sample_image) 9" by (auto simp: file_readable_def c hello_file sample_cache malloc_cnt_file)
  have h: "e_phoff (ehdr_of (replicate 52 0)) = 0" by (simp add: ehdr_of_def word_at_def le_word_def)
  have v: "validate_segment sample_phdr 5" by (simp add: validate_segment_def sample_phdr_def PGMASK_def is_user_vaddr_def PHYS_BASE_def)
  show ?thesis using executables_are_safe [OF r, of 3 "ehdr_of (replicate 52 0)" sample_phdr 5] v h by auto
qed

end
