(* ===== verification/Process_Stack.thy ===== *)
theory Process_Stack
  imports Process_Spec
begin

text \<open>
  The initial stack of a process: the stores of \<open>setup_stack\<close> build the argument vector in the
  top page of user memory and change no other page.
\<close>

section \<open>Stores to a page of a process\<close>

text \<open>Writing to the frame of a page changes this page of this process and nothing else.\<close>

lemma put_page_paging:
  assumes "paging_inv s T" "t \<in> T" "space (mach s) (pagedir s t) u = Some (k, w)" "length ws = 1024"
  shows "paging_inv (put_page k ws s) T" "space (mach (put_page k ws s)) (pagedir s t) = space (mach s) (pagedir s t)"
    "page_at (put_page k ws s) k = ws"
    "t' \<in> T \<Longrightarrow> page_view (put_page k ws s) t' v = (if (t', v) = (t, u) then Some ws else page_view s t' v)"
proof -
  let ?P = "proc_dirs s T" and ?m = "fill_page k ws (mach s)" and ?s = "put_page k ws s"
  have inv: "vm_inv (mach s) ?P" and tb: "tables_inv s T" and fr: "frames_inv s T" and sw: "swap_inv s T"
    using assms(1) by (simp_all add: paging_inv_def)
  have ps: "?s = s\<lparr>mach := ?m\<rparr>" by (simp add: put_page_def fill_page_def)
  from frame_of_page [OF fr assms(2,3)] obtain f where
    f: "f \<in> set (global_frame_list s)" "owner (ftes s f) = t" "fte_vaddr s f = u" "fte_frame s f = k" .
  then have fs: "free_standing s T k" using fr unfolding frames_inv_def fte_ok_def by auto
  then have kf: "k \<notin> footprint (mach s) a" if "a \<in> ?P" for a using that by (simp add: free_standing_def)
  have "mem_ok (mach s)" using inv by (auto simp: vm_inv_def dirs_inv_def)
  then have ok: "mem_ok ?m" using assms(4) by (auto simp: mem_ok_def fill_page_def palloc_inv_def)
  have al: "allocated (phys ?m) = allocated (phys (mach s))" by (simp add: fill_page_def allocated_def)
  have eqs: "mem (phys ?m) q = mem (phys (mach s)) q" if "a \<in> ?P" "q \<in> footprint (mach s) a" for a q
    using kf [OF that(1)] that(2) by (auto simp: fill_page_def)
  have sub: "footprint (mach s) a \<subseteq> allocated (phys ?m)" if "a \<in> ?P" for a
    using inv that unfolding al by (auto simp: vm_inv_def dirs_inv_def pd_inv_def)
  have vi: "vm_inv ?m ?P" by (rule vm_inv_mem(1) [OF inv ok]) (use eqs sub in \<open>simp_all add: fill_page_def\<close>)
  have vf: "footprint ?m a = footprint (mach s) a" "space ?m a = space (mach s) a" if "a \<in> ?P" for a
    by (rule vm_inv_mem(2,3) [OF inv ok]; use eqs sub that in \<open>simp add: fill_page_def\<close>)+
  have sp: "space ?m (pagedir s t') = space (mach s) (pagedir s t')" if "t' \<in> T" for t' using that by (intro vf(2)) (simp add: proc_dirs_def)
  have dd: "proc_dirs ?s T = ?P" by (simp add: proc_dirs_def ps fill_page_def)
  have st: "free_standing s T q \<Longrightarrow> free_standing (s\<lparr>mach := ?m\<rparr>) T q" for q
    using vf(1) al dd ps by (auto simp: free_standing_def fill_page_def)
  have "frames_inv ?s T" unfolding ps by (rule frames_inv_mach [OF fr tb st]) (use sp in \<open>simp_all add: fill_page_def\<close>)
  moreover have "tables_inv ?s T" by (rule tables_inv_cong(1) [OF tb]) (simp_all add: ps fill_page_def)
  moreover have "swap_inv ?s T" using sw sp unfolding swap_inv_def entries_def ps by simp
  ultimately show "paging_inv ?s T" using vi dd unfolding paging_inv_def by (simp add: ps)
  show "space (mach ?s) (pagedir s t) = space (mach s) (pagedir s t)" using sp [OF assms(2)] by (simp add: ps)
  show pk: "page_at ?s k = ws" by (simp add: page_at_def ps fill_page_def)
  show "page_view ?s t' v = (if (t', v) = (t, u) then Some ws else page_view s t' v)" if t': "t' \<in> T"
  proof -
    have other: "page_at ?s q = page_at s q" if q: "space (mach s) (pagedir s t') v = Some (q, w')" "(t', v) \<noteq> (t, u)" for q w'
    proof -
      from frame_of_page [OF fr t' q(1)] obtain g where
        g: "g \<in> set (global_frame_list s)" "owner (ftes s g) = t'" "fte_vaddr s g = v" "fte_frame s g = q" .
      then have "q \<noteq> k" using fr f q(2) unfolding frames_inv_def inj_on_def by metis
      then show ?thesis by (simp add: page_at_def ps fill_page_def)
    qed
    show ?thesis using other sp [OF t'] assms(3) pk by (auto simp: page_view_def ps split: option.split)
  qed
qed

lemma writable_spec:
  assumes "dirs_inv m P" "pd \<in> P" "user_page u" "space m pd u = Some (k, w)"
  shows "pagedir_is_writable pd u m = Inr w" "pagedir_get_page pd u m = Inr k"
proof -
  have u: "is_user_vaddr u" "pg_ofs u = 0" using assms(3) by (simp_all add: user_page_def)
  have pde: "pde_at m pd (pd_no u) \<noteq> 0" using space_no_table assms(4) by fastforce
  have e: "mapping (pte_at m pd u) = Some (k, w)" using assms(3,4) by (simp add: space_def)
  then show "pagedir_is_writable pd u m = Inr w"
    using load_pte [OF assms(1,2) u(1) pde] by (auto simp: pagedir_is_writable_def pte_flag_def mapping_def split: if_splits)
  show "pagedir_get_page pd u m = Inr k" using get_page_spec [OF assms(1,2) u(1)] assms(4) u(2) round_down_page(5) [of u] by simp
qed

definition top_addr :: u32 where
  "top_addr = 0xbffff000"

lemma top_addr_plus:
  assumes "n < 4096"
  shows "pg_round_down (top_addr + word_of_nat n) = top_addr" "unat (pg_ofs (top_addr + word_of_nat n)) = n"
proof -
  have n: "unat (word_of_nat n :: u32) = n" using assms by (simp add: unsigned_of_nat take_bit_nat_eq_self)
  have u: "unat (top_addr + word_of_nat n) = 0xbffff000 + n"
    using assms by (subst unat_add_lem [THEN iffD1]) (simp_all add: top_addr_def n)
  have e: "0xbffff000 + n = n + 4096 * 0xbffff" by simp
  have "(n + 4096 * 0xbffff) div 4096 = 0xbffff" "(n + 4096 * 0xbffff) mod 4096 = n"
    unfolding mod_mult_self2 using assms by simp_all
  then have "(0xbffff000 + n) div 4096 = 0xbffff" "(0xbffff000 + n) mod 4096 = n" unfolding e .
  then show "pg_round_down (top_addr + word_of_nat n) = top_addr" "unat (pg_ofs (top_addr + word_of_nat n)) = n"
    using u by (simp_all add: pg_round_down_of_nat pg_ofs_unat top_addr_def)
qed

text \<open>\<open>top_page T s k bs\<close>: the top page of the running process is mapped writable at \<open>k\<close> and holds \<open>bs\<close>.\<close>

definition top_page :: "nat set \<Rightarrow> proc \<Rightarrow> u32 \<Rightarrow> byte list \<Rightarrow> bool" where
  "top_page T s k bs \<longleftrightarrow> paging_inv (pvm s) T \<and> curr (pvm s) \<in> T \<and> space (mach (pvm s)) (cur_pd s) top_addr = Some (k, True)
     \<and> k \<noteq> 0 \<and> length bs = 4096 \<and> page_at (pvm s) k = words_le 1024 bs"

definition stack_step :: "nat set \<Rightarrow> proc \<Rightarrow> proc \<Rightarrow> bool" where
  "stack_step T s s' \<longleftrightarrow> curr (pvm s') = curr (pvm s) \<and> process_stack s' = process_stack s
     \<and> (\<forall>t\<in>T. \<forall>v. (t, v) \<noteq> (curr (pvm s), top_addr) \<longrightarrow> page_view (pvm s') t v = page_view (pvm s) t v)"

lemma stack_step_trans: "stack_step T s s1 \<Longrightarrow> stack_step T s1 s2 \<Longrightarrow> stack_step T s s2"
  by (simp add: stack_step_def)

lemma user_put_top:
  assumes "top_page T s k bs" "n < 4096"
  shows "\<exists>s'. user_put (top_addr + word_of_nat n) b s = Inr (Done (), s') \<and> top_page T s' k (bs[n := b]) \<and> stack_step T s s'"
proof -
  let ?v = "pvm s" and ?t = "curr (pvm s)" and ?ws = "words_le 1024 (bs[n := b])"
  have tp: "paging_inv ?v T" "?t \<in> T" "space (mach ?v) (pagedir ?v ?t) top_addr = Some (k, True)" "k \<noteq> 0" "length bs = 4096"
      "page_at ?v k = words_le 1024 bs" using assms(1) by (simp_all add: top_page_def cur_pd_def)
  have d: "dirs_inv (mach ?v) (proc_dirs ?v T)" "pagedir ?v ?t \<in> proc_dirs ?v T"
    using tp(1,2) by (auto simp: paging_inv_def vm_inv_def proc_dirs_def)
  have up: "user_page top_addr" by (simp add: user_page_def top_addr_def pg_ofs_def PGMASK_def is_user_vaddr_def PHYS_BASE_def)
  note w = writable_spec [OF d up tp(3)]
  have "le_words (page_at ?v k) = bs" using tp(5,6) by (simp add: le_words_words_le)
  then have "user_put (top_addr + word_of_nat n) b s = Inr (Done (), s\<lparr>pvm := put_page k ?ws ?v\<rparr>)"
    using w tp(4) top_addr_plus [OF assms(2)] by (simp add: user_put_def cur_pd_def Let_def)
  moreover note pp = put_page_paging [OF tp(1-3), of ?ws]
  have "top_page T (s\<lparr>pvm := put_page k ?ws ?v\<rparr>) k (bs[n := b])"
    using pp(1-3) tp by (simp add: top_page_def cur_pd_def) (simp add: put_page_def)
  moreover have "stack_step T s (s\<lparr>pvm := put_page k ?ws ?v\<rparr>)"
    using pp(4) by (simp add: stack_step_def) (simp add: put_page_def)
  ultimately show ?thesis by blast
qed

lemma user_puts_top:
  assumes "top_page T s k bs" "n + length cs \<le> 4096"
  shows "\<exists>s'. user_puts (top_addr + word_of_nat n) cs s = Inr (Done (), s') \<and> top_page T s' k (overwrite bs n cs) \<and> stack_step T s s'"
  using assms
proof (induction cs arbitrary: s bs n)
  case Nil
  then show ?case by (simp add: pret_def stack_step_def)
next
  case (Cons c cs)
  then have n: "n < 4096" "length bs = 4096" by (simp_all add: top_page_def)
  from user_put_top [OF Cons.prems(1) n(1), of c] obtain s1 where
    s1: "user_put (top_addr + word_of_nat n) c s = Inr (Done (), s1)" "top_page T s1 k (bs[n := c])" "stack_step T s s1" by blast
  have "Suc n + length cs \<le> 4096" using Cons.prems(2) by simp
  from Cons.IH [OF s1(2) this] obtain s2 where
    s2: "user_puts (top_addr + word_of_nat (Suc n)) cs s1 = Inr (Done (), s2)" "top_page T s2 k (overwrite (bs[n := c]) (Suc n) cs)"
      "stack_step T s1 s2" by blast
  have "overwrite (bs[n := c]) (Suc n) cs = overwrite bs n (c # cs)"
    using n Cons.prems(2) by (intro nth_equalityI) (auto simp: nth_overwrite nth_list_update nth_Cons')
  moreover have "top_addr + word_of_nat n + 1 = top_addr + word_of_nat (Suc n)" by (simp add: algebra_simps)
  then have "user_puts (top_addr + word_of_nat n) (c # cs) s = Inr (Done (), s2)" using s1(1) s2(1) by (simp only: user_puts.simps) (simp add: pbind_def)
  ultimately show ?case using s2(2) stack_step_trans [OF s1(3) s2(3)] by auto
qed

section \<open>The argument vector\<close>

lemma overwrite_commute:
  assumes "i + length xs \<le> j" "j + length ys \<le> length bs"
  shows "overwrite (overwrite bs j ys) i xs = overwrite (overwrite bs i xs) j ys"
  using assms by (intro nth_equalityI) (auto simp: nth_overwrite)

fun arg_addrs :: "nat \<Rightarrow> byte list list \<Rightarrow> u32 list" where
  "arg_addrs n [] = []"
| "arg_addrs n (t # ts) = (top_addr + word_of_nat n) # arg_addrs (n + length t + 1) ts"

definition arg_strings :: "byte list list \<Rightarrow> byte list" where
  "arg_strings toks = concat (map (\<lambda>t. t @ [0]) toks)"

lemma length_arg_addrs [simp]: "length (arg_addrs n toks) = length toks"
  by (induction toks arbitrary: n) auto

lemma arg_strings_Cons [simp]: "arg_strings (t # ts) = t @ 0 # arg_strings ts"
  by (simp add: arg_strings_def)

lemma arg_strings_Nil [simp]: "arg_strings [] = []"
  by (simp add: arg_strings_def)

lemma arg_length_strings: "arg_length toks = 1 + length (arg_strings toks)"
  by (induction toks) (simp_all add: arg_length_def)

lemma put_args_top:
  assumes "top_page T s k bs" "4 * length toks \<le> m" "n + m + length (arg_strings toks) \<le> 4096"
  shows "\<exists>s'. put_args (top_addr + word_of_nat n) (word_of_nat m) toks s = Inr (Done (top_addr + word_of_nat (n + 4 * length toks)), s')
    \<and> top_page T s' k (overwrite (overwrite bs n (le_words (arg_addrs (n + m) toks))) (n + m) (arg_strings toks)) \<and> stack_step T s s'"
  using assms
proof (induction toks arbitrary: s bs n m)
  case Nil
  then show ?case by (simp add: pret_def stack_step_def)
next
  case (Cons t ts)
  let ?a = "top_addr + word_of_nat (n + m) :: u32" and ?m = "m - 4 + (length t + 1)"
  have len: "length bs = 4096" using Cons.prems(1) by (simp add: top_page_def)
  have b: "4 \<le> m" "4 * length ts \<le> m - 4" "n + m + length t + 1 + length (arg_strings ts) \<le> 4096" using Cons.prems(2,3) by simp_all
  from user_puts_top [OF Cons.prems(1), of n "le_bytes ?a"] b obtain s1 where
    s1: "user_puts (top_addr + word_of_nat n) (le_bytes ?a) s = Inr (Done (), s1)" "top_page T s1 k (overwrite bs n (le_bytes ?a))" "stack_step T s s1"
    by auto
  from user_puts_top [OF s1(2), of "n + m" "t @ [0]"] b obtain s2 where
    s2: "user_puts ?a (t @ [0]) s1 = Inr (Done (), s2)" "top_page T s2 k (overwrite (overwrite bs n (le_bytes ?a)) (n + m) (t @ [0]))" "stack_step T s1 s2"
    by auto
  have "4 * length ts \<le> ?m" "n + 4 + ?m + length (arg_strings ts) \<le> 4096" using b by simp_all
  from Cons.IH [OF s2(2) this] obtain s3 where
    s3: "put_args (top_addr + word_of_nat (n + 4)) (word_of_nat ?m) ts s2 = Inr (Done (top_addr + word_of_nat (n + 4 + 4 * length ts)), s3)"
      "top_page T s3 k (overwrite (overwrite (overwrite (overwrite bs n (le_bytes ?a)) (n + m) (t @ [0])) (n + 4) (le_words (arg_addrs (n + 4 + ?m) ts)))
         (n + 4 + ?m) (arg_strings ts))" "stack_step T s2 s3"
    by blast
  have nm: "n + 4 + ?m = n + m + length (t @ [0])" using b(1) by simp
  have w: "word_of_nat m - 4 + word_of_nat (length t + 1) = (word_of_nat ?m :: u32)"
    using b(1) by (simp add: of_nat_diff)
  have eqs: "top_addr + word_of_nat n + word_of_nat m = ?a" "top_addr + word_of_nat n + 4 = top_addr + word_of_nat (n + 4)"
      "n + 4 * length (t # ts) = n + 4 + 4 * length ts" by simp_all
  have "put_args (top_addr + word_of_nat n) (word_of_nat m) (t # ts) s = Inr (Done (top_addr + word_of_nat (n + 4 * length (t # ts))), s3)"
    unfolding put_args.simps user_put_word_def w eqs by (simp only: pbind_def s1(1) s2(1) s3(1) rbind_Inr prod.case run.case)
  moreover have "overwrite (overwrite (overwrite (overwrite bs n (le_bytes ?a)) (n + m) (t @ [0])) (n + 4) (le_words (arg_addrs (n + 4 + ?m) ts))) (n + 4 + ?m) (arg_strings ts)
      = overwrite (overwrite bs n (le_words (arg_addrs (n + m) (t # ts)))) (n + m) (arg_strings (t # ts))"
    unfolding nm using b len
      overwrite_commute [of "n + 4" "le_words (arg_addrs (n + m + length (t @ [0])) ts)" "n + m" "t @ [0]" "overwrite bs n (le_bytes ?a)"]
      overwrite_append [of n "le_bytes ?a" "le_words (arg_addrs (n + m + length (t @ [0])) ts)" bs]
      overwrite_append [of "n + m" "t @ [0]" "arg_strings ts" "overwrite bs n (le_bytes ?a @ le_words (arg_addrs (n + m + length (t @ [0])) ts))"]
    by (simp add: add.assoc)
  ultimately show ?case using s3(2) stack_step_trans [OF stack_step_trans [OF s1(3) s2(3)] s3(3)] by auto
qed

text \<open>
  The words and bytes the stack ends in: a return address, \<open>argc\<close>, \<open>argv\<close>, the vector with its null
  pointer, a null byte and the strings.
\<close>

definition stack_size :: "byte list list \<Rightarrow> nat" where
  "stack_size toks = arg_length toks + 12 + (length toks + 1) * 4"

definition stack_image :: "byte list list \<Rightarrow> byte list" where
  "stack_image toks =
     (let n = 4096 - stack_size toks; argc = length toks
      in le_words (0 # word_of_nat argc # (top_addr + word_of_nat (n + 12)) # arg_addrs (n + 12 + 4 * (argc + 1) + 1) toks @ [0]) @ 0 # arg_strings toks)"

lemma le_words_append: "le_words (xs @ ys) = le_words xs @ le_words ys"
  by (induction xs) simp_all

lemma length_stack_image: "length (stack_image toks) = stack_size toks"
  by (simp add: stack_image_def stack_size_def Let_def arg_length_strings)

lemma build_stack_image:
  assumes "top_page T s k (replicate 4096 0)" "stack_size toks \<le> 4096"
  defines "n \<equiv> 4096 - stack_size toks"
  shows "\<exists>s'. build_stack toks s = Inr (Done (top_addr + word_of_nat n), s') \<and> process_stack s' = top_addr + word_of_nat n
    \<and> top_page T s' k (replicate n 0 @ stack_image toks) \<and> curr (pvm s') = curr (pvm s)
    \<and> (\<forall>t\<in>T. \<forall>v. (t, v) \<noteq> (curr (pvm s), top_addr) \<longrightarrow> page_view (pvm s') t v = page_view (pvm s) t v)"
proof -
  let ?argc = "length toks" and ?esp = "top_addr + word_of_nat n :: u32"
  let ?m = "4 * (?argc + 1) + 1" and ?S = "arg_strings toks"
  have sz: "n + 12 + ?m + length ?S = 4096" using assms(2) by (simp add: n_def stack_size_def arg_length_strings)
  have esp: "PHYS_BASE - word_of_nat (arg_length toks + 12 + (?argc + 1) * 4) = ?esp"
  proof -
    have "(word_of_nat (stack_size toks) :: u32) = 4096 - word_of_nat n" using assms(2) by (simp add: n_def of_nat_diff)
    then show ?thesis unfolding stack_size_def [symmetric] by (simp add: PHYS_BASE_def top_addr_def)
  qed
  let ?b0 = "replicate 4096 (0 :: byte)" and ?A = "arg_addrs (n + 12 + ?m) toks"
  define s0 where "s0 = s\<lparr>process_stack := ?esp\<rparr>"
  have t0: "top_page T s0 k ?b0" using assms(1) by (simp add: top_page_def s0_def cur_pd_def)
  from user_puts_top [OF t0, of n "le_bytes 0"] sz obtain s1 where
    s1: "user_puts ?esp (le_bytes 0) s0 = Inr (Done (), s1)" "top_page T s1 k (overwrite ?b0 n (le_bytes 0))" "stack_step T s0 s1" by auto
  from user_puts_top [OF s1(2), of "n + 4" "le_bytes (word_of_nat ?argc)"] sz obtain s2 where
    s2: "user_puts (?esp + 4) (le_bytes (word_of_nat ?argc)) s1 = Inr (Done (), s2)"
      "top_page T s2 k (overwrite ?b0 n (le_bytes 0 @ le_bytes (word_of_nat ?argc)))" "stack_step T s1 s2"
    using overwrite_append [of n "le_bytes 0" "le_bytes (word_of_nat ?argc)" ?b0] by (auto simp: algebra_simps)
  from user_puts_top [OF s2(2), of "n + 8" "le_bytes (?esp + 12)"] sz obtain s3 where
    s3: "user_puts (?esp + 8) (le_bytes (?esp + 12)) s2 = Inr (Done (), s3)"
      "top_page T s3 k (overwrite ?b0 n (le_words [0, word_of_nat ?argc, ?esp + 12]))" "stack_step T s2 s3"
    using overwrite_append [of n "le_bytes 0 @ le_bytes (word_of_nat ?argc)" "le_bytes (?esp + 12)" ?b0] by (auto simp: algebra_simps)
  let ?W = "le_words [0, word_of_nat ?argc, ?esp + 12] @ le_words ?A"
  have ow4: "overwrite (overwrite ?b0 n (le_words [0, word_of_nat ?argc, ?esp + 12])) (n + 12) (le_words ?A) = overwrite ?b0 n ?W"
    using overwrite_append [of n "le_words [0, word_of_nat ?argc, ?esp + 12]" "le_words ?A" ?b0] sz by (simp del: le_words.simps)
  from put_args_top [OF s3(2), of toks ?m "n + 12"] sz ow4 obtain s4 where
    s4: "put_args (top_addr + word_of_nat (n + 12)) (word_of_nat ?m) toks s3 = Inr (Done (top_addr + word_of_nat (n + 12 + 4 * ?argc)), s4)"
      "top_page T s4 k (overwrite (overwrite ?b0 n ?W) (n + 12 + ?m) ?S)" "stack_step T s3 s4" by auto
  have lW: "length ?W = 12 + 4 * ?argc" by simp
  have ow5: "overwrite (overwrite (overwrite ?b0 n ?W) (n + 12 + ?m) ?S) (n + length ?W) (le_bytes 0)
      = overwrite (overwrite ?b0 n (?W @ le_bytes 0)) (n + 12 + ?m) ?S"
    using overwrite_commute [of "n + length ?W" "le_bytes 0" "n + 12 + ?m" ?S "overwrite ?b0 n ?W"] overwrite_append [of n ?W "le_bytes 0" ?b0] sz
    unfolding lW by (simp del: le_words.simps)
  from user_puts_top [OF s4(2), of "n + length ?W" "le_bytes 0"] sz ow5 obtain s5 where
    s5: "user_puts (top_addr + word_of_nat (n + 12 + 4 * ?argc)) (le_bytes 0) s4 = Inr (Done (), s5)"
      "top_page T s5 k (overwrite (overwrite ?b0 n (?W @ le_bytes 0)) (n + 12 + ?m) ?S)" "stack_step T s4 s5"
    unfolding lW by (auto simp del: le_words.simps simp: add.assoc)
  let ?i = "n + length (?W @ le_bytes 0)"
  have i: "?i = n + 12 + 4 * ?argc + 4" "?i < 4096" using sz by simp_all
  have ow6: "(overwrite (overwrite ?b0 n (?W @ le_bytes 0)) (n + 12 + ?m) ?S)[?i := 0] = replicate n 0 @ stack_image toks"
  proof -
    let ?X = "overwrite (overwrite ?b0 n (?W @ le_bytes 0)) (n + 12 + ?m) ?S"
    have "length ?X = 4096" using sz by simp
    then have "?X[?i := 0] = overwrite ?X ?i [0]" using i(2) by (simp add: overwrite_def upd_conv_take_nth_drop del: le_words.simps)
    also have "\<dots> = overwrite (overwrite ?b0 n (?W @ le_bytes 0 @ [0])) (n + 12 + ?m) ?S"
      using overwrite_commute [of ?i "[0]" "n + 12 + ?m" ?S "overwrite ?b0 n (?W @ le_bytes 0)"] overwrite_append [of n "?W @ le_bytes 0" "[0]" ?b0] sz i
      by (simp del: le_words.simps)
    also have "\<dots> = overwrite ?b0 n ((?W @ le_bytes 0 @ [0]) @ ?S)"
    proof -
      have "n + length (?W @ le_bytes 0 @ [0]) = n + 12 + ?m" by simp
      then show ?thesis using overwrite_append [of n "?W @ le_bytes 0 @ [0]" ?S ?b0] sz by (simp only: length_replicate)
    qed
    also have "(?W @ le_bytes 0 @ [0]) @ ?S = stack_image toks"
      by (simp add: stack_image_def Let_def n_def [symmetric] le_words_append algebra_simps)
    also have "overwrite ?b0 n (stack_image toks) = replicate n 0 @ stack_image toks"
      using assms(2) by (simp add: overwrite_def n_def length_stack_image)
    finally show ?thesis .
  qed
  from user_put_top [OF s5(2) i(2), of 0] ow6 obtain s6 where
    s6: "user_put (top_addr + word_of_nat ?i) 0 s5 = Inr (Done (), s6)" "top_page T s6 k (replicate n 0 @ stack_image toks)" "stack_step T s5 s6"
    by auto
  have "build_stack toks s = Inr (Done ?esp, s6)"
  proof -
    have e: "top_addr + word_of_nat (n + 12) = ?esp + 12" "top_addr + word_of_nat ?i = top_addr + word_of_nat (n + 12 + 4 * ?argc) + 4"
      unfolding i(1) by simp_all
    show ?thesis unfolding build_stack_def Let_def esp user_put_word_def
      by (simp only: pbind_def pupd_def pret_def s0_def [symmetric] s1(1) s2(1) s3(1) s4(1) [unfolded e(1)] s5(1) s6(1) [unfolded e(2)]
            rbind_Inr prod.case run.case)
  qed
  moreover have "stack_step T s0 s6" using s1(3) s2(3) s3(3) s4(3) s5(3) s6(3) by (meson stack_step_trans)
  ultimately show ?thesis using s6(2) by (intro exI [of _ s6]) (simp add: stack_step_def s0_def)
qed

lemma word_at_words: "i < length ws \<Longrightarrow> word_at (pre @ le_words ws @ post) (length pre + 4 * i) = ws ! i"
proof (induction ws arbitrary: pre i)
  case (Cons w ws)
  show ?case
  proof (cases i)
    case 0
    then show ?thesis by (simp add: word_at_def)
  next
    case (Suc j)
    then show ?thesis using Cons.IH [of j "pre @ le_bytes w"] Cons.prems by (simp add: algebra_simps)
  qed
qed simp

lemma arg_strings_nth:
  assumes "i < length toks"
  shows "\<exists>q. arg_addrs n toks ! i = top_addr + word_of_nat (n + q) \<and> take (length (toks ! i) + 1) (drop q (arg_strings toks)) = toks ! i @ [0]"
  using assms
proof (induction toks arbitrary: n i)
  case (Cons t ts)
  show ?case
  proof (cases i)
    case 0
    then show ?thesis by (intro exI [of _ 0]) simp
  next
    case (Suc j)
    with Cons obtain q where "arg_addrs (n + length t + 1) ts ! j = top_addr + word_of_nat (n + length t + 1 + q)"
        "take (length (ts ! j) + 1) (drop q (arg_strings ts)) = ts ! j @ [0]" by fastforce
    then show ?thesis using Suc by (intro exI [of _ "length t + 1 + q"]) (simp add: algebra_simps)
  qed
qed simp

text \<open>The image read back as a program reads it.\<close>

lemma stack_image_args:
  assumes "stack_size toks \<le> 4096"
  defines "n \<equiv> 4096 - stack_size toks" and "bs \<equiv> replicate (4096 - stack_size toks) 0 @ stack_image toks"
  shows "word_at bs n = 0" "word_at bs (n + 4) = word_of_nat (length toks)" "word_at bs (n + 8) = top_addr + word_of_nat (n + 12)"
    "i < length toks \<Longrightarrow> \<exists>q. word_at bs (n + 12 + 4 * i) = top_addr + word_of_nat q \<and> take (length (toks ! i) + 1) (drop q bs) = toks ! i @ [0]"
    "word_at bs (n + 12 + 4 * length toks) = 0"
proof -
  let ?A = "arg_addrs (n + 12 + 4 * (length toks + 1) + 1) toks"
  let ?ws = "0 # word_of_nat (length toks) # (top_addr + word_of_nat (n + 12)) # ?A @ [0]"
  have bs: "bs = replicate n 0 @ le_words ?ws @ 0 # arg_strings toks" by (simp add: bs_def n_def stack_image_def Let_def)
  have wa: "word_at bs (n + 4 * i) = ?ws ! i" if "i < length toks + 4" for i
    using word_at_words [of i ?ws "replicate n 0" "0 # arg_strings toks"] that by (simp add: bs del: le_words.simps)
  show "word_at bs n = 0" "word_at bs (n + 4) = word_of_nat (length toks)" "word_at bs (n + 8) = top_addr + word_of_nat (n + 12)"
    using wa [of 0] wa [of 1] wa [of 2] by (simp_all add: numeral_2_eq_2)
  have a3: "n + 12 + 4 * i = n + 4 * (i + 3)" for i by simp
  show "word_at bs (n + 12 + 4 * length toks) = 0" unfolding a3 using wa [of "length toks + 3"] by (simp add: nth_append numeral_3_eq_3)
  show "\<exists>q. word_at bs (n + 12 + 4 * i) = top_addr + word_of_nat q \<and> take (length (toks ! i) + 1) (drop q bs) = toks ! i @ [0]" if i: "i < length toks"
  proof -
    from arg_strings_nth [OF i] obtain q where
      q: "?A ! i = top_addr + word_of_nat (n + 12 + 4 * (length toks + 1) + 1 + q)" "take (length (toks ! i) + 1) (drop q (arg_strings toks)) = toks ! i @ [0]"
      by blast
    have "word_at bs (n + 12 + 4 * i) = ?A ! i" unfolding a3 using wa [of "i + 3"] i by (simp add: nth_append numeral_3_eq_3)
    moreover have "drop (n + 12 + 4 * (length toks + 1) + 1 + q) bs = drop q (arg_strings toks)" by (simp add: bs)
    ultimately show ?thesis using q by (intro exI [of _ "n + 12 + 4 * (length toks + 1) + 1 + q"]) simp
  qed
qed

text \<open>
  C11: a program finds its arguments. If the argument vector of a command fits into the top page of user
  memory, mapped and zero, the stack pointer ends at a return address of zero followed by the
  number of arguments and a pointer to the vector; the vector points to the null terminated
  arguments in order and ends with a null pointer. No other page of any process changes.
\<close>

theorem stack_holds_arguments:
  assumes "paging_inv (pvm s) T" "curr (pvm s) \<in> T" "space (mach (pvm s)) (cur_pd s) top_addr = Some (k, True)"
    and "page_at (pvm s) k = replicate 1024 0" "stack_size toks \<le> 4096"
  defines "n \<equiv> 4096 - stack_size toks"
  shows "\<exists>s' bs. build_stack toks s = Inr (Done (top_addr + word_of_nat n), s') \<and> process_stack s' = top_addr + word_of_nat n
    \<and> paging_inv (pvm s') T \<and> page_view (pvm s') (curr (pvm s)) top_addr = Some (words_le 1024 bs) \<and> length bs = 4096
    \<and> word_at bs n = 0 \<and> word_at bs (n + 4) = word_of_nat (length toks) \<and> word_at bs (n + 8) = top_addr + word_of_nat (n + 12)
    \<and> (\<forall>i<length toks. \<exists>q. word_at bs (n + 12 + 4 * i) = top_addr + word_of_nat q \<and> take (length (toks ! i) + 1) (drop q bs) = toks ! i @ [0])
    \<and> word_at bs (n + 12 + 4 * length toks) = 0
    \<and> (\<forall>t\<in>T. \<forall>v. (t, v) \<noteq> (curr (pvm s), top_addr) \<longrightarrow> page_view (pvm s') t v = page_view (pvm s) t v)"
proof -
  have fr: "frames_inv (pvm s) T" "palloc_inv (phys (mach (pvm s)))" using assms(1) by (auto simp: paging_inv_def vm_inv_def dirs_inv_def mem_ok_def)
  from frame_of_page [OF fr(1) assms(2) assms(3) [unfolded cur_pd_def]] obtain f where
    "f \<in> set (global_frame_list (pvm s))" "fte_frame (pvm s) f = k" by blast
  then have "k \<in> allocated (phys (mach (pvm s)))" using fr(1) unfolding frames_inv_def fte_ok_def free_standing_def by auto
  then obtain user where "block (get_pool user (phys (mach (pvm s)))) k (Suc 0)" using allocated_block by blast
  then have k: "k \<noteq> 0" using block_nonnull(1) [of "get_pool user (phys (mach (pvm s)))" k "Suc 0"] fr(2) by (auto simp: palloc_inv_def get_pool_def)
  have "words_le 1024 (replicate 4096 0 :: byte list) = replicate 1024 0"
    using words_le_le_words [of "replicate 1024 0" "[]"] le_words_zero [of 1024] by simp
  then have "top_page T s k (replicate 4096 0)" using assms(1-4) k by (simp add: top_page_def)
  from build_stack_image [OF this assms(5), folded n_def] obtain s' where
    s': "build_stack toks s = Inr (Done (top_addr + word_of_nat n), s')" "process_stack s' = top_addr + word_of_nat n"
      "top_page T s' k (replicate n 0 @ stack_image toks)" "curr (pvm s') = curr (pvm s)"
      "\<forall>t\<in>T. \<forall>v. (t, v) \<noteq> (curr (pvm s), top_addr) \<longrightarrow> page_view (pvm s') t v = page_view (pvm s) t v" by blast
  then have "paging_inv (pvm s') T" "page_view (pvm s') (curr (pvm s)) top_addr = Some (words_le 1024 (replicate n 0 @ stack_image toks))"
    "length (replicate n 0 @ stack_image toks) = 4096" by (auto simp: top_page_def page_view_def cur_pd_def)
  then show ?thesis using s'(1,2,5) stack_image_args [OF assms(5), folded n_def]
    by (intro exI [of _ s'] exI [of _ "replicate n 0 @ stack_image toks"]) auto
qed

text \<open>The command \<open>echo x\<close> on the stack of the sample process.\<close>

theorem stack_holds_arguments_witness:
  "\<exists>v s' bs. grow_user_stack 0xbffff123 (sample_proc (sample_fs\<lparr>malloc_cnt := 100\<rparr>) (sample_sp 20)) = Inr (Resume, v)
    \<and> build_stack [[101, 99, 104, 111], [120]] \<lparr>pvm = v, process_stack = 0, exec_file = None, fdtable = [], filenum = 0\<rparr> = Inr (Done 0xbfffffe0, s')
    \<and> page_view (pvm s') 1 top_addr = Some (words_le 1024 bs) \<and> word_at bs (4064 + 4) = 2
    \<and> (\<exists>q. word_at bs (4064 + 16) = top_addr + word_of_nat q \<and> take 2 (drop q bs) = [120, 0])"
proof -
  let ?fs = "sample_fs\<lparr>malloc_cnt := 100\<rparr>" and ?toks = "[[101, 99, 104, 111], [120]] :: byte list list"
  let ?s = "sample_proc ?fs (sample_sp 20)"
  have pr: "pg_round_down 0xbffff123 = top_addr" by (simp add: pg_round_down_def PGMASK_def top_addr_def)
  have "find_entry ?s top_addr = None" using sample_user(2) [of ?fs top_addr] by (fastforce simp: top_addr_def)
  moreover have "mallocs (vfs ?s) n" for n by (simp add: sample_proc_simps) (simp add: sample_fs_def)
  ultimately obtain v k where v: "grow_user_stack 0xbffff123 ?s = Inr (Resume, v)" "paging_inv v {1}" "curr v = 1" "pagedir v 1 = 0xc0101000"
      "space (mach v) 0xc0101000 top_addr = Some (k, True)" "page_view v 1 top_addr = Some (replicate 1024 0)"
    using grow_user_stack_spec [OF sample_user(1), of ?fs "0xbffff123"] sample_user(3,4) sample_proc_room
    by (auto simp: pr sample_proc_simps is_user_vaddr_def PHYS_BASE_def)
  let ?p = "\<lparr>pvm = v, process_stack = 0, exec_file = None, fdtable = [], filenum = 0\<rparr>"
  have pk: "page_at v k = replicate 1024 0" using v(4-6) by (simp add: page_view_def)
  have sz: "stack_size ?toks = 32" by (simp add: stack_size_def arg_length_def)
  have "space (mach (pvm ?p)) (cur_pd ?p) top_addr = Some (k, True)" using v(3-5) by (simp add: cur_pd_def)
  from stack_holds_arguments [of ?p "{1}" k ?toks, OF _ _ this] obtain s' bs where
    s: "build_stack ?toks ?p = Inr (Done (top_addr + word_of_nat 4064), s')" "page_view (pvm s') 1 top_addr = Some (words_le 1024 bs)"
      "word_at bs (4064 + 4) = word_of_nat 2"
      "\<forall>i<2. \<exists>q. word_at bs (4064 + 12 + 4 * i) = top_addr + word_of_nat q \<and> take (length (?toks ! i) + 1) (drop q bs) = ?toks ! i @ [0]"
    using v(2,3) pk unfolding sz by (auto simp: numeral_2_eq_2)
  have "top_addr + word_of_nat 4064 = 0xbfffffe0" by (simp add: top_addr_def)
  then show ?thesis using v(1) s(1-3) s(4) [rule_format, of 1] by (intro exI [of _ v] exI [of _ s'] exI [of _ bs]) (simp add: numeral_2_eq_2)
qed

end
