(* ===== verification/Process_Sync.thy ===== *)
theory Process_Sync
  imports Prelude
begin

text \<open>
  The handshake of a process and its child (\<open>process_execute\<close>, \<open>start_process\<close>, \<open>process_wait\<close> and
  \<open>process_exit\<close> of \<open>src/userprog/process.c\<close>). The two threads meet at the semaphores of the
  child's \<open>struct thread\<close>; they may be interrupted between any two steps, so the behaviours of
  the pair are the interleavings of the steps of both.

  A step is one semaphore operation or one access to a member of the child. A step of a thread whose
  semaphore is zero is not possible. What the child does between its start and its end, the
  outcome of \<open>load\<close> and the status the program exits with, is an argument of its steps. The
  states of a thread are the places in the code it has reached. Between the steps the parent also hands
  its directory to the child and allows writes to the executable, which concern no other step.

  A load that faults in the kernel ends the thread inside \<open>load\<close> (\<open>Load_killed\<close>): for instance when the arguments do
  not fit into the first page of the stack, the first store of \<open>setup_stack\<close> is at the saved stack
  pointer and \<open>page_fault\<close> calls \<open>thread_exit\<close>. A child whose program is named \<open>main\<close> takes the
  branch of \<open>process_exit\<close> for the initial thread: it does not wait for its parent and stays
  in its list. The page of a child that has ended is freed and filled with other bytes; a parent that uses it
  afterwards is in the state \<open>Stray\<close>, of which nothing is known any more: what it reads and whether it is woken depends on
  what has become of the page.
\<close>

section \<open>State\<close>

datatype parent_pc = E_down | E_read | E_up bool | E_fail | Idle
  | W_find | W_down | W_check | W_status | W_up int | W_jin int | W_clear int | Stray

datatype child_pc = S_load | S_up | S_down | S_test | Running | X_exitsem | X_waitsem | X_diesem | X_unlink | X_jinsem
  | X_close | Dying | Freed

datatype load_outcome = Loaded | Load_failed bool | Load_killed

record sync =
  parent :: parent_pc
  child :: child_pc
  child_tid :: int
  child_name :: string
  children :: "int list"
  loadsem :: nat
  loadsuccesssem :: nat
  exitsem :: nat
  waitsem :: nat
  diesem :: nat
  jinsem :: nat
  loadsuccess :: bool
  has_pagedir :: bool
  wait_flag :: bool
  return_status :: int
  exec_answer :: "int option"
  wait_answers :: "int list"

definition find_child :: "int list \<Rightarrow> int \<Rightarrow> int option" where
  "find_child templist giventid = (if templist = [] then None else find (\<lambda>t. t = giventid) templist)"

text \<open>The state in which \<open>thread_create\<close> returned: the child is in the list of its parent.\<close>

definition created :: "string \<Rightarrow> int \<Rightarrow> int list \<Rightarrow> sync" where
  "created name tid others = \<lparr>parent = E_down, child = S_load, child_tid = tid, child_name = name, children = others @ [tid], loadsem = 0, loadsuccesssem = 0,
     exitsem = 0, waitsem = 0, diesem = 0, jinsem = 0, loadsuccess = True, has_pagedir = False, wait_flag = False, return_status = 0,
     exec_answer = None, wait_answers = []\<rparr>"

section \<open>Steps\<close>

text \<open>\<open>strcmp(curr->name, "main") == 0\<close>.\<close>

definition is_main :: "sync \<Rightarrow> bool" where
  "is_main s \<longleftrightarrow> child_name s = ''main''"

definition exec_return :: "int \<Rightarrow> sync \<Rightarrow> sync" where
  "exec_return v s = s\<lparr>parent := Idle, exec_answer := Some v\<rparr>"

definition wait_return :: "int \<Rightarrow> sync \<Rightarrow> sync" where
  "wait_return v s = s\<lparr>parent := Idle, wait_answers := wait_answers s @ [v]\<rparr>"

text \<open>The code of the parent on a child that is still there.\<close>

definition execute_live :: "sync \<Rightarrow> sync option" where
  "execute_live s =
     (case parent s of
        E_down \<Rightarrow> if loadsem s = 0 then None else Some (s\<lparr>loadsem := loadsem s - 1, parent := E_read\<rparr>)
      | E_read \<Rightarrow> Some (s\<lparr>parent := E_up (loadsuccess s)\<rparr>)
      | E_up ok \<Rightarrow>
          let s1 = s\<lparr>loadsuccesssem := loadsuccesssem s + 1\<rparr>
          in Some (if ok then exec_return (child_tid s) s1 else s1\<lparr>parent := E_fail\<rparr>)
      | E_fail \<Rightarrow> if exitsem s = 0 then None else Some (exec_return (- 1) (s\<lparr>exitsem := exitsem s - 1\<rparr>))
      | _ \<Rightarrow> None)"

definition wait_live :: "sync \<Rightarrow> sync option" where
  "wait_live s =
     (case parent s of
        W_find \<Rightarrow> Some (case find_child (children s) (child_tid s) of None \<Rightarrow> wait_return (- 1) s | Some _ \<Rightarrow> s\<lparr>parent := W_down\<rparr>)
      | W_down \<Rightarrow> if waitsem s = 0 then None else Some (s\<lparr>waitsem := waitsem s - 1, parent := W_check\<rparr>)
      | W_check \<Rightarrow> Some (if wait_flag s then wait_return (- 1) s else s\<lparr>wait_flag := True, parent := W_status\<rparr>)
      | W_status \<Rightarrow> Some (s\<lparr>parent := W_up (return_status s)\<rparr>)
      | W_up st \<Rightarrow> Some (s\<lparr>diesem := diesem s + 1, parent := W_jin st\<rparr>)
      | W_jin st \<Rightarrow> if jinsem s = 0 then None else Some (s\<lparr>jinsem := jinsem s - 1, parent := W_clear st\<rparr>)
      | W_clear st \<Rightarrow> Some (wait_return st (s\<lparr>wait_flag := False\<rparr>))
      | _ \<Rightarrow> None)"

text \<open>
  Every step of the two calls uses the child, but for a search of the list the child has left. On a child that is freed
  such a step leads astray.
\<close>

definition stray :: "sync \<Rightarrow> sync" where
  "stray s = s\<lparr>parent := Stray\<rparr>"

definition execute_step :: "sync \<Rightarrow> sync option" where
  "execute_step s =
     (if child s = Freed \<and> (case parent s of E_down \<Rightarrow> True | E_read \<Rightarrow> True | E_up _ \<Rightarrow> True | E_fail \<Rightarrow> True | _ \<Rightarrow> False)
      then Some (stray s) else execute_live s)"

definition wait_step :: "sync \<Rightarrow> sync option" where
  "wait_step s =
     (if child s = Freed \<and> (case parent s of W_find \<Rightarrow> child_tid s \<in> set (children s) | W_down \<Rightarrow> True | W_check \<Rightarrow> True | W_status \<Rightarrow> True
          | W_up _ \<Rightarrow> True | W_jin _ \<Rightarrow> True | W_clear _ \<Rightarrow> True | _ \<Rightarrow> False)
      then Some (stray s) else wait_live s)"

text \<open>
  A load that succeeds has made a page directory; one that fails may have failed before that. A load that is killed
  leaves through \<open>thread_exit\<close>.
\<close>

definition start_step :: "load_outcome \<Rightarrow> sync \<Rightarrow> sync option" where
  "start_step outcome s =
     (case child s of
        S_load \<Rightarrow> Some (case outcome of
            Loaded \<Rightarrow> s\<lparr>loadsuccess := True, has_pagedir := True, child := S_up\<rparr>
          | Load_failed pd \<Rightarrow> s\<lparr>loadsuccess := False, has_pagedir := pd, child := S_up\<rparr>
          | Load_killed \<Rightarrow> s\<lparr>return_status := - 1, has_pagedir := True, child := X_exitsem\<rparr>)
      | S_up \<Rightarrow> Some (s\<lparr>loadsem := loadsem s + 1, child := S_down\<rparr>)
      | S_down \<Rightarrow> if loadsuccesssem s = 0 then None else Some (s\<lparr>loadsuccesssem := loadsuccesssem s - 1, child := S_test\<rparr>)
      | S_test \<Rightarrow> Some (if loadsuccess s then s\<lparr>child := Running\<rparr> else s\<lparr>return_status := - 1, child := X_exitsem\<rparr>)
      | _ \<Rightarrow> None)"

text \<open>
  The end of the child. The members of its \<open>struct thread\<close> change only as long as it runs.
\<close>

definition exit_step :: "int \<Rightarrow> sync \<Rightarrow> sync option" where
  "exit_step status s =
     (case child s of
        Running \<Rightarrow> Some (s\<lparr>return_status := status, child := X_exitsem\<rparr>)
      | X_exitsem \<Rightarrow> Some (s\<lparr>exitsem := exitsem s + of_bool (has_pagedir s), child := X_waitsem\<rparr>)
      | X_waitsem \<Rightarrow> Some (s\<lparr>waitsem := waitsem s + 1, child := (if is_main s then X_close else X_diesem)\<rparr>)
      | X_diesem \<Rightarrow> if diesem s = 0 then None else Some (s\<lparr>diesem := diesem s - 1, child := X_unlink\<rparr>)
      | X_unlink \<Rightarrow> Some (s\<lparr>children := remove1 (child_tid s) (children s), child := X_jinsem\<rparr>)
      | X_jinsem \<Rightarrow> Some (s\<lparr>jinsem := jinsem s + 1, child := X_close\<rparr>)
      | X_close \<Rightarrow> Some (s\<lparr>child := Dying\<rparr>)
      | Dying \<Rightarrow> Some (s\<lparr>child := Freed\<rparr>)
      | _ \<Rightarrow> None)"

text \<open>
  The runs: inside the calls any thread that can step may do so; between calls the parent may
  call \<open>process_wait\<close> for the child, any number of times or never.
\<close>

inductive sync_step :: "sync \<Rightarrow> sync \<Rightarrow> bool" where
  execute: "execute_step s = Some s' \<Longrightarrow> sync_step s s'"
| wait: "wait_step s = Some s' \<Longrightarrow> sync_step s s'"
| start: "start_step outcome s = Some s' \<Longrightarrow> sync_step s s'"
| exit: "exit_step status s = Some s' \<Longrightarrow> sync_step s s'"

inductive sync_run :: "sync \<Rightarrow> sync \<Rightarrow> bool" where
  begin_run: "sync_run s s"
| step: "sync_run s s1 \<Longrightarrow> sync_step s1 s2 \<Longrightarrow> sync_run s s2"
| call_wait: "sync_run s s1 \<Longrightarrow> parent s1 = Idle \<Longrightarrow> sync_run s (s1\<lparr>parent := W_find\<rparr>)"

section \<open>Invariant\<close>

text \<open>How far the child is, and how far the parent is in the one wait that succeeds.\<close>

fun rank :: "child_pc \<Rightarrow> nat" where
  "rank S_load = 0"
| "rank S_up = 1"
| "rank S_down = 2"
| "rank S_test = 3"
| "rank Running = 4"
| "rank X_exitsem = 5"
| "rank X_waitsem = 6"
| "rank X_diesem = 7"
| "rank X_unlink = 8"
| "rank X_jinsem = 9"
| "rank X_close = 10"
| "rank Dying = 11"
| "rank Freed = 12"

fun wait_stage :: "parent_pc \<Rightarrow> nat" where
  "wait_stage W_check = 1"
| "wait_stage W_status = 2"
| "wait_stage (W_up _) = 3"
| "wait_stage (W_jin _) = 4"
| "wait_stage (W_clear _) = 5"
| "wait_stage _ = 0"

fun exec_stage :: "parent_pc \<Rightarrow> nat" where
  "exec_stage E_down = 0"
| "exec_stage E_read = 1"
| "exec_stage (E_up _) = 2"
| "exec_stage E_fail = 3"
| "exec_stage _ = 4"

fun seen_status :: "parent_pc \<Rightarrow> int \<Rightarrow> bool" where
  "seen_status (W_up st) v = (v = st)"
| "seen_status (W_jin st) v = (v = st)"
| "seen_status (W_clear st) v = (v = st)"
| "seen_status _ v = True"

definition stage :: "sync \<Rightarrow> nat" where
  "stage s = (if wait_answers s \<noteq> [] then 6 else wait_stage (parent s))"

text \<open>
  The phases of the two handshakes: how far the threads are, with the values of the semaphores there.
\<close>

inductive load_phase :: "nat \<Rightarrow> nat \<Rightarrow> nat \<Rightarrow> nat \<Rightarrow> bool" where
  loading: "r \<le> 1 \<Longrightarrow> load_phase 0 r 0 0"
| loaded: "load_phase 0 2 1 0"
| reading: "1 \<le> e \<Longrightarrow> e \<le> 2 \<Longrightarrow> load_phase e 2 0 0"
| read_done: "3 \<le> e \<Longrightarrow> load_phase e 2 0 1"
| started: "3 \<le> e \<Longrightarrow> 3 \<le> r \<Longrightarrow> load_phase e r 0 0"
| killed: "5 \<le> r \<Longrightarrow> load_phase 0 r 0 0"

inductive exit_phase :: "bool \<Rightarrow> nat \<Rightarrow> nat \<Rightarrow> nat \<Rightarrow> nat \<Rightarrow> nat \<Rightarrow> bool \<Rightarrow> bool" where
  alive: "r \<le> 6 \<Longrightarrow> exit_phase m 0 r 0 0 0 False"
| ended: "exit_phase False 0 7 1 0 0 False"
| awaited: "exit_phase False 1 7 0 0 0 False"
| claimed: "2 \<le> n \<Longrightarrow> n \<le> 3 \<Longrightarrow> exit_phase False n 7 0 0 0 True"
| let_go: "exit_phase False 4 7 0 1 0 True"
| leaving: "8 \<le> r \<Longrightarrow> r \<le> 9 \<Longrightarrow> exit_phase False 4 r 0 0 0 True"
| left: "10 \<le> r \<Longrightarrow> exit_phase False 4 r 0 0 1 True"
| noticed: "10 \<le> r \<Longrightarrow> exit_phase False 5 r 0 0 0 True"
| over: "10 \<le> r \<Longrightarrow> exit_phase False 6 r 0 0 0 False"
| main_ended: "10 \<le> r \<Longrightarrow> exit_phase True 0 r 1 0 0 False"
| main_awaited: "10 \<le> r \<Longrightarrow> exit_phase True 1 r 0 0 0 False"
| main_claimed: "2 \<le> n \<Longrightarrow> n \<le> 3 \<Longrightarrow> 10 \<le> r \<Longrightarrow> exit_phase True n r 0 0 0 True"
| main_let_go: "10 \<le> r \<Longrightarrow> exit_phase True 4 r 0 1 0 True"

definition load_inv :: "sync \<Rightarrow> bool" where
  "load_inv s \<longleftrightarrow> load_phase (exec_stage (parent s)) (rank (child s)) (loadsem s) (loadsuccesssem s)"

definition exit_inv :: "sync \<Rightarrow> bool" where
  "exit_inv s \<longleftrightarrow> exit_phase (is_main s) (stage s) (rank (child s)) (waitsem s) (diesem s) (jinsem s) (wait_flag s)"

text \<open>The child posts \<open>exitsem\<close> when it had a page directory; a parent whose \<open>process_execute\<close> failed has taken it.\<close>

definition post_inv :: "sync \<Rightarrow> bool" where
  "post_inv s \<longleftrightarrow> exitsem s = (if rank (child s) \<le> 5 \<or> \<not> has_pagedir s \<or> exec_answer s = Some (- 1) then 0 else 1)
     \<and> (exec_answer s = Some (- 1) \<longrightarrow> 6 \<le> rank (child s))"

definition exec_inv :: "sync \<Rightarrow> bool" where
  "exec_inv s \<longleftrightarrow> 0 < child_tid s \<and> parent s \<noteq> Stray \<and> parent s \<noteq> E_up (\<not> loadsuccess s) \<and> (parent s = E_fail \<longrightarrow> \<not> loadsuccess s)
     \<and> exec_answer s = (if exec_stage (parent s) < 4 then None else Some (if loadsuccess s then child_tid s else - 1))"

definition list_inv :: "sync \<Rightarrow> bool" where
  "list_inv s \<longleftrightarrow> (child_tid s \<in> set (children s) \<longleftrightarrow> is_main s \<or> rank (child s) \<le> 8) \<and> distinct (children s)"

definition answers_ok :: "int \<Rightarrow> int list \<Rightarrow> bool" where
  "answers_ok v vs \<longleftrightarrow> vs = [] \<or> (\<exists>n. vs = v # replicate n (- 1))"

definition answer_inv :: "sync \<Rightarrow> bool" where
  "answer_inv s \<longleftrightarrow> seen_status (parent s) (return_status s)
     \<and> (child s = Running \<longrightarrow> loadsuccess s) \<and> (5 \<le> rank (child s) \<and> \<not> loadsuccess s \<longrightarrow> return_status s = - 1)
     \<and> answers_ok (return_status s) (wait_answers s) \<and> (wait_answers s = [] \<or> parent s = Idle \<or> parent s = W_find)"

definition sync_inv :: "sync \<Rightarrow> bool" where
  "sync_inv s \<longleftrightarrow> load_inv s \<and> post_inv s \<and> exec_inv s \<and> exit_inv s \<and> list_inv s \<and> answer_inv s"

lemma answers_ok_simps [simp]: "answers_ok v []" "answers_ok v [v]"
  by (simp_all add: answers_ok_def)

lemma answers_ok_more: "answers_ok v vs \<Longrightarrow> vs \<noteq> [] \<Longrightarrow> answers_ok v (vs @ [- 1])"
  by (auto simp: answers_ok_def replicate_append_same intro: exI [of _ "Suc n" for n])

lemma find_child_None: "find_child templist tid = None \<longleftrightarrow> tid \<notin> set templist"
  by (auto simp: find_child_def find_None_iff)

lemma created_inv: "0 < tid \<Longrightarrow> distinct (others @ [tid]) \<Longrightarrow> sync_inv (created name tid others)"
  by (simp add: created_def sync_inv_def load_inv_def post_inv_def exec_inv_def exit_inv_def list_inv_def answer_inv_def stage_def
      load_phase.simps exit_phase.simps)

text \<open>The parent's answers and its place in the calls are all that \<open>stage\<close> looks at.\<close>

lemma stage_child [simp]:
  "stage (s\<lparr>child := c\<rparr>) = stage s" "stage (s\<lparr>loadsem := n\<rparr>) = stage s" "stage (s\<lparr>loadsuccesssem := n\<rparr>) = stage s"
  "stage (s\<lparr>exitsem := n\<rparr>) = stage s" "stage (s\<lparr>waitsem := n\<rparr>) = stage s" "stage (s\<lparr>diesem := n\<rparr>) = stage s"
  "stage (s\<lparr>jinsem := n\<rparr>) = stage s" "stage (s\<lparr>children := xs\<rparr>) = stage s" "stage (s\<lparr>return_status := v\<rparr>) = stage s"
  "stage (s\<lparr>loadsuccess := b\<rparr>) = stage s" "stage (s\<lparr>has_pagedir := b\<rparr>) = stage s" "stage (s\<lparr>wait_flag := b\<rparr>) = stage s"
  by (simp_all add: stage_def)

lemma is_main_updates [simp]:
  "is_main (s\<lparr>parent := p\<rparr>) = is_main s" "is_main (s\<lparr>exec_answer := a\<rparr>) = is_main s" "is_main (s\<lparr>wait_answers := vs\<rparr>) = is_main s"
  "is_main (s\<lparr>child := c\<rparr>) = is_main s" "is_main (s\<lparr>loadsem := n\<rparr>) = is_main s" "is_main (s\<lparr>loadsuccesssem := n\<rparr>) = is_main s"
  "is_main (s\<lparr>exitsem := n\<rparr>) = is_main s" "is_main (s\<lparr>waitsem := n\<rparr>) = is_main s" "is_main (s\<lparr>diesem := n\<rparr>) = is_main s"
  "is_main (s\<lparr>jinsem := n\<rparr>) = is_main s" "is_main (s\<lparr>children := xs\<rparr>) = is_main s" "is_main (s\<lparr>return_status := v\<rparr>) = is_main s"
  "is_main (s\<lparr>loadsuccess := b\<rparr>) = is_main s" "is_main (s\<lparr>has_pagedir := b\<rparr>) = is_main s" "is_main (s\<lparr>wait_flag := b\<rparr>) = is_main s"
  by (simp_all add: is_main_def)

lemma exit_phase_early: "exit_phase m n r w d j f \<Longrightarrow> r \<le> 6 \<Longrightarrow> q \<le> 6 \<Longrightarrow> exit_phase m n q w d j f"
  by (auto simp: exit_phase.simps)

section \<open>Steps of the child\<close>

lemma start_cases:
  assumes "start_step outcome s = Some s'"
  obtains (load) b pd where "child s = S_load" "s' = s\<lparr>loadsuccess := b, has_pagedir := pd, child := S_up\<rparr>"
  | (killed) "child s = S_load" "s' = s\<lparr>return_status := - 1, has_pagedir := True, child := X_exitsem\<rparr>"
  | (post) "child s = S_up" "s' = s\<lparr>loadsem := loadsem s + 1, child := S_down\<rparr>"
  | (take) "child s = S_down" "0 < loadsuccesssem s" "s' = s\<lparr>loadsuccesssem := loadsuccesssem s - 1, child := S_test\<rparr>"
  | (run) "child s = S_test" "loadsuccess s" "s' = s\<lparr>child := Running\<rparr>"
  | (fail) "child s = S_test" "\<not> loadsuccess s" "s' = s\<lparr>return_status := - 1, child := X_exitsem\<rparr>"
proof -
  show thesis
  proof (cases "child s")
    case S_load
    show thesis
    proof (cases outcome)
      case Loaded
      then have "s' = s\<lparr>loadsuccess := True, has_pagedir := True, child := S_up\<rparr>" using assms S_load by (simp add: start_step_def)
      with S_load show thesis by (rule load)
    next
      case (Load_failed pd)
      then have "s' = s\<lparr>loadsuccess := False, has_pagedir := pd, child := S_up\<rparr>" using assms S_load by (simp add: start_step_def)
      with S_load show thesis by (rule load)
    next
      case Load_killed
      then have "s' = s\<lparr>return_status := - 1, has_pagedir := True, child := X_exitsem\<rparr>" using assms S_load by (simp add: start_step_def)
      with S_load show thesis by (rule killed)
    qed
  next
    case S_up
    then have "s' = s\<lparr>loadsem := loadsem s + 1, child := S_down\<rparr>" using assms by (simp_all add: start_step_def)
    with S_up show thesis by (rule post)
  next
    case S_down
    then have "0 < loadsuccesssem s" "s' = s\<lparr>loadsuccesssem := loadsuccesssem s - 1, child := S_test\<rparr>" using assms by (simp_all add: start_step_def split: if_splits)
    with S_down show thesis by (rule take)
  next
    case S_test
    with assms run fail show thesis by (cases "loadsuccess s") (simp_all add: start_step_def)
  qed (use assms in \<open>simp_all add: start_step_def\<close>)
qed

lemma start_step_load: "start_step outcome s = Some s' \<Longrightarrow> load_inv s \<Longrightarrow> load_inv s'"
  by (erule start_cases) (auto simp: load_inv_def load_phase.simps)

lemma start_step_post: "start_step outcome s = Some s' \<Longrightarrow> post_inv s \<Longrightarrow> post_inv s'"
  by (erule start_cases) (auto simp: post_inv_def)

lemma start_step_exec: "start_step outcome s = Some s' \<Longrightarrow> load_inv s \<Longrightarrow> exec_inv s \<Longrightarrow> exec_inv s'"
  by (erule start_cases) (auto simp: exec_inv_def load_inv_def load_phase.simps)

lemma start_step_exit: "start_step outcome s = Some s' \<Longrightarrow> exit_inv s \<Longrightarrow> exit_inv s'"
  by (erule start_cases) (auto simp: exit_inv_def elim: exit_phase_early)

lemma start_step_list: "start_step outcome s = Some s' \<Longrightarrow> list_inv s \<Longrightarrow> list_inv s'"
  by (erule start_cases) (auto simp: list_inv_def)

lemma waited_after_exit: "exit_inv s \<Longrightarrow> rank (child s) \<le> 6 \<Longrightarrow> stage s = 0"
  by (auto simp: exit_inv_def exit_phase.simps)

lemma unseen: "stage s = 0 \<Longrightarrow> seen_status (parent s) v"
  by (cases "parent s") (auto simp: stage_def split: if_splits)

lemma start_step_answer:
  assumes step: "start_step outcome s = Some s'" and "exit_inv s" "answer_inv s"
  shows "answer_inv s'"
proof -
  have "rank (child s) \<le> 6" using step by (rule start_cases) simp_all
  then have "stage s = 0" using \<open>exit_inv s\<close> by (rule waited_after_exit [rotated])
  then have "wait_answers s = []" "\<And>v. seen_status (parent s) v" by (simp_all add: stage_def unseen split: if_splits)
  with step \<open>answer_inv s\<close> show ?thesis by (elim start_cases) (simp_all add: answer_inv_def)
qed

lemma start_step_inv: "start_step outcome s = Some s' \<Longrightarrow> sync_inv s \<Longrightarrow> sync_inv s'"
  using start_step_load [of outcome s s'] start_step_post [of outcome s s'] start_step_exec [of outcome s s']
    start_step_exit [of outcome s s'] start_step_list [of outcome s s'] start_step_answer [of outcome s s']
  by (simp add: sync_inv_def)

lemma exit_cases:
  assumes "exit_step status s = Some s'"
  obtains (stop) "child s = Running" "s' = s\<lparr>return_status := status, child := X_exitsem\<rparr>"
  | (exitsem) "child s = X_exitsem" "s' = s\<lparr>exitsem := exitsem s + of_bool (has_pagedir s), child := X_waitsem\<rparr>"
  | (waitsem) "child s = X_waitsem" "s' = s\<lparr>waitsem := waitsem s + 1, child := (if is_main s then X_close else X_diesem)\<rparr>"
  | (diesem) "child s = X_diesem" "0 < diesem s" "s' = s\<lparr>diesem := diesem s - 1, child := X_unlink\<rparr>"
  | (unlink) "child s = X_unlink" "s' = s\<lparr>children := remove1 (child_tid s) (children s), child := X_jinsem\<rparr>"
  | (jinsem) "child s = X_jinsem" "s' = s\<lparr>jinsem := jinsem s + 1, child := X_close\<rparr>"
  | (close) "child s = X_close" "s' = s\<lparr>child := Dying\<rparr>"
  | (free) "child s = Dying" "s' = s\<lparr>child := Freed\<rparr>"
proof -
  show thesis
  proof (cases "child s")
    case Running
    then have "s' = s\<lparr>return_status := status, child := X_exitsem\<rparr>" using assms by (simp_all add: exit_step_def)
    with Running show thesis by (rule stop)
  next
    case X_exitsem
    then have "s' = s\<lparr>exitsem := exitsem s + of_bool (has_pagedir s), child := X_waitsem\<rparr>" using assms by (simp_all add: exit_step_def)
    with X_exitsem show thesis by (rule exitsem)
  next
    case X_waitsem
    then have "s' = s\<lparr>waitsem := waitsem s + 1, child := (if is_main s then X_close else X_diesem)\<rparr>" using assms by (simp_all add: exit_step_def)
    with X_waitsem show thesis by (rule waitsem)
  next
    case X_diesem
    then have "0 < diesem s" "s' = s\<lparr>diesem := diesem s - 1, child := X_unlink\<rparr>" using assms by (simp_all add: exit_step_def split: if_splits)
    with X_diesem show thesis by (rule diesem)
  next
    case X_unlink
    then have "s' = s\<lparr>children := remove1 (child_tid s) (children s), child := X_jinsem\<rparr>" using assms by (simp_all add: exit_step_def)
    with X_unlink show thesis by (rule unlink)
  next
    case X_jinsem
    then have "s' = s\<lparr>jinsem := jinsem s + 1, child := X_close\<rparr>" using assms by (simp_all add: exit_step_def)
    with X_jinsem show thesis by (rule jinsem)
  next
    case X_close
    then have "s' = s\<lparr>child := Dying\<rparr>" using assms by (simp_all add: exit_step_def)
    with X_close show thesis by (rule close)
  next
    case Dying
    then have "s' = s\<lparr>child := Freed\<rparr>" using assms by (simp_all add: exit_step_def)
    with Dying show thesis by (rule free)
  qed (use assms in \<open>simp_all add: exit_step_def\<close>)
qed

lemma exit_step_load: "exit_step status s = Some s' \<Longrightarrow> load_inv s \<Longrightarrow> load_inv s'"
  by (erule exit_cases) (auto simp: load_inv_def load_phase.simps)

lemma exit_step_exec: "exit_step status s = Some s' \<Longrightarrow> exec_inv s \<Longrightarrow> exec_inv s'"
  by (erule exit_cases) (auto simp: exec_inv_def)

lemma exit_step_exit: "exit_step status s = Some s' \<Longrightarrow> exit_inv s \<Longrightarrow> exit_inv s'"
  by (erule exit_cases) (auto simp: exit_inv_def exit_phase.simps)

lemma exit_step_list: "exit_step status s = Some s' \<Longrightarrow> exit_inv s \<Longrightarrow> list_inv s \<Longrightarrow> list_inv s'"
  by (erule exit_cases) (auto simp: list_inv_def exit_inv_def exit_phase.simps)

lemma exit_step_post: "exit_step status s = Some s' \<Longrightarrow> post_inv s \<Longrightarrow> post_inv s'"
  by (erule exit_cases) (auto simp: post_inv_def)

lemma exit_step_answer:
  assumes step: "exit_step status s = Some s'" and "exit_inv s" "answer_inv s"
  shows "answer_inv s'"
proof (cases "child s = Running")
  case True
  then have "stage s = 0" by (intro waited_after_exit [OF \<open>exit_inv s\<close>]) simp
  then have "wait_answers s = []" "\<And>v. seen_status (parent s) v" by (simp_all add: stage_def unseen split: if_splits)
  with step True \<open>answer_inv s\<close> show ?thesis by (elim exit_cases) (simp_all add: answer_inv_def)
next
  case False
  with step \<open>answer_inv s\<close> show ?thesis by (elim exit_cases) (simp_all add: answer_inv_def)
qed

lemma exit_step_inv: "exit_step status s = Some s' \<Longrightarrow> sync_inv s \<Longrightarrow> sync_inv s'"
  using exit_step_load [of status s s'] exit_step_post [of status s s'] exit_step_exec [of status s s']
    exit_step_exit [of status s s'] exit_step_list [of status s s'] exit_step_answer [of status s s']
  by (simp add: sync_inv_def)

section \<open>Steps of the parent\<close>

lemma execute_cases:
  assumes "execute_live s = Some s'"
  obtains (take) "parent s = E_down" "0 < loadsem s" "s' = s\<lparr>loadsem := loadsem s - 1, parent := E_read\<rparr>"
  | (read) "parent s = E_read" "s' = s\<lparr>parent := E_up (loadsuccess s)\<rparr>"
  | (good) "parent s = E_up True" "s' = s\<lparr>loadsuccesssem := loadsuccesssem s + 1, parent := Idle, exec_answer := Some (child_tid s)\<rparr>"
  | (bad) "parent s = E_up False" "s' = s\<lparr>loadsuccesssem := loadsuccesssem s + 1, parent := E_fail\<rparr>"
  | (fail) "parent s = E_fail" "0 < exitsem s" "s' = s\<lparr>exitsem := exitsem s - 1, parent := Idle, exec_answer := Some (- 1)\<rparr>"
proof -
  show thesis
  proof (cases "parent s")
    case E_down
    with assms have "0 < loadsem s" "s' = s\<lparr>loadsem := loadsem s - 1, parent := E_read\<rparr>"
      by (simp_all add: execute_live_def split: if_splits)
    with E_down show thesis by (rule take)
  next
    case E_read
    with assms have "s' = s\<lparr>parent := E_up (loadsuccess s)\<rparr>" by (simp add: execute_live_def)
    with E_read show thesis by (rule read)
  next
    case (E_up ok)
    with assms good bad show thesis by (cases ok) (simp_all add: execute_live_def exec_return_def Let_def)
  next
    case E_fail
    with assms have "0 < exitsem s" "s' = s\<lparr>exitsem := exitsem s - 1, parent := Idle, exec_answer := Some (- 1)\<rparr>"
      by (simp_all add: execute_live_def exec_return_def split: if_splits)
    with E_fail show thesis by (rule fail)
  qed (use assms in \<open>simp_all add: execute_live_def\<close>)
qed

lemma execute_live_load: "execute_live s = Some s' \<Longrightarrow> load_inv s \<Longrightarrow> load_inv s'"
  by (erule execute_cases) (auto simp: load_inv_def load_phase.simps)

lemma execute_live_exec: "execute_live s = Some s' \<Longrightarrow> exec_inv s \<Longrightarrow> exec_inv s'"
  by (erule execute_cases) (auto simp: exec_inv_def)

lemma execute_live_post: "execute_live s = Some s' \<Longrightarrow> exec_inv s \<Longrightarrow> post_inv s \<Longrightarrow> post_inv s'"
  by (erule execute_cases) (auto simp: post_inv_def exec_inv_def split: if_splits)

lemma execute_stage: "execute_live s = Some s' \<Longrightarrow> stage s' = stage s"
  by (erule execute_cases) (simp_all add: stage_def)

lemma execute_live_exit: "execute_live s = Some s' \<Longrightarrow> exit_inv s \<Longrightarrow> exit_inv s'"
  by (frule execute_stage, erule execute_cases) (simp_all add: exit_inv_def)

lemma execute_live_list: "execute_live s = Some s' \<Longrightarrow> list_inv s \<Longrightarrow> list_inv s'"
  by (erule execute_cases) (simp_all add: list_inv_def)

lemma execute_live_answer: "execute_live s = Some s' \<Longrightarrow> answer_inv s \<Longrightarrow> answer_inv s'"
  by (erule execute_cases) (simp_all add: answer_inv_def)

lemma execute_live_inv: "execute_live s = Some s' \<Longrightarrow> sync_inv s \<Longrightarrow> sync_inv s'"
  using execute_live_load [of s s'] execute_live_post [of s s'] execute_live_exec [of s s']
    execute_live_exit [of s s'] execute_live_list [of s s'] execute_live_answer [of s s']
  by (simp add: sync_inv_def)

lemma wait_cases:
  assumes "wait_live s = Some s'"
  obtains (missing) "parent s = W_find" "child_tid s \<notin> set (children s)" "s' = wait_return (- 1) s"
  | (found) "parent s = W_find" "child_tid s \<in> set (children s)" "s' = s\<lparr>parent := W_down\<rparr>"
  | (take) "parent s = W_down" "0 < waitsem s" "s' = s\<lparr>waitsem := waitsem s - 1, parent := W_check\<rparr>"
  | (second) "parent s = W_check" "wait_flag s" "s' = wait_return (- 1) s"
  | (first) "parent s = W_check" "\<not> wait_flag s" "s' = s\<lparr>wait_flag := True, parent := W_status\<rparr>"
  | (status) "parent s = W_status" "s' = s\<lparr>parent := W_up (return_status s)\<rparr>"
  | (post) st where "parent s = W_up st" "s' = s\<lparr>diesem := diesem s + 1, parent := W_jin st\<rparr>"
  | (gone) st where "parent s = W_jin st" "0 < jinsem s" "s' = s\<lparr>jinsem := jinsem s - 1, parent := W_clear st\<rparr>"
  | (answer) st where "parent s = W_clear st" "s' = wait_return st (s\<lparr>wait_flag := False\<rparr>)"
proof -
  show thesis
  proof (cases "parent s")
    case W_find
    show thesis
    proof (cases "find_child (children s) (child_tid s)")
      case None
      with W_find assms have "s' = wait_return (- 1) s" by (simp add: wait_live_def)
      with W_find None show thesis by (intro missing) (simp_all add: find_child_None)
    next
      case (Some t)
      with W_find assms have "s' = s\<lparr>parent := W_down\<rparr>" by (simp add: wait_live_def)
      with W_find Some find_child_None [of "children s" "child_tid s"] show thesis by (intro found) simp_all
    qed
  next
    case W_down
    with assms have "0 < waitsem s" "s' = s\<lparr>waitsem := waitsem s - 1, parent := W_check\<rparr>"
      by (simp_all add: wait_live_def split: if_splits)
    with W_down show thesis by (rule take)
  next
    case W_check
    with assms second first show thesis by (cases "wait_flag s") (simp_all add: wait_live_def)
  next
    case W_status
    with assms have "s' = s\<lparr>parent := W_up (return_status s)\<rparr>" by (simp add: wait_live_def)
    with W_status show thesis by (rule status)
  next
    case (W_up st)
    with assms have "s' = s\<lparr>diesem := diesem s + 1, parent := W_jin st\<rparr>" by (simp add: wait_live_def)
    with W_up show thesis by (rule post)
  next
    case (W_jin st)
    with assms have "0 < jinsem s" "s' = s\<lparr>jinsem := jinsem s - 1, parent := W_clear st\<rparr>"
      by (simp_all add: wait_live_def split: if_splits)
    with W_jin show thesis by (rule gone)
  next
    case (W_clear st)
    with assms have "s' = wait_return st (s\<lparr>wait_flag := False\<rparr>)" by (simp add: wait_live_def)
    with W_clear show thesis by (rule answer)
  qed (use assms in \<open>simp_all add: wait_live_def\<close>)
qed

lemma wait_live_load: "wait_live s = Some s' \<Longrightarrow> load_inv s \<Longrightarrow> load_inv s'"
  by (erule wait_cases) (simp_all add: load_inv_def wait_return_def)

lemma wait_live_exec: "wait_live s = Some s' \<Longrightarrow> exec_inv s \<Longrightarrow> exec_inv s'"
  by (erule wait_cases) (simp_all add: exec_inv_def wait_return_def)

lemma wait_live_post: "wait_live s = Some s' \<Longrightarrow> post_inv s \<Longrightarrow> post_inv s'"
  by (erule wait_cases) (simp_all add: post_inv_def wait_return_def)

lemma wait_live_list: "wait_live s = Some s' \<Longrightarrow> list_inv s \<Longrightarrow> list_inv s'"
  by (erule wait_cases) (simp_all add: list_inv_def wait_return_def)

text \<open>The place of the parent in a wait is its stage, until the first answer.\<close>

lemma stage_waiting: "answer_inv s \<Longrightarrow> parent s \<noteq> Idle \<Longrightarrow> parent s \<noteq> W_find \<Longrightarrow> wait_answers s = [] \<and> stage s = wait_stage (parent s)"
  by (auto simp: answer_inv_def stage_def)

lemma unlinked_answered: "exit_inv s \<Longrightarrow> list_inv s \<Longrightarrow> parent s = W_find \<Longrightarrow> child_tid s \<notin> set (children s) \<longleftrightarrow> wait_answers s \<noteq> []"
  by (auto simp: exit_inv_def list_inv_def stage_def exit_phase.simps split: if_splits)

lemma wait_live_exit:
  assumes step: "wait_live s = Some s'" and inv: "exit_inv s" "list_inv s" "answer_inv s"
  shows "exit_inv s'"
  using step
proof (cases rule: wait_cases)
  case missing
  then show ?thesis using inv unlinked_answered [of s] by (simp add: exit_inv_def stage_def wait_return_def)
next
  case found
  then show ?thesis using inv unlinked_answered [of s] by (simp add: exit_inv_def stage_def)
next
  case (answer st)
  then show ?thesis using inv stage_waiting [of s] by (auto simp: exit_inv_def stage_def wait_return_def exit_phase.simps)
next
  case second
  then show ?thesis using inv stage_waiting [of s] by (auto simp: exit_inv_def exit_phase.simps)
qed (use inv stage_waiting [of s] in \<open>auto simp: exit_inv_def stage_def exit_phase.simps\<close>)

lemma answer_invD:
  assumes "answer_inv s" "parent s \<noteq> Idle" "parent s \<noteq> W_find"
  shows "wait_answers s = []" "seen_status (parent s) (return_status s)" "child s = Running \<longrightarrow> loadsuccess s"
    "5 \<le> rank (child s) \<and> \<not> loadsuccess s \<longrightarrow> return_status s = - 1"
  using assms by (simp_all add: answer_inv_def)

text \<open>A step inside a wait changes neither the child nor its status.\<close>

lemma answer_inv_waiting:
  assumes "answer_inv s" "parent s \<noteq> Idle" "parent s \<noteq> W_find" and "wait_answers s' = wait_answers s"
    "return_status s' = return_status s" "child s' = child s" "loadsuccess s' = loadsuccess s" "seen_status (parent s') (return_status s)"
  shows "answer_inv s'"
  using answer_invD [OF assms(1-3)] assms(4-) by (simp add: answer_inv_def)

lemma wait_live_answer:
  assumes step: "wait_live s = Some s'" and inv: "exit_inv s" "list_inv s" "answer_inv s"
  shows "answer_inv s'"
  using step
proof (cases rule: wait_cases)
  case missing
  then have "wait_answers s \<noteq> []" using inv unlinked_answered [of s] by simp
  then show ?thesis using missing inv(3) by (simp add: answer_inv_def wait_return_def answers_ok_more)
next
  case found
  then have "wait_answers s = []" using inv unlinked_answered [of s] by simp
  then show ?thesis using found inv(3) by (simp add: answer_inv_def)
next
  case take
  then show ?thesis by (intro answer_inv_waiting [OF inv(3)]) simp_all
next
  case second
  then show ?thesis using inv stage_waiting [of s] by (auto simp: exit_inv_def exit_phase.simps)
next
  case first
  then show ?thesis by (intro answer_inv_waiting [OF inv(3)]) simp_all
next
  case status
  then show ?thesis by (intro answer_inv_waiting [OF inv(3)]) simp_all
next
  case (post st)
  then show ?thesis using answer_invD(2) [OF inv(3)] by (intro answer_inv_waiting [OF inv(3)]) simp_all
next
  case (gone st)
  then show ?thesis using answer_invD(2) [OF inv(3)] by (intro answer_inv_waiting [OF inv(3)]) simp_all
next
  case (answer st)
  with answer_invD [OF inv(3)] show ?thesis by (simp add: answer_inv_def wait_return_def)
qed

lemma wait_live_inv: "wait_live s = Some s' \<Longrightarrow> sync_inv s \<Longrightarrow> sync_inv s'"
  using wait_live_load [of s s'] wait_live_post [of s s'] wait_live_exec [of s s']
    wait_live_exit [of s s'] wait_live_list [of s s'] wait_live_answer [of s s']
  by (simp add: sync_inv_def)

lemma call_wait_inv:
  assumes "sync_inv s" "parent s = Idle"
  shows "sync_inv (s\<lparr>parent := W_find\<rparr>)"
proof -
  have "stage (s\<lparr>parent := W_find\<rparr>) = stage s" using assms(2) by (simp add: stage_def)
  moreover have "load_inv s" "post_inv s" "exec_inv s" "exit_inv s" "list_inv s" "answer_inv s" using assms(1) by (simp_all add: sync_inv_def)
  ultimately show ?thesis
    using assms(2) unfolding sync_inv_def
    by (intro conjI) (simp_all add: load_inv_def post_inv_def exec_inv_def exit_inv_def list_inv_def answer_inv_def)
qed

section \<open>Runs\<close>

lemma execute_step_cases:
  assumes "execute_step s = Some s'"
  obtains (live) "execute_live s = Some s'" | (astray) "child s = Freed" "exec_stage (parent s) < 4" "s' = stray s"
proof -
  have "execute_live s = Some s' \<or> child s = Freed \<and> exec_stage (parent s) < 4 \<and> s' = stray s"
  proof (cases "child s = Freed")
    case True
    with assms show ?thesis by (cases "parent s") (simp_all add: execute_step_def execute_live_def)
  qed (use assms in \<open>simp add: execute_step_def\<close>)
  with live astray show thesis by blast
qed

lemma wait_step_cases:
  assumes "wait_step s = Some s'"
  obtains (live) "wait_live s = Some s'" | (astray) "child s = Freed" "exec_stage (parent s) = 4" "parent s \<noteq> Idle" "parent s \<noteq> Stray"
    "parent s = W_find \<longrightarrow> child_tid s \<in> set (children s)" "s' = stray s"
proof -
  have "wait_live s = Some s' \<or> child s = Freed \<and> exec_stage (parent s) = 4 \<and> parent s \<noteq> Idle \<and> parent s \<noteq> Stray
      \<and> (parent s = W_find \<longrightarrow> child_tid s \<in> set (children s)) \<and> s' = stray s"
  proof (cases "child s = Freed")
    case True
    show ?thesis
    proof (cases "parent s = W_find")
      case True
      with assms \<open>child s = Freed\<close> show ?thesis by (cases "child_tid s \<in> set (children s)") (simp_all add: wait_step_def)
    next
      case False
      with assms \<open>child s = Freed\<close> show ?thesis by (cases "parent s") (simp_all add: wait_step_def wait_live_def)
    qed
  qed (use assms in \<open>simp add: wait_step_def\<close>)
  with live astray show thesis by blast
qed

text \<open>A state a run can be in: one with the invariant, or one such state gone astray, from which there is no step.\<close>

definition reachable :: "sync \<Rightarrow> bool" where
  "reachable s \<longleftrightarrow> sync_inv s \<or> (\<exists>s0. sync_inv s0 \<and> child s0 = Freed \<and> s = stray s0)"

lemma stray_ends: "parent s = Stray \<Longrightarrow> child s = Freed \<Longrightarrow> \<not> sync_step s s'"
  by (auto simp: sync_step.simps execute_step_def wait_step_def execute_live_def wait_live_def start_step_def exit_step_def)

lemma sync_step_reachable: "sync_step s s' \<Longrightarrow> sync_inv s \<Longrightarrow> reachable s'"
proof (induction rule: sync_step.induct)
  case (execute s s')
  then show ?case by (elim execute_step_cases) (auto simp: reachable_def execute_live_inv)
next
  case (wait s s')
  then show ?case by (elim wait_step_cases) (auto simp: reachable_def wait_live_inv)
next
  case (start outcome s s')
  then show ?case by (auto simp: reachable_def start_step_inv)
next
  case (exit status s s')
  then show ?case by (auto simp: reachable_def exit_step_inv)
qed

lemma reachable_step: "reachable s \<Longrightarrow> sync_step s s' \<Longrightarrow> sync_inv s"
  using stray_ends [of s s'] by (auto simp: reachable_def stray_def)

lemma sync_run_reachable:
  assumes "sync_run (created name tid others) s" "0 < tid" "distinct (others @ [tid])"
  shows "reachable s"
  using assms
proof (induction "created name tid others" s rule: sync_run.induct)
  case begin_run
  then show ?case by (simp add: reachable_def created_inv)
next
  case (step s1 s2)
  then show ?case using reachable_step sync_step_reachable by blast
next
  case (call_wait s1)
  then have "sync_inv s1" by (auto simp: reachable_def stray_def)
  then show ?case using call_wait call_wait_inv by (simp add: reachable_def)
qed

lemma sync_step_same: "sync_step s s' \<Longrightarrow> child_tid s' = child_tid s \<and> is_main s' = is_main s"
proof (induction rule: sync_step.induct)
  case (execute s s')
  then show ?case by (elim execute_step_cases execute_cases) (simp_all add: stray_def)
next
  case (wait s s')
  then show ?case by (elim wait_step_cases wait_cases) (simp_all add: wait_return_def stray_def)
next
  case (start outcome s s')
  then show ?case by (rule start_cases) simp_all
next
  case (exit status s s')
  then show ?case by (rule exit_cases) simp_all
qed

lemma sync_run_same: "sync_run s0 s \<Longrightarrow> child_tid s = child_tid s0 \<and> is_main s = is_main s0"
  by (induction rule: sync_run.induct) (simp_all add: sync_step_same)

section \<open>Progress\<close>








text \<open>Where a parent can go astray.\<close>

lemma inv_not_stray: "sync_inv s \<Longrightarrow> parent s \<noteq> Stray"
  unfolding sync_inv_def exec_inv_def by blast

lemma execute_astray:
  assumes "execute_step s = Some s'" "sync_inv s" "parent s' = Stray"
  shows "child s = Freed \<and> exec_stage (parent s) < 4"
  using assms(1)
proof (cases rule: execute_step_cases)
  case live
  from inv_not_stray [OF execute_live_inv [OF live assms(2)]] assms(3) show ?thesis by contradiction
next
  case astray
  then show ?thesis by blast
qed

lemma wait_astray:
  assumes "wait_step s = Some s'" "sync_inv s" "parent s' = Stray"
  shows "child s = Freed \<and> parent s \<noteq> Idle \<and> (parent s = W_find \<longrightarrow> child_tid s \<in> set (children s))"
  using assms(1)
proof (cases rule: wait_step_cases)
  case live
  from inv_not_stray [OF wait_live_inv [OF live assms(2)]] assms(3) show ?thesis by contradiction
next
  case astray
  then show ?thesis by blast
qed

lemma stray_freed:
  assumes "sync_step s s'" "sync_inv s" "parent s' = Stray"
  shows "child s = Freed \<and> parent s \<noteq> Idle \<and> (parent s = W_find \<longrightarrow> child_tid s \<in> set (children s))"
  using assms
proof (induction rule: sync_step.induct)
  case (execute s s')
  from execute_astray [OF this] show ?case by auto
next
  case (wait s s')
  then show ?case by (rule wait_astray)
next
  case (start outcome s s')
  from inv_not_stray [OF start_step_inv [OF start(1,2)]] start(3) show ?case by contradiction
next
  case (exit status s s')
  from inv_not_stray [OF exit_step_inv [OF exit(1,2)]] exit(3) show ?case by contradiction
qed

lemma freed_place:
  assumes inv: "sync_inv s" and "child s = Freed" "\<not> is_main s" "parent s \<noteq> Idle" "parent s = W_find \<longrightarrow> child_tid s \<in> set (children s)"
  shows "\<exists>st. parent s = W_jin st \<or> parent s = W_clear st"
proof -
  have x: "exit_phase False (stage s) 12 (waitsem s) (diesem s) (jinsem s) (wait_flag s)" and "child_tid s \<notin> set (children s)"
    using inv assms(2,3) by (simp_all add: sync_inv_def exit_inv_def list_inv_def)
  then have "parent s \<noteq> W_find" using assms(5) by blast
  with inv assms(4) have "stage s = wait_stage (parent s)" using stage_waiting [of s] by (simp add: sync_inv_def)
  with x show ?thesis by (cases "parent s") (auto simp: exit_phase.simps)
qed

section \<open>Properties\<close>

text \<open>Runs chosen by a schedule.\<close>

datatype move = Parent | Call | Start load_outcome | Exit int

fun play :: "move list \<Rightarrow> sync \<Rightarrow> sync option" where
  "play [] s = Some s"
| "play (Parent # ms) s = (case execute_step s of Some s1 \<Rightarrow> play ms s1 | None \<Rightarrow>
     (case wait_step s of Some s1 \<Rightarrow> play ms s1 | None \<Rightarrow> None))"
| "play (Call # ms) s = (if parent s = Idle then play ms (s\<lparr>parent := W_find\<rparr>) else None)"
| "play (Start r # ms) s = (case start_step r s of Some s1 \<Rightarrow> play ms s1 | None \<Rightarrow> None)"
| "play (Exit v # ms) s = (case exit_step v s of Some s1 \<Rightarrow> play ms s1 | None \<Rightarrow> None)"

lemma play_run: "play ms s = Some s' \<Longrightarrow> sync_run s0 s \<Longrightarrow> sync_run s0 s'"
  by (induction ms s rule: play.induct)
    (auto split: option.splits if_splits intro: sync_run.intros sync_step.intros)

lemma find_child_case:
  "(case find_child templist tid of None \<Rightarrow> a | Some _ \<Rightarrow> b) = (if tid \<in> set templist then b else a)"
  using find_child_None [of templist tid] by (cases "find_child templist tid") auto

lemmas play_simps = created_def execute_step_def wait_step_def execute_live_def wait_live_def start_step_def exit_step_def
  exec_return_def wait_return_def stray_def is_main_def find_child_case Let_def

text \<open>
  A child that loads, runs and exits with a status while its parent executes and waits for it. The
  parent is interrupted between the two semaphore operations at the end of \<open>process_wait\<close>.
\<close>

definition exec_run :: "int \<Rightarrow> move list" where
  "exec_run v = [Start Loaded, Start Loaded, Parent, Parent, Parent, Start Loaded, Start Loaded, Exit v, Exit v, Exit v]"

definition wait_run :: "int \<Rightarrow> move list" where
  "wait_run v = exec_run v @ [Call, Parent, Parent, Parent, Parent, Parent, Exit v, Exit v, Exit v]"

definition left_state :: "string \<Rightarrow> int \<Rightarrow> int list \<Rightarrow> int \<Rightarrow> sync" where
  "left_state name tid others v = (created name tid others)\<lparr>parent := W_jin v, child := X_close, children := remove1 tid (others @ [tid]),
     exitsem := 1, jinsem := 1, has_pagedir := True, wait_flag := True, return_status := v, exec_answer := Some tid\<rparr>"

lemma wait_run_run: "name \<noteq> ''main'' \<Longrightarrow> sync_run (created name tid others) (left_state name tid others v)"
  by (rule play_run [of "wait_run v", OF _ begin_run]) (simp add: wait_run_def exec_run_def left_state_def play_simps)

definition answered_state :: "string \<Rightarrow> int \<Rightarrow> int \<Rightarrow> sync" where
  "answered_state name tid v = (left_state name tid [] v)\<lparr>parent := Idle, jinsem := 0, wait_flag := False, wait_answers := [v, - 1]\<rparr>"

lemma twice_run: "name \<noteq> ''main'' \<Longrightarrow> sync_run (created name tid []) (answered_state name tid v)"
  by (rule play_run [of "[Parent, Parent, Call, Parent]", OF _ wait_run_run]) (simp_all add: answered_state_def left_state_def play_simps)

text \<open>A child named main that has ended while its parent is about to test \<open>child->wait\<close>.\<close>

definition main_run :: "int \<Rightarrow> move list" where
  "main_run v = exec_run v @ [Call, Parent, Parent, Exit v, Exit v]"

definition main_state :: "int \<Rightarrow> int list \<Rightarrow> int \<Rightarrow> sync" where
  "main_state tid others v = (created ''main'' tid others)\<lparr>parent := W_check, child := Freed, exitsem := 1, has_pagedir := True,
     return_status := v, exec_answer := Some tid\<rparr>"

lemma main_run_run: "sync_run (created ''main'' tid others) (main_state tid others v)"
  by (rule play_run [of "main_run v", OF _ begin_run]) (simp add: main_run_def exec_run_def main_state_def play_simps)

text \<open>
  C12: in every interleaving of a parent and its child (\<open>process_execute\<close>, \<open>process_wait\<close>, \<open>start_process\<close>,
  \<open>process_exit\<close>), whatever the outcome of the load and whatever the child is called, as long as the parent does
  not use a freed child: \<open>process_execute\<close> answers the child's identifier when the load succeeded and -1 when
  it failed; the first \<open>process_wait\<close> that answers gives the status the child exited with, which
  is -1 after a failed load, and only after the child has left its parent's list; every later one answers -1. For a child named main
  none answers.
\<close>

theorem wait_answers_status_once:
  assumes "sync_run (created name tid others) s" "0 < tid" "distinct (others @ [tid])"
  shows "(exec_answer s = None \<or> exec_answer s = Some (if loadsuccess s then tid else - 1))
    \<and> (wait_answers s = [] \<or> (\<exists>n. wait_answers s = return_status s # replicate n (- 1)))
    \<and> (wait_answers s \<noteq> [] \<longrightarrow> name \<noteq> ''main'' \<and> child s \<in> {X_close, Dying, Freed} \<and> tid \<notin> set (children s)
         \<and> (\<not> loadsuccess s \<longrightarrow> return_status s = - 1))"
proof -
  obtain s0 where inv: "sync_inv s0" and s: "s = s0 \<or> s = stray s0"
    using sync_run_reachable [OF assms] by (auto simp: reachable_def)
  have eq: "exec_answer s = exec_answer s0" "loadsuccess s = loadsuccess s0" "wait_answers s = wait_answers s0" "child s = child s0"
    "return_status s = return_status s0" "children s = children s0" "child_tid s = child_tid s0" "is_main s = is_main s0"
    using s by (auto simp: stray_def)
  have tid: "child_tid s0 = tid" "is_main s0 \<longleftrightarrow> name = ''main''"
    using sync_run_same [OF assms(1)] eq(7,8) by (simp_all add: created_def is_main_def)
  have "10 \<le> rank (child s0) \<and> \<not> is_main s0" if "wait_answers s0 \<noteq> []"
    using inv that by (auto simp: sync_inv_def exit_inv_def stage_def exit_phase.simps)
  moreover have "10 \<le> rank c \<Longrightarrow> c \<in> {X_close, Dying, Freed}" for c by (cases c) simp_all
  ultimately have end_: "wait_answers s0 \<noteq> [] \<Longrightarrow> 10 \<le> rank (child s0) \<and> \<not> is_main s0 \<and> child s0 \<in> {X_close, Dying, Freed}" by blast
  have "exec_answer s0 = None \<or> exec_answer s0 = Some (if loadsuccess s0 then tid else - 1)"
    using inv tid by (simp add: sync_inv_def exec_inv_def)
  moreover have "answers_ok (return_status s0) (wait_answers s0)" using inv by (simp add: sync_inv_def answer_inv_def)
  moreover have "wait_answers s0 \<noteq> [] \<longrightarrow> tid \<notin> set (children s0) \<and> (\<not> loadsuccess s0 \<longrightarrow> return_status s0 = - 1)"
    using inv tid(1) end_ by (auto simp: sync_inv_def list_inv_def answer_inv_def)
  ultimately show ?thesis using end_ tid(2) unfolding eq by (auto simp: answers_ok_def)
qed

theorem wait_answers_status_once_witness:
  "sync_run (created ''sh'' 3 []) (answered_state ''sh'' 3 7) \<and> wait_answers (answered_state ''sh'' 3 7) = [7, - 1]
   \<and> child (answered_state ''sh'' 3 7) \<in> {X_close, Dying, Freed}"
proof -
  have "sync_run (created ''sh'' 3 []) (answered_state ''sh'' 3 7)" by (rule twice_run) simp
  with wait_answers_status_once [OF this] show ?thesis by (simp add: answered_state_def)
qed



text \<open>
  C14: \<open>process_wait\<close> uses the child after it was freed. For every child not named main and every exit status there is
  an interleaving in which the parent has yet to take \<open>jinsem\<close> of a child whose page was released;
  for every child named main one in which the parent has yet to test \<open>child->wait\<close>. For a child
  not named main the end of \<open>process_wait\<close>, after \<open>diesem\<close> was raised, is the only place where this can happen.
\<close>

theorem wait_touches_freed_child:
  "(name \<noteq> ''main'' \<longrightarrow> (\<exists>s s'. sync_run (created name tid others) s \<and> parent s = W_jin v \<and> sync_step s s' \<and> parent s' = Stray))
   \<and> (\<exists>s s'. sync_run (created ''main'' tid others) s \<and> parent s = W_check \<and> sync_step s s' \<and> parent s' = Stray)
   \<and> (0 < tid \<longrightarrow> distinct (others @ [tid]) \<longrightarrow> (\<forall>s s'. sync_run (created name tid others) s \<longrightarrow> sync_step s s' \<longrightarrow> parent s' = Stray \<longrightarrow>
        child s = Freed \<and> (name = ''main'' \<or> (\<exists>st. parent s = W_jin st \<or> parent s = W_clear st))))"
proof (intro conjI impI allI)
  let ?s = "(left_state name tid others v)\<lparr>child := Freed\<rparr>"
  assume n: "name \<noteq> ''main''"
  have "sync_run (created name tid others) ?s"
    by (rule play_run [of "[Exit v, Exit v]", OF _ wait_run_run [OF n, of tid others v]]) (simp add: left_state_def play_simps)
  moreover have "sync_step ?s (stray ?s)" by (rule sync_step.wait) (simp add: wait_step_def left_state_def)
  ultimately show "\<exists>s s'. sync_run (created name tid others) s \<and> parent s = W_jin v \<and> sync_step s s' \<and> parent s' = Stray"
    by (intro exI [of _ ?s] exI [of _ "stray ?s"]) (simp add: left_state_def stray_def)
next
  let ?s = "main_state tid others v"
  have "sync_step ?s (stray ?s)" by (rule sync_step.wait) (simp add: wait_step_def main_state_def)
  then show "\<exists>s s'. sync_run (created ''main'' tid others) s \<and> parent s = W_check \<and> sync_step s s' \<and> parent s' = Stray"
    using main_run_run [of tid others v] by (intro exI [of _ ?s] exI [of _ "stray ?s"]) (simp add: main_state_def stray_def)
next
  fix s s'
  assume run: "sync_run (created name tid others) s" "0 < tid" "distinct (others @ [tid])" and step: "sync_step s s'" "parent s' = Stray"
  have inv: "sync_inv s" by (rule reachable_step [OF sync_run_reachable [OF run] step(1)])
  have main: "is_main s \<longleftrightarrow> name = ''main''" using sync_run_same [OF run(1)] by (simp add: created_def is_main_def)
  note fr = stray_freed [OF step(1) inv step(2)]
  then show "child s = Freed" by blast
  show "name = ''main'' \<or> (\<exists>st. parent s = W_jin st \<or> parent s = W_clear st)"
    using freed_place [OF inv] fr main by blast
qed

theorem wait_touches_freed_child_witness:
  "(\<exists>s s'. sync_run (created ''sh'' 3 [2]) s \<and> parent s = W_jin 7 \<and> sync_step s s' \<and> parent s' = Stray \<and> child s = Freed)
   \<and> (\<exists>s s'. sync_run (created ''main'' 3 [2]) s \<and> parent s = W_check \<and> sync_step s s' \<and> parent s' = Stray)"
proof -
  note t = wait_touches_freed_child [of "''sh''" 3 "[2]" 7]
  from t obtain s s' where s: "sync_run (created ''sh'' 3 [2]) s" "parent s = W_jin 7" "sync_step s s'" "parent s' = Stray" by auto
  moreover have "child s = Freed" using t s by auto
  ultimately show ?thesis using t by blast
qed

end
