(* ===== verification/Spec2Isabelle.thy ===== *)
theory Spec2Isabelle
  imports Bitmap Cache Inode_Growth Free_Map Directory_Spec KList_Sort KHash_Spec Page Sched_Spec Arith64 CString Intq Syscall_Spec Process_Stack Process_Sync
begin

text \<open>
  A verification development for the Pintos kernel with virtual memory, a buffer cache, growing files
  and subdirectories (\<open>src/\<close>, configured with USERPROG, FILESYS and VM on i386).

  \<^bold>\<open>The program.\<close> User programs enter the kernel through system calls and page faults. System
  calls (\<open>userprog/syscall.c\<close>) read their arguments from user memory and work on descriptors,
  files (\<open>filesys/file.c\<close>), directories (\<open>filesys/directory.c\<close>) and inodes (\<open>filesys/inode.c\<close>); inodes take
  sectors from the free map (\<open>filesys/free-map.c\<close>) and reach the disk through the buffer cache
  (\<open>filesys/cache.c\<close>). Page faults (\<open>userprog/exception.c\<close>) look up the supplemental page table
  (\<open>vm/page.c\<close>), take frames (\<open>vm/frame.c\<close>), evict pages to swap (\<open>vm/swap.c\<close>) and enter them in page
  directories (\<open>userprog/pagedir.c\<close>) made of pages of the page allocator (\<open>threads/palloc.c\<close>). Programs
  are loaded, run, waited for and ended in \<open>userprog/process.c\<close>. Below all of it are the threads and their
  synchronization (\<open>threads/thread.c\<close>, \<open>threads/synch.c\<close>) and the libraries (\<open>lib/\<close>).

  \<^bold>\<open>How the code is modelled.\<close> A structure is a record and an operation a function on the state with the
  name it has in the code. An operation returns \<open>Inr\<close> of its result and the new state, or \<open>Inl\<close> of
  a \<open>kerror\<close>: a failed assertion or panic, a bad pointer (\<open>PageFault\<close>), or a loop that used up its
  bound. Machine words are \<open>32 word\<close>; \<open>off_t\<close> is an integer with the conversions of \<open>Prelude\<close> where the code
  converts. A null pointer is \<open>None\<close> or 0, and a pointer into the heap is a key of the map
  that holds the objects, so that two uses of one inode share it. Memory that the code does not initialise has the value
  \<open>garbage\<close>, an argument. Whether an allocation of the heap succeeds is read from a sequence
  (\<open>mallocs\<close>) about which nothing is assumed; theorems that promise success ask for it.

  \<^bold>\<open>Theories.\<close>
  \<^item> \<open>Prelude\<close>: results, C integers, byte strings and their little-endian encoding, list lemmas.
  \<^item> \<open>Bitmap\<close> (\<open>lib/kernel/bitmap.c\<close>): bits in 32-bit elements; scanning finds the first run of free bits.
  \<^item> \<open>KList\<close>, \<open>KList_Spec\<close>, \<open>KList_Sort\<close> (\<open>lib/kernel/list.c\<close>): links on a heap; every operation
    computes a function of the sequence of elements, sorting is stable and terminates. The locales
    \<open>weak_order\<close> and \<open>list_order\<close> are what a comparison must satisfy.
  \<^item> \<open>KHash\<close>, \<open>KHash_Spec\<close> (\<open>lib/kernel/hash.c\<close>): hash tables refine sets whichever allocation fails;
    iteration visits every element once. Locale \<open>hash_order\<close>.
  \<^item> \<open>Stdlib\<close>, \<open>CString\<close>, \<open>Arith64\<close> (\<open>lib/stdlib.c\<close>, \<open>lib/string.c\<close>, \<open>lib/arithmetic.c\<close>): number parsing, heap
    sort, binary search; string functions on a byte memory, with \<open>strtok_r\<close> against a tokenizer on lists;
    64-bit division against division of words.
  \<^item> \<open>Intq\<close> (\<open>devices/intq.c\<close>): the ring buffer is a bounded queue (locale \<open>bounded_fifo\<close>).
  \<^item> \<open>Cache\<close> (\<open>filesys/cache.c\<close>, \<open>devices/disk.c\<close>): reads and partial writes through the cache behave as on
    a plain array of sectors, whatever is evicted (locale \<open>block_store\<close>).
  \<^item> \<open>Inode\<close>, \<open>Inode_Spec\<close>, \<open>Inode_Growth\<close> (\<open>filesys/inode.c\<close>): the sector map with direct, indirect and
    doubly indirect blocks; a file is the byte string \<open>file_bytes\<close>; reading returns it, growth
    appends zeros, up to the 256 KiB of one indirect block; past them the code is modelled and nothing is claimed. The locale \<open>sector_allocator\<close> is what growth needs of the free map.
  \<^item> \<open>Free_Map\<close> (\<open>filesys/free-map.c\<close>, \<open>filesys/file.c\<close>): interprets that locale with the code's allocator, and
    concludes what writes past the end of a file do.
  \<^item> \<open>Directory\<close>, \<open>Directory_Spec\<close> (\<open>filesys/directory.c\<close>, \<open>filesys/filesys.c\<close>): a directory is a map from
    names to sectors, which adding, looking up and removing names follow.
  \<^item> \<open>Syscall\<close>, \<open>Syscall_Spec\<close> (\<open>userprog/syscall.c\<close>): the handler with every call on files and directories;
    read and write calls from user memory to the bytes of the file; the pages a call borrows.
  \<^item> \<open>Vaddr\<close>, \<open>Palloc\<close>, \<open>Pagedir\<close> (\<open>threads/vaddr.h\<close>, \<open>threads/palloc.c\<close>, \<open>userprog/pagedir.c\<close>): pages are handed
    out once (locale \<open>page_source\<close>); page directories with the translation buffer refine maps
    from pages to frames, for any number of address spaces.
  \<^item> \<open>Page\<close>, \<open>Vm\<close>, \<open>Vm_Spec\<close>, \<open>Vm_Growth\<close> (\<open>vm/\<close>, \<open>userprog/exception.c\<close>): frames, swap and page faults; paging
    keeps the contents of every page of every process, and the stack grows by zero pages.
  \<^item> \<open>Process\<close>, \<open>Process_Spec\<close>, \<open>Process_Stack\<close> (\<open>userprog/process.c\<close>): executables are loaded as their headers
    say, no executable fails an assertion, and the initial stack holds the arguments.
  \<^item> \<open>Process_Sync\<close> (\<open>userprog/process.c\<close>): the handshake of parent and child as a step relation, with every
    interleaving, loads that end in \<open>thread_exit\<close> and children named main; answers of execute and wait, where a run can
    stop, and where a parent uses a child that was freed.
  \<^item> \<open>Sched\<close>, \<open>Sched_Inv\<close>, \<open>Sched_Mutex\<close>, \<open>Sched_Spec\<close> (\<open>threads/thread.c\<close>, \<open>threads/synch.c\<close>): threads as programs of
    kernel operations that may be preempted between any two; queues, mutual exclusion, no failed
    assertion, round robin (locale \<open>transition_system\<close>).

  \<^bold>\<open>Bounds of loops.\<close> A loop over a structure that may be cyclic or unterminated takes a bound, and its
  lemmas hold for every bound that is large enough: for lists and hash buckets the number of elements, for strings the distance
  to the null byte, for directories \<open>scan_fuel\<close> (the entries of the
  file and two), for the eviction clock one round of the frame list and the first frame again, for a segment its number of pages
  and one (\<open>segment_fuel\<close>). The theorems state the bound or the definitions take it from the
  state, so that a result \<open>Inr\<close> is a loop that ended. Writing the free map to its file calls
  \<open>inode_write_at\<close> again; the inner call gets an allocator that always fails (\<open>no_alloc\<close>), and the free map file
  is shown never to need it.

  \<^bold>\<open>Not modelled.\<close> File system and paging operations are run by one thread at a time: the locks of
  the code, which it holds around parts of them only, are not state, and write-behind is the operation that flushes, not
  the thread that calls it. A file is read completely before its bytes are stored in user memory. System calls
  see user memory as the bytes that are mapped or that the fault handler would bring in; exec, wait, mmap and munmap are an argument
  of \<open>syscall_handler\<close>, what exec and wait call is in \<open>Process\<close> and \<open>Process_Sync\<close>. The heap
  allocator (\<open>threads/malloc.c\<close>) is the sequence \<open>mallocs\<close>. Interrupt dispatch, the port protocol of the
  disk, console devices, segment and task tables, the loader and the boot code are hardware. Formatted
  output, statistics and the user library have no effect on the modelled state.
\<close>

end
